(* ===== verification/AFL_Prelude.thy ===== *)
theory AFL_Prelude
  imports Main "HOL-Library.Word"
begin

text \<open>
  Shared vocabulary of the development: the C integer types, the result type of code that
  can go wrong, the sequencing operator and the loop operator over it, the proof rule
  \<open>safe\<close> that every component uses, and the \<open>string.h\<close> primitives on byte buffers.

  A C function that may access memory, abort or fail to return is modelled as a value of
  \<open>'a res\<close>: \<open>Inr\<close> is a normal return, \<open>Inl Fault\<close> an access outside an
  allocation (or an overlapping \<open>memcpy\<close>), \<open>Inl Diverge\<close> a loop that never ends and
  \<open>Inl Fatal\<close> a call of one of the \<open>FATAL\<close> macros, which end the process.
\<close>

unbundle bit_operations_syntax

section \<open>Integer types\<close>

type_synonym u8 = "8 word"
type_synonym u16 = "16 word"
type_synonym u32 = "32 word"
type_synonym u64 = "64 word"

text \<open>
  Lengths and offsets are \<open>u32\<close> in the C code. They are kept as natural numbers with the
  wrap-around of the C operators written out.
\<close>

definition u32_add :: "nat \<Rightarrow> nat \<Rightarrow> nat" where
  "u32_add a b = (a + b) mod 2 ^ 32"

definition u32_sub :: "nat \<Rightarrow> nat \<Rightarrow> nat" where
  "u32_sub a b = (a + (2 ^ 32 - b mod 2 ^ 32)) mod 2 ^ 32"

lemma u32_add_exact [simp]: "a + b < 4294967296 \<Longrightarrow> u32_add a b = a + b"
  by (simp add: u32_add_def)

lemma u32_sub_exact [simp]: "b \<le> a \<Longrightarrow> a < 4294967296 \<Longrightarrow> u32_sub a b = a - b"
proof -
  assume b: "b \<le> a" and a: "a < 4294967296"
  then have "a + (4294967296 - b) = (a - b) + 4294967296" by simp
  then have "(a + (4294967296 - b)) mod 4294967296 = a - b" using a by (simp only: mod_add_self2) simp
  with a b show ?thesis by (simp add: u32_sub_def)
qed

lemma u32_add_bound: "u32_add a b < 4294967296"
  by (simp add: u32_add_def)

lemma u32_sub_bound: "u32_sub a b < 4294967296"
  by (simp add: u32_sub_def)

lemma u32_sub_cancel: "(b + u32_sub a b) mod 4294967296 = a mod 4294967296"
proof -
  let ?M = "4294967296 :: nat"
  have "b mod ?M < ?M" by simp
  then have eq: "b mod ?M + (a + (?M - b mod ?M)) = a + ?M" by linarith
  have "(b + u32_sub a b) mod ?M = (b mod ?M + (a + (?M - b mod ?M)) mod ?M) mod ?M"
    by (simp add: u32_sub_def mod_add_left_eq)
  also have "\<dots> = (a + ?M) mod ?M"
    by (simp only: mod_add_right_eq eq)
  finally show ?thesis by (simp only: mod_add_self2)
qed

lemma unat_pow2: "k < 64 \<Longrightarrow> unat ((2 :: u64) ^ k) = 2 ^ k"
proof -
  assume k: "k < 64"
  have "(2 :: u64) ^ k = of_nat (2 ^ k)" by simp
  moreover have "(2 :: nat) ^ k < 2 ^ 64" using k by (rule power_strict_increasing) simp
  ultimately show ?thesis by (simp only: unat_of_nat) simp
qed

lemma less_16_cases: "k < (16 :: nat) \<Longrightarrow> k \<in> {0, 1, 2, 3, 4, 5, 6, 7, 8, 9, 10, 11, 12, 13, 14, 15}"
  unfolding insert_iff empty_iff by presburger

lemma take_exact2: "length a + length b = k \<Longrightarrow> take k (a @ b @ c) = a @ b"
  by auto

lemma take_exact3: "length a + length b + length c = k \<Longrightarrow> take k (a @ b @ c @ d) = a @ b @ c"
  by auto

lemma take_overwrite: "length ds = n \<Longrightarrow> p + n \<le> l \<Longrightarrow> l \<le> length b \<Longrightarrow>
    take l (take p b @ ds @ drop (p + n) b) = take p (take l b) @ ds @ drop (p + n) (take l b)"
  by (simp add: drop_take)

text \<open>Counting in a list after an assignment.\<close>

lemma count_list_update:
  "i < length xs \<Longrightarrow> count_list (xs[i := y]) x + of_bool (xs ! i = x) = count_list xs x + of_bool (y = x)"
proof (induction xs arbitrary: i)
  case (Cons a xs)
  show ?case
  proof (cases i)
    case (Suc k)
    then have "count_list (xs[k := y]) x + of_bool (xs ! k = x) = count_list xs x + of_bool (y = x)" using Cons by simp
    then show ?thesis using Suc by simp
  qed simp
qed simp

lemma count_list_le: "count_list xs x \<le> length xs"
  by (induction xs) auto

lemma count_list_pos: "i < length xs \<Longrightarrow> xs ! i = x \<Longrightarrow> 0 < count_list xs x"
  by (metis count_list_0_iff gr0I nth_mem)

lemma filter_update: "i < length xs \<Longrightarrow>
    length (filter P (xs[i := y])) + of_bool (P (xs ! i)) = length (filter P xs) + of_bool (P y)"
proof (induction xs arbitrary: i)
  case (Cons a xs)
  show ?case
  proof (cases i)
    case (Suc k)
    then have "length (filter P (xs[k := y])) + of_bool (P (xs ! k)) = length (filter P xs) + of_bool (P y)" using Cons by simp
    then show ?thesis using Suc by simp
  qed simp
qed simp

lemma filter_no_change: "i < length xs \<Longrightarrow> \<not> P (xs ! i) \<Longrightarrow> \<not> P y \<Longrightarrow> filter P (xs[i := y]) = filter P xs"
proof (induction xs arbitrary: i)
  case (Cons a xs)
  then show ?case by (cases i) simp_all
qed simp

section \<open>Results, sequencing\<close>

datatype err = Fault | Diverge | Fatal

type_synonym 'a res = "err + 'a"

definition ebind :: "'a res \<Rightarrow> ('a \<Rightarrow> 'b res) \<Rightarrow> 'b res" where
  "ebind m f = (case m of Inl e \<Rightarrow> Inl e | Inr x \<Rightarrow> f x)"

lemma ebind_simps [simp]: "ebind (Inl e) f = Inl e" "ebind (Inr x) f = f x"
  by (simp_all add: ebind_def)

lemma ebind_Inr_iff: "ebind m f = Inr y \<longleftrightarrow> (\<exists>x. m = Inr x \<and> f x = Inr y)"
  by (cases m) auto

lemma ebind_assoc: "ebind (ebind m f) g = ebind m (\<lambda>x. ebind (f x) g)"
  by (cases m) auto

text \<open>
  \<open>safe m Q\<close>: the computation does not fault, and if it returns, the result satisfies
  \<open>Q\<close>. It says nothing about a computation that aborts or does not return; those get
  theorems of their own.
\<close>

definition safe :: "'a res \<Rightarrow> ('a \<Rightarrow> bool) \<Rightarrow> bool" where
  "safe m Q = (case m of Inl e \<Rightarrow> e \<noteq> Fault | Inr x \<Rightarrow> Q x)"

lemma safe_simps [simp]: "safe (Inr x) Q = Q x" "safe (Inl e) Q = (e \<noteq> Fault)"
  by (simp_all add: safe_def)

lemma safe_ebind: "safe m P \<Longrightarrow> (\<And>x. P x \<Longrightarrow> safe (f x) Q) \<Longrightarrow> safe (ebind m f) Q"
  by (cases m) auto

lemma safe_mono: "safe m P \<Longrightarrow> (\<And>x. P x \<Longrightarrow> Q x) \<Longrightarrow> safe m Q"
  by (cases m) auto

lemma safe_conj: "safe m P \<Longrightarrow> safe m Q \<Longrightarrow> safe m (\<lambda>x. P x \<and> Q x)"
  by (cases m) auto

lemma safe_no_fault: "safe m Q \<Longrightarrow> m \<noteq> Inl Fault"
  by auto

lemma safe_result: "safe m Q \<Longrightarrow> m = Inr x \<Longrightarrow> Q x"
  by simp

section \<open>Loops without a bound\<close>

text \<open>
  \<open>run_loop body s\<close> repeats \<open>body\<close> from state \<open>s\<close> until it breaks with a result. The C
  loops it stands for (rejection sampling, \<open>goto retry\<close>, \<open>do .. while\<close>) have no bound in
  the code, so \<open>Diverge\<close> is one of its values.
\<close>

datatype ('a, 's) ctl = Break 'a | Cont 's

partial_function (option) loop_opt ::
  "('s \<Rightarrow> (('a, 's) ctl) res) \<Rightarrow> 's \<Rightarrow> ('a res) option" where
  "loop_opt body s =
     (case body s of
        Inl e \<Rightarrow> Some (Inl e)
      | Inr c \<Rightarrow> (case c of Break a \<Rightarrow> Some (Inr a) | Cont s' \<Rightarrow> loop_opt body s'))"

declare loop_opt.simps [code]

definition run_loop :: "('s \<Rightarrow> (('a, 's) ctl) res) \<Rightarrow> 's \<Rightarrow> 'a res" where
  "run_loop body s = (case loop_opt body s of None \<Rightarrow> Inl Diverge | Some r \<Rightarrow> r)"

lemma run_loop_unfold:
  "run_loop body s =
     (case body s of
        Inl e \<Rightarrow> Inl e
      | Inr c \<Rightarrow> (case c of Break a \<Rightarrow> Inr a | Cont s' \<Rightarrow> run_loop body s'))"
  unfolding run_loop_def
  by (subst loop_opt.simps) (simp split: sum.splits ctl.splits)

lemma run_loop_Inl: "body s = Inl e \<Longrightarrow> run_loop body s = Inl e"
  by (subst run_loop_unfold) simp

lemma run_loop_Break: "body s = Inr (Break a) \<Longrightarrow> run_loop body s = Inr a"
  by (subst run_loop_unfold) simp

lemma run_loop_Cont: "body s = Inr (Cont s') \<Longrightarrow> run_loop body s = run_loop body s'"
  by (subst run_loop_unfold) simp

lemma loop_opt_safe:
  assumes step: "\<And>s. I s \<Longrightarrow> safe (body s) (\<lambda>c. case c of Break a \<Rightarrow> Q a | Cont s' \<Rightarrow> I s')"
    and init: "I s" and ret: "loop_opt body s = Some r"
  shows "safe r Q"
proof -
  have "I s \<longrightarrow> (\<forall>s. I s \<longrightarrow> safe (body s) (\<lambda>c. case c of Break a \<Rightarrow> Q a | Cont s' \<Rightarrow> I s'))
        \<longrightarrow> safe r Q"
  proof (rule loop_opt.raw_induct [where P = "\<lambda>body s r. I s \<longrightarrow>
        (\<forall>s. I s \<longrightarrow> safe (body s) (\<lambda>c. case c of Break a \<Rightarrow> Q a | Cont s' \<Rightarrow> I s'))
        \<longrightarrow> safe r Q", OF _ ret], goal_cases)
    case (1 f body s r)
    note IH = "1"(1) and eq = "1"(2)
    show ?case
    proof (intro impI)
      assume I: "I s"
        and body: "\<forall>s. I s \<longrightarrow> safe (body s) (\<lambda>c. case c of Break a \<Rightarrow> Q a | Cont s' \<Rightarrow> I s')"
      from body I have "safe (body s) (\<lambda>c. case c of Break a \<Rightarrow> Q a | Cont s' \<Rightarrow> I s')" by simp
      with eq IH [of body] body show "safe r Q"
        by (cases "body s") (auto split: ctl.splits)
    qed
  qed
  with init step show ?thesis by blast
qed

theorem run_loop_safe:
  assumes "\<And>s. I s \<Longrightarrow> safe (body s) (\<lambda>c. case c of Break a \<Rightarrow> Q a | Cont s' \<Rightarrow> I s')"
    and "I s"
  shows "safe (run_loop body s) Q"
  using loop_opt_safe [OF assms] by (simp add: run_loop_def split: option.splits)

text \<open>A loop whose body decreases a measure under an invariant returns or stops with an error.\<close>

theorem run_loop_returns:
  assumes step: "\<And>s. I s \<Longrightarrow> (\<exists>a. body s = Inr (Break a) \<and> Q a) \<or>
                       (\<exists>s'. body s = Inr (Cont s') \<and> I s' \<and> m s' < (m s :: nat))"
    and "I s"
  shows "\<exists>a. run_loop body s = Inr a \<and> Q a"
  using \<open>I s\<close>
proof (induction "m s" arbitrary: s rule: less_induct)
  case less
  from step [OF less.prems] show ?case
  proof (elim disjE exE conjE)
    fix a assume "body s = Inr (Break a)" "Q a"
    then show ?thesis by (auto simp: run_loop_Break)
  next
    fix s' assume "body s = Inr (Cont s')" "I s'" "m s' < m s"
    with less.hyps show ?thesis by (auto simp: run_loop_Cont)
  qed
qed

text \<open>A loop that continues from every state of a set it never leaves does not return.\<close>

theorem run_loop_diverges:
  assumes step: "\<And>s. I s \<Longrightarrow> \<exists>s'. body s = Inr (Cont s') \<and> I s'" and "I s"
  shows "run_loop body s = Inl Diverge"
proof -
  have "loop_opt body s \<noteq> Some r" for r
  proof
    assume ret: "loop_opt body s = Some r"
    have "I s \<longrightarrow> (\<forall>s. I s \<longrightarrow> (\<exists>s'. body s = Inr (Cont s') \<and> I s')) \<longrightarrow> False"
    proof (rule loop_opt.raw_induct [where P = "\<lambda>body s r. I s \<longrightarrow>
        (\<forall>s. I s \<longrightarrow> (\<exists>s'. body s = Inr (Cont s') \<and> I s')) \<longrightarrow> False", OF _ ret], goal_cases)
      case (1 f body s r)
      then show ?case by (fastforce split: sum.splits ctl.splits)
    qed
    with assms show False by blast
  qed
  then show ?thesis by (simp add: run_loop_def split: option.splits)
qed

section \<open>Counting loops\<close>

text \<open>
  \<open>count_loop n k body s\<close> runs \<open>body\<close> at the indexes \<open>k\<close>, \<open>k + 1\<close>, ... for \<open>n\<close> rounds: the C
  loops \<open>while (i--) { ...; ptr++; }\<close> and \<open>for (i = k; i < k + n; i++)\<close> without a \<open>break\<close>.
\<close>

primrec count_loop :: "nat \<Rightarrow> nat \<Rightarrow> (nat \<Rightarrow> 's \<Rightarrow> 's res) \<Rightarrow> 's \<Rightarrow> 's res" where
  "count_loop 0 k body s = Inr s"
| "count_loop (Suc n) k body s = ebind (body k s) (count_loop n (Suc k) body)"

lemma count_loop_inv:
  assumes "\<And>j s. k \<le> j \<Longrightarrow> j < k + n \<Longrightarrow> I j s \<Longrightarrow> \<exists>s'. body j s = Inr s' \<and> I (Suc j) s'"
    and "I k s"
  shows "\<exists>s'. count_loop n k body s = Inr s' \<and> I (k + n) s'"
  using assms
proof (induction n arbitrary: k s)
  case (Suc n)
  from Suc.prems(1) [of k s] Suc.prems(2) obtain s1 where s1: "body k s = Inr s1" "I (Suc k) s1" by auto
  have "\<exists>s'. count_loop n (Suc k) body s1 = Inr s' \<and> I (Suc k + n) s'"
    by (rule Suc.IH) (use Suc.prems(1) s1(2) in auto)
  with s1(1) show ?case by simp
qed simp

lemma count_loop_cong:
  assumes "\<And>j s. k \<le> j \<Longrightarrow> j < k + n \<Longrightarrow> body j s = body' j s"
  shows "count_loop n k body s = count_loop n k body' s"
  using assms
proof (induction n arbitrary: k s)
  case (Suc n)
  have "count_loop n (Suc k) body = count_loop n (Suc k) body'"
    by (rule ext) (rule Suc.IH, use Suc.prems in auto)
  with Suc.prems [of k] show ?case by simp
qed simp

end
