(* ===== verification/AFL_Bytes.thy ===== *)
theory AFL_Bytes
  imports AFL_Prelude
begin

text \<open>
  Byte buffers. An allocation is the list of its bytes, so its capacity is the length of the
  list; every access checks its bounds and is a \<open>Fault\<close> outside them. The 16- and 32-bit
  accesses through casted pointers are little endian, as on the x86 hosts of the fuzzer.
  \<open>SWAP16\<close> and \<open>SWAP32\<close> are the macros of \<^verbatim>\<open>include/types.h\<close>.
\<close>

type_synonym bytes = "u8 list"

section \<open>Accesses with bounds\<close>

definition load8 :: "bytes \<Rightarrow> nat \<Rightarrow> u8 res" where
  "load8 b i = (if i < length b then Inr (b ! i) else Inl Fault)"

definition store8 :: "bytes \<Rightarrow> nat \<Rightarrow> u8 \<Rightarrow> bytes res" where
  "store8 b i v = (if i < length b then Inr (b[i := v]) else Inl Fault)"

definition load16 :: "bytes \<Rightarrow> nat \<Rightarrow> u16 res" where
  "load16 b i = (if i + 2 \<le> length b
     then Inr (ucast (b ! i) OR push_bit 8 (ucast (b ! (i + 1)))) else Inl Fault)"

definition store16 :: "bytes \<Rightarrow> nat \<Rightarrow> u16 \<Rightarrow> bytes res" where
  "store16 b i v = (if i + 2 \<le> length b
     then Inr (b[i := ucast v, i + 1 := ucast (drop_bit 8 v)]) else Inl Fault)"

definition load32 :: "bytes \<Rightarrow> nat \<Rightarrow> u32 res" where
  "load32 b i = (if i + 4 \<le> length b
     then Inr (ucast (b ! i) OR push_bit 8 (ucast (b ! (i + 1)))
               OR push_bit 16 (ucast (b ! (i + 2))) OR push_bit 24 (ucast (b ! (i + 3))))
     else Inl Fault)"

definition store32 :: "bytes \<Rightarrow> nat \<Rightarrow> u32 \<Rightarrow> bytes res" where
  "store32 b i v = (if i + 4 \<le> length b
     then Inr (b[i := ucast v, i + 1 := ucast (drop_bit 8 v),
                 i + 2 := ucast (drop_bit 16 v), i + 3 := ucast (drop_bit 24 v)])
     else Inl Fault)"

text \<open>The largest test case.\<close>

definition MAX_FILE :: nat where "MAX_FILE = 1048576"

definition SWAP16 :: "u16 \<Rightarrow> u16" where
  "SWAP16 x = push_bit 8 x OR drop_bit 8 x"

definition SWAP32 :: "u32 \<Rightarrow> u32" where
  "SWAP32 x = push_bit 24 x OR drop_bit 24 x OR (push_bit 8 x AND 0x00FF0000)
              OR (drop_bit 8 x AND 0x0000FF00)"

section \<open>Block operations of \<^verbatim>\<open>string.h\<close>\<close>

definition memset :: "bytes \<Rightarrow> nat \<Rightarrow> u8 \<Rightarrow> nat \<Rightarrow> bytes res" where
  "memset dst d v n = (if d + n \<le> length dst
     then Inr (take d dst @ replicate n v @ drop (d + n) dst) else Inl Fault)"

text \<open>\<open>memcpy\<close> between two different allocations.\<close>

definition memcpy :: "bytes \<Rightarrow> nat \<Rightarrow> bytes \<Rightarrow> nat \<Rightarrow> nat \<Rightarrow> bytes res" where
  "memcpy dst d src s n = (if d + n \<le> length dst \<and> s + n \<le> length src
     then Inr (take d dst @ take n (drop s src) @ drop (d + n) dst) else Inl Fault)"

text \<open>\<open>memmove\<close> within one allocation; the regions may overlap.\<close>

definition memmove :: "bytes \<Rightarrow> nat \<Rightarrow> nat \<Rightarrow> nat \<Rightarrow> bytes res" where
  "memmove b d s n = memcpy b d b s n"

text \<open>\<open>memcpy\<close> within one allocation: undefined when the regions overlap.\<close>

definition memcpy_same :: "bytes \<Rightarrow> nat \<Rightarrow> nat \<Rightarrow> nat \<Rightarrow> bytes res" where
  "memcpy_same b d s n =
     (if d + n \<le> s \<or> s + n \<le> d then memmove b d s n else Inl Fault)"

section \<open>Their laws\<close>

named_theorems mem_ok \<comment> \<open>an access inside its allocation returns\<close>

lemma load8_ok [mem_ok]: "i < length b \<Longrightarrow> load8 b i = Inr (b ! i)"
  by (simp add: load8_def)

lemma store8_ok [mem_ok]: "i < length b \<Longrightarrow> store8 b i v = Inr (b[i := v])"
  by (simp add: store8_def)

lemma load16_ok [mem_ok]: "i + 2 \<le> length b \<Longrightarrow>
    load16 b i = Inr (ucast (b ! i) OR push_bit 8 (ucast (b ! (i + 1))))"
  by (simp add: load16_def)

lemma store16_ok [mem_ok]: "i + 2 \<le> length b \<Longrightarrow>
    store16 b i v = Inr (b[i := ucast v, i + 1 := ucast (drop_bit 8 v)])"
  by (simp add: store16_def)

lemma load32_ok [mem_ok]: "i + 4 \<le> length b \<Longrightarrow> load32 b i =
    Inr (ucast (b ! i) OR push_bit 8 (ucast (b ! (i + 1)))
         OR push_bit 16 (ucast (b ! (i + 2))) OR push_bit 24 (ucast (b ! (i + 3))))"
  by (simp add: load32_def)

lemma store32_ok [mem_ok]: "i + 4 \<le> length b \<Longrightarrow> store32 b i v =
    Inr (b[i := ucast v, i + 1 := ucast (drop_bit 8 v),
           i + 2 := ucast (drop_bit 16 v), i + 3 := ucast (drop_bit 24 v)])"
  by (simp add: store32_def)

lemma memset_ok [mem_ok]: "d + n \<le> length dst \<Longrightarrow>
    memset dst d v n = Inr (take d dst @ replicate n v @ drop (d + n) dst)"
  by (simp add: memset_def)

lemma memcpy_ok [mem_ok]: "d + n \<le> length dst \<Longrightarrow> s + n \<le> length src \<Longrightarrow>
    memcpy dst d src s n = Inr (take d dst @ take n (drop s src) @ drop (d + n) dst)"
  by (simp add: memcpy_def)

lemma memmove_ok [mem_ok]: "d + n \<le> length b \<Longrightarrow> s + n \<le> length b \<Longrightarrow>
    memmove b d s n = Inr (take d b @ take n (drop s b) @ drop (d + n) b)"
  by (simp add: memmove_def memcpy_def)

lemma memcpy_same_ok [mem_ok]: "d + n \<le> length b \<Longrightarrow> s + n \<le> length b \<Longrightarrow>
    d + n \<le> s \<or> s + n \<le> d \<Longrightarrow>
    memcpy_same b d s n = Inr (take d b @ take n (drop s b) @ drop (d + n) b)"
  by (auto simp: memcpy_same_def mem_ok)

lemma SWAP16_involution [simp]: "SWAP16 (SWAP16 x) = x"
  by (rule bit_word_eqI) (auto simp: SWAP16_def bit_simps)

lemma SWAP32_masks:
  "(0x00FF0000 :: u32) = push_bit 16 (mask 8)" "(0x0000FF00 :: u32) = push_bit 8 (mask 8)"
  by (simp_all add: mask_eq_exp_minus_1 push_bit_eq_mult)

lemma SWAP32_involution [simp]: "SWAP32 (SWAP32 x) = x"
proof (rule bit_word_eqI)
  fix n assume "n < LENGTH(32)"
  then have "n < 8 \<or> 8 \<le> n \<and> n < 16 \<or> 16 \<le> n \<and> n < 24 \<or> 24 \<le> n \<and> n < 32" by auto
  then show "bit (SWAP32 (SWAP32 x)) n \<longleftrightarrow> bit x n"
    unfolding SWAP32_def SWAP32_masks by (elim disjE conjE) (auto simp: bit_simps dest: bit_imp_le_length)
qed

lemma load16_store16:
  assumes "store16 b i v = Inr b'"
  shows "load16 b' i = Inr v"
proof -
  from assms have b': "b' = b[i := ucast v, i + 1 := ucast (drop_bit 8 v)]" and i: "i + 2 \<le> length b"
    by (auto simp: store16_def split: if_splits)
  have "ucast (ucast v :: u8) OR push_bit 8 (ucast (ucast (drop_bit 8 v) :: u8)) = v"
    by (rule bit_word_eqI) (auto simp: bit_simps)
  with i show ?thesis by (simp add: b' load16_def nth_list_update)
qed

lemma load32_store32:
  assumes "store32 b i v = Inr b'"
  shows "load32 b' i = Inr v"
proof -
  from assms have b': "b' = b[i := ucast v, i + 1 := ucast (drop_bit 8 v),
           i + 2 := ucast (drop_bit 16 v), i + 3 := ucast (drop_bit 24 v)]" and i: "i + 4 \<le> length b"
    by (auto simp: store32_def split: if_splits)
  have "ucast (ucast v :: u8) OR push_bit 8 (ucast (ucast (drop_bit 8 v) :: u8))
      OR push_bit 16 (ucast (ucast (drop_bit 16 v) :: u8))
      OR push_bit 24 (ucast (ucast (drop_bit 24 v) :: u8)) = v" (is "?l = v")
  proof (rule bit_word_eqI)
    fix n assume "n < LENGTH(32)"
    then have "n < 8 \<or> 8 \<le> n \<and> n < 16 \<or> 16 \<le> n \<and> n < 24 \<or> 24 \<le> n \<and> n < 32" by auto
    then show "bit ?l n \<longleftrightarrow> bit v n"
      by (elim disjE conjE) (auto simp: bit_simps dest: bit_imp_le_length)
  qed
  with i show ?thesis by (simp add: b' load32_def nth_list_update)
qed

end
