(* ===== verification/AFL_Rng.thy ===== *)
theory AFL_Rng
  imports AFL_Bytes
begin

text \<open>
  The random source of the fuzzer: \<open>rand_set_seed\<close> and \<open>rand_next\<close> of
  \<^verbatim>\<open>src/afl-performance.c\<close> (the 64-bit RomuDuoJr variant) and the inline functions
  \<open>rand_below\<close>, \<open>rand_below_datalen\<close> and \<open>next_p2\<close> of \<^verbatim>\<open>include/afl-fuzz.h\<close>. The locale
  \<open>rng_source\<close> is what the mutators rely on; it is interpreted on this model at the end.
\<close>

section \<open>State\<close>

text \<open>
  The fields of \<open>afl_state_t\<close> that the functions use. \<open>urandom\<close> is what
  \<^verbatim>\<open>/dev/urandom\<close> will deliver, 24 bytes (the three seed words) per \<open>ck_read\<close>; a
  short read makes \<open>ck_read\<close> end the process.
\<close>

record rng =
  rand_seed0 :: u64
  rand_seed1 :: u64
  rand_seed2 :: u64
  rand_cnt :: u32
  fixed_seed :: bool
  init_seed :: u64
  urandom :: "(u64 \<times> u64 \<times> u64) list"

definition ROTL64 :: "u64 \<Rightarrow> nat \<Rightarrow> u64" where
  "ROTL64 d lrot = push_bit lrot d OR drop_bit (64 - lrot) d"

text \<open>
  \<open>hash64\<close> ignores its seed and is XXH3 of the vendored \<^verbatim>\<open>xxhash.h\<close>, here the
  argument \<open>xxh3\<close>; it is applied to the eight bytes of the seed in memory order.
\<close>

definition hash64 :: "(bytes \<Rightarrow> u64) \<Rightarrow> bytes \<Rightarrow> u64 \<Rightarrow> u64" where
  "hash64 xxh3 key seed = xxh3 key"

definition bytes_of_u64 :: "u64 \<Rightarrow> bytes" where
  "bytes_of_u64 x = map (\<lambda>i. ucast (drop_bit (8 * i) x)) [0..<8]"

definition rand_set_seed :: "(bytes \<Rightarrow> u64) \<Rightarrow> u64 \<Rightarrow> rng \<Rightarrow> rng" where
  "rand_set_seed xxh3 seed r =
     (let s0 = hash64 xxh3 (bytes_of_u64 seed) 0xa5b35705;
          s1 = s0 XOR 0x1234567890abcdef;
          s2 = (s0 AND 0x1234567890abcdef) XOR (s1 OR 0xfedcba9876543210)
      in r\<lparr>init_seed := seed, rand_seed0 := s0, rand_seed1 := s1, rand_seed2 := s2\<rparr>)"

definition rand_next :: "rng \<Rightarrow> u64 \<times> rng" where
  "rand_next r =
     (let xp = rand_seed0 r;
          s0 = 15241094284759029579 * rand_seed1 r;
          s1 = ROTL64 (rand_seed1 r - xp) 27
      in (xp, r\<lparr>rand_seed0 := s0, rand_seed1 := s1\<rparr>))"

section \<open>\<open>rand_below\<close>\<close>

definition RESEED_RNG :: nat where "RESEED_RNG = 2500000"

text \<open>The reseeding at the head of \<open>rand_below\<close>: the counter wraps when it is decremented at 0.\<close>

definition rand_reseed :: "rng \<Rightarrow> rng res" where
  "rand_reseed r =
     (let expired = (rand_cnt r = 0); r = r\<lparr>rand_cnt := rand_cnt r - 1\<rparr> in
      if expired \<and> \<not> fixed_seed r then
        (case urandom r of
           [] \<Rightarrow> Inl Fatal
         | (a, b, c) # rest \<Rightarrow>
             Inr (r\<lparr>rand_seed0 := a, rand_seed1 := b, rand_seed2 := c, urandom := rest,
                    rand_cnt := of_nat (RESEED_RNG div 2 + unat b mod RESEED_RNG)\<rparr>))
      else Inr r)"

definition UINT64_MAX :: nat where "UINT64_MAX = 2 ^ 64 - 1"

definition rand_accept :: "nat \<Rightarrow> u64 \<Rightarrow> bool" where
  "rand_accept limit x = (unat x < UINT64_MAX - UINT64_MAX mod limit)"

definition rand_draw :: "nat \<Rightarrow> rng \<Rightarrow> ((nat \<times> rng, rng) ctl) res" where
  "rand_draw limit r =
     (case rand_next r of (x, r') \<Rightarrow>
        if rand_accept limit x then Inr (Break (unat x mod limit, r')) else Inr (Cont r'))"

definition rand_below :: "nat \<Rightarrow> rng \<Rightarrow> (nat \<times> rng) res" where
  "rand_below limit r =
     (if limit \<le> 1 then Inr (0, r)
      else ebind (rand_reseed r) (run_loop (rand_draw limit)))"

text \<open>
  The operands of \<open>%\<close> are evaluated from left to right here; C leaves the order open.
\<close>

definition rand_below_datalen :: "nat \<Rightarrow> rng \<Rightarrow> (nat \<times> rng) res" where
  "rand_below_datalen limit r =
     (if limit \<le> 1 then Inr (0, r) else
      ebind (rand_below 3 r) (\<lambda>(c, r).
        if c = 2 then
          ebind (rand_below limit r) (\<lambda>(x, r).
          ebind (rand_below (limit - 1) r) (\<lambda>(y, r).
          ebind (rand_below (limit - 1) r) (\<lambda>(z, r).
            Inr ((x mod (1 + y)) mod (1 + z), r))))
        else if c = 1 then
          ebind (rand_below limit r) (\<lambda>(x, r).
          ebind (rand_below (limit - 1) r) (\<lambda>(y, r).
            Inr (x mod (1 + y), r)))
        else if c = 0 then rand_below limit r
        else Inr (1, r)))"

definition next_p2 :: "u64 \<Rightarrow> u64 res" where
  "next_p2 val = run_loop (\<lambda>ret. if ret < val then Inr (Cont (push_bit 1 ret)) else Inr (Break ret)) 1"

section \<open>The interface the mutators use\<close>

locale rng_source =
  fixes rb :: "nat \<Rightarrow> 'r \<Rightarrow> (nat \<times> 'r) res"
  assumes rb_small: "limit \<le> 1 \<Longrightarrow> rb limit r = Inr (0, r)"
    and rb_below: "1 < limit \<Longrightarrow> safe (rb limit r) (\<lambda>(x, r'). x < limit)"
begin

lemma rb_zero [simp]: "rb 0 r = Inr (0, r)" and rb_one [simp]: "rb (Suc 0) r = Inr (0, r)"
  by (simp_all add: rb_small)

lemma rb_safe: "safe (rb limit r) (\<lambda>(x, r'). x < limit \<or> limit = 0 \<and> x = 0)"
proof (cases "1 < limit")
  case True
  from rb_below [OF this] show ?thesis by (rule safe_mono) auto
next
  case False
  then have "limit = 0 \<or> limit = 1" by auto
  then show ?thesis by auto
qed

lemma rb_bind:
  assumes "\<And>x r'. x < limit \<or> limit = 0 \<and> x = 0 \<Longrightarrow> safe (f (x, r')) Q"
  shows "safe (ebind (rb limit r) f) Q"
  by (rule safe_ebind [OF rb_safe]) (use assms in auto)

lemma rb_pos: "0 < limit \<Longrightarrow> safe (rb limit r) (\<lambda>(x, r'). x < limit)"
  by (rule safe_mono [OF rb_safe]) auto

end

section \<open>Correctness of the source\<close>

lemma rand_draw_safe:
  "0 < limit \<Longrightarrow> safe (rand_draw limit r)
     (\<lambda>c. case c of Break (x, r') \<Rightarrow> x < limit | Cont r' \<Rightarrow> True)"
  by (simp add: rand_draw_def split: prod.splits)

lemma rand_reseed_safe: "safe (rand_reseed r) (\<lambda>_. True)"
  by (simp add: rand_reseed_def Let_def split: list.splits)

lemma rand_below_small [simp]: "limit \<le> 1 \<Longrightarrow> rand_below limit r = Inr (0, r)"
  by (simp add: rand_below_def)

lemma rand_below_safe: "1 < limit \<Longrightarrow> safe (rand_below limit r) (\<lambda>(x, r'). x < limit)"
proof -
  assume "1 < limit"
  then have step: "safe (rand_draw limit s)
      (\<lambda>c. case c of Break (x, r') \<Rightarrow> x < limit | Cont r' \<Rightarrow> True)" for s
    using rand_draw_safe [of limit s] by simp
  have "safe (run_loop (rand_draw limit) s) (\<lambda>(x, r'). x < limit)" for s
    using run_loop_safe [of "\<lambda>_. True" "rand_draw limit" "\<lambda>(x, r'). x < limit" s] step by simp
  with \<open>1 < limit\<close> show ?thesis
    by (auto simp: rand_below_def intro: safe_ebind [OF rand_reseed_safe])
qed

interpretation afl_rng: rng_source rand_below
  by unfold_locales (simp_all add: rand_below_safe)

text \<open>A draw that is accepted at once: the closed form that evaluates on concrete states.\<close>

lemma rand_below_accept:
  assumes "1 < limit" "rand_cnt r \<noteq> 0" "rand_accept limit (rand_seed0 r)"
  shows "rand_below limit r = Inr (unat (rand_seed0 r) mod limit,
     r\<lparr>rand_seed0 := 15241094284759029579 * rand_seed1 r,
       rand_seed1 := ROTL64 (rand_seed1 r - rand_seed0 r) 27, rand_cnt := rand_cnt r - 1\<rparr>)"
proof -
  let ?r = "r\<lparr>rand_cnt := rand_cnt r - 1\<rparr>"
  have "rand_draw limit ?r = Inr (Break (unat (rand_seed0 r) mod limit, snd (rand_next ?r)))"
    using assms by (simp add: rand_draw_def rand_next_def Let_def)
  then show ?thesis
    using assms by (simp add: rand_below_def rand_reseed_def Let_def run_loop_Break rand_next_def)
qed

section \<open>Quality of the source\<close>

lemma ROTL64_inverse: "ROTL64 (ROTL64 d 27) 37 = d"
proof (rule bit_word_eqI)
  fix n assume "n < LENGTH(64)"
  then have "n < 27 \<or> 27 \<le> n \<and> n < 37 \<or> 37 \<le> n \<and> n < 64" by auto
  then show "bit (ROTL64 (ROTL64 d 27) 37) n \<longleftrightarrow> bit d n"
    unfolding ROTL64_def by (elim disjE conjE) (auto simp: bit_simps dest: bit_imp_le_length)
qed

lemma romu_multiplier_inverse: "4888251478366616163 * (15241094284759029579 * (x :: u64)) = x"
proof -
  have one: "(4888251478366616163 :: u64) * 15241094284759029579 = 1" by simp
  have "4888251478366616163 * (15241094284759029579 * x) = 4888251478366616163 * 15241094284759029579 * x"
    by (rule mult.assoc [symmetric])
  then show ?thesis by (simp only: one mult_1)
qed

text \<open>What \<open>rand_next\<close> does to the two live seed words.\<close>

definition seed_step :: "rng \<Rightarrow> u64 \<times> u64 \<Rightarrow> u64 \<times> u64" where
  "seed_step r = (\<lambda>(a, b). case rand_next (r\<lparr>rand_seed0 := a, rand_seed1 := b\<rparr>) of
      (_, r') \<Rightarrow> (rand_seed0 r', rand_seed1 r'))"

lemma seed_step_inj: "inj (seed_step r)"
proof (rule injI, clarsimp simp: seed_step_def rand_next_def Let_def)
  fix a b c d :: u64
  assume mul: "15241094284759029579 * b = 15241094284759029579 * d"
    and rot: "ROTL64 (b - a) 27 = ROTL64 (d - c) 27"
  from mul have "b = d"
    by (metis romu_multiplier_inverse)
  moreover from rot have "b - a = d - c"
    by (metis ROTL64_inverse)
  ultimately show "a = c \<and> b = d" by simp
qed

text \<open>Accepted draws are spread evenly: each result has the same number of raw words.\<close>

lemma card_residue: "k < l \<Longrightarrow> card {n :: nat. n < l * q \<and> n mod l = k} = q"
proof -
  assume k: "k < l"
  have "{n. n < l * q \<and> n mod l = k} = (\<lambda>j. j * l + k) ` {..<q}"
  proof (intro set_eqI iffI)
    fix n assume n: "n \<in> {n. n < l * q \<and> n mod l = k}"
    then have "n = n div l * l + k" by (metis (mono_tags) div_mult_mod_eq mem_Collect_eq)
    moreover from n k have "n div l < q"
      by (simp add: less_mult_imp_div_less mult.commute)
    ultimately show "n \<in> (\<lambda>j. j * l + k) ` {..<q}" by blast
  next
    fix n assume "n \<in> (\<lambda>j. j * l + k) ` {..<q}"
    then obtain j where j: "j < q" "n = j * l + k" by auto
    from j have "Suc j * l \<le> q * l" by (intro mult_le_mono1) simp
    with j k show "n \<in> {n. n < l * q \<and> n mod l = k}" by (simp add: mult.commute)
  qed
  moreover have "inj_on (\<lambda>j. j * l + k) {..<q}"
    using k by (auto simp: inj_on_def)
  ultimately show ?thesis by (simp add: card_image)
qed

lemma accept_threshold: "UINT64_MAX - UINT64_MAX mod limit = limit * (UINT64_MAX div limit)"
  by (simp add: minus_mod_eq_mult_div)

lemma rand_accept_card:
  assumes "k < limit"
  shows "card {x. rand_accept limit x \<and> unat x mod limit = k} = UINT64_MAX div limit"
proof -
  let ?A = "{x. rand_accept limit x \<and> unat x mod limit = k}"
  let ?B = "{n. n < limit * (UINT64_MAX div limit) \<and> n mod limit = k}"
  have bound: "limit * (UINT64_MAX div limit) < 2 ^ 64"
    using times_div_less_eq_dividend [of limit UINT64_MAX]
    by (rule le_less_trans) (simp add: UINT64_MAX_def)
  have img: "unat ` ?A = ?B"
  proof (intro set_eqI iffI)
    fix n assume "n \<in> ?B"
    moreover from this bound have "unat (of_nat n :: u64) = n"
      by (simp only: unat_of_nat) simp
    ultimately have "(of_nat n :: u64) \<in> ?A"
      by (simp add: rand_accept_def accept_threshold)
    with \<open>unat (of_nat n :: u64) = n\<close> show "n \<in> unat ` ?A"
      by (intro image_eqI [where x = "of_nat n"]) simp_all
  qed (auto simp: rand_accept_def accept_threshold)
  have "inj_on unat ?A" by (rule inj_on_subset [OF inj_unsigned]) simp
  from card_image [OF this] have "card ?A = card ?B" by (simp only: img)
  with assms show ?thesis by (simp add: card_residue)
qed

lemma rand_reject_card:
  assumes "0 < limit"
  shows "card {x. \<not> rand_accept limit x} \<le> limit"
proof -
  let ?t = "UINT64_MAX - UINT64_MAX mod limit"
  have "unat ` {x. \<not> rand_accept limit x} \<subseteq> {?t..UINT64_MAX}"
  proof (rule subsetI, elim imageE, simp)
    fix x :: u64 assume "\<not> rand_accept limit x"
    moreover have "unat x \<le> UINT64_MAX"
      using unsigned_less [of x, where ?'a = nat] by (simp add: UINT64_MAX_def)
    ultimately show "?t \<le> unat x \<and> unat x \<le> UINT64_MAX" by (simp add: rand_accept_def)
  qed
  then have "card (unat ` {x. \<not> rand_accept limit x}) \<le> card {?t..UINT64_MAX}"
    by (rule card_mono [OF finite_atLeastAtMost])
  moreover have "card (unat ` {x. \<not> rand_accept limit x}) = card {x. \<not> rand_accept limit x}"
    by (rule card_image) (rule inj_on_subset [OF inj_unsigned], simp)
  moreover have "UINT64_MAX mod limit < limit" using assms by simp
  then have "card {?t..UINT64_MAX} \<le> limit" by simp
  ultimately show ?thesis by simp
qed

text \<open>The two outcomes of a draw, and \<open>rand_below\<close> while the seed has not expired.\<close>

lemma rand_below_live:
  assumes "1 < limit" "rand_cnt r \<noteq> 0 \<or> fixed_seed r"
  shows "rand_below limit r = run_loop (rand_draw limit) (r\<lparr>rand_cnt := rand_cnt r - 1\<rparr>)"
proof -
  have "rand_reseed r = Inr (r\<lparr>rand_cnt := rand_cnt r - 1\<rparr>)"
    using assms(2) by (auto simp: rand_reseed_def Let_def)
  then show ?thesis using assms(1) by (simp add: rand_below_def)
qed

lemma accepted_draw:
  "rand_accept limit (rand_seed0 r) \<Longrightarrow>
     run_loop (rand_draw limit) r = Inr (unat (rand_seed0 r) mod limit, snd (rand_next r))"
  by (rule run_loop_Break) (simp add: rand_draw_def rand_next_def Let_def)

lemma rejected_draw:
  "\<not> rand_accept limit (rand_seed0 r) \<Longrightarrow>
     run_loop (rand_draw limit) r = run_loop (rand_draw limit) (snd (rand_next r))"
  by (subst run_loop_unfold) (simp add: rand_draw_def rand_next_def Let_def)

lemma rand_below_datalen_safe:
  assumes "1 < limit"
  shows "safe (rand_below_datalen limit r) (\<lambda>(x, r'). x < limit)"
proof -
  have mods: "x < limit \<Longrightarrow> x mod Suc y < limit" for x y :: nat
    by (meson le_less_trans mod_less_eq_dividend)
  have three: "\<not> (x < 3 \<and> x \<noteq> Suc 0 \<and> x \<noteq> 2 \<and> 0 < x)" for x :: nat
    by auto
  show ?thesis
    using assms
    by (auto simp: rand_below_datalen_def intro!: afl_rng.rb_bind mods simp del: rand_below_small
        intro: rand_below_safe [unfolded One_nat_def] simp: three)
qed

section \<open>\<open>next_p2\<close>\<close>

lemma push_bit_one_pow2: "push_bit 1 ((2 :: u64) ^ k) = 2 ^ Suc k"
  by (simp add: push_bit_eq_mult mult.commute)

lemma next_p2_least:
  assumes "unat val \<le> 2 ^ 63"
  shows "\<exists>k \<le> 63. next_p2 val = Inr (2 ^ k) \<and> val \<le> 2 ^ k \<and> (k = 0 \<or> 2 ^ (k - 1) < val)"
proof -
  let ?I = "\<lambda>ret :: u64. \<exists>k \<le> 63. ret = 2 ^ k \<and> (k = 0 \<or> 2 ^ (k - 1) < val)"
  have step: "(\<exists>a. (if ret < val then Inr (Cont (push_bit 1 ret)) else Inr (Break ret)) = Inr (Break a)
        \<and> ?I a \<and> val \<le> a)
      \<or> (\<exists>s'. (if ret < val then Inr (Cont (push_bit 1 ret)) else Inr (Break ret)) = (Inr (Cont s') :: ((u64, u64) ctl) res)
        \<and> ?I s' \<and> 2 ^ 64 - unat s' < 2 ^ 64 - unat ret)" if I: "?I ret" for ret
  proof (cases "ret < val")
    case False
    with I show ?thesis by (auto simp: not_less)
  next
    case True
    from I obtain k where k: "k \<le> 63" "ret = 2 ^ k" by blast
    from True k assms have "(2::nat) ^ k < 2 ^ 63"
      by (simp add: word_less_nat_alt unat_pow2)
    then have "k < 63" by (rule power_less_imp_less_exp [rotated]) simp
    have p: "push_bit 1 ret = 2 ^ Suc k" by (simp only: k push_bit_one_pow2)
    moreover have "unat (push_bit 1 ret) = 2 ^ Suc k" "unat ret = 2 ^ k"
      using \<open>k < 63\<close> unat_pow2 [of "Suc k"] unat_pow2 [of k] by (simp_all only: p) (simp_all add: k)
    moreover have "(2 :: nat) ^ 64 - 2 ^ Suc k < 2 ^ 64 - 2 ^ k"
      using \<open>k < 63\<close> by (intro diff_less_mono2 power_strict_increasing) auto
    ultimately show ?thesis
      using True k \<open>k < 63\<close> by (simp del: power_Suc) (intro exI [of _ "Suc k"], simp del: power_Suc)
  qed
  have "?I 1" by (auto intro!: exI [of _ 0])
  from run_loop_returns [of ?I _ "\<lambda>a. ?I a \<and> val \<le> a" "\<lambda>ret. 2 ^ 64 - unat ret", OF step this]
  show ?thesis unfolding next_p2_def by blast
qed

lemma next_p2_beyond: "2 ^ 63 < unat val \<Longrightarrow> next_p2 val = Inl Diverge"
  unfolding next_p2_def
proof (rule run_loop_diverges [where I = "\<lambda>ret. ret = 0 \<or> (\<exists>k \<le> 63. ret = 2 ^ k)"])
  fix ret :: u64
  assume val: "2 ^ 63 < unat val" and I: "ret = 0 \<or> (\<exists>k \<le> 63. ret = 2 ^ k)"
  have "ret < val"
  proof (cases "ret = 0")
    case True
    with val show ?thesis by (simp add: word_less_nat_alt)
  next
    case False
    with I obtain k where k: "k \<le> 63" "ret = 2 ^ k" by blast
    then have "unat ret \<le> 2 ^ 63" by (simp only: unat_pow2) (rule power_increasing, auto)
    with val show ?thesis by (simp add: word_less_nat_alt)
  qed
  moreover have "push_bit 1 ret = 0 \<or> (\<exists>k \<le> 63. push_bit 1 ret = 2 ^ k)"
  proof (cases "ret = 0")
    case False
    with I obtain k where k: "k \<le> 63" "ret = 2 ^ k" by blast
    have p: "push_bit 1 ret = 2 ^ Suc k" by (simp only: k push_bit_one_pow2)
    show ?thesis
    proof (cases "k = 63")
      case True
      then have "push_bit 1 ret = 0" unfolding p by simp
      then show ?thesis by simp
    next
      case False
      with k p show ?thesis by (intro disjI2 exI [of _ "Suc k"]) auto
    qed
  qed simp
  ultimately show "\<exists>s'. (if ret < val then Inr (Cont (push_bit 1 ret)) else Inr (Break ret)) =
      (Inr (Cont s') :: ((u64, u64) ctl) res) \<and> (s' = 0 \<or> (\<exists>k \<le> 63. s' = 2 ^ k))"
    by simp
qed (auto intro!: exI [of _ 0])

section \<open>Properties\<close>

text \<open>
  \<open>rand_below\<close> and \<open>rand_below_datalen\<close> return a value below their limit, and 0 without a
  draw for the limits 0 and 1; they never fault.
\<close>

theorem rand_below_in_range:
  "safe (rand_below limit r) (\<lambda>(x, r'). if limit \<le> 1 then x = 0 \<and> r' = r else x < limit)
   \<and> safe (rand_below_datalen limit r) (\<lambda>(x, r'). if limit \<le> 1 then x = 0 \<and> r' = r else x < limit)"
proof (cases "1 < limit")
  case True
  then show ?thesis
    using rand_below_safe [OF True, of r] rand_below_datalen_safe [OF True, of r] by simp
next
  case False
  then show ?thesis by (simp add: rand_below_datalen_def)
qed

text \<open>
  C40: \<open>rand_below\<close> is unbiased, although its comment allows a slight bias. Of the words
  that its first draw accepts, the same number makes it return each result below the limit;
  this holds for the live seed word and, when the seed has expired, for the word read from
  \<^verbatim>\<open>/dev/urandom\<close>. At most \<open>limit\<close> of all words are rejected, and a rejected
  word only leads to another draw from the next state.
\<close>

theorem rand_below_unbiased:
  assumes "1 < limit" "k < limit"
  shows "(rand_cnt r \<noteq> 0 \<or> fixed_seed r \<longrightarrow>
       card {x. rand_accept limit x \<and> (\<exists>r'. rand_below limit (r\<lparr>rand_seed0 := x\<rparr>) = Inr (k, r'))}
         = UINT64_MAX div limit
       \<and> (\<not> rand_accept limit (rand_seed0 r) \<longrightarrow> rand_below limit r
           = run_loop (rand_draw limit) (snd (rand_next (r\<lparr>rand_cnt := rand_cnt r - 1\<rparr>)))))
     \<and> (rand_cnt r = 0 \<and> \<not> fixed_seed r \<longrightarrow>
       card {x. rand_accept limit x \<and> (\<exists>r'. rand_below limit (r\<lparr>urandom := (x, b, c) # rest\<rparr>) = Inr (k, r'))}
         = UINT64_MAX div limit)
     \<and> card {x. \<not> rand_accept limit x} \<le> limit"
proof (intro conjI impI)
  assume live: "rand_cnt r \<noteq> 0 \<or> fixed_seed r"
  have "(rand_accept limit x \<and> (\<exists>r'. rand_below limit (r\<lparr>rand_seed0 := x\<rparr>) = Inr (k, r')))
      \<longleftrightarrow> rand_accept limit x \<and> unat x mod limit = k" for x
    using assms(1) live by (auto simp: rand_below_live accepted_draw)
  then show "card {x. rand_accept limit x \<and> (\<exists>r'. rand_below limit (r\<lparr>rand_seed0 := x\<rparr>) = Inr (k, r'))}
      = UINT64_MAX div limit"
    using rand_accept_card [OF assms(2)] by simp
  show "rand_below limit r = run_loop (rand_draw limit) (snd (rand_next (r\<lparr>rand_cnt := rand_cnt r - 1\<rparr>)))"
    if "\<not> rand_accept limit (rand_seed0 r)"
    using that assms(1) live by (simp add: rand_below_live rejected_draw)
next
  assume expired: "rand_cnt r = 0 \<and> \<not> fixed_seed r"
  have "(rand_accept limit x \<and> (\<exists>r'. rand_below limit (r\<lparr>urandom := (x, b, c) # rest\<rparr>) = Inr (k, r')))
      \<longleftrightarrow> rand_accept limit x \<and> unat x mod limit = k" for x
    using assms(1) expired by (auto simp: rand_below_def rand_reseed_def accepted_draw)
  then show "card {x. rand_accept limit x \<and> (\<exists>r'. rand_below limit (r\<lparr>urandom := (x, b, c) # rest\<rparr>) = Inr (k, r'))}
      = UINT64_MAX div limit"
    using rand_accept_card [OF assms(2)] by simp
next
  show "card {x. \<not> rand_accept limit x} \<le> limit"
    using assms(1) by (simp add: rand_reject_card)
qed

definition demo_rng :: rng where
  "demo_rng = \<lparr>rand_seed0 = 1, rand_seed1 = 2, rand_seed2 = 3, rand_cnt = 100,
     fixed_seed = False, init_seed = 0, urandom = []\<rparr>"

theorem rand_below_unbiased_witness:
  "card {x. rand_accept 10 x \<and> (\<exists>r'. rand_below 10 (demo_rng\<lparr>rand_seed0 := x\<rparr>) = Inr (4, r'))}
     = 1844674407370955161"
  using rand_below_unbiased [of 10 4 demo_rng] by (simp add: UINT64_MAX_def demo_rng_def)

text \<open>
  \<open>rand_next\<close> permutes the two live seed words: no two states lead to the same state, and
  every state is reached, so the generator loses no entropy.
\<close>

theorem rand_next_permutes_seeds:
  "bij (\<lambda>(a, b). case rand_next (r\<lparr>rand_seed0 := a, rand_seed1 := b\<rparr>) of
      (_, r') \<Rightarrow> (rand_seed0 r', rand_seed1 r'))"
proof -
  have "inj (seed_step r)" by (rule seed_step_inj)
  moreover from this have "surj (seed_step r)" by (rule finite_UNIV_inj_surj [OF finite])
  ultimately show ?thesis unfolding bij_def seed_step_def by simp
qed

text \<open>
  \<open>next_p2\<close> returns the least power of two that is at least its argument, for arguments
  up to 2^63, the assumption of its comment; above that the loop never ends.
\<close>

theorem next_p2_correct:
  "if unat val \<le> 2 ^ 63
   then \<exists>k \<le> 63. next_p2 val = Inr (2 ^ k) \<and> val \<le> 2 ^ k \<and> (k = 0 \<or> 2 ^ (k - 1) < val)
   else next_p2 val = Inl Diverge"
proof (cases "unat val \<le> 2 ^ 63")
  case True
  then show ?thesis using next_p2_least [OF True] by simp
next
  case False
  then show ?thesis using next_p2_beyond [of val] by simp
qed

end
