(* ===== verification/AFL_MutTables.thy ===== *)
theory AFL_MutTables
  imports Main
begin

text \<open>
  The mutation operators of \<^verbatim>\<open>include/afl-mutations.h\<close> and the tables that weight them: an
  operator is drawn by picking a uniform index into a table. The four strategy tables are
  the ones \<open>afl_mutate\<close> uses; \<open>text_array\<close>, \<open>binary_array\<close> and the two splice tables belong
  to the havoc stage of \<^verbatim>\<open>src/afl-fuzz-one.c\<close>. The entries stand in the order of the source.
  A name of the source that ends in an underscore (\<open>MUT_ARITH8_\<close> and its kin, the subtractions) ends in
  \<open>_MINUS\<close> here.
\<close>

section \<open>The operators\<close>

datatype mutation =
    MUT_FLIPBIT | MUT_INTERESTING8 | MUT_INTERESTING16 | MUT_INTERESTING16BE
  | MUT_INTERESTING32 | MUT_INTERESTING32BE | MUT_ARITH8_MINUS | MUT_ARITH8
  | MUT_ARITH16_MINUS | MUT_ARITH16BE_MINUS | MUT_ARITH16 | MUT_ARITH16BE
  | MUT_ARITH32_MINUS | MUT_ARITH32BE_MINUS | MUT_ARITH32 | MUT_ARITH32BE
  | MUT_RAND8 | MUT_CLONE_COPY | MUT_CLONE_FIXED | MUT_OVERWRITE_COPY
  | MUT_OVERWRITE_FIXED | MUT_BYTEADD | MUT_BYTESUB | MUT_FLIP8
  | MUT_SWITCH | MUT_DEL | MUT_SHUFFLE | MUT_DELONE
  | MUT_INSERTONE | MUT_ASCIINUM | MUT_INSERTASCIINUM | MUT_EXTRA_OVERWRITE
  | MUT_EXTRA_INSERT | MUT_AUTO_EXTRA_OVERWRITE | MUT_AUTO_EXTRA_INSERT | MUT_SPLICE_OVERWRITE
  | MUT_SPLICE_INSERT | MUT_MAX

section \<open>The tables\<close>

definition text_array :: "mutation list" where
  "text_array = [
     MUT_FLIPBIT, MUT_FLIPBIT, MUT_FLIPBIT, MUT_FLIPBIT,
     MUT_FLIPBIT, MUT_FLIPBIT, MUT_FLIPBIT, MUT_FLIPBIT,
     MUT_INTERESTING8, MUT_INTERESTING8, MUT_INTERESTING8, MUT_INTERESTING8,
     MUT_INTERESTING16, MUT_INTERESTING16, MUT_INTERESTING16BE, MUT_INTERESTING16BE,
     MUT_INTERESTING32, MUT_INTERESTING32, MUT_INTERESTING32BE, MUT_INTERESTING32BE,
     MUT_ARITH8_MINUS, MUT_ARITH8_MINUS, MUT_ARITH8_MINUS, MUT_ARITH8_MINUS,
     MUT_ARITH8_MINUS, MUT_ARITH8_MINUS, MUT_ARITH8, MUT_ARITH8,
     MUT_ARITH8, MUT_ARITH8, MUT_ARITH8, MUT_ARITH8,
     MUT_ARITH16_MINUS, MUT_ARITH16_MINUS, MUT_ARITH16_MINUS, MUT_ARITH16_MINUS,
     MUT_ARITH16_MINUS, MUT_ARITH16BE_MINUS, MUT_ARITH16BE_MINUS, MUT_ARITH16BE_MINUS,
     MUT_ARITH16BE_MINUS, MUT_ARITH16BE_MINUS, MUT_ARITH16, MUT_ARITH16,
     MUT_ARITH16, MUT_ARITH16, MUT_ARITH16, MUT_ARITH16BE,
     MUT_ARITH16BE, MUT_ARITH16BE, MUT_ARITH16BE, MUT_ARITH16BE,
     MUT_ARITH32_MINUS, MUT_ARITH32_MINUS, MUT_ARITH32_MINUS, MUT_ARITH32_MINUS,
     MUT_ARITH32_MINUS, MUT_ARITH32BE_MINUS, MUT_ARITH32BE_MINUS, MUT_ARITH32BE_MINUS,
     MUT_ARITH32BE_MINUS, MUT_ARITH32BE_MINUS, MUT_ARITH32, MUT_ARITH32,
     MUT_ARITH32, MUT_ARITH32, MUT_ARITH32, MUT_ARITH32BE,
     MUT_ARITH32BE, MUT_ARITH32BE, MUT_ARITH32BE, MUT_ARITH32BE,
     MUT_RAND8, MUT_RAND8, MUT_RAND8, MUT_RAND8,
     MUT_RAND8, MUT_RAND8, MUT_RAND8, MUT_RAND8,
     MUT_CLONE_COPY, MUT_CLONE_COPY, MUT_CLONE_COPY, MUT_CLONE_COPY,
     MUT_CLONE_COPY, MUT_CLONE_COPY, MUT_CLONE_COPY, MUT_CLONE_COPY,
     MUT_CLONE_COPY, MUT_CLONE_COPY, MUT_CLONE_COPY, MUT_CLONE_COPY,
     MUT_CLONE_COPY, MUT_CLONE_COPY, MUT_CLONE_COPY, MUT_CLONE_COPY,
     MUT_CLONE_FIXED, MUT_CLONE_FIXED, MUT_CLONE_FIXED, MUT_CLONE_FIXED,
     MUT_CLONE_FIXED, MUT_CLONE_FIXED, MUT_CLONE_FIXED, MUT_CLONE_FIXED,
     MUT_OVERWRITE_COPY, MUT_OVERWRITE_COPY, MUT_OVERWRITE_COPY, MUT_OVERWRITE_COPY,
     MUT_OVERWRITE_COPY, MUT_OVERWRITE_COPY, MUT_OVERWRITE_COPY, MUT_OVERWRITE_COPY,
     MUT_OVERWRITE_COPY, MUT_OVERWRITE_COPY, MUT_OVERWRITE_FIXED, MUT_OVERWRITE_FIXED,
     MUT_OVERWRITE_FIXED, MUT_OVERWRITE_FIXED, MUT_OVERWRITE_FIXED, MUT_BYTEADD,
     MUT_BYTEADD, MUT_BYTEADD, MUT_BYTEADD, MUT_BYTEADD,
     MUT_BYTESUB, MUT_BYTESUB, MUT_BYTESUB, MUT_BYTESUB,
     MUT_BYTESUB, MUT_FLIP8, MUT_FLIP8, MUT_FLIP8,
     MUT_FLIP8, MUT_SWITCH, MUT_SWITCH, MUT_SWITCH,
     MUT_SWITCH, MUT_SWITCH, MUT_SWITCH, MUT_SWITCH,
     MUT_DEL, MUT_DEL, MUT_DEL, MUT_DEL,
     MUT_DEL, MUT_DEL, MUT_DEL, MUT_DEL,
     MUT_DEL, MUT_DEL, MUT_EXTRA_OVERWRITE, MUT_EXTRA_OVERWRITE,
     MUT_EXTRA_OVERWRITE, MUT_EXTRA_OVERWRITE, MUT_EXTRA_OVERWRITE, MUT_EXTRA_OVERWRITE,
     MUT_EXTRA_OVERWRITE, MUT_EXTRA_INSERT, MUT_EXTRA_INSERT, MUT_EXTRA_INSERT,
     MUT_EXTRA_INSERT, MUT_EXTRA_INSERT, MUT_EXTRA_INSERT, MUT_EXTRA_INSERT,
     MUT_EXTRA_INSERT, MUT_EXTRA_INSERT, MUT_AUTO_EXTRA_OVERWRITE, MUT_AUTO_EXTRA_OVERWRITE,
     MUT_AUTO_EXTRA_OVERWRITE, MUT_AUTO_EXTRA_OVERWRITE, MUT_AUTO_EXTRA_INSERT, MUT_AUTO_EXTRA_INSERT,
     MUT_AUTO_EXTRA_INSERT, MUT_AUTO_EXTRA_INSERT, MUT_AUTO_EXTRA_INSERT, MUT_SPLICE_OVERWRITE,
     MUT_SPLICE_OVERWRITE, MUT_SPLICE_OVERWRITE, MUT_SPLICE_OVERWRITE, MUT_SPLICE_OVERWRITE,
     MUT_SPLICE_OVERWRITE, MUT_SPLICE_OVERWRITE, MUT_SPLICE_OVERWRITE, MUT_SPLICE_OVERWRITE,
     MUT_SPLICE_OVERWRITE, MUT_SPLICE_OVERWRITE, MUT_SPLICE_OVERWRITE, MUT_SPLICE_INSERT,
     MUT_SPLICE_INSERT, MUT_SPLICE_INSERT, MUT_SPLICE_INSERT, MUT_SPLICE_INSERT,
     MUT_SPLICE_INSERT, MUT_SPLICE_INSERT, MUT_SPLICE_INSERT, MUT_SPLICE_INSERT,
     MUT_SPLICE_INSERT, MUT_SPLICE_INSERT, MUT_SPLICE_INSERT, MUT_SPLICE_INSERT]"

definition binary_array :: "mutation list" where
  "binary_array = [
     MUT_FLIPBIT, MUT_FLIPBIT, MUT_FLIPBIT, MUT_FLIPBIT,
     MUT_FLIPBIT, MUT_FLIPBIT, MUT_FLIPBIT, MUT_FLIPBIT,
     MUT_FLIPBIT, MUT_FLIPBIT, MUT_FLIPBIT, MUT_INTERESTING8,
     MUT_INTERESTING8, MUT_INTERESTING8, MUT_INTERESTING8, MUT_INTERESTING8,
     MUT_INTERESTING8, MUT_INTERESTING8, MUT_INTERESTING8, MUT_INTERESTING8,
     MUT_INTERESTING16, MUT_INTERESTING16, MUT_INTERESTING16, MUT_INTERESTING16,
     MUT_INTERESTING16, MUT_INTERESTING16, MUT_INTERESTING16BE, MUT_INTERESTING16BE,
     MUT_INTERESTING16BE, MUT_INTERESTING16BE, MUT_INTERESTING16BE, MUT_INTERESTING16BE,
     MUT_INTERESTING32, MUT_INTERESTING32, MUT_INTERESTING32, MUT_INTERESTING32,
     MUT_INTERESTING32, MUT_INTERESTING32, MUT_INTERESTING32BE, MUT_INTERESTING32BE,
     MUT_INTERESTING32BE, MUT_INTERESTING32BE, MUT_INTERESTING32BE, MUT_INTERESTING32BE,
     MUT_ARITH8_MINUS, MUT_ARITH8_MINUS, MUT_ARITH8_MINUS, MUT_ARITH8_MINUS,
     MUT_ARITH8_MINUS, MUT_ARITH8_MINUS, MUT_ARITH8_MINUS, MUT_ARITH8_MINUS,
     MUT_ARITH8_MINUS, MUT_ARITH8, MUT_ARITH8, MUT_ARITH8,
     MUT_ARITH8, MUT_ARITH8, MUT_ARITH8, MUT_ARITH8,
     MUT_ARITH8, MUT_ARITH8, MUT_ARITH8, MUT_ARITH16_MINUS,
     MUT_ARITH16_MINUS, MUT_ARITH16_MINUS, MUT_ARITH16_MINUS, MUT_ARITH16_MINUS,
     MUT_ARITH16_MINUS, MUT_ARITH16BE_MINUS, MUT_ARITH16BE_MINUS, MUT_ARITH16BE_MINUS,
     MUT_ARITH16BE_MINUS, MUT_ARITH16BE_MINUS, MUT_ARITH16BE_MINUS, MUT_ARITH16,
     MUT_ARITH16, MUT_ARITH16, MUT_ARITH16, MUT_ARITH16,
     MUT_ARITH16, MUT_ARITH16BE, MUT_ARITH16BE, MUT_ARITH16BE,
     MUT_ARITH16BE, MUT_ARITH16BE, MUT_ARITH16BE, MUT_ARITH32_MINUS,
     MUT_ARITH32_MINUS, MUT_ARITH32_MINUS, MUT_ARITH32_MINUS, MUT_ARITH32_MINUS,
     MUT_ARITH32_MINUS, MUT_ARITH32BE_MINUS, MUT_ARITH32BE_MINUS, MUT_ARITH32BE_MINUS,
     MUT_ARITH32BE_MINUS, MUT_ARITH32BE_MINUS, MUT_ARITH32BE_MINUS, MUT_ARITH32,
     MUT_ARITH32, MUT_ARITH32, MUT_ARITH32, MUT_ARITH32,
     MUT_ARITH32, MUT_ARITH32BE, MUT_ARITH32BE, MUT_ARITH32BE,
     MUT_ARITH32BE, MUT_ARITH32BE, MUT_ARITH32BE, MUT_RAND8,
     MUT_RAND8, MUT_RAND8, MUT_RAND8, MUT_RAND8,
     MUT_RAND8, MUT_RAND8, MUT_RAND8, MUT_RAND8,
     MUT_CLONE_COPY, MUT_CLONE_COPY, MUT_CLONE_COPY, MUT_CLONE_COPY,
     MUT_CLONE_COPY, MUT_CLONE_COPY, MUT_CLONE_COPY, MUT_CLONE_COPY,
     MUT_CLONE_COPY, MUT_CLONE_COPY, MUT_CLONE_COPY, MUT_CLONE_COPY,
     MUT_CLONE_COPY, MUT_CLONE_COPY, MUT_CLONE_FIXED, MUT_CLONE_FIXED,
     MUT_CLONE_FIXED, MUT_CLONE_FIXED, MUT_CLONE_FIXED, MUT_CLONE_FIXED,
     MUT_CLONE_FIXED, MUT_OVERWRITE_COPY, MUT_OVERWRITE_COPY, MUT_OVERWRITE_COPY,
     MUT_OVERWRITE_COPY, MUT_OVERWRITE_COPY, MUT_OVERWRITE_COPY, MUT_OVERWRITE_COPY,
     MUT_OVERWRITE_COPY, MUT_OVERWRITE_COPY, MUT_OVERWRITE_COPY, MUT_OVERWRITE_FIXED,
     MUT_OVERWRITE_FIXED, MUT_OVERWRITE_FIXED, MUT_OVERWRITE_FIXED, MUT_OVERWRITE_FIXED,
     MUT_BYTEADD, MUT_BYTEADD, MUT_BYTEADD, MUT_BYTEADD,
     MUT_BYTEADD, MUT_BYTEADD, MUT_BYTESUB, MUT_BYTESUB,
     MUT_BYTESUB, MUT_BYTESUB, MUT_BYTESUB, MUT_BYTESUB,
     MUT_FLIP8, MUT_FLIP8, MUT_FLIP8, MUT_FLIP8,
     MUT_SWITCH, MUT_SWITCH, MUT_SWITCH, MUT_SWITCH,
     MUT_SWITCH, MUT_SWITCH, MUT_DEL, MUT_DEL,
     MUT_DEL, MUT_DEL, MUT_DEL, MUT_DEL,
     MUT_DEL, MUT_DEL, MUT_DEL, MUT_EXTRA_OVERWRITE,
     MUT_EXTRA_OVERWRITE, MUT_EXTRA_OVERWRITE, MUT_EXTRA_OVERWRITE, MUT_EXTRA_OVERWRITE,
     MUT_EXTRA_OVERWRITE, MUT_EXTRA_OVERWRITE, MUT_EXTRA_OVERWRITE, MUT_EXTRA_OVERWRITE,
     MUT_EXTRA_OVERWRITE, MUT_EXTRA_INSERT, MUT_EXTRA_INSERT, MUT_EXTRA_INSERT,
     MUT_EXTRA_INSERT, MUT_EXTRA_INSERT, MUT_EXTRA_INSERT, MUT_EXTRA_INSERT,
     MUT_EXTRA_INSERT, MUT_EXTRA_INSERT, MUT_EXTRA_INSERT, MUT_EXTRA_INSERT,
     MUT_EXTRA_INSERT, MUT_AUTO_EXTRA_OVERWRITE, MUT_AUTO_EXTRA_OVERWRITE, MUT_AUTO_EXTRA_OVERWRITE,
     MUT_AUTO_EXTRA_OVERWRITE, MUT_AUTO_EXTRA_OVERWRITE, MUT_AUTO_EXTRA_OVERWRITE, MUT_AUTO_EXTRA_OVERWRITE,
     MUT_AUTO_EXTRA_OVERWRITE, MUT_AUTO_EXTRA_OVERWRITE, MUT_AUTO_EXTRA_INSERT, MUT_AUTO_EXTRA_INSERT,
     MUT_AUTO_EXTRA_INSERT, MUT_AUTO_EXTRA_INSERT, MUT_AUTO_EXTRA_INSERT, MUT_AUTO_EXTRA_INSERT,
     MUT_AUTO_EXTRA_INSERT, MUT_AUTO_EXTRA_INSERT, MUT_AUTO_EXTRA_INSERT, MUT_AUTO_EXTRA_INSERT,
     MUT_AUTO_EXTRA_INSERT, MUT_SPLICE_OVERWRITE, MUT_SPLICE_OVERWRITE, MUT_SPLICE_OVERWRITE,
     MUT_SPLICE_OVERWRITE, MUT_SPLICE_OVERWRITE, MUT_SPLICE_OVERWRITE, MUT_SPLICE_OVERWRITE,
     MUT_SPLICE_OVERWRITE, MUT_SPLICE_OVERWRITE, MUT_SPLICE_OVERWRITE, MUT_SPLICE_OVERWRITE,
     MUT_SPLICE_OVERWRITE, MUT_SPLICE_OVERWRITE, MUT_SPLICE_INSERT, MUT_SPLICE_INSERT,
     MUT_SPLICE_INSERT, MUT_SPLICE_INSERT, MUT_SPLICE_INSERT, MUT_SPLICE_INSERT,
     MUT_SPLICE_INSERT, MUT_SPLICE_INSERT, MUT_SPLICE_INSERT, MUT_SPLICE_INSERT,
     MUT_SPLICE_INSERT, MUT_SPLICE_INSERT, MUT_SPLICE_INSERT, MUT_SPLICE_INSERT]"

definition normal_splice_array :: "mutation list" where
  "normal_splice_array = [
     MUT_FLIPBIT, MUT_FLIPBIT, MUT_FLIPBIT, MUT_FLIPBIT,
     MUT_INTERESTING8, MUT_INTERESTING8, MUT_INTERESTING8, MUT_INTERESTING8,
     MUT_INTERESTING16, MUT_INTERESTING16, MUT_INTERESTING16BE, MUT_INTERESTING16BE,
     MUT_INTERESTING32, MUT_INTERESTING32, MUT_INTERESTING32BE, MUT_INTERESTING32BE,
     MUT_ARITH8_MINUS, MUT_ARITH8_MINUS, MUT_ARITH8_MINUS, MUT_ARITH8_MINUS,
     MUT_ARITH8, MUT_ARITH8, MUT_ARITH8, MUT_ARITH8,
     MUT_ARITH16_MINUS, MUT_ARITH16_MINUS, MUT_ARITH16BE_MINUS, MUT_ARITH16BE_MINUS,
     MUT_ARITH16, MUT_ARITH16, MUT_ARITH16BE, MUT_ARITH16BE,
     MUT_ARITH32_MINUS, MUT_ARITH32_MINUS, MUT_ARITH32BE_MINUS, MUT_ARITH32BE_MINUS,
     MUT_ARITH32, MUT_ARITH32, MUT_ARITH32BE, MUT_ARITH32BE,
     MUT_RAND8, MUT_RAND8, MUT_RAND8, MUT_RAND8,
     MUT_CLONE_COPY, MUT_CLONE_COPY, MUT_CLONE_COPY, MUT_CLONE_FIXED,
     MUT_OVERWRITE_COPY, MUT_OVERWRITE_COPY, MUT_OVERWRITE_COPY, MUT_OVERWRITE_FIXED,
     MUT_BYTEADD, MUT_BYTESUB, MUT_FLIP8, MUT_SWITCH,
     MUT_SWITCH, MUT_DEL, MUT_DEL, MUT_DEL,
     MUT_DEL, MUT_DEL, MUT_DEL, MUT_DEL,
     MUT_DEL, MUT_EXTRA_OVERWRITE, MUT_EXTRA_OVERWRITE, MUT_EXTRA_INSERT,
     MUT_EXTRA_INSERT, MUT_AUTO_EXTRA_OVERWRITE, MUT_AUTO_EXTRA_OVERWRITE, MUT_AUTO_EXTRA_INSERT,
     MUT_AUTO_EXTRA_INSERT, MUT_SPLICE_OVERWRITE, MUT_SPLICE_OVERWRITE, MUT_SPLICE_INSERT,
     MUT_SPLICE_INSERT]"

definition full_splice_array :: "mutation list" where
  "full_splice_array = [
     MUT_FLIPBIT, MUT_FLIPBIT, MUT_FLIPBIT, MUT_FLIPBIT,
     MUT_INTERESTING8, MUT_INTERESTING8, MUT_INTERESTING8, MUT_INTERESTING8,
     MUT_INTERESTING16, MUT_INTERESTING16, MUT_INTERESTING16BE, MUT_INTERESTING16BE,
     MUT_INTERESTING32, MUT_INTERESTING32, MUT_INTERESTING32BE, MUT_INTERESTING32BE,
     MUT_ARITH8_MINUS, MUT_ARITH8_MINUS, MUT_ARITH8_MINUS, MUT_ARITH8_MINUS,
     MUT_ARITH8, MUT_ARITH8, MUT_ARITH8, MUT_ARITH8,
     MUT_ARITH16_MINUS, MUT_ARITH16_MINUS, MUT_ARITH16BE_MINUS, MUT_ARITH16BE_MINUS,
     MUT_ARITH16, MUT_ARITH16, MUT_ARITH16BE, MUT_ARITH16BE,
     MUT_ARITH32_MINUS, MUT_ARITH32_MINUS, MUT_ARITH32BE_MINUS, MUT_ARITH32BE_MINUS,
     MUT_ARITH32, MUT_ARITH32, MUT_ARITH32BE, MUT_ARITH32BE,
     MUT_RAND8, MUT_RAND8, MUT_RAND8, MUT_RAND8,
     MUT_CLONE_COPY, MUT_CLONE_COPY, MUT_CLONE_COPY, MUT_CLONE_FIXED,
     MUT_OVERWRITE_COPY, MUT_OVERWRITE_COPY, MUT_OVERWRITE_COPY, MUT_OVERWRITE_FIXED,
     MUT_BYTEADD, MUT_BYTESUB, MUT_FLIP8, MUT_SWITCH,
     MUT_SWITCH, MUT_DEL, MUT_DEL, MUT_DEL,
     MUT_DEL, MUT_DEL, MUT_DEL, MUT_DEL,
     MUT_DEL, MUT_EXTRA_OVERWRITE, MUT_EXTRA_OVERWRITE, MUT_EXTRA_INSERT,
     MUT_EXTRA_INSERT, MUT_AUTO_EXTRA_OVERWRITE, MUT_AUTO_EXTRA_OVERWRITE, MUT_AUTO_EXTRA_INSERT,
     MUT_AUTO_EXTRA_INSERT, MUT_SPLICE_OVERWRITE, MUT_SPLICE_OVERWRITE, MUT_SPLICE_OVERWRITE,
     MUT_SPLICE_OVERWRITE, MUT_SPLICE_INSERT, MUT_SPLICE_INSERT, MUT_SPLICE_INSERT,
     MUT_SPLICE_INSERT]"

definition mutation_strategy_exploration_text :: "mutation list" where
  "mutation_strategy_exploration_text = [
     MUT_FLIPBIT, MUT_FLIPBIT, MUT_FLIPBIT, MUT_FLIPBIT,
     MUT_FLIPBIT, MUT_FLIPBIT, MUT_INTERESTING8, MUT_INTERESTING8,
     MUT_INTERESTING8, MUT_INTERESTING8, MUT_INTERESTING8, MUT_INTERESTING16,
     MUT_INTERESTING16, MUT_INTERESTING16, MUT_INTERESTING16, MUT_INTERESTING16,
     MUT_INTERESTING16BE, MUT_INTERESTING16BE, MUT_INTERESTING16BE, MUT_INTERESTING16BE,
     MUT_INTERESTING16BE, MUT_INTERESTING32, MUT_INTERESTING32, MUT_INTERESTING32,
     MUT_INTERESTING32, MUT_INTERESTING32, MUT_INTERESTING32BE, MUT_INTERESTING32BE,
     MUT_INTERESTING32BE, MUT_INTERESTING32BE, MUT_INTERESTING32BE, MUT_ARITH8_MINUS,
     MUT_ARITH8_MINUS, MUT_ARITH8_MINUS, MUT_ARITH8_MINUS, MUT_ARITH8_MINUS,
     MUT_ARITH8_MINUS, MUT_ARITH8, MUT_ARITH8, MUT_ARITH8,
     MUT_ARITH8, MUT_ARITH8, MUT_ARITH8, MUT_ARITH16_MINUS,
     MUT_ARITH16_MINUS, MUT_ARITH16_MINUS, MUT_ARITH16_MINUS, MUT_ARITH16_MINUS,
     MUT_ARITH16_MINUS, MUT_ARITH16BE_MINUS, MUT_ARITH16BE_MINUS, MUT_ARITH16BE_MINUS,
     MUT_ARITH16BE_MINUS, MUT_ARITH16BE_MINUS, MUT_ARITH16BE_MINUS, MUT_ARITH16,
     MUT_ARITH16, MUT_ARITH16, MUT_ARITH16, MUT_ARITH16,
     MUT_ARITH16, MUT_ARITH16BE, MUT_ARITH16BE, MUT_ARITH16BE,
     MUT_ARITH16BE, MUT_ARITH16BE, MUT_ARITH16BE, MUT_ARITH32_MINUS,
     MUT_ARITH32_MINUS, MUT_ARITH32_MINUS, MUT_ARITH32_MINUS, MUT_ARITH32_MINUS,
     MUT_ARITH32_MINUS, MUT_ARITH32BE_MINUS, MUT_ARITH32BE_MINUS, MUT_ARITH32BE_MINUS,
     MUT_ARITH32BE_MINUS, MUT_ARITH32BE_MINUS, MUT_ARITH32BE_MINUS, MUT_ARITH32,
     MUT_ARITH32, MUT_ARITH32, MUT_ARITH32, MUT_ARITH32,
     MUT_ARITH32, MUT_ARITH32BE, MUT_ARITH32BE, MUT_ARITH32BE,
     MUT_ARITH32BE, MUT_ARITH32BE, MUT_ARITH32BE, MUT_RAND8,
     MUT_RAND8, MUT_RAND8, MUT_RAND8, MUT_RAND8,
     MUT_RAND8, MUT_CLONE_COPY, MUT_CLONE_COPY, MUT_CLONE_COPY,
     MUT_CLONE_COPY, MUT_CLONE_COPY, MUT_CLONE_COPY, MUT_CLONE_COPY,
     MUT_CLONE_COPY, MUT_CLONE_COPY, MUT_CLONE_COPY, MUT_CLONE_COPY,
     MUT_CLONE_COPY, MUT_CLONE_COPY, MUT_CLONE_FIXED, MUT_CLONE_FIXED,
     MUT_CLONE_FIXED, MUT_CLONE_FIXED, MUT_CLONE_FIXED, MUT_CLONE_FIXED,
     MUT_CLONE_FIXED, MUT_CLONE_FIXED, MUT_CLONE_FIXED, MUT_CLONE_FIXED,
     MUT_OVERWRITE_COPY, MUT_OVERWRITE_COPY, MUT_OVERWRITE_COPY, MUT_OVERWRITE_COPY,
     MUT_OVERWRITE_COPY, MUT_OVERWRITE_COPY, MUT_OVERWRITE_COPY, MUT_OVERWRITE_COPY,
     MUT_OVERWRITE_COPY, MUT_OVERWRITE_FIXED, MUT_OVERWRITE_FIXED, MUT_OVERWRITE_FIXED,
     MUT_OVERWRITE_FIXED, MUT_OVERWRITE_FIXED, MUT_OVERWRITE_FIXED, MUT_OVERWRITE_FIXED,
     MUT_OVERWRITE_FIXED, MUT_BYTEADD, MUT_BYTEADD, MUT_BYTEADD,
     MUT_BYTEADD, MUT_BYTEADD, MUT_BYTEADD, MUT_BYTESUB,
     MUT_BYTESUB, MUT_BYTESUB, MUT_BYTESUB, MUT_BYTESUB,
     MUT_BYTESUB, MUT_FLIP8, MUT_FLIP8, MUT_FLIP8,
     MUT_FLIP8, MUT_FLIP8, MUT_FLIP8, MUT_FLIP8,
     MUT_FLIP8, MUT_SWITCH, MUT_SWITCH, MUT_SWITCH,
     MUT_SWITCH, MUT_SWITCH, MUT_SWITCH, MUT_SWITCH,
     MUT_SWITCH, MUT_DEL, MUT_DEL, MUT_DEL,
     MUT_DEL, MUT_DEL, MUT_DEL, MUT_DEL,
     MUT_SHUFFLE, MUT_SHUFFLE, MUT_SHUFFLE, MUT_SHUFFLE,
     MUT_SHUFFLE, MUT_SHUFFLE, MUT_SHUFFLE, MUT_SHUFFLE,
     MUT_DELONE, MUT_DELONE, MUT_DELONE, MUT_DELONE,
     MUT_DELONE, MUT_DELONE, MUT_DELONE, MUT_INSERTONE,
     MUT_INSERTONE, MUT_INSERTONE, MUT_INSERTONE, MUT_INSERTONE,
     MUT_INSERTONE, MUT_ASCIINUM, MUT_ASCIINUM, MUT_ASCIINUM,
     MUT_ASCIINUM, MUT_ASCIINUM, MUT_ASCIINUM, MUT_ASCIINUM,
     MUT_ASCIINUM, MUT_INSERTASCIINUM, MUT_INSERTASCIINUM, MUT_INSERTASCIINUM,
     MUT_INSERTASCIINUM, MUT_INSERTASCIINUM, MUT_INSERTASCIINUM, MUT_INSERTASCIINUM,
     MUT_INSERTASCIINUM, MUT_EXTRA_OVERWRITE, MUT_EXTRA_OVERWRITE, MUT_EXTRA_OVERWRITE,
     MUT_EXTRA_OVERWRITE, MUT_EXTRA_OVERWRITE, MUT_EXTRA_OVERWRITE, MUT_EXTRA_OVERWRITE,
     MUT_EXTRA_OVERWRITE, MUT_EXTRA_INSERT, MUT_EXTRA_INSERT, MUT_EXTRA_INSERT,
     MUT_EXTRA_INSERT, MUT_EXTRA_INSERT, MUT_EXTRA_INSERT, MUT_EXTRA_INSERT,
     MUT_EXTRA_INSERT, MUT_AUTO_EXTRA_OVERWRITE, MUT_AUTO_EXTRA_OVERWRITE, MUT_AUTO_EXTRA_OVERWRITE,
     MUT_AUTO_EXTRA_OVERWRITE, MUT_AUTO_EXTRA_OVERWRITE, MUT_AUTO_EXTRA_OVERWRITE, MUT_AUTO_EXTRA_INSERT,
     MUT_AUTO_EXTRA_INSERT, MUT_AUTO_EXTRA_INSERT, MUT_AUTO_EXTRA_INSERT, MUT_AUTO_EXTRA_INSERT,
     MUT_AUTO_EXTRA_INSERT, MUT_SPLICE_OVERWRITE, MUT_SPLICE_OVERWRITE, MUT_SPLICE_OVERWRITE,
     MUT_SPLICE_OVERWRITE, MUT_SPLICE_OVERWRITE, MUT_SPLICE_OVERWRITE, MUT_SPLICE_OVERWRITE,
     MUT_SPLICE_OVERWRITE, MUT_SPLICE_OVERWRITE, MUT_SPLICE_INSERT, MUT_SPLICE_INSERT,
     MUT_SPLICE_INSERT, MUT_SPLICE_INSERT, MUT_SPLICE_INSERT, MUT_SPLICE_INSERT,
     MUT_SPLICE_INSERT, MUT_SPLICE_INSERT, MUT_SPLICE_INSERT, MUT_SPLICE_INSERT]"

definition mutation_strategy_exploration_binary :: "mutation list" where
  "mutation_strategy_exploration_binary = [
     MUT_FLIPBIT, MUT_FLIPBIT, MUT_FLIPBIT, MUT_FLIPBIT,
     MUT_FLIPBIT, MUT_FLIPBIT, MUT_FLIPBIT, MUT_INTERESTING8,
     MUT_INTERESTING8, MUT_INTERESTING8, MUT_INTERESTING8, MUT_INTERESTING8,
     MUT_INTERESTING8, MUT_INTERESTING16, MUT_INTERESTING16, MUT_INTERESTING16,
     MUT_INTERESTING16, MUT_INTERESTING16, MUT_INTERESTING16, MUT_INTERESTING16BE,
     MUT_INTERESTING16BE, MUT_INTERESTING16BE, MUT_INTERESTING16BE, MUT_INTERESTING16BE,
     MUT_INTERESTING16BE, MUT_INTERESTING32, MUT_INTERESTING32, MUT_INTERESTING32,
     MUT_INTERESTING32, MUT_INTERESTING32, MUT_INTERESTING32, MUT_INTERESTING32BE,
     MUT_INTERESTING32BE, MUT_INTERESTING32BE, MUT_INTERESTING32BE, MUT_INTERESTING32BE,
     MUT_INTERESTING32BE, MUT_ARITH8_MINUS, MUT_ARITH8_MINUS, MUT_ARITH8_MINUS,
     MUT_ARITH8_MINUS, MUT_ARITH8_MINUS, MUT_ARITH8_MINUS, MUT_ARITH8_MINUS,
     MUT_ARITH8, MUT_ARITH8, MUT_ARITH8, MUT_ARITH8,
     MUT_ARITH8, MUT_ARITH8, MUT_ARITH8, MUT_ARITH16_MINUS,
     MUT_ARITH16_MINUS, MUT_ARITH16_MINUS, MUT_ARITH16_MINUS, MUT_ARITH16_MINUS,
     MUT_ARITH16_MINUS, MUT_ARITH16BE_MINUS, MUT_ARITH16BE_MINUS, MUT_ARITH16BE_MINUS,
     MUT_ARITH16BE_MINUS, MUT_ARITH16BE_MINUS, MUT_ARITH16BE_MINUS, MUT_ARITH16,
     MUT_ARITH16, MUT_ARITH16, MUT_ARITH16, MUT_ARITH16,
     MUT_ARITH16, MUT_ARITH16BE, MUT_ARITH16BE, MUT_ARITH16BE,
     MUT_ARITH16BE, MUT_ARITH16BE, MUT_ARITH16BE, MUT_ARITH32_MINUS,
     MUT_ARITH32_MINUS, MUT_ARITH32_MINUS, MUT_ARITH32_MINUS, MUT_ARITH32_MINUS,
     MUT_ARITH32_MINUS, MUT_ARITH32BE_MINUS, MUT_ARITH32BE_MINUS, MUT_ARITH32BE_MINUS,
     MUT_ARITH32BE_MINUS, MUT_ARITH32BE_MINUS, MUT_ARITH32BE_MINUS, MUT_ARITH32,
     MUT_ARITH32, MUT_ARITH32, MUT_ARITH32, MUT_ARITH32,
     MUT_ARITH32, MUT_ARITH32, MUT_ARITH32BE, MUT_ARITH32BE,
     MUT_ARITH32BE, MUT_ARITH32BE, MUT_ARITH32BE, MUT_ARITH32BE,
     MUT_RAND8, MUT_RAND8, MUT_RAND8, MUT_RAND8,
     MUT_RAND8, MUT_RAND8, MUT_CLONE_COPY, MUT_CLONE_COPY,
     MUT_CLONE_COPY, MUT_CLONE_COPY, MUT_CLONE_COPY, MUT_CLONE_COPY,
     MUT_CLONE_COPY, MUT_CLONE_COPY, MUT_CLONE_COPY, MUT_CLONE_COPY,
     MUT_CLONE_COPY, MUT_CLONE_COPY, MUT_CLONE_COPY, MUT_CLONE_COPY,
     MUT_CLONE_FIXED, MUT_CLONE_FIXED, MUT_CLONE_FIXED, MUT_CLONE_FIXED,
     MUT_CLONE_FIXED, MUT_CLONE_FIXED, MUT_CLONE_FIXED, MUT_CLONE_FIXED,
     MUT_CLONE_FIXED, MUT_OVERWRITE_COPY, MUT_OVERWRITE_COPY, MUT_OVERWRITE_COPY,
     MUT_OVERWRITE_COPY, MUT_OVERWRITE_COPY, MUT_OVERWRITE_COPY, MUT_OVERWRITE_COPY,
     MUT_OVERWRITE_COPY, MUT_OVERWRITE_COPY, MUT_OVERWRITE_FIXED, MUT_OVERWRITE_FIXED,
     MUT_OVERWRITE_FIXED, MUT_OVERWRITE_FIXED, MUT_OVERWRITE_FIXED, MUT_OVERWRITE_FIXED,
     MUT_OVERWRITE_FIXED, MUT_BYTEADD, MUT_BYTEADD, MUT_BYTEADD,
     MUT_BYTEADD, MUT_BYTEADD, MUT_BYTEADD, MUT_BYTEADD,
     MUT_BYTESUB, MUT_BYTESUB, MUT_BYTESUB, MUT_BYTESUB,
     MUT_BYTESUB, MUT_BYTESUB, MUT_BYTESUB, MUT_FLIP8,
     MUT_FLIP8, MUT_FLIP8, MUT_FLIP8, MUT_FLIP8,
     MUT_FLIP8, MUT_FLIP8, MUT_FLIP8, MUT_FLIP8,
     MUT_FLIP8, MUT_SWITCH, MUT_SWITCH, MUT_SWITCH,
     MUT_SWITCH, MUT_SWITCH, MUT_SWITCH, MUT_SWITCH,
     MUT_DEL, MUT_DEL, MUT_DEL, MUT_DEL,
     MUT_DEL, MUT_DEL, MUT_SHUFFLE, MUT_SHUFFLE,
     MUT_SHUFFLE, MUT_SHUFFLE, MUT_SHUFFLE, MUT_SHUFFLE,
     MUT_DELONE, MUT_DELONE, MUT_DELONE, MUT_DELONE,
     MUT_DELONE, MUT_DELONE, MUT_INSERTONE, MUT_INSERTONE,
     MUT_INSERTONE, MUT_INSERTONE, MUT_INSERTONE, MUT_INSERTONE,
     MUT_ASCIINUM, MUT_ASCIINUM, MUT_ASCIINUM, MUT_ASCIINUM,
     MUT_ASCIINUM, MUT_ASCIINUM, MUT_INSERTASCIINUM, MUT_INSERTASCIINUM,
     MUT_INSERTASCIINUM, MUT_INSERTASCIINUM, MUT_INSERTASCIINUM, MUT_INSERTASCIINUM,
     MUT_EXTRA_OVERWRITE, MUT_EXTRA_OVERWRITE, MUT_EXTRA_OVERWRITE, MUT_EXTRA_OVERWRITE,
     MUT_EXTRA_OVERWRITE, MUT_EXTRA_OVERWRITE, MUT_EXTRA_OVERWRITE, MUT_EXTRA_INSERT,
     MUT_EXTRA_INSERT, MUT_EXTRA_INSERT, MUT_EXTRA_INSERT, MUT_EXTRA_INSERT,
     MUT_EXTRA_INSERT, MUT_EXTRA_INSERT, MUT_AUTO_EXTRA_OVERWRITE, MUT_AUTO_EXTRA_OVERWRITE,
     MUT_AUTO_EXTRA_OVERWRITE, MUT_AUTO_EXTRA_OVERWRITE, MUT_AUTO_EXTRA_OVERWRITE, MUT_AUTO_EXTRA_OVERWRITE,
     MUT_AUTO_EXTRA_INSERT, MUT_AUTO_EXTRA_INSERT, MUT_AUTO_EXTRA_INSERT, MUT_AUTO_EXTRA_INSERT,
     MUT_AUTO_EXTRA_INSERT, MUT_AUTO_EXTRA_INSERT, MUT_SPLICE_OVERWRITE, MUT_SPLICE_OVERWRITE,
     MUT_SPLICE_OVERWRITE, MUT_SPLICE_OVERWRITE, MUT_SPLICE_OVERWRITE, MUT_SPLICE_OVERWRITE,
     MUT_SPLICE_OVERWRITE, MUT_SPLICE_OVERWRITE, MUT_SPLICE_INSERT, MUT_SPLICE_INSERT,
     MUT_SPLICE_INSERT, MUT_SPLICE_INSERT, MUT_SPLICE_INSERT, MUT_SPLICE_INSERT,
     MUT_SPLICE_INSERT, MUT_SPLICE_INSERT, MUT_SPLICE_INSERT, MUT_SPLICE_INSERT]"

definition mutation_strategy_exploitation_text :: "mutation list" where
  "mutation_strategy_exploitation_text = [
     MUT_FLIPBIT, MUT_FLIPBIT, MUT_FLIPBIT, MUT_FLIPBIT,
     MUT_FLIPBIT, MUT_FLIPBIT, MUT_FLIPBIT, MUT_INTERESTING8,
     MUT_INTERESTING8, MUT_INTERESTING8, MUT_INTERESTING8, MUT_INTERESTING8,
     MUT_INTERESTING8, MUT_INTERESTING8, MUT_INTERESTING16, MUT_INTERESTING16,
     MUT_INTERESTING16, MUT_INTERESTING16, MUT_INTERESTING16, MUT_INTERESTING16,
     MUT_INTERESTING16, MUT_INTERESTING16BE, MUT_INTERESTING16BE, MUT_INTERESTING16BE,
     MUT_INTERESTING16BE, MUT_INTERESTING16BE, MUT_INTERESTING16BE, MUT_INTERESTING16BE,
     MUT_INTERESTING32, MUT_INTERESTING32, MUT_INTERESTING32, MUT_INTERESTING32,
     MUT_INTERESTING32, MUT_INTERESTING32, MUT_INTERESTING32, MUT_INTERESTING32,
     MUT_INTERESTING32BE, MUT_INTERESTING32BE, MUT_INTERESTING32BE, MUT_INTERESTING32BE,
     MUT_INTERESTING32BE, MUT_INTERESTING32BE, MUT_INTERESTING32BE, MUT_INTERESTING32BE,
     MUT_ARITH8_MINUS, MUT_ARITH8_MINUS, MUT_ARITH8_MINUS, MUT_ARITH8_MINUS,
     MUT_ARITH8_MINUS, MUT_ARITH8_MINUS, MUT_ARITH8, MUT_ARITH8,
     MUT_ARITH8, MUT_ARITH8, MUT_ARITH8, MUT_ARITH8,
     MUT_ARITH8, MUT_ARITH16_MINUS, MUT_ARITH16_MINUS, MUT_ARITH16_MINUS,
     MUT_ARITH16_MINUS, MUT_ARITH16_MINUS, MUT_ARITH16_MINUS, MUT_ARITH16BE_MINUS,
     MUT_ARITH16BE_MINUS, MUT_ARITH16BE_MINUS, MUT_ARITH16BE_MINUS, MUT_ARITH16BE_MINUS,
     MUT_ARITH16BE_MINUS, MUT_ARITH16BE_MINUS, MUT_ARITH16, MUT_ARITH16,
     MUT_ARITH16, MUT_ARITH16, MUT_ARITH16, MUT_ARITH16,
     MUT_ARITH16, MUT_ARITH16BE, MUT_ARITH16BE, MUT_ARITH16BE,
     MUT_ARITH16BE, MUT_ARITH16BE, MUT_ARITH16BE, MUT_ARITH16BE,
     MUT_ARITH32_MINUS, MUT_ARITH32_MINUS, MUT_ARITH32_MINUS, MUT_ARITH32_MINUS,
     MUT_ARITH32_MINUS, MUT_ARITH32_MINUS, MUT_ARITH32BE_MINUS, MUT_ARITH32BE_MINUS,
     MUT_ARITH32BE_MINUS, MUT_ARITH32BE_MINUS, MUT_ARITH32BE_MINUS, MUT_ARITH32BE_MINUS,
     MUT_ARITH32, MUT_ARITH32, MUT_ARITH32, MUT_ARITH32,
     MUT_ARITH32, MUT_ARITH32, MUT_ARITH32BE, MUT_ARITH32BE,
     MUT_ARITH32BE, MUT_ARITH32BE, MUT_ARITH32BE, MUT_ARITH32BE,
     MUT_ARITH32BE, MUT_RAND8, MUT_RAND8, MUT_RAND8,
     MUT_RAND8, MUT_RAND8, MUT_RAND8, MUT_RAND8,
     MUT_CLONE_COPY, MUT_CLONE_COPY, MUT_CLONE_COPY, MUT_CLONE_COPY,
     MUT_CLONE_COPY, MUT_CLONE_COPY, MUT_CLONE_COPY, MUT_CLONE_COPY,
     MUT_CLONE_COPY, MUT_CLONE_FIXED, MUT_CLONE_FIXED, MUT_CLONE_FIXED,
     MUT_CLONE_FIXED, MUT_CLONE_FIXED, MUT_CLONE_FIXED, MUT_CLONE_FIXED,
     MUT_CLONE_FIXED, MUT_OVERWRITE_COPY, MUT_OVERWRITE_COPY, MUT_OVERWRITE_COPY,
     MUT_OVERWRITE_COPY, MUT_OVERWRITE_COPY, MUT_OVERWRITE_COPY, MUT_OVERWRITE_FIXED,
     MUT_OVERWRITE_FIXED, MUT_OVERWRITE_FIXED, MUT_OVERWRITE_FIXED, MUT_OVERWRITE_FIXED,
     MUT_OVERWRITE_FIXED, MUT_BYTEADD, MUT_BYTEADD, MUT_BYTEADD,
     MUT_BYTEADD, MUT_BYTEADD, MUT_BYTEADD, MUT_BYTEADD,
     MUT_BYTESUB, MUT_BYTESUB, MUT_BYTESUB, MUT_BYTESUB,
     MUT_BYTESUB, MUT_BYTESUB, MUT_FLIP8, MUT_FLIP8,
     MUT_FLIP8, MUT_FLIP8, MUT_FLIP8, MUT_FLIP8,
     MUT_FLIP8, MUT_FLIP8, MUT_FLIP8, MUT_SWITCH,
     MUT_SWITCH, MUT_SWITCH, MUT_SWITCH, MUT_SWITCH,
     MUT_SWITCH, MUT_SWITCH, MUT_DEL, MUT_DEL,
     MUT_DEL, MUT_DEL, MUT_DEL, MUT_DEL,
     MUT_SHUFFLE, MUT_SHUFFLE, MUT_SHUFFLE, MUT_SHUFFLE,
     MUT_SHUFFLE, MUT_SHUFFLE, MUT_SHUFFLE, MUT_DELONE,
     MUT_DELONE, MUT_DELONE, MUT_DELONE, MUT_DELONE,
     MUT_INSERTONE, MUT_INSERTONE, MUT_INSERTONE, MUT_INSERTONE,
     MUT_INSERTONE, MUT_INSERTONE, MUT_ASCIINUM, MUT_ASCIINUM,
     MUT_ASCIINUM, MUT_ASCIINUM, MUT_ASCIINUM, MUT_ASCIINUM,
     MUT_INSERTASCIINUM, MUT_INSERTASCIINUM, MUT_INSERTASCIINUM, MUT_INSERTASCIINUM,
     MUT_INSERTASCIINUM, MUT_INSERTASCIINUM, MUT_INSERTASCIINUM, MUT_INSERTASCIINUM,
     MUT_EXTRA_OVERWRITE, MUT_EXTRA_OVERWRITE, MUT_EXTRA_OVERWRITE, MUT_EXTRA_OVERWRITE,
     MUT_EXTRA_OVERWRITE, MUT_EXTRA_OVERWRITE, MUT_EXTRA_OVERWRITE, MUT_EXTRA_INSERT,
     MUT_EXTRA_INSERT, MUT_EXTRA_INSERT, MUT_EXTRA_INSERT, MUT_EXTRA_INSERT,
     MUT_EXTRA_INSERT, MUT_EXTRA_INSERT, MUT_AUTO_EXTRA_OVERWRITE, MUT_AUTO_EXTRA_OVERWRITE,
     MUT_AUTO_EXTRA_OVERWRITE, MUT_AUTO_EXTRA_OVERWRITE, MUT_AUTO_EXTRA_OVERWRITE, MUT_AUTO_EXTRA_OVERWRITE,
     MUT_AUTO_EXTRA_OVERWRITE, MUT_AUTO_EXTRA_INSERT, MUT_AUTO_EXTRA_INSERT, MUT_AUTO_EXTRA_INSERT,
     MUT_AUTO_EXTRA_INSERT, MUT_AUTO_EXTRA_INSERT, MUT_AUTO_EXTRA_INSERT, MUT_AUTO_EXTRA_INSERT,
     MUT_SPLICE_OVERWRITE, MUT_SPLICE_OVERWRITE, MUT_SPLICE_OVERWRITE, MUT_SPLICE_OVERWRITE,
     MUT_SPLICE_OVERWRITE, MUT_SPLICE_OVERWRITE, MUT_SPLICE_OVERWRITE, MUT_SPLICE_INSERT,
     MUT_SPLICE_INSERT, MUT_SPLICE_INSERT, MUT_SPLICE_INSERT, MUT_SPLICE_INSERT,
     MUT_SPLICE_INSERT, MUT_SPLICE_INSERT, MUT_SPLICE_INSERT, MUT_SPLICE_INSERT]"

definition mutation_strategy_exploitation_binary :: "mutation list" where
  "mutation_strategy_exploitation_binary = [
     MUT_FLIPBIT, MUT_FLIPBIT, MUT_FLIPBIT, MUT_FLIPBIT,
     MUT_FLIPBIT, MUT_FLIPBIT, MUT_FLIPBIT, MUT_INTERESTING8,
     MUT_INTERESTING8, MUT_INTERESTING8, MUT_INTERESTING8, MUT_INTERESTING8,
     MUT_INTERESTING8, MUT_INTERESTING8, MUT_INTERESTING16, MUT_INTERESTING16,
     MUT_INTERESTING16, MUT_INTERESTING16, MUT_INTERESTING16, MUT_INTERESTING16,
     MUT_INTERESTING16, MUT_INTERESTING16BE, MUT_INTERESTING16BE, MUT_INTERESTING16BE,
     MUT_INTERESTING16BE, MUT_INTERESTING16BE, MUT_INTERESTING16BE, MUT_INTERESTING16BE,
     MUT_INTERESTING32, MUT_INTERESTING32, MUT_INTERESTING32, MUT_INTERESTING32,
     MUT_INTERESTING32, MUT_INTERESTING32, MUT_INTERESTING32, MUT_INTERESTING32,
     MUT_INTERESTING32BE, MUT_INTERESTING32BE, MUT_INTERESTING32BE, MUT_INTERESTING32BE,
     MUT_INTERESTING32BE, MUT_INTERESTING32BE, MUT_INTERESTING32BE, MUT_INTERESTING32BE,
     MUT_ARITH8_MINUS, MUT_ARITH8_MINUS, MUT_ARITH8_MINUS, MUT_ARITH8_MINUS,
     MUT_ARITH8_MINUS, MUT_ARITH8_MINUS, MUT_ARITH8, MUT_ARITH8,
     MUT_ARITH8, MUT_ARITH8, MUT_ARITH8, MUT_ARITH8,
     MUT_ARITH8, MUT_ARITH16_MINUS, MUT_ARITH16_MINUS, MUT_ARITH16_MINUS,
     MUT_ARITH16_MINUS, MUT_ARITH16_MINUS, MUT_ARITH16_MINUS, MUT_ARITH16BE_MINUS,
     MUT_ARITH16BE_MINUS, MUT_ARITH16BE_MINUS, MUT_ARITH16BE_MINUS, MUT_ARITH16BE_MINUS,
     MUT_ARITH16BE_MINUS, MUT_ARITH16BE_MINUS, MUT_ARITH16, MUT_ARITH16,
     MUT_ARITH16, MUT_ARITH16, MUT_ARITH16, MUT_ARITH16,
     MUT_ARITH16, MUT_ARITH16BE, MUT_ARITH16BE, MUT_ARITH16BE,
     MUT_ARITH16BE, MUT_ARITH16BE, MUT_ARITH16BE, MUT_ARITH16BE,
     MUT_ARITH32_MINUS, MUT_ARITH32_MINUS, MUT_ARITH32_MINUS, MUT_ARITH32_MINUS,
     MUT_ARITH32_MINUS, MUT_ARITH32_MINUS, MUT_ARITH32BE_MINUS, MUT_ARITH32BE_MINUS,
     MUT_ARITH32BE_MINUS, MUT_ARITH32BE_MINUS, MUT_ARITH32BE_MINUS, MUT_ARITH32BE_MINUS,
     MUT_ARITH32BE_MINUS, MUT_ARITH32, MUT_ARITH32, MUT_ARITH32,
     MUT_ARITH32, MUT_ARITH32, MUT_ARITH32, MUT_ARITH32,
     MUT_ARITH32BE, MUT_ARITH32BE, MUT_ARITH32BE, MUT_ARITH32BE,
     MUT_ARITH32BE, MUT_ARITH32BE, MUT_ARITH32BE, MUT_RAND8,
     MUT_RAND8, MUT_RAND8, MUT_RAND8, MUT_RAND8,
     MUT_RAND8, MUT_RAND8, MUT_CLONE_COPY, MUT_CLONE_COPY,
     MUT_CLONE_COPY, MUT_CLONE_COPY, MUT_CLONE_COPY, MUT_CLONE_COPY,
     MUT_CLONE_COPY, MUT_CLONE_COPY, MUT_CLONE_COPY, MUT_CLONE_FIXED,
     MUT_CLONE_FIXED, MUT_CLONE_FIXED, MUT_CLONE_FIXED, MUT_CLONE_FIXED,
     MUT_CLONE_FIXED, MUT_CLONE_FIXED, MUT_CLONE_FIXED, MUT_OVERWRITE_COPY,
     MUT_OVERWRITE_COPY, MUT_OVERWRITE_COPY, MUT_OVERWRITE_COPY, MUT_OVERWRITE_COPY,
     MUT_OVERWRITE_COPY, MUT_OVERWRITE_FIXED, MUT_OVERWRITE_FIXED, MUT_OVERWRITE_FIXED,
     MUT_OVERWRITE_FIXED, MUT_OVERWRITE_FIXED, MUT_OVERWRITE_FIXED, MUT_BYTEADD,
     MUT_BYTEADD, MUT_BYTEADD, MUT_BYTEADD, MUT_BYTEADD,
     MUT_BYTEADD, MUT_BYTEADD, MUT_BYTESUB, MUT_BYTESUB,
     MUT_BYTESUB, MUT_BYTESUB, MUT_BYTESUB, MUT_BYTESUB,
     MUT_FLIP8, MUT_FLIP8, MUT_FLIP8, MUT_FLIP8,
     MUT_FLIP8, MUT_FLIP8, MUT_FLIP8, MUT_FLIP8,
     MUT_FLIP8, MUT_FLIP8, MUT_SWITCH, MUT_SWITCH,
     MUT_SWITCH, MUT_SWITCH, MUT_SWITCH, MUT_SWITCH,
     MUT_SWITCH, MUT_DEL, MUT_DEL, MUT_DEL,
     MUT_DEL, MUT_DEL, MUT_DEL, MUT_SHUFFLE,
     MUT_SHUFFLE, MUT_SHUFFLE, MUT_SHUFFLE, MUT_SHUFFLE,
     MUT_SHUFFLE, MUT_DELONE, MUT_DELONE, MUT_DELONE,
     MUT_DELONE, MUT_DELONE, MUT_INSERTONE, MUT_INSERTONE,
     MUT_INSERTONE, MUT_INSERTONE, MUT_INSERTONE, MUT_INSERTONE,
     MUT_ASCIINUM, MUT_ASCIINUM, MUT_ASCIINUM, MUT_ASCIINUM,
     MUT_ASCIINUM, MUT_INSERTASCIINUM, MUT_INSERTASCIINUM, MUT_INSERTASCIINUM,
     MUT_INSERTASCIINUM, MUT_INSERTASCIINUM, MUT_INSERTASCIINUM, MUT_INSERTASCIINUM,
     MUT_EXTRA_OVERWRITE, MUT_EXTRA_OVERWRITE, MUT_EXTRA_OVERWRITE, MUT_EXTRA_OVERWRITE,
     MUT_EXTRA_OVERWRITE, MUT_EXTRA_OVERWRITE, MUT_EXTRA_OVERWRITE, MUT_EXTRA_INSERT,
     MUT_EXTRA_INSERT, MUT_EXTRA_INSERT, MUT_EXTRA_INSERT, MUT_EXTRA_INSERT,
     MUT_EXTRA_INSERT, MUT_EXTRA_INSERT, MUT_AUTO_EXTRA_OVERWRITE, MUT_AUTO_EXTRA_OVERWRITE,
     MUT_AUTO_EXTRA_OVERWRITE, MUT_AUTO_EXTRA_OVERWRITE, MUT_AUTO_EXTRA_OVERWRITE, MUT_AUTO_EXTRA_OVERWRITE,
     MUT_AUTO_EXTRA_OVERWRITE, MUT_AUTO_EXTRA_INSERT, MUT_AUTO_EXTRA_INSERT, MUT_AUTO_EXTRA_INSERT,
     MUT_AUTO_EXTRA_INSERT, MUT_AUTO_EXTRA_INSERT, MUT_AUTO_EXTRA_INSERT, MUT_AUTO_EXTRA_INSERT,
     MUT_SPLICE_OVERWRITE, MUT_SPLICE_OVERWRITE, MUT_SPLICE_OVERWRITE, MUT_SPLICE_OVERWRITE,
     MUT_SPLICE_OVERWRITE, MUT_SPLICE_OVERWRITE, MUT_SPLICE_OVERWRITE, MUT_SPLICE_INSERT,
     MUT_SPLICE_INSERT, MUT_SPLICE_INSERT, MUT_SPLICE_INSERT, MUT_SPLICE_INSERT,
     MUT_SPLICE_INSERT, MUT_SPLICE_INSERT, MUT_SPLICE_INSERT, MUT_SPLICE_INSERT]"

section \<open>What they contain\<close>

named_theorems table_defs
declare text_array_def [table_defs]
declare binary_array_def [table_defs]
declare normal_splice_array_def [table_defs]
declare full_splice_array_def [table_defs]
declare mutation_strategy_exploration_text_def [table_defs]
declare mutation_strategy_exploration_binary_def [table_defs]
declare mutation_strategy_exploitation_text_def [table_defs]
declare mutation_strategy_exploitation_binary_def [table_defs]

lemma table_lengths [simp]:
  "length text_array = 200"
  "length binary_array = 256"
  "length normal_splice_array = 77"
  "length full_splice_array = 81"
  "length mutation_strategy_exploration_text = 256"
  "length mutation_strategy_exploration_binary = 256"
  "length mutation_strategy_exploitation_text = 256"
  "length mutation_strategy_exploitation_binary = 256"
  by (simp_all add: table_defs)

lemma set_text_array: "m \<in> set text_array \<longleftrightarrow> m \<notin> {MUT_SHUFFLE, MUT_DELONE, MUT_INSERTONE, MUT_ASCIINUM, MUT_INSERTASCIINUM, MUT_MAX}"
  by (cases m) (simp_all add: text_array_def)

lemma set_binary_array: "m \<in> set binary_array \<longleftrightarrow> m \<notin> {MUT_SHUFFLE, MUT_DELONE, MUT_INSERTONE, MUT_ASCIINUM, MUT_INSERTASCIINUM, MUT_MAX}"
  by (cases m) (simp_all add: binary_array_def)

lemma set_normal_splice_array: "m \<in> set normal_splice_array \<longleftrightarrow> m \<notin> {MUT_SHUFFLE, MUT_DELONE, MUT_INSERTONE, MUT_ASCIINUM, MUT_INSERTASCIINUM, MUT_MAX}"
  by (cases m) (simp_all add: normal_splice_array_def)

lemma set_full_splice_array: "m \<in> set full_splice_array \<longleftrightarrow> m \<notin> {MUT_SHUFFLE, MUT_DELONE, MUT_INSERTONE, MUT_ASCIINUM, MUT_INSERTASCIINUM, MUT_MAX}"
  by (cases m) (simp_all add: full_splice_array_def)

lemma set_mutation_strategy_exploration_text: "m \<in> set mutation_strategy_exploration_text \<longleftrightarrow> m \<notin> {MUT_MAX}"
  by (cases m) (simp_all add: mutation_strategy_exploration_text_def)

lemma set_mutation_strategy_exploration_binary: "m \<in> set mutation_strategy_exploration_binary \<longleftrightarrow> m \<notin> {MUT_MAX}"
  by (cases m) (simp_all add: mutation_strategy_exploration_binary_def)

lemma set_mutation_strategy_exploitation_text: "m \<in> set mutation_strategy_exploitation_text \<longleftrightarrow> m \<notin> {MUT_MAX}"
  by (cases m) (simp_all add: mutation_strategy_exploitation_text_def)

lemma set_mutation_strategy_exploitation_binary: "m \<in> set mutation_strategy_exploitation_binary \<longleftrightarrow> m \<notin> {MUT_MAX}"
  by (cases m) (simp_all add: mutation_strategy_exploitation_binary_def)

section \<open>Property\<close>

text \<open>
  each strategy table of \<open>afl_mutate\<close> has the 256 entries the driver draws from and offers
  every operator, and none holds \<open>MUT_MAX\<close>, which no case of the switch handles; the tables of the
  default havoc stage lack exactly the five newer operators.
\<close>

theorem strategy_tables_complete:
  "map length [mutation_strategy_exploration_text, mutation_strategy_exploration_binary,
     mutation_strategy_exploitation_text, mutation_strategy_exploitation_binary] = [256, 256, 256, 256]
   \<and> set mutation_strategy_exploration_text = - {MUT_MAX}
   \<and> set mutation_strategy_exploration_binary = - {MUT_MAX}
   \<and> set mutation_strategy_exploitation_text = - {MUT_MAX}
   \<and> set mutation_strategy_exploitation_binary = - {MUT_MAX}
   \<and> set text_array = - {MUT_MAX, MUT_SHUFFLE, MUT_DELONE, MUT_INSERTONE, MUT_ASCIINUM, MUT_INSERTASCIINUM}
   \<and> set binary_array = - {MUT_MAX, MUT_SHUFFLE, MUT_DELONE, MUT_INSERTONE, MUT_ASCIINUM, MUT_INSERTASCIINUM}"
proof -
  have eq: "(\<And>m. m \<in> A \<longleftrightarrow> m \<notin> B) \<Longrightarrow> A = - B" for A B :: "mutation set" by blast
  show ?thesis
    by (intro conjI eq) (simp_all add: set_mutation_strategy_exploration_text
        set_mutation_strategy_exploration_binary set_mutation_strategy_exploitation_text
        set_mutation_strategy_exploitation_binary set_text_array set_binary_array, blast+)
qed

end
