(* ===== verification/AFL_Mutations.thy ===== *)
theory AFL_Mutations
  imports AFL_Rng AFL_MutTables
begin

text \<open>
  The stacked mutator \<open>afl_mutate\<close> of \<^verbatim>\<open>include/afl-mutations.h\<close>: one definition per case of
  its switch, the choice of an operator, the retry loop and the driver. The random source
  is the argument \<open>rb\<close> (\<open>rand_below\<close>) and \<open>rn\<close> (\<open>rand_next\<close>); \<open>afl_mutate_native\<close> plugs in
  the model of \<^verbatim>\<open>AFL_Rng\<close>.
\<close>

section \<open>State and arguments\<close>

text \<open>
  What a step may change: the generator, the caller's buffer with the length of the test
  case in it, and the static scratch buffer \<open>tmp_buf\<close>.
\<close>

record 'r mst =
  m_rng :: 'r
  m_buf :: bytes
  m_len :: nat
  m_tmp :: bytes

text \<open>What a step only reads: fields of \<open>afl_state_t\<close> and arguments of \<open>afl_mutate\<close>.\<close>

record mut_env =
  e_queue_cycle :: nat
  e_run_over10m :: bool
  e_extras :: "bytes list"
  e_a_extras :: "bytes list"
  e_splice_buf :: "bytes option"
  e_splice_len :: nat
  e_max_len :: nat

type_synonym 'r rand = "nat \<Rightarrow> 'r \<Rightarrow> (nat \<times> 'r) res"

text \<open>\<open>StepRetry\<close> is \<open>goto retry_havoc_step\<close>.\<close>

datatype step_end = StepDone | StepRetry

type_synonym 'r mres = "(step_end \<times> 'r mst) res"

definition draw :: "'r rand \<Rightarrow> nat \<Rightarrow> 'r mst \<Rightarrow> (nat \<times> 'r mst) res" where
  "draw rb limit s = ebind (rb limit (m_rng s)) (\<lambda>(x, r). Inr (x, s\<lparr>m_rng := r\<rparr>))"

definition finish :: "'r mst res \<Rightarrow> 'r mres" where
  "finish m = ebind m (\<lambda>s. Inr (StepDone, s))"

definition HAVOC_BLK_SMALL :: nat where "HAVOC_BLK_SMALL = 32"
definition HAVOC_BLK_MEDIUM :: nat where "HAVOC_BLK_MEDIUM = 128"
definition HAVOC_BLK_LARGE :: nat where "HAVOC_BLK_LARGE = 1500"
definition HAVOC_BLK_XL :: nat where "HAVOC_BLK_XL = 32768"
definition ARITH_MAX :: nat where "ARITH_MAX = 35"

definition interesting_8 :: "int list" where
  "interesting_8 = [-128, -1, 0, 1, 16, 32, 64, 100, 127]"

definition interesting_16 :: "int list" where
  "interesting_16 = interesting_8 @
     [-32768, -129, 128, 255, 256, 512, 1000, 1024, 4096, 32767]"

definition interesting_32 :: "int list" where
  "interesting_32 = interesting_16 @
     [-2147483648, -100663046, -32769, 32768, 65535, 65536, 100663045, 2139095040, 2147483647]"

section \<open>Block lengths\<close>

text \<open>The switch that picks the range of lengths.\<close>

definition block_range :: "'r rand \<Rightarrow> mut_env \<Rightarrow> 'r mst \<Rightarrow> (nat \<times> nat \<times> 'r mst) res" where
  "block_range rb e s =
     (let rlim = (if e_run_over10m e then min (e_queue_cycle e) 3 else 1) in
      ebind (draw rb rlim s) (\<lambda>(c, s).
        if c = 0 then Inr (1, HAVOC_BLK_SMALL, s)
        else if c = 1 then Inr (HAVOC_BLK_SMALL, HAVOC_BLK_MEDIUM, s)
        else ebind (draw rb 10 s) (\<lambda>(d, s).
               if d \<noteq> 0 then Inr (HAVOC_BLK_MEDIUM, HAVOC_BLK_LARGE, s)
               else Inr (HAVOC_BLK_LARGE, HAVOC_BLK_XL, s))))"

definition choose_block_len :: "'r rand \<Rightarrow> mut_env \<Rightarrow> nat \<Rightarrow> 'r mst \<Rightarrow> (nat \<times> 'r mst) res" where
  "choose_block_len rb e limit s =
     ebind (block_range rb e s) (\<lambda>(min_value, max_value, s).
       let min_value = (if limit \<le> min_value then 1 else min_value) in
       ebind (draw rb (u32_add (u32_sub (min max_value limit) min_value) 1) s) (\<lambda>(x, s).
         Inr (u32_add min_value x, s)))"

section \<open>Operators on single values\<close>

definition modify8 :: "nat \<Rightarrow> (u8 \<Rightarrow> u8) \<Rightarrow> 'r mst \<Rightarrow> 'r mst res" where
  "modify8 pos f s = ebind (load8 (m_buf s) pos) (\<lambda>v.
     ebind (store8 (m_buf s) pos (f v)) (\<lambda>b. Inr (s\<lparr>m_buf := b\<rparr>)))"

definition modify16 :: "nat \<Rightarrow> (u16 \<Rightarrow> u16) \<Rightarrow> 'r mst \<Rightarrow> 'r mst res" where
  "modify16 pos f s = ebind (load16 (m_buf s) pos) (\<lambda>v.
     ebind (store16 (m_buf s) pos (f v)) (\<lambda>b. Inr (s\<lparr>m_buf := b\<rparr>)))"

definition modify32 :: "nat \<Rightarrow> (u32 \<Rightarrow> u32) \<Rightarrow> 'r mst \<Rightarrow> 'r mst res" where
  "modify32 pos f s = ebind (load32 (m_buf s) pos) (\<lambda>v.
     ebind (store32 (m_buf s) pos (f v)) (\<lambda>b. Inr (s\<lparr>m_buf := b\<rparr>)))"

definition mut_flipbit :: "'r rand \<Rightarrow> 'r mst \<Rightarrow> 'r mres" where
  "mut_flipbit rb s =
     ebind (draw rb 8 s) (\<lambda>(bitno, s).
     ebind (draw rb (m_len s) s) (\<lambda>(off, s).
       finish (modify8 off (\<lambda>v. v XOR push_bit bitno 1) s)))"

definition mut_interesting8 :: "'r rand \<Rightarrow> 'r mst \<Rightarrow> 'r mres" where
  "mut_interesting8 rb s =
     ebind (draw rb (length interesting_8) s) (\<lambda>(item, s).
     ebind (draw rb (m_len s) s) (\<lambda>(pos, s).
       finish (modify8 pos (\<lambda>_. word_of_int (interesting_8 ! item)) s)))"

definition mut_interesting16 :: "'r rand \<Rightarrow> 'r mst \<Rightarrow> 'r mres" where
  "mut_interesting16 rb s =
     (if m_len s < 2 then Inr (StepDone, s) else
      ebind (draw rb (length interesting_16) s) (\<lambda>(item, s).
      ebind (draw rb (u32_sub (m_len s) 1) s) (\<lambda>(pos, s).
        finish (modify16 pos (\<lambda>_. word_of_int (interesting_16 ! item)) s))))"

definition mut_interesting16be :: "'r rand \<Rightarrow> 'r mst \<Rightarrow> 'r mres" where
  "mut_interesting16be rb s =
     (if m_len s < 2 then Inr (StepDone, s) else
      ebind (draw rb (length interesting_16) s) (\<lambda>(item, s).
      ebind (draw rb (u32_sub (m_len s) 1) s) (\<lambda>(pos, s).
        finish (modify16 pos (\<lambda>_. SWAP16 (word_of_int (interesting_16 ! item))) s))))"

definition mut_interesting32 :: "'r rand \<Rightarrow> 'r mst \<Rightarrow> 'r mres" where
  "mut_interesting32 rb s =
     (if m_len s < 4 then Inr (StepDone, s) else
      ebind (draw rb (length interesting_32) s) (\<lambda>(item, s).
      ebind (draw rb (u32_sub (m_len s) 3) s) (\<lambda>(pos, s).
        finish (modify32 pos (\<lambda>_. word_of_int (interesting_32 ! item)) s))))"

definition mut_interesting32be :: "'r rand \<Rightarrow> 'r mst \<Rightarrow> 'r mres" where
  "mut_interesting32be rb s =
     (if m_len s < 4 then Inr (StepDone, s) else
      ebind (draw rb (length interesting_32) s) (\<lambda>(item, s).
      ebind (draw rb (u32_sub (m_len s) 3) s) (\<lambda>(pos, s).
        finish (modify32 pos (\<lambda>_. SWAP32 (word_of_int (interesting_32 ! item))) s))))"

definition mut_arith8_minus :: "'r rand \<Rightarrow> 'r mst \<Rightarrow> 'r mres" where
  "mut_arith8_minus rb s =
     ebind (draw rb ARITH_MAX s) (\<lambda>(x, s).
     ebind (draw rb (m_len s) s) (\<lambda>(pos, s).
       finish (modify8 pos (\<lambda>v. v - of_nat (1 + x)) s)))"

definition mut_arith8 :: "'r rand \<Rightarrow> 'r mst \<Rightarrow> 'r mres" where
  "mut_arith8 rb s =
     ebind (draw rb ARITH_MAX s) (\<lambda>(x, s).
     ebind (draw rb (m_len s) s) (\<lambda>(pos, s).
       finish (modify8 pos (\<lambda>v. v + of_nat (1 + x)) s)))"

definition mut_arith16_minus :: "'r rand \<Rightarrow> 'r mst \<Rightarrow> 'r mres" where
  "mut_arith16_minus rb s =
     (if m_len s < 2 then Inr (StepDone, s) else
      ebind (draw rb (u32_sub (m_len s) 1) s) (\<lambda>(pos, s).
      ebind (draw rb ARITH_MAX s) (\<lambda>(x, s).
        finish (modify16 pos (\<lambda>v. v - of_nat (1 + x)) s))))"

definition mut_arith16be_minus :: "'r rand \<Rightarrow> 'r mst \<Rightarrow> 'r mres" where
  "mut_arith16be_minus rb s =
     (if m_len s < 2 then Inr (StepDone, s) else
      ebind (draw rb (u32_sub (m_len s) 1) s) (\<lambda>(pos, s).
      ebind (draw rb ARITH_MAX s) (\<lambda>(x, s).
        finish (modify16 pos (\<lambda>v. SWAP16 (SWAP16 v - of_nat (1 + x))) s))))"

definition mut_arith16 :: "'r rand \<Rightarrow> 'r mst \<Rightarrow> 'r mres" where
  "mut_arith16 rb s =
     (if m_len s < 2 then Inr (StepDone, s) else
      ebind (draw rb (u32_sub (m_len s) 1) s) (\<lambda>(pos, s).
      ebind (draw rb ARITH_MAX s) (\<lambda>(x, s).
        finish (modify16 pos (\<lambda>v. v + of_nat (1 + x)) s))))"

definition mut_arith16be :: "'r rand \<Rightarrow> 'r mst \<Rightarrow> 'r mres" where
  "mut_arith16be rb s =
     (if m_len s < 2 then Inr (StepDone, s) else
      ebind (draw rb (u32_sub (m_len s) 1) s) (\<lambda>(pos, s).
      ebind (draw rb ARITH_MAX s) (\<lambda>(x, s).
        finish (modify16 pos (\<lambda>v. SWAP16 (SWAP16 v + of_nat (1 + x))) s))))"

definition mut_arith32_minus :: "'r rand \<Rightarrow> 'r mst \<Rightarrow> 'r mres" where
  "mut_arith32_minus rb s =
     (if m_len s < 4 then Inr (StepDone, s) else
      ebind (draw rb (u32_sub (m_len s) 3) s) (\<lambda>(pos, s).
      ebind (draw rb ARITH_MAX s) (\<lambda>(x, s).
        finish (modify32 pos (\<lambda>v. v - of_nat (1 + x)) s))))"

definition mut_arith32be_minus :: "'r rand \<Rightarrow> 'r mst \<Rightarrow> 'r mres" where
  "mut_arith32be_minus rb s =
     (if m_len s < 4 then Inr (StepDone, s) else
      ebind (draw rb (u32_sub (m_len s) 3) s) (\<lambda>(pos, s).
      ebind (draw rb ARITH_MAX s) (\<lambda>(x, s).
        finish (modify32 pos (\<lambda>v. SWAP32 (SWAP32 v - of_nat (1 + x))) s))))"

definition mut_arith32 :: "'r rand \<Rightarrow> 'r mst \<Rightarrow> 'r mres" where
  "mut_arith32 rb s =
     (if m_len s < 4 then Inr (StepDone, s) else
      ebind (draw rb (u32_sub (m_len s) 3) s) (\<lambda>(pos, s).
      ebind (draw rb ARITH_MAX s) (\<lambda>(x, s).
        finish (modify32 pos (\<lambda>v. v + of_nat (1 + x)) s))))"

definition mut_arith32be :: "'r rand \<Rightarrow> 'r mst \<Rightarrow> 'r mres" where
  "mut_arith32be rb s =
     (if m_len s < 4 then Inr (StepDone, s) else
      ebind (draw rb (u32_sub (m_len s) 3) s) (\<lambda>(pos, s).
      ebind (draw rb ARITH_MAX s) (\<lambda>(x, s).
        finish (modify32 pos (\<lambda>v. SWAP32 (SWAP32 v + of_nat (1 + x))) s))))"

definition mut_rand8 :: "'r rand \<Rightarrow> 'r mst \<Rightarrow> 'r mres" where
  "mut_rand8 rb s =
     ebind (draw rb (m_len s) s) (\<lambda>(pos, s).
     ebind (draw rb 255 s) (\<lambda>(x, s).
       finish (modify8 pos (\<lambda>v. v XOR of_nat (1 + x)) s)))"

definition mut_byteadd :: "'r rand \<Rightarrow> 'r mst \<Rightarrow> 'r mres" where
  "mut_byteadd rb s =
     ebind (draw rb (m_len s) s) (\<lambda>(pos, s). finish (modify8 pos (\<lambda>v. v + 1) s))"

definition mut_bytesub :: "'r rand \<Rightarrow> 'r mst \<Rightarrow> 'r mres" where
  "mut_bytesub rb s =
     ebind (draw rb (m_len s) s) (\<lambda>(pos, s). finish (modify8 pos (\<lambda>v. v - 1) s))"

definition mut_flip8 :: "'r rand \<Rightarrow> 'r mst \<Rightarrow> 'r mres" where
  "mut_flip8 rb s =
     ebind (draw rb (m_len s) s) (\<lambda>(pos, s). finish (modify8 pos (\<lambda>v. v XOR 0xff) s))"

section \<open>Operators on blocks\<close>

text \<open>
  Head, inserted part (\<open>ins\<close> writes it into the scratch buffer) and tail are assembled in
  \<open>tmp_buf\<close> and copied back.
\<close>

definition insert_block :: "nat \<Rightarrow> nat \<Rightarrow> (bytes \<Rightarrow> bytes res) \<Rightarrow> 'r mst \<Rightarrow> 'r mst res" where
  "insert_block clone_to clone_len ins s =
     ebind (memcpy (m_tmp s) 0 (m_buf s) 0 clone_to) (\<lambda>t.
     ebind (ins t) (\<lambda>t.
     ebind (memcpy t (clone_to + clone_len) (m_buf s) clone_to (u32_sub (m_len s) clone_to)) (\<lambda>t.
     let len = u32_add (m_len s) clone_len in
     ebind (memcpy (m_buf s) 0 t 0 len) (\<lambda>b.
       Inr (s\<lparr>m_buf := b, m_len := len, m_tmp := t\<rparr>)))))"

text \<open>The fill byte: random, or the byte in front of the target.\<close>

definition pick_fill :: "'r rand \<Rightarrow> nat \<Rightarrow> 'r mst \<Rightarrow> (u8 \<times> 'r mst) res" where
  "pick_fill rb to s =
     ebind (draw rb 2 s) (\<lambda>(strat, s).
     let from = (if to \<noteq> 0 then to - 1 else 0) in
     if strat \<noteq> 0 then ebind (draw rb 256 s) (\<lambda>(x, s). Inr (of_nat x, s))
     else ebind (load8 (m_buf s) from) (\<lambda>v. Inr (v, s)))"

text \<open>An operator that needs more room than there is: give up on short inputs, retry on others.\<close>

definition no_room :: "'r mst \<Rightarrow> 'r mres" where
  "no_room s = (if m_len s < 8 then Inr (StepDone, s) else Inr (StepRetry, s))"

definition mut_clone_copy :: "'r rand \<Rightarrow> mut_env \<Rightarrow> 'r mst \<Rightarrow> 'r mres" where
  "mut_clone_copy rb e s =
     (if u32_add (m_len s) HAVOC_BLK_XL < e_max_len e then
        ebind (choose_block_len rb e (m_len s) s) (\<lambda>(clone_len, s).
        ebind (draw rb (u32_add (u32_sub (m_len s) clone_len) 1) s) (\<lambda>(clone_from, s).
        ebind (draw rb (m_len s) s) (\<lambda>(clone_to, s).
          finish (insert_block clone_to clone_len
            (\<lambda>t. memcpy t clone_to (m_buf s) clone_from clone_len) s))))
      else no_room s)"

definition mut_clone_fixed :: "'r rand \<Rightarrow> mut_env \<Rightarrow> 'r mst \<Rightarrow> 'r mres" where
  "mut_clone_fixed rb e s =
     (if u32_add (m_len s) HAVOC_BLK_XL < e_max_len e then
        ebind (choose_block_len rb e HAVOC_BLK_XL s) (\<lambda>(clone_len, s).
        ebind (draw rb (m_len s) s) (\<lambda>(clone_to, s).
        ebind (pick_fill rb clone_to s) (\<lambda>(item, s).
          finish (insert_block clone_to clone_len (\<lambda>t. memset t clone_to item clone_len) s))))
      else no_room s)"

definition mut_overwrite_copy :: "'r rand \<Rightarrow> mut_env \<Rightarrow> 'r mst \<Rightarrow> 'r mres" where
  "mut_overwrite_copy rb e s =
     (if m_len s < 2 then Inr (StepDone, s) else
      ebind (choose_block_len rb e (u32_sub (m_len s) 1) s) (\<lambda>(copy_len, s).
      ebind (draw rb (u32_add (u32_sub (m_len s) copy_len) 1) s) (\<lambda>(copy_from, s).
      ebind (draw rb (u32_add (u32_sub (m_len s) copy_len) 1) s) (\<lambda>(copy_to, s).
        if copy_from \<noteq> copy_to then
          ebind (memmove (m_buf s) copy_to copy_from copy_len) (\<lambda>b.
            Inr (StepDone, s\<lparr>m_buf := b\<rparr>))
        else Inr (StepDone, s)))))"

definition mut_overwrite_fixed :: "'r rand \<Rightarrow> mut_env \<Rightarrow> 'r mst \<Rightarrow> 'r mres" where
  "mut_overwrite_fixed rb e s =
     (if m_len s < 2 then Inr (StepDone, s) else
      ebind (choose_block_len rb e (u32_sub (m_len s) 1) s) (\<lambda>(copy_len, s).
      ebind (draw rb (u32_add (u32_sub (m_len s) copy_len) 1) s) (\<lambda>(copy_to, s).
      ebind (pick_fill rb copy_to s) (\<lambda>(item, s).
      ebind (memset (m_buf s) copy_to item copy_len) (\<lambda>b.
        Inr (StepDone, s\<lparr>m_buf := b\<rparr>))))))"

definition draw_other :: "'r rand \<Rightarrow> nat \<Rightarrow> nat \<Rightarrow> 'r mst \<Rightarrow> (nat \<times> 'r mst) res" where
  "draw_other rb limit x = run_loop (\<lambda>s. ebind (draw rb limit s) (\<lambda>(y, s).
     if x = y then Inr (Cont s) else Inr (Break (y, s))))"

definition mut_switch :: "'r rand \<Rightarrow> mut_env \<Rightarrow> 'r mst \<Rightarrow> 'r mres" where
  "mut_switch rb e s =
     (if m_len s < 4 then Inr (StepDone, s) else
      ebind (draw rb (m_len s) s) (\<lambda>(switch_from, s).
      ebind (draw_other rb (m_len s) switch_from s) (\<lambda>(switch_to, s).
      let (switch_len, to_end) =
        (if switch_from < switch_to
         then (u32_sub switch_to switch_from, u32_sub (m_len s) switch_to)
         else (u32_sub switch_from switch_to, u32_sub (m_len s) switch_from)) in
      ebind (choose_block_len rb e (min switch_len to_end) s) (\<lambda>(switch_len, s).
      ebind (memcpy (m_tmp s) 0 (m_buf s) switch_from switch_len) (\<lambda>t.
      ebind (memcpy_same (m_buf s) switch_from switch_to switch_len) (\<lambda>b.
      ebind (memcpy b switch_to t 0 switch_len) (\<lambda>b.
        Inr (StepDone, s\<lparr>m_buf := b, m_tmp := t\<rparr>))))))))"

definition delete_block :: "nat \<Rightarrow> nat \<Rightarrow> 'r mst \<Rightarrow> 'r mst res" where
  "delete_block del_from del_len s =
     ebind (memmove (m_buf s) del_from (del_from + del_len)
              (u32_sub (u32_sub (m_len s) del_from) del_len)) (\<lambda>b.
       Inr (s\<lparr>m_buf := b, m_len := u32_sub (m_len s) del_len\<rparr>))"

definition mut_del :: "'r rand \<Rightarrow> mut_env \<Rightarrow> 'r mst \<Rightarrow> 'r mres" where
  "mut_del rb e s =
     (if m_len s < 2 then Inr (StepDone, s) else
      ebind (choose_block_len rb e (u32_sub (m_len s) 1) s) (\<lambda>(del_len, s).
      ebind (draw rb (u32_add (u32_sub (m_len s) del_len) 1) s) (\<lambda>(del_from, s).
        finish (delete_block del_from del_len s))))"

definition mut_delone :: "'r rand \<Rightarrow> 'r mst \<Rightarrow> 'r mres" where
  "mut_delone rb s =
     (if m_len s < 2 then Inr (StepDone, s) else
      ebind (draw rb (u32_add (u32_sub (m_len s) 1) 1) s) (\<lambda>(del_from, s).
        finish (delete_block del_from 1 s)))"

primrec shuffle_from :: "'r rand \<Rightarrow> nat \<Rightarrow> nat \<Rightarrow> 'r mst \<Rightarrow> 'r mst res" where
  "shuffle_from rb off 0 s = Inr s"
| "shuffle_from rb off (Suc i') s =
     ebind (draw_other rb (Suc i' + 1) (Suc i') s) (\<lambda>(j, s).
     ebind (load8 (m_buf s) (off + Suc i')) (\<lambda>temp.
     ebind (load8 (m_buf s) (off + j)) (\<lambda>vj.
     ebind (store8 (m_buf s) (off + Suc i') vj) (\<lambda>b.
     ebind (store8 b (off + j) temp) (\<lambda>b.
       shuffle_from rb off i' (s\<lparr>m_buf := b\<rparr>))))))"

definition mut_shuffle :: "'r rand \<Rightarrow> mut_env \<Rightarrow> 'r mst \<Rightarrow> 'r mres" where
  "mut_shuffle rb e s =
     (if m_len s < 4 then Inr (StepDone, s) else
      ebind (choose_block_len rb e (u32_sub (m_len s) 1) s) (\<lambda>(blen, s).
      ebind (draw rb (u32_add (u32_sub (m_len s) blen) 1) s) (\<lambda>(off, s).
        finish (shuffle_from rb off (blen - 1) s))))"

definition mut_insertone :: "'r rand \<Rightarrow> 'r mst \<Rightarrow> 'r mres" where
  "mut_insertone rb s =
     (if m_len s < 2 then Inr (StepDone, s) else
      ebind (draw rb (m_len s) s) (\<lambda>(clone_to, s).
      ebind (pick_fill rb clone_to s) (\<lambda>(item, s).
        finish (insert_block clone_to 1 (\<lambda>t. memset t clone_to item 1) s))))"

section \<open>Operators on decimal numbers\<close>

definition isdigit :: "u8 \<Rightarrow> bool" where
  "isdigit c \<longleftrightarrow> 48 \<le> c \<and> c \<le> 57"

fun dec_nat :: "nat \<Rightarrow> bytes" where
  "dec_nat n = (if n < 10 then [of_nat (48 + n)] else dec_nat (n div 10) @ [of_nat (48 + n mod 10)])"

declare dec_nat.simps [simp del]

text \<open>\<open>"%" PRId64\<close>\<close>

definition dec_s64 :: "u64 \<Rightarrow> bytes" where
  "dec_s64 v = (if sint v < 0 then 45 # dec_nat (nat (- sint v)) else dec_nat (nat (sint v)))"

text \<open>\<open>while (i < lim && p(buf[i])) ++i;\<close>\<close>

function scan :: "(u8 \<Rightarrow> bool) \<Rightarrow> bytes \<Rightarrow> nat \<Rightarrow> nat \<Rightarrow> nat res" where
  "scan p b lim i =
     (if i < lim then ebind (load8 b i) (\<lambda>c. if p c then scan p b lim (Suc i) else Inr i)
      else Inr i)"
  by pat_completeness auto
termination
  by (relation "measure (\<lambda>(p, b, lim, i). lim - i)") auto

declare scan.simps [simp del]

text \<open>The \<open>s64\<close> accumulator wraps around on long digit strings.\<close>

primrec read_number :: "u64 \<Rightarrow> bytes \<Rightarrow> u64" where
  "read_number val [] = val"
| "read_number val (c # cs) = read_number (val * 10 + ucast c - 48) cs"

definition s64_half :: "u64 \<Rightarrow> u64" where
  "s64_half v = word_of_int (if sint v < 0 then - ((- sint v) div 2) else sint v div 2)"

definition alter_number :: "'r rand \<Rightarrow> ('r \<Rightarrow> u64 \<times> 'r) \<Rightarrow> u64 \<Rightarrow> 'r mst \<Rightarrow> (u64 \<times> 'r mst) res" where
  "alter_number rb rn val s =
     ebind (draw rb 8 s) (\<lambda>(strat, s).
     if strat = 0 then Inr (val + 1, s)
     else if strat = 1 then Inr (val - 1, s)
     else if strat = 2 then Inr (val * 2, s)
     else if strat = 3 then Inr (s64_half val, s)
     else if strat = 4 then
       (if val \<noteq> 0 \<and> val < 0x19999999
        then (case rn (m_rng s) of (x, r) \<Rightarrow> Inr (x mod (val * 10), s\<lparr>m_rng := r\<rparr>))
        else ebind (draw rb 256 s) (\<lambda>(x, s). Inr (of_nat x, s)))
     else if strat = 5 then ebind (draw rb 256 s) (\<lambda>(x, s). Inr (val + of_nat x, s))
     else if strat = 6 then ebind (draw rb 256 s) (\<lambda>(x, s). Inr (val - of_nat x, s))
     else if strat = 7 then Inr (NOT val, s)
     else Inr (val, s))"

text \<open>
  The text that replaces the number at \<open>off\<close> up to \<open>off2\<close>. \<open>snprintf\<close> gets the size of the
  pointer \<open>buf\<close>, 8, so at most seven characters are written.
\<close>

definition replace_number :: "nat \<Rightarrow> nat \<Rightarrow> u64 \<Rightarrow> 'r mst \<Rightarrow> 'r mst res" where
  "replace_number off off2 val s =
     (let numbuf = take 7 (dec_s64 val); old_len = u32_sub off2 off; new_len = length numbuf in
      if old_len = new_len then
        ebind (memcpy (m_buf s) off numbuf 0 new_len) (\<lambda>b. Inr (s\<lparr>m_buf := b\<rparr>))
      else
        ebind (memcpy (m_tmp s) 0 (m_buf s) 0 off) (\<lambda>t.
        ebind (memcpy t off numbuf 0 new_len) (\<lambda>t.
        ebind (memcpy t (off + new_len) (m_buf s) off2 (u32_sub (m_len s) off2)) (\<lambda>t.
        let len = u32_add (m_len s) (u32_sub new_len old_len) in
        ebind (memcpy (m_buf s) 0 t 0 len) (\<lambda>b.
          Inr (s\<lparr>m_buf := b, m_len := len, m_tmp := t\<rparr>))))))"

text \<open>Where the number starts: the first digit from a random offset on, wrapping around once.\<close>

definition find_number :: "nat \<Rightarrow> 'r mst \<Rightarrow> (nat option) res" where
  "find_number off s =
     ebind (scan (\<lambda>c. \<not> isdigit c) (m_buf s) (m_len s) off) (\<lambda>i.
       if i \<noteq> m_len s then Inr (Some i)
       else ebind (scan (\<lambda>c. \<not> isdigit c) (m_buf s) off 0) (\<lambda>cnt.
              if cnt = off then Inr None else Inr (Some cnt)))"

text \<open>From the first digit on: read the number with its sign, alter it, write it back.\<close>

definition edit_number :: "'r rand \<Rightarrow> ('r \<Rightarrow> u64 \<times> 'r) \<Rightarrow> nat \<Rightarrow> 'r mst \<Rightarrow> 'r mst res" where
  "edit_number rb rn off s =
     ebind (scan isdigit (m_buf s) (m_len s) (off + 1)) (\<lambda>off2.
     ebind (if off \<noteq> 0 then ebind (load8 (m_buf s) (off - 1)) (\<lambda>c. Inr (c = 45)) else Inr False)
       (\<lambda>negative.
     let val = read_number 0 (take (off2 - off) (drop off (m_buf s)));
         val = (if negative then - val else val) in
     ebind (alter_number rb rn val s) (\<lambda>(val, s). replace_number off off2 val s)))"

definition mut_asciinum :: "'r rand \<Rightarrow> ('r \<Rightarrow> u64 \<times> 'r) \<Rightarrow> 'r mst \<Rightarrow> 'r mres" where
  "mut_asciinum rb rn s =
     (if m_len s < 4 then Inr (StepDone, s) else
      ebind (draw rb (m_len s) s) (\<lambda>(off, s).
      ebind (find_number off s) (\<lambda>found.
        case found of None \<Rightarrow> no_room s | Some off \<Rightarrow> finish (edit_number rb rn off s))))"

definition mut_insertasciinum :: "'r rand \<Rightarrow> ('r \<Rightarrow> u64 \<times> 'r) \<Rightarrow> 'r mst \<Rightarrow> 'r mres" where
  "mut_insertasciinum rb rn s =
     ebind (draw rb 8 s) (\<lambda>(x, s).
     ebind (draw rb (m_len s) s) (\<lambda>(pos, s).
     let ins_len = 1 + x in
     if m_len s < u32_add pos ins_len then no_room s
     else (case rn (m_rng s) of (val, r) \<Rightarrow>
       let s = s\<lparr>m_rng := r\<rparr>; numbuf = dec_nat (unat val); val_len = length numbuf;
           (ins_len, off) = (if val_len < ins_len then (val_len, 0) else (ins_len, val_len - ins_len)) in
       ebind (memcpy (m_buf s) pos numbuf off ins_len) (\<lambda>b.
         Inr (StepDone, s\<lparr>m_buf := b\<rparr>)))))"

section \<open>Operators that use the dictionaries\<close>

definition overwrite_token :: "'r rand \<Rightarrow> bytes list \<Rightarrow> 'r mst \<Rightarrow> 'r mres" where
  "overwrite_token rb dict s =
     (if dict = [] then Inr (StepRetry, s) else
      ebind (draw rb (length dict) s) (\<lambda>(use_extra, s).
      let extra_len = length (dict ! use_extra) in
      if m_len s < extra_len then Inr (StepRetry, s) else
      ebind (draw rb (u32_add (u32_sub (m_len s) extra_len) 1) s) (\<lambda>(insert_at, s).
      ebind (memcpy (m_buf s) insert_at (dict ! use_extra) 0 extra_len) (\<lambda>b.
        Inr (StepDone, s\<lparr>m_buf := b\<rparr>)))))"

definition insert_token :: "'r rand \<Rightarrow> bytes list \<Rightarrow> nat \<Rightarrow> 'r mst \<Rightarrow> 'r mres" where
  "insert_token rb dict max_len s =
     (if dict = [] then Inr (StepRetry, s) else
      ebind (draw rb (length dict) s) (\<lambda>(use_extra, s).
      let extra_len = length (dict ! use_extra) in
      if max_len \<le> u32_add (m_len s) extra_len then Inr (StepRetry, s) else
      ebind (draw rb (u32_add (m_len s) 1) s) (\<lambda>(insert_at, s).
      ebind (memmove (m_buf s) (insert_at + extra_len) insert_at (u32_sub (m_len s) insert_at)) (\<lambda>b.
      ebind (memcpy b insert_at (dict ! use_extra) 0 extra_len) (\<lambda>b.
        Inr (StepDone, s\<lparr>m_buf := b, m_len := u32_add (m_len s) extra_len\<rparr>))))))"

definition mut_extra_overwrite :: "'r rand \<Rightarrow> mut_env \<Rightarrow> 'r mst \<Rightarrow> 'r mres" where
  "mut_extra_overwrite rb e s = overwrite_token rb (e_extras e) s"

definition mut_extra_insert :: "'r rand \<Rightarrow> mut_env \<Rightarrow> 'r mst \<Rightarrow> 'r mres" where
  "mut_extra_insert rb e s = insert_token rb (e_extras e) (e_max_len e) s"

definition mut_auto_extra_overwrite :: "'r rand \<Rightarrow> mut_env \<Rightarrow> 'r mst \<Rightarrow> 'r mres" where
  "mut_auto_extra_overwrite rb e s = overwrite_token rb (e_a_extras e) s"

definition mut_auto_extra_insert :: "'r rand \<Rightarrow> mut_env \<Rightarrow> 'r mst \<Rightarrow> 'r mres" where
  "mut_auto_extra_insert rb e s = insert_token rb (e_a_extras e) (e_max_len e) s"

section \<open>Operators that splice\<close>

definition mut_splice_overwrite :: "'r rand \<Rightarrow> mut_env \<Rightarrow> 'r mst \<Rightarrow> 'r mres" where
  "mut_splice_overwrite rb e s =
     (case e_splice_buf e of None \<Rightarrow> Inr (StepRetry, s) | Some splice_buf \<Rightarrow>
      if e_splice_len e = 0 then Inr (StepRetry, s) else
      ebind (choose_block_len rb e (u32_sub (e_splice_len e) 1) s) (\<lambda>(copy_len, s).
      let copy_len = (if m_len s < copy_len then m_len s else copy_len) in
      ebind (draw rb (u32_add (u32_sub (e_splice_len e) copy_len) 1) s) (\<lambda>(copy_from, s).
      ebind (draw rb (u32_add (u32_sub (m_len s) copy_len) 1) s) (\<lambda>(copy_to, s).
      ebind (memcpy (m_buf s) copy_to splice_buf copy_from copy_len) (\<lambda>b.
        Inr (StepDone, s\<lparr>m_buf := b\<rparr>))))))"

definition mut_splice_insert :: "'r rand \<Rightarrow> mut_env \<Rightarrow> 'r mst \<Rightarrow> 'r mres" where
  "mut_splice_insert rb e s =
     (case e_splice_buf e of None \<Rightarrow> Inr (StepRetry, s) | Some splice_buf \<Rightarrow>
      if e_splice_len e = 0 then Inr (StepRetry, s) else
      if e_max_len e \<le> u32_add (m_len s) HAVOC_BLK_XL then Inr (StepRetry, s) else
      ebind (choose_block_len rb e (e_splice_len e) s) (\<lambda>(clone_len, s).
      ebind (draw rb (u32_add (u32_sub (e_splice_len e) clone_len) 1) s) (\<lambda>(clone_from, s).
      ebind (draw rb (u32_add (m_len s) 1) s) (\<lambda>(clone_to, s).
        finish (insert_block clone_to clone_len
          (\<lambda>t. memcpy t clone_to splice_buf clone_from clone_len) s)))))"

section \<open>The driver\<close>

fun apply_mutation :: "'r rand \<Rightarrow> ('r \<Rightarrow> u64 \<times> 'r) \<Rightarrow> mut_env \<Rightarrow> mutation \<Rightarrow> 'r mst \<Rightarrow> 'r mres" where
  "apply_mutation rb rn e MUT_FLIPBIT s = mut_flipbit rb s"
| "apply_mutation rb rn e MUT_INTERESTING8 s = mut_interesting8 rb s"
| "apply_mutation rb rn e MUT_INTERESTING16 s = mut_interesting16 rb s"
| "apply_mutation rb rn e MUT_INTERESTING16BE s = mut_interesting16be rb s"
| "apply_mutation rb rn e MUT_INTERESTING32 s = mut_interesting32 rb s"
| "apply_mutation rb rn e MUT_INTERESTING32BE s = mut_interesting32be rb s"
| "apply_mutation rb rn e MUT_ARITH8_MINUS s = mut_arith8_minus rb s"
| "apply_mutation rb rn e MUT_ARITH8 s = mut_arith8 rb s"
| "apply_mutation rb rn e MUT_ARITH16_MINUS s = mut_arith16_minus rb s"
| "apply_mutation rb rn e MUT_ARITH16BE_MINUS s = mut_arith16be_minus rb s"
| "apply_mutation rb rn e MUT_ARITH16 s = mut_arith16 rb s"
| "apply_mutation rb rn e MUT_ARITH16BE s = mut_arith16be rb s"
| "apply_mutation rb rn e MUT_ARITH32_MINUS s = mut_arith32_minus rb s"
| "apply_mutation rb rn e MUT_ARITH32BE_MINUS s = mut_arith32be_minus rb s"
| "apply_mutation rb rn e MUT_ARITH32 s = mut_arith32 rb s"
| "apply_mutation rb rn e MUT_ARITH32BE s = mut_arith32be rb s"
| "apply_mutation rb rn e MUT_RAND8 s = mut_rand8 rb s"
| "apply_mutation rb rn e MUT_CLONE_COPY s = mut_clone_copy rb e s"
| "apply_mutation rb rn e MUT_CLONE_FIXED s = mut_clone_fixed rb e s"
| "apply_mutation rb rn e MUT_OVERWRITE_COPY s = mut_overwrite_copy rb e s"
| "apply_mutation rb rn e MUT_OVERWRITE_FIXED s = mut_overwrite_fixed rb e s"
| "apply_mutation rb rn e MUT_BYTEADD s = mut_byteadd rb s"
| "apply_mutation rb rn e MUT_BYTESUB s = mut_bytesub rb s"
| "apply_mutation rb rn e MUT_FLIP8 s = mut_flip8 rb s"
| "apply_mutation rb rn e MUT_SWITCH s = mut_switch rb e s"
| "apply_mutation rb rn e MUT_DEL s = mut_del rb e s"
| "apply_mutation rb rn e MUT_SHUFFLE s = mut_shuffle rb e s"
| "apply_mutation rb rn e MUT_DELONE s = mut_delone rb s"
| "apply_mutation rb rn e MUT_INSERTONE s = mut_insertone rb s"
| "apply_mutation rb rn e MUT_ASCIINUM s = mut_asciinum rb rn s"
| "apply_mutation rb rn e MUT_INSERTASCIINUM s = mut_insertasciinum rb rn s"
| "apply_mutation rb rn e MUT_EXTRA_OVERWRITE s = mut_extra_overwrite rb e s"
| "apply_mutation rb rn e MUT_EXTRA_INSERT s = mut_extra_insert rb e s"
| "apply_mutation rb rn e MUT_AUTO_EXTRA_OVERWRITE s = mut_auto_extra_overwrite rb e s"
| "apply_mutation rb rn e MUT_AUTO_EXTRA_INSERT s = mut_auto_extra_insert rb e s"
| "apply_mutation rb rn e MUT_SPLICE_OVERWRITE s = mut_splice_overwrite rb e s"
| "apply_mutation rb rn e MUT_SPLICE_INSERT s = mut_splice_insert rb e s"
| "apply_mutation rb rn e MUT_MAX s = Inr (StepDone, s)"

definition havoc_attempt ::
  "'r rand \<Rightarrow> ('r \<Rightarrow> u64 \<times> 'r) \<Rightarrow> mut_env \<Rightarrow> mutation list \<Rightarrow> 'r mst \<Rightarrow> (('r mst, 'r mst) ctl) res" where
  "havoc_attempt rb rn e mutation_array s =
     ebind (draw rb 256 s) (\<lambda>(r, s).
     ebind (apply_mutation rb rn e (mutation_array ! r) s) (\<lambda>(st, s).
       case st of StepDone \<Rightarrow> Inr (Break s) | StepRetry \<Rightarrow> Inr (Cont s)))"

primrec havoc_steps ::
  "'r rand \<Rightarrow> ('r \<Rightarrow> u64 \<times> 'r) \<Rightarrow> mut_env \<Rightarrow> mutation list \<Rightarrow> nat \<Rightarrow> 'r mst \<Rightarrow> 'r mst res" where
  "havoc_steps rb rn e mutation_array 0 s = Inr s"
| "havoc_steps rb rn e mutation_array (Suc n) s =
     ebind (run_loop (havoc_attempt rb rn e mutation_array) s) (havoc_steps rb rn e mutation_array n)"

definition strategy_array :: "bool \<Rightarrow> bool \<Rightarrow> mutation list" where
  "strategy_array is_text is_exploration =
     (if is_text then
        if is_exploration then mutation_strategy_exploration_text
        else mutation_strategy_exploitation_text
      else
        if is_exploration then mutation_strategy_exploration_binary
        else mutation_strategy_exploitation_binary)"

text \<open>
  The static \<open>tmp_buf\<close> with its size, grown to \<open>max_len\<close>; \<open>alloc_ok\<close> says whether the
  allocator can serve a size. Fresh bytes are indeterminate in C and zero here; no
  operator reads a scratch byte it has not written.
\<close>

definition grow_tmp :: "(nat \<Rightarrow> bool) \<Rightarrow> nat \<Rightarrow> bytes option \<Rightarrow> (bytes option) option" where
  "grow_tmp alloc_ok max_len tmp_buf =
     (let tmp_buf_size = (case tmp_buf of None \<Rightarrow> 0 | Some t \<Rightarrow> length t) in
      if tmp_buf_size < max_len then
        (if \<not> alloc_ok max_len then None
         else (case tmp_buf of
             Some t \<Rightarrow> Some (Some (t @ replicate (max_len - length t) 0))
           | None \<Rightarrow> Some (Some (replicate max_len 0))))
      else Some tmp_buf)"

text \<open>The result: the returned length, the buffers and the generator. Length 0 is an error.\<close>

definition afl_mutate ::
  "'r rand \<Rightarrow> ('r \<Rightarrow> u64 \<times> 'r) \<Rightarrow> (nat \<Rightarrow> bool) \<Rightarrow> mut_env \<Rightarrow> bytes option \<Rightarrow> nat \<Rightarrow> nat \<Rightarrow> bool \<Rightarrow> bool
   \<Rightarrow> bytes option \<Rightarrow> 'r \<Rightarrow> (nat \<times> bytes option \<times> bytes option \<times> 'r) res" where
  "afl_mutate rb rn alloc_ok e buf len steps is_text is_exploration tmp_buf r =
     (case buf of
        None \<Rightarrow> Inr (0, None, tmp_buf, r)
      | Some b \<Rightarrow>
          if len = 0 then Inr (0, Some b, tmp_buf, r)
          else (case grow_tmp alloc_ok (e_max_len e) tmp_buf of
              None \<Rightarrow> Inr (0, Some b, tmp_buf, r)
            | Some tmp_buf \<Rightarrow>
                (let t = (case tmp_buf of None \<Rightarrow> [] | Some t \<Rightarrow> t) in
                 ebind (havoc_steps rb rn e (strategy_array is_text is_exploration) steps
                          \<lparr>m_rng = r, m_buf = b, m_len = len, m_tmp = t\<rparr>) (\<lambda>s.
                   Inr (m_len s, Some (m_buf s),
                        (case tmp_buf of None \<Rightarrow> None | Some _ \<Rightarrow> Some (m_tmp s)), m_rng s)))))"

definition afl_mutate_native ::
  "(nat \<Rightarrow> bool) \<Rightarrow> mut_env \<Rightarrow> bytes option \<Rightarrow> nat \<Rightarrow> nat \<Rightarrow> bool \<Rightarrow> bool
   \<Rightarrow> bytes option \<Rightarrow> rng \<Rightarrow> (nat \<times> bytes option \<times> bytes option \<times> rng) res" where
  "afl_mutate_native = afl_mutate rand_below rand_next"

end
