(* ===== verification/AFL_MutSafety.thy ===== *)
theory AFL_MutSafety
  imports AFL_Mutations "HOL-Library.Multiset"
begin

text \<open>
  Memory safety of the mutators and the growth of the test case, for any random source that
  satisfies \<open>rng_source\<close>: what each operator needs of the buffers and how much it adds.
\<close>

section \<open>Well-formed states and arguments\<close>

text \<open>
  \<open>fits B T L s\<close>: the caller's buffer has capacity \<open>B\<close>, the scratch buffer \<open>T\<close>, and the
  test case is not empty and at most \<open>L\<close> bytes long.
\<close>

definition fits :: "nat \<Rightarrow> nat \<Rightarrow> nat \<Rightarrow> 'r mst \<Rightarrow> bool" where
  "fits B T L s \<longleftrightarrow> length (m_buf s) = B \<and> length (m_tmp s) = T \<and> 0 < m_len s \<and> m_len s \<le> L"

text \<open>
  The outcome of an operator that may make the test case as long as \<open>L'\<close>; a retry leaves
  the length as it was.
\<close>

definition grown :: "nat \<Rightarrow> nat \<Rightarrow> nat \<Rightarrow> nat \<Rightarrow> step_end \<times> 'r mst \<Rightarrow> bool" where
  "grown B T L L' = (\<lambda>(st, s'). case st of StepDone \<Rightarrow> fits B T L' s' | StepRetry \<Rightarrow> fits B T L s')"

text \<open>Sizes stay clear of the 32-bit wrap-around, as the limit of 1 MB on test cases ensures.\<close>

definition SIZE_LIMIT :: nat where "SIZE_LIMIT = 2 ^ 30"

definition wf_env :: "mut_env \<Rightarrow> bool" where
  "wf_env e \<longleftrightarrow> e_max_len e \<le> SIZE_LIMIT
     \<and> list_all (\<lambda>d. length d \<le> SIZE_LIMIT) (e_extras e)
     \<and> list_all (\<lambda>d. length d \<le> SIZE_LIMIT) (e_a_extras e)
     \<and> e_splice_len e \<le> SIZE_LIMIT
     \<and> (case e_splice_buf e of None \<Rightarrow> True | Some b \<Rightarrow> e_splice_len e \<le> length b)"

named_theorems blk_defs
declare HAVOC_BLK_SMALL_def [blk_defs] HAVOC_BLK_MEDIUM_def [blk_defs]
  HAVOC_BLK_LARGE_def [blk_defs] HAVOC_BLK_XL_def [blk_defs] ARITH_MAX_def [blk_defs]
  SIZE_LIMIT_def [blk_defs]

named_theorems op_defs
declare mut_flipbit_def [op_defs] mut_interesting8_def [op_defs] mut_interesting16_def [op_defs]
  mut_interesting16be_def [op_defs] mut_interesting32_def [op_defs] mut_interesting32be_def [op_defs]
  mut_arith8_minus_def [op_defs] mut_arith8_def [op_defs] mut_arith16_minus_def [op_defs]
  mut_arith16be_minus_def [op_defs] mut_arith16_def [op_defs] mut_arith16be_def [op_defs]
  mut_arith32_minus_def [op_defs] mut_arith32be_minus_def [op_defs] mut_arith32_def [op_defs]
  mut_arith32be_def [op_defs] mut_rand8_def [op_defs] mut_byteadd_def [op_defs]
  mut_bytesub_def [op_defs] mut_flip8_def [op_defs]

lemma finish_safe:
  "safe m (\<lambda>s'. Q (StepDone, s')) \<Longrightarrow> safe (finish m) Q"
  unfolding finish_def by (rule safe_ebind) auto

lemma modify8_safe: "pos < length (m_buf s) \<Longrightarrow>
    safe (modify8 pos f s) (\<lambda>s'. s' = s\<lparr>m_buf := (m_buf s)[pos := f (m_buf s ! pos)]\<rparr>)"
  by (simp add: modify8_def mem_ok)

lemma modify8_bind: "pos < length (m_buf s) \<Longrightarrow>
    (\<And>b. length b = length (m_buf s) \<Longrightarrow> Q (StepDone, s\<lparr>m_buf := b\<rparr>)) \<Longrightarrow>
    safe (finish (modify8 pos f s)) Q"
  by (simp add: modify8_def finish_def mem_ok)

lemma modify16_bind: "pos + 2 \<le> length (m_buf s) \<Longrightarrow>
    (\<And>b. length b = length (m_buf s) \<Longrightarrow> Q (StepDone, s\<lparr>m_buf := b\<rparr>)) \<Longrightarrow>
    safe (finish (modify16 pos f s)) Q"
  by (simp add: modify16_def finish_def mem_ok)

lemma modify32_bind: "pos + 4 \<le> length (m_buf s) \<Longrightarrow>
    (\<And>b. length b = length (m_buf s) \<Longrightarrow> Q (StepDone, s\<lparr>m_buf := b\<rparr>)) \<Longrightarrow>
    safe (finish (modify32 pos f s)) Q"
  by (simp add: modify32_def finish_def mem_ok)

section \<open>Building blocks of the block operators\<close>

text \<open>The test case itself: the first \<open>m_len\<close> bytes of the buffer.\<close>

definition content :: "'r mst \<Rightarrow> bytes" where
  "content s = take (m_len s) (m_buf s)"

lemma length_content: "m_len s \<le> length (m_buf s) \<Longrightarrow> length (content s) = m_len s"
  by (simp add: content_def)

lemma insert_block_eq:
  assumes room: "m_len s + n \<le> length (m_buf s)" "m_len s + n \<le> length (m_tmp s)"
    and size: "m_len s + n < 4294967296" and to: "to \<le> m_len s" and part: "length part = n"
    and ins: "\<And>t. length t = length (m_tmp s) \<Longrightarrow> ins t = Inr (take to t @ part @ drop (to + n) t)"
  shows "\<exists>t. length t = length (m_tmp s) \<and> insert_block to n ins s =
     Inr (s\<lparr>m_buf := take to (content s) @ part @ drop to (content s) @ drop (m_len s + n) (m_buf s),
            m_len := m_len s + n, m_tmp := t\<rparr>)"
proof -
  let ?b = "m_buf s" and ?l = "m_len s"
  define t1 where "t1 = take 0 (m_tmp s) @ take to (drop 0 ?b) @ drop to (m_tmp s)"
  define t2 where "t2 = take to t1 @ part @ drop (to + n) t1"
  define t3 where "t3 = take (to + n) t2 @ take (?l - to) (drop to ?b) @ drop (to + n + (?l - to)) t2"
  have l1: "length t1 = length (m_tmp s)" using room to by (simp add: t1_def)
  have l2: "length t2 = length (m_tmp s)" using room to l1 part by (simp add: t2_def)
  have l3: "length t3 = length (m_tmp s)" using room to l2 by (simp add: t3_def)
  have m1: "memcpy (m_tmp s) 0 ?b 0 to = Inr t1"
    using room to by (simp add: t1_def mem_ok)
  have m2: "ins t1 = Inr t2" using ins [OF l1] by (simp add: t2_def)
  have m3: "memcpy t2 (to + n) ?b to (?l - to) = Inr t3"
    using room to l2 by (simp add: t3_def mem_ok)
  have m4: "memcpy ?b 0 t3 0 (?l + n) = Inr (take (?l + n) t3 @ drop (?l + n) ?b)"
    using room l3 by (simp add: mem_ok)
  have "take (?l + n) t3 = take to ?b @ part @ take (?l - to) (drop to ?b)"
    using room to part by (auto simp: t3_def t2_def t1_def min_def)
  moreover have "take to (content s) = take to ?b" "drop to (content s) = take (?l - to) (drop to ?b)"
    using to by (simp_all add: content_def drop_take min_def)
  ultimately show ?thesis
    using l3 size to by (auto simp: insert_block_def m1 m2 m3 m4 Let_def)
qed

lemma insert_block_bind:
  assumes "m_len s + n \<le> length (m_buf s)" "m_len s + n \<le> length (m_tmp s)"
    and "m_len s + n < 4294967296" and "to \<le> m_len s" and "length part = n"
    and "\<And>t. length t = length (m_tmp s) \<Longrightarrow> ins t = Inr (take to t @ part @ drop (to + n) t)"
    and "\<And>t. length t = length (m_tmp s) \<Longrightarrow> Q (StepDone, s\<lparr>m_buf := take to (content s) @ part
           @ drop to (content s) @ drop (m_len s + n) (m_buf s), m_len := m_len s + n, m_tmp := t\<rparr>)"
  shows "safe (finish (insert_block to n ins s)) Q"
  using insert_block_eq [OF assms(1-6)] assms(7) by (auto simp: finish_def)

lemma delete_block_eq:
  assumes "m_len s \<le> length (m_buf s)" "m_len s < 4294967296" "from + n \<le> m_len s"
  shows "delete_block from n s =
     Inr (s\<lparr>m_buf := take from (content s) @ drop (from + n) (content s) @ drop (m_len s - n) (m_buf s),
            m_len := m_len s - n\<rparr>)"
proof -
  have "u32_sub (u32_sub (m_len s) from) n = m_len s - from - n"
    using assms by simp
  with assms show ?thesis
    by (simp add: delete_block_def mem_ok content_def drop_take min_def add.commute diff_diff_left)
qed

context rng_source
begin

lemma draw_bind:
  assumes "\<And>x r. x < limit \<or> limit = 0 \<and> x = 0 \<Longrightarrow> safe (f (x, s\<lparr>m_rng := r\<rparr>)) Q"
  shows "safe (ebind (draw rb limit s) f) Q"
  unfolding draw_def ebind_assoc by (rule rb_bind) (simp add: assms)

lemma draw_bind_pos:
  assumes "0 < limit" and "\<And>x r. x < limit \<Longrightarrow> safe (f (x, s\<lparr>m_rng := r\<rparr>)) Q"
  shows "safe (ebind (draw rb limit s) f) Q"
  by (rule draw_bind) (use assms in auto)

lemma block_range_safe:
  "safe (block_range rb e s) (\<lambda>(mn, mx, s'). 1 \<le> mn \<and> mn < mx \<and> mx \<le> 32768
     \<and> s' = s\<lparr>m_rng := m_rng s'\<rparr>)"
  by (auto simp: block_range_def Let_def blk_defs intro!: draw_bind)

text \<open>A block length is at least 1 and at most the limit, if there is one, and 32768.\<close>

lemma choose_block_len_bind:
  assumes lim: "limit < 4294967296"
    and step: "\<And>n r. 1 \<le> n \<Longrightarrow> n \<le> max 1 limit \<Longrightarrow> n \<le> 32768 \<Longrightarrow> safe (f (n, s\<lparr>m_rng := r\<rparr>)) Q"
  shows "safe (ebind (choose_block_len rb e limit s) f) Q"
proof -
  have tail: "safe (ebind (draw rb (u32_add (u32_sub (min mx limit) (if limit \<le> mn then 1 else mn)) 1)
       (s\<lparr>m_rng := r\<rparr>)) (\<lambda>(x, s). ebind (Inr (u32_add (if limit \<le> mn then 1 else mn) x, s)) f)) Q"
    if "1 \<le> mn" "mn < mx" "mx \<le> 32768" for mn mx r
  proof (cases "limit = 0")
    case True
    with that have "u32_add (u32_sub (min mx limit) (if limit \<le> mn then 1 else mn)) 1 = 0"
      by (simp add: u32_sub_def u32_add_def)
    moreover from True that step [of 1] have "safe (f (u32_add (if limit \<le> mn then 1 else mn) 0, s\<lparr>m_rng := r\<rparr>)) Q" for r
      by simp
    ultimately show ?thesis
      by (auto intro!: draw_bind)
  next
    case False
    define mn' where "mn' = (if limit \<le> mn then 1 else mn)"
    from False that have mn': "1 \<le> mn'" "mn' \<le> limit" "mn' \<le> mx" "mn' \<le> 32768" by (auto simp: mn'_def)
    with that lim have eq: "u32_add (u32_sub (min mx limit) mn') 1 = min mx limit - mn' + 1" by simp
    show ?thesis
      unfolding mn'_def [symmetric] eq
      using mn' that lim by (intro draw_bind_pos) (auto intro!: step)
  qed
  show ?thesis
    unfolding choose_block_len_def Let_def ebind_assoc
  proof (rule safe_ebind [OF block_range_safe], goal_cases)
    case (1 x)
    then obtain mn mx s' where x: "x = (mn, mx, s')" and "1 \<le> mn" "mn < mx" "mx \<le> 32768"
      and s': "s' = s\<lparr>m_rng := m_rng s'\<rparr>" by (cases x) auto
    from tail [OF this(2-4), of "m_rng s'"] s' show ?case
      by (simp only: x Let_def ebind_assoc case_prod_unfold fst_conv snd_conv)
  qed
qed

section \<open>Operators on single values\<close>

lemma value_op_safe:
  assumes "fits B T L s" "L \<le> B" "L \<le> SIZE_LIMIT"
  shows "safe (mut_flipbit rb s) (\<lambda>(_, s'). fits B T L s')"
    "safe (mut_interesting8 rb s) (\<lambda>(_, s'). fits B T L s')"
    "safe (mut_interesting16 rb s) (\<lambda>(_, s'). fits B T L s')"
    "safe (mut_interesting16be rb s) (\<lambda>(_, s'). fits B T L s')"
    "safe (mut_interesting32 rb s) (\<lambda>(_, s'). fits B T L s')"
    "safe (mut_interesting32be rb s) (\<lambda>(_, s'). fits B T L s')"
    "safe (mut_arith8_minus rb s) (\<lambda>(_, s'). fits B T L s')"
    "safe (mut_arith8 rb s) (\<lambda>(_, s'). fits B T L s')"
    "safe (mut_arith16_minus rb s) (\<lambda>(_, s'). fits B T L s')"
    "safe (mut_arith16be_minus rb s) (\<lambda>(_, s'). fits B T L s')"
    "safe (mut_arith16 rb s) (\<lambda>(_, s'). fits B T L s')"
    "safe (mut_arith16be rb s) (\<lambda>(_, s'). fits B T L s')"
    "safe (mut_arith32_minus rb s) (\<lambda>(_, s'). fits B T L s')"
    "safe (mut_arith32be_minus rb s) (\<lambda>(_, s'). fits B T L s')"
    "safe (mut_arith32 rb s) (\<lambda>(_, s'). fits B T L s')"
    "safe (mut_arith32be rb s) (\<lambda>(_, s'). fits B T L s')"
    "safe (mut_rand8 rb s) (\<lambda>(_, s'). fits B T L s')"
    "safe (mut_byteadd rb s) (\<lambda>(_, s'). fits B T L s')"
    "safe (mut_bytesub rb s) (\<lambda>(_, s'). fits B T L s')"
    "safe (mut_flip8 rb s) (\<lambda>(_, s'). fits B T L s')"
  using assms unfolding op_defs fits_def
  by (auto intro!: draw_bind modify8_bind modify16_bind modify32_bind simp: SIZE_LIMIT_def)

section \<open>Operators on blocks\<close>

lemma pick_fill_bind:
  assumes "0 < length (m_buf s)" "to \<le> length (m_buf s)"
    and "\<And>v r. safe (f (v, s\<lparr>m_rng := r\<rparr>)) Q"
  shows "safe (ebind (pick_fill rb to s) f) Q"
  using assms unfolding pick_fill_def ebind_assoc
  by (auto intro!: draw_bind simp: mem_ok ebind_assoc)

lemma draw_other_bind:
  assumes "\<And>y r. y < limit \<or> limit = 0 \<and> y = 0 \<Longrightarrow> x \<noteq> y \<Longrightarrow> safe (f (y, s\<lparr>m_rng := r\<rparr>)) Q"
  shows "safe (ebind (draw_other rb limit x s) f) Q"
proof -
  have "safe (draw_other rb limit x s)
     (\<lambda>(y, s'). (y < limit \<or> limit = 0 \<and> y = 0) \<and> x \<noteq> y \<and> s' = s\<lparr>m_rng := m_rng s'\<rparr>)"
    unfolding draw_other_def
  proof (rule run_loop_safe [where I = "\<lambda>s'. \<exists>r. s' = s\<lparr>m_rng := r\<rparr>"], goal_cases)
    case (1 s')
    then obtain r where s': "s' = s\<lparr>m_rng := r\<rparr>" by blast
    show ?case
      unfolding s' by (rule draw_bind) (auto intro: exI [where P = "\<lambda>r. s\<lparr>m_rng := q\<rparr> = s\<lparr>m_rng := r\<rparr>" for q])
  next
    case 2
    show ?case by (rule exI [of _ "m_rng s"]) simp
  qed
  then show ?thesis
  proof (rule safe_ebind, goal_cases)
    case (1 z)
    then obtain y s' where z: "z = (y, s')" and y: "y < limit \<or> limit = 0 \<and> y = 0" "x \<noteq> y"
      and s': "s' = s\<lparr>m_rng := m_rng s'\<rparr>" by (cases z) auto
    from assms [OF y, of "m_rng s'"] s' show ?case by (simp only: z)
  qed
qed

lemma overwrite_op_safe:
  assumes "fits B T L s" "L \<le> B" "L \<le> SIZE_LIMIT" "L \<le> T"
  shows "safe (mut_overwrite_copy rb e s) (\<lambda>(_, s'). fits B T L s')"
    "safe (mut_overwrite_fixed rb e s) (\<lambda>(_, s'). fits B T L s')"
  using assms unfolding mut_overwrite_copy_def mut_overwrite_fixed_def fits_def
  by (auto intro!: draw_bind_pos choose_block_len_bind pick_fill_bind simp: SIZE_LIMIT_def mem_ok)

lemma clone_op_safe:
  assumes "fits B T L s" "L \<le> B" "L \<le> T" "L \<le> SIZE_LIMIT"
    and "e_max_len e \<le> B" "e_max_len e \<le> T" "e_max_len e \<le> SIZE_LIMIT"
  shows "safe (mut_clone_copy rb e s) (grown B T L (max L (e_max_len e)))"
    "safe (mut_clone_fixed rb e s) (grown B T L (max L (e_max_len e)))"
proof -
  have copy_part: "\<lbrakk>q + n \<le> length src; to + n \<le> length t\<rbrakk> \<Longrightarrow>
      memcpy t to src q n = Inr (take to t @ take n (drop q src) @ drop (to + n) t)"
    for q n src to and t :: bytes
    by (simp add: mem_ok)
  show "safe (mut_clone_copy rb e s) (grown B T L (max L (e_max_len e)))"
    using assms unfolding mut_clone_copy_def no_room_def fits_def grown_def blk_defs
    by (auto intro!: draw_bind_pos choose_block_len_bind insert_block_bind [OF _ _ _ _ _ copy_part]
        simp: content_def)
  show "safe (mut_clone_fixed rb e s) (grown B T L (max L (e_max_len e)))"
    using assms unfolding mut_clone_fixed_def no_room_def fits_def grown_def blk_defs
    by (auto intro!: draw_bind_pos choose_block_len_bind pick_fill_bind
          insert_block_bind [OF _ _ _ _ _ memset_ok]
        simp: content_def)
qed

lemma insertone_safe:
  assumes "fits B T L s" "L + 1 \<le> B" "L + 1 \<le> T" "L \<le> SIZE_LIMIT"
  shows "safe (mut_insertone rb s) (grown B T L (L + 1))"
  using assms unfolding mut_insertone_def fits_def grown_def blk_defs
  by (auto intro!: draw_bind_pos pick_fill_bind insert_block_bind [OF _ _ _ _ _ memset_ok]
      simp: content_def)

lemma delete_op_safe:
  assumes "fits B T L s" "L \<le> B" "L \<le> SIZE_LIMIT"
  shows "safe (mut_del rb e s) (\<lambda>(_, s'). fits B T L s')"
    "safe (mut_delone rb s) (\<lambda>(_, s'). fits B T L s')"
  using assms unfolding mut_del_def mut_delone_def fits_def blk_defs
  by (auto intro!: draw_bind_pos choose_block_len_bind simp: delete_block_eq finish_def content_def)

lemma switch_safe:
  assumes "fits B T L s" "L \<le> B" "L \<le> T" "L \<le> SIZE_LIMIT"
  shows "safe (mut_switch rb e s) (\<lambda>(_, s'). fits B T L s')"
  using assms unfolding mut_switch_def fits_def blk_defs Let_def
  by (auto intro!: draw_bind_pos draw_other_bind choose_block_len_bind simp: mem_ok)

lemma token_op_safe:
  assumes "fits B T L s" "L \<le> B" "L \<le> SIZE_LIMIT" "list_all (\<lambda>d. length d \<le> SIZE_LIMIT) dict"
    and "max_len \<le> B" "max_len \<le> SIZE_LIMIT"
  shows "safe (overwrite_token rb dict s) (\<lambda>(_, s'). fits B T L s')"
    "safe (insert_token rb dict max_len s) (grown B T L (max L max_len))"
proof -
  have len: "length (dict ! i) \<le> 1073741824" if "i < length dict" for i
    using assms(4) that by (simp add: list_all_length SIZE_LIMIT_def)
  show "safe (overwrite_token rb dict s) (\<lambda>(_, s'). fits B T L s')"
    using assms unfolding overwrite_token_def fits_def Let_def blk_defs
    by (auto intro!: draw_bind_pos simp: mem_ok)
  have sum: "i < length dict \<Longrightarrow> n \<le> 1073741824 \<Longrightarrow> u32_add n (length (dict ! i)) = n + length (dict ! i)"
    for i n using len [of i] by simp
  show "safe (insert_token rb dict max_len s) (grown B T L (max L max_len))"
    using assms unfolding insert_token_def fits_def grown_def Let_def blk_defs
    by (auto intro!: draw_bind_pos simp: mem_ok not_le sum)
qed

lemma splice_op_safe:
  assumes "fits B T L s" "L \<le> B" "L \<le> T" "L \<le> SIZE_LIMIT" "wf_env e"
    and "e_max_len e \<le> B" "e_max_len e \<le> T"
  shows "safe (mut_splice_overwrite rb e s) (\<lambda>(_, s'). fits B T L s')"
    "safe (mut_splice_insert rb e s) (grown B T L (max L (e_max_len e)))"
proof -
  have copy_part: "\<lbrakk>q + n \<le> length src; to + n \<le> length t\<rbrakk> \<Longrightarrow>
      memcpy t to src q n = Inr (take to t @ take n (drop q src) @ drop (to + n) t)"
    for q n src to and t :: bytes
    by (simp add: mem_ok)
  show "safe (mut_splice_overwrite rb e s) (\<lambda>(_, s'). fits B T L s')"
    using assms unfolding mut_splice_overwrite_def fits_def blk_defs Let_def wf_env_def
    by (auto intro!: draw_bind_pos choose_block_len_bind simp: mem_ok split: option.splits)
  show "safe (mut_splice_insert rb e s) (grown B T L (max L (e_max_len e)))"
    using assms unfolding mut_splice_insert_def fits_def grown_def blk_defs wf_env_def
    by (auto intro!: draw_bind_pos choose_block_len_bind insert_block_bind [OF _ _ _ _ _ copy_part]
        simp: content_def split: option.splits)
qed

text \<open>Shuffling keeps the bytes of the test case as a multiset.\<close>

lemma mset_take_swap:
  "i < n \<Longrightarrow> j < n \<Longrightarrow> n \<le> length b \<Longrightarrow> mset (take n (b[i := b ! j, j := b ! i])) = mset (take n b)"
  using mset_swap [of j "take n b" i] by (simp add: take_update_swap)

lemma shuffle_from_safe:
  "off + i < n \<Longrightarrow> n \<le> length (m_buf s) \<Longrightarrow>
   safe (shuffle_from rb off i s) (\<lambda>s'. m_len s' = m_len s \<and> m_tmp s' = m_tmp s
     \<and> length (m_buf s') = length (m_buf s) \<and> mset (take n (m_buf s')) = mset (take n (m_buf s)))"
proof (induction i arbitrary: s)
  case 0
  then show ?case by simp
next
  case (Suc i)
  show ?case
    unfolding shuffle_from.simps
  proof (rule draw_other_bind, goal_cases)
    case (1 j r)
    then have j: "j < Suc i" by auto
    let ?b = "(m_buf s)[off + Suc i := m_buf s ! (off + j), off + j := m_buf s ! (off + Suc i)]"
    have "safe (shuffle_from rb off i (s\<lparr>m_rng := r, m_buf := ?b\<rparr>)) (\<lambda>s'. m_len s' = m_len s
       \<and> m_tmp s' = m_tmp s \<and> length (m_buf s') = length (m_buf s)
       \<and> mset (take n (m_buf s')) = mset (take n ?b))"
      using Suc.IH [of "s\<lparr>m_rng := r, m_buf := ?b\<rparr>"] Suc.prems by simp
    with Suc.prems j mset_take_swap [of "off + Suc i" n "off + j" "m_buf s"]
    show ?case by (simp add: mem_ok)
  qed
qed

lemma shuffle_safe:
  assumes "fits B T L s" "L \<le> B" "L \<le> SIZE_LIMIT"
  shows "safe (mut_shuffle rb e s)
    (\<lambda>(_, s'). fits B T L s' \<and> m_len s' = m_len s \<and> mset (content s') = mset (content s))"
  using assms unfolding mut_shuffle_def fits_def blk_defs content_def
  by (auto intro!: draw_bind_pos choose_block_len_bind finish_safe
      intro: safe_mono [OF shuffle_from_safe [where n = "m_len s"]])

section \<open>Operators on decimal numbers\<close>

lemma scan_spec:
  "i \<le> lim \<Longrightarrow> lim \<le> length b \<Longrightarrow> \<exists>j. scan p b lim i = Inr j \<and> i \<le> j \<and> j \<le> lim
     \<and> list_all p (take (j - i) (drop i b)) \<and> (j = lim \<or> \<not> p (b ! j))"
proof (induction p b lim i rule: scan.induct)
  case (1 p b lim i)
  show ?case
  proof (cases "i < lim \<and> p (b ! i)")
    case True
    with "1.prems" have eq: "scan p b lim i = scan p b lim (Suc i)"
      by (subst scan.simps) (simp add: mem_ok)
    from "1.IH" True "1.prems" obtain j where j: "scan p b lim (Suc i) = Inr j" "Suc i \<le> j" "j \<le> lim"
      "list_all p (take (j - Suc i) (drop (Suc i) b))" "j = lim \<or> \<not> p (b ! j)"
      by auto
    have "take (j - i) (drop i b) = b ! i # take (j - Suc i) (drop (Suc i) b)"
      using j(2,3) "1.prems" True by (simp add: Cons_nth_drop_Suc [symmetric] take_Cons' Suc_diff_Suc)
    with eq j True show ?thesis by (intro exI [of _ j]) auto
  next
    case False
    with "1.prems" have "scan p b lim i = Inr i"
      by (subst scan.simps) (auto simp: mem_ok)
    with False "1.prems" show ?thesis by (intro exI [of _ i]) auto
  qed
qed

lemma dec_nat_nonempty: "dec_nat n \<noteq> []"
  by (subst dec_nat.simps) simp

lemma length_dec_s64: "0 < length (dec_s64 v)"
  by (simp add: dec_s64_def dec_nat_nonempty)

lemma u32_shift: "a + n < 4294967296 \<Longrightarrow> old \<le> a \<Longrightarrow> u32_add a (u32_sub n old) = a + n - old"
proof -
  assume a: "a + n < 4294967296" and old: "old \<le> a"
  then have "a + (n + (4294967296 - old)) = (a + n - old) + 4294967296" by simp
  then have "(a + (n + (4294967296 - old))) mod 4294967296 = a + n - old"
    using a by (simp only: mod_add_self2) simp
  with a old show ?thesis by (simp add: u32_add_def u32_sub_def mod_add_right_eq)
qed

lemma replace_number_safe:
  assumes fits: "fits B T L s" "L \<le> SIZE_LIMIT" and room: "L + 6 \<le> B" "L + 6 \<le> T"
    and pos: "off < off2" "off2 \<le> m_len s"
  shows "safe (replace_number off off2 val s) (\<lambda>s'. fits B T (L + 6) s'
     \<and> content s' = take off (content s) @ take 7 (dec_s64 val) @ drop off2 (content s))"
proof -
  define num where "num = take 7 (dec_s64 val)"
  have num: "0 < length num" "length num \<le> 7"
    using length_dec_s64 [of val] by (simp_all add: num_def)
  have s: "length (m_buf s) = B" "length (m_tmp s) = T" "0 < m_len s" "m_len s \<le> L" "L \<le> 1073741824"
    using fits by (simp_all add: fits_def SIZE_LIMIT_def)
  show ?thesis
  proof (cases "off2 - off = length num")
    case True
    with pos have off2: "off2 = off + length num" by simp
    from s pos room num show ?thesis
      by (simp add: replace_number_def num_def [symmetric] mem_ok fits_def content_def
          drop_take off2) (cases num, auto)
  next
    case False
    let ?b = "m_buf s" and ?l = "m_len s" and ?n = "length num"
    define t1 where "t1 = take 0 (m_tmp s) @ take off (drop 0 ?b) @ drop off (m_tmp s)"
    define t2 where "t2 = take off t1 @ take ?n (drop 0 num) @ drop (off + ?n) t1"
    define t3 where "t3 = take (off + ?n) t2 @ take (?l - off2) (drop off2 ?b) @ drop (off + ?n + (?l - off2)) t2"
    define len where "len = ?l + ?n - (off2 - off)"
    have len: "u32_add ?l (u32_sub ?n (off2 - off)) = len" "len = off + ?n + (?l - off2)"
      unfolding len_def using s num pos by (intro u32_shift, auto)
    have l1: "length t1 = T" using s pos room by (simp add: t1_def)
    have l2: "length t2 = T" using s pos room num l1 by (simp add: t2_def)
    have l3: "length t3 = T" using s pos room num l2 by (simp add: t3_def)
    have m1: "memcpy (m_tmp s) 0 ?b 0 off = Inr t1" using s pos room by (simp add: t1_def mem_ok)
    have m2: "memcpy t1 off num 0 ?n = Inr t2" using s pos room num l1 by (simp add: t2_def mem_ok)
    have m3: "memcpy t2 (off + ?n) ?b off2 (?l - off2) = Inr t3"
      using s pos room num l2 by (simp add: t3_def mem_ok)
    define new where "new = take off ?b @ num @ take (?l - off2) (drop off2 ?b)"
    have new: "take len t3 = new" "length new = len"
      using s pos room num by (simp_all add: new_def len(2) t3_def t2_def t1_def)
    have bound: "0 < len" "len \<le> L + 6"
      using s pos num unfolding len(2) by linarith+
    have m4: "memcpy ?b 0 t3 0 len = Inr (new @ drop len ?b)"
      using s room bound l3 by (simp add: mem_ok new)
    have new_content: "new = take off (content s) @ num @ drop off2 (content s)"
      using s pos by (simp add: new_def content_def drop_take)
    have sub: "u32_sub off2 off = off2 - off" "u32_sub ?l off2 = ?l - off2"
      using s pos by simp_all
    define s' where "s' = s\<lparr>m_buf := new @ drop len ?b, m_len := len, m_tmp := t3\<rparr>"
    have "replace_number off off2 val s = Inr s'"
      using False by (simp add: replace_number_def num_def [symmetric] m1 m2 m3 m4 len(1) sub Let_def s'_def)
    moreover have "fits B T (L + 6) s'"
      using s room l3 bound new(2) by (simp add: s'_def fits_def)
    moreover have "content s' = new"
      using new(2) by (simp add: s'_def content_def)
    ultimately show ?thesis by (simp add: new_content num_def)
  qed
qed

lemma alter_number_bind:
  assumes "\<And>v r. safe (f (v, s\<lparr>m_rng := r\<rparr>)) Q"
  shows "safe (ebind (alter_number rb rn val s) f) Q"
  using assms unfolding alter_number_def ebind_assoc
  by (auto intro!: draw_bind simp: ebind_assoc split: prod.splits)

text \<open>\<open>find_number\<close> returns the offset of a digit.\<close>

lemma find_number_spec:
  assumes "m_len s \<le> length (m_buf s)" "off < m_len s"
  shows "\<exists>found. find_number off s = Inr found \<and>
    (case found of None \<Rightarrow> True | Some i \<Rightarrow> i < m_len s \<and> isdigit (m_buf s ! i))"
proof -
  obtain j where j: "scan (\<lambda>c. \<not> isdigit c) (m_buf s) (m_len s) off = Inr j" "j \<le> m_len s"
    "j = m_len s \<or> isdigit (m_buf s ! j)"
    using scan_spec [of off "m_len s" "m_buf s" "\<lambda>c. \<not> isdigit c"] assms by auto
  obtain k where k: "scan (\<lambda>c. \<not> isdigit c) (m_buf s) off 0 = Inr k" "k \<le> off"
    "k = off \<or> isdigit (m_buf s ! k)"
    using scan_spec [of 0 off "m_buf s" "\<lambda>c. \<not> isdigit c"] assms by auto
  from j k assms show ?thesis by (auto simp: find_number_def)
qed

lemma edit_number_safe:
  assumes "fits B T L s" "L \<le> SIZE_LIMIT" "L + 6 \<le> B" "L + 6 \<le> T" and i: "i < m_len s"
  shows "safe (edit_number rb rn i s) (\<lambda>s'. fits B T (L + 6) s')"
proof -
  have s: "length (m_buf s) = B" "length (m_tmp s) = T" "m_len s \<le> L"
    using assms by (simp_all add: fits_def)
  obtain off2 where off2: "scan isdigit (m_buf s) (m_len s) (i + 1) = Inr off2" "i + 1 \<le> off2" "off2 \<le> m_len s"
    using scan_spec [of "i + 1" "m_len s" "m_buf s" isdigit] s i assms by auto
  have "fits B T L (s\<lparr>m_rng := q\<rparr>)" for q using assms(1) by (simp add: fits_def)
  then have "safe (replace_number i off2 v (s\<lparr>m_rng := q\<rparr>)) (\<lambda>s'. fits B T (L + 6) s')" for v q
    using replace_number_safe [OF _ assms(2-4), of "s\<lparr>m_rng := q\<rparr>" i off2 v] off2
    by (auto elim: safe_mono)
  then show ?thesis
    using off2 s i assms(3)
    by (auto simp: edit_number_def mem_ok Let_def intro!: alter_number_bind)
qed

lemma asciinum_safe:
  assumes "fits B T L s" "L \<le> SIZE_LIMIT" "L + 6 \<le> B" "L + 6 \<le> T"
  shows "safe (mut_asciinum rb rn s) (grown B T L (L + 6))"
proof (cases "m_len s < 4")
  case True
  with assms show ?thesis by (simp add: mut_asciinum_def fits_def grown_def)
next
  case False
  have "safe (ebind (find_number off s') (\<lambda>found. case found of None \<Rightarrow> no_room s'
      | Some off \<Rightarrow> finish (edit_number rb rn off s'))) (grown B T L (L + 6))"
    if a: "off < m_len s'" "fits B T L s'" for off s'
  proof -
    obtain found where "find_number off s' = Inr found" "case found of None \<Rightarrow> True | Some i \<Rightarrow> i < m_len s'"
      using find_number_spec [of s' off] a assms by (auto simp: fits_def split: option.splits)
    then show ?thesis
      using a assms edit_number_safe [OF a(2) assms(2-4)]
      by (cases found) (auto simp: no_room_def fits_def grown_def intro!: finish_safe)
  qed
  with False assms(1) show ?thesis
    unfolding mut_asciinum_def by (auto intro!: draw_bind_pos simp: fits_def)
qed

lemma insertasciinum_safe:
  assumes "fits B T L s" "L \<le> B" "L \<le> SIZE_LIMIT"
  shows "safe (mut_insertasciinum rb rn s) (\<lambda>(_, s'). fits B T L s')"
  using assms unfolding mut_insertasciinum_def fits_def Let_def no_room_def SIZE_LIMIT_def
  by (auto intro!: draw_bind_pos simp: mem_ok split: prod.splits)

section \<open>The driver\<close>

lemma grown_same: "safe m (\<lambda>(_, s'). fits B T L s') \<Longrightarrow> L \<le> L' \<Longrightarrow> safe m (grown B T L L')"
  by (erule safe_mono) (auto simp: grown_def fits_def split: step_end.splits)

lemma grown_le: "safe m (grown B T L L') \<Longrightarrow> L' \<le> L'' \<Longrightarrow> safe m (grown B T L L'')"
  by (erule safe_mono) (auto simp: grown_def fits_def split: step_end.splits)

text \<open>All operators but two stay within \<open>max_len\<close> or within the length they found.\<close>

lemma bounded_mutation_safe:
  assumes "fits B T L s" "L \<le> B" "L \<le> T" "L \<le> SIZE_LIMIT" "wf_env e"
    and "e_max_len e \<le> B" "e_max_len e \<le> T"
    and "m \<noteq> MUT_INSERTONE" "m \<noteq> MUT_ASCIINUM"
  shows "safe (apply_mutation rb rn e m s) (grown B T L (max L (e_max_len e)))"
proof -
  have env: "e_max_len e \<le> SIZE_LIMIT" "list_all (\<lambda>d. length d \<le> SIZE_LIMIT) (e_extras e)"
    "list_all (\<lambda>d. length d \<le> SIZE_LIMIT) (e_a_extras e)"
    using assms(5) by (simp_all add: wf_env_def)
  have shuffle: "safe (mut_shuffle rb e s) (\<lambda>(_, s'). fits B T L s')"
    using shuffle_safe [OF assms(1,2,4)] by (rule safe_mono) auto
  note same = value_op_safe [OF assms(1,2,4), THEN grown_same]
    overwrite_op_safe [OF assms(1,2,4,3), THEN grown_same]
    switch_safe [OF assms(1-4), THEN grown_same] delete_op_safe [OF assms(1,2,4), THEN grown_same]
    shuffle [THEN grown_same] insertasciinum_safe [OF assms(1,2,4), THEN grown_same]
    splice_op_safe(1) [OF assms(1-7), THEN grown_same]
    token_op_safe(1) [OF assms(1,2,4) env(2) assms(6) env(1), THEN grown_same]
    token_op_safe(1) [OF assms(1,2,4) env(3) assms(6) env(1), THEN grown_same]
  note grow = clone_op_safe [OF assms(1-4,6,7) env(1)] splice_op_safe(2) [OF assms(1-7)]
    token_op_safe(2) [OF assms(1,2,4) env(2) assms(6) env(1)]
    token_op_safe(2) [OF assms(1,2,4) env(3) assms(6) env(1)]
  show ?thesis
    using assms(1,8,9)
    by (cases m) (simp_all add: same grow mut_extra_overwrite_def mut_extra_insert_def
        mut_auto_extra_overwrite_def mut_auto_extra_insert_def,
        auto simp: grown_def fits_def)
qed

lemma apply_mutation_safe:
  assumes "fits B T L s" "L \<le> SIZE_LIMIT" "wf_env e" "L + 6 \<le> B" "L + 6 \<le> T"
    and "e_max_len e \<le> B" "e_max_len e \<le> T"
  shows "safe (apply_mutation rb rn e m s) (grown B T L (max (L + 6) (e_max_len e)))"
proof (cases "m = MUT_INSERTONE \<or> m = MUT_ASCIINUM")
  case True
  have "safe (mut_insertone rb s) (grown B T L (max (L + 6) (e_max_len e)))"
    by (rule grown_le [OF insertone_safe [OF assms(1)]]) (use assms in auto)
  moreover have "safe (mut_asciinum rb rn s) (grown B T L (max (L + 6) (e_max_len e)))"
    by (rule grown_le [OF asciinum_safe [OF assms(1,2,4,5)]]) auto
  ultimately show ?thesis using True by auto
next
  case False
  have "safe (apply_mutation rb rn e m s) (grown B T L (max L (e_max_len e)))"
    by (rule bounded_mutation_safe [OF assms(1)]) (use assms False in auto)
  then show ?thesis by (rule grown_le) simp
qed

lemma havoc_step_safe:
  assumes "fits B T L s" "L \<le> SIZE_LIMIT" "wf_env e" "L + 6 \<le> B" "L + 6 \<le> T"
    and "e_max_len e \<le> B" "e_max_len e \<le> T"
  shows "safe (run_loop (havoc_attempt rb rn e ops) s) (fits B T (max (L + 6) (e_max_len e)))"
proof (rule run_loop_safe [where I = "fits B T L"])
  fix t :: "'r mst" assume t: "fits B T L t"
  have "safe (apply_mutation rb rn e (ops ! x) (t\<lparr>m_rng := r\<rparr>)) (grown B T L (max (L + 6) (e_max_len e)))" for x r
    by (rule apply_mutation_safe) (use t assms in \<open>auto simp: fits_def\<close>)
  note step = safe_ebind [OF this]
  show "safe (havoc_attempt rb rn e ops t)
     (\<lambda>c. case c of Break a \<Rightarrow> fits B T (max (L + 6) (e_max_len e)) a | Cont s' \<Rightarrow> fits B T L s')"
    unfolding havoc_attempt_def
    by (intro draw_bind) (auto intro!: step simp: grown_def split: step_end.splits)
qed (rule assms(1))

lemma havoc_steps_safe:
  "\<lbrakk>fits B T L s; wf_env e; e_max_len e \<le> L; L + 6 * n \<le> SIZE_LIMIT; L + 6 * n \<le> B; L + 6 * n \<le> T\<rbrakk>
   \<Longrightarrow> safe (havoc_steps rb rn e ops n s) (fits B T (L + 6 * n))"
proof (induction n arbitrary: L s)
  case 0
  then show ?case by simp
next
  case (Suc n)
  have "safe (run_loop (havoc_attempt rb rn e ops) s) (fits B T (max (L + 6) (e_max_len e)))"
    by (rule havoc_step_safe) (use Suc.prems in auto)
  then have "safe (run_loop (havoc_attempt rb rn e ops) s) (fits B T (L + 6))"
    using Suc.prems(3) by (simp add: max_def split: if_splits)
  then show ?case
    unfolding havoc_steps.simps
  proof (rule safe_ebind)
    fix t :: "'r mst" assume "fits B T (L + 6) t"
    from Suc.IH [OF this] Suc.prems show "safe (havoc_steps rb rn e ops n t) (fits B T (L + 6 * Suc n))"
      by (simp add: algebra_simps)
  qed
qed

end

end
