(* ===== verification/AFL_MutProps.thy ===== *)
theory AFL_MutProps
  imports AFL_MutSafety
begin

text \<open>
  The properties of the mutator: what the driver guarantees with the real generator, the two
  operators that break its contract, and what the operators do to the test case.
\<close>

section \<open>The driver\<close>

text \<open>
  C7: \<open>afl_mutate\<close> with the fuzzer's own generator never accesses memory outside its buffers
  when the caller's buffer and the scratch buffer have six spare bytes per step above
  \<open>max_len\<close>; a test case never becomes empty and grows by at most six bytes per step above
  \<open>max_len\<close>, and the buffers keep their capacity.
\<close>

theorem afl_mutate_memory_safe:
  assumes "wf_env e" "0 < len" "len \<le> e_max_len e" "e_max_len e + 6 * steps \<le> SIZE_LIMIT"
    and "e_max_len e + 6 * steps \<le> length b" "e_max_len e + 6 * steps \<le> length t"
  shows "safe (afl_mutate_native alloc_ok e (Some b) len steps is_text is_exploration (Some t) r)
    (\<lambda>(n, b', t', r'). 0 < n \<and> n \<le> e_max_len e + 6 * steps
       \<and> map_option length b' = Some (length b) \<and> map_option length t' = Some (length t))"
proof -
  let ?s = "\<lparr>m_rng = r, m_buf = b, m_len = len, m_tmp = t\<rparr>"
  have "grow_tmp alloc_ok (e_max_len e) (Some t) = Some (Some t)"
    using assms(6) by (simp add: grow_tmp_def Let_def)
  moreover have "fits (length b) (length t) (e_max_len e) ?s"
    using assms(2,3) by (simp add: fits_def)
  then have steps: "safe (havoc_steps rand_below rand_next e ops steps ?s)
      (fits (length b) (length t) (e_max_len e + 6 * steps))" for ops
    by (rule afl_rng.havoc_steps_safe) (use assms in auto)
  have "safe (ebind (havoc_steps rand_below rand_next e ops steps ?s)
      (\<lambda>s. Inr (m_len s, Some (m_buf s), Some (m_tmp s), m_rng s)))
      (\<lambda>(n, b', t', r'). 0 < n \<and> n \<le> e_max_len e + 6 * steps
         \<and> map_option length b' = Some (length b) \<and> map_option length t' = Some (length t))" for ops
    by (rule safe_ebind [OF steps]) (simp add: fits_def)
  ultimately show ?thesis
    using assms(2) unfolding afl_mutate_native_def afl_mutate_def by simp
qed

definition splice_env :: mut_env where
  "splice_env = \<lparr>e_queue_cycle = 1, e_run_over10m = True, e_extras = [[1, 2]], e_a_extras = [],
     e_splice_buf = Some [7, 7], e_splice_len = 2, e_max_len = 10\<rparr>"

definition rng_at :: "u64 \<Rightarrow> rng" where
  "rng_at x = \<lparr>rand_seed0 = x, rand_seed1 = 2, rand_seed2 = 3, rand_cnt = 100,
     fixed_seed = True, init_seed = 0, urandom = []\<rparr>"

theorem afl_mutate_memory_safe_witness:
  "safe (afl_mutate_native (\<lambda>_. True) splice_env (Some (replicate 30 1)) 4 2 True False
      (Some (replicate 22 0)) (rng_at 1))
    (\<lambda>(n, b', t', r'). 0 < n \<and> n \<le> 22 \<and> map_option length b' = Some 30 \<and> map_option length t' = Some 22)"
proof -
  have "e_max_len splice_env + 6 * 2 = 22" "wf_env splice_env"
    by (simp_all add: splice_env_def wf_env_def SIZE_LIMIT_def)
  then show ?thesis
    using afl_mutate_memory_safe [of splice_env 4 2 "replicate 30 1" "replicate 22 0" "\<lambda>_. True" True False "rng_at 1"]
    by (simp add: SIZE_LIMIT_def)
qed

section \<open>Two operators ignore \<open>max_len\<close>\<close>

text \<open>
  \<open>insert_block\<close> on a test case that fills the scratch buffer writes its tail one byte too far.
\<close>

lemma insert_block_overflow:
  assumes "to < len" "len \<le> length b" "length t = len" "len < 4294967295"
  shows "insert_block to 1 (\<lambda>t. memset t to item 1) \<lparr>m_rng = r, m_buf = b, m_len = len, m_tmp = t\<rparr> = Inl Fault"
proof -
  have "u32_sub len to = len - to" using assms by simp
  then show ?thesis
    using assms by (simp add: insert_block_def memcpy_def memset_def)
qed

lemma pick_fill_frame:
  "pick_fill rb to s = Inr (item, s') \<Longrightarrow> \<exists>r. s' = s\<lparr>m_rng := r\<rparr>"
  by (auto simp: draw_def pick_fill_def Let_def ebind_Inr_iff split_beta split: if_splits)

lemma insertone_overflow:
  assumes "2 \<le> m" "m < 4294967295" "m \<le> length b" "length t = m"
    and draws: "rand_below m r = Inr (pos, r')"
      "pick_fill rand_below pos \<lparr>m_rng = r', m_buf = b, m_len = m, m_tmp = t\<rparr> = Inr (item, s)"
  shows "mut_insertone rand_below \<lparr>m_rng = r, m_buf = b, m_len = m, m_tmp = t\<rparr> = Inl Fault"
proof -
  have "1 < m" using assms(1) by simp
  from rand_below_safe [OF this, of r] have pos: "pos < m" by (simp add: draws(1) safe_def)
  obtain r'' where s: "s = \<lparr>m_rng = r'', m_buf = b, m_len = m, m_tmp = t\<rparr>"
    using pick_fill_frame [OF draws(2)] by auto
  show ?thesis
    using assms insert_block_overflow [OF pos, of b t item r'']
    by (simp add: mut_insertone_def draw_def s finish_def)
qed

lemma run_step_fault:
  assumes "rand_below 256 (m_rng s) = Inr (k, r)" "apply_mutation rand_below rn e (ops ! k) (s\<lparr>m_rng := r\<rparr>) = Inl err" "0 < steps"
  shows "havoc_steps rand_below rn e ops steps s = Inl err"
proof -
  have "run_loop (havoc_attempt rand_below rn e ops) s = Inl err"
    by (subst run_loop_unfold) (simp add: havoc_attempt_def draw_def assms(1,2))
  then show ?thesis using assms(3) by (cases steps) simp_all
qed

lemma insertone_run_faults:
  assumes m: "2 \<le> m" "m < 4294967295" "e_max_len e = m" "m \<le> length b" "0 < steps"
    and t: "grow_tmp alloc_ok m tmp = Some (Some t)" "length t = m"
    and draws: "rand_below 256 r = Inr (k, r1)" "strategy_array is_text is_exploration ! k = MUT_INSERTONE"
      "rand_below m r1 = Inr (pos, r2)"
      "pick_fill rand_below pos \<lparr>m_rng = r2, m_buf = b, m_len = m, m_tmp = t\<rparr> = Inr (item, s)"
  shows "afl_mutate_native alloc_ok e (Some b) m steps is_text is_exploration tmp r = Inl Fault"
proof -
  let ?s = "\<lparr>m_rng = r, m_buf = b, m_len = m, m_tmp = t\<rparr>"
  have "apply_mutation rand_below rand_next e (strategy_array is_text is_exploration ! k) (?s\<lparr>m_rng := r1\<rparr>) = Inl Fault"
    using insertone_overflow [OF m(1,2,4) t(2) draws(3,4)] by (simp add: draws(2))
  then have "havoc_steps rand_below rand_next e (strategy_array is_text is_exploration) steps ?s = Inl Fault"
    by (rule run_step_fault [rotated]) (use draws(1) m(5) in simp_all)
  then show ?thesis using m t by (simp add: afl_mutate_native_def afl_mutate_def)
qed

text \<open>Seeds for which the first draw selects the operator, in each of the four tables.\<close>

lemmas rng_eval = rand_below_accept rand_accept_def UINT64_MAX_def ROTL64_def rand_next_def Let_def

definition insertone_index :: "bool \<Rightarrow> nat" where
  "insertone_index is_text = (if is_text then 192 else 194)"

definition insertone_rng :: "bool \<Rightarrow> rng" where
  "insertone_rng is_text = \<lparr>rand_seed0 = word_of_nat (insertone_index is_text), rand_seed1 = 0, rand_seed2 = 0, rand_cnt = 100,
     fixed_seed = False, init_seed = 0, urandom = []\<rparr>"

lemma insertone_drawn: "strategy_array is_text is_exploration ! insertone_index is_text = MUT_INSERTONE"
  by (simp add: strategy_array_def insertone_index_def mutation_strategy_exploration_text_def
      mutation_strategy_exploitation_text_def mutation_strategy_exploration_binary_def mutation_strategy_exploitation_binary_def)

lemma insertone_draws:
  assumes "2 \<le> m" "m < 4294967295" "m \<le> length b"
  shows "\<exists>r1 pos r2 item s. rand_below 256 (insertone_rng is_text) = Inr (insertone_index is_text, r1) \<and>
    rand_below m r1 = Inr (pos, r2) \<and>
    pick_fill rand_below pos \<lparr>m_rng = r2, m_buf = b, m_len = m, m_tmp = t\<rparr> = Inr (item, s)"
proof -
  have acc: "rand_accept m 0"
  proof -
    have "18446744073709551615 mod m < m" using assms by simp
    then have "18446744073709551615 mod m < 18446744073709551615" using assms by linarith
    then show ?thesis by (simp add: rand_accept_def UINT64_MAX_def)
  qed
  show ?thesis
    using assms acc
    by (cases is_text) (simp_all add: insertone_rng_def insertone_index_def rng_eval pick_fill_def draw_def load8_def)
qed

text \<open>
  C9: the documented requirement, buffers of \<open>max_len\<close> bytes, is not enough for a test case of
  \<open>max_len\<close> bytes: for every \<open>max_len\<close> of at least 2 a run whose first step selects
  \<open>MUT_INSERTONE\<close> writes past the end of \<open>tmp_buf\<close> as soon as it has drawn the position and the byte, however
  large the caller's own buffer is; and with each of the four tables there is a state of the generator
  for which this happens.
\<close>

theorem afl_mutate_overflow:
  assumes "2 \<le> e_max_len e" "e_max_len e < 4294967295" "e_max_len e \<le> length b" "0 < steps"
    and "grow_tmp alloc_ok (e_max_len e) tmp = Some (Some t)" "length t = e_max_len e"
  shows "(\<forall>r k r1 pos r2 item s. rand_below 256 r = Inr (k, r1) \<and>
      strategy_array is_text is_exploration ! k = MUT_INSERTONE \<and> rand_below (e_max_len e) r1 = Inr (pos, r2) \<and>
      pick_fill rand_below pos \<lparr>m_rng = r2, m_buf = b, m_len = e_max_len e, m_tmp = t\<rparr> = Inr (item, s) \<longrightarrow>
      afl_mutate_native alloc_ok e (Some b) (e_max_len e) steps is_text is_exploration tmp r = Inl Fault)
    \<and> (\<exists>r. afl_mutate_native alloc_ok e (Some b) (e_max_len e) steps is_text is_exploration tmp r = Inl Fault)"
proof -
  note run = insertone_run_faults [OF assms(1,2) refl assms(3-6)]
  obtain r1 pos r2 item s where "rand_below 256 (insertone_rng is_text) = Inr (insertone_index is_text, r1)"
    "rand_below (e_max_len e) r1 = Inr (pos, r2)"
    "pick_fill rand_below pos \<lparr>m_rng = r2, m_buf = b, m_len = e_max_len e, m_tmp = t\<rparr> = Inr (item, s)"
    using insertone_draws [OF assms(1-3), of is_text t] by blast
  from run [OF this(1) insertone_drawn this(2,3)] show ?thesis using run by blast
qed

definition small_env :: mut_env where
  "small_env = \<lparr>e_queue_cycle = 1, e_run_over10m = True, e_extras = [], e_a_extras = [],
     e_splice_buf = None, e_splice_len = 0, e_max_len = 8\<rparr>"

theorem afl_mutate_overflow_witness:
  "\<exists>r. afl_mutate_native (\<lambda>_. True) small_env (Some (replicate 8 0)) 8 1 False True None r = Inl Fault"
  using afl_mutate_overflow [of small_env "replicate 8 0" 1 "\<lambda>_. True" None "replicate 8 0" False True]
  by (simp add: small_env_def grow_tmp_def)

end
