(* ===== verification/AFL_MutEffects.thy ===== *)
theory AFL_MutEffects
  imports AFL_MutProps
begin

text \<open>
  What the operators do to the test case, for any random source that satisfies \<open>rng_source\<close>,
  and the corresponding properties of the operators with the fuzzer's generator.
\<close>

section \<open>Vocabulary\<close>

text \<open>Big-endian readings, as the swapped operators see the bytes.\<close>

definition be16 :: "bytes \<Rightarrow> nat \<Rightarrow> u16" where
  "be16 c p = SWAP16 (ucast (c ! p) OR push_bit 8 (ucast (c ! (p + 1))))"

definition be32 :: "bytes \<Rightarrow> nat \<Rightarrow> u32" where
  "be32 c p = SWAP32 (ucast (c ! p) OR push_bit 8 (ucast (c ! (p + 1)))
     OR push_bit 16 (ucast (c ! (p + 2))) OR push_bit 24 (ucast (c ! (p + 3))))"

text \<open>\<open>c'\<close> differs from \<open>c\<close> only in a window of \<open>w\<close> bytes.\<close>

definition window :: "nat \<Rightarrow> bytes \<Rightarrow> bytes \<Rightarrow> bool" where
  "window w c c' \<longleftrightarrow> length c' = length c \<and> (\<exists>p. p + w \<le> length c
     \<and> take p c' = take p c \<and> drop (p + w) c' = drop (p + w) c)"

definition swap_blocks :: "nat \<Rightarrow> nat \<Rightarrow> nat \<Rightarrow> bytes \<Rightarrow> bytes" where
  "swap_blocks i j n c = take i c @ take n (drop j c) @ take (j - (i + n)) (drop (i + n) c)
     @ take n (drop i c) @ drop (j + n) c"

lemma blocks_join: "i + n \<le> j \<Longrightarrow> j + n \<le> length c \<Longrightarrow>
    c = take i c @ take n (drop i c) @ take (j - (i + n)) (drop (i + n) c) @ take n (drop j c) @ drop (j + n) c"
proof -
  assume a: "i + n \<le> j" "j + n \<le> length c"
  have "drop j c = take n (drop j c) @ drop (j + n) c"
    by (metis append_take_drop_id drop_drop add.commute)
  moreover have "drop (i + n) c = take (j - (i + n)) (drop (i + n) c) @ drop j c"
    using a by (metis append_take_drop_id drop_drop le_add_diff_inverse2)
  moreover have "drop i c = take n (drop i c) @ drop (i + n) c"
    by (metis append_take_drop_id drop_drop add.commute)
  ultimately show ?thesis by (metis append_take_drop_id)
qed

lemma mset_swap_blocks: "i + n \<le> j \<Longrightarrow> j + n \<le> length c \<Longrightarrow> mset (swap_blocks i j n c) = mset c"
proof -
  assume a: "i + n \<le> j" "j + n \<le> length c"
  have "mset c = mset (take i c @ take n (drop i c) @ take (j - (i + n)) (drop (i + n) c)
      @ take n (drop j c) @ drop (j + n) c)"
    using blocks_join [OF a] by (rule arg_cong)
  then show ?thesis by (simp add: swap_blocks_def union_ac)
qed

section \<open>Exact results of the accesses\<close>

lemma modify8_eq: "pos < length (m_buf s) \<Longrightarrow>
    modify8 pos f s = Inr (s\<lparr>m_buf := (m_buf s)[pos := f (m_buf s ! pos)]\<rparr>)"
  by (simp add: modify8_def mem_ok)

lemma join16: "ucast (ucast v :: u8) OR push_bit 8 (ucast (ucast (drop_bit 8 v) :: u8)) = (v :: u16)"
  by (rule bit_word_eqI) (auto simp: bit_simps)

lemma join32: "ucast (ucast v :: u8) OR push_bit 8 (ucast (ucast (drop_bit 8 v) :: u8))
    OR push_bit 16 (ucast (ucast (drop_bit 16 v) :: u8))
    OR push_bit 24 (ucast (ucast (drop_bit 24 v) :: u8)) = (v :: u32)" (is "?l = v")
proof (rule bit_word_eqI)
  fix n assume "n < LENGTH(32)"
  then have "n < 8 \<or> 8 \<le> n \<and> n < 16 \<or> 16 \<le> n \<and> n < 24 \<or> 24 \<le> n \<and> n < 32" by auto
  then show "bit ?l n \<longleftrightarrow> bit v n"
    by (elim disjE conjE) (auto simp: bit_simps dest: bit_imp_le_length)
qed

text \<open>A 16-bit store through \<open>SWAP16\<close> writes the value in big-endian order, in place.\<close>

lemma modify16_be:
  assumes "pos + 2 \<le> n" "n \<le> length (m_buf s)" "m_len s = n"
  shows "\<exists>s'. modify16 pos (\<lambda>v. SWAP16 (g (SWAP16 v))) s = Inr s' \<and> m_len s' = n
     \<and> be16 (content s') pos = g (be16 (content s) pos)
     \<and> take pos (content s') = take pos (content s) \<and> drop (pos + 2) (content s') = drop (pos + 2) (content s)"
  using assms by (simp add: modify16_def mem_ok be16_def content_def take_update_swap join16
      nth_list_update list_update_beyond)

lemma modify32_be:
  assumes "pos + 4 \<le> n" "n \<le> length (m_buf s)" "m_len s = n"
  shows "\<exists>s'. modify32 pos (\<lambda>v. SWAP32 (g (SWAP32 v))) s = Inr s' \<and> m_len s' = n
     \<and> be32 (content s') pos = g (be32 (content s) pos)
     \<and> take pos (content s') = take pos (content s) \<and> drop (pos + 4) (content s') = drop (pos + 4) (content s)"
  using assms by (simp add: modify32_def mem_ok be32_def content_def take_update_swap join32
      nth_list_update list_update_beyond)

lemma xor_nonzero: "x < 255 \<Longrightarrow> v XOR (1 + word_of_nat x) \<noteq> (v :: u8)"
proof
  assume x: "x < 255" and eq: "v XOR (1 + word_of_nat x) = v"
  have "(1 + word_of_nat x :: u8) = v XOR (v XOR (1 + word_of_nat x))"
    by (simp add: xor.assoc [symmetric])
  also have "\<dots> = 0" unfolding eq by simp
  finally have "unat (of_nat (Suc x) :: u8) = 0" by simp
  with x show False by (simp only: unat_of_nat) simp
qed

section \<open>Exchanging blocks\<close>

lemma blocksE:
  assumes "i + n \<le> j" "j + n \<le> length c"
  obtains A X M Y Z where "c = A @ X @ M @ Y @ Z" "length A = i" "length X = n" "length Y = n"
    "length M = j - (i + n)"
  by (rule that [OF blocks_join [OF assms]]) (use assms in auto)

lemma swap_blocks_parts:
  "length X = n \<Longrightarrow> length Y = n \<Longrightarrow> length A = i \<Longrightarrow> length M = j - (i + n) \<Longrightarrow> i + n \<le> j \<Longrightarrow>
   swap_blocks i j n (A @ X @ M @ Y @ Z) = A @ Y @ M @ X @ Z"
  by (auto simp: swap_blocks_def)

lemma switch_copies:
  assumes n: "n \<le> length tmp" and ij: "i + n \<le> j" "j + n \<le> length b"
    and ft: "(frm, to) = (i, j) \<or> (frm, to) = (j, i)"
  shows "\<exists>t. length t = length tmp \<and> ebind (memcpy tmp 0 b frm n) (\<lambda>t.
      ebind (memcpy_same b frm to n) (\<lambda>b.
      ebind (memcpy b to t 0 n) (\<lambda>b. f b t))) = f (swap_blocks i j n b) t"
proof -
  obtain A X M Y Z where b: "b = A @ X @ M @ Y @ Z" and len: "length A = i" "length X = n" "length Y = n"
    "length M = j - (i + n)" using blocksE [OF ij] .
  define t where "t = take n (drop frm b) @ drop n tmp"
  have t: "memcpy tmp 0 b frm n = Inr t" "length t = length tmp"
    using n ij ft by (auto simp: t_def mem_ok)
  have parts: "take n (drop i b) = X" "take n (drop j b) = Y"
    using len ij by (simp_all add: b)
  have "frm + n \<le> length b" using ij ft by auto
  then have t_part: "take n t = take n (drop frm b)"
    by (simp add: t_def)
  from ft show ?thesis
  proof
    assume ft: "(frm, to) = (i, j)"
    have "memcpy_same b i j n = Inr (A @ Y @ M @ Y @ Z)"
      using ij len by (auto simp: mem_ok b)
    moreover have "memcpy (A @ Y @ M @ Y @ Z) j t 0 n = Inr (A @ Y @ M @ X @ Z)"
      using ij len n ft t(2) t_part parts by (auto simp: mem_ok)
    ultimately show ?thesis
      using t ft len ij by (intro exI [of _ t]) (auto simp: b swap_blocks_parts)
  next
    assume ft: "(frm, to) = (j, i)"
    have "memcpy_same b j i n = Inr (A @ X @ M @ X @ Z)"
      using ij len by (auto simp: mem_ok b)
    moreover have "memcpy (A @ X @ M @ X @ Z) i t 0 n = Inr (A @ Y @ M @ X @ Z)"
      using ij len n ft t(2) t_part parts by (auto simp: mem_ok)
    ultimately show ?thesis
      using t ft len ij by (intro exI [of _ t]) (auto simp: b swap_blocks_parts)
  qed
qed

lemma take_swap_blocks:
  assumes "i + n \<le> j" "j + n \<le> l" "l \<le> length b"
  shows "take l (swap_blocks i j n b) = swap_blocks i j n (take l b)"
proof -
  obtain A X M Y Z where b: "b = A @ X @ M @ Y @ Z" and len: "length A = i" "length X = n" "length Y = n"
    "length M = j - (i + n)" using blocksE [of i n j b] assms by (metis le_trans)
  have "take l b = A @ X @ M @ Y @ take (l - (j + n)) Z"
    using len assms by (simp add: b)
  moreover have "take l (A @ Y @ M @ X @ Z) = A @ Y @ M @ X @ take (l - (j + n)) Z"
    using len assms by simp
  ultimately show ?thesis
    using len assms by (simp add: b swap_blocks_parts)
qed

context rng_source
begin

lemma flipbit_effect:
  assumes "0 < m_len s" "m_len s \<le> length (m_buf s)"
  shows "safe (mut_flipbit rb s) (\<lambda>(_, s'). \<exists>off bitno. off < m_len s \<and> bitno < 8
     \<and> content s' = (content s)[off := content s ! off XOR push_bit bitno 1])"
  using assms unfolding mut_flipbit_def
  apply (auto intro!: draw_bind_pos simp: modify8_eq finish_def content_def take_update_swap)
  subgoal for bitno off by (rule exI [of _ off]) auto
  done

lemma rand8_effect:
  assumes "0 < m_len s" "m_len s \<le> length (m_buf s)"
  shows "safe (mut_rand8 rb s) (\<lambda>(_, s'). \<exists>off v. off < m_len s \<and> v \<noteq> content s ! off
     \<and> content s' = (content s)[off := v])"
  using assms unfolding mut_rand8_def
  apply (auto intro!: draw_bind_pos simp: modify8_eq finish_def content_def take_update_swap)
  subgoal for off x
    by (rule exI [of _ off], simp, rule exI [of _ "m_buf s ! off XOR (1 + word_of_nat x)"])
      (simp add: xor_nonzero)
  done

text \<open>Big-endian addition and subtraction at a random place.\<close>

lemma be16_bind:
  assumes "pos + 2 \<le> m_len s" "m_len s \<le> length (m_buf s)"
    and "\<And>s'. m_len s' = m_len s \<Longrightarrow> be16 (content s') pos = g (be16 (content s) pos) \<Longrightarrow>
      take pos (content s') = take pos (content s) \<Longrightarrow>
      drop (pos + 2) (content s') = drop (pos + 2) (content s) \<Longrightarrow> Q (StepDone, s')"
  shows "safe (finish (modify16 pos (\<lambda>v. SWAP16 (g (SWAP16 v))) s)) Q"
  using modify16_be [OF assms(1,2) refl, of g] assms(3) by (auto simp: finish_def)

lemma be32_bind:
  assumes "pos + 4 \<le> m_len s" "m_len s \<le> length (m_buf s)"
    and "\<And>s'. m_len s' = m_len s \<Longrightarrow> be32 (content s') pos = g (be32 (content s) pos) \<Longrightarrow>
      take pos (content s') = take pos (content s) \<Longrightarrow>
      drop (pos + 4) (content s') = drop (pos + 4) (content s) \<Longrightarrow> Q (StepDone, s')"
  shows "safe (finish (modify32 pos (\<lambda>v. SWAP32 (g (SWAP32 v))) s)) Q"
  using modify32_be [OF assms(1,2) refl, of g] assms(3) by (auto simp: finish_def)

lemma arith_be_effect:
  assumes "m_len s \<le> length (m_buf s)" "m_len s < 4294967296"
  shows "2 \<le> m_len s \<Longrightarrow> safe (mut_arith16be rb s) (\<lambda>(_, s'). \<exists>pos x. pos + 2 \<le> m_len s \<and> 1 \<le> x \<and> x \<le> 35
      \<and> m_len s' = m_len s \<and> be16 (content s') pos = be16 (content s) pos + of_nat x
      \<and> take pos (content s') = take pos (content s) \<and> drop (pos + 2) (content s') = drop (pos + 2) (content s))"
    and "4 \<le> m_len s \<Longrightarrow> safe (mut_arith32be_minus rb s) (\<lambda>(_, s'). \<exists>pos x. pos + 4 \<le> m_len s \<and> 1 \<le> x \<and> x \<le> 35
      \<and> m_len s' = m_len s \<and> be32 (content s') pos = be32 (content s) pos - of_nat x
      \<and> take pos (content s') = take pos (content s) \<and> drop (pos + 4) (content s') = drop (pos + 4) (content s))"
proof -
  have c: "content (s\<lparr>m_rng := r\<rparr>) = content s" for r by (simp add: content_def)
  show "safe (mut_arith16be rb s) (\<lambda>(_, s'). \<exists>pos x. pos + 2 \<le> m_len s \<and> 1 \<le> x \<and> x \<le> 35
      \<and> m_len s' = m_len s \<and> be16 (content s') pos = be16 (content s) pos + of_nat x
      \<and> take pos (content s') = take pos (content s) \<and> drop (pos + 2) (content s') = drop (pos + 2) (content s))"
    if "2 \<le> m_len s"
    using that assms unfolding mut_arith16be_def
    apply (auto intro!: draw_bind_pos be16_bind simp: ARITH_MAX_def c simp del: add_2_eq_Suc' of_nat_Suc)
    subgoal for pos x s' by (rule exI [of _ pos], rule conjI, arith, rule exI [of _ "Suc x"]) simp
    done
  show "safe (mut_arith32be_minus rb s) (\<lambda>(_, s'). \<exists>pos x. pos + 4 \<le> m_len s \<and> 1 \<le> x \<and> x \<le> 35
      \<and> m_len s' = m_len s \<and> be32 (content s') pos = be32 (content s) pos - of_nat x
      \<and> take pos (content s') = take pos (content s) \<and> drop (pos + 4) (content s') = drop (pos + 4) (content s))"
    if "4 \<le> m_len s"
    using that assms unfolding mut_arith32be_minus_def
    apply (auto intro!: draw_bind_pos be32_bind simp: ARITH_MAX_def c simp del: of_nat_Suc)
    subgoal for pos x s' by (rule exI [of _ pos], rule conjI, arith, rule exI [of _ "Suc x"]) simp
    done
qed

text \<open>\<open>MUT_DEL\<close> removes one block and leaves at least one byte.\<close>

lemma del_effect:
  assumes "2 \<le> m_len s" "m_len s \<le> length (m_buf s)" "m_len s < 4294967296"
  shows "safe (mut_del rb e s) (\<lambda>(_, s'). \<exists>n p. 1 \<le> n \<and> n < m_len s \<and> p + n \<le> m_len s
     \<and> content s' = take p (content s) @ drop (p + n) (content s))"
proof -
  have c: "content (s\<lparr>m_rng := r\<rparr>) = content s" for r by (simp add: content_def)
  have deleted: "content (s\<lparr>m_rng := r, m_buf := take p (content s) @ drop (p + n) (content s) @ rest,
      m_len := m_len s - n\<rparr>) = take p (content s) @ drop (p + n) (content s)"
    if "p + n \<le> m_len s" for p n r rest
  proof -
    have "length (content s) = m_len s" using assms by (simp add: content_def)
    then have "take (m_len s - n) (take p (content s) @ drop (p + n) (content s) @ rest)
        = take p (content s) @ drop (p + n) (content s)"
      using that by (intro take_exact2) auto
    then show ?thesis by (simp add: content_def [of "_ \<lparr>m_rng := _, m_buf := _, m_len := _\<rparr>"])
  qed
  show ?thesis
    using assms unfolding mut_del_def
    apply (auto intro!: draw_bind_pos choose_block_len_bind simp: delete_block_eq finish_def c deleted)
    subgoal for n p by (rule exI [of _ n], rule conjI, simp, rule conjI, arith, rule exI [of _ p]) simp
    done
qed

text \<open>\<open>MUT_CLONE_COPY\<close> inserts a copy of a block of the test case.\<close>

lemma clone_copy_effect:
  assumes "fits B T L s" "L \<le> B" "L \<le> T" "L \<le> SIZE_LIMIT"
    and "e_max_len e \<le> B" "e_max_len e \<le> T" "e_max_len e \<le> SIZE_LIMIT"
  shows "safe (mut_clone_copy rb e s) (\<lambda>(st, s'). content s' = content s \<or>
     (\<exists>p q n. st = StepDone \<and> 1 \<le> n \<and> q + n \<le> m_len s \<and> p < m_len s \<and> m_len s' < e_max_len e
       \<and> content s' = take p (content s) @ take n (drop q (content s)) @ drop p (content s)))"
proof -
  have c: "content (s\<lparr>m_rng := r\<rparr>) = content s" for r by (simp add: content_def)
  have copy_part: "\<lbrakk>q + n \<le> length src; to + n \<le> length t\<rbrakk> \<Longrightarrow>
      memcpy t to src q n = Inr (take to t @ take n (drop q src) @ drop (to + n) t)"
    for q n src to and t :: bytes
    by (simp add: mem_ok)
  show ?thesis
    using assms unfolding mut_clone_copy_def no_room_def fits_def blk_defs
    apply (auto intro!: draw_bind_pos choose_block_len_bind insert_block_bind [OF _ _ _ _ _ copy_part]
        simp: c)
    subgoal premises prems for n q p r'' t
    proof -
      let ?c = "content s"
      have c: "length ?c = m_len s" using prems by (simp add: content_def)
      have "take n (drop q (m_buf s)) = take n (drop q ?c)"
        using prems by (simp add: content_def drop_take)
      moreover have "take (m_len s + n) (take p ?c @ take n (drop q ?c) @ drop p ?c @ drop (m_len s + n) (m_buf s))
          = take p ?c @ take n (drop q ?c) @ drop p ?c"
        using prems c by (intro take_exact3) auto
      ultimately show ?thesis
        using prems by (intro exI [of _ p] exI [of _ q] exI [of _ n]) (simp add: content_def [of "_ \<lparr>m_rng := _, m_buf := _, m_len := _, m_tmp := _\<rparr>"])
    qed
    done
qed

lemma switch_bind:
  assumes "n \<le> length tmp" "i + n \<le> j" "j + n \<le> length b" "(frm, to) = (i, j) \<or> (frm, to) = (j, i)"
    and "\<And>t. length t = length tmp \<Longrightarrow> safe (f (swap_blocks i j n b) t) Q"
  shows "safe (ebind (memcpy tmp 0 b frm n) (\<lambda>t. ebind (memcpy_same b frm to n) (\<lambda>b.
      ebind (memcpy b to t 0 n) (\<lambda>b. f b t)))) Q"
  using switch_copies [OF assms(1-4), of f] assms(5) by auto

lemma switch_effect:
  assumes "4 \<le> m_len s" "m_len s \<le> length (m_buf s)" "m_len s \<le> length (m_tmp s)" "m_len s < 4294967296"
  shows "safe (mut_switch rb e s) (\<lambda>(_, s'). \<exists>i j n. 1 \<le> n \<and> i + n \<le> j \<and> j + n \<le> m_len s
     \<and> m_len s' = m_len s \<and> content s' = swap_blocks i j n (content s))"
proof -
  from assms(1) have "\<not> m_len s < 4" by simp
  then show ?thesis
  unfolding mut_switch_def if_not_P [OF \<open>\<not> m_len s < 4\<close>]
proof (intro draw_bind_pos, goal_cases)
  case 1
  from assms show ?case by simp
next
  case (2 frm r)
  show ?case
  proof (simp only: prod.case, rule draw_other_bind, goal_cases)
    case (1 to r')
    then have to: "to < m_len s" "frm \<noteq> to" using assms by auto
    define i where "i = min frm to"
    define j where "j = max frm to"
    have ij: "i < j" "j < m_len s" "(frm, to) = (i, j) \<or> (frm, to) = (j, i)"
      using to 2 by (auto simp: i_def j_def)
    have pair: "(if frm < to then (u32_sub to frm, u32_sub (m_len s) to)
        else (u32_sub frm to, u32_sub (m_len s) frm)) = (j - i, m_len s - j)"
      using to 2 assms by (auto simp: i_def j_def)
    have step: "safe (ebind (memcpy (m_tmp s) 0 (m_buf s) frm n) (\<lambda>t. ebind (memcpy_same (m_buf s) frm to n) (\<lambda>b.
      ebind (memcpy b to t 0 n) (\<lambda>b. Inr (StepDone, s\<lparr>m_rng := q, m_buf := b, m_tmp := t\<rparr>)))))
      (\<lambda>(_, s'). \<exists>i j n. 1 \<le> n \<and> i + n \<le> j \<and> j + n \<le> m_len s
         \<and> m_len s' = m_len s \<and> content s' = swap_blocks i j n (content s))"
      if n: "1 \<le> n" "n \<le> max 1 (min (j - i) (m_len s - j))" for n q
    proof (rule switch_bind [of n _ i j])
      from n ij have n': "i + n \<le> j" "j + n \<le> m_len s" by auto
      then show "n \<le> length (m_tmp s)" "i + n \<le> j" "j + n \<le> length (m_buf s)"
        using assms by auto
      fix t :: bytes
      from n' n(1) take_swap_blocks [OF n' assms(2)]
      show "safe (Inr (StepDone, s\<lparr>m_rng := q, m_buf := swap_blocks i j n (m_buf s), m_tmp := t\<rparr>))
         (\<lambda>(_, s'). \<exists>i j n. 1 \<le> n \<and> i + n \<le> j \<and> j + n \<le> m_len s
           \<and> m_len s' = m_len s \<and> content s' = swap_blocks i j n (content s))"
        by (auto simp: content_def)
    qed (rule ij(3))
    show ?case
      using ij assms step by (auto simp: pair intro!: choose_block_len_bind)
  qed
qed
qed

text \<open>\<open>MUT_INSERTASCIINUM\<close> overwrites part of the test case with decimal digits.\<close>

lemma isdigit_of_nat: "d < 10 \<Longrightarrow> isdigit (of_nat (48 + d))"
proof -
  assume "d < 10"
  then have "d = 0 \<or> d = 1 \<or> d = 2 \<or> d = 3 \<or> d = 4 \<or> d = 5 \<or> d = 6 \<or> d = 7 \<or> d = 8 \<or> d = 9" by auto
  then show ?thesis by (elim disjE) (simp_all add: isdigit_def)
qed

lemma dec_nat_digits: "list_all isdigit (dec_nat n)"
proof (induction n rule: dec_nat.induct)
  case (1 n)
  show ?case
  proof (cases "n < 10")
    case True
    then show ?thesis by (subst dec_nat.simps) (simp add: isdigit_of_nat del: of_nat_add)
  next
    case False
    have "n mod 10 < 10" by simp
    with False "1.IH" show ?thesis
      by (subst dec_nat.simps) (simp add: isdigit_of_nat del: of_nat_add)
  qed
qed

lemma insertasciinum_effect:
  assumes "0 < m_len s" "m_len s \<le> length (m_buf s)" "m_len s \<le> SIZE_LIMIT"
  shows "safe (mut_insertasciinum rb rn s) (\<lambda>(_, s'). m_len s' = m_len s \<and>
     (content s' = content s \<or> (\<exists>p ds. 1 \<le> length ds \<and> length ds \<le> 8 \<and> list_all isdigit ds
        \<and> p + length ds \<le> m_len s
        \<and> content s' = take p (content s) @ ds @ drop (p + length ds) (content s))))"
proof -
  have c: "content (s\<lparr>m_rng := r\<rparr>) = content s" for r by (simp add: content_def)
  have written: "\<exists>b. memcpy (m_buf s) p src off n = Inr b \<and> (\<exists>q ds. 1 \<le> length ds \<and> length ds \<le> 8
       \<and> list_all isdigit ds \<and> q + length ds \<le> m_len s
       \<and> content (s\<lparr>m_rng := r, m_buf := b\<rparr>) = take q (content s) @ ds @ drop (q + length ds) (content s))"
    if "p + n \<le> m_len s" "1 \<le> n" "n \<le> 8" "off + n \<le> length src" "list_all isdigit src"
    for p n off src r
  proof -
    let ?ds = "take n (drop off src)"
    have len: "length ?ds = n" using that by simp
    have "list_all isdigit ?ds"
      using that(5) by (auto simp: list_all_iff dest!: in_set_takeD in_set_dropD)
    moreover have "take (m_len s) (take p (m_buf s) @ ?ds @ drop (p + n) (m_buf s)) =
        take p (content s) @ ?ds @ drop (p + n) (content s)"
      unfolding content_def using that assms(2) len by (intro take_overwrite) auto
    ultimately show ?thesis
      using that assms(2) len
      by (intro exI [of _ "take p (m_buf s) @ ?ds @ drop (p + n) (m_buf s)"] conjI exI [of _ p] exI [of _ ?ds])
        (auto simp: mem_ok content_def)
  qed
  have digits: "1 \<le> length (dec_nat n)" for n using dec_nat_nonempty [of n] by (cases "dec_nat n") auto
  show ?thesis
    using assms unfolding mut_insertasciinum_def Let_def SIZE_LIMIT_def
  proof (intro draw_bind_pos, goal_cases)
    case (2 x r)
    show ?case
    proof (simp only: prod.case, rule draw_bind_pos, goal_cases)
      case (2 p r')
      obtain v q where rn: "rn r' = (v, q)" by (cases "rn r'")
      note w = digits [of "unat v"] dec_nat_digits [of "unat v"]
      show ?case
      proof (cases "m_len s < p + (1 + x)")
        case True
        with 2 assms \<open>x < 8\<close> show ?thesis by (auto simp: no_room_def c SIZE_LIMIT_def)
      next
        case False
        define len where "len = length (dec_nat (unat v))"
        show ?thesis
        proof (cases "len < 1 + x")
          case True
          with \<open>x < 8\<close> w False
          obtain b where "memcpy (m_buf s) p (dec_nat (unat v)) 0 len = Inr b \<and> (\<exists>q' ds. 1 \<le> length ds \<and> length ds \<le> 8
             \<and> list_all isdigit ds \<and> q' + length ds \<le> m_len s
             \<and> content (s\<lparr>m_rng := q, m_buf := b\<rparr>) = take q' (content s) @ ds @ drop (q' + length ds) (content s))"
            using written [of p len 0 "dec_nat (unat v)" q] by (auto simp: len_def)
          with True False 2 assms \<open>x < 8\<close> show ?thesis by (auto simp: rn SIZE_LIMIT_def len_def)
        next
          case nTrue: False
          from nTrue \<open>x < 8\<close> False have "p + (1 + x) \<le> m_len s" "1 \<le> 1 + x" "1 + x \<le> 8"
            "len - (1 + x) + (1 + x) \<le> length (dec_nat (unat v))" by (auto simp: len_def)
          then obtain b where "memcpy (m_buf s) p (dec_nat (unat v)) (len - (1 + x)) (1 + x) = Inr b \<and> (\<exists>q' ds. 1 \<le> length ds \<and> length ds \<le> 8
             \<and> list_all isdigit ds \<and> q' + length ds \<le> m_len s
             \<and> content (s\<lparr>m_rng := q, m_buf := b\<rparr>) = take q' (content s) @ ds @ drop (q' + length ds) (content s))"
            using written [of p "1 + x" "len - (1 + x)" "dec_nat (unat v)" q] w(2) by blast
          with nTrue False 2 assms \<open>x < 8\<close> show ?thesis by (auto simp: rn SIZE_LIMIT_def len_def)
        qed
      qed
    qed (use assms in simp)
  qed auto
qed

end

section \<open>Properties with the fuzzer's generator\<close>

text \<open>A state to try the operators on: eight bytes, a scratch buffer of sixteen.\<close>

definition demo :: "rng mst" where
  "demo = \<lparr>m_rng = rng_at 3, m_buf = [10, 20, 30, 40, 50, 60, 70, 80] @ replicate 8 0, m_len = 8,
     m_tmp = replicate 16 0\<rparr>"

definition demo_env :: mut_env where
  "demo_env = \<lparr>e_queue_cycle = 1, e_run_over10m = False, e_extras = [[1, 2]], e_a_extras = [],
     e_splice_buf = None, e_splice_len = 0, e_max_len = 16\<rparr>"

lemmas demo_simps = demo_def demo_env_def fits_def wf_env_def SIZE_LIMIT_def

text \<open>
  C8: every operator except \<open>MUT_INSERTONE\<close> and \<open>MUT_ASCIINUM\<close> respects its buffers: with
  buffers of \<open>max_len\<close> bytes it does not fault, and the test case it leaves is not empty and
  not longer than \<open>max_len\<close>.
\<close>

theorem mutation_within_max_len:
  assumes "wf_env e" "fits B T (e_max_len e) s" "e_max_len e \<le> B" "e_max_len e \<le> T"
    and "m \<notin> {MUT_INSERTONE, MUT_ASCIINUM}"
  shows "safe (apply_mutation rand_below rand_next e m s)
    (\<lambda>(st, s'). length (m_buf s') = B \<and> length (m_tmp s') = T \<and> 0 < m_len s' \<and> m_len s' \<le> e_max_len e)"
proof -
  have "safe (apply_mutation rand_below rand_next e m s) (grown B T (e_max_len e) (max (e_max_len e) (e_max_len e)))"
    by (rule afl_rng.bounded_mutation_safe) (use assms in \<open>auto simp: wf_env_def\<close>)
  then show ?thesis
    by (rule safe_mono) (clarsimp simp: grown_def, rename_tac st s', case_tac st, simp_all add: fits_def)
qed

theorem mutation_within_max_len_witness:
  "safe (apply_mutation rand_below rand_next demo_env MUT_EXTRA_INSERT demo)
    (\<lambda>(st, s'). length (m_buf s') = 16 \<and> length (m_tmp s') = 16 \<and> 0 < m_len s' \<and> m_len s' \<le> e_max_len demo_env)"
  by (rule mutation_within_max_len) (simp_all add: demo_simps)

text \<open>\<open>MUT_FLIPBIT\<close> flips exactly one bit of one byte of the test case.\<close>

theorem flipbit_flips_one_bit:
  assumes "0 < m_len s" "m_len s \<le> length (m_buf s)"
  shows "safe (mut_flipbit rand_below s) (\<lambda>(_, s'). \<exists>off bitno. off < m_len s \<and> bitno < 8
     \<and> content s' = (content s)[off := content s ! off XOR push_bit bitno 1])"
  using assms by (rule afl_rng.flipbit_effect)

theorem flipbit_flips_one_bit_witness:
  "safe (mut_flipbit rand_below demo) (\<lambda>(_, s'). \<exists>off bitno. off < m_len demo \<and> bitno < 8
     \<and> content s' = (content demo)[off := content demo ! off XOR push_bit bitno 1])"
  by (rule flipbit_flips_one_bit) (simp_all add: demo_simps)

text \<open>
  \<open>MUT_RAND8\<close> always changes the test case, in one byte: the XOR with 1 to 255 rules out
  a no-op, as its comment says.
\<close>

theorem rand8_changes_one_byte:
  assumes "0 < m_len s" "m_len s \<le> length (m_buf s)"
  shows "safe (mut_rand8 rand_below s) (\<lambda>(_, s'). \<exists>off v. off < m_len s \<and> v \<noteq> content s ! off
     \<and> content s' = (content s)[off := v])"
  using assms by (rule afl_rng.rand8_effect)

theorem rand8_changes_one_byte_witness:
  "safe (mut_rand8 rand_below demo) (\<lambda>(_, s'). \<exists>off v. off < m_len demo \<and> v \<noteq> content demo ! off
     \<and> content s' = (content demo)[off := v])"
  by (rule rand8_changes_one_byte) (simp_all add: demo_simps)

text \<open>
  the big-endian arithmetic operators add 1 to 35 to a 16-bit value, subtract it from a
  32-bit value, in big-endian order and modulo the width, and leave all other bytes alone.
\<close>

theorem arith_big_endian:
  assumes "4 \<le> m_len s" "m_len s \<le> length (m_buf s)" "m_len s < 4294967296"
  shows "safe (mut_arith16be rand_below s) (\<lambda>(_, s'). \<exists>pos x. pos + 2 \<le> m_len s \<and> 1 \<le> x \<and> x \<le> 35
      \<and> m_len s' = m_len s \<and> be16 (content s') pos = be16 (content s) pos + of_nat x
      \<and> take pos (content s') = take pos (content s) \<and> drop (pos + 2) (content s') = drop (pos + 2) (content s))
    \<and> safe (mut_arith32be_minus rand_below s) (\<lambda>(_, s'). \<exists>pos x. pos + 4 \<le> m_len s \<and> 1 \<le> x \<and> x \<le> 35
      \<and> m_len s' = m_len s \<and> be32 (content s') pos = be32 (content s) pos - of_nat x
      \<and> take pos (content s') = take pos (content s) \<and> drop (pos + 4) (content s') = drop (pos + 4) (content s))"
  using assms by (intro conjI afl_rng.arith_be_effect) auto

theorem arith_big_endian_witness:
  "safe (mut_arith16be rand_below demo) (\<lambda>(_, s'). \<exists>pos x. pos + 2 \<le> m_len demo \<and> 1 \<le> x \<and> x \<le> 35
      \<and> m_len s' = m_len demo \<and> be16 (content s') pos = be16 (content demo) pos + of_nat x
      \<and> take pos (content s') = take pos (content demo)
      \<and> drop (pos + 2) (content s') = drop (pos + 2) (content demo))"
  by (rule conjunct1 [OF arith_big_endian]) (simp_all add: demo_simps)

text \<open>\<open>MUT_DEL\<close> removes one block of at least one byte and never the whole test case.\<close>

theorem del_removes_block:
  assumes "2 \<le> m_len s" "m_len s \<le> length (m_buf s)" "m_len s < 4294967296"
  shows "safe (mut_del rand_below e s) (\<lambda>(_, s'). \<exists>n p. 1 \<le> n \<and> n < m_len s \<and> p + n \<le> m_len s
     \<and> content s' = take p (content s) @ drop (p + n) (content s))"
  using assms by (rule afl_rng.del_effect)

theorem del_removes_block_witness:
  "safe (mut_del rand_below demo_env demo) (\<lambda>(_, s'). \<exists>n p. 1 \<le> n \<and> n < m_len demo \<and> p + n \<le> m_len demo
     \<and> content s' = take p (content demo) @ drop (p + n) (content demo))"
  by (rule del_removes_block) (simp_all add: demo_simps)

text \<open>
  \<open>MUT_CLONE_COPY\<close> inserts a copy of one of the test case's own blocks, and only when the
  result stays below \<open>max_len\<close>; otherwise the test case is unchanged.
\<close>

theorem clone_copy_inserts_block:
  assumes "fits B T L s" "L \<le> B" "L \<le> T" "L \<le> SIZE_LIMIT"
    and "e_max_len e \<le> B" "e_max_len e \<le> T" "e_max_len e \<le> SIZE_LIMIT"
  shows "safe (mut_clone_copy rand_below e s) (\<lambda>(st, s'). content s' = content s \<or>
     (\<exists>p q n. st = StepDone \<and> 1 \<le> n \<and> q + n \<le> m_len s \<and> p < m_len s \<and> m_len s' < e_max_len e
       \<and> content s' = take p (content s) @ take n (drop q (content s)) @ drop p (content s)))"
  using assms by (rule afl_rng.clone_copy_effect)

theorem clone_copy_inserts_block_witness:
  "safe (mut_clone_copy rand_below demo_env demo) (\<lambda>(st, s'). content s' = content demo \<or>
     (\<exists>p q n. st = StepDone \<and> 1 \<le> n \<and> q + n \<le> m_len demo \<and> p < m_len demo \<and> m_len s' < e_max_len demo_env
       \<and> content s' = take p (content demo) @ take n (drop q (content demo)) @ drop p (content demo)))"
  by (rule clone_copy_inserts_block [where B = 16 and T = 16 and L = 16]) (simp_all add: demo_simps)

text \<open>
  \<open>MUT_SWITCH\<close> exchanges two disjoint blocks of the same length, and
  \<open>MUT_SHUFFLE\<close> permutes the bytes: both keep the test case as a multiset of bytes.
\<close>

theorem switch_and_shuffle_permute:
  assumes "4 \<le> m_len s" "m_len s \<le> length (m_buf s)" "m_len s \<le> length (m_tmp s)" "m_len s \<le> SIZE_LIMIT"
  shows "safe (mut_switch rand_below e s) (\<lambda>(_, s').
      (\<exists>i j n. 1 \<le> n \<and> i + n \<le> j \<and> j + n \<le> m_len s \<and> content s' = swap_blocks i j n (content s))
      \<and> m_len s' = m_len s \<and> mset (content s') = mset (content s))
    \<and> safe (mut_shuffle rand_below e s) (\<lambda>(_, s').
      m_len s' = m_len s \<and> mset (content s') = mset (content s))"
proof
  have len: "length (content s) = m_len s" using assms by (simp add: content_def)
  have "safe (mut_switch rand_below e s) (\<lambda>(_, s'). \<exists>i j n. 1 \<le> n \<and> i + n \<le> j \<and> j + n \<le> m_len s
     \<and> m_len s' = m_len s \<and> content s' = swap_blocks i j n (content s))"
    by (rule afl_rng.switch_effect) (use assms in \<open>auto simp: SIZE_LIMIT_def\<close>)
  then show "safe (mut_switch rand_below e s) (\<lambda>(_, s').
      (\<exists>i j n. 1 \<le> n \<and> i + n \<le> j \<and> j + n \<le> m_len s \<and> content s' = swap_blocks i j n (content s))
      \<and> m_len s' = m_len s \<and> mset (content s') = mset (content s))"
    by (rule safe_mono) (auto simp: mset_swap_blocks len)
  have "safe (mut_shuffle rand_below e s) (\<lambda>(_, s'). fits (length (m_buf s)) (length (m_tmp s)) (m_len s) s'
      \<and> m_len s' = m_len s \<and> mset (content s') = mset (content s))"
    by (rule afl_rng.shuffle_safe) (use assms in \<open>auto simp: fits_def\<close>)
  then show "safe (mut_shuffle rand_below e s) (\<lambda>(_, s').
      m_len s' = m_len s \<and> mset (content s') = mset (content s))"
    by (rule safe_mono) auto
qed

theorem switch_and_shuffle_permute_witness:
  "safe (mut_shuffle rand_below demo_env demo) (\<lambda>(_, s').
      m_len s' = m_len demo \<and> mset (content s') = mset (content demo))"
  by (rule conjunct2 [OF switch_and_shuffle_permute]) (simp_all add: demo_simps)

text \<open>
  \<open>MUT_INSERTASCIINUM\<close> overwrites one to eight bytes of the test case with decimal digits
  and changes nothing else; it does not insert, as its name says.
\<close>

theorem insertasciinum_overwrites_digits:
  assumes "0 < m_len s" "m_len s \<le> length (m_buf s)" "m_len s \<le> SIZE_LIMIT"
  shows "safe (mut_insertasciinum rand_below rand_next s) (\<lambda>(_, s'). m_len s' = m_len s \<and>
     (content s' = content s \<or> (\<exists>p ds. 1 \<le> length ds \<and> length ds \<le> 8 \<and> list_all isdigit ds
        \<and> p + length ds \<le> m_len s
        \<and> content s' = take p (content s) @ ds @ drop (p + length ds) (content s))))"
  using assms by (rule afl_rng.insertasciinum_effect)

theorem insertasciinum_overwrites_digits_witness:
  "safe (mut_insertasciinum rand_below rand_next demo) (\<lambda>(_, s'). m_len s' = m_len demo \<and>
     (content s' = content demo \<or> (\<exists>p ds. 1 \<le> length ds \<and> length ds \<le> 8 \<and> list_all isdigit ds
        \<and> p + length ds \<le> m_len demo
        \<and> content s' = take p (content demo) @ ds @ drop (p + length ds) (content demo))))"
  by (rule insertasciinum_overwrites_digits) (simp_all add: demo_simps)

text \<open>
  \<open>MUT_ASCIINUM\<close> writes at most the first seven characters of the new number: it passes
  the size of a pointer to \<open>snprintf\<close>. The value 123456789 comes out as 1234567.
\<close>

theorem asciinum_truncates_number:
  assumes "fits B T L s" "L \<le> SIZE_LIMIT" "L + 6 \<le> B" "L + 6 \<le> T" "off < off2" "off2 \<le> m_len s"
  shows "safe (replace_number off off2 123456789 (s :: rng mst)) (\<lambda>s'.
     content s' = take off (content s) @ map (\<lambda>d. 48 + d) [1, 2, 3, 4, 5, 6, 7] @ drop off2 (content s))"
proof -
  have "dec_s64 123456789 = map (\<lambda>d. 48 + d) [1, 2, 3, 4, 5, 6, 7, 8, 9]"
    by (simp add: dec_s64_def dec_nat.simps)
  then have "take 7 (dec_s64 123456789) = map (\<lambda>d. 48 + d) [1, 2, 3, 4, 5, 6, 7]" by simp
  then show ?thesis
    using afl_rng.replace_number_safe [OF assms, of 123456789] by (auto elim: safe_mono)
qed

theorem asciinum_truncates_number_witness:
  "safe (replace_number 2 4 123456789 demo) (\<lambda>s'.
     content s' = take 2 (content demo) @ map (\<lambda>d. 48 + d) [1, 2, 3, 4, 5, 6, 7] @ drop 4 (content demo))"
  by (rule asciinum_truncates_number [where B = 16 and T = 16 and L = 8]) (simp_all add: demo_simps)

end
