(* ===== verification/AFL_Words.thy ===== *)
theory AFL_Words
  imports AFL_Bytes
begin

text \<open>
  Words read and written through pointers of another width. \<open>chunks\<close> is the array of narrower
  words that lie at the address of a word, least significant first as on the x86 hosts of the
  fuzzer; \<open>unchunks\<close> is the word at the address of an array. \<open>load_word\<close> and \<open>store_word\<close> access a byte
  buffer through a \<open>u32 *\<close> or \<open>u64 *\<close>, according to their type. They are generic in the word type because
  the coverage code exists in a 32-bit and a 64-bit version that differ in it alone.
\<close>

definition chunks :: "'a::len word \<Rightarrow> 'b::len word list" where
  "chunks w = map (\<lambda>k. ucast (drop_bit (LENGTH('b) * k) w)) [0..<LENGTH('a) div LENGTH('b)]"

definition unchunks :: "'b::len word list \<Rightarrow> 'a::len word" where
  "unchunks cs = foldr (\<lambda>c w. ucast c OR push_bit LENGTH('b) w) cs 0"

definition load_word :: "bytes \<Rightarrow> nat \<Rightarrow> ('w::len) word res" where
  "load_word b i = (let n = LENGTH('w) div 8 in
     if i + n \<le> length b then Inr (unchunks (take n (drop i b))) else Inl Fault)"

definition store_word :: "bytes \<Rightarrow> nat \<Rightarrow> ('w::len) word \<Rightarrow> bytes res" where
  "store_word b i v = (let n = LENGTH('w) div 8 in
     if i + n \<le> length b then Inr (take i b @ chunks v @ drop (i + n) b) else Inl Fault)"

lemma u8_bound: "unat (b :: u8) < 256"
proof -
  have "unat b < 2 ^ LENGTH(8)" by (rule unsigned_less)
  then show ?thesis by simp
qed

lemma u16_bound: "unat (h :: u16) < 65536"
proof -
  have "unat h < 2 ^ LENGTH(16)" by (rule unsigned_less)
  then show ?thesis by simp
qed

lemma u8_bit_beyond [simp]: "\<not> bit (b :: u8) (8 + n)"
  using bit_imp_le_length [of b "8 + n"] by auto

lemma unat_low_byte: "unat (ucast (h :: u16) :: u8) = unat h mod 256"
  by (simp add: unsigned_ucast_eq take_bit_eq_mod)

lemma unat_high_byte: "unat (ucast (drop_bit 8 (h :: u16)) :: u8) = unat h div 256"
  using u16_bound [of h] by (simp add: unsigned_ucast_eq take_bit_eq_mod drop_bit_eq_div unat_div)

lemma u8_and_255 [simp]: "(c :: u8) AND 255 = c" "255 AND c = c"
proof -
  have "(255 :: u8) = - 1" by simp
  then show "c AND 255 = c" "255 AND c = c"
    by (simp_all only: and.right_neutral and.left_neutral)
qed

lemma length_chunks [simp]: "length (chunks (w :: 'a::len word) :: 'b::len word list) = LENGTH('a) div LENGTH('b)"
  by (simp add: chunks_def)

lemma nth_chunks: "k < LENGTH('a) div LENGTH('b) \<Longrightarrow>
    (chunks (w :: 'a::len word) :: 'b::len word list) ! k = ucast (drop_bit (LENGTH('b) * k) w)"
  by (simp add: chunks_def)

lemma unchunks_simps [simp]:
  "unchunks [] = 0"
  "unchunks ((c :: 'b::len word) # cs) = ucast c OR push_bit LENGTH('b) (unchunks cs)"
  by (simp_all add: unchunks_def)

lemma bit_unchunks:
  "bit (unchunks (cs :: 'b::len word list) :: 'a::len word) n \<longleftrightarrow>
     n < LENGTH('a) \<and> n < LENGTH('b) * length cs \<and> bit (cs ! (n div LENGTH('b))) (n mod LENGTH('b))"
proof (induction cs arbitrary: n)
  case (Cons c cs)
  show ?case
  proof (cases "n < LENGTH('b)")
    case True
    then show ?thesis by (auto simp: bit_simps)
  next
    case False
    then obtain m where m: "n = LENGTH('b) + m" using le_Suc_ex not_less by blast
    have "\<not> bit c n" using False by (meson bit_imp_le_length)
    then have "bit (unchunks (c # cs) :: 'a word) n \<longleftrightarrow> n < LENGTH('a) \<and> bit (unchunks cs :: 'a word) m"
      by (simp add: m bit_simps)
    also have "\<dots> \<longleftrightarrow> n < LENGTH('a) \<and> m < LENGTH('b) * length cs
        \<and> bit (cs ! (m div LENGTH('b))) (m mod LENGTH('b))"
      by (auto simp: Cons m)
    finally show ?thesis unfolding m by (simp add: div_add_self1)
  qed
qed simp

lemma chunks_unchunks [simp]:
  assumes "LENGTH('b) * length cs = LENGTH('a)"
  shows "chunks (unchunks (cs :: 'b::len word list) :: 'a::len word) = cs"
proof (rule nth_equalityI)
  have len: "length cs = LENGTH('a) div LENGTH('b)" by (simp flip: assms)
  then show "length (chunks (unchunks cs :: 'a word) :: 'b word list) = length cs" by simp
  fix k assume "k < length (chunks (unchunks cs :: 'a word) :: 'b word list)"
  then have k: "k < length cs" by (simp add: len)
  have "LENGTH('b) * k + m < LENGTH('a)" if "m < LENGTH('b)" for m
  proof -
    have "LENGTH('b) * k + m < LENGTH('b) * Suc k" using that by simp
    also have "\<dots> \<le> LENGTH('b) * length cs" using k by (intro mult_le_mono2) simp
    also have "\<dots> = LENGTH('a)" by (rule assms)
    finally show ?thesis .
  qed
  then show "(chunks (unchunks cs :: 'a word) :: 'b word list) ! k = cs ! k"
    using k by (intro bit_word_eqI) (auto simp: nth_chunks len [symmetric] bit_simps bit_unchunks assms add.commute)
qed

lemma unchunks_chunks [simp]:
  assumes "LENGTH('b) dvd LENGTH('a)"
  shows "unchunks (chunks (w :: 'a::len word) :: 'b::len word list) = w"
proof (rule bit_word_eqI)
  fix n assume n: "n < LENGTH('a)"
  then have "n div LENGTH('b) < LENGTH('a) div LENGTH('b)" using assms
    by (simp add: div_less_iff_less_mult)
  with n assms show "bit (unchunks (chunks w :: 'b word list) :: 'a word) n \<longleftrightarrow> bit w n"
    by (simp add: bit_unchunks nth_chunks bit_simps)
qed

lemma unchunks_eq_0_iff:
  assumes "LENGTH('b) * length cs \<le> LENGTH('a)"
  shows "(unchunks (cs :: 'b::len word list) :: 'a::len word) = 0 \<longleftrightarrow> (\<forall>c \<in> set cs. c = 0)"
  using assms
proof (induction cs)
  case (Cons c cs)
  have "LENGTH('b) + LENGTH('b) * length cs \<le> LENGTH('a)" using Cons.prems by simp
  then have le: "LENGTH('b) \<le> LENGTH('a)" "LENGTH('b) * length cs \<le> LENGTH('a) - LENGTH('b)" by linarith+
  have "(ucast c OR push_bit LENGTH('b) (unchunks cs) :: 'a word) = 0
      \<longleftrightarrow> (ucast c :: 'a word) = 0 \<and> (push_bit LENGTH('b) (unchunks cs) :: 'a word) = 0"
    by (rule or_eq_0_iff)
  also have "(ucast c :: 'a word) = 0 \<longleftrightarrow> c = 0"
  proof
    assume "(ucast c :: 'a word) = 0"
    then have z: "\<not> bit (ucast c :: 'a word) n" for n by simp
    show "c = 0"
    proof (rule bit_word_eqI)
      fix n assume "n < LENGTH('b)"
      then show "bit c n \<longleftrightarrow> bit 0 n" using z [of n] le(1) by (simp add: bit_simps)
    qed
  qed simp
  also have "(push_bit LENGTH('b) (unchunks cs) :: 'a word) = 0 \<longleftrightarrow> (unchunks cs :: 'a word) = 0"
  proof
    assume "(push_bit LENGTH('b) (unchunks cs) :: 'a word) = 0"
    then have z: "\<not> bit (push_bit LENGTH('b) (unchunks cs) :: 'a word) n" for n by simp
    show "(unchunks cs :: 'a word) = 0"
    proof (rule bit_word_eqI)
      fix n assume "n < LENGTH('a)"
      show "bit (unchunks cs :: 'a word) n \<longleftrightarrow> bit (0 :: 'a word) n"
      proof (cases "n < LENGTH('b) * length cs")
        case True
        then have "LENGTH('b) + n < LENGTH('a)" using le by linarith
        then show ?thesis using z [of "LENGTH('b) + n"] by (simp add: bit_simps)
      qed (simp add: bit_unchunks)
    qed
  qed simp
  finally show ?case using Cons.IH le by simp
qed simp

lemma chunks_and: "(chunks (v AND w) :: 'b::len word list) = map2 (AND) (chunks v) (chunks w)"
  by (rule nth_equalityI) (auto simp: nth_chunks intro!: bit_word_eqI simp: bit_simps)

lemma chunks_not: "LENGTH('b) dvd LENGTH('a) \<Longrightarrow> (chunks (NOT (w :: 'a::len word)) :: 'b::len word list) = map NOT (chunks w)"
proof (rule nth_equalityI)
  fix k assume dvd: "LENGTH('b) dvd LENGTH('a)"
    and "k < length (chunks (NOT w) :: 'b word list)"
  then have k: "k < LENGTH('a) div LENGTH('b)" by simp
  have "LENGTH('b) * k + m < LENGTH('a)" if "m < LENGTH('b)" for m
  proof -
    have "LENGTH('b) * k + m < LENGTH('b) * Suc k" using that by simp
    also have "\<dots> \<le> LENGTH('b) * (LENGTH('a) div LENGTH('b))" using k by (intro mult_le_mono2) simp
    finally show ?thesis using dvd by simp
  qed
  with k show "(chunks (NOT w) :: 'b word list) ! k = map NOT (chunks w) ! k"
    by (auto simp: nth_chunks intro!: bit_word_eqI simp: bit_simps add.commute)
qed simp

text \<open>A word as bytes, through its halves of 16 bits.\<close>

lemma byte_of_half:
  assumes "16 dvd LENGTH('w)" "j < LENGTH('w) div 16" "r < 2"
  shows "(chunks (w :: 'w::len word) :: u8 list) ! (2 * j + r) = ucast (drop_bit (8 * r) ((chunks w :: u16 list) ! j))"
proof -
  from assms(1) obtain q where q: "LENGTH('w) = 16 * q" by (elim dvdE)
  have r: "r = 0 \<or> r = 1" using assms(3) by auto
  with assms(2) q have "2 * j + r < LENGTH('w) div 8" by auto
  then show ?thesis
    using assms(2) r by (intro bit_word_eqI) (auto simp: nth_chunks bit_simps algebra_simps)
qed

section \<open>Arithmetic on words, chunk by chunk\<close>

definition digits :: "'b::len word list \<Rightarrow> nat" where
  "digits cs = foldr (\<lambda>c n. unat c + 2 ^ LENGTH('b) * n) cs 0"

lemma digits_simps [simp]:
  "digits [] = 0" "digits ((c :: 'b::len word) # cs) = unat c + 2 ^ LENGTH('b) * digits cs"
  by (simp_all add: digits_def)

lemma digits_bound: "digits (cs :: 'b::len word list) < 2 ^ (LENGTH('b) * length cs)"
proof (induction cs)
  case (Cons c cs)
  have "unat c < 2 ^ LENGTH('b)" by (rule unsigned_less)
  then have "unat c + 2 ^ LENGTH('b) * digits cs < 2 ^ LENGTH('b) * Suc (digits cs)" by simp
  also have "\<dots> \<le> 2 ^ LENGTH('b) * 2 ^ (LENGTH('b) * length cs)"
    using Cons by (intro mult_le_mono2) simp
  finally show ?case by (simp add: power_add)
qed simp

lemma unat_unchunks:
  assumes "LENGTH('b) * length cs \<le> LENGTH('a)"
  shows "unat (unchunks (cs :: 'b::len word list) :: 'a::len word) = digits cs"
  using assms
proof (induction cs)
  case (Cons c cs)
  let ?u = "unchunks cs :: 'a word"
  have b: "LENGTH('b) + LENGTH('b) * length cs \<le> LENGTH('a)" using Cons.prems by simp
  have bound: "digits (c # cs) < 2 ^ LENGTH('a)"
  proof -
    have "(2 :: nat) ^ (LENGTH('b) * length (c # cs)) \<le> 2 ^ LENGTH('a)" using b by (intro power_increasing) simp_all
    with digits_bound [of "c # cs"] show ?thesis by (rule less_le_trans)
  qed
  have u: "unat ?u = digits cs" using Cons b by simp
  have c: "unat (ucast c :: 'a word) = unat c"
    using bound by (simp add: unsigned_ucast_eq take_bit_nat_eq_self_iff)
  have p: "unat (push_bit LENGTH('b) ?u) = 2 ^ LENGTH('b) * digits cs"
    unfolding unsigned_push_bit_eq u
    using bound by (simp add: take_bit_nat_eq_self_iff push_bit_eq_mult mult.commute)
  have "unat (ucast c OR push_bit LENGTH('b) ?u) = unat c OR push_bit LENGTH('b) (digits cs)"
    unfolding unsigned_or_eq c p by (simp add: push_bit_eq_mult mult.commute)
  also have "\<dots> = unat c + push_bit LENGTH('b) (digits cs)"
    by (rule disjunctive_add_eq_or [symmetric], rule bit_eqI)
      (auto simp: bit_simps dest: bit_imp_le_length)
  finally show ?case by (simp add: push_bit_eq_mult mult.commute)
qed simp

lemma chunks_eqD:
  assumes "LENGTH('b) dvd LENGTH('a)" "chunks (x :: 'a::len word) = (cs :: 'b::len word list)"
  shows "x = unchunks cs" "unat x = digits cs"
proof -
  show x: "x = unchunks cs" using assms by (simp flip: assms(2))
  have "length cs = LENGTH('a) div LENGTH('b)" by (simp flip: assms(2))
  then show "unat x = digits cs" unfolding x by (intro unat_unchunks) simp
qed

lemma chunks_eqI:
  assumes "LENGTH('b) dvd LENGTH('a)" "length cs = LENGTH('a) div LENGTH('b)" "unat x = digits cs"
  shows "chunks (x :: 'a::len word) = (cs :: 'b::len word list)"
proof -
  have l: "LENGTH('b) * length cs = LENGTH('a)" using assms by simp
  then have "x = unchunks cs" by (intro word_unat_eq_iff [THEN iffD2]) (simp add: unat_unchunks assms(3))
  then show ?thesis using l by simp
qed

lemma digits_add:
  "length cs = length ds \<Longrightarrow> (\<forall>i < length cs. unat (cs ! i) + unat (ds ! i) < 2 ^ LENGTH('b)) \<Longrightarrow>
    digits (map2 (+) (cs :: 'b::len word list) ds) = digits cs + digits ds"
proof (induction cs ds rule: list_induct2)
  case (Cons c cs d ds)
  from Cons.prems have "unat c + unat d < 2 ^ LENGTH('b)" by auto
  then have "unat (c + d) = unat c + unat d" by (simp add: unat_word_ariths)
  moreover have "\<forall>i < length cs. unat (cs ! i) + unat (ds ! i) < 2 ^ LENGTH('b)"
    using Cons.prems by auto
  ultimately show ?case using Cons.IH by (simp add: algebra_simps)
qed simp

lemma chunks_add:
  assumes "LENGTH('b) dvd LENGTH('a)"
    and "\<forall>i < LENGTH('a) div LENGTH('b). unat ((chunks x :: 'b word list) ! i) + unat ((chunks y :: 'b word list) ! i) < 2 ^ LENGTH('b)"
  shows "(chunks (x + y :: 'a::len word) :: 'b::len word list) = map2 (+) (chunks x) (chunks y)"
proof (rule chunks_eqI [OF assms(1)])
  let ?x = "chunks x :: 'b word list" and ?y = "chunks y :: 'b word list"
  have s: "digits (map2 (+) ?x ?y) = digits ?x + digits ?y" using assms(2) by (intro digits_add) simp_all
  have u: "unat x = digits ?x" "unat y = digits ?y" using assms(1) by (auto intro: chunks_eqD(2))
  then have "unat x + unat y < 2 ^ LENGTH('a)"
    using digits_bound [of "map2 (+) ?x ?y"] assms(1) s by simp
  then show "unat (x + y) = digits (map2 (+) ?x ?y)"
    by (simp add: s u unat_word_ariths)
qed simp

lemma chunks_sub:
  assumes "LENGTH('b) dvd LENGTH('a)"
    and "\<forall>i < LENGTH('a) div LENGTH('b). (chunks y :: 'b word list) ! i \<le> (chunks x :: 'b word list) ! i"
  shows "(chunks (x - y :: 'a::len word) :: 'b::len word list) = map2 (-) (chunks x) (chunks y)"
proof -
  let ?x = "chunks x :: 'b word list" and ?y = "chunks y :: 'b word list" and ?d = "unchunks (map2 (-) (chunks x :: 'b word list) (chunks y)) :: 'a word"
  have d: "chunks ?d = map2 (-) ?x ?y" using assms(1) by (intro chunks_unchunks) simp
  have "unat (a - b) + unat b = unat a" if "b \<le> a" for a b :: "'b word"
    using that by (simp add: unat_sub word_le_nat_alt)
  then have "\<forall>i < LENGTH('a) div LENGTH('b). unat (map2 (-) ?x ?y ! i) + unat (?y ! i) = unat (?x ! i)"
    using assms(2) by simp
  then have "chunks (?d + y) = map2 (+) (map2 (-) ?x ?y) ?y"
    by (subst chunks_add [OF assms(1)]) (simp_all add: d)
  also have "\<dots> = ?x" by (rule nth_equalityI) simp_all
  finally have "?d + y = x" using chunks_eqD(1) [OF assms(1)] by (metis unchunks_chunks assms(1))
  then have "x - y = ?d" by (metis add_diff_cancel_right')
  then show ?thesis using d by simp
qed

section \<open>Words of four bytes\<close>

lemma word_bytes4:
  obtains b0 b1 b2 b3 :: u8 where "chunks (v :: u32) = [b0, b1, b2, b3]" "v = unchunks [b0, b1, b2, b3]"
proof -
  have "length (chunks v :: u8 list) = 4" by simp
  then obtain b0 b1 b2 b3 :: u8 where "chunks v = [b0, b1, b2, b3]"
    by (auto simp: numeral_eq_Suc length_Suc_conv simp del: length_chunks)
  then show ?thesis using that chunks_eqD(1) [of v "[b0, b1, b2, b3]"] by simp
qed

text \<open>The four masks of the counters select the four bytes.\<close>

lemma byte_masks:
  "chunks (0x000000ff :: u32) = [255 :: u8, 0, 0, 0]" "chunks (0x0000ff00 :: u32) = [0, 255 :: u8, 0, 0]"
  "chunks (0x00ff0000 :: u32) = [0, 0, 255 :: u8, 0]" "chunks (0xff000000 :: u32) = [0, 0, 0, 255 :: u8]"
  "chunks (0xffffffff :: u32) = [255 :: u8, 255, 255, 255]" "chunks (0 :: u32) = [0 :: u8, 0, 0, 0]"
  by (rule chunks_eqI; simp)+

lemma chunks_eq_iff: "(x :: u32) = y \<longleftrightarrow> (chunks x :: u8 list) = chunks y"
proof
  assume "(chunks x :: u8 list) = chunks y"
  then have "unchunks (chunks x :: u8 list) = (unchunks (chunks y :: u8 list) :: u32)" by simp
  then show "x = y" by simp
qed simp

end
