(* ===== verification/AFL_Coverage.thy ===== *)
theory AFL_Coverage
  imports AFL_Words
begin

text \<open>
  The coverage bitmap: \<^verbatim>\<open>src/afl-fuzz-bitmap.c\<close> with \<^verbatim>\<open>include/coverage-64.h\<close> and
  \<^verbatim>\<open>include/coverage-32.h\<close>. The two headers are the same code on words of 64 and 32 bits, so the
  operations take the word type as their first argument: \<open>TYPE(64)\<close> is \<^verbatim>\<open>coverage-64.h\<close>,
  \<open>TYPE(32)\<close> is \<^verbatim>\<open>coverage-32.h\<close>. This theory holds the state and the operations.
\<close>

section \<open>State\<close>

record cov =
  trace_bits :: bytes
  map_size :: nat
  real_map_size :: nat
  virgin_bits :: bytes
  virgin_tmout :: bytes
  virgin_crash :: bytes
  bitmap_changed :: bool
  count_class_lookup16 :: "u16 list"

text \<open>\<open>has_new_bits\<close> gets a pointer to one of the three virgin maps and compares it with the first.\<close>

datatype virgin_map = Virgin_Bits | Virgin_Tmout | Virgin_Crash

fun get_virgin :: "virgin_map \<Rightarrow> cov \<Rightarrow> bytes" where
  "get_virgin Virgin_Bits s = virgin_bits s"
| "get_virgin Virgin_Tmout s = virgin_tmout s"
| "get_virgin Virgin_Crash s = virgin_crash s"

fun set_virgin :: "virgin_map \<Rightarrow> bytes \<Rightarrow> cov \<Rightarrow> cov" where
  "set_virgin Virgin_Bits v s = s\<lparr>virgin_bits := v\<rparr>"
| "set_virgin Virgin_Tmout v s = s\<lparr>virgin_tmout := v\<rparr>"
| "set_virgin Virgin_Crash v s = s\<lparr>virgin_crash := v\<rparr>"

section \<open>Counters over a map\<close>

definition popcount32 :: "u32 \<Rightarrow> u32" where
  "popcount32 v =
     (let v = v - (drop_bit 1 v AND 0x55555555);
          v = (v AND 0x33333333) + (drop_bit 2 v AND 0x33333333)
      in drop_bit 24 (((v + drop_bit 4 v) AND 0xF0F0F0F) * 0x01010101))"

definition map_words :: "nat \<Rightarrow> nat" where
  "map_words real_size = u32_add real_size 3 div 4"

definition count_bits :: "nat \<Rightarrow> bytes \<Rightarrow> u32 res" where
  "count_bits real_size mem =
     count_loop (map_words real_size) 0 (\<lambda>k ret.
       ebind (load_word mem (4 * k)) (\<lambda>v :: u32.
         if v = 0xffffffff then Inr (ret + 32) else Inr (ret + popcount32 v))) 0"

definition count_bytes :: "nat \<Rightarrow> bytes \<Rightarrow> u32 res" where
  "count_bytes real_size mem =
     count_loop (map_words real_size) 0 (\<lambda>k ret.
       ebind (load_word mem (4 * k)) (\<lambda>v :: u32.
         if v = 0 then Inr ret else
         let ret = if v AND 0x000000ff \<noteq> 0 then ret + 1 else ret;
             ret = if v AND 0x0000ff00 \<noteq> 0 then ret + 1 else ret;
             ret = if v AND 0x00ff0000 \<noteq> 0 then ret + 1 else ret;
             ret = if v AND 0xff000000 \<noteq> 0 then ret + 1 else ret
         in Inr ret)) 0"

definition count_non_255_bytes :: "nat \<Rightarrow> bytes \<Rightarrow> u32 res" where
  "count_non_255_bytes real_size mem =
     count_loop (map_words real_size) 0 (\<lambda>k ret.
       ebind (load_word mem (4 * k)) (\<lambda>v :: u32.
         if v = 0xffffffff then Inr ret else
         let ret = if v AND 0x000000ff \<noteq> 0x000000ff then ret + 1 else ret;
             ret = if v AND 0x0000ff00 \<noteq> 0x0000ff00 then ret + 1 else ret;
             ret = if v AND 0x00ff0000 \<noteq> 0x00ff0000 then ret + 1 else ret;
             ret = if v AND 0xff000000 \<noteq> 0xff000000 then ret + 1 else ret
         in Inr ret)) 0"

section \<open>Lookup tables\<close>

definition simplify_lookup :: "u8 list" where
  "simplify_lookup = 1 # replicate 255 128"

definition count_class_lookup8 :: "u8 list" where
  "count_class_lookup8 = [0, 1, 2, 4] @ replicate 4 8 @ replicate 8 16 @ replicate 16 32
     @ replicate 96 64 @ replicate 128 128"

text \<open>The table for two counters at once, filled at start-up.\<close>

definition init_class_entry :: "nat \<Rightarrow> nat \<Rightarrow> u16 list \<Rightarrow> u16 list res" where
  "init_class_entry b1 b2 tbl =
     (let i = b1 * 2 ^ 8 + b2 in
      if i < length tbl
      then Inr (tbl[i := push_bit 8 (ucast (count_class_lookup8 ! b1)) OR ucast (count_class_lookup8 ! b2)])
      else Inl Fault)"

definition init_count_class16 :: "cov \<Rightarrow> cov res" where
  "init_count_class16 s =
     ebind (count_loop 256 0 (\<lambda>b1. count_loop 256 0 (\<lambda>b2. init_class_entry b1 b2)) (count_class_lookup16 s))
       (\<lambda>tbl. Inr (s\<lparr>count_class_lookup16 := tbl\<rparr>))"

section \<open>Word operations of the coverage headers\<close>

definition classify_word :: "u16 list \<Rightarrow> 'w::len word \<Rightarrow> 'w word" where
  "classify_word tbl word =
     (let mem16 = chunks word :: u16 list in unchunks (map (\<lambda>h. tbl ! unat h) mem16))"

definition simplify_word :: "'w::len word \<Rightarrow> 'w word" where
  "simplify_word w =
     (if w \<noteq> 0 then unchunks (map (\<lambda>b :: u8. simplify_lookup ! unat b) (chunks w))
      else unchunks (replicate (LENGTH('w) div 8) (0x01 :: u8)))"

definition simplify_trace :: "'w::len itself \<Rightarrow> nat \<Rightarrow> bytes \<Rightarrow> bytes res" where
  "simplify_trace _ sz mem =
     (let W = LENGTH('w) div 8 in
      count_loop (sz div W) 0 (\<lambda>k mem.
        ebind (load_word mem (W * k)) (\<lambda>w :: 'w word. store_word mem (W * k) (simplify_word w))) mem)"

definition classify_counts :: "'w::len itself \<Rightarrow> cov \<Rightarrow> cov res" where
  "classify_counts _ s =
     (let W = LENGTH('w) div 8 in
      ebind (count_loop (map_size s div W) 0 (\<lambda>k mem.
          ebind (load_word mem (W * k)) (\<lambda>w :: 'w word.
            if w \<noteq> 0 then store_word mem (W * k) (classify_word (count_class_lookup16 s) w)
            else Inr mem)) (trace_bits s))
        (\<lambda>mem. Inr (s\<lparr>trace_bits := mem\<rparr>)))"

text \<open>\<open>discover_word\<close> returns the new values of \<open>*ret\<close> and \<open>*virgin\<close>.\<close>

definition discover_word :: "nat \<Rightarrow> 'w::len word \<Rightarrow> 'w word \<Rightarrow> nat \<times> 'w word" where
  "discover_word ret current virgin =
     (if current AND virgin \<noteq> 0 then
        (if ret < 2 then
           let cur = chunks current :: u8 list; vir = chunks virgin :: u8 list in
           if list_ex (\<lambda>k. cur ! k \<noteq> 0 \<and> vir ! k = 0xff) [0..<LENGTH('w) div 8] then 2 else 1
         else ret,
         virgin AND NOT current)
      else (ret, virgin))"

definition skim_word :: "u16 list \<Rightarrow> 'w::len itself \<Rightarrow> bytes \<Rightarrow> bytes \<Rightarrow> nat \<Rightarrow> bool res" where
  "skim_word tbl _ virgin current off =
     ebind (load_word current off) (\<lambda>c :: 'w word.
       if c \<noteq> 0 then ebind (load_word virgin off) (\<lambda>v. Inr (classify_word tbl c AND v \<noteq> 0))
       else Inr False)"

text \<open>One pass of the loop looks at four words; \<open>n\<close> is the number of passes left.\<close>

primrec skim_from :: "u16 list \<Rightarrow> 'w::len itself \<Rightarrow> bytes \<Rightarrow> bytes \<Rightarrow> nat \<Rightarrow> nat \<Rightarrow> bool res" where
  "skim_from tbl t virgin current 0 off = Inr False"
| "skim_from tbl t virgin current (Suc n) off =
     (let W = LENGTH('w) div 8 in
      ebind (skim_word tbl t virgin current off) (\<lambda>hit0. if hit0 then Inr True else
      ebind (skim_word tbl t virgin current (off + W)) (\<lambda>hit1. if hit1 then Inr True else
      ebind (skim_word tbl t virgin current (off + 2 * W)) (\<lambda>hit2. if hit2 then Inr True else
      ebind (skim_word tbl t virgin current (off + 3 * W)) (\<lambda>hit3. if hit3 then Inr True else
      skim_from tbl t virgin current n (off + 4 * W))))))"

definition skim :: "u16 list \<Rightarrow> 'w::len itself \<Rightarrow> bytes \<Rightarrow> bytes \<Rightarrow> nat \<Rightarrow> bool res" where
  "skim tbl t virgin current sz =
     (let P = 4 * (LENGTH('w) div 8) in skim_from tbl t virgin current ((sz + P - 1) div P) 0)"

section \<open>New coverage\<close>

definition has_new_bits :: "'w::len itself \<Rightarrow> virgin_map \<Rightarrow> cov \<Rightarrow> (nat \<times> cov) res" where
  "has_new_bits _ vm s =
     (let W = LENGTH('w) div 8 in
      ebind (count_loop (u32_add (real_map_size s) (W - 1) div W) 0 (\<lambda>k (ret, virgin).
          ebind (load_word (trace_bits s) (W * k)) (\<lambda>current :: 'w word.
            if current \<noteq> 0 then
              ebind (load_word virgin (W * k)) (\<lambda>v.
                let (ret, v) = discover_word ret current v in
                ebind (store_word virgin (W * k) v) (\<lambda>virgin. Inr (ret, virgin)))
            else Inr (ret, virgin))) (0, get_virgin vm s))
        (\<lambda>(ret, virgin).
           let s = set_virgin vm virgin s in
           Inr (ret, if ret \<noteq> 0 \<and> vm = Virgin_Bits then s\<lparr>bitmap_changed := True\<rparr> else s)))"

definition has_new_bits_unclassified :: "'w::len itself \<Rightarrow> virgin_map \<Rightarrow> cov \<Rightarrow> (nat \<times> cov) res" where
  "has_new_bits_unclassified t vm s =
     ebind (skim (count_class_lookup16 s) t (get_virgin vm s) (trace_bits s) (map_size s)) (\<lambda>hit.
       if \<not> hit then Inr (0, s)
       else ebind (classify_counts t s) (has_new_bits t vm))"

definition minimize_bits :: "nat \<Rightarrow> bytes \<Rightarrow> bytes \<Rightarrow> bytes res" where
  "minimize_bits sz dst src =
     count_loop sz 0 (\<lambda>i dst.
       ebind (load8 src i) (\<lambda>b.
         if b \<noteq> 0
         then ebind (load8 dst (i div 8)) (\<lambda>d. store8 dst (i div 8) (d OR push_bit (i AND 7) 1))
         else Inr dst)) dst"

section \<open>The 32-bit header\<close>

definition classify_word32 :: "u16 list \<Rightarrow> u32 \<Rightarrow> u32" where
  "classify_word32 = classify_word"

definition simplify_trace32 :: "nat \<Rightarrow> bytes \<Rightarrow> bytes res" where
  "simplify_trace32 = simplify_trace TYPE(32)"

definition classify_counts32 :: "cov \<Rightarrow> cov res" where
  "classify_counts32 = classify_counts TYPE(32)"

definition discover_word32 :: "nat \<Rightarrow> u32 \<Rightarrow> u32 \<Rightarrow> nat \<times> u32" where
  "discover_word32 = discover_word"

definition skim32 :: "u16 list \<Rightarrow> bytes \<Rightarrow> bytes \<Rightarrow> nat \<Rightarrow> bool res" where
  "skim32 tbl = skim tbl TYPE(32)"

lemmas header32_defs = classify_word32_def simplify_trace32_def classify_counts32_def
  discover_word32_def skim32_def

end
