(* ===== verification/AFL_CoverageLemmas.thy ===== *)
theory AFL_CoverageLemmas
  imports AFL_Coverage
begin

text \<open>
  The coverage operations byte by byte. The code works on words, through tables of 16-bit
  entries and with shortcuts for words that are zero; here each operation is reduced to a
  function of single counters, which is the same for both word widths.
\<close>

section \<open>Counters\<close>

definition class8 :: "u8 \<Rightarrow> u8" where
  "class8 b = count_class_lookup8 ! unat b"

definition unseen :: "u8 \<Rightarrow> u8 \<Rightarrow> u8" where
  "unseen v c = v AND NOT c"

text \<open>What one counter \<open>c\<close> brings to the virgin byte \<open>v\<close>, and a trace to a virgin map.\<close>

definition novelty8 :: "u8 \<Rightarrow> u8 \<Rightarrow> nat" where
  "novelty8 c v = (if c \<noteq> 0 \<and> v = 255 then 2 else if c AND v \<noteq> 0 then 1 else 0)"

definition novelty :: "bytes \<Rightarrow> bytes \<Rightarrow> nat" where
  "novelty cs vs = foldr max (map2 novelty8 cs vs) 0"

lemma novelty_simps [simp]:
  "novelty [] vs = 0" "novelty (c # cs) (v # vs) = max (novelty8 c v) (novelty cs vs)"
  by (simp_all add: novelty_def)

lemma novelty_append:
  "length cs = length vs \<Longrightarrow> novelty (cs @ cs') (vs @ vs') = max (novelty cs vs) (novelty cs' vs')"
  by (induction cs vs rule: list_induct2) simp_all

lemma novelty8_le: "novelty8 c v \<le> 2"
  by (simp add: novelty8_def)

lemma novelty_le: "length cs = length vs \<Longrightarrow> novelty cs vs \<le> 2"
  by (induction cs vs rule: list_induct2) (simp_all add: novelty8_le)

lemma novelty_eq_0_iff:
  "length cs = length vs \<Longrightarrow> novelty cs vs = 0 \<longleftrightarrow> (\<forall>i < length cs. cs ! i AND vs ! i = 0)"
proof (induction cs vs rule: list_induct2)
  case (Cons c cs v vs)
  have "c \<noteq> 0 \<Longrightarrow> v = 255 \<Longrightarrow> c AND v \<noteq> 0"
    by simp
  then have "novelty8 c v = 0 \<longleftrightarrow> c AND v = 0" by (auto simp: novelty8_def)
  with Cons.IH show ?case by (auto simp: less_Suc_eq_0_disj)
qed simp

lemma novelty_eq_2_iff:
  "length cs = length vs \<Longrightarrow> novelty cs vs = 2 \<longleftrightarrow> (\<exists>i < length cs. cs ! i \<noteq> 0 \<and> vs ! i = 255)"
proof (induction cs vs rule: list_induct2)
  case (Cons c cs v vs)
  have "max (novelty8 c v) (novelty cs vs) = 2 \<longleftrightarrow> novelty8 c v = 2 \<or> novelty cs vs = 2"
    using novelty8_le [of c v] novelty_le [OF Cons.hyps] by (auto simp: max_def)
  also have "novelty8 c v = 2 \<longleftrightarrow> c \<noteq> 0 \<and> v = 255" by (simp add: novelty8_def)
  finally show ?case using Cons.IH by (auto simp: less_Suc_eq_0_disj)
qed simp

lemma class8_simps [simp]: "class8 0 = 0" "class8 c = 0 \<longleftrightarrow> c = 0"
proof -
  show z: "class8 0 = 0" by (simp add: class8_def count_class_lookup8_def)
  have nz: "0 \<notin> set (tl count_class_lookup8)" by (simp add: count_class_lookup8_def)
  have len: "length (tl count_class_lookup8) = 255" by (simp add: count_class_lookup8_def)
  have "class8 c \<noteq> 0" if "c \<noteq> 0"
  proof -
    from that obtain n where n: "unat c = Suc n" using unat_eq_zero [of c] by (cases "unat c") auto
    with u8_bound [of c] len have "tl count_class_lookup8 ! n \<in> set (tl count_class_lookup8)"
      by (intro nth_mem) simp
    moreover have "class8 c = tl count_class_lookup8 ! n"
      using n u8_bound [of c] len by (simp add: class8_def nth_tl)
    ultimately show ?thesis using nz by auto
  qed
  with z show "class8 c = 0 \<longleftrightarrow> c = 0" by auto
qed

section \<open>The table of counter pairs\<close>

definition class_entry :: "nat \<Rightarrow> nat \<Rightarrow> u16" where
  "class_entry b1 b2 = push_bit 8 (ucast (count_class_lookup8 ! b1)) OR ucast (count_class_lookup8 ! b2)"

definition table_ok :: "u16 list \<Rightarrow> bool" where
  "table_ok tbl \<longleftrightarrow> length tbl = 65536 \<and> (\<forall>b1 < 256. \<forall>b2 < 256. tbl ! (b1 * 256 + b2) = class_entry b1 b2)"

lemma class_row:
  assumes "length tbl = 65536" "b1 < 256"
  shows "\<exists>tbl'. count_loop 256 0 (\<lambda>b2. init_class_entry b1 b2) tbl = Inr tbl' \<and> length tbl' = 65536
     \<and> (\<forall>b2 < 256. tbl' ! (b1 * 256 + b2) = class_entry b1 b2)
     \<and> (\<forall>i. i < b1 * 256 \<longrightarrow> tbl' ! i = tbl ! i)"
proof -
  define I where "I j t \<longleftrightarrow> length t = 65536 \<and> (\<forall>b2 < j. t ! (b1 * 256 + b2) = class_entry b1 b2)
      \<and> (\<forall>i. i < b1 * 256 \<longrightarrow> t ! i = tbl ! i)" for j t
  have "\<exists>t'. init_class_entry b1 j t = Inr t' \<and> I (Suc j) t'" if "j < 256" "I j t" for j t
  proof -
    have "b1 * 256 + j < 65536" using that(1) assms(2) by simp
    with that(2) show ?thesis
      by (auto simp: I_def init_class_entry_def class_entry_def nth_list_update less_Suc_eq)
  qed
  moreover have "I 0 tbl" using assms by (simp add: I_def)
  ultimately have "\<exists>t'. count_loop 256 0 (\<lambda>b2. init_class_entry b1 b2) tbl = Inr t' \<and> I (0 + 256) t'"
    by (intro count_loop_inv) simp_all
  then show ?thesis by (auto simp: I_def)
qed

lemma init_count_class16_ok:
  assumes "length (count_class_lookup16 s) = 65536"
  shows "\<exists>tbl. init_count_class16 s = Inr (s\<lparr>count_class_lookup16 := tbl\<rparr>) \<and> table_ok tbl"
proof -
  define I where "I j t \<longleftrightarrow> length t = 65536 \<and> (\<forall>b1 < j. \<forall>b2 < 256. t ! (b1 * 256 + b2) = class_entry b1 b2)"
    for j and t :: "u16 list"
  have "\<exists>t'. count_loop 256 0 (\<lambda>b2. init_class_entry j b2) t = Inr t' \<and> I (Suc j) t'"
    if "j < 256" "I j t" for j t
  proof -
    from class_row [of t j] that obtain t' where
      t': "count_loop 256 0 (\<lambda>b2. init_class_entry j b2) t = Inr t'" "length t' = 65536"
      "\<forall>b2 < 256. t' ! (j * 256 + b2) = class_entry j b2" "\<forall>i. i < j * 256 \<longrightarrow> t' ! i = t ! i"
      by (auto simp: I_def)
    have "b1 * 256 + b2 < j * 256" if "b1 < j" "b2 < 256" for b1 b2 :: nat
    proof -
      have "b1 * 256 + b2 < Suc b1 * 256" using that(2) by simp
      also have "\<dots> \<le> j * 256" using that(1) by (intro mult_le_mono1) simp
      finally show ?thesis .
    qed
    with t' that(2) show ?thesis by (auto simp: I_def less_Suc_eq)
  qed
  moreover have "I 0 (count_class_lookup16 s)" using assms by (simp add: I_def)
  ultimately have "\<exists>t'. count_loop 256 0 (\<lambda>b1. count_loop 256 0 (\<lambda>b2. init_class_entry b1 b2))
      (count_class_lookup16 s) = Inr t' \<and> I (0 + 256) t'"
    by (intro count_loop_inv [where I = I]) simp_all
  then show ?thesis by (auto simp: init_count_class16_def I_def table_ok_def)
qed

lemma table_lookup:
  assumes "table_ok tbl"
  shows "tbl ! unat (h :: u16) = push_bit 8 (ucast (class8 (ucast (drop_bit 8 h)))) OR ucast (class8 (ucast h))"
proof -
  have h: "unat h < 65536" by (rule u16_bound)
  have "tbl ! (unat h div 256 * 256 + unat h mod 256) = class_entry (unat h div 256) (unat h mod 256)"
  proof -
    have "unat h div 256 < 256" "unat h mod 256 < 256" using h by auto
    with assms show ?thesis unfolding table_ok_def by blast
  qed
  then show ?thesis
    unfolding class8_def class_entry_def unat_high_byte unfolding unat_low_byte by simp
qed

section \<open>Words as eight or four counters\<close>

lemma load_word_ok:
  assumes "8 dvd LENGTH('w)" "i + LENGTH('w) div 8 \<le> length b"
  obtains w :: "'w::len word" where "load_word b i = Inr w" "chunks w = take (LENGTH('w) div 8) (drop i b)"
proof -
  have "LENGTH(8) * length (take (LENGTH('w) div 8) (drop i b)) = LENGTH('w)" using assms by simp
  then show ?thesis using assms by (intro that) (auto simp: load_word_def Let_def)
qed

lemma word_eq_0_iff:
  assumes "8 dvd LENGTH('w)"
  shows "(w :: 'w::len word) = 0 \<longleftrightarrow> (\<forall>b \<in> set (chunks w :: u8 list). b = 0)"
proof -
  have "w = unchunks (chunks w :: u8 list)" using assms by (simp add: unchunks_chunks)
  also have "\<dots> = 0 \<longleftrightarrow> (\<forall>b \<in> set (chunks w :: u8 list). b = 0)"
    by (rule unchunks_eq_0_iff) simp
  finally show ?thesis .
qed

lemma word_and_eq_0_iff:
  assumes "8 dvd LENGTH('w)"
  shows "(v :: 'w::len word) AND w = 0 \<longleftrightarrow>
    (\<forall>k < LENGTH('w) div 8. (chunks v :: u8 list) ! k AND (chunks w :: u8 list) ! k = 0)"
  by (auto simp: word_eq_0_iff [OF assms] chunks_and set_conv_nth)

lemma table_byte:
  assumes "table_ok tbl" "r < 2"
  shows "(ucast (drop_bit (8 * r) (tbl ! unat (h :: u16))) :: u8) = class8 (ucast (drop_bit (8 * r) h))"
proof -
  have "r = 0 \<or> r = 1" using assms(2) by auto
  then show ?thesis
    unfolding table_lookup [OF assms(1)]
    by (auto intro!: bit_word_eqI simp: bit_simps dest: bit_imp_le_length)
qed

lemma classify_word_bytes:
  assumes "table_ok tbl" "16 dvd LENGTH('w)"
  shows "(chunks (classify_word tbl (w :: 'w::len word)) :: u8 list) = map class8 (chunks w)"
proof (rule nth_equalityI)
  let ?w = "classify_word tbl w"
  show "length (chunks ?w :: u8 list) = length (map class8 (chunks w))" by simp
  fix k assume "k < length (chunks ?w :: u8 list)"
  then have k: "k < LENGTH('w) div 8" by simp
  define j r where "j = k div 2" and "r = k mod 2"
  then have kjr: "k = 2 * j + r" and r: "r < 2" by simp_all
  from assms(2) obtain q where q: "LENGTH('w) = 16 * q" by (elim dvdE)
  with k kjr have j: "j < LENGTH('w) div 16" by auto
  have "(chunks ?w :: u16 list) = map (\<lambda>h. tbl ! unat h) (chunks w :: u16 list)"
    unfolding classify_word_def using assms(2) by (simp add: Let_def)
  then have "(chunks ?w :: u16 list) ! j = tbl ! unat ((chunks w :: u16 list) ! j)"
    using j by simp
  then show "(chunks ?w :: u8 list) ! k = map class8 (chunks w) ! k"
    using k j r assms by (simp add: kjr byte_of_half table_byte)
qed

lemma simplify_word_bytes:
  assumes "8 dvd LENGTH('w)"
  shows "(chunks (simplify_word (w :: 'w::len word)) :: u8 list) = map (\<lambda>b :: u8. if b = 0 then 1 else 128) (chunks w)"
proof (cases "w = 0")
  case True
  then have "\<forall>b \<in> set (chunks w :: u8 list). b = 0" using word_eq_0_iff [OF assms, of w] by simp
  then have "map (\<lambda>b. if b = 0 then 1 else 128) (chunks w :: u8 list) = map (\<lambda>_. 1 :: u8) (chunks w :: u8 list)"
    by simp
  also have "\<dots> = replicate (LENGTH('w) div 8) 1" by (simp add: map_replicate_const)
  finally show ?thesis using True assms by (simp add: simplify_word_def)
next
  case False
  have "simplify_lookup ! unat b = (if b = 0 then 1 else 128)" for b :: u8
  proof (cases "b = 0")
    case True
    then show ?thesis by (simp add: simplify_lookup_def)
  next
    case False
    then obtain n where "unat b = Suc n" using unat_eq_zero [of b] by (cases "unat b") auto
    with False u8_bound [of b] show ?thesis by (simp add: simplify_lookup_def)
  qed
  then show ?thesis using False assms by (simp add: simplify_word_def)
qed

lemma discover_word_bytes:
  assumes "8 dvd LENGTH('w)" "ret \<le> 2"
  shows "fst (discover_word ret c v) = max ret (novelty (chunks c) (chunks (v :: 'w::len word)))"
    and "(chunks (snd (discover_word ret c v)) :: u8 list) = map2 unseen (chunks v) (chunks c)"
proof -
  let ?c = "chunks c :: u8 list" and ?v = "chunks v :: u8 list"
  have zero: "c AND v = 0 \<longleftrightarrow> novelty ?c ?v = 0"
    by (simp add: word_and_eq_0_iff [OF assms(1)] novelty_eq_0_iff)
  have two: "list_ex (\<lambda>k. ?c ! k \<noteq> 0 \<and> ?v ! k = 0xff) [0..<LENGTH('w) div 8] \<longleftrightarrow> novelty ?c ?v = 2"
    by (auto simp: novelty_eq_2_iff list_ex_iff)
  have le: "novelty ?c ?v \<le> 2" by (rule novelty_le) simp
  show "fst (discover_word ret c v) = max ret (novelty ?c ?v)"
    using zero two le assms(2) by (auto simp: discover_word_def Let_def)
  have and_not: "(chunks (v AND NOT c) :: u8 list) = map2 unseen ?v ?c"
    by (rule nth_equalityI) (simp_all add: chunks_and chunks_not assms(1) unseen_def)
  have "v AND NOT c = v" if "c AND v = 0"
  proof (rule bit_word_eqI)
    fix n assume "n < LENGTH('w)"
    moreover have "\<not> bit (c AND v) n" using that by simp
    ultimately show "bit (v AND NOT c) n \<longleftrightarrow> bit v n" by (auto simp: bit_simps)
  qed
  then show "(chunks (snd (discover_word ret c v)) :: u8 list) = map2 unseen ?v ?c"
    using and_not by (auto simp: discover_word_def)
qed

section \<open>Loops over a map\<close>

lemma take_chunk: "take (W * Suc j) xs = take (W * j) xs @ take W (drop (W * j) xs)"
  by (simp only: mult_Suc_right add.commute [of W] take_add)

lemma drop_chunk: "drop (W * Suc j) xs = drop W (drop (W * j) xs)"
  by (simp add: add.commute)

text \<open>A loop that replaces each chunk of \<open>W\<close> bytes by the image of its bytes under \<open>f\<close>.\<close>

lemma map_loop:
  assumes step: "\<And>j b. j < n \<Longrightarrow> length b = length mem \<Longrightarrow>
      body j b = Inr (take (W * j) b @ map f (take W (drop (W * j) b)) @ drop (W * j + W) b)"
    and len: "W * n \<le> length mem"
  shows "count_loop n 0 body mem = Inr (map f (take (W * n) mem) @ drop (W * n) mem)"
proof -
  define I where "I j b \<longleftrightarrow> b = map f (take (W * j) mem) @ drop (W * j) mem" for j b
  have "\<exists>b'. body j b = Inr b' \<and> I (Suc j) b'" if "j < n" "I j b" for j b
  proof -
    have "W * Suc j \<le> W * n" using that(1) by (intro mult_le_mono2) simp
    with len have l: "W * j + W \<le> length mem" by simp
    from that(2) l have "take (W * j) b = map f (take (W * j) mem)" "drop (W * j) b = drop (W * j) mem"
      "length b = length mem"
      by (simp_all add: I_def)
    moreover from this have "drop (W * j + W) b = drop (W * Suc j) mem"
      by (metis add.commute drop_chunk drop_drop)
    ultimately show ?thesis
      using step [OF that(1), of b] by (simp add: I_def take_chunk del: mult_Suc_right)
  qed
  moreover have "I 0 mem" by (simp add: I_def)
  ultimately have "\<exists>b'. count_loop n 0 body mem = Inr b' \<and> I (0 + n) b'"
    by (intro count_loop_inv [where I = I]) simp_all
  then show ?thesis by (auto simp: I_def)
qed

text \<open>A loop that adds a number per chunk, the sum of a number per byte.\<close>

lemma sum_loop:
  assumes step: "\<And>j r. j < n \<Longrightarrow> body j r = Inr (r + of_nat (\<Sum>b \<leftarrow> take W (drop (W * j) mem). f b))"
    and len: "W * n \<le> length mem"
  shows "count_loop n 0 body 0 = Inr (of_nat (\<Sum>b \<leftarrow> take (W * n) mem. f b) :: 'w::len word)"
proof -
  define I where "I j r \<longleftrightarrow> r = (of_nat (\<Sum>b \<leftarrow> take (W * j) mem. f b) :: 'w word)" for j r
  have "\<exists>r'. body j r = Inr r' \<and> I (Suc j) r'" if "j < n" "I j r" for j r
    using that step [OF that(1), of r] by (simp add: I_def take_chunk del: mult_Suc_right)
  moreover have "I 0 0" by (simp add: I_def)
  ultimately have "\<exists>r'. count_loop n 0 body 0 = Inr r' \<and> I (0 + n) r'"
    by (intro count_loop_inv [where I = I]) simp_all
  then show ?thesis by (simp add: I_def)
qed

end
