(* ===== verification/AFL_CoverageCount.thy ===== *)
theory AFL_CoverageCount
  imports AFL_CoverageLemmas
begin

text \<open>
  The counters of the status screen: the word-parallel population count of \<open>count_bits\<close> and the
  masks of \<open>count_bytes\<close> and \<open>count_non_255_bytes\<close>, reduced to sums over bytes; and the
  compaction of a trace to one bit per edge.
\<close>

section \<open>Population count\<close>

definition ones :: "'b::len word \<Rightarrow> nat" where
  "ones w = length (filter (bit w) [0..<LENGTH('b)])"

lemma chunks_drop_mask:
  assumes "LENGTH('b) dvd LENGTH('a)" "\<And>i. i < LENGTH('a) div LENGTH('b) \<Longrightarrow> (chunks m :: 'b word list) ! i = mb"
    and "\<And>n. bit mb n \<Longrightarrow> n + d < LENGTH('b)"
  shows "(chunks (drop_bit d x AND m :: 'a::len word) :: 'b::len word list) = map (\<lambda>b. drop_bit d b AND mb) (chunks x)"
proof (rule nth_equalityI)
  fix i assume "i < length (chunks (drop_bit d x AND m) :: 'b word list)"
  then have i: "i < LENGTH('a) div LENGTH('b)" by simp
  show "(chunks (drop_bit d x AND m) :: 'b word list) ! i = map (\<lambda>b. drop_bit d b AND mb) (chunks x) ! i"
  proof (rule bit_word_eqI)
    fix n assume n: "n < LENGTH('b)"
    have "bit ((chunks (drop_bit d x AND m) :: 'b word list) ! i) n \<longleftrightarrow>
        bit x (d + (LENGTH('b) * i + n)) \<and> bit ((chunks m :: 'b word list) ! i) n"
      using i n by (auto simp: nth_chunks bit_simps add.assoc add.left_commute)
    then show "bit ((chunks (drop_bit d x AND m) :: 'b word list) ! i) n \<longleftrightarrow>
        bit (map (\<lambda>b. drop_bit d b AND mb) (chunks x) ! i) n"
      using i n assms(2) [OF i] assms(3) [of n] by (auto simp: nth_chunks bit_simps algebra_simps)
  qed
qed simp

lemma nibble_all: "(\<And>k. k < 16 \<Longrightarrow> P (of_nat k :: 4 word)) \<Longrightarrow> P n"
proof -
  assume P: "\<And>k. k < 16 \<Longrightarrow> P (of_nat k :: 4 word)"
  have "unat n < 2 ^ LENGTH(4)" by (rule unsigned_less)
  with P [of "unat n"] show "P n" by simp
qed

definition pairs4 :: "4 word \<Rightarrow> 4 word" where
  "pairs4 n = n - (drop_bit 1 n AND 5)"

lemma nibble_facts:
  "drop_bit 1 n AND 5 \<le> (n :: 4 word)"
  "unat (pairs4 n AND 3) + unat (drop_bit 2 (pairs4 n) AND 3) = ones n"
  "ones n \<le> 4"
  by (induction n rule: nibble_all; drule less_16_cases;
      auto simp: pairs4_def ones_def upt_rec)+

lemma replicate_8: "replicate 8 x = [x, x, x, x, x, x, x, x]"
  by (simp add: numeral_eq_Suc)

lemma chunk_masks:
  "chunks (0x55555555 :: u32) = replicate 8 (5 :: 4 word)"
  "chunks (0x33333333 :: u32) = replicate 8 (3 :: 4 word)"
  "chunks (0x0F0F0F0F :: u32) = [15 :: 4 word, 0, 15, 0, 15, 0, 15, 0]"
  unfolding replicate_8 by (rule chunks_eqI; simp)+

lemma ones_card: "ones w = card {n. bit w n}"
proof -
  have "{n. bit w n} = set (filter (bit w) [0..<LENGTH('a)])" by (auto dest: bit_imp_le_length)
  then show ?thesis by (simp add: ones_def distinct_card del: set_filter)
qed

lemma ones_unchunks:
  "LENGTH('b) * length cs \<le> LENGTH('a) \<Longrightarrow>
    ones (unchunks (cs :: 'b::len word list) :: 'a::len word) = (\<Sum>c \<leftarrow> cs. ones c)"
proof (induction cs)
  case (Cons c cs)
  let ?u = "unchunks cs :: 'a word"
  have b: "LENGTH('b) + LENGTH('b) * length cs \<le> LENGTH('a)" using Cons.prems by simp
  have ub: "bit ?u n \<Longrightarrow> n < LENGTH('b) * length cs" for n by (simp add: bit_unchunks)
  have "{n. bit (unchunks (c # cs) :: 'a word) n} = {n. bit c n} \<union> (\<lambda>n. LENGTH('b) + n) ` {n. bit ?u n}" (is "?l = ?c \<union> ?i")
  proof (rule set_eqI)
    fix n
    have "n \<in> ?i \<longleftrightarrow> LENGTH('b) \<le> n \<and> bit ?u (n - LENGTH('b))" by (auto simp: image_iff intro!: exI [of _ "n - LENGTH('b)"])
    then show "n \<in> ?l \<longleftrightarrow> n \<in> ?c \<union> ?i"
      using b ub [of "n - LENGTH('b)"] bit_imp_le_length [of c n] by (auto simp: bit_simps)
  qed
  moreover have "?c \<inter> ?i = {}" by (auto dest: bit_imp_le_length)
  moreover have "finite ?c" "finite {n. bit ?u n}"
    by (auto intro: finite_subset [of _ "{..<LENGTH('b)}"] finite_subset [of _ "{..<LENGTH('a)}"] dest: bit_imp_le_length)
  moreover have "card ?i = card {n. bit ?u n}" by (rule card_image) simp
  ultimately have "card ?l = card ?c + card {n. bit ?u n}" by (simp add: card_Un_disjoint)
  then show ?case using Cons.IH b by (simp add: ones_card)
qed (simp add: ones_card)

lemma nibble_and_15: "(c :: 4 word) AND 15 = c"
proof -
  have "(15 :: 4 word) = - 1" by simp
  then show ?thesis by (simp only: and.right_neutral)
qed

lemma nibble_mask_bits:
  "bit (5 :: 4 word) n \<Longrightarrow> n < 3" "bit (3 :: 4 word) n \<Longrightarrow> n < 2"
proof -
  have n: "n < 2 \<or> n = 2 \<or> n = 3 \<or> 4 \<le> n" by auto
  show "n < 3" if "bit (5 :: 4 word) n"
    using n bit_imp_le_length [OF that] that by (elim disjE) simp_all
  show "n < 2" if "bit (3 :: 4 word) n"
    using n bit_imp_le_length [OF that] that by (elim disjE) simp_all
qed

lemma popcount_nibbles:
  fixes v :: u32
  defines "v1 \<equiv> v - (drop_bit 1 v AND 0x55555555)"
  shows "(chunks ((v1 AND 0x33333333) + (drop_bit 2 v1 AND 0x33333333)) :: 4 word list) = map (\<lambda>n. of_nat (ones n)) (chunks v :: 4 word list)"
proof -
  have n4: "LENGTH(4) dvd LENGTH(32)" by simp
  have "chunks (drop_bit 1 v AND 0x55555555) = map (\<lambda>n :: 4 word. drop_bit 1 n AND 5) (chunks v)"
    by (rule chunks_drop_mask [OF n4]) (simp add: chunk_masks, drule nibble_mask_bits(1), simp)
  then have c1: "chunks v1 = map pairs4 (chunks v)"
    unfolding v1_def by (subst chunks_sub [OF n4])
      (auto simp: nibble_facts(1) [unfolded One_nat_def] pairs4_def intro!: nth_equalityI)
  have lo: "chunks (v1 AND 0x33333333) = map (\<lambda>n :: 4 word. pairs4 n AND 3) (chunks v)"
    by (rule nth_equalityI) (simp_all add: chunks_and chunk_masks c1)
  have hi: "chunks (drop_bit 2 v1 AND 0x33333333) = map (\<lambda>n :: 4 word. drop_bit 2 (pairs4 n) AND 3) (chunks v)"
  proof -
    have "chunks (drop_bit 2 v1 AND 0x33333333) = map (\<lambda>n :: 4 word. drop_bit 2 n AND 3) (chunks v1)"
      by (rule chunks_drop_mask [OF n4]) (simp add: chunk_masks, drule nibble_mask_bits(2), simp)
    then show ?thesis by (simp add: c1)
  qed
  have fit: "unat (pairs4 n AND 3) + unat (drop_bit 2 (pairs4 n) AND 3) < 16" for n
    using nibble_facts(2,3) [of n] by linarith
  have sum: "(pairs4 n AND 3) + (drop_bit 2 (pairs4 n) AND 3) = of_nat (ones n)" for n
  proof -
    have "of_nat (unat a + unat b) = a + b" for a b :: "4 word" by simp
    then show ?thesis using nibble_facts(2) [of n] by metis
  qed
  show ?thesis
    by (subst chunks_add [OF n4]) (auto simp: lo hi fit sum intro!: nth_equalityI)
qed

lemma chunks_drop_one:
  assumes "LENGTH('b) dvd LENGTH('a)"
  shows "(chunks (drop_bit LENGTH('b) (x :: 'a::len word)) :: 'b::len word list) = tl (chunks x) @ [0]"
proof (rule nth_equalityI)
  from assms obtain q where q: "LENGTH('a) = LENGTH('b) * q" by (elim dvdE)
  then have q0: "0 < q" by (cases q) simp_all
  then show "length (chunks (drop_bit LENGTH('b) x) :: 'b word list) = length (tl (chunks x) @ [0 :: 'b word])"
    by (simp add: q)
  fix i assume "i < length (chunks (drop_bit LENGTH('b) x) :: 'b word list)"
  then have i: "i < q" by (simp add: q)
  have z: "drop_bit (LENGTH('b) * i + LENGTH('b)) x = 0" if "Suc i = q"
  proof (rule bit_word_eqI)
    fix n
    have "LENGTH('b) * i + LENGTH('b) = LENGTH('a)" using that by (simp add: q flip: that)
    then show "bit (drop_bit (LENGTH('b) * i + LENGTH('b)) x) n = bit 0 n"
      using bit_imp_le_length [of x "LENGTH('a) + n"] by (auto simp: bit_simps)
  qed
  show "(chunks (drop_bit LENGTH('b) x) :: 'b word list) ! i = (tl (chunks x) @ [0]) ! i"
  proof (cases "Suc i = q")
    case True
    then show ?thesis using z q0 by (auto simp: nth_chunks nth_append q)
  next
    case False
    then show ?thesis using i by (auto simp: nth_chunks nth_append nth_tl q add.commute)
  qed
qed

lemma byte_sum:
  assumes "a \<le> 8" "b \<le> 8" "c \<le> 8" "d \<le> 8"
  shows "((a + 2 ^ 8 * b + 2 ^ 16 * c + 2 ^ 24 * d) * 0x01010101) mod 2 ^ 32 div 2 ^ 24 = a + b + c + (d :: nat)"
proof -
  let ?low = "a * 0x10101 + b * 0x10100 + c * 0x10000" and ?hi = "b + 257 * c + 65793 * d"
  have "(a + 2 ^ 8 * b + 2 ^ 16 * c + 2 ^ 24 * d) * 0x01010101 = (?low + 2 ^ 24 * (a + b + c + d)) + 2 ^ 32 * ?hi"
    by simp
  moreover have "?low + 2 ^ 24 * (a + b + c + d) < 2 ^ 32" using assms by simp
  ultimately have "((a + 2 ^ 8 * b + 2 ^ 16 * c + 2 ^ 24 * d) * 0x01010101) mod 2 ^ 32 = ?low + 2 ^ 24 * (a + b + c + d)"
    by (simp only: mod_mult_self2 mod_less)
  moreover have "?low < 2 ^ 24" using assms by simp
  then have "(?low + 2 ^ 24 * (a + b + c + d)) div 2 ^ 24 = a + b + c + d" by (intro div_nat_eqI) simp_all
  ultimately show ?thesis by (simp only:)
qed

lemma popcount32_ones: "popcount32 v = of_nat (ones v)"
proof -
  define v1 v2 where "v1 = v - (drop_bit 1 v AND 0x55555555)"
    and "v2 = (v1 AND 0x33333333) + (drop_bit 2 v1 AND 0x33333333)"
  have n4: "LENGTH(4) dvd LENGTH(32)" by simp
  obtain ns :: "4 word list" where ns: "chunks v = ns" "length ns = 8" by simp
  have c2: "chunks v2 = map (\<lambda>n. of_nat (ones n) :: 4 word) ns"
    using popcount_nibbles [of v] by (simp only: v2_def v1_def ns)
  define s where "s = map ones ns"
  have s4: "s ! i \<le> 4" if "i < 8" for i using that ns(2) by (simp add: s_def nibble_facts)
  have ls: "length s = 8" by (simp add: s_def ns)
  then obtain s0 s1 s2 s3 s4' s5 s6 s7 where s: "s = [s0, s1, s2, s3, s4', s5, s6, s7]"
    by (auto simp: numeral_eq_Suc length_Suc_conv)
  have small: "s0 \<le> 4" "s1 \<le> 4" "s2 \<le> 4" "s3 \<le> 4" "s4' \<le> 4" "s5 \<le> 4" "s6 \<le> 4" "s7 \<le> 4"
    using s4 [of 0] s4 [of 1] s4 [of 2] s4 [of 3] s4 [of 4] s4 [of 5] s4 [of 6] s4 [of 7]
    by (simp_all add: s)
  have c2': "chunks v2 = (map of_nat s :: 4 word list)" using c2 by (simp add: s_def)
  have c3: "chunks (drop_bit 4 v2) = (map of_nat (tl s @ [0]) :: 4 word list)"
    using chunks_drop_one [OF n4, of v2] c2' by (simp add: s)
  have nib: "unat (of_nat a :: 4 word) = a" if "a < 16" for a using that by (simp add: unat_of_nat)
  have "chunks (v2 + drop_bit 4 v2) = map2 (+) (map of_nat s) (map of_nat (tl s @ [0]) :: 4 word list)"
    unfolding c2' [symmetric] c3 [symmetric]
  proof (rule chunks_add [OF n4], intro allI impI)
    fix i :: nat assume "i < LENGTH(32) div LENGTH(4)"
    then have i: "i < 8" by simp
    then have "(tl s @ [0]) ! i \<le> 4" using s4 [of "Suc i"] ls by (auto simp: nth_append nth_tl)
    with s4 [OF i] i ls show "unat ((chunks v2 :: 4 word list) ! i) + unat ((chunks (drop_bit 4 v2) :: 4 word list) ! i)
        < 2 ^ LENGTH(4)"
      by (simp add: c2' c3 nib del: map_append)
  qed
  then have c4: "chunks ((v2 + drop_bit 4 v2) AND 0x0F0F0F0F) = [of_nat (s0 + s1) :: 4 word, 0, of_nat (s2 + s3), 0,
      of_nat (s4' + s5), 0, of_nat (s6 + s7), 0]"
    by (simp add: chunks_and chunk_masks s nibble_and_15)
  have u: "unat ((v2 + drop_bit 4 v2) AND 0x0F0F0F0F) =
      (s0 + s1) + 2 ^ 8 * (s2 + s3) + 2 ^ 16 * (s4' + s5) + 2 ^ 24 * (s6 + s7)"
    using chunks_eqD(2) [OF n4 c4] small by (simp add: nib del: of_nat_add)
  have "unat (drop_bit 24 (((v2 + drop_bit 4 v2) AND 0x0F0F0F0F) * 0x01010101)) =
      (s0 + s1) + (s2 + s3) + (s4' + s5) + (s6 + s7)"
  proof -
    have "unat (drop_bit 24 (y * 0x01010101)) = (unat y * 0x01010101) mod 2 ^ 32 div 2 ^ 24" for y :: u32
      by (simp add: drop_bit_eq_div unat_div unat_word_ariths)
    then show ?thesis unfolding u [symmetric]
      by (simp only: u) (rule byte_sum; use small in simp)
  qed
  also have "\<dots> = (\<Sum>n \<leftarrow> ns. ones n)"
    using s by (simp add: s_def)
  also have "\<dots> = ones v" using ones_unchunks [of ns, where ?'a = 32] ns chunks_eqD(1) [OF n4 ns(1)] by simp
  finally have r: "unat (drop_bit 24 (((v2 + drop_bit 4 v2) AND 0x0F0F0F0F) * 0x01010101)) = ones v" .
  have "popcount32 v = drop_bit 24 (((v2 + drop_bit 4 v2) AND 0x0F0F0F0F) * 0x01010101)"
    unfolding popcount32_def Let_def v2_def v1_def ..
  moreover have "of_nat (unat a) = a" for a :: u32 by simp
  ultimately show ?thesis using r by metis
qed

section \<open>The three counters\<close>

lemma count_loop_eval:
  assumes len: "4 * map_words n \<le> length mem"
    and word: "\<And>(v :: u32) r. body v r = Inr (r + of_nat (\<Sum>b \<leftarrow> (chunks v :: u8 list). f b))"
  shows "count_loop (map_words n) 0 (\<lambda>k ret. ebind (load_word mem (4 * k)) (\<lambda>v :: u32. body v ret)) 0
    = Inr (of_nat (\<Sum>b \<leftarrow> take (4 * map_words n) mem. f b) :: 'w::len word)"
proof (rule sum_loop)
  fix j and r :: "'w word" assume j: "j < map_words n"
  have "4 * Suc j \<le> 4 * map_words n" using j by (intro mult_le_mono2) simp
  with len have l: "4 * j + LENGTH(32) div 8 \<le> length mem" by simp
  have d: "8 dvd LENGTH(32)" by simp
  obtain v :: u32 where v: "load_word mem (4 * j) = Inr v" "chunks v = take (LENGTH(32) div 8) (drop (4 * j) mem)"
    using load_word_ok [OF d l] by blast
  then show "ebind (load_word mem (4 * j)) (\<lambda>v :: u32. body v r)
      = Inr (r + of_nat (\<Sum>b \<leftarrow> take 4 (drop (4 * j) mem). f b))"
    by (simp add: word)
qed (rule len)

lemma count_bits_eval:
  assumes "4 * map_words n \<le> length mem"
  shows "count_bits n mem = Inr (of_nat (\<Sum>b \<leftarrow> take (4 * map_words n) mem. ones b))"
  unfolding count_bits_def
proof (rule count_loop_eval [OF assms])
  fix v r :: u32
  have s: "(\<Sum>b \<leftarrow> (chunks v :: u8 list). ones b) = ones v"
    using ones_unchunks [of "chunks v :: u8 list", where ?'a = 32] by simp
  have "ones (0xffffffff :: u32) = 32"
    using ones_unchunks [of "[255, 255, 255, 255] :: u8 list", where ?'a = 32]
    by (simp add: ones_def upt_rec flip: chunks_eqD(1) [OF _ byte_masks(5)])
  then show "(if v = 0xffffffff then Inr (r + 32) else Inr (r + popcount32 v))
      = Inr (r + of_nat (\<Sum>b \<leftarrow> (chunks v :: u8 list). ones b))"
    unfolding s by (simp add: popcount32_ones)
qed

lemma count_bytes_eval:
  assumes "4 * map_words n \<le> length mem"
  shows "count_bytes n mem = Inr (of_nat (\<Sum>b \<leftarrow> take (4 * map_words n) mem. of_bool (b \<noteq> 0)))"
  unfolding count_bytes_def
proof (rule count_loop_eval [OF assms])
  fix v r :: u32
  obtain b0 b1 b2 b3 :: u8 where v: "chunks v = [b0, b1, b2, b3]" by (rule word_bytes4)
  show "(if v = 0 then Inr r else
         let ret = if v AND 0x000000ff \<noteq> 0 then r + 1 else r;
             ret = if v AND 0x0000ff00 \<noteq> 0 then ret + 1 else ret;
             ret = if v AND 0x00ff0000 \<noteq> 0 then ret + 1 else ret;
             ret = if v AND 0xff000000 \<noteq> 0 then ret + 1 else ret
         in Inr ret) = Inr (r + of_nat (\<Sum>b \<leftarrow> (chunks v :: u8 list). of_bool (b \<noteq> 0)))"
    unfolding Let_def by (simp add: chunks_eq_iff [of v] chunks_eq_iff [of "v AND m" for m] chunks_and byte_masks v)
qed

lemma count_non_255_bytes_eval:
  assumes "4 * map_words n \<le> length mem"
  shows "count_non_255_bytes n mem = Inr (of_nat (\<Sum>b \<leftarrow> take (4 * map_words n) mem. of_bool (b \<noteq> 255)))"
  unfolding count_non_255_bytes_def
proof (rule count_loop_eval [OF assms])
  fix v r :: u32
  obtain b0 b1 b2 b3 :: u8 where v: "chunks v = [b0, b1, b2, b3]" by (rule word_bytes4)
  show "(if v = 0xffffffff then Inr r else
         let ret = if v AND 0x000000ff \<noteq> 0x000000ff then r + 1 else r;
             ret = if v AND 0x0000ff00 \<noteq> 0x0000ff00 then ret + 1 else ret;
             ret = if v AND 0x00ff0000 \<noteq> 0x00ff0000 then ret + 1 else ret;
             ret = if v AND 0xff000000 \<noteq> 0xff000000 then ret + 1 else ret
         in Inr ret) = Inr (r + of_nat (\<Sum>b \<leftarrow> (chunks v :: u8 list). of_bool (b \<noteq> 255)))"
    unfolding Let_def by (simp add: chunks_eq_iff [of v] chunks_eq_iff [of "v AND m" for m] chunks_and byte_masks v)
qed

section \<open>Compaction of a trace\<close>

lemma and_7: "i AND 7 = i mod (8 :: nat)"
  using take_bit_eq_mask [of 3 i] by (simp add: take_bit_eq_mod mask_eq_exp_minus_1)

lemma minimize_bits_eval:
  assumes "sz \<le> length src" "sz \<le> 8 * length dst"
  shows "\<exists>dst'. minimize_bits sz dst src = Inr dst' \<and> length dst' = length dst \<and>
    (\<forall>j < 8 * length dst. bit (dst' ! (j div 8)) (j mod 8) \<longleftrightarrow>
       bit (dst ! (j div 8)) (j mod 8) \<or> j < sz \<and> src ! j \<noteq> 0)"
proof -
  define I where "I i d \<longleftrightarrow> length d = length dst \<and> (\<forall>j < 8 * length dst. bit (d ! (j div 8)) (j mod 8) \<longleftrightarrow>
       bit (dst ! (j div 8)) (j mod 8) \<or> j < i \<and> src ! j \<noteq> 0)" for i and d :: bytes
  let ?body = "\<lambda>i dst. ebind (load8 src i) (\<lambda>b. if b \<noteq> 0
      then ebind (load8 dst (i div 8)) (\<lambda>d. store8 dst (i div 8) (d OR push_bit (i AND 7) 1))
      else Inr dst)"
  have "\<exists>d'. ?body i d = Inr d' \<and> I (Suc i) d'" if i: "i < sz" and d: "I i d" for i d
  proof (cases "src ! i = 0")
    case True
    then show ?thesis using i d assms by (auto simp: I_def load8_def less_Suc_eq)
  next
    case False
    have len: "i div 8 < length d" using i assms d by (auto simp: I_def less_mult_imp_div_less mult.commute)
    let ?d' = "d[i div 8 := d ! (i div 8) OR push_bit (i mod 8) 1]"
    have "bit (?d' ! (j div 8)) (j mod 8) \<longleftrightarrow> bit (d ! (j div 8)) (j mod 8) \<or> j = i" if "j < 8 * length dst" for j
    proof (cases "j div 8 = i div 8")
      case True
      then have "j mod 8 = i mod 8 \<longleftrightarrow> j = i" by (metis mult_div_mod_eq)
      with True len show ?thesis by (auto simp: bit_simps)
    qed (use len in auto)
    then have "I (Suc i) ?d'" using d False by (auto simp: I_def less_Suc_eq)
    then show ?thesis using i assms False len by (simp add: load8_def store8_def and_7)
  qed
  moreover have "I 0 dst" by (simp add: I_def)
  ultimately have "\<exists>d'. count_loop sz 0 ?body dst = Inr d' \<and> I (0 + sz) d'"
    by (intro count_loop_inv [where I = I]) simp_all
  then show ?thesis by (simp add: minimize_bits_def I_def)
qed

section \<open>Properties\<close>

text \<open>
  the three counters return, modulo 2^32, the number of set bits, of non-zero bytes and of
  bytes other than 255 among the bytes of the map, which is read in whole 32-bit words; the
  word-parallel tricks (the shift-and-mask population count, the byte masks) count exactly.
\<close>

theorem map_counters_exact:
  assumes "4 * map_words real_size \<le> length mem"
  shows "count_bits real_size mem = Inr (of_nat (\<Sum>b \<leftarrow> take (4 * map_words real_size) mem. card {n. bit b n}))
    \<and> count_bytes real_size mem = Inr (of_nat (length (filter (\<lambda>b. b \<noteq> 0) (take (4 * map_words real_size) mem))))
    \<and> count_non_255_bytes real_size mem = Inr (of_nat (length (filter (\<lambda>b. b \<noteq> 255) (take (4 * map_words real_size) mem))))"
proof -
  have f: "(\<Sum>b \<leftarrow> bs. of_bool (P b)) = length (filter P bs)" for P and bs :: bytes
    by (induction bs) simp_all
  show ?thesis
    unfolding count_bits_eval [OF assms] count_bytes_eval [OF assms] count_non_255_bytes_eval [OF assms] f
    by (simp add: ones_card [abs_def])
qed

theorem map_counters_exact_witness:
  "count_bits 6 [1, 3, 0, 255, 0, 0, 7, 0] = Inr 14 \<and> count_bytes 6 [1, 3, 0, 255, 0, 0, 7, 0] = Inr 4
   \<and> count_non_255_bytes 6 [1, 3, 0, 255, 0, 0, 7, 0] = Inr 7"
proof -
  have w: "map_words 6 = 2" by (simp add: map_words_def)
  have "card {n. bit b n} = ones b" for b :: u8 by (simp add: ones_card)
  then show ?thesis
    using map_counters_exact [of 6 "[1, 3, 0, 255, 0, 0, 7, 0]"] by (simp add: w ones_def upt_rec)
qed

text \<open>
  \<open>minimize_bits\<close> sets the bit of every edge that the trace hits, keeps the others as they
  were, and stays inside a destination of one bit per edge.
\<close>

theorem minimize_bits_correct:
  assumes "sz \<le> length src" "sz \<le> 8 * length dst"
  shows "\<exists>dst'. minimize_bits sz dst src = Inr dst' \<and> length dst' = length dst \<and>
    (\<forall>j < 8 * length dst. bit (dst' ! (j div 8)) (j mod 8) \<longleftrightarrow>
       bit (dst ! (j div 8)) (j mod 8) \<or> j < sz \<and> src ! j \<noteq> 0)"
  using assms by (rule minimize_bits_eval)

theorem minimize_bits_correct_witness:
  "\<exists>dst'. minimize_bits 9 [0, 0] [1, 0, 0, 0, 0, 0, 0, 0, 2] = Inr dst' \<and> length dst' = 2 \<and>
    (\<forall>j < 16. bit (dst' ! (j div 8)) (j mod 8) \<longleftrightarrow> j < 9 \<and> [1, 0, 0, 0, 0, 0, 0, 0, 2 :: u8] ! j \<noteq> 0)"
proof -
  have z: "([0, 0] :: bytes) ! (j div 8) = 0" if "j < 16" for j :: nat
    using that by (auto simp: nth_Cons')
  show ?thesis
    using minimize_bits_correct [of 9 "[1, 0, 0, 0, 0, 0, 0, 0, 2]" "[0, 0]"] by (auto simp: z)
qed

end
