(* ===== verification/AFL_CoverageProps.thy ===== *)
theory AFL_CoverageProps
  imports AFL_CoverageLemmas
begin

text \<open>
  What the coverage operations compute on a whole map, and the properties of the component.
\<close>

section \<open>Invariant of the maps\<close>

text \<open>
  \<open>get_map_size\<close> and the fork server round \<open>map_size\<close> up to a multiple of 64; all maps are
  allocated with that size.
\<close>

definition wf_cov :: "cov \<Rightarrow> bool" where
  "wf_cov s \<longleftrightarrow> map_size s mod 64 = 0 \<and> map_size s < 2 ^ 31 \<and> real_map_size s \<le> map_size s
     \<and> length (trace_bits s) = map_size s \<and> length (virgin_bits s) = map_size s
     \<and> length (virgin_tmout s) = map_size s \<and> length (virgin_crash s) = map_size s
     \<and> table_ok (count_class_lookup16 s)"

lemma virgin_simps [simp]:
  "get_virgin vm (set_virgin vm v s) = v"
  "trace_bits (set_virgin vm v s) = trace_bits s"
  "map_size (set_virgin vm v s) = map_size s"
  "real_map_size (set_virgin vm v s) = real_map_size s"
  "bitmap_changed (set_virgin vm v s) = bitmap_changed s"
  "count_class_lookup16 (set_virgin vm v s) = count_class_lookup16 s"
  "set_virgin vm (get_virgin vm s) s = s"
  "set_virgin vm v (set_virgin vm v' s) = set_virgin vm v s"
  "get_virgin vm (s\<lparr>bitmap_changed := b\<rparr>) = get_virgin vm s"
  "get_virgin vm (s\<lparr>trace_bits := t\<rparr>) = get_virgin vm s"
  "vm' \<noteq> vm \<Longrightarrow> get_virgin vm' (set_virgin vm v s) = get_virgin vm' s"
  by (cases vm; cases vm'; simp)+

lemma set_virgin_flag [simp]:
  "set_virgin vm v (s\<lparr>bitmap_changed := b\<rparr>) = (set_virgin vm v s)\<lparr>bitmap_changed := b\<rparr>"
  "trace_bits (s\<lparr>bitmap_changed := b\<rparr>) = trace_bits s"
  by (cases vm; simp)+

lemma wf_cov_virgin: "wf_cov s \<Longrightarrow> length (get_virgin vm s) = map_size s"
  by (cases vm) (simp_all add: wf_cov_def)

lemma wf_cov_set_virgin:
  "wf_cov s \<Longrightarrow> length v = map_size s \<Longrightarrow> wf_cov (set_virgin vm v s)"
  by (cases vm) (simp_all add: wf_cov_def)

lemma wf_cov_flag [simp]: "wf_cov (s\<lparr>bitmap_changed := b\<rparr>) = wf_cov s"
  by (simp add: wf_cov_def)

lemma wf_cov_trace: "wf_cov s \<Longrightarrow> length t = map_size s \<Longrightarrow> wf_cov (s\<lparr>trace_bits := t\<rparr>)"
  by (simp add: wf_cov_def)

text \<open>The bytes that \<open>has_new_bits\<close> looks at: \<open>real_map_size\<close>, rounded up to whole words.\<close>

definition looked_at :: "nat \<Rightarrow> cov \<Rightarrow> nat" where
  "looked_at W s = W * ((real_map_size s + (W - 1)) div W)"

lemma looked_at_le:
  assumes "wf_cov s" "W dvd 64" "0 < W"
  shows "looked_at W s \<le> map_size s" "W * (map_size s div W) = map_size s"
proof -
  have d: "W dvd map_size s" using assms dvd_trans [of W 64 "map_size s"] by (auto simp: wf_cov_def)
  then obtain q where q: "map_size s = W * q" by (elim dvdE)
  have "real_map_size s \<le> W * q" using assms(1) q by (simp add: wf_cov_def)
  then have "real_map_size s + (W - 1) < W * Suc q" using assms(3) by simp
  then have "(real_map_size s + (W - 1)) div W < Suc q"
    using assms(3) by (simp add: div_less_iff_less_mult mult.commute)
  then have "W * ((real_map_size s + (W - 1)) div W) \<le> W * q" by (intro mult_le_mono2) simp
  then show "looked_at W s \<le> map_size s" unfolding looked_at_def q .
  show "W * (map_size s div W) = map_size s" using d by simp
qed

section \<open>Evaluation of the operations\<close>

lemma store_word_ok:
  "chunks (v :: 'w::len word) = bs \<Longrightarrow> i + LENGTH('w) div 8 \<le> length b \<Longrightarrow>
    store_word b i v = Inr (take i b @ bs @ drop (i + LENGTH('w) div 8) b)"
  by (simp add: store_word_def Let_def)

lemma chunk_in_map:
  assumes "j < n" "W * n \<le> (L :: nat)"
  shows "W * j + W \<le> L"
proof -
  have "W * Suc j \<le> W * n" using assms(1) by (intro mult_le_mono2) simp
  with assms(2) show ?thesis by simp
qed

lemma classify_counts_eval:
  assumes tbl: "table_ok (count_class_lookup16 s)" and len: "length (trace_bits s) = map_size s"
    and m64: "map_size s mod 64 = 0"
    and w: "16 dvd LENGTH('w)" "LENGTH('w) div 8 dvd 64"
  shows "classify_counts TYPE('w::len) s = Inr (s\<lparr>trace_bits := map class8 (trace_bits s)\<rparr>)"
proof -
  let ?W = "LENGTH('w) div 8" and ?tbl = "count_class_lookup16 s"
  have d8: "8 dvd LENGTH('w)" by (rule dvd_trans [OF _ w(1)]) simp
  have "?W dvd map_size s" using w(2) m64 by (auto intro: dvd_trans)
  then have size: "?W * (map_size s div ?W) = map_size s" by simp
  have "ebind (load_word b (?W * j)) (\<lambda>w :: 'w word.
      if w \<noteq> 0 then store_word b (?W * j) (classify_word ?tbl w) else Inr b)
    = Inr (take (?W * j) b @ map class8 (take ?W (drop (?W * j) b)) @ drop (?W * j + ?W) b)"
    if "j < map_size s div ?W" "length b = length (trace_bits s)" for j b
  proof -
    have l: "?W * j + ?W \<le> length b"
      using chunk_in_map [OF that(1), of ?W "map_size s"] size len that(2) by simp
    obtain w :: "'w word" where lw: "load_word b (?W * j) = Inr w" "chunks w = take ?W (drop (?W * j) b)"
      using load_word_ok [OF d8 l] by blast
    have "store_word b (?W * j) (classify_word ?tbl w)
        = Inr (take (?W * j) b @ map class8 (take ?W (drop (?W * j) b)) @ drop (?W * j + ?W) b)"
      by (rule store_word_ok) (use l lw in \<open>simp_all add: classify_word_bytes [OF tbl w(1)]\<close>)
    moreover have "map class8 (take ?W (drop (?W * j) b)) = take ?W (drop (?W * j) b)" if "w = 0"
    proof -
      have "\<forall>x \<in> set (take ?W (drop (?W * j) b)). x = 0"
        using word_eq_0_iff [OF d8, of w] that lw(2) by simp
      then show ?thesis by (intro map_idI) auto
    qed
    moreover have "take (?W * j) b @ take ?W (drop (?W * j) b) @ drop (?W * j + ?W) b = b"
      by (metis append_take_drop_id drop_drop add.commute)
    ultimately show ?thesis using lw(1) by simp
  qed
  then have "count_loop (map_size s div ?W) 0 (\<lambda>k mem. ebind (load_word mem (?W * k)) (\<lambda>w :: 'w word.
      if w \<noteq> 0 then store_word mem (?W * k) (classify_word ?tbl w) else Inr mem)) (trace_bits s)
    = Inr (map class8 (take (?W * (map_size s div ?W)) (trace_bits s))
        @ drop (?W * (map_size s div ?W)) (trace_bits s))"
    by (rule map_loop) (simp_all add: size len)
  then show ?thesis by (simp add: classify_counts_def Let_def size len)
qed

lemma simplify_trace_eval:
  assumes "8 dvd LENGTH('w)" "0 < LENGTH('w) div 8" "LENGTH('w) div 8 dvd sz" "sz \<le> length mem"
  shows "simplify_trace TYPE('w::len) sz mem =
    Inr (map (\<lambda>b. if b = 0 then 1 else 128) (take sz mem) @ drop sz mem)"
proof -
  let ?W = "LENGTH('w) div 8" and ?f = "\<lambda>b :: u8. if b = 0 then 1 else 128 :: u8"
  have size: "?W * (sz div ?W) = sz" using assms by simp
  have "ebind (load_word b (?W * j)) (\<lambda>w :: 'w word. store_word b (?W * j) (simplify_word w))
    = Inr (take (?W * j) b @ map ?f (take ?W (drop (?W * j) b)) @ drop (?W * j + ?W) b)"
    if "j < sz div ?W" "length b = length mem" for j b
  proof -
    have l: "?W * j + ?W \<le> length b"
      using chunk_in_map [OF that(1), of ?W "length mem"] size assms that(2) by simp
    obtain w :: "'w word" where w: "load_word b (?W * j) = Inr w" "chunks w = take ?W (drop (?W * j) b)"
      using load_word_ok [OF assms(1) l] by blast
    have "store_word b (?W * j) (simplify_word w)
        = Inr (take (?W * j) b @ map ?f (take ?W (drop (?W * j) b)) @ drop (?W * j + ?W) b)"
      by (rule store_word_ok) (use l w in \<open>simp_all add: simplify_word_bytes [OF assms(1)]\<close>)
    then show ?thesis using w(1) by simp
  qed
  then have "count_loop (sz div ?W) 0 (\<lambda>k mem. ebind (load_word mem (?W * k))
      (\<lambda>w :: 'w word. store_word mem (?W * k) (simplify_word w))) mem
    = Inr (map ?f (take (?W * (sz div ?W)) mem) @ drop (?W * (sz div ?W)) mem)"
    by (rule map_loop) (simp_all add: size assms)
  then show ?thesis by (simp add: simplify_trace_def Let_def size)
qed

text \<open>What \<open>has_new_bits\<close> does with the first \<open>n\<close> bytes of the maps.\<close>

definition cov_step :: "nat \<Rightarrow> virgin_map \<Rightarrow> cov \<Rightarrow> nat \<times> cov" where
  "cov_step n vm s =
     (let tr = take n (trace_bits s); vi = get_virgin vm s;
          ret = novelty tr (take n vi);
          s' = set_virgin vm (map2 unseen (take n vi) tr @ drop n vi) s
      in (ret, if ret \<noteq> 0 \<and> vm = Virgin_Bits then s'\<lparr>bitmap_changed := True\<rparr> else s'))"

lemma has_new_bits_loop:
  assumes d8: "8 dvd LENGTH('w)" and W: "W = LENGTH('w) div 8"
    and len: "W * n \<le> length tr" "length vi = length tr"
  shows "count_loop n 0 (\<lambda>k (ret, virgin).
      ebind (load_word tr (W * k)) (\<lambda>current :: 'w::len word.
        if current \<noteq> 0 then
          ebind (load_word virgin (W * k)) (\<lambda>v.
            let (ret, v) = discover_word ret current v in
            ebind (store_word virgin (W * k) v) (\<lambda>virgin. Inr (ret, virgin)))
        else Inr (ret, virgin))) (0, vi)
    = Inr (novelty (take (W * n) tr) (take (W * n) vi),
           map2 unseen (take (W * n) vi) (take (W * n) tr) @ drop (W * n) vi)"
proof -
  define body where "body = (\<lambda>k (ret, virgin).
      ebind (load_word tr (W * k)) (\<lambda>current :: 'w word.
        if current \<noteq> 0 then
          ebind (load_word virgin (W * k)) (\<lambda>v.
            let (ret, v) = discover_word ret current v in
            ebind (store_word virgin (W * k) v) (\<lambda>virgin. Inr (ret, virgin)))
        else Inr (ret, virgin)))"
  define I where "I j st \<longleftrightarrow> st = (novelty (take (W * j) tr) (take (W * j) vi),
      map2 unseen (take (W * j) vi) (take (W * j) tr) @ drop (W * j) vi)" for j st
  have "\<exists>st'. body j st = Inr st' \<and> I (Suc j) st'" if j: "j < n" and st: "I j st" for j st
  proof -
    let ?ret = "novelty (take (W * j) tr) (take (W * j) vi)"
      and ?vi = "map2 unseen (take (W * j) vi) (take (W * j) tr) @ drop (W * j) vi"
      and ?cs = "take W (drop (W * j) tr)" and ?vs = "take W (drop (W * j) vi)"
    have l: "W * j + W \<le> length tr" by (rule chunk_in_map [OF j len(1)])
    have lvi: "length ?vi = length tr" using l len(2) by simp
    obtain c :: "'w word" where c: "load_word tr (W * j) = Inr c" "chunks c = ?cs"
      using load_word_ok [OF d8, of "W * j" tr] l by (auto simp: W)
    obtain v :: "'w word" where v: "load_word ?vi (W * j) = Inr v" "chunks v = ?vs"
      using load_word_ok [OF d8, of "W * j" ?vi] l lvi len(2) by (auto simp: W)
    have le2: "?ret \<le> 2" by (rule novelty_le) (use l len in simp)
    have next_ret: "novelty (take (W * Suc j) tr) (take (W * Suc j) vi) = max ?ret (novelty ?cs ?vs)"
      using l len by (simp add: take_chunk novelty_append del: mult_Suc_right)
    have next_vi: "map2 unseen (take (W * Suc j) vi) (take (W * Suc j) tr) @ drop (W * Suc j) vi
        = map2 unseen (take (W * j) vi) (take (W * j) tr) @ map2 unseen ?vs ?cs @ drop (W * j + W) vi"
      using l len by (simp add: take_chunk zip_append drop_chunk add.commute del: mult_Suc_right)
    show ?thesis
    proof (cases "c = 0")
      case True
      then have z: "\<forall>x \<in> set ?cs. x = 0" using word_eq_0_iff [OF d8, of c] c(2) by simp
      have z': "tr ! (W * j + i) = 0" if "i < W" for i
      proof -
        have "?cs ! i \<in> set ?cs" by (rule nth_mem) (use that l in simp)
        with z that l show ?thesis by simp
      qed
      have "novelty ?cs ?vs = 0" using z' l len by (simp add: novelty_eq_0_iff)
      moreover have "map2 unseen ?vs ?cs = ?vs"
        using z' l len by (intro nth_equalityI) (simp_all add: unseen_def)
      moreover have "?vs @ drop (W * j + W) vi = drop (W * j) vi"
        by (metis append_take_drop_id drop_drop add.commute)
      ultimately have "I (Suc j) (?ret, ?vi)" unfolding I_def next_ret next_vi by simp
      then show ?thesis using True c(1) st by (auto simp: body_def I_def)
    next
      case False
      obtain r' v' where d: "discover_word ?ret c v = (r', v')" by (cases "discover_word ?ret c v")
      then have r': "r' = max ?ret (novelty ?cs ?vs)" and v': "chunks v' = map2 unseen ?vs ?cs"
        using discover_word_bytes [OF d8 le2, of c v] c(2) v(2) by simp_all
      have "store_word ?vi (W * j) v' = Inr (take (W * j) ?vi @ map2 unseen ?vs ?cs @ drop (W * j + W) ?vi)"
        unfolding W by (rule store_word_ok) (use v' l lvi in \<open>simp_all add: W\<close>)
      moreover have "take (W * j) ?vi = map2 unseen (take (W * j) vi) (take (W * j) tr)"
        "drop (W * j + W) ?vi = drop (W * j + W) vi"
        using l len by (simp_all add: add.commute)
      ultimately have "store_word ?vi (W * j) v' = Inr (map2 unseen (take (W * Suc j) vi) (take (W * Suc j) tr)
          @ drop (W * Suc j) vi)"
        unfolding next_vi by simp
      then show ?thesis
        using False c(1) v(1) st d by (auto simp: body_def I_def r' next_ret simp del: mult_Suc_right)
    qed
  qed
  moreover have "I 0 (0, vi)" by (simp add: I_def)
  ultimately have "\<exists>st. count_loop n 0 body (0, vi) = Inr st \<and> I (0 + n) st"
    by (intro count_loop_inv [where I = I]) simp_all
  then show ?thesis by (simp add: I_def body_def)
qed

lemma has_new_bits_eval:
  assumes "wf_cov s" "8 dvd LENGTH('w)" "LENGTH('w) div 8 dvd 64" "0 < LENGTH('w) div 8"
  shows "has_new_bits TYPE('w::len) vm s = Inr (cov_step (looked_at (LENGTH('w) div 8) s) vm s)"
proof -
  let ?W = "LENGTH('w) div 8"
  have "?W \<le> 64" using assms(3) by (rule dvd_imp_le) simp
  then have "?W - 1 \<le> 63" using diff_le_mono [of ?W 64 1] by simp
  moreover have "real_map_size s < 2147483648" using assms(1) by (simp add: wf_cov_def)
  ultimately have "u32_add (real_map_size s) (?W - 1) = real_map_size s + (?W - 1)"
    by (intro u32_add_exact) linarith
  moreover have "looked_at ?W s \<le> map_size s" using assms by (intro looked_at_le)
  moreover have "length (trace_bits s) = map_size s" using assms(1) by (simp add: wf_cov_def)
  ultimately show ?thesis
    using has_new_bits_loop [OF assms(2) refl, of "(real_map_size s + (?W - 1)) div ?W" "trace_bits s" "get_virgin vm s"]
      wf_cov_virgin [OF assms(1), of vm]
    by (simp add: has_new_bits_def cov_step_def Let_def looked_at_def)
qed

lemma map2_unseen_idem:
  "length vs = length cs \<Longrightarrow> map2 unseen (map2 unseen vs cs) cs = map2 unseen vs cs"
  by (induction vs cs rule: list_induct2) (simp_all add: unseen_def and.assoc)

lemma novelty_map2_unseen: "length cs = length vs \<Longrightarrow> novelty cs (map2 unseen vs cs) = 0"
proof (induction cs vs rule: list_induct2)
  case (Cons c cs v vs)
  have z: "c AND unseen v c = 0" by (rule bit_word_eqI) (auto simp: unseen_def bit_simps)
  have "c = 0" if "unseen v c = 255" using z that by simp
  with z have "novelty8 c (unseen v c) = 0" by (auto simp: novelty8_def)
  with Cons.IH show ?case by simp
qed simp

lemma novelty_0_unchanged: "length cs = length vs \<Longrightarrow> novelty cs vs = 0 \<Longrightarrow> map2 unseen vs cs = vs"
proof (induction cs vs rule: list_induct2)
  case (Cons c cs v vs)
  then have z: "c AND v = 0" using novelty_eq_0_iff [of "[c]" "[v]"] by simp
  have "unseen v c = v"
  proof (rule bit_word_eqI)
    fix n assume "n < LENGTH(8)"
    moreover have "\<not> bit (c AND v) n" using z by simp
    ultimately show "bit (unseen v c) n \<longleftrightarrow> bit v n" by (auto simp: unseen_def bit_simps)
  qed
  with Cons show ?case by simp
qed simp

lemma cov_step_repeat:
  assumes "wf_cov s" "n \<le> map_size s"
  shows "cov_step n vm (snd (cov_step n vm s)) = (0, snd (cov_step n vm s))"
proof -
  let ?tr = "take n (trace_bits s)" and ?vi = "take n (get_virgin vm s)"
  let ?v = "map2 unseen ?vi ?tr @ drop n (get_virgin vm s)"
  have len: "length ?vi = length ?tr" "length ?vi = n"
    using assms wf_cov_virgin [OF assms(1)] by (simp_all add: wf_cov_def)
  then have "take n ?v = map2 unseen ?vi ?tr" "drop n ?v = drop n (get_virgin vm s)" by simp_all
  moreover obtain b where b: "snd (cov_step n vm s) = (set_virgin vm ?v s)\<lparr>bitmap_changed := b\<rparr>"
  proof
    show "snd (cov_step n vm s) = (set_virgin vm ?v s)
        \<lparr>bitmap_changed := if fst (cov_step n vm s) \<noteq> 0 \<and> vm = Virgin_Bits then True else bitmap_changed s\<rparr>"
      by (cases vm) (simp_all add: cov_step_def Let_def)
  qed
  ultimately show ?thesis
    using len unfolding b
    by (simp add: cov_step_def Let_def novelty_map2_unseen map2_unseen_idem)
qed

section \<open>The fast path\<close>

lemma skim_word_eval:
  assumes "table_ok tbl" "16 dvd LENGTH('w)" "off + LENGTH('w) div 8 \<le> length tr" "length vi = length tr"
  shows "skim_word tbl TYPE('w::len) vi tr off =
    Inr (\<exists>i < LENGTH('w) div 8. class8 (tr ! (off + i)) AND vi ! (off + i) \<noteq> 0)"
proof -
  let ?W = "LENGTH('w) div 8"
  have d8: "8 dvd LENGTH('w)" by (rule dvd_trans [OF _ assms(2)]) simp
  obtain c :: "'w word" where c: "load_word tr off = Inr c" "chunks c = take ?W (drop off tr)"
    using load_word_ok [OF d8 assms(3)] by blast
  obtain v :: "'w word" where v: "load_word vi off = Inr v" "chunks v = take ?W (drop off vi)"
    using load_word_ok [OF d8, of off vi] assms by auto
  have cn: "(chunks c :: u8 list) ! i = tr ! (off + i)" if "i < ?W" for i
    using that assms(3) by (simp add: c(2))
  have "classify_word tbl c AND v = 0 \<longleftrightarrow> (\<forall>i < ?W. class8 (tr ! (off + i)) AND vi ! (off + i) = 0)"
    using assms(3,4)
    by (simp add: word_and_eq_0_iff [OF d8] classify_word_bytes [OF assms(1,2)] c(2) v(2))
  moreover have "tr ! (off + i) = 0" if "c = 0" "i < ?W" for i
    using word_eq_0_iff [OF d8, of c] that cn [of i] nth_mem [of i "chunks c :: u8 list"] by auto
  ultimately show ?thesis using c(1) v(1) by (auto simp: skim_word_def)
qed

lemma ex_less_add: "(\<exists>i < a + b :: nat. P i) \<longleftrightarrow> (\<exists>i < a. P i) \<or> (\<exists>i < b. P (a + i))"
proof
  assume "\<exists>i < a + b. P i"
  then obtain i where i: "i < a + b" "P i" by auto
  show "(\<exists>i < a. P i) \<or> (\<exists>i < b. P (a + i))"
  proof (cases "i < a")
    case False
    with i have "i - a < b" "P (a + (i - a))" by auto
    then show ?thesis by blast
  qed (use i in blast)
next
  assume "(\<exists>i < a. P i) \<or> (\<exists>i < b. P (a + i))"
  then obtain i where "i < a \<and> P i \<or> i < b \<and> P (a + i)" by auto
  then have "i < a + b \<and> P i \<or> a + i < a + b \<and> P (a + i)" by auto
  then show "\<exists>i < a + b. P i" by blast
qed

lemma skim_from_eval:
  assumes "table_ok tbl" "16 dvd LENGTH('w)" "length vi = length tr"
    and "off + n * (4 * (LENGTH('w) div 8)) \<le> length tr"
  shows "skim_from tbl TYPE('w::len) vi tr n off =
    Inr (\<exists>i < n * (4 * (LENGTH('w) div 8)). class8 (tr ! (off + i)) AND vi ! (off + i) \<noteq> 0)"
  using assms(4)
proof (induction n arbitrary: off)
  case (Suc n)
  define W where "W = LENGTH('w) div 8"
  define P where "P i \<longleftrightarrow> class8 (tr ! (off + i)) AND vi ! (off + i) \<noteq> 0" for i
  have le: "off + 4 * W + n * (4 * W) \<le> length tr" using Suc.prems by (simp add: W_def algebra_simps)
  have w: "skim_word tbl TYPE('w) vi tr (off + k) = Inr (\<exists>i < W. P (k + i))" if "k \<le> 3 * W" for k
    using skim_word_eval [OF assms(1,2), of "off + k" tr vi] assms(3) le that
    by (simp add: W_def P_def add.assoc)
  have rest: "skim_from tbl TYPE('w) vi tr n (off + 4 * W) = Inr (\<exists>i < n * (4 * W). P (4 * W + i))"
    using Suc.IH [of "off + 4 * W"] le by (simp add: W_def P_def add.assoc)
  have "skim_from tbl TYPE('w) vi tr (Suc n) off =
      Inr ((\<exists>i < W. P i) \<or> (\<exists>i < W. P (W + i)) \<or> (\<exists>i < W. P (2 * W + i)) \<or> (\<exists>i < W. P (3 * W + i))
        \<or> (\<exists>i < n * (4 * W). P (4 * W + i)))"
    using w [of 0] w [of W] w [of "2 * W"] w [of "3 * W"] rest
    by (simp add: Let_def flip: W_def) blast
  also have "\<dots> = Inr (\<exists>i < W + (W + (W + (W + n * (4 * W)))). P i)"
  proof -
    have "2 * W = W + W" "3 * W = W + (W + W)" "4 * W = W + (W + (W + W))" by simp_all
    then show ?thesis by (simp only: ex_less_add add.assoc)
  qed
  also have "W + (W + (W + (W + n * (4 * W)))) = Suc n * (4 * W)" by simp
  finally show ?case unfolding W_def P_def .
qed simp

lemma skim_eval:
  assumes "wf_cov s" "16 dvd LENGTH('w)" "4 * (LENGTH('w) div 8) dvd 64" "0 < LENGTH('w) div 8"
  shows "skim (count_class_lookup16 s) TYPE('w::len) (get_virgin vm s) (trace_bits s) (map_size s) =
    Inr (novelty (map class8 (trace_bits s)) (get_virgin vm s) \<noteq> 0)"
proof -
  let ?P = "4 * (LENGTH('w) div 8)"
  have wf: "table_ok (count_class_lookup16 s)" "length (trace_bits s) = map_size s"
    "length (get_virgin vm s) = map_size s" "64 dvd map_size s"
    using assms(1) wf_cov_virgin [OF assms(1)] by (auto simp: wf_cov_def)
  from dvd_trans [OF assms(3) wf(4)] obtain q where q: "map_size s = ?P * q" by (elim dvdE)
  have "(map_size s + ?P - 1) div ?P = q"
    unfolding q using assms(4) by (simp add: div_nat_eqI algebra_simps)
  then show ?thesis
    using skim_from_eval [OF wf(1) assms(2), of "get_virgin vm s" "trace_bits s" 0 q] wf(2,3) q
    by (simp add: skim_def Let_def novelty_eq_0_iff mult.commute)
qed

lemma unclassified_eval:
  assumes "wf_cov s" "16 dvd LENGTH('w)" "4 * (LENGTH('w) div 8) dvd 64" "0 < LENGTH('w) div 8"
  shows "has_new_bits_unclassified TYPE('w::len) vm s =
    (if novelty (map class8 (trace_bits s)) (get_virgin vm s) = 0 then Inr (0, s)
     else ebind (classify_counts TYPE('w) s) (has_new_bits TYPE('w) vm))"
  by (simp add: has_new_bits_unclassified_def skim_eval [OF assms])

section \<open>Abstract specification\<close>

text \<open>
  A map as a set: the pairs of an edge and a hit-count bucket whose bit is set. A classified
  trace is the set of the pairs it hit, a virgin map the set of the pairs no trace has hit.
\<close>

definition pairs :: "bytes \<Rightarrow> (nat \<times> nat) set" where
  "pairs m = {(i, b). i < length m \<and> bit (m ! i) b}"

definition records_coverage :: "nat \<Rightarrow> virgin_map \<Rightarrow> cov \<Rightarrow> nat \<Rightarrow> cov \<Rightarrow> bool" where
  "records_coverage n vm s ret s' \<longleftrightarrow>
     (let hit = pairs (take n (trace_bits s)); virgin = get_virgin vm s in
      pairs (get_virgin vm s') = pairs virgin - hit
      \<and> (ret = 0 \<longleftrightarrow> pairs virgin \<inter> hit = {})
      \<and> (ret = 2 \<longleftrightarrow> (\<exists>i < n. trace_bits s ! i \<noteq> 0 \<and> virgin ! i = 255))
      \<and> ret \<le> 2
      \<and> (\<forall>vm'. vm' \<noteq> vm \<longrightarrow> get_virgin vm' s' = get_virgin vm' s) \<and> trace_bits s' = trace_bits s
      \<and> (bitmap_changed s' \<longleftrightarrow> bitmap_changed s \<or> ret \<noteq> 0 \<and> vm = Virgin_Bits)
      \<and> wf_cov s')"

lemma cov_step_records:
  assumes "wf_cov s" "n \<le> map_size s" "cov_step n vm s = (ret, s')"
  shows "records_coverage n vm s ret s'"
proof -
  let ?tr = "trace_bits s" and ?vi = "get_virgin vm s"
  let ?v' = "map2 unseen (take n ?vi) (take n ?tr) @ drop n ?vi"
  have len: "length ?tr = map_size s" "length ?vi = map_size s"
    using assms(1) wf_cov_virgin [OF assms(1)] by (simp_all add: wf_cov_def)
  have ret: "ret = novelty (take n ?tr) (take n ?vi)"
    and s': "s' = (set_virgin vm ?v' s)\<lparr>bitmap_changed := (bitmap_changed s \<or> ret \<noteq> 0 \<and> vm = Virgin_Bits)\<rparr>"
    using assms(3) by (auto simp: cov_step_def Let_def split: if_splits)
  have nth: "?v' ! i = (if i < n then unseen (?vi ! i) (?tr ! i) else ?vi ! i)" if "i < map_size s" for i
    using that assms(2) len by (simp add: nth_append)
  have bits: "bit (unseen v c) b \<longleftrightarrow> bit v b \<and> \<not> bit c b" for v c b
    by (auto simp: unseen_def bit_simps dest: bit_imp_le_length)
  have "pairs ?v' = {(i, b). i < map_size s \<and> bit (?v' ! i) b}"
    using len assms(2) by (simp add: pairs_def)
  also have "\<dots> = {(i, b). i < map_size s \<and> bit (?vi ! i) b \<and> \<not> (i < n \<and> bit (?tr ! i) b)}"
    by (rule Collect_cong) (auto simp del: nth_append simp: nth bits split: if_splits)
  also have "\<dots> = pairs ?vi - pairs (take n ?tr)"
    using len assms(2) by (auto simp: pairs_def)
  finally have "pairs ?v' = pairs ?vi - pairs (take n ?tr)" .
  moreover have "ret = 0 \<longleftrightarrow> pairs ?vi \<inter> pairs (take n ?tr) = {}"
  proof -
    have "ret = 0 \<longleftrightarrow> (\<forall>i < n. ?tr ! i AND ?vi ! i = 0)"
      using len assms(2) by (simp add: ret novelty_eq_0_iff)
    also have "\<dots> \<longleftrightarrow> (\<forall>i < n. \<forall>b. \<not> (bit (?tr ! i) b \<and> bit (?vi ! i) b))"
    proof -
      have "x AND y = 0 \<longleftrightarrow> (\<forall>b. \<not> (bit x b \<and> bit y b))" for x y :: u8
      proof
        assume "\<forall>b. \<not> (bit x b \<and> bit y b)"
        then show "x AND y = 0" by (intro bit_word_eqI) (simp add: bit_simps)
      next
        assume "x AND y = 0"
        then have "\<not> bit (x AND y) b" for b by simp
        then show "\<forall>b. \<not> (bit x b \<and> bit y b)" by (simp add: bit_simps)
      qed
      then show ?thesis by simp
    qed
    also have "\<dots> \<longleftrightarrow> pairs ?vi \<inter> pairs (take n ?tr) = {}"
    proof -
      have "pairs ?vi \<inter> pairs (take n ?tr) = {(i, b). i < n \<and> bit (?tr ! i) b \<and> bit (?vi ! i) b}"
        using len assms(2) by (auto simp: pairs_def)
      then show ?thesis by auto
    qed
    finally show ?thesis .
  qed
  moreover have "ret = 2 \<longleftrightarrow> (\<exists>i < n. ?tr ! i \<noteq> 0 \<and> ?vi ! i = 255)"
    using len assms(2) by (auto simp: ret novelty_eq_2_iff)
  moreover have "ret \<le> 2" unfolding ret by (rule novelty_le) (use len in simp)
  moreover have "wf_cov s'" unfolding s' using assms len by (simp add: wf_cov_set_virgin)
  ultimately show ?thesis
    by (auto simp: records_coverage_def Let_def s')
qed

section \<open>A concrete map\<close>

definition class_table :: "u16 list" where
  "class_table = map (\<lambda>i. class_entry (i div 256) (i mod 256)) [0..<65536]"

lemma class_table_ok: "table_ok class_table"
proof -
  have "b1 * 256 + b2 < 65536" "(b1 * 256 + b2) div 256 = b1" "(b1 * 256 + b2) mod 256 = b2"
    if "b1 < 256" "b2 < 256" for b1 b2 :: nat
    using that by auto
  then show ?thesis by (auto simp: table_ok_def class_table_def simp del: upt_conv_Cons)
qed

definition demo_cov :: cov where
  "demo_cov = \<lparr>trace_bits = [1, 0, 5] @ replicate 61 0, map_size = 64, real_map_size = 3,
     virgin_bits = replicate 64 255, virgin_tmout = replicate 64 255, virgin_crash = replicate 64 255,
     bitmap_changed = False, count_class_lookup16 = class_table\<rparr>"

lemma demo_cov_wf: "wf_cov demo_cov"
  using class_table_ok by (simp add: wf_cov_def demo_cov_def)

section \<open>Properties\<close>

text \<open>
  C10: \<open>has_new_bits\<close>, in its 64-bit and its 32-bit version, removes the pairs of edge and bucket
  that the trace hit from the virgin map, and nothing else. It returns 0 exactly when none of
  them was virgin, 2 exactly when a hit edge had no bucket seen before; it reports a change of the
  main map only, and never accesses memory outside the maps.
\<close>

theorem has_new_bits_refines:
  assumes "wf_cov s"
  shows "(\<exists>ret s'. has_new_bits TYPE(64) vm s = Inr (ret, s') \<and> records_coverage (looked_at 8 s) vm s ret s')
    \<and> (\<exists>ret s'. has_new_bits TYPE(32) vm s = Inr (ret, s') \<and> records_coverage (looked_at 4 s) vm s ret s')"
proof -
  have le: "looked_at 8 s \<le> map_size s" "looked_at 4 s \<le> map_size s"
    using looked_at_le [OF assms, of 8] looked_at_le [OF assms, of 4] by simp_all
  have "has_new_bits TYPE(64) vm s = Inr (cov_step (looked_at 8 s) vm s)"
    "has_new_bits TYPE(32) vm s = Inr (cov_step (looked_at 4 s) vm s)"
    using has_new_bits_eval [OF assms, where ?'w = 64] has_new_bits_eval [OF assms, where ?'w = 32] by simp_all
  then show ?thesis
    using cov_step_records [OF assms le(1)] cov_step_records [OF assms le(2)] by (metis surj_pair)
qed

theorem has_new_bits_refines_witness:
  "(\<exists>ret s'. has_new_bits TYPE(64) Virgin_Bits demo_cov = Inr (ret, s')
      \<and> records_coverage (looked_at 8 demo_cov) Virgin_Bits demo_cov ret s')
   \<and> (\<exists>ret s'. has_new_bits TYPE(32) Virgin_Bits demo_cov = Inr (ret, s')
      \<and> records_coverage (looked_at 4 demo_cov) Virgin_Bits demo_cov ret s')"
  by (rule has_new_bits_refines [OF demo_cov_wf])

text \<open>
  recording a trace is final: after \<open>has_new_bits\<close>, a second call with the same trace
  returns 0 and changes nothing.
\<close>

theorem has_new_bits_twice:
  assumes "wf_cov s" "has_new_bits TYPE(64) vm s = Inr (ret, s')"
  shows "has_new_bits TYPE(64) vm s' = Inr (0, s')"
proof -
  have le: "looked_at 8 s \<le> map_size s" using looked_at_le [OF assms(1), of 8] by simp
  have e: "has_new_bits TYPE(64) vm t = Inr (cov_step (looked_at 8 t) vm t)" if "wf_cov t" for t
    using has_new_bits_eval [OF that, where ?'w = 64] by simp
  have c: "cov_step (looked_at 8 s) vm s = (ret, s')" using assms(2) e [OF assms(1)] by simp
  have "wf_cov s'" using cov_step_records [OF assms(1) le c] by (simp add: records_coverage_def Let_def)
  moreover have "looked_at 8 s' = looked_at 8 s"
    using c by (auto simp: cov_step_def Let_def looked_at_def split: if_splits)
  ultimately show ?thesis using e [of s'] cov_step_repeat [OF assms(1) le, of vm] c by simp
qed

theorem has_new_bits_twice_witness:
  "\<exists>s'. has_new_bits TYPE(64) Virgin_Crash demo_cov = Inr (2, s') \<and> has_new_bits TYPE(64) Virgin_Crash s' = Inr (0, s')"
proof -
  have "looked_at 8 demo_cov = 8" by (simp add: looked_at_def demo_cov_def)
  then have "fst (cov_step (looked_at 8 demo_cov) Virgin_Crash demo_cov) = 2"
    by (simp add: cov_step_def Let_def demo_cov_def novelty_def novelty8_def numeral_eq_Suc)
  moreover have "has_new_bits TYPE(64) Virgin_Crash demo_cov = Inr (cov_step (looked_at 8 demo_cov) Virgin_Crash demo_cov)"
    using has_new_bits_eval [OF demo_cov_wf, where ?'w = 64] by simp
  ultimately have "has_new_bits TYPE(64) Virgin_Crash demo_cov =
      Inr (2, snd (cov_step (looked_at 8 demo_cov) Virgin_Crash demo_cov))"
    by (metis prod.collapse)
  then show ?thesis using has_new_bits_twice [OF demo_cov_wf] by blast
qed

text \<open>
  C11: the fast path of \<open>has_new_bits_unclassified\<close> is exact: it returns what classifying the trace
  and calling \<open>has_new_bits\<close> returns and leaves the same state, except that when the answer is 0 by
  the fast path the trace keeps its raw counts.
\<close>

theorem unclassified_equiv:
  assumes "wf_cov s"
  shows "\<exists>ret s1 s2. ebind (classify_counts TYPE(64) s) (has_new_bits TYPE(64) vm) = Inr (ret, s1)
    \<and> has_new_bits_unclassified TYPE(64) vm s = Inr (ret, s2)
    \<and> (s2 = s1 \<or> ret = 0 \<and> s2 = s \<and> s1 = s\<lparr>trace_bits := map class8 (trace_bits s)\<rparr>)"
proof -
  let ?s = "s\<lparr>trace_bits := map class8 (trace_bits s)\<rparr>" and ?n = "looked_at 8 s"
  have len: "length (trace_bits s) = map_size s" "length (get_virgin vm s) = map_size s"
    using assms wf_cov_virgin [OF assms] by (simp_all add: wf_cov_def)
  have n: "looked_at 8 ?s = ?n" "?n \<le> map_size s"
    using looked_at_le [OF assms, of 8] by (simp_all add: looked_at_def)
  have cl: "classify_counts TYPE(64) s = Inr ?s" using classify_counts_eval [of s, where ?'w = 64] assms by (simp add: wf_cov_def)
  have "wf_cov ?s" using assms len by (intro wf_cov_trace) simp_all
  then have hn: "has_new_bits TYPE(64) vm ?s = Inr (cov_step ?n vm ?s)"
    using has_new_bits_eval [of ?s, where ?'w = 64] n by simp
  have un: "has_new_bits_unclassified TYPE(64) vm s =
      (if novelty (map class8 (trace_bits s)) (get_virgin vm s) = 0 then Inr (0, s) else Inr (cov_step ?n vm ?s))"
    using unclassified_eval [OF assms, where ?'w = 64] by (simp add: cl hn)
  show ?thesis
  proof (cases "novelty (map class8 (trace_bits s)) (get_virgin vm s) = 0")
    case True
    let ?tr = "take ?n (map class8 (trace_bits s))" and ?vi = "take ?n (get_virgin vm s)"
    have "novelty ?tr ?vi = 0" using True len n(2) by (simp add: novelty_eq_0_iff)
    moreover from this have "map2 unseen ?vi ?tr = ?vi"
      using len n(2) by (intro novelty_0_unchanged) simp_all
    ultimately have "cov_step ?n vm ?s = (0, ?s)"
      by (cases vm) (simp_all add: cov_step_def Let_def)
    then show ?thesis using True cl hn un by simp
  next
    case False
    then show ?thesis using cl hn un by (cases "cov_step ?n vm ?s") simp
  qed
qed

theorem unclassified_equiv_witness:
  "\<exists>ret s1 s2. ebind (classify_counts TYPE(64) demo_cov) (has_new_bits TYPE(64) Virgin_Bits) = Inr (ret, s1)
    \<and> has_new_bits_unclassified TYPE(64) Virgin_Bits demo_cov = Inr (ret, s2)
    \<and> (s2 = s1 \<or> ret = 0 \<and> s2 = demo_cov \<and> s1 = demo_cov\<lparr>trace_bits := map class8 (trace_bits demo_cov)\<rparr>)"
  by (rule unclassified_equiv [OF demo_cov_wf])

text \<open>The buckets of hit counts, as the documentation lists them: 1, 2, 3, 4-7, 8-15, 16-31, 32-127, 128+.\<close>

definition bucket :: "u8 \<Rightarrow> u8" where
  "bucket b = (let n = unat b in
     if n = 0 then 0 else if n = 1 then 1 else if n = 2 then 2 else if n = 3 then 4 else if n \<le> 7 then 8
     else if n \<le> 15 then 16 else if n \<le> 31 then 32 else if n \<le> 127 then 64 else 128)"

lemma class8_bucket: "class8 b = bucket b"
proof -
  have n: "[0, 1, 2, 4] ! n = (if n = 0 then 0 else if n = 1 then 1 else if n = 2 then 2 else (4 :: u8))"
    if "n < 4" for n
    using that by (auto simp: nth_Cons')
  show ?thesis
    using u8_bound [of b] by (auto simp: class8_def bucket_def count_class_lookup8_def Let_def nth_append n)
qed

definition raw_cov :: cov where
  "raw_cov = demo_cov\<lparr>count_class_lookup16 := replicate 65536 0\<rparr>"

text \<open>
  C12: once \<open>init_count_class16\<close> has filled the table of counter pairs, \<open>classify_counts\<close> replaces
  every hit count by its bucket, in its 64-bit and its 32-bit version, although it works on pairs
  of counters and skips words that are zero.
\<close>

theorem classify_counts_buckets:
  assumes "length (count_class_lookup16 s) = 65536" "map_size s mod 64 = 0" "map_size s = length (trace_bits s)"
  shows "\<exists>s1. init_count_class16 s = Inr s1
    \<and> classify_counts TYPE(64) s1 = Inr (s1\<lparr>trace_bits := map bucket (trace_bits s)\<rparr>)
    \<and> classify_counts32 s1 = Inr (s1\<lparr>trace_bits := map bucket (trace_bits s)\<rparr>)"
proof -
  obtain tbl where tbl: "init_count_class16 s = Inr (s\<lparr>count_class_lookup16 := tbl\<rparr>)" "table_ok tbl"
    using init_count_class16_ok [OF assms(1)] by blast
  have "class8 = bucket" by (rule ext) (rule class8_bucket)
  then show ?thesis
    using classify_counts_eval [of "s\<lparr>count_class_lookup16 := tbl\<rparr>", where ?'w = 64]
      classify_counts_eval [of "s\<lparr>count_class_lookup16 := tbl\<rparr>", where ?'w = 32] tbl assms
    by (simp add: header32_defs)
qed

theorem classify_counts_buckets_witness:
  "\<exists>s1. init_count_class16 raw_cov = Inr s1
    \<and> classify_counts TYPE(64) s1 = Inr (s1\<lparr>trace_bits := [1, 0, 8] @ replicate 61 0\<rparr>)
    \<and> classify_counts32 s1 = Inr (s1\<lparr>trace_bits := [1, 0, 8] @ replicate 61 0\<rparr>)"
  using classify_counts_buckets [of raw_cov] by (simp add: raw_cov_def demo_cov_def bucket_def)

text \<open>
  \<open>simplify_trace\<close> maps a counter to 1 if it is 0 and to 128 otherwise, in both versions, so
  two traces have the same simplified form exactly when they hit the same edges.
\<close>

theorem simplify_trace_edges:
  assumes "sz mod 64 = 0" "length a = sz" "length b = sz"
  shows "simplify_trace TYPE(64) sz a = Inr (map (\<lambda>c. if c = 0 then 1 else 128) a)
    \<and> simplify_trace32 sz a = simplify_trace TYPE(64) sz a
    \<and> (simplify_trace TYPE(64) sz a = simplify_trace TYPE(64) sz b \<longleftrightarrow> (\<forall>i < sz. a ! i = 0 \<longleftrightarrow> b ! i = 0))"
proof -
  have d: "8 dvd sz" "4 dvd sz" using assms(1) dvd_trans [of 8 64 sz] dvd_trans [of 4 64 sz] by auto
  have e: "simplify_trace TYPE(64) sz m = Inr (map (\<lambda>c. if c = 0 then 1 else 128) m)"
    "simplify_trace TYPE(32) sz m = Inr (map (\<lambda>c. if c = 0 then 1 else 128) m)" if "length m = sz" for m
    using simplify_trace_eval [of sz m, where ?'w = 64] simplify_trace_eval [of sz m, where ?'w = 32] that d
    by simp_all
  have "map (\<lambda>c. if c = 0 then 1 else 128 :: u8) a = map (\<lambda>c. if c = 0 then 1 else 128) b
      \<longleftrightarrow> (\<forall>i < sz. a ! i = 0 \<longleftrightarrow> b ! i = 0)"
    using assms(2,3) by (auto simp: list_eq_iff_nth_eq split: if_splits)
  with assms e show ?thesis by (simp add: header32_defs)
qed

theorem simplify_trace_edges_witness:
  "simplify_trace TYPE(64) 64 (7 # replicate 63 0) = simplify_trace TYPE(64) 64 (9 # replicate 63 0)"
  using simplify_trace_edges [of 64 "7 # replicate 63 0" "9 # replicate 63 0"] by (auto simp: nth_Cons' split: if_splits)

end
