(* ===== verification/AFL_Sha1.thy ===== *)
theory AFL_Sha1
  imports AFL_Words
begin

text \<open>
  The SHA-1 code of \<^verbatim>\<open>src/afl-performance.c\<close>, which names the files of the queue: the incremental
  hash over a circular word buffer, HMAC, and the hexadecimal form. The second half states
  FIPS 180-2 in the standard's own terms; \<open>AFL_Sha1Props\<close> proves that the code computes it.
\<close>

section \<open>State\<close>

record sha1nfo =
  sha_buffer :: "u32 list"
  sha_state :: "u32 list"
  byteCount :: u32
  bufferOffset :: nat
  keyBuffer :: bytes
  innerHash :: bytes

definition BLOCK_LENGTH :: nat where "BLOCK_LENGTH = 64"
definition HASH_LENGTH :: nat where "HASH_LENGTH = 20"

definition sha1_init :: "sha1nfo \<Rightarrow> sha1nfo" where
  "sha1_init s = s\<lparr>sha_state := [0x67452301, 0xefcdab89, 0x98badcfe, 0x10325476, 0xc3d2e1f0],
                   byteCount := 0, bufferOffset := 0\<rparr>"

section \<open>The block function\<close>

definition sha1_rol32 :: "u32 \<Rightarrow> nat \<Rightarrow> u32" where
  "sha1_rol32 number bits = push_bit bits number OR drop_bit (32 - bits) number"

definition SHA1_K0 :: u32 where "SHA1_K0 = 0x5a827999"
definition SHA1_K20 :: u32 where "SHA1_K20 = 0x6ed9eba1"
definition SHA1_K40 :: u32 where "SHA1_K40 = 0x8f1bbcdc"
definition SHA1_K60 :: u32 where "SHA1_K60 = 0xca62c1d6"

type_synonym regs = "u32 \<times> u32 \<times> u32 \<times> u32 \<times> u32"

text \<open>One pass of the loop: the circular message schedule, then the registers.\<close>

definition schedule_step :: "nat \<Rightarrow> u32 list \<Rightarrow> u32 list" where
  "schedule_step i buf =
     (if 16 \<le> i then
        let t = buf ! ((i + 13) AND 15) XOR buf ! ((i + 8) AND 15) XOR buf ! ((i + 2) AND 15) XOR buf ! (i AND 15)
        in buf[i AND 15 := sha1_rol32 t 1]
      else buf)"

definition hash_round :: "nat \<Rightarrow> u32 \<Rightarrow> regs \<Rightarrow> regs" where
  "hash_round i w = (\<lambda>(a, b, c, d, e).
     let t = (if i < 20 then (d XOR (b AND (c XOR d))) + SHA1_K0
              else if i < 40 then (b XOR c XOR d) + SHA1_K20
              else if i < 60 then ((b AND c) OR (d AND (b OR c))) + SHA1_K40
              else (b XOR c XOR d) + SHA1_K60);
         t = t + (sha1_rol32 a 5 + e + w)
     in (t, a, sha1_rol32 b 30, c, d))"

definition hash_step :: "nat \<Rightarrow> u32 list \<times> regs \<Rightarrow> (u32 list \<times> regs) res" where
  "hash_step i = (\<lambda>(buf, r).
     let buf = schedule_step i buf in Inr (buf, hash_round i (buf ! (i AND 15)) r))"

definition sha1_hashBlock :: "sha1nfo \<Rightarrow> sha1nfo res" where
  "sha1_hashBlock s =
     (let st = sha_state s in
      ebind (count_loop 80 0 hash_step (sha_buffer s, (st ! 0, st ! 1, st ! 2, st ! 3, st ! 4)))
        (\<lambda>(buf, (a, b, c, d, e)).
           Inr (s\<lparr>sha_buffer := buf, sha_state := [st ! 0 + a, st ! 1 + b, st ! 2 + c, st ! 3 + d, st ! 4 + e]\<rparr>)))"

section \<open>Adding bytes\<close>

text \<open>The word buffer written as bytes on a little-endian host.\<close>

definition set_byte :: "u32 list \<Rightarrow> nat \<Rightarrow> u8 \<Rightarrow> u32 list res" where
  "set_byte ws i v =
     (if i < 4 * length ws then Inr (ws[i div 4 := unchunks ((chunks (ws ! (i div 4)) :: u8 list)[i mod 4 := v])])
      else Inl Fault)"

definition sha1_addUncounted :: "u8 \<Rightarrow> sha1nfo \<Rightarrow> sha1nfo res" where
  "sha1_addUncounted data s =
     ebind (set_byte (sha_buffer s) (bufferOffset s XOR 3) data) (\<lambda>buf.
       let s = s\<lparr>sha_buffer := buf, bufferOffset := (bufferOffset s + 1) mod 2 ^ 8\<rparr> in
       if bufferOffset s = BLOCK_LENGTH
       then ebind (sha1_hashBlock s) (\<lambda>s. Inr (s\<lparr>bufferOffset := 0\<rparr>))
       else Inr s)"

definition sha1_writebyte :: "u8 \<Rightarrow> sha1nfo \<Rightarrow> sha1nfo res" where
  "sha1_writebyte data s = sha1_addUncounted data (s\<lparr>byteCount := byteCount s + 1\<rparr>)"

primrec sha1_write :: "bytes \<Rightarrow> sha1nfo \<Rightarrow> sha1nfo res" where
  "sha1_write [] s = Inr s"
| "sha1_write (b # data) s = ebind (sha1_writebyte b s) (sha1_write data)"

definition pad_zeros :: "sha1nfo \<Rightarrow> sha1nfo res" where
  "pad_zeros = run_loop (\<lambda>s. if bufferOffset s \<noteq> 56
     then ebind (sha1_addUncounted 0x00 s) (\<lambda>s. Inr (Cont s)) else Inr (Break s))"

primrec add_all :: "bytes \<Rightarrow> sha1nfo \<Rightarrow> sha1nfo res" where
  "add_all [] s = Inr s"
| "add_all (b # bs) s = ebind (sha1_addUncounted b s) (add_all bs)"

definition length_bytes :: "u32 \<Rightarrow> bytes" where
  "length_bytes n = [0, 0, 0, ucast (drop_bit 29 n), ucast (drop_bit 21 n), ucast (drop_bit 13 n),
     ucast (drop_bit 5 n), ucast (push_bit 3 n)]"

definition sha1_pad :: "sha1nfo \<Rightarrow> sha1nfo res" where
  "sha1_pad s =
     ebind (sha1_addUncounted 0x80 s) (\<lambda>s.
     ebind (pad_zeros s) (\<lambda>s. add_all (length_bytes (byteCount s)) s))"

text \<open>The digest is the memory of \<open>state\<close> after its words were swapped to big endian.\<close>

definition swap_word :: "u32 \<Rightarrow> u32" where
  "swap_word w = (push_bit 24 w AND 0xff000000) OR (push_bit 8 w AND 0x00ff0000)
     OR (drop_bit 8 w AND 0x0000ff00) OR (drop_bit 24 w AND 0x000000ff)"

definition sha1_result :: "sha1nfo \<Rightarrow> (bytes \<times> sha1nfo) res" where
  "sha1_result s = ebind (sha1_pad s) (\<lambda>s.
     let s = s\<lparr>sha_state := map swap_word (sha_state s)\<rparr>
     in Inr (concat (map chunks (sha_state s)), s))"

section \<open>HMAC, one-shot digest, hexadecimal form\<close>

definition xor_pad :: "u8 \<Rightarrow> bytes \<Rightarrow> bytes" where
  "xor_pad p key = map (\<lambda>k. k XOR p) key"

definition sha1_initHmac :: "bytes \<Rightarrow> sha1nfo \<Rightarrow> sha1nfo res" where
  "sha1_initHmac key s =
     ebind (if BLOCK_LENGTH < length key
            then ebind (sha1_write key (sha1_init (s\<lparr>keyBuffer := replicate BLOCK_LENGTH 0\<rparr>))) (\<lambda>s.
                 ebind (sha1_result s) (\<lambda>(digest, s).
                 ebind (memcpy (keyBuffer s) 0 digest 0 HASH_LENGTH) (\<lambda>kb. Inr (s\<lparr>keyBuffer := kb\<rparr>))))
            else ebind (memcpy (replicate BLOCK_LENGTH 0) 0 key 0 (length key)) (\<lambda>kb. Inr (s\<lparr>keyBuffer := kb\<rparr>)))
       (\<lambda>s. sha1_write (xor_pad 0x36 (take BLOCK_LENGTH (keyBuffer s))) (sha1_init s))"

definition sha1_resultHmac :: "sha1nfo \<Rightarrow> (bytes \<times> sha1nfo) res" where
  "sha1_resultHmac s =
     ebind (sha1_result s) (\<lambda>(inner, s).
     let s = sha1_init (s\<lparr>innerHash := inner\<rparr>) in
     ebind (sha1_write (xor_pad 0x5c (take BLOCK_LENGTH (keyBuffer s))) s) (\<lambda>s.
     ebind (sha1_write (take HASH_LENGTH (innerHash s)) s) sha1_result))"

text \<open>\<open>s0\<close> is the uninitialised local variable.\<close>

definition sha1 :: "sha1nfo \<Rightarrow> bytes \<Rightarrow> bytes res" where
  "sha1 s0 data =
     ebind (sha1_write data (sha1_init s0)) (\<lambda>s.
     ebind (sha1_result s) (\<lambda>(digest, s). Inr (take HASH_LENGTH digest)))"

definition hex_digit :: "nat \<Rightarrow> u8" where
  "hex_digit n = (if n < 10 then of_nat (48 + n) else of_nat (87 + n))"

definition sprintf_02x :: "bytes \<Rightarrow> nat \<Rightarrow> u8 \<Rightarrow> bytes res" where
  "sprintf_02x buf i v = memcpy buf i [hex_digit (unat v div 16), hex_digit (unat v mod 16), 0] 0 3"

definition sha1_hex :: "sha1nfo \<Rightarrow> bytes \<Rightarrow> bytes res" where
  "sha1_hex s0 data =
     ebind (sha1 s0 data) (\<lambda>digest.
       count_loop HASH_LENGTH 0 (\<lambda>i hex. sprintf_02x hex (i * 2) (digest ! i)) (replicate (HASH_LENGTH * 2 + 1) 0))"

section \<open>FIPS 180-2\<close>

fun fips_W :: "u32 list \<Rightarrow> nat \<Rightarrow> u32" where
  "fips_W m t = (if t < 16 then m ! t
     else sha1_rol32 (fips_W m (t - 3) XOR fips_W m (t - 8) XOR fips_W m (t - 14) XOR fips_W m (t - 16)) 1)"

declare fips_W.simps [simp del]

definition fips_f :: "nat \<Rightarrow> u32 \<Rightarrow> u32 \<Rightarrow> u32 \<Rightarrow> u32" where
  "fips_f t x y z =
     (if t \<le> 19 then (x AND y) XOR (NOT x AND z)
      else if t \<le> 39 then x XOR y XOR z
      else if t \<le> 59 then (x AND y) XOR (x AND z) XOR (y AND z)
      else x XOR y XOR z)"

definition fips_K :: "nat \<Rightarrow> u32" where
  "fips_K t = (if t \<le> 19 then 0x5a827999 else if t \<le> 39 then 0x6ed9eba1 else if t \<le> 59 then 0x8f1bbcdc else 0xca62c1d6)"

definition fips_round :: "u32 list \<Rightarrow> nat \<Rightarrow> regs \<Rightarrow> regs" where
  "fips_round m t = (\<lambda>(a, b, c, d, e).
     (sha1_rol32 a 5 + fips_f t b c d + e + fips_K t + fips_W m t, a, sha1_rol32 b 30, c, d))"

definition be_word :: "bytes \<Rightarrow> nat \<Rightarrow> u32" where
  "be_word bs i = unchunks (rev (take 4 (drop (4 * i) bs)))"

definition fips_compress :: "u32 list \<Rightarrow> bytes \<Rightarrow> u32 list" where
  "fips_compress h block =
     (let m = map (be_word block) [0..<16];
          (a, b, c, d, e) = fold (fips_round m) [0..<80] (h ! 0, h ! 1, h ! 2, h ! 3, h ! 4)
      in [a + h ! 0, b + h ! 1, c + h ! 2, d + h ! 3, e + h ! 4])"

function fips_blocks :: "u32 list \<Rightarrow> bytes \<Rightarrow> u32 list" where
  "fips_blocks h bs = (if length bs < 64 then h else fips_blocks (fips_compress h (take 64 bs)) (drop 64 bs))"
  by auto
termination by (relation "measure (\<lambda>(h, bs). length bs)") auto

declare fips_blocks.simps [simp del]

definition be_bytes64 :: "nat \<Rightarrow> bytes" where
  "be_bytes64 n = map (\<lambda>k. of_nat (n div 256 ^ k)) (rev [0..<8])"

text \<open>Append a bit 1, the least number of zero bits and the length of the message in bits.\<close>

definition fips_pad :: "bytes \<Rightarrow> bytes" where
  "fips_pad m = m @ [0x80] @ replicate ((119 - length m mod 64) mod 64) 0 @ be_bytes64 (8 * length m)"

definition fips_sha1 :: "bytes \<Rightarrow> bytes" where
  "fips_sha1 m = concat (map (\<lambda>w. rev (chunks w))
     (fips_blocks [0x67452301, 0xefcdab89, 0x98badcfe, 0x10325476, 0xc3d2e1f0] (fips_pad m)))"

definition hmac_key :: "bytes \<Rightarrow> bytes" where
  "hmac_key k = (let k' = if length k \<le> 64 then k else fips_sha1 k in k' @ replicate (64 - length k') 0)"

definition hmac_sha1 :: "bytes \<Rightarrow> bytes \<Rightarrow> bytes" where
  "hmac_sha1 k m = fips_sha1 (map (\<lambda>b. b XOR 0x5c) (hmac_key k)
     @ fips_sha1 (map (\<lambda>b. b XOR 0x36) (hmac_key k) @ m))"

end
