(* ===== verification/AFL_Sha1Props.thy ===== *)
theory AFL_Sha1Props
  imports AFL_Sha1
begin

text \<open>
  The SHA-1 code computes FIPS 180-2: first the block function, then the byte-wise absorption of a
  message (a representation relation between a byte sequence and the incremental state), padding,
  digest and HMAC.
\<close>

section \<open>The block function\<close>

lemma fips_f_code:
  "fips_f i b c d = (if i < 20 then d XOR (b AND (c XOR d)) else if i < 40 then b XOR c XOR d
      else if i < 60 then (b AND c) OR (d AND (b OR c)) else b XOR c XOR d)"
proof -
  have "(b AND c) XOR (NOT b AND d) = d XOR (b AND (c XOR d))"
    "(b AND c) XOR (b AND d) XOR (c AND d) = (b AND c) OR (d AND (b OR c))"
    by (rule bit_word_eqI; simp add: bit_simps; blast)+
  then show ?thesis by (simp add: fips_f_def)
qed

lemma hash_round_fips: "hash_round i (fips_W m i) r = fips_round m i r"
proof -
  obtain a b c d e where r: "r = (a, b, c, d, e)" by (cases r)
  have k: "fips_K i = (if i < 20 then SHA1_K0 else if i < 40 then SHA1_K20 else if i < 60 then SHA1_K40 else SHA1_K60)"
    by (simp add: fips_K_def SHA1_K0_def SHA1_K20_def SHA1_K40_def SHA1_K60_def)
  show ?thesis by (simp add: hash_round_def fips_round_def r k fips_f_code algebra_simps Let_def)
qed

lemma and_15: "(i :: nat) AND 15 = i mod 16"
  using take_bit_eq_mask [of 4 i] by (simp add: take_bit_eq_mod mask_eq_exp_minus_1)

text \<open>The circular buffer before round \<open>i\<close> holds the last sixteen words of the schedule.\<close>

definition holds_schedule :: "u32 list \<Rightarrow> nat \<Rightarrow> u32 list \<Rightarrow> bool" where
  "holds_schedule m i buf \<longleftrightarrow> length buf = 16 \<and>
     (\<forall>t. i \<le> t + 16 \<longrightarrow> t < max i 16 \<longrightarrow> buf ! (t mod 16) = fips_W m t)"

lemma schedule_step_holds:
  assumes "holds_schedule m i buf"
  shows "holds_schedule m (Suc i) (schedule_step i buf)"
    and "schedule_step i buf ! (i AND 15) = fips_W m i"
proof -
  have w: "buf ! (t mod 16) = fips_W m t" if "i \<le> t + 16" "t < max i 16" for t
    using assms that by (simp add: holds_schedule_def)
  have len: "length buf = 16" using assms by (simp add: holds_schedule_def)
  show "schedule_step i buf ! (i AND 15) = fips_W m i"
  proof (cases "i < 16")
    case True
    then show ?thesis using w [of i] by (simp add: schedule_step_def and_15)
  next
    case False
    then have "i + 13 = (i - 3) + 16" "i + 8 = (i - 8) + 16" "i + 2 = (i - 14) + 16" "i = (i - 16) + 16"
      by simp_all
    then have m: "(i + 13) mod 16 = (i - 3) mod 16" "(i + 8) mod 16 = (i - 8) mod 16"
      "(i + 2) mod 16 = (i - 14) mod 16" "i mod 16 = (i - 16) mod 16"
      by (metis mod_add_self2)+
    have "fips_W m i = sha1_rol32 (buf ! ((i + 13) mod 16) XOR buf ! ((i + 8) mod 16) XOR buf ! ((i + 2) mod 16) XOR buf ! (i mod 16)) 1"
      unfolding m using False w [of "i - 3"] w [of "i - 8"] w [of "i - 14"] w [of "i - 16"]
      by (subst fips_W.simps) simp
    then show ?thesis using False len by (simp add: schedule_step_def and_15 Let_def)
  qed
  then have new: "schedule_step i buf ! (i mod 16) = fips_W m i" by (simp add: and_15)
  have "schedule_step i buf ! (t mod 16) = fips_W m t" if t: "Suc i \<le> t + 16" "t < max (Suc i) 16" for t
  proof (cases "t = i")
    case True
    then show ?thesis using new by simp
  next
    case ne: False
    show ?thesis
    proof (cases "i < 16")
      case True
      then show ?thesis using w [of t] t ne by (simp add: schedule_step_def)
    next
      case False
      then have le: "t < i" "i - t < 16" using t ne by auto
      have "t mod 16 \<noteq> i mod 16"
      proof
        assume "t mod 16 = i mod 16"
        then have "16 dvd i - t" using le(1) mod_eq_dvd_iff_nat [of t i 16] by simp
        then have "16 \<le> i - t" using le(1) by (intro dvd_imp_le) simp_all
        with le(2) show False by simp
      qed
      then show ?thesis using w [of t] t ne False by (simp add: schedule_step_def and_15 Let_def)
    qed
  qed
  then show "holds_schedule m (Suc i) (schedule_step i buf)"
    using len by (simp add: holds_schedule_def schedule_step_def Let_def)
qed

lemma hash_step_eq:
  "hash_step i br = Inr (schedule_step i (fst br), hash_round i (schedule_step i (fst br) ! (i AND 15)) (snd br))"
  by (cases br) (simp add: hash_step_def Let_def)

lemma hashBlock_fips:
  assumes "length (sha_buffer s) = 16"
  shows "\<exists>buf. length buf = 16 \<and> sha1_hashBlock s = Inr (s\<lparr>sha_buffer := buf,
    sha_state := (let (a, b, c, d, e) = fold (fips_round (sha_buffer s)) [0..<80]
        (sha_state s ! 0, sha_state s ! 1, sha_state s ! 2, sha_state s ! 3, sha_state s ! 4)
      in [a + sha_state s ! 0, b + sha_state s ! 1, c + sha_state s ! 2, d + sha_state s ! 3, e + sha_state s ! 4])\<rparr>)"
proof -
  let ?m = "sha_buffer s" and ?st = "sha_state s"
  let ?r = "(?st ! 0, ?st ! 1, ?st ! 2, ?st ! 3, ?st ! 4)"
  define I where "I i br \<longleftrightarrow> holds_schedule ?m i (fst br) \<and> snd br = fold (fips_round ?m) [0..<i] ?r" for i br
  have "\<exists>br'. hash_step i br = Inr br' \<and> I (Suc i) br'" if "I i br" for i br
    using that schedule_step_holds [of ?m i "fst br"]
    by (simp add: I_def hash_step_eq hash_round_fips)
  moreover have "I 0 (?m, ?r)"
    using assms by (simp add: I_def holds_schedule_def fips_W.simps)
  ultimately have "\<exists>br'. count_loop 80 0 hash_step (?m, ?r) = Inr br' \<and> I (0 + 80) br'"
    by (intro count_loop_inv [where I = I]) simp_all
  then obtain buf r where l: "count_loop 80 0 hash_step (?m, ?r) = Inr (buf, r)" "length buf = 16"
    "r = fold (fips_round ?m) [0..<80] ?r"
    by (auto simp: I_def holds_schedule_def)
  obtain a b c d e where r: "r = (a, b, c, d, e)" by (cases r)
  then have f: "fold (fips_round ?m) [0..<80] ?r = (a, b, c, d, e)" using l(3) by simp
  have "sha1_hashBlock s = Inr (s\<lparr>sha_buffer := buf,
      sha_state := [?st ! 0 + a, ?st ! 1 + b, ?st ! 2 + c, ?st ! 3 + d, ?st ! 4 + e]\<rparr>)"
    unfolding sha1_hashBlock_def Let_def l(1) r by simp
  with l(2) show ?thesis unfolding f by (auto simp: add.commute)
qed

section \<open>The byte view of the buffer\<close>

definition block_byte :: "u32 list \<Rightarrow> nat \<Rightarrow> u8" where
  "block_byte ws i = (chunks (ws ! (i div 4)) :: u8 list) ! (3 - i mod 4)"

lemma xor_3:
  fixes i :: nat
  assumes "i < 64"
  shows "(i XOR 3) div 4 = i div 4" "(i XOR 3) mod 4 = 3 - i mod 4" "i XOR 3 < 64"
proof -
  have "list_all (\<lambda>i :: nat. (i XOR 3) div 4 = i div 4 \<and> (i XOR 3) mod 4 = 3 - i mod 4 \<and> i XOR 3 < 64) [0..<64]"
    by code_simp
  with assms show "(i XOR 3) div 4 = i div 4" "(i XOR 3) mod 4 = 3 - i mod 4" "i XOR 3 < 64"
    by (simp_all add: list_all_iff)
qed

lemma set_byte_block:
  assumes "length ws = 16" "i < 64"
  shows "\<exists>ws'. set_byte ws (i XOR 3) v = Inr ws' \<and> length ws' = 16
    \<and> (\<forall>j < 64. block_byte ws' j = (if j = i then v else block_byte ws j))"
proof -
  let ?u = "(chunks (ws ! (i div 4)) :: u8 list)[3 - i mod 4 := v]"
  let ?ws' = "ws[i div 4 := unchunks ?u]"
  have "block_byte ?ws' j = (if j = i then v else block_byte ws j)" if "j < 64" for j
  proof (cases "j div 4 = i div 4")
    case True
    have "j = i \<longleftrightarrow> 3 - i mod 4 = 3 - j mod 4"
    proof
      assume "3 - i mod 4 = 3 - j mod 4"
      then have "i mod 4 = j mod 4" by (metis diff_diff_cancel less_Suc_eq_le mod_less_divisor numeral_3_eq_3 numeral_eq_Suc pred_numeral_simps(2) zero_less_Suc semiring_norm(26) semiring_norm(27))
      with True show "j = i" by (metis mult_div_mod_eq)
    qed simp
    then show ?thesis using True assms by (auto simp: block_byte_def nth_list_update)
  next
    case False
    then show ?thesis by (auto simp: block_byte_def)
  qed
  then show ?thesis using assms xor_3 [OF assms(2)] by (simp add: set_byte_def)
qed

lemma be_word_block:
  assumes "length block = 64" "\<forall>i < 64. block_byte ws i = block ! i" "length ws = 16"
  shows "map (be_word block) [0..<16] = ws"
proof (rule nth_equalityI)
  fix i assume "i < length (map (be_word block) [0..<16])"
  then have i: "i < 16" by simp
  have "rev (take 4 (drop (4 * i) block)) = (chunks (ws ! i) :: u8 list)"
  proof (rule nth_equalityI)
    show "length (rev (take 4 (drop (4 * i) block))) = length (chunks (ws ! i) :: u8 list)"
      using assms(1) i by simp
    fix k assume "k < length (rev (take 4 (drop (4 * i) block)))"
    then have k: "k < 4" using assms(1) i by simp
    then have "rev (take 4 (drop (4 * i) block)) ! k = block ! (4 * i + (3 - k))"
      using assms(1) i by (simp add: rev_nth)
    also have "\<dots> = block_byte ws (4 * i + (3 - k))" using assms(2) i k by simp
    also have "\<dots> = (chunks (ws ! i) :: u8 list) ! k"
    proof -
      have d: "(4 * i + (3 - k)) div 4 = i" "(4 * i + (3 - k)) mod 4 = 3 - k"
        by (simp_all only: div_mult_self4 mod_mult_self4) (use k in simp_all)
      show ?thesis unfolding block_byte_def d using k by simp
    qed
    finally show "rev (take 4 (drop (4 * i) block)) ! k = (chunks (ws ! i) :: u8 list) ! k" .
  qed
  then show "map (be_word block) [0..<16] ! i = ws ! i" using i by (simp add: be_word_def)
qed (simp add: assms)

section \<open>Absorbing bytes\<close>

definition H0 :: "u32 list" where
  "H0 = [0x67452301, 0xefcdab89, 0x98badcfe, 0x10325476, 0xc3d2e1f0]"

lemma fips_blocks_short: "length bs < 64 \<Longrightarrow> fips_blocks h bs = h"
  by (subst fips_blocks.simps) simp

lemma fips_blocks_append:
  "length xs mod 64 = 0 \<Longrightarrow> fips_blocks h (xs @ ys) = fips_blocks (fips_blocks h xs) ys"
proof (induction h xs rule: fips_blocks.induct)
  case (1 h xs)
  show ?case
  proof (cases "length xs < 64")
    case True
    with "1.prems" show ?thesis by (simp add: fips_blocks_short)
  next
    case False
    then have "length (drop 64 xs) mod 64 = 0" using "1.prems" by (simp add: le_mod_geq)
    with False "1.IH" have ih: "fips_blocks (fips_compress h (take 64 xs)) (drop 64 xs @ ys)
        = fips_blocks (fips_blocks (fips_compress h (take 64 xs)) (drop 64 xs)) ys" by simp
    have "fips_blocks h (xs @ ys) = fips_blocks (fips_compress h (take 64 xs)) (drop 64 xs @ ys)"
      "fips_blocks h xs = fips_blocks (fips_compress h (take 64 xs)) (drop 64 xs)"
      using False by (subst fips_blocks.simps, simp)+
    with ih show ?thesis by simp
  qed
qed

lemma fips_blocks_one: "length b = 64 \<Longrightarrow> fips_blocks h b = fips_compress h b"
  by (subst fips_blocks.simps) (simp add: fips_blocks_short)

definition tail :: "bytes \<Rightarrow> bytes" where
  "tail bs = drop (64 * (length bs div 64)) bs"

text \<open>The incremental state after the bytes \<open>bs\<close>.\<close>

definition absorbed :: "bytes \<Rightarrow> sha1nfo \<Rightarrow> bool" where
  "absorbed bs s \<longleftrightarrow> bufferOffset s = length bs mod 64 \<and> sha_state s = fips_blocks H0 bs
     \<and> length (sha_buffer s) = 16
     \<and> (\<forall>i < length bs mod 64. block_byte (sha_buffer s) i = tail bs ! i)"

definition same_frame :: "sha1nfo \<Rightarrow> sha1nfo \<Rightarrow> bool" where
  "same_frame s s' \<longleftrightarrow> keyBuffer s' = keyBuffer s \<and> innerHash s' = innerHash s"

lemma length_tail: "length (tail bs) = length bs mod 64"
  by (simp add: tail_def minus_mult_div_eq_mod)

lemma fips_blocks_tail: "fips_blocks h bs = fips_blocks h (take (64 * (length bs div 64)) bs)"
proof -
  let ?p = "take (64 * (length bs div 64)) bs"
  have "length ?p = 64 * (length bs div 64)" by simp
  then have "length ?p mod 64 = 0" by (simp only: mod_mult_self1_is_0)
  then have "fips_blocks h (?p @ tail bs) = fips_blocks (fips_blocks h ?p) (tail bs)"
    by (rule fips_blocks_append)
  also have "\<dots> = fips_blocks h ?p" by (rule fips_blocks_short) (simp add: length_tail)
  finally show ?thesis by (simp add: tail_def)
qed

lemma length_compress: "length (fips_compress h b) = 5"
  by (simp add: fips_compress_def Let_def split: prod.splits)

lemma length_fips_blocks: "length h = 5 \<Longrightarrow> length (fips_blocks h bs) = 5"
  by (induction h bs rule: fips_blocks.induct) (subst fips_blocks.simps, simp add: length_compress)

lemma tail_snoc:
  "Suc (length bs mod 64) < 64 \<Longrightarrow> tail (bs @ [b]) = tail bs @ [b]"
  "Suc (length bs mod 64) = 64 \<Longrightarrow> tail (bs @ [b]) = []"
proof -
  have d: "Suc n div 64 = n div 64" if "Suc (n mod 64) < 64" for n :: nat
    using that by (simp add: div_Suc mod_Suc)
  have e: "64 * (Suc n div 64) = Suc n" if "Suc (n mod 64) = 64" for n :: nat
  proof -
    have "Suc n mod 64 = 0" using that by (simp add: mod_Suc)
    then show ?thesis using mult_div_mod_eq [of 64 "Suc n"] by simp
  qed
  have le: "64 * (length bs div 64) \<le> length bs" by simp
  show "Suc (length bs mod 64) < 64 \<Longrightarrow> tail (bs @ [b]) = tail bs @ [b]"
    using d [of "length bs"] le by (simp add: tail_def)
  show "Suc (length bs mod 64) = 64 \<Longrightarrow> tail (bs @ [b]) = []"
    using e [of "length bs"] by (simp add: tail_def)
qed

lemma fips_blocks_snoc:
  "Suc (length bs mod 64) < 64 \<Longrightarrow> fips_blocks h (bs @ [b]) = fips_blocks h bs"
  "Suc (length bs mod 64) = 64 \<Longrightarrow> fips_blocks h (bs @ [b]) = fips_compress (fips_blocks h bs) (tail bs @ [b])"
proof -
  let ?p = "take (64 * (length bs div 64)) bs"
  have "length ?p = 64 * (length bs div 64)" by simp
  then have p: "length ?p mod 64 = 0" by (simp only: mod_mult_self1_is_0)
  have "bs @ [b] = ?p @ (tail bs @ [b])" by (simp add: tail_def)
  then have s: "fips_blocks h (bs @ [b]) = fips_blocks (fips_blocks h bs) (tail bs @ [b])"
    by (simp only: fips_blocks_append [OF p] fips_blocks_tail [of h bs, symmetric])
  show "Suc (length bs mod 64) < 64 \<Longrightarrow> fips_blocks h (bs @ [b]) = fips_blocks h bs"
    unfolding s by (rule fips_blocks_short) (simp add: length_tail)
  show "Suc (length bs mod 64) = 64 \<Longrightarrow> fips_blocks h (bs @ [b]) = fips_compress (fips_blocks h bs) (tail bs @ [b])"
    unfolding s by (rule fips_blocks_one) (simp add: length_tail)
qed

lemma hashBlock_compress:
  assumes "length (sha_buffer s) = 16" "length block = 64" "\<forall>i < 64. block_byte (sha_buffer s) i = block ! i"
  shows "\<exists>buf. length buf = 16 \<and> sha1_hashBlock s = Inr (s\<lparr>sha_buffer := buf, sha_state := fips_compress (sha_state s) block\<rparr>)"
  using hashBlock_fips [OF assms(1)] be_word_block [OF assms(2,3,1)] by (simp add: fips_compress_def Let_def)

lemma absorb_byte:
  assumes "absorbed bs s"
  shows "\<exists>s'. sha1_addUncounted b s = Inr s' \<and> absorbed (bs @ [b]) s' \<and> same_frame s s' \<and> byteCount s' = byteCount s"
proof -
  let ?n = "length bs mod 64"
  have s: "bufferOffset s = ?n" "sha_state s = fips_blocks H0 bs" "length (sha_buffer s) = 16"
    "\<forall>i < ?n. block_byte (sha_buffer s) i = tail bs ! i"
    using assms by (simp_all add: absorbed_def)
  have n: "?n < 64" by simp
  obtain ws where ws: "set_byte (sha_buffer s) (?n XOR 3) b = Inr ws" "length ws = 16"
    "\<forall>j < 64. block_byte ws j = (if j = ?n then b else block_byte (sha_buffer s) j)"
    using set_byte_block [OF s(3) n, of b] by blast
  have bytes: "block_byte ws i = (tail bs @ [b]) ! i" if "i < Suc ?n" for i
    using that s(4) ws(3) n by (auto simp: nth_append length_tail less_Suc_eq)
  let ?s = "s\<lparr>sha_buffer := ws, bufferOffset := Suc ?n\<rparr>"
  have add: "sha1_addUncounted b s = (if Suc ?n = 64
      then ebind (sha1_hashBlock ?s) (\<lambda>s. Inr (s\<lparr>bufferOffset := 0\<rparr>)) else Inr ?s)"
    using n by (simp add: sha1_addUncounted_def s(1) ws(1) Let_def BLOCK_LENGTH_def)
  show ?thesis
  proof (cases "Suc ?n = 64")
    case True
    have "\<forall>i < 64. block_byte (sha_buffer ?s) i = (tail bs @ [b]) ! i" using bytes True by simp
    moreover have "length (tail bs @ [b]) = 64" using True by (simp add: length_tail)
    ultimately obtain buf where "length buf = 16" "sha1_hashBlock ?s =
        Inr (?s\<lparr>sha_buffer := buf, sha_state := fips_compress (sha_state s) (tail bs @ [b])\<rparr>)"
      using hashBlock_compress [of ?s "tail bs @ [b]"] ws(2) by auto
    moreover have "length (bs @ [b]) mod 64 = 0" using True by (simp add: mod_Suc)
    ultimately show ?thesis
      using True add s(2) fips_blocks_snoc(2) [OF True, of H0 b]
      by (auto simp: absorbed_def same_frame_def)
  next
    case False
    then have lt: "Suc ?n < 64" using n by linarith
    then have "length (bs @ [b]) mod 64 = Suc ?n" by (simp add: mod_Suc)
    then show ?thesis
      using lt add s(2) ws(2) bytes fips_blocks_snoc(1) [OF lt, of H0 b] tail_snoc(1) [OF lt, of b]
      by (auto simp: absorbed_def same_frame_def)
  qed
qed

lemma absorb_all:
  "absorbed bs s \<Longrightarrow> \<exists>s'. add_all xs s = Inr s' \<and> absorbed (bs @ xs) s' \<and> same_frame s s'"
proof (induction xs arbitrary: bs s)
  case (Cons b xs)
  from absorb_byte [OF Cons.prems, of b] obtain s1 where
    s1: "sha1_addUncounted b s = Inr s1" "absorbed (bs @ [b]) s1" "same_frame s s1" by blast
  from Cons.IH [OF s1(2)] show ?case using s1 by (auto simp: same_frame_def)
qed (simp add: same_frame_def)

lemma absorb_write:
  "absorbed bs s \<Longrightarrow> \<exists>s'. sha1_write xs s = Inr s' \<and> absorbed (bs @ xs) s' \<and> same_frame s s'
     \<and> byteCount s' = byteCount s + of_nat (length xs)"
proof (induction xs arbitrary: bs s)
  case (Cons b xs)
  have "absorbed bs (s\<lparr>byteCount := byteCount s + 1\<rparr>)" using Cons.prems by (simp add: absorbed_def)
  from absorb_byte [OF this, of b] obtain s1 where
    s1: "sha1_writebyte b s = Inr s1" "absorbed (bs @ [b]) s1" "same_frame s s1" "byteCount s1 = byteCount s + 1"
    by (auto simp: sha1_writebyte_def same_frame_def)
  from Cons.IH [OF s1(2)] show ?case using s1 by (auto simp: same_frame_def)
qed (simp add: same_frame_def)

text \<open>The padding loop ends: it adds zeros until the offset is 56.\<close>

lemma pad_zeros_ok:
  "absorbed bs s \<Longrightarrow> n < 64 \<Longrightarrow> (length bs + n) mod 64 = 56 \<Longrightarrow>
    \<exists>s'. pad_zeros s = Inr s' \<and> absorbed (bs @ replicate n 0) s' \<and> same_frame s s' \<and> byteCount s' = byteCount s"
proof (induction n arbitrary: bs s)
  case 0
  then have "bufferOffset s = 56" by (simp add: absorbed_def)
  then have "pad_zeros s = Inr s" unfolding pad_zeros_def by (intro run_loop_Break) simp
  with 0 show ?case by (simp add: same_frame_def)
next
  case (Suc n)
  have "bufferOffset s \<noteq> 56"
  proof
    assume "bufferOffset s = 56"
    then have "length bs mod 64 = 56" using Suc.prems(1) by (simp add: absorbed_def)
    then have m: "(56 + Suc n) mod 64 = 56" using Suc.prems(3) by (metis mod_add_left_eq)
    show False
    proof (cases "56 + Suc n < 64")
      case False
      then have "(56 + Suc n) mod 64 = (Suc n - 8) mod 64" by (simp add: le_mod_geq)
      also have "\<dots> = Suc n - 8" using Suc.prems(2) by simp
      finally show False using m Suc.prems(2) by simp
    qed (use m in simp)
  qed
  moreover obtain s1 where s1: "sha1_addUncounted 0 s = Inr s1" "absorbed (bs @ [0]) s1" "same_frame s s1"
    "byteCount s1 = byteCount s"
    using absorb_byte [OF Suc.prems(1), of 0] by blast
  ultimately have "pad_zeros s = pad_zeros s1" unfolding pad_zeros_def by (intro run_loop_Cont) simp
  then show ?case
    using Suc.IH [OF s1(2)] Suc.prems s1 by (auto simp: same_frame_def)
qed

lemma absorbed_init: "length (sha_buffer s) = 16 \<Longrightarrow> absorbed [] (sha1_init s)"
  by (simp add: absorbed_def sha1_init_def fips_blocks_short H0_def)

section \<open>Padding and digest\<close>

lemma ucast_of_nat_u8: "(ucast (of_nat n :: u32) :: u8) = of_nat n"
  by (rule bit_word_eqI) (simp add: bit_simps)

lemma length_bytes_be:
  assumes "n < 2 ^ 32"
  shows "length_bytes (of_nat n) = be_bytes64 (8 * n)"
proof -
  have d: "(drop_bit k (of_nat n) :: u32) = of_nat (n div 2 ^ k)" for k
  proof (rule word_unat_eq_iff [THEN iffD2])
    have "n div 2 ^ k \<le> n" by (rule div_le_dividend)
    from le_less_trans [OF this assms] have "n div 2 ^ k < 2 ^ 32" .
    then show "unat (drop_bit k (of_nat n) :: u32) = unat (of_nat (n div 2 ^ k) :: u32)"
      using assms unfolding unsigned_drop_bit_eq by (simp add: unat_of_nat drop_bit_eq_div take_bit_nat_eq_self)
  qed
  have p: "(push_bit 3 (of_nat n) :: u32) = of_nat (8 * n)" by (simp add: push_bit_eq_mult)
  have z: "8 * n div 256 ^ 7 = 0" "8 * n div 256 ^ 6 = 0" "8 * n div 256 ^ 5 = 0" using assms by simp_all
  have q: "8 * n div 256 ^ 4 = n div 2 ^ 29" "8 * n div 256 ^ 3 = n div 2 ^ 21"
    "8 * n div 256 ^ 2 = n div 2 ^ 13" "8 * n div 256 ^ 1 = n div 2 ^ 5" "8 * n div 256 ^ 0 = 8 * n"
    using div_mult_mult1 [of 8 n] by simp_all
  have "be_bytes64 (8 * n) = [of_nat (8 * n div 256 ^ 7), of_nat (8 * n div 256 ^ 6), of_nat (8 * n div 256 ^ 5),
      of_nat (8 * n div 256 ^ 4), of_nat (8 * n div 256 ^ 3), of_nat (8 * n div 256 ^ 2), of_nat (8 * n div 256 ^ 1),
      of_nat (8 * n div 256 ^ 0)]"
    unfolding be_bytes64_def by (simp add: upt_rec)
  then show ?thesis unfolding z q length_bytes_def d p ucast_of_nat_u8 by simp
qed

lemma swap_word_bytes: "(chunks (swap_word w) :: u8 list) = rev (chunks w)"
proof -
  have m: "(0xff000000 :: u32) = push_bit 24 (mask 8)" "(0x00ff0000 :: u32) = push_bit 16 (mask 8)"
    "(0x0000ff00 :: u32) = push_bit 8 (mask 8)" "(0x000000ff :: u32) = mask 8"
    by (simp_all add: mask_eq_exp_minus_1 push_bit_eq_mult)
  show ?thesis
  proof (rule nth_equalityI)
    fix k assume "k < length (chunks (swap_word w) :: u8 list)"
    then have k: "k = 0 \<or> k = 1 \<or> k = 2 \<or> k = 3" by auto
    then show "(chunks (swap_word w) :: u8 list) ! k = rev (chunks w) ! k"
      unfolding swap_word_def m
      by (intro bit_word_eqI, elim disjE) (auto simp: nth_chunks rev_nth bit_simps)
  qed simp
qed

lemma pad_ok:
  assumes "absorbed m s" "byteCount s = of_nat (length m)" "length m < 2 ^ 32"
  shows "\<exists>s'. sha1_pad s = Inr s' \<and> absorbed (fips_pad m) s' \<and> same_frame s s'"
proof -
  obtain s1 where s1: "sha1_addUncounted 0x80 s = Inr s1" "absorbed (m @ [0x80]) s1" "same_frame s s1"
    "byteCount s1 = byteCount s"
    using absorb_byte [OF assms(1), of "0x80"] by blast
  let ?z = "(119 - length m mod 64) mod 64"
  have z: "(length (m @ [0x80 :: u8]) + ?z) mod 64 = 56"
  proof -
    have "length m mod 64 < 64" by simp
    then have "Suc (length m) + (119 - length m mod 64) = 120 + 64 * (length m div 64)"
      using mult_div_mod_eq [of 64 "length m"] by linarith
    then have "(Suc (length m) + ?z) mod 64 = (120 + 64 * (length m div 64)) mod 64"
      by (simp only: mod_add_right_eq)
    then show ?thesis by simp
  qed
  obtain s2 where s2: "pad_zeros s1 = Inr s2" "absorbed ((m @ [0x80]) @ replicate ?z 0) s2" "same_frame s1 s2"
    "byteCount s2 = byteCount s1"
    using pad_zeros_ok [OF s1(2) _ z] by auto
  obtain s3 where s3: "add_all (length_bytes (byteCount s2)) s2 = Inr s3"
    "absorbed (((m @ [0x80]) @ replicate ?z 0) @ length_bytes (byteCount s2)) s3" "same_frame s2 s3"
    using absorb_all [OF s2(2)] by blast
  have "length_bytes (byteCount s2) = be_bytes64 (8 * length m)"
    using s1(4) s2(4) assms(2,3) by (simp add: length_bytes_be)
  then show ?thesis
    using s1 s2 s3 by (auto simp: sha1_pad_def fips_pad_def same_frame_def)
qed

lemma result_ok:
  assumes "absorbed m s" "byteCount s = of_nat (length m)" "length m < 2 ^ 32"
  shows "\<exists>s'. sha1_result s = Inr (fips_sha1 m, s') \<and> same_frame s s' \<and> length (sha_buffer s') = 16"
proof -
  obtain s1 where s1: "sha1_pad s = Inr s1" "absorbed (fips_pad m) s1" "same_frame s s1"
    using pad_ok [OF assms] by blast
  have "concat (map chunks (map swap_word ws)) = concat (map (\<lambda>w. rev (chunks w :: u8 list)) ws)" for ws
    by (induction ws) (simp_all add: swap_word_bytes)
  then show ?thesis
    using s1 by (auto simp: sha1_result_def Let_def absorbed_def same_frame_def fips_sha1_def H0_def)
qed

lemma length_sha1 [simp]: "length (fips_sha1 m) = 20"
proof -
  have "length (concat (map (\<lambda>w. rev (chunks (w :: u32) :: u8 list)) ws)) = 4 * length ws" for ws
    by (induction ws) simp_all
  then show ?thesis by (simp add: fips_sha1_def length_fips_blocks)
qed

lemma sha1_ok:
  assumes "length (sha_buffer s0) = 16" "length data < 2 ^ 32"
  shows "sha1 s0 data = Inr (fips_sha1 data)"
proof -
  obtain s1 where s1: "sha1_write data (sha1_init s0) = Inr s1" "absorbed ([] @ data) s1"
    "byteCount s1 = byteCount (sha1_init s0) + of_nat (length data)"
    using absorb_write [OF absorbed_init [OF assms(1)]] by blast
  then have "byteCount s1 = of_nat (length data)" by (simp add: sha1_init_def)
  with s1 assms(2) show ?thesis using result_ok [of data s1] by (auto simp: sha1_def HASH_LENGTH_def)
qed

section \<open>HMAC\<close>

lemma write_block:
  assumes "length (sha_buffer s) = 16"
  shows "\<exists>s'. sha1_write xs (sha1_init s) = Inr s' \<and> absorbed xs s' \<and> same_frame s s' \<and> byteCount s' = of_nat (length xs)"
  using absorb_write [OF absorbed_init [OF assms], of xs] by (simp add: same_frame_def sha1_init_def)

lemma initHmac_ok:
  assumes "length (sha_buffer s) = 16" "length key < 2 ^ 32"
  shows "\<exists>s'. sha1_initHmac key s = Inr s' \<and> absorbed (xor_pad 0x36 (hmac_key key)) s'
    \<and> byteCount s' = 64 \<and> keyBuffer s' = hmac_key key"
proof -
  have fin: "\<exists>s'. sha1_write (xor_pad 0x36 (take 64 (keyBuffer t))) (sha1_init t) = Inr s'
      \<and> absorbed (xor_pad 0x36 (hmac_key key)) s' \<and> byteCount s' = 64 \<and> keyBuffer s' = hmac_key key"
    if "keyBuffer t = hmac_key key" "length (hmac_key key) = 64" "length (sha_buffer t) = 16" for t
    using write_block [OF that(3), of "xor_pad 0x36 (hmac_key key)"] that by (auto simp: xor_pad_def same_frame_def)
  show ?thesis
  proof (cases "length key \<le> 64")
    case True
    then have k: "hmac_key key = key @ replicate (64 - length key) 0" by (simp add: hmac_key_def)
    then show ?thesis
      using fin [of "s\<lparr>keyBuffer := hmac_key key\<rparr>"] True assms(1)
      by (simp add: sha1_initHmac_def BLOCK_LENGTH_def memcpy_def)
  next
    case False
    then have k: "hmac_key key = fips_sha1 key @ replicate 44 0" by (simp add: hmac_key_def)
    let ?s = "s\<lparr>keyBuffer := replicate 64 0\<rparr>"
    obtain s1 where s1: "sha1_write key (sha1_init ?s) = Inr s1" "absorbed key s1" "same_frame ?s s1"
      "byteCount s1 = of_nat (length key)"
      using write_block [of ?s key] assms(1) by auto
    obtain s2 where s2: "sha1_result s1 = Inr (fips_sha1 key, s2)" "same_frame s1 s2" "length (sha_buffer s2) = 16"
      using result_ok [OF s1(2,4) assms(2)] by blast
    have "keyBuffer s2 = replicate 64 0" using s1(3) s2(2) by (simp add: same_frame_def)
    then have "memcpy (keyBuffer s2) 0 (fips_sha1 key) 0 20 = Inr (hmac_key key)"
      by (simp add: memcpy_def k)
    then show ?thesis
      using fin [of "s2\<lparr>keyBuffer := hmac_key key\<rparr>"] False s1(1) s2 k
      by (simp add: sha1_initHmac_def BLOCK_LENGTH_def HASH_LENGTH_def)
  qed
qed

lemma resultHmac_ok:
  assumes "absorbed (xor_pad 0x36 k @ m) s" "byteCount s = of_nat (64 + length m)" "64 + length m < 2 ^ 32"
    and "keyBuffer s = k" "length k = 64"
  shows "\<exists>s'. sha1_resultHmac s = Inr (fips_sha1 (xor_pad 0x5c k @ fips_sha1 (xor_pad 0x36 k @ m)), s')"
proof -
  let ?inner = "fips_sha1 (xor_pad 0x36 k @ m)"
  have l: "length (xor_pad p k) = 64" for p using assms(5) by (simp add: xor_pad_def)
  obtain s1 where s1: "sha1_result s = Inr (?inner, s1)" "same_frame s s1" "length (sha_buffer s1) = 16"
    using result_ok [OF assms(1)] assms(2,3) l by auto
  let ?t = "s1\<lparr>innerHash := ?inner\<rparr>"
  have kb: "keyBuffer (sha1_init ?t) = k" using s1(2) assms(4) by (simp add: sha1_init_def same_frame_def)
  obtain s2 where s2: "sha1_write (xor_pad 0x5c k) (sha1_init ?t) = Inr s2" "absorbed (xor_pad 0x5c k) s2"
    "same_frame ?t s2" "byteCount s2 = 64"
    using write_block [of ?t "xor_pad 0x5c k"] s1(3) l by auto
  obtain s3 where s3: "sha1_write ?inner s2 = Inr s3" "absorbed (xor_pad 0x5c k @ ?inner) s3"
    "byteCount s3 = byteCount s2 + of_nat (length ?inner)"
    using absorb_write [OF s2(2), of ?inner] by blast
  have "byteCount s3 = of_nat (length (xor_pad 0x5c k @ ?inner))" using s3(3) s2(4) l by simp
  then obtain s4 where "sha1_result s3 = Inr (fips_sha1 (xor_pad 0x5c k @ ?inner), s4)"
    using result_ok [OF s3(2)] l by auto
  then show ?thesis
    using s1(1) s2(1,3) s3(1) kb assms(5) by (simp add: sha1_resultHmac_def Let_def BLOCK_LENGTH_def HASH_LENGTH_def same_frame_def)
qed

section \<open>Hexadecimal form\<close>

definition hex_of :: "bytes \<Rightarrow> bytes" where
  "hex_of bs = concat (map (\<lambda>v. [hex_digit (unat v div 16), hex_digit (unat v mod 16)]) bs)"

lemma length_hex_of [simp]: "length (hex_of bs) = 2 * length bs"
  by (induction bs) (simp_all add: hex_of_def)

lemma hex_of_snoc: "hex_of (bs @ [v]) = hex_of bs @ [hex_digit (unat v div 16), hex_digit (unat v mod 16)]"
  by (simp add: hex_of_def)

lemma sha1_hex_ok:
  assumes "length (sha_buffer s0) = 16" "length data < 2 ^ 32"
  shows "sha1_hex s0 data = Inr (hex_of (fips_sha1 data) @ [0])"
proof -
  let ?d = "fips_sha1 data"
  define I where "I i h \<longleftrightarrow> h = hex_of (take i ?d) @ replicate (41 - 2 * i) 0" for i h
  have "\<exists>h'. sprintf_02x h (i * 2) (?d ! i) = Inr h' \<and> I (Suc i) h'" if "i < 20" "I i h" for i h
  proof -
    have l: "length (hex_of (take i ?d)) = 2 * i" using that(1) by simp
    have t: "take (Suc i) ?d = take i ?d @ [?d ! i]" using that(1) by (simp add: take_Suc_conv_app_nth)
    have "41 - 2 * i = Suc (Suc (Suc (38 - 2 * i)))" using that(1) by linarith
    then obtain k where k: "41 - 2 * i = Suc (Suc (Suc k))" "k = 38 - 2 * i" by blast
    have "sprintf_02x h (i * 2) (?d ! i) = Inr (hex_of (take i ?d) @
        [hex_digit (unat (?d ! i) div 16), hex_digit (unat (?d ! i) mod 16), 0] @ replicate k 0)"
      using that l k(1) by (simp add: I_def sprintf_02x_def memcpy_def mult.commute)
    moreover have "41 - 2 * Suc i = Suc k" using k that(1) by simp
    ultimately show ?thesis by (simp add: I_def t hex_of_snoc)
  qed
  moreover have "I 0 (replicate 41 0)" by (simp add: I_def hex_of_def)
  ultimately have "\<exists>h. count_loop 20 0 (\<lambda>i h. sprintf_02x h (i * 2) (?d ! i)) (replicate 41 0) = Inr h \<and> I (0 + 20) h"
    by (intro count_loop_inv [where I = I]) simp_all
  then show ?thesis
    using sha1_ok [OF assms] by (auto simp: sha1_hex_def HASH_LENGTH_def I_def)
qed

section \<open>Properties\<close>

definition fresh_sha :: sha1nfo where
  "fresh_sha = \<lparr>sha_buffer = replicate 16 0xdeadbeef, sha_state = [], byteCount = 7, bufferOffset = 9,
     keyBuffer = [], innerHash = []\<rparr>"

text \<open>
  C25: \<open>sha1\<close> computes the SHA-1 digest of FIPS 180-2 of every input shorter than 4 GiB, whatever the
  uninitialised state held, and \<open>sha1_hex\<close> returns its forty lower-case hexadecimal digits with
  a terminating 0; the padding loop ends and no access leaves a buffer.
\<close>

theorem sha1_is_fips:
  assumes "length (sha_buffer s0) = 16" "length data < 2 ^ 32"
  shows "sha1 s0 data = Inr (fips_sha1 data) \<and> sha1_hex s0 data = Inr (hex_of (fips_sha1 data) @ [0])"
  using sha1_ok [OF assms] sha1_hex_ok [OF assms] by simp

theorem sha1_is_fips_witness:
  "sha1 fresh_sha [97, 98, 99] = Inr (fips_sha1 [97, 98, 99])
   \<and> sha1_hex fresh_sha [97, 98, 99] = Inr (hex_of (fips_sha1 [97, 98, 99]) @ [0])"
  by (rule sha1_is_fips) (simp_all add: fresh_sha_def)

text \<open>
  feeding the message in pieces gives the digest of the concatenation: any two calls of
  \<open>sha1_write\<close> on an initialised state, then \<open>sha1_result\<close>.
\<close>

theorem sha1_streaming:
  assumes "length (sha_buffer s0) = 16" "length xs + length ys < 2 ^ 32"
  shows "\<exists>s'. ebind (sha1_write xs (sha1_init s0)) (\<lambda>s. ebind (sha1_write ys s) sha1_result) = Inr (fips_sha1 (xs @ ys), s')"
proof -
  obtain s1 where s1: "sha1_write xs (sha1_init s0) = Inr s1" "absorbed xs s1" "byteCount s1 = of_nat (length xs)"
    using write_block [OF assms(1)] by blast
  obtain s2 where s2: "sha1_write ys s1 = Inr s2" "absorbed (xs @ ys) s2" "byteCount s2 = byteCount s1 + of_nat (length ys)"
    using absorb_write [OF s1(2), of ys] by blast
  then show ?thesis using s1 result_ok [OF s2(2)] assms(2) by auto
qed

theorem sha1_streaming_witness:
  "\<exists>s'. ebind (sha1_write [97] (sha1_init fresh_sha)) (\<lambda>s. ebind (sha1_write [98, 99] s) sha1_result)
     = Inr (fips_sha1 [97, 98, 99], s')"
  using sha1_streaming [of fresh_sha "[97]" "[98, 99]"] by (simp add: fresh_sha_def)

text \<open>
  C26: \<open>sha1_initHmac\<close>, \<open>sha1_write\<close> and \<open>sha1_resultHmac\<close> compute HMAC-SHA1, for keys shorter than,
  equal to and longer than a block.
\<close>

theorem hmac_is_hmac:
  assumes "length (sha_buffer s0) = 16" "length key < 2 ^ 32" "64 + length m < 2 ^ 32"
  shows "\<exists>s'. ebind (sha1_initHmac key s0) (\<lambda>s. ebind (sha1_write m s) sha1_resultHmac) = Inr (hmac_sha1 key m, s')"
proof -
  have l: "length (hmac_key key) = 64" by (simp add: hmac_key_def Let_def)
  obtain s1 where s1: "sha1_initHmac key s0 = Inr s1" "absorbed (xor_pad 0x36 (hmac_key key)) s1"
    "byteCount s1 = 64" "keyBuffer s1 = hmac_key key"
    using initHmac_ok [OF assms(1,2)] by blast
  obtain s2 where s2: "sha1_write m s1 = Inr s2" "absorbed (xor_pad 0x36 (hmac_key key) @ m) s2" "same_frame s1 s2"
    "byteCount s2 = byteCount s1 + of_nat (length m)"
    using absorb_write [OF s1(2), of m] by blast
  show ?thesis
    using resultHmac_ok [OF s2(2)] s1 s2 assms(3) l by (auto simp: hmac_sha1_def xor_pad_def same_frame_def)
qed

theorem hmac_is_hmac_witness:
  "\<exists>s'. ebind (sha1_initHmac [74, 101] fresh_sha) (\<lambda>s. ebind (sha1_write [97] s) sha1_resultHmac)
     = Inr (hmac_sha1 [74, 101] [97], s')"
  by (rule hmac_is_hmac) (simp_all add: fresh_sha_def)

end
