(* ===== verification/AFL_Hashmap.thy ===== *)
theory AFL_Hashmap
  imports AFL_Bytes "HOL-Library.Multiset"
begin

text \<open>
  The comparison cache of \<^verbatim>\<open>src/hashmap.c\<close>: a table of singly linked chains, held by the static
  pointer \<open>_hashmap\<close>. Nodes live in an explicit heap, so that following, relinking and freeing
  them are the operations of the code: address \<open>a + 1\<close> is entry \<open>a\<close> of the heap, address 0 is
  \<open>NULL\<close>, and a freed cell is \<open>None\<close>. \<open>malloc\<close> returns a new address when its flag says it succeeds.
\<close>

section \<open>State\<close>

definition TABLE_SIZE :: nat where "TABLE_SIZE = 10007"

record hnode =
  hn_key :: u64
  hn_next :: nat

text \<open>The static pointer: unset, a live map with its table, or freed memory.\<close>

datatype hm_ptr = HmNull | HmLive "nat list" | HmFreed

record hstore =
  hm :: hm_ptr
  nodes :: "hnode option list"

definition lookup :: "hnode option list \<Rightarrow> nat \<Rightarrow> hnode option" where
  "lookup h a = (if 0 < a \<and> a \<le> length h then h ! (a - 1) else None)"

definition node_at :: "hstore \<Rightarrow> nat \<Rightarrow> hnode res" where
  "node_at s a = (case lookup (nodes s) a of None \<Rightarrow> Inl Fault | Some n \<Rightarrow> Inr n)"

definition table_of :: "hstore \<Rightarrow> nat list res" where
  "table_of s = (case hm s of HmLive t \<Rightarrow> Inr t | _ \<Rightarrow> Inl Fault)"

definition load_slot :: "hstore \<Rightarrow> nat \<Rightarrow> nat res" where
  "load_slot s i = ebind (table_of s) (\<lambda>t. if i < length t then Inr (t ! i) else Inl Fault)"

definition store_slot :: "nat \<Rightarrow> nat \<Rightarrow> hstore \<Rightarrow> hstore res" where
  "store_slot i a s = ebind (table_of s) (\<lambda>t.
     if i < length t then Inr (s\<lparr>hm := HmLive (t[i := a])\<rparr>) else Inl Fault)"

definition free_node :: "nat \<Rightarrow> hstore \<Rightarrow> hstore res" where
  "free_node a s = ebind (node_at s a) (\<lambda>_. Inr (s\<lparr>nodes := (nodes s)[a - 1 := None]\<rparr>))"

definition store_next :: "nat \<Rightarrow> nat \<Rightarrow> hstore \<Rightarrow> hstore res" where
  "store_next a b s = ebind (node_at s a) (\<lambda>n. Inr (s\<lparr>nodes := (nodes s)[a - 1 := Some (n\<lparr>hn_next := b\<rparr>)]\<rparr>))"

text \<open>\<open>malloc\<close> of a node followed by the two stores to its fields; a null result faults at the first.\<close>

definition new_node :: "bool \<Rightarrow> u64 \<Rightarrow> nat \<Rightarrow> hstore \<Rightarrow> (nat \<times> hstore) res" where
  "new_node ok k nxt s =
     (if ok then Inr (length (nodes s) + 1, s\<lparr>nodes := nodes s @ [Some \<lparr>hn_key = k, hn_next = nxt\<rparr>]\<rparr>)
      else Inl Fault)"

section \<open>Operations\<close>

definition hash :: "u64 \<Rightarrow> nat" where
  "hash key = unat key mod TABLE_SIZE"

text \<open>The loop \<open>while (node)\<close> that frees a chain.\<close>

definition free_chain :: "nat \<Rightarrow> hstore \<Rightarrow> hstore res" where
  "free_chain node s = run_loop (\<lambda>(node, s).
     if node \<noteq> 0
     then ebind (node_at s node) (\<lambda>n. ebind (free_node node s) (\<lambda>s. Inr (Cont (hn_next n, s))))
     else Inr (Break s)) (node, s)"

definition hashmap_reset :: "bool \<Rightarrow> hstore \<Rightarrow> hstore res" where
  "hashmap_reset ok s = (case hm s of
       HmNull \<Rightarrow> if ok then Inr (s\<lparr>hm := HmLive (replicate TABLE_SIZE 0)\<rparr>) else Inl Fault
     | _ \<Rightarrow> ebind (count_loop TABLE_SIZE 0 (\<lambda>i s. ebind (load_slot s i) (\<lambda>node. free_chain node s)) s)
             (\<lambda>s. Inr (s\<lparr>hm := HmLive (replicate TABLE_SIZE 0)\<rparr>)))"

definition find_key :: "u64 \<Rightarrow> hstore \<Rightarrow> nat \<Rightarrow> bool res" where
  "find_key key s = run_loop (\<lambda>node.
     if node \<noteq> 0
     then ebind (node_at s node) (\<lambda>n. if hn_key n = key then Inr (Break True) else Inr (Cont (hn_next n)))
     else Inr (Break False))"

definition add_node :: "bool \<Rightarrow> u64 \<Rightarrow> nat \<Rightarrow> hstore \<Rightarrow> hstore res" where
  "add_node ok key index s =
     ebind (load_slot s index) (\<lambda>hd.
     ebind (new_node ok key hd s) (\<lambda>(node, s). store_slot index node s))"

definition key_val :: "nat \<Rightarrow> u64 \<Rightarrow> u64" where
  "key_val type key = (key AND 0xf8ffffffffffffff) + push_bit 56 (of_nat type)"

definition hashmap_search_and_add :: "bool \<Rightarrow> nat \<Rightarrow> u64 \<Rightarrow> hstore \<Rightarrow> (bool \<times> hstore) res" where
  "hashmap_search_and_add ok type key s =
     (if 8 \<le> type then Inr (False, s) else
      let val = key_val type key; index = hash val in
      ebind (load_slot s index) (\<lambda>node.
      ebind (find_key val s node) (\<lambda>found.
        if found then Inr (True, s)
        else ebind (add_node ok val index s) (\<lambda>s. Inr (False, s)))))"

text \<open>
  The bytes are copied to the address \<open>key_t + (7 - type)\<close>, where \<open>key_t\<close> is 0; \<open>mapped\<close> says which
  addresses the process may write.
\<close>

definition hashmap_search_and_add_ptr ::
  "(nat \<Rightarrow> bool) \<Rightarrow> bool \<Rightarrow> nat \<Rightarrow> bytes \<Rightarrow> hstore \<Rightarrow> (bool \<times> hstore) res" where
  "hashmap_search_and_add_ptr mapped ok type key s =
     (if 8 \<le> type then Inr (False, s) else
      let key_t = 0; dst = key_t + (7 - type) in
      if list_all mapped [dst..<dst + (type + 1)] \<and> type + 1 \<le> length key
      then hashmap_search_and_add ok type (of_nat key_t) s
      else Inl Fault)"

definition hashmap_insert :: "bool \<Rightarrow> u64 \<Rightarrow> hstore \<Rightarrow> hstore res" where
  "hashmap_insert ok key s = add_node ok key (hash key) s"

definition hashmap_search :: "u64 \<Rightarrow> hstore \<Rightarrow> bool res" where
  "hashmap_search key s = ebind (load_slot s (hash key)) (find_key key s)"

text \<open>The loop of \<open>delete\<close>: the node with the key and its predecessor (0 when it is the first).\<close>

definition find_prev :: "u64 \<Rightarrow> hstore \<Rightarrow> nat \<times> nat \<Rightarrow> ((nat \<times> nat) option) res" where
  "find_prev key s = run_loop (\<lambda>(prev, node).
     if node \<noteq> 0
     then ebind (node_at s node) (\<lambda>n.
       if hn_key n = key then Inr (Break (Some (prev, node))) else Inr (Cont (node, hn_next n)))
     else Inr (Break None))"

definition hashmap_delete :: "u64 \<Rightarrow> hstore \<Rightarrow> hstore res" where
  "hashmap_delete key s =
     (let index = hash key in
      ebind (load_slot s index) (\<lambda>node.
      ebind (find_prev key s (0, node)) (\<lambda>r. case r of
         None \<Rightarrow> Inr s
       | Some (prev, node) \<Rightarrow>
           ebind (node_at s node) (\<lambda>n.
           ebind (if prev \<noteq> 0 then store_next prev (hn_next n) s else store_slot index (hn_next n) s)
             (free_node node)))))"

text \<open>\<open>freeHashMap\<close> is called with the static pointer; it frees the table and the map, not the nodes.\<close>

definition freeHashMap :: "hstore \<Rightarrow> hstore res" where
  "freeHashMap s = ebind (table_of s) (\<lambda>_. Inr (s\<lparr>hm := HmFreed\<rparr>))"

end
