(* ===== verification/AFL_HashmapProps.thy ===== *)
theory AFL_HashmapProps
  imports AFL_Hashmap
begin

text \<open>
  Correctness of the comparison cache: its chains are disjoint, in the bucket of their keys, and hold
  every allocated node; under this invariant each operation refines an operation on the multiset of
  stored keys.
\<close>

section \<open>Heap and chains\<close>

primrec seg :: "hnode option list \<Rightarrow> nat \<Rightarrow> nat list \<Rightarrow> nat \<Rightarrow> bool" where
  "seg h p [] q \<longleftrightarrow> p = q"
| "seg h p (a # as) q \<longleftrightarrow> p = a \<and> (\<exists>n. lookup h a = Some n \<and> seg h (hn_next n) as q)"

abbreviation chain :: "hnode option list \<Rightarrow> nat \<Rightarrow> nat list \<Rightarrow> bool" where
  "chain h p as \<equiv> seg h p as 0"

lemma seg_append: "seg h p (as @ bs) q \<longleftrightarrow> (\<exists>r. seg h p as r \<and> seg h r bs q)"
  by (induction as arbitrary: p) auto

lemma seg_frame: "seg h p as q \<Longrightarrow> (\<And>a. a \<in> set as \<Longrightarrow> lookup h' a = lookup h a) \<Longrightarrow> seg h' p as q"
  by (induction as arbitrary: p) auto

lemma seg_alloc: "seg h p as q \<Longrightarrow> a \<in> set as \<Longrightarrow> lookup h a \<noteq> None"
  by (induction as arbitrary: p) auto

lemma lookup_0 [simp]: "lookup h 0 = None"
  by (simp add: lookup_def)

lemma lookup_snoc: "lookup (h @ [Some n]) a = (if a = length h + 1 then Some n else lookup h a)"
  by (auto simp: lookup_def nth_append)

lemma lookup_update:
  "lookup h a \<noteq> None \<Longrightarrow> lookup (h[a - 1 := x]) b = (if b = a then x else lookup h b)"
  by (auto simp: lookup_def nth_list_update split: if_splits)

lemma lookup_new [simp]: "lookup h (length h + 1) = None" "lookup h (Suc (length h)) = None"
  by (simp_all add: lookup_def)

section \<open>Stored keys\<close>

definition key_mset :: "hnode option list \<Rightarrow> u64 multiset" where
  "key_mset h = mset (map hn_key (List.map_filter id h))"

lemma key_mset_simps [simp]:
  "key_mset [] = {#}" "key_mset (None # h) = key_mset h" "key_mset (Some n # h) = add_mset (hn_key n) (key_mset h)"
  by (simp_all add: key_mset_def List.map_filter_simps)

lemma key_mset_append: "key_mset (h @ h') = key_mset h + key_mset h'"
  by (induction h) (auto simp: List.map_filter_simps key_mset_def split: option.splits)

lemma in_key_mset: "k \<in># key_mset h \<longleftrightarrow> (\<exists>a n. lookup h a = Some n \<and> hn_key n = k)"
proof -
  have "k \<in># key_mset h \<longleftrightarrow> (\<exists>n. Some n \<in> set h \<and> hn_key n = k)"
  proof (induction h)
    case (Cons x h)
    then show ?case by (cases x) auto
  qed simp
  also have "\<dots> \<longleftrightarrow> (\<exists>a n. lookup h a = Some n \<and> hn_key n = k)"
  proof
    assume "\<exists>n. Some n \<in> set h \<and> hn_key n = k"
    then obtain n i where "i < length h" "h ! i = Some n" "hn_key n = k" by (auto simp: in_set_conv_nth)
    then have "lookup h (i + 1) = Some n" by (simp add: lookup_def)
    with \<open>hn_key n = k\<close> show "\<exists>a n. lookup h a = Some n \<and> hn_key n = k" by blast
  next
    assume "\<exists>a n. lookup h a = Some n \<and> hn_key n = k"
    then obtain a n where a: "lookup h a = Some n" "hn_key n = k" by blast
    then have "Some n \<in> set h" by (auto simp: lookup_def in_set_conv_nth split: if_splits intro!: exI [of _ "a - 1"])
    with a show "\<exists>n. Some n \<in> set h \<and> hn_key n = k" by blast
  qed
  finally show ?thesis .
qed

lemma key_mset_update:
  assumes "lookup h a = Some n"
  shows "key_mset (h[a - 1 := None]) = key_mset h - {#hn_key n#}"
    and "key_mset (h[a - 1 := Some (n\<lparr>hn_next := b\<rparr>)]) = key_mset h"
proof -
  have a: "a - 1 < length h" "h ! (a - 1) = Some n" using assms by (auto simp: lookup_def split: if_splits)
  then have h: "h = take (a - 1) h @ Some n # drop (Suc (a - 1)) h" by (metis id_take_nth_drop)
  have u: "h[a - 1 := x] = take (a - 1) h @ x # drop (Suc (a - 1)) h" for x
    using a(1) by (rule upd_conv_take_nth_drop)
  have k: "key_mset h = add_mset (hn_key n) (key_mset (take (a - 1) h) + key_mset (drop (Suc (a - 1)) h))"
    by (subst h) (simp add: key_mset_append)
  show "key_mset (h[a - 1 := None]) = key_mset h - {#hn_key n#}"
    "key_mset (h[a - 1 := Some (n\<lparr>hn_next := b\<rparr>)]) = key_mset h"
    unfolding u k by (simp_all add: key_mset_append)
qed

section \<open>Invariant\<close>

text \<open>\<open>A i\<close> is the list of addresses of bucket \<open>i\<close>.\<close>

definition chains :: "hnode option list \<Rightarrow> nat list \<Rightarrow> (nat \<Rightarrow> nat list) \<Rightarrow> bool" where
  "chains h t A \<longleftrightarrow> length t = TABLE_SIZE
     \<and> (\<forall>i < TABLE_SIZE. chain h (t ! i) (A i) \<and> distinct (A i))
     \<and> (\<forall>i < TABLE_SIZE. \<forall>j < TABLE_SIZE. i \<noteq> j \<longrightarrow> set (A i) \<inter> set (A j) = {})
     \<and> (\<forall>i < TABLE_SIZE. \<forall>a \<in> set (A i). \<forall>n. lookup h a = Some n \<longrightarrow> hash (hn_key n) = i)
     \<and> (\<forall>a. lookup h a \<noteq> None \<longrightarrow> (\<exists>i < TABLE_SIZE. a \<in> set (A i)))"

definition hm_inv :: "hstore \<Rightarrow> bool" where
  "hm_inv s \<longleftrightarrow> (\<exists>t A. hm s = HmLive t \<and> chains (nodes s) t A)"

definition stored :: "hstore \<Rightarrow> u64 multiset" where
  "stored s = key_mset (nodes s)"

lemma hash_less: "hash k < TABLE_SIZE"
  by (simp add: hash_def TABLE_SIZE_def)

lemma node_at_Some: "lookup (nodes s) a = Some n \<Longrightarrow> node_at s a = Inr n"
  by (simp add: node_at_def)

section \<open>Walking a chain\<close>

lemma find_key_chain:
  "chain (nodes s) p as \<Longrightarrow>
    find_key k s p = Inr (\<exists>a \<in> set as. \<exists>n. lookup (nodes s) a = Some n \<and> hn_key n = k)"
proof (induction as arbitrary: p)
  case Nil
  then show ?case unfolding find_key_def by (intro run_loop_Break) simp
next
  case (Cons a as)
  then obtain n where n: "p = a" "lookup (nodes s) a = Some n" "chain (nodes s) (hn_next n) as" by auto
  then have a: "a \<noteq> 0" by (metis lookup_0 option.distinct(1))
  show ?case
  proof (cases "hn_key n = k")
    case True
    then show ?thesis
      unfolding find_key_def using n a by (intro trans [OF run_loop_Break]) (auto simp: node_at_Some)
  next
    case False
    then have "find_key k s p = find_key k s (hn_next n)"
      unfolding find_key_def using n a by (intro run_loop_Cont) (simp add: node_at_Some)
    then show ?thesis using Cons.IH [OF n(3)] False n(2) by auto
  qed
qed

lemma find_prev_chain:
  "chain (nodes s) p as \<Longrightarrow>
    (if \<exists>a \<in> set as. \<exists>n. lookup (nodes s) a = Some n \<and> hn_key n = k
     then \<exists>xs b ys n. as = xs @ b # ys \<and> lookup (nodes s) b = Some n \<and> hn_key n = k
       \<and> find_prev k s (q, p) = Inr (Some (if xs = [] then q else last xs, b))
     else find_prev k s (q, p) = Inr None)"
proof (induction as arbitrary: p q)
  case Nil
  then show ?case unfolding find_prev_def by (simp add: run_loop_Break)
next
  case (Cons a as)
  then obtain n where n: "p = a" "lookup (nodes s) a = Some n" "chain (nodes s) (hn_next n) as" by auto
  then have a: "a \<noteq> 0" by (metis lookup_0 option.distinct(1))
  show ?case
  proof (cases "hn_key n = k")
    case True
    then have "find_prev k s (q, p) = Inr (Some (q, a))"
      unfolding find_prev_def using n a by (intro run_loop_Break) (simp add: node_at_Some)
    moreover have ex: "\<exists>a' \<in> set (a # as). \<exists>n. lookup (nodes s) a' = Some n \<and> hn_key n = k" using True n(2) by auto
    ultimately show ?thesis unfolding if_P [OF ex] using n(2) True
      by (intro exI [of _ "[]"] exI [of _ a] exI [of _ as] exI [of _ n]) simp
  next
    case False
    have step: "find_prev k s (q, p) = find_prev k s (a, hn_next n)"
      unfolding find_prev_def using n a False by (intro run_loop_Cont) (simp add: node_at_Some)
    note ih = Cons.IH [OF n(3), of a]
    show ?thesis
    proof (cases "\<exists>a \<in> set as. \<exists>n. lookup (nodes s) a = Some n \<and> hn_key n = k")
      case True
      with ih obtain xs b ys m where "as = xs @ b # ys" "lookup (nodes s) b = Some m" "hn_key m = k"
        "find_prev k s (a, hn_next n) = Inr (Some (if xs = [] then a else last xs, b))" by auto
      then have "a # as = (a # xs) @ b # ys"
        "find_prev k s (q, p) = Inr (Some (if a # xs = [] then q else last (a # xs), b))"
        using step by simp_all
      with \<open>lookup (nodes s) b = Some m\<close> \<open>hn_key m = k\<close>
      have "\<exists>xs b ys n. a # as = xs @ b # ys \<and> lookup (nodes s) b = Some n \<and> hn_key n = k
         \<and> find_prev k s (q, p) = Inr (Some (if xs = [] then q else last xs, b))" by blast
      moreover have "\<exists>a' \<in> set (a # as). \<exists>n. lookup (nodes s) a' = Some n \<and> hn_key n = k" using True by auto
      ultimately show ?thesis by simp
    next
      case none: False
      with ih step False n(2) show ?thesis by simp
    qed
  qed
qed

section \<open>Every operation keeps the invariant\<close>

lemma load_slot_inv:
  assumes "hm s = HmLive t" "chains (nodes s) t A" "i < TABLE_SIZE"
  shows "load_slot s i = Inr (t ! i)"
  using assms by (simp add: load_slot_def table_of_def chains_def)

lemma bucket_member:
  assumes "chains h t A"
  shows "(\<exists>a \<in> set (A (hash k)). \<exists>n. lookup h a = Some n \<and> hn_key n = k) \<longleftrightarrow> k \<in># key_mset h"
proof
  assume "k \<in># key_mset h"
  then obtain a n where a: "lookup h a = Some n" "hn_key n = k" by (auto simp: in_key_mset)
  with assms obtain i where i: "i < TABLE_SIZE" "a \<in> set (A i)" unfolding chains_def by blast
  with assms a have "hash k = i" unfolding chains_def by blast
  with i a show "\<exists>a \<in> set (A (hash k)). \<exists>n. lookup h a = Some n \<and> hn_key n = k" by blast
qed (auto simp: in_key_mset)

lemma add_node_ok:
  assumes "hm_inv s"
  shows "\<exists>s'. add_node True k (hash k) s = Inr s' \<and> hm_inv s' \<and> stored s' = add_mset k (stored s)"
proof -
  obtain t A where t: "hm s = HmLive t" "chains (nodes s) t A" using assms by (auto simp: hm_inv_def)
  let ?h = "nodes s" and ?a = "length (nodes s) + 1" and ?i = "hash k"
  let ?n = "\<lparr>hn_key = k, hn_next = t ! ?i\<rparr>"
  let ?h' = "?h @ [Some ?n]" and ?t' = "t[?i := ?a]" and ?A' = "A(?i := ?a # A ?i)"
  have len: "length t = TABLE_SIZE" using t(2) by (simp add: chains_def)
  have new: "?a \<notin> set (A j)" if "j < TABLE_SIZE" for j
    using seg_alloc [of ?h "t ! j" "A j" 0 ?a] t(2) that by (auto simp: chains_def)
  have old: "lookup ?h' a = lookup ?h a" if "a \<in> set (A j)" "j < TABLE_SIZE" for a j
    using new [OF that(2)] that(1) by (auto simp: lookup_snoc)
  have "chains ?h' ?t' ?A'"
    unfolding chains_def
  proof (intro conjI allI impI ballI)
    fix i assume i: "i < TABLE_SIZE"
    have c: "chain ?h' (t ! i) (A i)" using t(2) i old by (auto simp: chains_def intro: seg_frame)
    then show "chain ?h' (?t' ! i) (?A' i)"
      using i len by (auto simp: lookup_snoc nth_list_update)
    show "distinct (?A' i)" using t(2) i new by (simp add: chains_def)
    fix a n assume "a \<in> set (?A' i)" "lookup ?h' a = Some n"
    then show "hash (hn_key n) = i"
      using t(2) i old [of a i] new [OF i] by (auto simp: lookup_snoc chains_def split: if_splits)
  next
    fix i j assume "i < TABLE_SIZE" "j < TABLE_SIZE" "i \<noteq> j"
    then show "set (?A' i) \<inter> set (?A' j) = {}" using t(2) new by (auto simp: chains_def)
  next
    fix a assume a: "lookup ?h' a \<noteq> None"
    show "\<exists>i < TABLE_SIZE. a \<in> set (?A' i)"
    proof (cases "a = ?a")
      case True
      then show ?thesis using hash_less [of k] by (intro exI [of _ ?i]) simp
    next
      case False
      with a have "lookup ?h a \<noteq> None" by (simp add: lookup_snoc)
      then obtain i where "i < TABLE_SIZE" "a \<in> set (A i)" using t(2) unfolding chains_def by blast
      then show ?thesis by (intro exI [of _ i]) auto
    qed
  qed (simp add: len)
  moreover have "add_node True k ?i s = Inr (s\<lparr>nodes := ?h', hm := HmLive ?t'\<rparr>)"
    using load_slot_inv [OF t hash_less] t(1) len hash_less [of k]
    by (simp add: add_node_def new_node_def store_slot_def table_of_def)
  ultimately show ?thesis by (auto simp: hm_inv_def stored_def key_mset_append)
qed

lemma search_ok:
  assumes "hm_inv s"
  shows "ebind (load_slot s (hash k)) (find_key k s) = Inr (k \<in># stored s)"
proof -
  obtain t A where t: "hm s = HmLive t" "chains (nodes s) t A" using assms by (auto simp: hm_inv_def)
  then have "chain (nodes s) (t ! hash k) (A (hash k))" using hash_less [of k] by (simp add: chains_def)
  then show ?thesis
    using load_slot_inv [OF t hash_less] by (simp add: find_key_chain bucket_member [OF t(2)] stored_def)
qed

lemma unlink_seg:
  assumes "seg h p (xs @ b # ys) 0" "distinct (xs @ b # ys)" "lookup h b = Some n" "xs \<noteq> []"
    and "lookup h (last xs) = Some m"
  shows "seg (h[last xs - 1 := Some (m\<lparr>hn_next := hn_next n\<rparr>)]) p (xs @ ys) 0"
proof -
  let ?h' = "h[last xs - 1 := Some (m\<lparr>hn_next := hn_next n\<rparr>)]"
  have xs: "xs = butlast xs @ [last xs]" using assms(4) by simp
  have look: "lookup ?h' a = (if a = last xs then Some (m\<lparr>hn_next := hn_next n\<rparr>) else lookup h a)" for a
    using assms(5) by (intro lookup_update) simp
  have "seg h p (butlast xs @ [last xs] @ b # ys) 0" using assms(1) xs by (metis append_assoc)
  then have s: "seg h p (butlast xs) (last xs)" "seg h b (b # ys) 0"
    using assms(5) by (auto simp: seg_append)
  have d: "last xs \<notin> set (butlast xs)" "last xs \<notin> set ys"
  proof -
    have "distinct (butlast xs @ [last xs])" using assms(2) xs by simp
    then show "last xs \<notin> set (butlast xs)" by simp
    show "last xs \<notin> set ys" using last_in_set [OF assms(4)] assms(2) by auto
  qed
  have "seg ?h' p (butlast xs) (last xs)" using s(1) by (rule seg_frame) (use d look in auto)
  moreover have "seg ?h' (hn_next n) ys 0"
  proof (rule seg_frame)
    show "seg h (hn_next n) ys 0" using s(2) assms(3) by auto
  qed (use d look in auto)
  ultimately have "seg ?h' p (butlast xs @ [last xs] @ ys) 0" by (auto simp: seg_append look [unfolded One_nat_def])
  then show ?thesis using xs by (metis append_assoc)
qed

lemma delete_ok:
  assumes "hm_inv s"
  shows "\<exists>s'. hashmap_delete k s = Inr s' \<and> hm_inv s' \<and> stored s' = stored s - {#k#}"
proof -
  obtain t A where t: "hm s = HmLive t" "chains (nodes s) t A" using assms by (auto simp: hm_inv_def)
  let ?h = "nodes s" and ?i = "hash k"
  have len: "length t = TABLE_SIZE" using t(2) by (simp add: chains_def)
  have ch: "chain ?h (t ! ?i) (A ?i)" "distinct (A ?i)" using t(2) hash_less [of k] by (simp_all add: chains_def)
  note slot = load_slot_inv [OF t hash_less]
  show ?thesis
  proof (cases "k \<in># stored s")
    case False
    then have "find_prev k s (0, t ! ?i) = Inr None"
      using find_prev_chain [OF ch(1), of k 0] bucket_member [OF t(2), of k] by (simp add: stored_def)
    then show ?thesis
      using False assms slot by (simp add: hashmap_delete_def Let_def diff_single_trivial)
  next
    case True
    then obtain xs b ys n where b: "A ?i = xs @ b # ys" "lookup ?h b = Some n" "hn_key n = k"
      "find_prev k s (0, t ! ?i) = Inr (Some (if xs = [] then 0 else last xs, b))"
      using find_prev_chain [OF ch(1), of k 0] bucket_member [OF t(2), of k] by (auto simp: stored_def)
    let ?A' = "A(?i := xs @ ys)"
    define m where "m = (if xs = [] then undefined else the (lookup ?h (last xs)))"
    define h1 where "h1 = (if xs = [] then ?h else ?h[last xs - 1 := Some (m\<lparr>hn_next := hn_next n\<rparr>)])"
    define t1 where "t1 = (if xs = [] then t[?i := hn_next n] else t)"
    have ni: "last xs \<noteq> b" "last xs \<in> set (A ?i)" if "xs \<noteq> []"
      using ch(2) b(1) last_in_set [OF that] by auto
    have m: "lookup ?h (last xs) = Some m" if "xs \<noteq> []"
      using seg_alloc [OF ch(1) ni(2) [OF that]] that by (auto simp: m_def)
    have look1: "lookup h1 a = (if xs \<noteq> [] \<and> a = last xs then Some (m\<lparr>hn_next := hn_next n\<rparr>) else lookup ?h a)" for a
      using m lookup_update [of ?h "last xs"] by (auto simp: h1_def)
    have b1: "lookup h1 b = Some n" using look1 [of b] b(2) ni(1) by auto
    have look2: "lookup (h1[b - 1 := None]) a = (if a = b then None else lookup h1 a)" for a
      using b1 by (intro lookup_update) simp
    have "last xs \<noteq> 0" if "xs \<noteq> []" using m [OF that] by (metis lookup_0 option.distinct(1))
    then have run: "hashmap_delete k s = Inr (s\<lparr>nodes := h1[b - 1 := None], hm := HmLive t1\<rparr>)"
      using slot b(2,4) m b1 t(1) len hash_less [of k]
      by (auto simp: hashmap_delete_def Let_def store_next_def store_slot_def table_of_def free_node_def
          node_at_def h1_def t1_def)
    have keys: "key_mset (h1[b - 1 := None]) = key_mset ?h - {#k#}"
      using key_mset_update(1) [OF b1] key_mset_update(2) [OF m] b(3) by (auto simp: h1_def)
    have other: "lookup (h1[b - 1 := None]) a = lookup ?h a" if "a \<in> set (A j)" "j < TABLE_SIZE" "j \<noteq> ?i" for a j
    proof -
      have "a \<notin> set (A ?i)" using t(2) that hash_less [of k] unfolding chains_def by blast
      then have "a \<noteq> b" "xs \<noteq> [] \<Longrightarrow> a \<noteq> last xs" using b(1) ni(2) by auto
      then show ?thesis by (auto simp: look1 look2 [unfolded One_nat_def])
    qed
    have own: "chain (h1[b - 1 := None]) (t1 ! ?i) (xs @ ys)"
    proof (rule seg_frame [where h = h1])
      show "seg h1 (t1 ! ?i) (xs @ ys) 0"
      proof (cases "xs = []")
        case True
        then show ?thesis using ch(1) b len hash_less [of k] by (simp add: h1_def t1_def)
      next
        case False
        then show ?thesis
          using unlink_seg [OF _ _ b(2) False m] ch b(1) by (simp add: h1_def t1_def)
      qed
      fix a assume "a \<in> set (xs @ ys)"
      then have "a \<noteq> b" using ch(2) b(1) by auto
      then show "lookup (h1[b - 1 := None]) a = lookup h1 a" unfolding look2 by simp
    qed
    have hn: "\<exists>n'. lookup ?h a = Some n' \<and> hn_key n' = hn_key n''"
      if "lookup (h1[b - 1 := None]) a = Some n''" for a n''
      using that m unfolding look2 look1 by (auto split: if_splits)
    have "chains (h1[b - 1 := None]) t1 ?A'"
      unfolding chains_def
    proof (intro conjI allI impI ballI)
      show "length t1 = TABLE_SIZE" by (simp add: t1_def len)
      fix i assume i: "i < TABLE_SIZE"
      have "chain (h1[b - 1 := None]) (t ! i) (A i)" if "i \<noteq> ?i"
        using t(2) i other that by (auto simp: chains_def intro: seg_frame)
      then show "chain (h1[b - 1 := None]) (t1 ! i) (?A' i)" using own by (auto simp: t1_def)
      show "distinct (?A' i)" using t(2) i ch(2) b(1) by (auto simp: chains_def)
      fix a n' assume a: "a \<in> set (?A' i)" "lookup (h1[b - 1 := None]) a = Some n'"
      then have "a \<in> set (A i)" using b(1) by (auto split: if_splits)
      with hn [OF a(2)] t(2) i show "hash (hn_key n') = i" unfolding chains_def by metis
    next
      fix i j assume "i < TABLE_SIZE" "j < TABLE_SIZE" "i \<noteq> j"
      then have "set (A i) \<inter> set (A j) = {}" using t(2) by (simp add: chains_def)
      moreover have "set (?A' l) \<subseteq> set (A l)" for l using b(1) by auto
      ultimately show "set (?A' i) \<inter> set (?A' j) = {}" by blast
    next
      fix a assume a: "lookup (h1[b - 1 := None]) a \<noteq> None"
      then have "a \<noteq> b" "lookup ?h a \<noteq> None" using m unfolding look2 look1 by (auto split: if_splits)
      then obtain i where i: "i < TABLE_SIZE" "a \<in> set (A i)" using t(2) unfolding chains_def by blast
      then have "a \<in> set (?A' i)" using \<open>a \<noteq> b\<close> b(1) by (auto split: if_splits)
      with i(1) show "\<exists>i < TABLE_SIZE. a \<in> set (?A' i)" by blast
    qed
    then show ?thesis unfolding run by (auto simp: hm_inv_def stored_def keys [unfolded One_nat_def])
  qed
qed

section \<open>Resetting the map\<close>

lemma free_chain_ok:
  "chain (nodes s) p as \<Longrightarrow> distinct as \<Longrightarrow>
    \<exists>s'. free_chain p s = Inr s' \<and> hm s' = hm s
      \<and> (\<forall>a. lookup (nodes s') a = (if a \<in> set as then None else lookup (nodes s) a))"
proof (induction as arbitrary: p s)
  case Nil
  then have "free_chain p s = Inr s" unfolding free_chain_def by (intro run_loop_Break) simp
  then show ?case by simp
next
  case (Cons a as)
  then obtain n where n: "p = a" "lookup (nodes s) a = Some n" "chain (nodes s) (hn_next n) as" by auto
  then have a: "a \<noteq> 0" by (metis lookup_0 option.distinct(1))
  let ?s = "s\<lparr>nodes := (nodes s)[a - 1 := None]\<rparr>"
  have look: "lookup (nodes ?s) c = (if c = a then None else lookup (nodes s) c)" for c
    using n(2) lookup_update [of "nodes s" a None c] by simp
  have "chain (nodes ?s) (hn_next n) as"
    using n(3) by (rule seg_frame) (use Cons.prems(2) look in auto)
  then obtain s' where s': "free_chain (hn_next n) ?s = Inr s'" "hm s' = hm s"
    "\<forall>c. lookup (nodes s') c = (if c \<in> set as then None else lookup (nodes ?s) c)"
    using Cons.IH [of ?s "hn_next n"] Cons.prems(2) by auto
  have "free_chain p s = free_chain (hn_next n) ?s"
    unfolding free_chain_def using n a by (intro run_loop_Cont) (simp add: free_node_def node_at_Some)
  with s' look show ?case by auto
qed

lemma key_mset_empty:
  assumes "\<And>a. lookup h a = None"
  shows "key_mset h = {#}"
proof (rule ccontr)
  assume "key_mset h \<noteq> {#}"
  then obtain k where "k \<in># key_mset h" by (auto simp: multiset_nonemptyE)
  then show False using assms by (auto simp: in_key_mset)
qed

lemma fresh_chains:
  assumes "\<And>a. lookup h a = None"
  shows "chains h (replicate TABLE_SIZE 0) (\<lambda>_. [])"
  using assms by (simp add: chains_def)

lemma reset_live:
  assumes "hm_inv s"
  shows "\<exists>s'. hashmap_reset ok s = Inr s' \<and> hm_inv s' \<and> stored s' = {#} \<and> (\<forall>a. lookup (nodes s') a = None)"
proof -
  obtain t A where t: "hm s = HmLive t" "chains (nodes s) t A" using assms by (auto simp: hm_inv_def)
  let ?body = "\<lambda>i s. ebind (load_slot s i) (\<lambda>node. free_chain node s)"
  define I where "I j s' \<longleftrightarrow> hm s' = HmLive t
      \<and> (\<forall>a. lookup (nodes s') a = (if \<exists>i < j. a \<in> set (A i) then None else lookup (nodes s) a))" for j and s' :: hstore
  have "\<exists>s2. ?body j s1 = Inr s2 \<and> I (Suc j) s2" if "j < TABLE_SIZE" "I j s1" for j s1
  proof -
    have fresh: "a \<notin> set (A i)" if "a \<in> set (A j)" "i < j" for a i
    proof -
      have "set (A i) \<inter> set (A j) = {}" using t(2) that(2) \<open>j < TABLE_SIZE\<close> by (simp add: chains_def)
      with that(1) show ?thesis by blast
    qed
    have "chain (nodes s) (t ! j) (A j)" using t(2) that(1) by (simp add: chains_def)
    then have "chain (nodes s1) (t ! j) (A j)"
    proof (rule seg_frame)
      fix a assume "a \<in> set (A j)"
      then have "\<not> (\<exists>i < j. a \<in> set (A i))" using fresh by blast
      with that(2) show "lookup (nodes s1) a = lookup (nodes s) a" unfolding I_def by auto
    qed
    moreover have "distinct (A j)" using t(2) that(1) by (simp add: chains_def)
    ultimately obtain s2 where s2: "free_chain (t ! j) s1 = Inr s2" "hm s2 = hm s1"
      "\<forall>a. lookup (nodes s2) a = (if a \<in> set (A j) then None else lookup (nodes s1) a)"
      using free_chain_ok by blast
    have "length t = TABLE_SIZE" using t(2) by (simp add: chains_def)
    then have "load_slot s1 j = Inr (t ! j)" using that by (simp add: I_def load_slot_def table_of_def)
    with s2 that(2) show ?thesis by (auto simp: I_def less_Suc_eq)
  qed
  moreover have "I 0 s" using t(1) by (simp add: I_def)
  ultimately have "\<exists>s'. count_loop TABLE_SIZE 0 ?body s = Inr s' \<and> I (0 + TABLE_SIZE) s'"
    by (intro count_loop_inv [where I = I]) simp_all
  then obtain s1 where s1: "count_loop TABLE_SIZE 0 ?body s = Inr s1" "I TABLE_SIZE s1" by auto
  have none: "lookup (nodes s1) a = None" for a
  proof (cases "lookup (nodes s) a")
    case (Some n)
    then obtain i where "i < TABLE_SIZE" "a \<in> set (A i)" using t(2) unfolding chains_def by blast
    then show ?thesis using s1(2) by (auto simp: I_def)
  qed (use s1(2) in \<open>simp add: I_def\<close>)
  have "hashmap_reset ok s = Inr (s1\<lparr>hm := HmLive (replicate TABLE_SIZE 0)\<rparr>)"
    using t(1) s1(1) by (simp add: hashmap_reset_def)
  then show ?thesis
    using none fresh_chains [of "nodes s1"] key_mset_empty [of "nodes s1"] by (auto simp: hm_inv_def stored_def)
qed

lemma reset_first:
  assumes "hm s = HmNull" "nodes s = []"
  shows "\<exists>s'. hashmap_reset True s = Inr s' \<and> hm_inv s' \<and> stored s' = {#} \<and> (\<forall>a. lookup (nodes s') a = None)"
proof -
  have "lookup [] a = None" for a by (auto simp: lookup_def)
  then show ?thesis using assms fresh_chains [of "[]"] by (auto simp: hashmap_reset_def hm_inv_def stored_def)
qed

lemma search_and_add_ok:
  assumes "hm_inv s" "type < 8"
  shows "\<exists>s'. hashmap_search_and_add True type key s = Inr (key_val type key \<in># stored s, s') \<and> hm_inv s'
    \<and> stored s' = (if key_val type key \<in># stored s then stored s else add_mset (key_val type key) (stored s))"
proof -
  let ?v = "key_val type key"
  obtain node where node: "load_slot s (hash ?v) = Inr node"
    using assms(1) load_slot_inv [OF _ _ hash_less] by (auto simp: hm_inv_def)
  have f: "find_key ?v s node = Inr (?v \<in># stored s)" using search_ok [OF assms(1), of ?v] node by simp
  show ?thesis
    using add_node_ok [OF assms(1), of ?v] assms node f
    by (auto simp: hashmap_search_and_add_def Let_def)
qed

section \<open>The cache as an interface\<close>

text \<open>
  What \<^verbatim>\<open>afl-fuzz-redqueen.c\<close> relies on: a state with a set of remembered values, a reset and an
  operation that remembers a value and tells whether it was there. The client lemma is about a whole
  run of calls: the answers are exactly the repetitions.
\<close>

locale seen_cache =
  fixes inv :: "'s \<Rightarrow> bool" and seen :: "'s \<Rightarrow> 'k set"
    and remember :: "'k \<Rightarrow> 's \<Rightarrow> (bool \<times> 's) res"
  assumes remember_law: "inv s \<Longrightarrow> \<exists>s'. remember k s = Inr (k \<in> seen s, s') \<and> inv s' \<and> seen s' = insert k (seen s)"
begin

primrec remember_all :: "'k list \<Rightarrow> 's \<Rightarrow> (bool list \<times> 's) res" where
  "remember_all [] s = Inr ([], s)"
| "remember_all (k # ks) s = ebind (remember k s) (\<lambda>(b, s). ebind (remember_all ks s) (\<lambda>(bs, s). Inr (b # bs, s)))"

lemma remember_all_repeats:
  "inv s \<Longrightarrow> \<exists>bs s'. remember_all ks s = Inr (bs, s') \<and> inv s' \<and> seen s' = seen s \<union> set ks \<and> length bs = length ks
     \<and> (\<forall>i < length ks. bs ! i \<longleftrightarrow> ks ! i \<in> seen s \<union> set (take i ks))"
proof (induction ks arbitrary: s)
  case (Cons k ks)
  from remember_law [OF Cons.prems, of k] obtain s1 where
    s1: "remember k s = Inr (k \<in> seen s, s1)" "inv s1" "seen s1 = insert k (seen s)" by blast
  from Cons.IH [OF s1(2)] obtain bs s2 where
    s2: "remember_all ks s1 = Inr (bs, s2)" "inv s2" "seen s2 = seen s1 \<union> set ks" "length bs = length ks"
    "\<forall>i < length ks. bs ! i \<longleftrightarrow> ks ! i \<in> seen s1 \<union> set (take i ks)" by blast
  have "remember_all (k # ks) s = Inr ((k \<in> seen s) # bs, s2)" using s1 s2 by simp
  moreover have "((k \<in> seen s) # bs) ! i \<longleftrightarrow> (k # ks) ! i \<in> seen s \<union> set (take i (k # ks))"
    if "i < length (k # ks)" for i
    using that s2(5) s1(3) by (cases i) auto
  ultimately show ?case using s2 s1(3) by (intro exI [of _ "(k \<in> seen s) # bs"] exI [of _ s2]) auto
qed simp

end

text \<open>The type of a call is part of the value it looks for.\<close>

definition remember_val :: "u64 \<Rightarrow> hstore \<Rightarrow> (bool \<times> hstore) res" where
  "remember_val v = hashmap_search_and_add True (unat (drop_bit 56 v AND 7)) v"

lemma key_val_id: "key_val (unat (drop_bit 56 v AND 7)) v = v"
proof -
  have m: "(0xf8ffffffffffffff :: u64) = NOT (push_bit 56 7)" by simp
  have t: "(of_nat (unat (drop_bit 56 v AND 7)) :: u64) = drop_bit 56 v AND 7" by simp
  have seven: "(7 :: u64) = mask 3" by (simp add: mask_eq_exp_minus_1)
  have "(v AND NOT (push_bit 56 7)) + push_bit 56 (drop_bit 56 v AND 7)
      = (v AND NOT (push_bit 56 7)) OR push_bit 56 (drop_bit 56 v AND 7)"
    by (rule disjunctive_add_eq_or, rule bit_word_eqI) (auto simp: seven bit_simps)
  also have "\<dots> = v" by (rule bit_word_eqI) (auto simp: seven bit_simps)
  finally show ?thesis unfolding key_val_def m t .
qed

lemma low3_less: "unat (drop_bit 56 v AND 7 :: u64) < 8"
proof -
  have "drop_bit 56 v AND 7 \<le> (7 :: u64)" by (rule word_and_le1)
  then show ?thesis by (simp add: word_le_nat_alt)
qed

interpretation cmp_cache: seen_cache hm_inv "\<lambda>s. set_mset (stored s)" remember_val
proof
  fix s and k :: u64 assume inv: "hm_inv s"
  from search_and_add_ok [OF inv low3_less, of k k] show "\<exists>s'. remember_val k s = Inr (k \<in> set_mset (stored s), s') \<and> hm_inv s'
      \<and> set_mset (stored s') = insert k (set_mset (stored s))"
    by (auto simp: remember_val_def key_val_id)
qed

lemma search_and_add_val:
  assumes "type < 8"
  shows "hashmap_search_and_add True type key = remember_val (key_val type key)"
proof -
  have "\<not> 8 \<le> unat (drop_bit 56 (key_val type key) AND 7)" using low3_less [of "key_val type key"] by simp
  then show ?thesis
    using assms by (intro ext) (simp add: remember_val_def hashmap_search_and_add_def key_val_id)
qed

primrec cmp_run :: "(nat \<times> u64) list \<Rightarrow> hstore \<Rightarrow> (bool list \<times> hstore) res" where
  "cmp_run [] s = Inr ([], s)"
| "cmp_run (c # cs) s = ebind (hashmap_search_and_add True (fst c) (snd c) s) (\<lambda>(b, s).
     ebind (cmp_run cs s) (\<lambda>(bs, s). Inr (b # bs, s)))"

lemma cmp_run_remember:
  "\<forall>c \<in> set cs. fst c < 8 \<Longrightarrow> cmp_run cs s = cmp_cache.remember_all (map (\<lambda>(t, k). key_val t k) cs) s"
  by (induction cs arbitrary: s) (auto simp: search_and_add_val split: prod.splits)

section \<open>Properties\<close>

definition start_map :: hstore where
  "start_map = \<lparr>hm = HmNull, nodes = []\<rparr>"

text \<open>
  C27: after \<open>hashmap_reset\<close>, on a map in use or on the first call, a run of
  \<open>hashmap_search_and_add\<close> answers true exactly for the values that were added before in the run;
  it keeps the invariant and never touches a freed node.
\<close>

theorem cmp_cache_dedup:
  assumes "hm_inv s \<or> s = start_map" "\<forall>c \<in> set cs. fst c < 8"
  shows "\<exists>bs s'. ebind (hashmap_reset True s) (cmp_run cs) = Inr (bs, s') \<and> hm_inv s' \<and> length bs = length cs
    \<and> (\<forall>i < length cs. bs ! i \<longleftrightarrow> (\<exists>j < i. key_val (fst (cs ! j)) (snd (cs ! j)) = key_val (fst (cs ! i)) (snd (cs ! i))))"
proof -
  obtain s1 where s1: "hashmap_reset True s = Inr s1" "hm_inv s1" "stored s1 = {#}"
  proof (cases "hm_inv s")
    case True
    then show ?thesis using that reset_live [OF True, of True] by blast
  next
    case False
    then show ?thesis using that assms(1) reset_first [of s] by (auto simp: start_map_def)
  qed
  let ?ks = "map (\<lambda>(t, k). key_val t k) cs"
  from cmp_cache.remember_all_repeats [OF s1(2), of ?ks] obtain bs s2 where
    s2: "cmp_run cs s1 = Inr (bs, s2)" "hm_inv s2" "length bs = length cs"
    "\<forall>i < length cs. bs ! i \<longleftrightarrow> ?ks ! i \<in> set (take i ?ks)"
    using s1(3) by (auto simp: cmp_run_remember [OF assms(2)])
  have "?ks ! i \<in> set (take i ?ks) \<longleftrightarrow> (\<exists>j < i. key_val (fst (cs ! j)) (snd (cs ! j)) = key_val (fst (cs ! i)) (snd (cs ! i)))"
    if "i < length cs" for i
    using that by (auto simp: in_set_conv_nth split_beta)
  with s1 s2 show ?thesis by auto
qed

theorem cmp_cache_dedup_witness:
  "\<exists>bs s'. ebind (hashmap_reset True start_map) (cmp_run [(3, 5), (2, 5), (3, 5)]) = Inr (bs, s')
    \<and> \<not> bs ! 0 \<and> \<not> bs ! 1 \<and> bs ! 2"
proof -
  have "key_val 3 5 \<noteq> key_val 2 5" by (simp add: key_val_def)
  moreover define cs where "cs = [(3, 5), (2, 5), (3 :: nat, 5 :: u64)]"
  ultimately have v: "key_val (fst (cs ! 1)) (snd (cs ! 1)) \<noteq> key_val (fst (cs ! 0)) (snd (cs ! 0))"
    "key_val (fst (cs ! 2)) (snd (cs ! 2)) = key_val (fst (cs ! 0)) (snd (cs ! 0))" "length cs = 3"
    "\<forall>c \<in> set cs. fst c < 8" by auto
  obtain bs s' where bs: "ebind (hashmap_reset True start_map) (cmp_run cs) = Inr (bs, s')"
    "\<forall>i < length cs. bs ! i \<longleftrightarrow> (\<exists>j < i. key_val (fst (cs ! j)) (snd (cs ! j)) = key_val (fst (cs ! i)) (snd (cs ! i)))"
    using cmp_cache_dedup [of start_map cs] v(4) by blast
  have "\<not> bs ! 0" "\<not> bs ! 1" using bs(2) [rule_format, of 0] bs(2) [rule_format, of 1] v by auto
  moreover have "bs ! 2" using bs(2) [rule_format, of 2] v(2,3) by (auto intro!: exI [of _ 0])
  ultimately have "\<not> bs ! 0" "\<not> bs ! 1" "bs ! 2" by simp_all
  with bs(1) show ?thesis unfolding cs_def by blast
qed

text \<open>
  C28: the other operations refine the multiset of stored keys: \<open>hashmap_insert\<close> adds one
  occurrence, \<open>hashmap_search\<close> tests membership, \<open>delete\<close> removes one occurrence and frees its node.
\<close>

theorem hashmap_multiset:
  assumes "hm_inv s"
  shows "(\<exists>s'. hashmap_insert True k s = Inr s' \<and> hm_inv s' \<and> stored s' = add_mset k (stored s))
    \<and> hashmap_search k s = Inr (k \<in># stored s)
    \<and> (\<exists>s'. hashmap_delete k s = Inr s' \<and> hm_inv s' \<and> stored s' = stored s - {#k#})"
  using add_node_ok [OF assms] search_ok [OF assms] delete_ok [OF assms]
  by (simp add: hashmap_insert_def hashmap_search_def)

theorem hashmap_multiset_witness:
  "\<exists>s s'. hashmap_reset True start_map = Inr s \<and> hashmap_insert True 7 s = Inr s' \<and> stored s' = {#7#}"
proof -
  obtain s where "hashmap_reset True start_map = Inr s" "hm_inv s" "stored s = {#}"
    using reset_first [of start_map] by (auto simp: start_map_def)
  with hashmap_multiset [of s 7] show ?thesis by auto
qed

text \<open>\<open>hashmap_reset\<close> on a live map frees every node, so no memory is lost between two rounds.\<close>

theorem hashmap_reset_frees:
  assumes "hm_inv s"
  shows "\<exists>s'. hashmap_reset ok s = Inr s' \<and> hm_inv s' \<and> stored s' = {#} \<and> (\<forall>a. lookup (nodes s') a = None)"
  using assms by (rule reset_live)

theorem hashmap_reset_frees_witness:
  "\<exists>s s'. hashmap_reset True start_map = Inr s \<and> hashmap_reset False s = Inr s' \<and> stored s' = {#}"
proof -
  obtain s where "hashmap_reset True start_map = Inr s" "hm_inv s"
    using reset_first [of start_map] by (auto simp: start_map_def)
  with hashmap_reset_frees [of s False] show ?thesis by auto
qed

text \<open>
  \<open>hashmap_search_and_add_ptr\<close> writes to the first page of the address space instead of its
  local variable: with that page unmapped, as on every host of the fuzzer, each call with a valid
  type faults.
\<close>

theorem search_and_add_ptr_faults:
  assumes "type < 8" "\<forall>a < 4096. \<not> mapped a"
  shows "hashmap_search_and_add_ptr mapped ok type key s = Inl Fault"
proof -
  have "7 \<in> set [0 + (7 - type)..<0 + (7 - type) + (type + 1)]" using assms(1) by auto
  moreover have "\<not> mapped 7" using assms(2) by simp
  ultimately have "\<not> list_all mapped [0 + (7 - type)..<0 + (7 - type) + (type + 1)]"
    unfolding list_all_iff by blast
  then show ?thesis using assms(1) by (simp only: hashmap_search_and_add_ptr_def Let_def) simp
qed

theorem search_and_add_ptr_faults_witness:
  "hashmap_search_and_add_ptr (\<lambda>a. 65536 \<le> a) True 3 [1, 2, 3, 4] start_map = Inl Fault"
  by (rule search_and_add_ptr_faults) simp_all

end
