(* ===== verification/AFL_Alloc.thy ===== *)
theory AFL_Alloc
  imports AFL_Bytes
begin

text \<open>
  The growing buffers of \<^verbatim>\<open>include/alloc-inl.h\<close>. A buffer is the list of its usable bytes; the
  \<open>complete_size\<close> in its header counts the header as well. \<open>alloc_ok\<close> says which sizes
  \<open>realloc\<close> can serve; a failed call frees the old block. Sizes are \<open>size_t\<close>, 64 bits wide.
\<close>

definition AFL_ALLOC_SIZE_OFFSET :: nat where "AFL_ALLOC_SIZE_OFFSET = 8"
definition INITIAL_GROWTH_SIZE :: nat where "INITIAL_GROWTH_SIZE = 64"

definition next_pow2 :: "u64 \<Rightarrow> u64" where
  "next_pow2 n =
     (let out = n - 1;
          out = out OR drop_bit 1 out;
          out = out OR drop_bit 2 out;
          out = out OR drop_bit 4 out;
          out = out OR drop_bit 8 out;
          out = out OR drop_bit 16 out
      in out + 1)"

definition complete_size :: "bytes option \<Rightarrow> nat" where
  "complete_size buf = (case buf of None \<Rightarrow> 0 | Some b \<Rightarrow> length b + AFL_ALLOC_SIZE_OFFSET)"

definition contents :: "bytes option \<Rightarrow> bytes" where
  "contents buf = (case buf of None \<Rightarrow> [] | Some b \<Rightarrow> b)"

definition afl_alloc_bufsize :: "bytes option \<Rightarrow> nat" where
  "afl_alloc_bufsize buf = complete_size buf - AFL_ALLOC_SIZE_OFFSET"

definition afl_realloc :: "(nat \<Rightarrow> bool) \<Rightarrow> bytes option \<Rightarrow> nat \<Rightarrow> bytes option" where
  "afl_realloc alloc_ok buf size_needed =
     (let size_needed = size_needed + AFL_ALLOC_SIZE_OFFSET in
      if complete_size buf \<ge> size_needed then buf
      else
        let next_size =
          (if size_needed < INITIAL_GROWTH_SIZE then INITIAL_GROWTH_SIZE
           else let p = next_pow2 (word_of_nat size_needed) in
             if p = 0 then size_needed else unat p)
        in if \<not> alloc_ok next_size then None
           else Some (contents buf @
             replicate (next_size - AFL_ALLOC_SIZE_OFFSET - length (contents buf)) 0))"

text \<open>
  \<open>afl_realloc_exact\<close> gives the block the size that is asked for, also when that is smaller; the
  bytes behind the old contents come from the argument \<open>fresh\<close>, as they are not cleared.
\<close>

definition afl_realloc_exact :: "(nat \<Rightarrow> bool) \<Rightarrow> (nat \<Rightarrow> u8) \<Rightarrow> bytes option \<Rightarrow> nat \<Rightarrow> bytes option" where
  "afl_realloc_exact alloc_ok fresh buf size_needed =
     (if complete_size buf = size_needed + AFL_ALLOC_SIZE_OFFSET then buf
      else if \<not> alloc_ok (size_needed + AFL_ALLOC_SIZE_OFFSET) then None
      else Some (take size_needed (contents buf) @ map fresh [length (contents buf)..<size_needed]))"

definition afl_free :: "bytes option \<Rightarrow> bytes option" where
  "afl_free buf = None"

definition afl_swap_bufs :: "bytes option \<times> bytes option \<Rightarrow> bytes option \<times> bytes option" where
  "afl_swap_bufs = (\<lambda>(buf1, buf2). (buf2, buf1))"

end
