(* ===== verification/AFL_Extras.thy ===== *)
theory AFL_Extras
  imports AFL_Mutations
begin

text \<open>
  The dictionaries of \<^verbatim>\<open>src/afl-fuzz-extras.c\<close>: the user's tokens \<open>extras\<close> and the ones found while
  fuzzing, \<open>a_extras\<close>. The parser of the \<open>name="value"\<close> format, the three operations that edit
  \<open>extras\<close> and \<open>maybe_add_auto\<close> follow the code case by case. \<open>qsort\<close> of the C library is the
  argument \<open>qs\<close>; it leaves the order of equal elements open.
\<close>

section \<open>State\<close>

text \<open>
  A token is the list of its bytes, so the \<open>len\<close> field is its length. The bytes of an automatic
  token's fixed array behind \<open>len\<close> are never read. A slot that has not been used has
  \<open>hit_cnt\<close> 0, as the array is part of the zeroed state.
\<close>

record auto_extra =
  ae_data :: bytes
  ae_hit_cnt :: nat

record dict =
  d_extras :: "bytes list"
  d_a_extras :: "auto_extra list"
  d_auto_changed :: bool

definition MAX_DICT_FILE :: nat where "MAX_DICT_FILE = 128"
definition MIN_AUTO_EXTRA :: nat where "MIN_AUTO_EXTRA = 3"
definition MAX_AUTO_EXTRA :: nat where "MAX_AUTO_EXTRA = 32"
definition USE_AUTO_EXTRAS :: nat where "USE_AUTO_EXTRAS = 4096"
definition MAX_AUTO_EXTRAS :: nat where "MAX_AUTO_EXTRAS = USE_AUTO_EXTRAS * 8"

text \<open>The comparison functions: a difference of two \<open>u32\<close> converted to \<open>int\<close>.\<close>

definition s32_diff :: "nat \<Rightarrow> nat \<Rightarrow> int" where
  "s32_diff a b = sint (word_of_nat a - word_of_nat b :: u32)"

definition compare_extras_len :: "bytes \<Rightarrow> bytes \<Rightarrow> int" where
  "compare_extras_len e1 e2 = s32_diff (length e1) (length e2)"

definition compare_auto_extras_len :: "auto_extra \<Rightarrow> auto_extra \<Rightarrow> int" where
  "compare_auto_extras_len e1 e2 = s32_diff (length (ae_data e1)) (length (ae_data e2))"

definition compare_auto_extras_use_d :: "auto_extra \<Rightarrow> auto_extra \<Rightarrow> int" where
  "compare_auto_extras_use_d e1 e2 = s32_diff (ae_hit_cnt e2) (ae_hit_cnt e1)"

type_synonym 'a sorter = "('a \<Rightarrow> 'a \<Rightarrow> int) \<Rightarrow> 'a list \<Rightarrow> 'a list"

section \<open>Characters in the C locale\<close>

definition isspace :: "u8 \<Rightarrow> bool" where
  "isspace c \<longleftrightarrow> 9 \<le> c \<and> c \<le> 13 \<or> c = 32"

definition isdigit :: "u8 \<Rightarrow> bool" where
  "isdigit c \<longleftrightarrow> 48 \<le> c \<and> c \<le> 57"

definition isalnum :: "u8 \<Rightarrow> bool" where
  "isalnum c \<longleftrightarrow> isdigit c \<or> 65 \<le> c \<and> c \<le> 90 \<or> 97 \<le> c \<and> c \<le> 122"

definition isxdigit :: "u8 \<Rightarrow> bool" where
  "isxdigit c \<longleftrightarrow> isdigit c \<or> 65 \<le> c \<and> c \<le> 70 \<or> 97 \<le> c \<and> c \<le> 102"

definition tolower :: "u8 \<Rightarrow> u8" where
  "tolower c = (if 65 \<le> c \<and> c \<le> 90 then c + 32 else c)"

text \<open>\<open>atoi\<close>: white space, a sign, digits. A value beyond the range of \<open>int\<close> is undefined in C.\<close>

definition digits_value :: "bytes \<Rightarrow> int" where
  "digits_value s = foldl (\<lambda>v c. 10 * v + (uint c - 48)) 0 (takeWhile isdigit s)"

definition atoi :: "bytes \<Rightarrow> int" where
  "atoi s = (let t = dropWhile isspace s in
     case t of [] \<Rightarrow> 0
     | c # u \<Rightarrow> if c = 45 then - digits_value u else if c = 43 then digits_value u else digits_value t)"

section \<open>Reading a dictionary file\<close>

text \<open>\<open>strchr(hexdigits, tolower(c)) - hexdigits\<close>, for a hexadecimal digit \<open>c\<close>.\<close>

definition hex_value :: "u8 \<Rightarrow> u8" where
  "hex_value c = (let l = tolower c in if isdigit l then l - 48 else l - 87)"

text \<open>
  The loop that copies the text between the quotes, with its escapes; a C string is the list of
  the bytes in front of its terminator. A backslash of an invalid escape is dropped and so is
  every byte outside the printable range (a \<open>WARNF\<close>, not modelled).
\<close>

fun unescape :: "bytes \<Rightarrow> bytes" where
  "unescape [] = []"
| "unescape (c # s) =
     (if 1 \<le> c \<and> c \<le> 31 \<or> 128 \<le> c then unescape s
      else if c = 92 then
        (case s of
           [] \<Rightarrow> []
         | d # t \<Rightarrow>
             if d = 92 \<or> d = 34 then d # unescape t
             else case t of
               h # l # u \<Rightarrow>
                 if d = 120 \<and> isxdigit h \<and> isxdigit l
                 then (push_bit 4 (hex_value h) OR hex_value l) # unescape u
                 else unescape s
             | _ \<Rightarrow> unescape s)
      else c # unescape s)"

text \<open>What becomes of a line.\<close>

datatype line = Skip | Malformed | Empty_Keyword | Token bytes

definition trim :: "bytes \<Rightarrow> bytes" where
  "trim s = rev (dropWhile isspace (rev (dropWhile isspace s)))"

definition parse_value :: "bytes \<Rightarrow> line" where
  "parse_value s =
     (case dropWhile (\<lambda>c. isspace c \<or> c = 61) s of
        [] \<Rightarrow> Malformed
      | c # t \<Rightarrow> if c \<noteq> 34 then Malformed else if t = [] then Empty_Keyword else Token (unescape t))"

text \<open>\<open>[number]\<close>: the loop consumes the bracket and then digits, the closing bracket is optional.\<close>

definition skip_number :: "bytes \<Rightarrow> bytes" where
  "skip_number s =
     (case s of
        [] \<Rightarrow> []
      | c # t \<Rightarrow> if c \<noteq> 91 then s else
          (case dropWhile isdigit t of
             [] \<Rightarrow> []
           | e # u \<Rightarrow> if e = 93 then u else e # u))"

definition parse_line :: "int \<Rightarrow> bytes \<Rightarrow> line" where
  "parse_line dict_level s =
     (let l = trim s in
      if l = [] \<or> hd l = 35 then Skip
      else if last l \<noteq> 34 then Malformed
      else
        let l = dropWhile (\<lambda>c. isalnum c \<or> c = 95) (butlast l) in
        case l of
          c # t \<Rightarrow> if c = 64 then
                      if atoi t > dict_level then Skip
                      else parse_value (skip_number (dropWhile isdigit t))
                    else parse_value (skip_number l)
        | [] \<Rightarrow> parse_value [])"

text \<open>The token under construction is kept only when it is not too big.\<close>

definition add_line :: "int \<Rightarrow> bytes \<Rightarrow> bytes list \<times> nat \<times> nat \<Rightarrow> bytes list \<times> nat \<times> nat" where
  "add_line dict_level s = (\<lambda>(extras, min_len, max_len).
     case parse_line dict_level s of
       Token t \<Rightarrow> if length t > MAX_DICT_FILE then (extras, min_len, max_len)
                  else (extras @ [t], min min_len (length t), max max_len (length t))
     | _ \<Rightarrow> (extras, min_len, max_len))"

text \<open>
  \<open>fgets(buf, size, f)\<close> reads up to a line feed, but at most \<open>size - 1\<close> bytes, so a longer line comes
  in pieces; the string in \<open>buf\<close> ends at the first zero byte.
\<close>

definition MAX_LINE :: nat where "MAX_LINE = 8192"

definition line_len :: "bytes \<Rightarrow> nat" where
  "line_len f = min (MAX_LINE - 1) (length (takeWhile (\<lambda>c. c \<noteq> 10) f) + 1)"

function file_lines :: "bytes \<Rightarrow> bytes list" where
  "file_lines f =
     (if f = [] then [] else takeWhile (\<lambda>c. c \<noteq> 0) (take (line_len f) f) # file_lines (drop (line_len f) f))"
  by pat_completeness auto
termination by (relation "measure length") (auto simp: line_len_def MAX_LINE_def)

declare file_lines.simps [simp del]

definition load_extras_file :: "int \<Rightarrow> bytes \<Rightarrow> bytes list \<times> nat \<times> nat \<Rightarrow> bytes list \<times> nat \<times> nat" where
  "load_extras_file dict_level f st = fold (add_line dict_level) (file_lines f) st"

definition extras_check_and_sort :: "bytes sorter \<Rightarrow> bytes list \<Rightarrow> bytes list" where
  "extras_check_and_sort qs extras = (if extras = [] then [] else qs compare_extras_len extras)"

text \<open>\<open>load_extras\<close> for a dictionary file; \<open>dict_level\<close> is the number behind \<open>@\<close> in its name.\<close>

definition load_extras :: "bytes sorter \<Rightarrow> int \<Rightarrow> bytes \<Rightarrow> dict \<Rightarrow> dict" where
  "load_extras qs dict_level f d =
     (case load_extras_file dict_level f (d_extras d, MAX_DICT_FILE, 0) of (extras, min_len, max_len) \<Rightarrow>
        d\<lparr>d_extras := extras_check_and_sort qs extras\<rparr>)"

text \<open>
  \<open>load_extras\<close> for a directory, whose entries are the contents of its regular files and \<open>None\<close> for
  the others; a name with a level stops the program.
\<close>

definition add_file :: "bytes option \<Rightarrow> bytes list \<times> nat \<times> nat \<Rightarrow> bytes list \<times> nat \<times> nat" where
  "add_file f = (\<lambda>(extras, min_len, max_len).
     case f of
       None \<Rightarrow> (extras, min_len, max_len)
     | Some t \<Rightarrow> if t = [] \<or> length t > MAX_DICT_FILE then (extras, min_len, max_len)
                 else (extras @ [t], min min_len (length t), max max_len (length t)))"

definition load_extras_dir :: "bytes sorter \<Rightarrow> bool \<Rightarrow> bytes option list \<Rightarrow> dict \<Rightarrow> dict res" where
  "load_extras_dir qs has_level entries d =
     (if has_level then Inl Fatal
      else case fold add_file entries (d_extras d, MAX_DICT_FILE, 0) of (extras, min_len, max_len) \<Rightarrow>
        Inr (d\<lparr>d_extras := extras_check_and_sort qs extras\<rparr>))"

section \<open>Editing the user's dictionary\<close>

definition add_extra_nocheck :: "bytes \<Rightarrow> bytes list \<Rightarrow> bytes list" where
  "add_extra_nocheck mem extras = extras @ [mem]"

text \<open>The scan of \<open>add_extra\<close>, which stops behind the tokens of the same length.\<close>

fun has_extra :: "bytes \<Rightarrow> bool \<Rightarrow> bytes list \<Rightarrow> bool" where
  "has_extra mem found [] = False"
| "has_extra mem found (x # xs) =
     (if length x = length mem then (if x = mem then True else has_extra mem True xs)
      else if found then False else has_extra mem found xs)"

definition add_extra :: "bytes sorter \<Rightarrow> bytes \<Rightarrow> dict \<Rightarrow> dict" where
  "add_extra qs mem d =
     (if has_extra mem False (d_extras d) then d
      else if length mem > MAX_DICT_FILE then d
      else d\<lparr>d_extras := qs compare_extras_len (add_extra_nocheck mem (d_extras d))\<rparr>)"

text \<open>
  The inner loop of \<open>dedup_extras\<close> at an index \<open>j\<close>, on the tokens from \<open>j\<close> on: it drops those
  equal to the token at \<open>i\<close> and stops at the first of another length.
\<close>

fun drop_dups :: "bytes \<Rightarrow> bytes list \<Rightarrow> bytes list" where
  "drop_dups x [] = []"
| "drop_dups x (y # ys) =
     (if length x \<noteq> length y then y # ys
      else if x = y then drop_dups x ys
      else y # drop_dups x ys)"

lemma length_drop_dups [termination_simp]: "length (drop_dups x ys) \<le> length ys"
  by (induction x ys rule: drop_dups.induct) auto

fun dedup_list :: "bytes list \<Rightarrow> bytes list" where
  "dedup_list [] = []"
| "dedup_list (x # xs) = x # dedup_list (drop_dups x xs)"

definition dedup_extras :: "dict \<Rightarrow> dict" where
  "dedup_extras d = (if length (d_extras d) < 2 then d else d\<lparr>d_extras := dedup_list (d_extras d)\<rparr>)"

text \<open>
  \<open>deunicode_extras\<close>: \<open>z1\<close> counts the zero bytes at the even positions, \<open>z2\<close> at the odd ones,
  \<open>z3\<close> and \<open>z4\<close> at the third and fourth position of every group of four.
\<close>

definition zeros_at :: "nat set \<Rightarrow> bytes \<Rightarrow> nat" where
  "zeros_at ks x = length (filter (\<lambda>j. x ! j = 0 \<and> j mod 4 \<in> ks) [0..<length x])"

definition every :: "nat \<Rightarrow> nat \<Rightarrow> bytes \<Rightarrow> bytes" where
  "every m k x = map (\<lambda>j. x ! j) (filter (\<lambda>j. j mod m = k) [0..<length x])"

definition deunicode_token :: "bytes \<Rightarrow> bytes list" where
  "deunicode_token x =
     (if length x < 6 \<or> length x > 64 \<or> length x mod 2 \<noteq> 0 then [] else
      let z1 = zeros_at {0, 2} x; z2 = zeros_at {1, 3} x; z3 = zeros_at {2} x; z4 = zeros_at {3} x;
          half = length x div 2; quarter = half div 2 in
      if z1 < half \<and> z2 < half \<or> z1 + z2 = length x then [] else
      (if length x mod 4 = 0 \<and> length x \<ge> 12 \<and> (z3 = quarter \<or> z4 = quarter) \<and> z1 + z2 = quarter * 3
       then [if z4 < quarter then every 4 3 x
             else if z3 < quarter then every 4 2 x
             else if z2 < half then every 4 1 x
             else every 4 0 x]
       else []) @
      [if z1 < half then every 2 0 x else every 2 1 x])"

definition deunicode_extras :: "bytes sorter \<Rightarrow> dict \<Rightarrow> dict" where
  "deunicode_extras qs d =
     (if d_extras d = [] then d else
      d\<lparr>d_extras := qs compare_extras_len
        (fold (\<lambda>x extras. fold add_extra_nocheck (deunicode_token x) extras) (d_extras d) (d_extras d))\<rparr>)"

section \<open>The automatic dictionary\<close>

text \<open>\<open>memcmp_nocase\<close> is 0 for tokens of the same length.\<close>

definition eq_nocase :: "bytes \<Rightarrow> bytes \<Rightarrow> bool" where
  "eq_nocase a b = list_all2 (\<lambda>x y. tolower x XOR tolower y = 0) a b"

text \<open>The index at which the first loop stops: 1 for a token of at most one byte.\<close>

definition first_change :: "bytes \<Rightarrow> nat" where
  "first_change mem = (case mem of [] \<Rightarrow> 1 | c # s \<Rightarrow> 1 + length (takeWhile (\<lambda>x. x = c) s))"

text \<open>
  The built-in values. In the 16-bit case the first comparison is between an unsigned short
  and a signed one, at the width of \<open>int\<close>.
\<close>

definition is_builtin :: "bytes \<Rightarrow> bool" where
  "is_builtin mem =
     (if length mem = 2 then
        (let w = ucast (mem ! 0) OR push_bit 8 (ucast (mem ! 1)) :: u16 in
         list_ex (\<lambda>v. int (unat w) = v \<or> w = SWAP16 (word_of_int v)) interesting_16)
      else if length mem = 4 then
        (let w = ucast (mem ! 0) OR push_bit 8 (ucast (mem ! 1)) OR push_bit 16 (ucast (mem ! 2))
                 OR push_bit 24 (ucast (mem ! 3)) :: u32 in
         list_ex (\<lambda>v. w = word_of_int v \<or> w = SWAP32 (word_of_int v)) interesting_32)
      else False)"

definition in_extras :: "bytes \<Rightarrow> bytes list \<Rightarrow> bool" where
  "in_extras mem extras = list_ex (\<lambda>x. eq_nocase x mem)
     (takeWhile (\<lambda>x. length x = length mem) (dropWhile (\<lambda>x. length x < length mem) extras))"

fun bump_hit :: "bytes \<Rightarrow> auto_extra list \<Rightarrow> auto_extra list option" where
  "bump_hit mem [] = None"
| "bump_hit mem (a # as) =
     (if length (ae_data a) = length mem \<and> eq_nocase (ae_data a) mem
      then Some (a\<lparr>ae_hit_cnt := u32_add (ae_hit_cnt a) 1\<rparr> # as)
      else map_option ((#) a) (bump_hit mem as))"

definition sort_a_extras :: "auto_extra sorter \<Rightarrow> auto_extra list \<Rightarrow> auto_extra list" where
  "sort_a_extras qs as =
     (let as = qs compare_auto_extras_use_d as; n = min USE_AUTO_EXTRAS (length as) in
      qs compare_auto_extras_len (take n as) @ drop n as)"

definition maybe_add_auto :: "auto_extra sorter \<Rightarrow> 'r rand \<Rightarrow> bytes \<Rightarrow> dict \<Rightarrow> 'r \<Rightarrow> (dict \<times> 'r) res" where
  "maybe_add_auto qs rb mem d r =
     (if first_change mem = length mem \<or> length mem > MAX_AUTO_EXTRA then Inr (d, r)
      else if is_builtin mem then Inr (d, r)
      else if in_extras mem (d_extras d) then Inr (d, r)
      else
        let d = d\<lparr>d_auto_changed := True\<rparr>; as = d_a_extras d in
        case bump_hit mem as of
          Some as \<Rightarrow> Inr (d\<lparr>d_a_extras := sort_a_extras qs as\<rparr>, r)
        | None \<Rightarrow>
            if length as < MAX_AUTO_EXTRAS
            then Inr (d\<lparr>d_a_extras := sort_a_extras qs (as @ [\<lparr>ae_data = mem, ae_hit_cnt = 0\<rparr>])\<rparr>, r)
            else ebind (rb ((MAX_AUTO_EXTRAS + 1) div 2) r) (\<lambda>(x, r).
              Inr (d\<lparr>d_a_extras := sort_a_extras qs
                (as[MAX_AUTO_EXTRAS div 2 + x := \<lparr>ae_data = mem, ae_hit_cnt = 0\<rparr>])\<rparr>, r)))"

text \<open>\<open>load_auto\<close>: \<open>files\<close> are the readable ones, each with at most one byte more than the limit.\<close>

definition load_auto :: "auto_extra sorter \<Rightarrow> 'r rand \<Rightarrow> bytes list \<Rightarrow> dict \<Rightarrow> 'r \<Rightarrow> (dict \<times> 'r) res" where
  "load_auto qs rb files d r = foldl (\<lambda>m f. ebind m (\<lambda>(d, r).
     let tmp = take (MAX_AUTO_EXTRA + 1) f in
     if MIN_AUTO_EXTRA \<le> length tmp \<and> length tmp \<le> MAX_AUTO_EXTRA
     then maybe_add_auto qs rb tmp d r else Inr (d, r))) (Inr (d, r)) (take USE_AUTO_EXTRAS files)"

text \<open>\<open>save_auto\<close>: the contents of the files it writes, when something has changed.\<close>

definition save_auto :: "dict \<Rightarrow> bytes list option \<times> dict" where
  "save_auto d =
     (if \<not> d_auto_changed d then (None, d)
      else (Some (map ae_data (take (min USE_AUTO_EXTRAS (length (d_a_extras d))) (d_a_extras d))),
            d\<lparr>d_auto_changed := False\<rparr>))"

end
