(* ===== verification/AFL_ExtrasProps.thy ===== *)
theory AFL_ExtrasProps
  imports AFL_Extras "HOL-Library.Multiset"
begin

text \<open>
  The dictionaries: every token has a line that is read back as that token, the user's dictionary
  stays sorted by length and free of duplicates, and the automatic one stays within its array and
  free of tokens that differ in case only.
\<close>

section \<open>Reading back a token\<close>

definition hex_digit :: "u8 \<Rightarrow> u8" where
  "hex_digit n = (if n < 10 then n + 48 else n + 87)"

definition escape_byte :: "u8 \<Rightarrow> bytes" where
  "escape_byte c =
     (if 32 \<le> c \<and> c \<le> 126 \<and> c \<noteq> 34 \<and> c \<noteq> 92 then [c]
      else [92, 120, hex_digit (drop_bit 4 c), hex_digit (c AND 15)])"

definition escape :: "bytes \<Rightarrow> bytes" where
  "escape t = concat (map escape_byte t)"

definition dict_line :: "bytes \<Rightarrow> bytes \<Rightarrow> bytes" where
  "dict_line name t = name @ [61, 34] @ escape t @ [34, 10]"

lemma nibble_cases:
  assumes "(n :: u8) < 16"
  shows "n \<in> {0,1,2,3,4,5,6,7,8,9,10,11,12,13,14,15}"
proof -
  from assms have "unat n < 16" by (simp add: word_less_nat_alt)
  then have "unat n \<in> {0, 1, 2, 3, 4, 5, 6, 7, 8, 9, 10, 11, 12, 13, 14, 15}" by (rule less_16_cases)
  moreover have "unat n = k \<Longrightarrow> n = word_of_nat k" for k by auto
  ultimately show ?thesis by fastforce
qed

lemma hex_digit_facts:
  assumes "n < 16"
  shows "isxdigit (hex_digit n)" "hex_value (hex_digit n) = n" "32 \<le> hex_digit n" "hex_digit n < 128"
  using nibble_cases [OF assms]
  by (auto simp: hex_digit_def isxdigit_def isdigit_def hex_value_def tolower_def)

lemma nibbles:
  "drop_bit 4 (c :: u8) < 16" "(c :: u8) AND 15 < 16" "push_bit 4 (drop_bit 4 c) OR (c AND 15) = (c :: u8)"
proof -
  have "c AND 15 = take_bit 4 c" by (simp add: take_bit_eq_mask mask_eq_exp_minus_1)
  then show "push_bit 4 (drop_bit 4 c) OR (c AND 15) = c"
    by (intro bit_word_eqI) (auto simp: bit_simps)
  have "unat (take_bit 4 c) = unat c mod 16" by (subst unsigned_take_bit_eq) (simp add: take_bit_eq_mod)
  then show "c AND 15 < 16"
    unfolding \<open>c AND 15 = take_bit 4 c\<close> by (simp add: word_less_nat_alt)
  have "unat c < 256" using unsigned_less [of c] by simp
  then show "drop_bit 4 c < 16"
    unfolding word_less_nat_alt by (subst unat_drop_bit_eq) (simp add: drop_bit_eq_div)
qed

lemma unescape_escape_byte: "unescape (escape_byte c @ s) = c # unescape s"
proof (cases "32 \<le> c \<and> c \<le> 126 \<and> c \<noteq> 34 \<and> c \<noteq> 92")
  case True
  then have "\<not> (1 \<le> c \<and> c \<le> 31 \<or> 128 \<le> c)" by (auto simp: word_le_nat_alt)
  with True show ?thesis by (simp add: escape_byte_def)
next
  case False
  then show ?thesis
    using hex_digit_facts [OF nibbles(1) [of c]] hex_digit_facts [OF nibbles(2) [of c]] nibbles(3) [of c]
    by (simp add: escape_byte_def)
qed

lemma unescape_escape: "unescape (escape t) = t"
proof -
  have "unescape (escape t @ []) = t @ unescape []"
    by (induction t) (simp_all add: escape_def unescape_escape_byte)
  then show ?thesis by simp
qed

lemma length_unescape: "length (unescape s) \<le> length s"
proof (induction "length s" arbitrary: s rule: less_induct)
  case less
  show ?case
  proof (cases s)
    case (Cons c u)
    have IH: "length (unescape v) \<le> length v" if "length v \<le> length u" for v
      using less that by (simp add: Cons)
    show ?thesis
      unfolding Cons unescape.simps(2) [of c u]
      using IH [of u] IH [of "tl u"] IH [of "tl (tl (tl u))"]
      by (auto simp del: unescape.simps(2) split: list.splits)
  qed simp
qed

lemma dropWhile_stop: "list_all P xs \<Longrightarrow> \<not> P y \<Longrightarrow> dropWhile P (xs @ y # ys) = y # ys"
  by (induction xs) auto

definition label_char :: "u8 \<Rightarrow> bool" where
  "label_char c \<longleftrightarrow> isalnum c \<or> c = 95"

lemma label_char_not: "label_char c \<Longrightarrow> \<not> isspace c \<and> c \<noteq> 35"
  by (auto simp: label_char_def isalnum_def isdigit_def isspace_def word_le_nat_alt)

lemma trim_dict_line:
  assumes "list_all label_char name"
  shows "trim (dict_line name t) = name @ [61, 34] @ escape t @ [34]"
proof -
  have sp: "\<not> isspace 34" "\<not> isspace 61" "isspace 10" by (simp_all add: isspace_def)
  have "dropWhile isspace (dict_line name t) = dict_line name t"
    using assms sp by (cases name) (auto simp: dict_line_def label_char_not)
  then show ?thesis using sp by (simp add: trim_def dict_line_def)
qed

lemma parse_dict_line:
  assumes "list_all label_char name" "t \<noteq> []"
  shows "parse_line lvl (dict_line name t) = Token t"
proof -
  let ?l = "name @ [61, 34] @ escape t @ [34]"
  have ne: "escape t \<noteq> []" using assms(2) by (cases t) (auto simp: escape_def escape_byte_def)
  have hd: "hd ?l \<noteq> 35" using assms(1) by (cases name) (auto simp: label_char_not)
  have drop: "dropWhile (\<lambda>c. isalnum c \<or> c = 95) (butlast ?l) = [61, 34] @ escape t"
  proof -
    have "butlast ?l = (name @ [61, 34] @ escape t)" by (simp add: butlast_append)
    moreover have "\<not> (isalnum 61 \<or> (61 :: u8) = 95)" by (simp add: isalnum_def isdigit_def)
    ultimately show ?thesis
      using dropWhile_stop [of "\<lambda>c. isalnum c \<or> c = 95" name 61 "34 # escape t"] assms(1)
      by (simp add: label_char_def [abs_def])
  qed
  have "parse_value ([61, 34] @ escape t) = Token t"
    using ne by (simp add: parse_value_def isspace_def unescape_escape)
  then show ?thesis
    unfolding parse_line_def trim_dict_line [OF assms(1)] Let_def
    using hd by (simp add: drop [simplified] skip_number_def)
qed

section \<open>Reading the lines of a file\<close>

definition text_line :: "bytes \<Rightarrow> bool" where
  "text_line l \<longleftrightarrow> (\<exists>u. l = u @ [10] \<and> 10 \<notin> set u \<and> 0 \<notin> set u)"

lemma file_lines_Cons:
  assumes l: "text_line l" "length l < MAX_LINE"
  shows "file_lines (l @ f) = l # file_lines f"
proof -
  obtain u where u: "l = u @ [10]" "10 \<notin> set u" "0 \<notin> set u" using l(1) by (auto simp: text_line_def)
  have "\<And>x. x \<in> set u \<Longrightarrow> x \<noteq> 10" using u(2) by auto
  then have "takeWhile (\<lambda>c. c \<noteq> 10) (u @ 10 # f) = u" by (subst takeWhile_append2) simp_all
  then have "takeWhile (\<lambda>c. c \<noteq> 10) (l @ f) = u" using u(1) by simp
  then have n: "line_len (l @ f) = length l" using l(2) u(1) by (simp add: line_len_def)
  have zero: "takeWhile (\<lambda>c. c \<noteq> 0) l = l" unfolding takeWhile_eq_all_conv using u(1,3) by auto
  have "l \<noteq> []" using u(1) by simp
  then show ?thesis by (subst file_lines.simps) (simp add: n zero del: takeWhile_eq_all_conv)
qed

lemma file_lines_concat: "(\<And>l. l \<in> set ls \<Longrightarrow> text_line l \<and> length l < MAX_LINE) \<Longrightarrow> file_lines (concat ls) = ls"
proof (induction ls)
  case Nil
  show ?case by (subst file_lines.simps) simp
next
  case (Cons l ls)
  then show ?case by (simp add: file_lines_Cons)
qed

lemma escape_byte_range: "x \<in> set (escape_byte c) \<Longrightarrow> x \<noteq> 10 \<and> x \<noteq> 0"
  using hex_digit_facts(3) [OF nibbles(1) [of c]] hex_digit_facts(3) [OF nibbles(2) [of c]]
  by (auto simp: escape_byte_def split: if_splits)

lemma text_line_dict: "list_all label_char name \<Longrightarrow> text_line (dict_line name t)"
proof -
  assume "list_all label_char name"
  then have "10 \<notin> set name" "0 \<notin> set name" by (auto simp: list_all_iff label_char_def isalnum_def isdigit_def word_le_nat_alt)
  moreover have "10 \<notin> set (escape t)" "0 \<notin> set (escape t)" using escape_byte_range by (auto simp: escape_def)
  ultimately show ?thesis
    by (auto simp: text_line_def dict_line_def intro!: exI [of _ "name @ [61, 34] @ escape t @ [34]"])
qed

section \<open>\<open>qsort\<close>\<close>

text \<open>
  What the C standard promises of \<open>qsort\<close> with a comparison that compares a key: the result is a
  permutation, in ascending order.
\<close>

definition key_cmp :: "('a \<Rightarrow> 'a \<Rightarrow> int) \<Rightarrow> 'a set \<Rightarrow> bool" where
  "key_cmp cmp A \<longleftrightarrow> (\<exists>key :: 'a \<Rightarrow> int. \<forall>a\<in>A. \<forall>b\<in>A. cmp a b \<le> 0 \<longleftrightarrow> key a \<le> key b)"

definition qsort_ok :: "'a sorter \<Rightarrow> bool" where
  "qsort_ok qs \<longleftrightarrow> (\<forall>cmp xs. key_cmp cmp (set xs) \<longrightarrow>
     mset (qs cmp xs) = mset xs \<and> sorted_wrt (\<lambda>a b. cmp a b \<le> 0) (qs cmp xs))"

text \<open>An insertion sort keeps the promise.\<close>

primrec insert_cmp :: "('a \<Rightarrow> 'a \<Rightarrow> int) \<Rightarrow> 'a \<Rightarrow> 'a list \<Rightarrow> 'a list" where
  "insert_cmp cmp x [] = [x]"
| "insert_cmp cmp x (y # ys) = (if cmp x y \<le> 0 then x # y # ys else y # insert_cmp cmp x ys)"

definition insertion_sort :: "'a sorter" where
  "insertion_sort cmp xs = foldr (insert_cmp cmp) xs []"

lemma mset_insert_cmp: "mset (insert_cmp cmp x ys) = add_mset x (mset ys)"
  by (induction ys) auto

lemma sorted_insert_cmp:
  assumes key: "\<And>a b. a \<in> insert x (set ys) \<Longrightarrow> b \<in> insert x (set ys) \<Longrightarrow> cmp a b \<le> 0 \<longleftrightarrow> key a \<le> (key b :: int)"
    and "sorted_wrt (\<lambda>a b. cmp a b \<le> 0) ys"
  shows "sorted_wrt (\<lambda>a b. cmp a b \<le> 0) (insert_cmp cmp x ys)"
  using assms
proof (induction ys)
  case (Cons y ys)
  have set: "set (insert_cmp cmp x ys) = insert x (set ys)"
    by (metis mset_insert_cmp set_mset_add_mset_insert set_mset_mset)
  have "sorted_wrt (\<lambda>a b. cmp a b \<le> 0) (insert_cmp cmp x ys)"
    by (rule Cons.IH) (use Cons.prems in auto)
  with Cons.prems show ?case by (auto simp: set)
qed simp

lemma insertion_sort_ok: "qsort_ok insertion_sort"
  unfolding qsort_ok_def key_cmp_def
proof (intro allI impI, elim exE)
  fix cmp :: "'a \<Rightarrow> 'a \<Rightarrow> int" and xs and key :: "'a \<Rightarrow> int"
  assume "\<forall>a\<in>set xs. \<forall>b\<in>set xs. (cmp a b \<le> 0) = (key a \<le> key b)"
  then show "mset (insertion_sort cmp xs) = mset xs \<and> sorted_wrt (\<lambda>a b. cmp a b \<le> 0) (insertion_sort cmp xs)"
  proof (induction xs)
    case (Cons x xs)
    then have IH: "mset (insertion_sort cmp xs) = mset xs" "sorted_wrt (\<lambda>a b. cmp a b \<le> 0) (insertion_sort cmp xs)"
      by auto
    have set: "set (insertion_sort cmp xs) = set xs" using IH(1) by (metis set_mset_mset)
    have "sorted_wrt (\<lambda>a b. cmp a b \<le> 0) (insert_cmp cmp x (insertion_sort cmp xs))"
      by (rule sorted_insert_cmp [where key = key]) (use Cons.prems IH(2) set in auto)
    with IH show ?case by (simp add: insertion_sort_def mset_insert_cmp)
  qed (simp add: insertion_sort_def)
qed

lemma s32_diff_le: "a < 2147483648 \<Longrightarrow> b < 2147483648 \<Longrightarrow> s32_diff a b \<le> 0 \<longleftrightarrow> a \<le> b"
proof -
  assume *: "a < 2147483648" "b < 2147483648"
  have "word_of_nat a - word_of_nat b = (word_of_int (int a - int b) :: u32)" by simp
  then have "s32_diff a b = signed_take_bit 31 (int a - int b)"
    unfolding s32_diff_def by (simp only: sint_sbintrunc') simp
  also have "\<dots> = int a - int b" using * by (simp add: signed_take_bit_int_eq_self)
  finally show ?thesis by simp
qed

lemma sort_by_key:
  assumes "qsort_ok qs" "\<And>a b. a \<in> set xs \<Longrightarrow> b \<in> set xs \<Longrightarrow> cmp a b \<le> 0 \<longleftrightarrow> key a \<le> (key b :: int)"
  shows "mset (qs cmp xs) = mset xs" "set (qs cmp xs) = set xs" "length (qs cmp xs) = length xs"
    "sorted_wrt (\<lambda>a b. key a \<le> key b) (qs cmp xs)"
proof -
  have "key_cmp cmp (set xs)" using assms(2) by (auto simp: key_cmp_def)
  then have *: "mset (qs cmp xs) = mset xs" "sorted_wrt (\<lambda>a b. cmp a b \<le> 0) (qs cmp xs)"
    using assms(1) by (auto simp: qsort_ok_def)
  then show "mset (qs cmp xs) = mset xs" by simp
  from *(1) show set: "set (qs cmp xs) = set xs" by (metis set_mset_mset)
  from *(1) show "length (qs cmp xs) = length xs" by (metis size_mset)
  show "sorted_wrt (\<lambda>a b. key a \<le> key b) (qs cmp xs)"
    using *(2) by (rule sorted_wrt_mono_rel [rotated]) (use assms(2) set in auto)
qed

section \<open>The user's dictionary\<close>

definition extras_ok :: "bytes list \<Rightarrow> bool" where
  "extras_ok xs \<longleftrightarrow> sorted_wrt (\<lambda>a b. length a \<le> length b) xs \<and> distinct xs \<and>
     (\<forall>x\<in>set xs. length x \<le> MAX_DICT_FILE)"

lemma sort_extras:
  assumes "qsort_ok qs" "\<forall>x\<in>set xs. length x \<le> MAX_DICT_FILE"
  shows "mset (qs compare_extras_len xs) = mset xs" "set (qs compare_extras_len xs) = set xs"
    "sorted_wrt (\<lambda>a b. length a \<le> length b) (qs compare_extras_len xs)"
proof -
  have key: "compare_extras_len a b \<le> 0 \<longleftrightarrow> int (length a) \<le> int (length b)"
    if "a \<in> set xs" "b \<in> set xs" for a b
    using s32_diff_le [of "length a" "length b"] that assms(2)
    by (fastforce simp: compare_extras_len_def MAX_DICT_FILE_def)
  from sort_by_key [OF assms(1), of xs compare_extras_len "\<lambda>x. int (length x)", OF key]
  show "mset (qs compare_extras_len xs) = mset xs" "set (qs compare_extras_len xs) = set xs"
    "sorted_wrt (\<lambda>a b. length a \<le> length b) (qs compare_extras_len xs)" by simp_all
qed

lemma drop_dups_filter:
  "sorted_wrt (\<lambda>a b. length a \<le> length b) (x # ys) \<Longrightarrow> drop_dups x ys = filter (\<lambda>y. y \<noteq> x) ys"
proof (induction x ys rule: drop_dups.induct)
  case (2 x y ys)
  show ?case
  proof (cases "length x = length y")
    case True
    with 2 show ?thesis by auto
  next
    case False
    with 2(3) have "\<forall>z\<in>set (y # ys). length x < length z" by fastforce
    then have "filter (\<lambda>z. z \<noteq> x) (y # ys) = y # ys" by (intro filter_True) auto
    with False show ?thesis by simp
  qed
qed simp

lemma dedup_list_sorted:
  "sorted_wrt (\<lambda>a b. length a \<le> length b) xs \<Longrightarrow>
   sorted_wrt (\<lambda>a b. length a \<le> length b) (dedup_list xs) \<and> distinct (dedup_list xs) \<and> set (dedup_list xs) = set xs"
proof (induction xs rule: dedup_list.induct)
  case (2 x xs)
  have dd: "drop_dups x xs = filter (\<lambda>y. y \<noteq> x) xs" by (rule drop_dups_filter [OF "2.prems"])
  have "sorted_wrt (\<lambda>a b. length a \<le> length b) (drop_dups x xs)"
    using "2.prems" by (simp add: dd sorted_wrt_filter)
  with 2 show ?case by (auto simp: dd)
qed simp

lemma has_extra_mem:
  "sorted_wrt (\<lambda>a b. length a \<le> length b) xs \<Longrightarrow> (found \<longrightarrow> (\<forall>x\<in>set xs. length mem \<le> length x)) \<Longrightarrow>
   has_extra mem found xs \<longleftrightarrow> mem \<in> set xs"
proof (induction mem found xs rule: has_extra.induct)
  case (2 mem found x xs)
  then show ?case by (cases "length x = length mem"; cases found) force+
qed simp

lemma add_extra_ok:
  assumes "qsort_ok qs" "extras_ok (d_extras d)"
  shows "extras_ok (d_extras (add_extra qs mem d))"
    "set (d_extras (add_extra qs mem d)) = set (d_extras d) \<union> (if length mem \<le> MAX_DICT_FILE then {mem} else {})"
proof -
  have mem: "has_extra mem False (d_extras d) \<longleftrightarrow> mem \<in> set (d_extras d)"
    by (rule has_extra_mem) (use assms(2) in \<open>auto simp: extras_ok_def\<close>)
  let ?xs = "d_extras d @ [mem]"
  have "extras_ok (d_extras (add_extra qs mem d)) \<and> set (d_extras (add_extra qs mem d)) =
      set (d_extras d) \<union> (if length mem \<le> MAX_DICT_FILE then {mem} else {})"
  proof (cases "mem \<in> set (d_extras d) \<or> length mem > MAX_DICT_FILE")
    case True
    with assms(2) show ?thesis by (auto simp: add_extra_def mem extras_ok_def)
  next
    case False
    then have le: "\<forall>x\<in>set ?xs. length x \<le> MAX_DICT_FILE" using assms(2) by (auto simp: extras_ok_def)
    have "distinct ?xs" using False assms(2) by (auto simp: extras_ok_def)
    then have "distinct (qs compare_extras_len ?xs)"
      by (metis sort_extras(1) [OF assms(1) le] mset_eq_imp_distinct_iff)
    with False le sort_extras [OF assms(1) le] show ?thesis
      by (auto simp: add_extra_def mem extras_ok_def add_extra_nocheck_def)
  qed
  then show "extras_ok (d_extras (add_extra qs mem d))"
    "set (d_extras (add_extra qs mem d)) = set (d_extras d) \<union> (if length mem \<le> MAX_DICT_FILE then {mem} else {})"
    by auto
qed

lemma length_every: "length (every m k x) \<le> length x"
  by (simp add: every_def order_trans [OF length_filter_le])

lemma choices:
  assumes "a1 \<in> S" "a2 \<in> S" "a3 \<in> S" "a4 \<in> S" "b1 \<in> S" "b2 \<in> S"
  shows "set (if p then [] else if q then [] else
     (if r then [if c1 then a1 else if c2 then a2 else if c3 then a3 else a4] else []) @
     [if c4 then b1 else b2]) \<subseteq> S"
  using assms by auto

lemma deunicode_token_len:
  assumes "t \<in> set (deunicode_token x)"
  shows "length t \<le> 64"
proof -
  from assms have "length x \<le> 64" by (cases "length x \<le> 64") (simp_all add: deunicode_token_def)
  moreover have "set (deunicode_token x) \<subseteq> {y. \<exists>m k. y = every m k x}"
    unfolding deunicode_token_def Let_def by (rule choices) blast+
  with assms have "\<exists>m k. t = every m k x" by blast
  ultimately show ?thesis using length_every order_trans by blast
qed

lemma fold_add_extras: "fold add_extra_nocheck ts xs = xs @ ts"
  by (induction ts arbitrary: xs) (auto simp: add_extra_nocheck_def)

lemma fold_deunicode:
  "fold (\<lambda>x extras. fold add_extra_nocheck (deunicode_token x) extras) us xs = xs @ concat (map deunicode_token us)"
  by (induction us arbitrary: xs) (auto simp: fold_add_extras)

lemma startup_extras_ok:
  assumes qs: "qsort_ok qs" and le: "\<forall>x\<in>set (d_extras d). length x \<le> MAX_DICT_FILE"
  shows "extras_ok (d_extras (dedup_extras (deunicode_extras qs d)))"
    "set (d_extras d) \<subseteq> set (d_extras (dedup_extras (deunicode_extras qs d)))"
proof -
  let ?d = "deunicode_extras qs d"
  have "sorted_wrt (\<lambda>a b. length a \<le> length b) (d_extras ?d) \<and> set (d_extras d) \<subseteq> set (d_extras ?d) \<and>
      (\<forall>x\<in>set (d_extras ?d). length x \<le> MAX_DICT_FILE)"
  proof (cases "d_extras d = []")
    case False
    let ?xs = "d_extras d @ concat (map deunicode_token (d_extras d))"
    have "\<forall>x\<in>set ?xs. length x \<le> MAX_DICT_FILE"
      using le deunicode_token_len by (fastforce simp: MAX_DICT_FILE_def)
    from sort_extras [OF qs this] this False show ?thesis
      by (auto simp: deunicode_extras_def fold_deunicode)
  qed (simp add: deunicode_extras_def)
  moreover have "distinct (d_extras ?d)" if "length (d_extras ?d) < 2"
    using that by (cases "d_extras ?d") (auto simp: neq_Nil_conv)
  ultimately show "extras_ok (d_extras (dedup_extras ?d))" "set (d_extras d) \<subseteq> set (d_extras (dedup_extras ?d))"
    using dedup_list_sorted [of "d_extras ?d"] by (auto simp: dedup_extras_def extras_ok_def)
qed

section \<open>The automatic dictionary\<close>

definition fold_case :: "auto_extra \<Rightarrow> bytes" where
  "fold_case a = map tolower (ae_data a)"

text \<open>
  The state of the automatic dictionary between two calls: it fits its array, holds tokens of at
  most 32 bytes that are not a run of one byte and differ by more than case, and its first
  \<open>USE_AUTO_EXTRAS\<close> entries, the ones the fuzzer uses, are the most frequent ones, sorted by length.
\<close>

definition auto_token :: "bytes \<Rightarrow> bool" where
  "auto_token t \<longleftrightarrow> length t \<le> MAX_AUTO_EXTRA \<and> first_change t \<noteq> length t"

definition auto_ok :: "auto_extra list \<Rightarrow> bool" where
  "auto_ok as \<longleftrightarrow> length as \<le> MAX_AUTO_EXTRAS \<and> distinct (map fold_case as) \<and>
     (\<forall>a\<in>set as. auto_token (ae_data a)) \<and>
     sorted_wrt (\<lambda>a b. length (ae_data a) \<le> length (ae_data b)) (take USE_AUTO_EXTRAS as) \<and>
     (\<forall>a\<in>set (take USE_AUTO_EXTRAS as). \<forall>b\<in>set (drop USE_AUTO_EXTRAS as). ae_hit_cnt b \<le> ae_hit_cnt a)"

lemma xor_eq_0: "x XOR y = 0 \<longleftrightarrow> x = (y :: 'a::len word)"
  by (metis xor.assoc xor.left_neutral xor.right_neutral xor_self_eq)

lemma eq_nocase_iff: "eq_nocase a b \<longleftrightarrow> map tolower a = map tolower b"
  by (auto simp: eq_nocase_def list_eq_iff_nth_eq list_all2_conv_all_nth xor_eq_0)

lemma bump_hit_Some:
  "bump_hit mem as = Some bs \<Longrightarrow> \<exists>us a vs. as = us @ a # vs \<and> eq_nocase (ae_data a) mem \<and>
     bs = us @ a\<lparr>ae_hit_cnt := u32_add (ae_hit_cnt a) 1\<rparr> # vs"
proof (induction as arbitrary: bs)
  case (Cons a as)
  show ?case
  proof (cases "length (ae_data a) = length mem \<and> eq_nocase (ae_data a) mem")
    case True
    with Cons.prems show ?thesis by (intro exI [of _ "[]"]) auto
  next
    case False
    with Cons.prems obtain cs where "bump_hit mem as = Some cs" "bs = a # cs" by auto
    with Cons.IH [of cs] obtain us b vs where "as = us @ b # vs" "eq_nocase (ae_data b) mem"
      "bs = (a # us) @ b\<lparr>ae_hit_cnt := u32_add (ae_hit_cnt b) 1\<rparr> # vs" by auto
    then show ?thesis by (intro exI [of _ "a # us"]) auto
  qed
qed simp

lemma bump_hit_None: "bump_hit mem as = None \<longleftrightarrow> (\<forall>a\<in>set as. \<not> eq_nocase (ae_data a) mem)"
  by (induction as) (auto simp: eq_nocase_iff dest: map_eq_imp_length_eq)

lemma sort_a_extras_ok:
  assumes qs: "qsort_ok qs" and as: "length as \<le> MAX_AUTO_EXTRAS" "distinct (map fold_case as)"
    "\<forall>a\<in>set as. auto_token (ae_data a)" "\<forall>a\<in>set as. ae_hit_cnt a < 2147483648"
  shows "auto_ok (sort_a_extras qs as)" "set (sort_a_extras qs as) = set as"
    "length (sort_a_extras qs as) = length as"
proof -
  let ?u = "qs compare_auto_extras_use_d as" and ?n = USE_AUTO_EXTRAS
  let ?t = "take (min ?n (length ?u)) ?u"
  have use_key: "compare_auto_extras_use_d a b \<le> 0 \<longleftrightarrow> - int (ae_hit_cnt a) \<le> - int (ae_hit_cnt b)"
    if "a \<in> set as" "b \<in> set as" for a b
    using that as(4) by (simp add: compare_auto_extras_use_d_def s32_diff_le)
  note u = sort_by_key [OF qs, of as compare_auto_extras_use_d "\<lambda>a. - int (ae_hit_cnt a)", OF use_key]
  have len: "length (ae_data a) < 2147483648" if "a \<in> set as" for a
    using that as(3) by (fastforce simp: auto_token_def MAX_AUTO_EXTRA_def)
  have "set ?t \<subseteq> set as" using u(2) set_take_subset by metis
  then have len_key: "compare_auto_extras_len a b \<le> 0 \<longleftrightarrow> int (length (ae_data a)) \<le> int (length (ae_data b))"
    if "a \<in> set ?t" "b \<in> set ?t" for a b
    using that len by (simp add: compare_auto_extras_len_def s32_diff_le subset_iff)
  note s = sort_by_key [OF qs, of ?t compare_auto_extras_len "\<lambda>a. int (length (ae_data a))", OF len_key]
  let ?r = "sort_a_extras qs as"
  have r: "?r = qs compare_auto_extras_len ?t @ drop (min ?n (length ?u)) ?u"
    by (simp add: sort_a_extras_def Let_def)
  have "mset ?r = mset ?t + mset (drop (min ?n (length ?u)) ?u)" using s(1) by (simp add: r)
  also have "\<dots> = mset ?u" by (metis append_take_drop_id mset_append)
  finally have mset: "mset ?r = mset as" using u(1) by simp
  then show set: "set ?r = set as" by (metis set_mset_mset)
  from mset show length: "length ?r = length as" by (metis size_mset)
  have "mset (map fold_case ?r) = mset (map fold_case as)" using mset by simp
  then have dist: "distinct (map fold_case ?r)" using as(2) mset_eq_imp_distinct_iff by blast
  have take: "take ?n ?r = qs compare_auto_extras_len ?t" using s(3) by (auto simp: r)
  have drop: "drop ?n ?r = drop ?n ?u" using s(3) by (auto simp: r)
  have "sorted_wrt (\<lambda>a b. - int (ae_hit_cnt a) \<le> - int (ae_hit_cnt b)) (take ?n ?u @ drop ?n ?u)"
    using u(4) by simp
  then have top: "\<forall>a\<in>set (take ?n ?u). \<forall>b\<in>set (drop ?n ?u). ae_hit_cnt b \<le> ae_hit_cnt a"
    by (simp only: sorted_wrt_append) auto
  have "?t = take ?n ?u" by (simp add: min_def)
  then have "set (take ?n ?r) = set (take ?n ?u)" using s(2) by (simp only: take)
  with top have "\<forall>a\<in>set (take ?n ?r). \<forall>b\<in>set (drop ?n ?r). ae_hit_cnt b \<le> ae_hit_cnt a"
    unfolding drop by simp
  moreover have "sorted_wrt (\<lambda>a b. length (ae_data a) \<le> length (ae_data b)) (take ?n ?r)"
    using s(4) by (simp add: take)
  ultimately show "auto_ok ?r"
    using as(1,3) set length dist by (simp add: auto_ok_def)
qed

definition added :: "nat \<Rightarrow> nat \<Rightarrow> bytes \<Rightarrow> auto_extra list \<Rightarrow> bool" where
  "added K n mem as \<longleftrightarrow> length as = n \<and> auto_ok as \<and> (\<exists>a\<in>set as. eq_nocase (ae_data a) mem) \<and>
     (\<forall>a\<in>set as. ae_hit_cnt a \<le> K + 1)"

lemma addedI:
  assumes "qsort_ok qs" "length as \<le> MAX_AUTO_EXTRAS" "distinct (map fold_case as)"
    "\<forall>a\<in>set as. auto_token (ae_data a)" "\<forall>a\<in>set as. ae_hit_cnt a \<le> K + 1" "K < 2147483647"
    "\<exists>a\<in>set as. eq_nocase (ae_data a) mem"
  shows "added K (length as) mem (sort_a_extras qs as)"
proof -
  have "\<forall>a\<in>set as. ae_hit_cnt a < 2147483648" using assms(5,6) by fastforce
  from sort_a_extras_ok [OF assms(1-4) this] assms(5,7) show ?thesis by (auto simp: added_def)
qed

lemma maybe_add_auto_step:
  assumes qs: "qsort_ok qs" and ok: "auto_ok as" and hits: "\<forall>a\<in>set as. ae_hit_cnt a \<le> K" "K < 2147483647"
    and tok: "auto_token mem"
  shows "bump_hit mem as = Some bs \<Longrightarrow> added K (length as) mem (sort_a_extras qs bs)" (is "_ \<Longrightarrow> ?A")
    and "bump_hit mem as = None \<Longrightarrow> length as < MAX_AUTO_EXTRAS \<Longrightarrow>
      added K (length as + 1) mem (sort_a_extras qs (as @ [\<lparr>ae_data = mem, ae_hit_cnt = 0\<rparr>]))"
    and "bump_hit mem as = None \<Longrightarrow> length as = MAX_AUTO_EXTRAS \<Longrightarrow> i < length as \<Longrightarrow>
      added K (length as) mem (sort_a_extras qs (as[i := \<lparr>ae_data = mem, ae_hit_cnt = 0\<rparr>]))"
proof -
  from ok have len: "length as \<le> MAX_AUTO_EXTRAS" and dist: "distinct (map fold_case as)"
    and all: "\<forall>a\<in>set as. auto_token (ae_data a)" by (auto simp: auto_ok_def)
  let ?new = "\<lparr>ae_data = mem, ae_hit_cnt = 0\<rparr>"
  have refl: "eq_nocase mem mem" by (simp add: eq_nocase_iff)
  {
    assume "bump_hit mem as = Some bs"
    then obtain us a vs where as: "as = us @ a # vs" and eq: "eq_nocase (ae_data a) mem"
      and bs: "bs = us @ a\<lparr>ae_hit_cnt := u32_add (ae_hit_cnt a) 1\<rparr> # vs" using bump_hit_Some by blast
    have hit: "u32_add (ae_hit_cnt a) 1 \<le> K + 1" using hits by (simp add: as)
    have same: "map fold_case bs = map fold_case as" by (simp add: as bs fold_case_def)
    have "length bs = length as" using same map_eq_imp_length_eq by blast
    moreover have "added K (length bs) mem (sort_a_extras qs bs)"
      by (rule addedI [OF qs]) (use hits hit all len dist same eq in \<open>auto simp: as bs intro: le_SucI\<close>)
    ultimately show ?A by simp
  }
  assume none: "bump_hit mem as = None"
  then have new: "fold_case ?new \<notin> set (map fold_case as)"
    by (auto simp: bump_hit_None eq_nocase_iff fold_case_def)
  {
    assume "length as < MAX_AUTO_EXTRAS"
    then have "added K (length (as @ [?new])) mem (sort_a_extras qs (as @ [?new]))"
      by (intro addedI [OF qs]) (use dist new all tok hits refl in auto)
    then show "added K (length as + 1) mem (sort_a_extras qs (as @ [?new]))" by simp
  }
  let ?bs = "as[i := ?new]"
  assume i: "i < length as"
  have sub: "set ?bs \<subseteq> insert ?new (set as)" by (rule set_update_subset_insert)
  have "map fold_case ?bs = (map fold_case as)[i := fold_case ?new]" by (simp add: map_update)
  then have "distinct (map fold_case ?bs)"
    using distinct_list_update [OF dist, of "fold_case ?new" i] new by auto
  moreover have "\<forall>a\<in>set ?bs. auto_token (ae_data a)" "\<forall>a\<in>set ?bs. ae_hit_cnt a \<le> K + 1"
    using sub all tok hits by fastforce+
  moreover have "?new \<in> set ?bs" using i by (simp add: set_update_memI)
  ultimately have "added K (length ?bs) mem (sort_a_extras qs ?bs)"
    by (intro addedI [OF qs]) (use hits len refl in \<open>auto intro!: bexI [of _ ?new]\<close>)
  then show "added K (length as) mem (sort_a_extras qs ?bs)" by simp
qed

text \<open>While there is room, no random number is drawn.\<close>

lemma maybe_add_auto_room:
  assumes "qsort_ok qs" "auto_ok (d_a_extras d)" "\<forall>a\<in>set (d_a_extras d). ae_hit_cnt a \<le> K"
    "K < 2147483647" "length (d_a_extras d) < MAX_AUTO_EXTRAS"
  shows "\<exists>d'. maybe_add_auto qs rb mem d r = Inr (d', r) \<and> auto_ok (d_a_extras d') \<and> d_extras d' = d_extras d \<and>
    (\<forall>a\<in>set (d_a_extras d'). ae_hit_cnt a \<le> K + 1) \<and> length (d_a_extras d') \<le> length (d_a_extras d) + 1"
proof (cases "auto_token mem \<and> \<not> is_builtin mem \<and> \<not> in_extras mem (d_extras d)")
  case False
  moreover have "\<forall>a\<in>set (d_a_extras d). ae_hit_cnt a \<le> K + 1" using assms(3) by (auto intro: le_SucI)
  ultimately show ?thesis using assms(2) by (auto simp: maybe_add_auto_def auto_token_def)
next
  case True
  then have tok: "auto_token mem" by simp
  note step = maybe_add_auto_step [OF assms(1-4) tok]
  show ?thesis
  proof (cases "bump_hit mem (d_a_extras d)")
    case None
    with True assms(5) step(2) [OF None] show ?thesis by (auto simp: maybe_add_auto_def auto_token_def added_def)
  next
    case (Some bs)
    with True step(1) [OF Some] show ?thesis by (auto simp: maybe_add_auto_def auto_token_def added_def)
  qed
qed

context rng_source
begin

lemma maybe_add_auto_safe:
  assumes "qsort_ok qs" "auto_ok (d_a_extras d)" "\<forall>a\<in>set (d_a_extras d). ae_hit_cnt a \<le> K"
    "K < 2147483647"
  shows "safe (maybe_add_auto qs rb mem d r) (\<lambda>(d', r').
    auto_ok (d_a_extras d') \<and> d_extras d' = d_extras d \<and> (\<forall>a\<in>set (d_a_extras d'). ae_hit_cnt a \<le> K + 1) \<and>
    (auto_token mem \<and> \<not> is_builtin mem \<and> \<not> in_extras mem (d_extras d) \<longrightarrow>
       (\<exists>a\<in>set (d_a_extras d'). eq_nocase (ae_data a) mem)))"
proof (cases "auto_token mem \<and> \<not> is_builtin mem \<and> \<not> in_extras mem (d_extras d)")
  case False
  moreover have "\<forall>a\<in>set (d_a_extras d). ae_hit_cnt a \<le> K + 1" using assms(3) by (auto intro: le_SucI)
  ultimately show ?thesis using assms(2) by (auto simp: maybe_add_auto_def auto_token_def)
next
  case True
  then have tok: "auto_token mem" by simp
  note step = maybe_add_auto_step [OF assms tok]
  have mid: "MAX_AUTO_EXTRAS div 2 + x < MAX_AUTO_EXTRAS" if "x < (MAX_AUTO_EXTRAS + 1) div 2" for x
    using that by (simp add: MAX_AUTO_EXTRAS_def USE_AUTO_EXTRAS_def)
  have "length (d_a_extras d) \<le> MAX_AUTO_EXTRAS" using assms(2) by (simp add: auto_ok_def)
  then consider (hit) bs where "bump_hit mem (d_a_extras d) = Some bs"
    | (room) "bump_hit mem (d_a_extras d) = None" "length (d_a_extras d) < MAX_AUTO_EXTRAS"
    | (full) "bump_hit mem (d_a_extras d) = None" "length (d_a_extras d) = MAX_AUTO_EXTRAS" by fastforce
  then show ?thesis
  proof cases
    case hit
    with True step(1) [OF hit] show ?thesis by (auto simp: maybe_add_auto_def auto_token_def added_def)
  next
    case room
    with True step(2) [OF room] show ?thesis by (auto simp: maybe_add_auto_def auto_token_def added_def)
  next
    case full
    have "1 < (MAX_AUTO_EXTRAS + 1) div 2" by (simp add: MAX_AUTO_EXTRAS_def USE_AUTO_EXTRAS_def)
    note draw = rb_below [OF this, of r]
    have "safe (ebind (rb ((MAX_AUTO_EXTRAS + 1) div 2) r) (\<lambda>(x, r).
        Inr (d\<lparr>d_auto_changed := True, d_a_extras := sort_a_extras qs
          ((d_a_extras d)[MAX_AUTO_EXTRAS div 2 + x := \<lparr>ae_data = mem, ae_hit_cnt = 0\<rparr>])\<rparr>, r)))
      (\<lambda>(d', r'). added K MAX_AUTO_EXTRAS mem (d_a_extras d') \<and> d_extras d' = d_extras d)"
      by (rule safe_ebind [OF draw]) (use mid full step(3) [OF full] in auto)
    then have "safe (maybe_add_auto qs rb mem d r) (\<lambda>(d', r'). added K MAX_AUTO_EXTRAS mem (d_a_extras d') \<and> d_extras d' = d_extras d)"
      using True full by (simp add: maybe_add_auto_def auto_token_def)
    then show ?thesis by (rule safe_mono) (auto simp: added_def)
  qed
qed

end

section \<open>The properties\<close>

text \<open>
  C37: the dictionary format loses nothing. A file with one line \<open>name="..."\<close> per token, whose
  unprintable bytes, quotes and backslashes are written as \<open>\\xNN\<close>, adds exactly these tokens to
  the dictionary in the order of the lines, for tokens of 1 to 128 bytes, names of letters, digits and underscores, and
  lines that fit into the buffer of \<open>fgets\<close>, that is of at most 8191 bytes.
\<close>

theorem dictionary_roundtrip:
  assumes "\<forall>(name, t)\<in>set nts. list_all label_char name \<and> t \<noteq> [] \<and> length t \<le> MAX_DICT_FILE \<and>
    length (dict_line name t) < MAX_LINE"
  shows "fst (load_extras_file lvl (concat (map (\<lambda>(name, t). dict_line name t) nts)) (xs, mn, mx)) = xs @ map snd nts"
proof -
  have "file_lines (concat (map (\<lambda>(name, t). dict_line name t) nts)) = map (\<lambda>(name, t). dict_line name t) nts"
    using assms by (intro file_lines_concat) (auto simp: text_line_dict)
  moreover have "fst (fold (add_line lvl) (map (\<lambda>(name, t). dict_line name t) nts) (xs, mn, mx)) = xs @ map snd nts"
    using assms
  proof (induction nts arbitrary: xs mn mx)
    case (Cons nt nts)
    then show ?case by (cases nt) (simp add: add_line_def parse_dict_line)
  qed simp
  ultimately show ?thesis by (simp add: load_extras_file_def)
qed

theorem dictionary_roundtrip_witness:
  "fst (load_extras_file 0 (dict_line [109, 103] [0, 34, 92, 200] @ dict_line [] [65]) ([], 128, 0)) = [[0, 34, 92, 200], [65]]"
  using dictionary_roundtrip [of "[([109, 103], [0, 34, 92, 200]), ([], [65])]" 0 "[]" 128 0]
  by (simp add: label_char_def isalnum_def isdigit_def MAX_DICT_FILE_def MAX_LINE_def dict_line_def escape_def escape_byte_def)

text \<open>
  what the parser accepts is no longer than the text between the quotes (the size of the
  allocation it is copied to), but it may be empty: the check for an empty keyword looks at the
  text, and a text of unprintable bytes or of a lone backslash gives a token of no bytes.
\<close>

theorem parsed_token_fits:
  "(case parse_value s of Token t \<Rightarrow> length t < length s | _ \<Rightarrow> True) \<and>
   parse_line 0 [34, 92, 34] = Token [] \<and> parse_line 0 [34, 9, 34] = Token []"
proof (intro conjI)
  have "length t < length s" if p: "parse_value s = Token t" for t
  proof -
    from p obtain c u where u: "dropWhile (\<lambda>c. isspace c \<or> c = 61) s = c # u" and t: "t = unescape u"
      by (auto simp: parse_value_def split: list.splits if_splits)
    have "length (c # u) \<le> length s" unfolding u [symmetric] by (rule length_dropWhile_le)
    then show ?thesis using length_unescape [of u] by (simp add: t)
  qed
  then show "case parse_value s of Token t \<Rightarrow> length t < length s | _ \<Rightarrow> True" by (simp split: line.splits)
qed (simp_all add: parse_line_def trim_def parse_value_def skip_number_def isspace_def isalnum_def isdigit_def)

text \<open>
  C38: the user's dictionary. At start-up, decoding the Unicode tokens and removing duplicates
  leaves it sorted by length, without duplicates and with every token that was loaded, whatever
  order \<open>qsort\<close> gives to tokens of the same length; \<open>add_extra\<close> keeps it so and adds the token
  exactly when it is not too big.
\<close>

theorem extras_sorted_distinct:
  assumes "qsort_ok qs" "\<forall>x\<in>set (d_extras d0). length x \<le> MAX_DICT_FILE"
    and "d = dedup_extras (deunicode_extras qs d0)"
  shows "extras_ok (d_extras d) \<and> set (d_extras d0) \<subseteq> set (d_extras d) \<and>
    (\<forall>mem. extras_ok (d_extras (add_extra qs mem d)) \<and>
       set (d_extras (add_extra qs mem d)) = set (d_extras d) \<union> (if length mem \<le> MAX_DICT_FILE then {mem} else {}))"
  using startup_extras_ok [OF assms(1,2)] add_extra_ok [OF assms(1)] assms(3) by simp

theorem extras_sorted_distinct_witness:
  "let d0 = \<lparr>d_extras = [[65, 0, 66, 0, 67, 0], [1], [1]], d_a_extras = [], d_auto_changed = False\<rparr>;
       d = dedup_extras (deunicode_extras insertion_sort d0) in
     d_extras d = [[1], [65, 66, 67], [65, 0, 66, 0, 67, 0]] \<and> extras_ok (d_extras d)"
proof -
  let ?d0 = "\<lparr>d_extras = [[65, 0, 66, 0, 67, 0], [1], [1]], d_a_extras = [], d_auto_changed = False\<rparr>"
  have "d_extras (dedup_extras (deunicode_extras insertion_sort ?d0)) = [[1], [65, 66, 67], [65, 0, 66, 0, 67, 0]]"
    by code_simp
  moreover have "extras_ok (d_extras (dedup_extras (deunicode_extras insertion_sort ?d0)))"
    using extras_sorted_distinct [OF insertion_sort_ok, of ?d0 "dedup_extras (deunicode_extras insertion_sort ?d0)"]
    by (simp add: MAX_DICT_FILE_def)
  ultimately show ?thesis by (simp add: Let_def)
qed

text \<open>
  C39: \<open>maybe_add_auto\<close> keeps the automatic dictionary in order: it never outgrows its array, holds
  no two tokens that differ only in case, its entries in use are the most frequent ones sorted by
  length, and a token that no check rejects is in it afterwards. The eviction stays in the bottom
  half of a full array.
\<close>

theorem auto_dictionary_invariant:
  assumes "qsort_ok qs" "auto_ok (d_a_extras d)" "\<forall>a\<in>set (d_a_extras d). ae_hit_cnt a < 2147483647"
  shows "safe (maybe_add_auto qs rand_below mem d r) (\<lambda>(d', r').
    auto_ok (d_a_extras d') \<and> d_extras d' = d_extras d \<and>
    (auto_token mem \<and> \<not> is_builtin mem \<and> \<not> in_extras mem (d_extras d) \<longrightarrow>
       (\<exists>a\<in>set (d_a_extras d'). eq_nocase (ae_data a) mem)))"
proof -
  have "\<forall>a\<in>set (d_a_extras d). ae_hit_cnt a \<le> 2147483646" using assms(3) by fastforce
  from afl_rng.maybe_add_auto_safe [OF assms(1,2) this] show ?thesis by (rule safe_mono) auto
qed

text \<open>The dictionary at start-up, and the little-endian bytes of a value.\<close>

definition no_dict :: dict where
  "no_dict = \<lparr>d_extras = [], d_a_extras = [], d_auto_changed = False\<rparr>"

definition le_bytes :: "nat \<Rightarrow> int \<Rightarrow> bytes" where
  "le_bytes n v = map (\<lambda>i. word_of_int (v div 256 ^ i)) [0..<n]"

lemma add_first_token:
  assumes "auto_token mem" "\<not> is_builtin mem"
  shows "maybe_add_auto insertion_sort rb mem no_dict r =
    Inr (\<lparr>d_extras = [], d_a_extras = [\<lparr>ae_data = mem, ae_hit_cnt = 0\<rparr>], d_auto_changed = True\<rparr>, r)"
  using assms by (simp add: maybe_add_auto_def auto_token_def no_dict_def in_extras_def
      MAX_AUTO_EXTRAS_def USE_AUTO_EXTRAS_def sort_a_extras_def insertion_sort_def)

theorem auto_dictionary_invariant_witness:
  "\<forall>r. \<exists>d. maybe_add_auto insertion_sort rand_below [1, 2, 3] no_dict r = Inr (d, r) \<and>
     d_a_extras d = [\<lparr>ae_data = [1, 2, 3], ae_hit_cnt = 0\<rparr>] \<and> auto_ok (d_a_extras d)"
proof
  fix r
  have tok: "auto_token [1, 2, 3]" by (simp add: auto_token_def MAX_AUTO_EXTRA_def first_change_def)
  have "\<not> is_builtin [1, 2, 3]" by (simp add: is_builtin_def)
  note run = add_first_token [OF tok this, of rand_below r]
  have "auto_ok (d_a_extras no_dict)" by (simp add: auto_ok_def no_dict_def)
  with auto_dictionary_invariant [OF insertion_sort_ok, of no_dict "[1, 2, 3]" r] run
  show "\<exists>d. maybe_add_auto insertion_sort rand_below [1, 2, 3] no_dict r = Inr (d, r) \<and>
     d_a_extras d = [\<lparr>ae_data = [1, 2, 3], ae_hit_cnt = 0\<rparr>] \<and> auto_ok (d_a_extras d)"
    by (simp add: no_dict_def)
qed

lemma le_bytes_4: "le_bytes 4 v = [word_of_int v, word_of_int (drop_bit 8 v), word_of_int (drop_bit 16 v),
    word_of_int (drop_bit 24 v)]"
  by (simp add: le_bytes_def drop_bit_eq_div eval_nat_numeral)

lemma joined_bytes:
  defines "b \<equiv> (\<lambda>k v. ucast (word_of_int (drop_bit k v) :: u8) :: u32)"
  shows "ucast (word_of_int v :: u8) OR push_bit 8 (b 8 v) OR push_bit 16 (b 16 v) OR push_bit 24 (b 24 v)
      = (word_of_int v :: u32)"
    and "b 24 v OR push_bit 8 (b 16 v) OR push_bit 16 (b 8 v) OR push_bit 24 (ucast (word_of_int v :: u8))
      = SWAP32 (word_of_int v)"
proof -
  have split: "n < 8 \<or> 8 \<le> n \<and> n < 16 \<or> 16 \<le> n \<and> n < 24 \<or> 24 \<le> n \<and> n < 32"
    if "n < LENGTH(32)" for n using that by auto
  show "ucast (word_of_int v :: u8) OR push_bit 8 (b 8 v) OR push_bit 16 (b 16 v) OR push_bit 24 (b 24 v)
      = (word_of_int v :: u32)"
  proof (rule bit_word_eqI)
    fix n assume "n < LENGTH(32)"
    from split [OF this] show "bit (ucast (word_of_int v :: u8) OR push_bit 8 (b 8 v) OR push_bit 16 (b 16 v)
        OR push_bit 24 (b 24 v)) n \<longleftrightarrow> bit (word_of_int v :: u32) n"
      unfolding b_def by (elim disjE conjE) (auto simp: bit_simps)
  qed
  show "b 24 v OR push_bit 8 (b 16 v) OR push_bit 16 (b 8 v) OR push_bit 24 (ucast (word_of_int v :: u8))
      = SWAP32 (word_of_int v)"
  proof (rule bit_word_eqI)
    fix n assume "n < LENGTH(32)"
    from split [OF this] show "bit (b 24 v OR push_bit 8 (b 16 v) OR push_bit 16 (b 8 v)
        OR push_bit 24 (ucast (word_of_int v :: u8))) n \<longleftrightarrow> bit (SWAP32 (word_of_int v)) n"
      unfolding b_def SWAP32_def SWAP32_masks by (elim disjE conjE) (auto simp: bit_simps)
  qed
qed

text \<open>
  \<open>maybe_add_auto\<close> means to reject the built-in values. It does so for every 32-bit value and,
  in big-endian form, for every 16-bit value. The 16-bit comparison of an unsigned short with a
  signed one never holds for a negative value; most of these are caught because their bytes are
  also another value's in the other order, but the little-endian -128 enters the dictionary.
\<close>

theorem builtin_value_missed:
  "list_all (\<lambda>v. is_builtin (le_bytes 4 v) \<and> is_builtin (rev (le_bytes 4 v))) interesting_32 \<and>
   list_all (\<lambda>v. is_builtin (rev (le_bytes 2 v)) \<and> is_builtin (le_bytes 2 v) = (v \<noteq> -128)) interesting_16 \<and>
   maybe_add_auto insertion_sort rand_below (le_bytes 2 (-128)) no_dict r =
     Inr (\<lparr>d_extras = [], d_a_extras = [\<lparr>ae_data = le_bytes 2 (-128), ae_hit_cnt = 0\<rparr>],
           d_auto_changed = True\<rparr>, r)"
proof (intro conjI)
  show "list_all (\<lambda>v. is_builtin (le_bytes 4 v) \<and> is_builtin (rev (le_bytes 4 v))) interesting_32"
    by (auto simp: list_all_iff le_bytes_4 is_builtin_def list_ex_iff joined_bytes Let_def)
  have le: "map (le_bytes 2) interesting_16 = [[128, 255], [255, 255], [0, 0], [1, 0], [16, 0], [32, 0],
     [64, 0], [100, 0], [127, 0], [0, 128], [127, 255], [128, 0], [255, 0], [0, 1], [0, 2], [232, 3],
     [0, 4], [0, 16], [255, 127]]" by code_simp
  then have each: "le_bytes 2 (-128) = [128, 255]" "le_bytes 2 (-1) = [255, 255]" "le_bytes 2 0 = [0, 0]"
    "le_bytes 2 1 = [1, 0]" "le_bytes 2 16 = [16, 0]" "le_bytes 2 32 = [32, 0]" "le_bytes 2 64 = [64, 0]"
    "le_bytes 2 100 = [100, 0]" "le_bytes 2 127 = [127, 0]" "le_bytes 2 (-32768) = [0, 128]"
    "le_bytes 2 (-129) = [127, 255]" "le_bytes 2 128 = [128, 0]" "le_bytes 2 255 = [255, 0]"
    "le_bytes 2 256 = [0, 1]" "le_bytes 2 512 = [0, 2]" "le_bytes 2 1000 = [232, 3]"
    "le_bytes 2 1024 = [0, 4]" "le_bytes 2 4096 = [0, 16]" "le_bytes 2 32767 = [255, 127]"
    by (simp_all add: interesting_16_def interesting_8_def)
  show "list_all (\<lambda>v. is_builtin (rev (le_bytes 2 v)) \<and> is_builtin (le_bytes 2 v) = (v \<noteq> -128)) interesting_16"
    by (simp add: interesting_16_def interesting_8_def each)
      (simp add: is_builtin_def interesting_16_def interesting_8_def SWAP16_def)
  show "maybe_add_auto insertion_sort rand_below (le_bytes 2 (-128)) no_dict r =
     Inr (\<lparr>d_extras = [], d_a_extras = [\<lparr>ae_data = le_bytes 2 (-128), ae_hit_cnt = 0\<rparr>],
           d_auto_changed = True\<rparr>, r)"
    by (rule add_first_token) (simp_all add: each auto_token_def MAX_AUTO_EXTRA_def first_change_def
        is_builtin_def interesting_16_def interesting_8_def SWAP16_def)
qed

end
