(* ===== verification/AFL_DetFilters.thy ===== *)
theory AFL_DetFilters
  imports AFL_Mutations
begin

text \<open>
  The helpers at the head of \<^verbatim>\<open>src/afl-fuzz-one.c\<close>: the three filters that keep the
  deterministic stages from executing a test case that an earlier stage has executed, and
  \<open>locate_diffs\<close>. The filters are exact about the values an earlier stage writes:
  \<open>could_be_bitflip\<close> returns for every argument and accepts a fixed set of patterns,
  \<open>could_be_arith\<close> accepts what one addition or subtraction of at most \<open>ARITH_MAX\<close> on an aligned
  part makes of the old value.
\<close>

section \<open>Bit flips\<close>

text \<open>The loop that shifts until the lowest bit is set; \<open>xor_val\<close> is not 0 on entry.\<close>

definition shift_to_set :: "u32 \<times> u32 \<Rightarrow> ((u32 \<times> u32, u32 \<times> u32) ctl) res" where
  "shift_to_set = (\<lambda>(sh, xor_val).
     if xor_val AND 1 = 0 then Inr (Cont (sh + 1, drop_bit 1 xor_val)) else Inr (Break (sh, xor_val)))"

definition could_be_bitflip :: "u32 \<Rightarrow> bool res" where
  "could_be_bitflip xor_val =
     (if xor_val = 0 then Inr True else
      ebind (run_loop shift_to_set (0, xor_val)) (\<lambda>(sh, xor_val).
        if xor_val = 1 \<or> xor_val = 3 \<or> xor_val = 15 then Inr True
        else if sh AND 7 \<noteq> 0 then Inr False
        else Inr (xor_val = 0xff \<or> xor_val = 0xffff \<or> xor_val = 0xffffffff)))"

section \<open>Arithmetic\<close>

text \<open>
  \<open>ov\<close> and \<open>nv\<close> are \<open>u32\<close> that hold the last pair of parts that differ; the loops count
  \<open>diffs\<close>. The differences are taken at the width of the part.
\<close>

definition byte_at :: "nat \<Rightarrow> u32 \<Rightarrow> u8" where
  "byte_at i v = ucast (drop_bit (8 * i) v)"

definition half_at :: "nat \<Rightarrow> u32 \<Rightarrow> u16" where
  "half_at i v = ucast (drop_bit (16 * i) v)"

definition near :: "'a::len word \<Rightarrow> 'a word \<Rightarrow> bool" where
  "near a b \<longleftrightarrow> unat (a - b) \<le> ARITH_MAX \<or> unat (b - a) \<le> ARITH_MAX"

definition count_diffs :: "(nat \<Rightarrow> u32 \<Rightarrow> 'a::len word) \<Rightarrow> u32 \<Rightarrow> u32 \<Rightarrow> nat \<Rightarrow>
    nat \<times> 'a word \<times> 'a word" where
  "count_diffs part old_val new_val n = fold (\<lambda>i (diffs, ov, nv).
     let a = part i old_val; b = part i new_val in
     if a \<noteq> b then (diffs + 1, a, b) else (diffs, ov, nv)) [0..<n] (0, 0, 0)"

definition could_be_arith :: "u32 \<Rightarrow> u32 \<Rightarrow> nat \<Rightarrow> bool" where
  "could_be_arith old_val new_val blen =
     (if old_val = new_val then True else
      case count_diffs byte_at old_val new_val blen of (diffs, ov, nv) \<Rightarrow>
      if diffs = 1 \<and> near ov nv then True
      else if blen = 1 then False else
      case count_diffs half_at old_val new_val (blen div 2) of (diffs, ov, nv) \<Rightarrow>
      if diffs = 1 \<and> near ov nv then True
      else if diffs = 1 \<and> near (SWAP16 ov) (SWAP16 nv) then True
      else if blen = 4 \<and> near old_val new_val then True
      else if blen = 4 \<and> near (SWAP32 new_val) (SWAP32 old_val) then True
      else False)"

section \<open>Interesting values\<close>

text \<open>\<open>(u8)v\<close>, \<open>(u16)v\<close> and the mask-and-insert of the loops.\<close>

definition insert_part :: "u32 \<Rightarrow> nat \<Rightarrow> u32 \<Rightarrow> u32 \<Rightarrow> u32" where
  "insert_part msk i part old_val =
     (old_val AND NOT (push_bit (i * 8) msk)) OR push_bit (i * 8) part"

definition could_be_interest :: "u32 \<Rightarrow> u32 \<Rightarrow> nat \<Rightarrow> bool \<Rightarrow> bool" where
  "could_be_interest old_val new_val blen check_le =
     (if old_val = new_val then True
      else if list_ex (\<lambda>i. list_ex (\<lambda>v.
          new_val = insert_part 0xff i (ucast (word_of_int v :: u8)) old_val) interesting_8) [0..<blen]
        then True
      else if blen = 2 \<and> \<not> check_le then False
      else if list_ex (\<lambda>i. list_ex (\<lambda>v.
          new_val = insert_part 0xffff i (ucast (word_of_int v :: u16)) old_val \<or>
          blen > 2 \<and> new_val = insert_part 0xffff i (ucast (SWAP16 (word_of_int v))) old_val)
          interesting_16) [0..<blen - 1]
        then True
      else if blen = 4 \<and> check_le then list_ex (\<lambda>v. new_val = word_of_int v) interesting_32
      else False)"

section \<open>Differences of two buffers\<close>

text \<open>\<open>first\<close> and \<open>last\<close> are \<open>s32\<close> that start at -1; \<open>f_loc = pos\<close> converts from \<open>u32\<close>.\<close>

definition locate_diffs :: "bytes \<Rightarrow> bytes \<Rightarrow> nat \<Rightarrow> (int \<times> int) res" where
  "locate_diffs ptr1 ptr2 len = count_loop len 0 (\<lambda>pos (f_loc, l_loc).
     ebind (load8 ptr1 pos) (\<lambda>a. ebind (load8 ptr2 pos) (\<lambda>b.
       if a \<noteq> b then Inr (if f_loc = -1 then int pos else f_loc, int pos)
       else Inr (f_loc, l_loc)))) (-1, -1)"

end
