(* ===== verification/AFL_DetFilterProps.thy ===== *)
theory AFL_DetFilterProps
  imports AFL_DetFilters AFL_Words
begin

text \<open>
  What the filters accept. \<open>flip_pattern\<close> is the set of differences \<open>could_be_bitflip\<close> takes for
  the work of the bit flip stages; \<open>arith_steps\<close> is the set of values that one arithmetic step on
  an aligned part makes.
\<close>

section \<open>Bit flips\<close>

definition flip_pattern :: "nat \<Rightarrow> bool" where
  "flip_pattern n \<longleftrightarrow> n = 0 \<or> (\<exists>sh<32. n = 2 ^ sh \<or> n = 3 * 2 ^ sh \<or> n = 15 * 2 ^ sh
     \<or> 8 dvd sh \<and> (n = 255 * 2 ^ sh \<or> n = 65535 * 2 ^ sh \<or> n = 4294967295 * 2 ^ sh))"

lemma odd_part_unique:
  assumes "a * 2 ^ k = b * 2 ^ m" "odd (a :: nat)" "odd b"
  shows "a = b \<and> k = m"
  using assms
proof (induction k arbitrary: m)
  case 0
  then show ?case by (cases m) auto
next
  case (Suc k)
  then show ?case by (cases m) auto
qed

lemma and_1_even: "x AND 1 = (0 :: u32) \<longleftrightarrow> even (unat x)"
proof -
  have "x AND 1 = 0 \<longleftrightarrow> unat (x AND 1) = 0" by (simp only: unat_eq_0)
  also have "unat (x AND 1) = unat x mod 2" by (simp only: unsigned_and_eq) (simp add: and_one_eq)
  finally show ?thesis by (simp add: even_iff_mod_2_eq_zero)
qed

lemma unat_u32: "unat (x :: u32) < 4294967296"
  using unsigned_less [of x] by simp

lemma shift_to_set_returns:
  assumes "x \<noteq> 0"
  shows "\<exists>r. run_loop shift_to_set (0, x) = Inr r \<and>
    (case r of (sh, y) \<Rightarrow> odd (unat y) \<and> unat x = unat y * 2 ^ unat sh \<and> unat sh < 32)"
proof (rule run_loop_returns [where I = "\<lambda>(sh, y). y \<noteq> 0 \<and> unat x = unat y * 2 ^ unat sh \<and> unat sh < 32"
      and m = "\<lambda>(sh, y). unat y"])
  fix s :: "u32 \<times> u32"
  assume I: "case s of (sh, y) \<Rightarrow> y \<noteq> 0 \<and> unat x = unat y * 2 ^ unat sh \<and> unat sh < 32"
  obtain sh y where s: "s = (sh, y)" by fastforce
  with I have y: "y \<noteq> 0" and x: "unat x = unat y * 2 ^ unat sh" and sh: "unat sh < 32" by auto
  show "(\<exists>a. shift_to_set s = Inr (Break a) \<and>
            (case a of (sh, y) \<Rightarrow> odd (unat y) \<and> unat x = unat y * 2 ^ unat sh \<and> unat sh < 32)) \<or>
        (\<exists>s'. shift_to_set s = Inr (Cont s') \<and>
            (case s' of (sh, y) \<Rightarrow> y \<noteq> 0 \<and> unat x = unat y * 2 ^ unat sh \<and> unat sh < 32) \<and>
            (case s' of (sh, y) \<Rightarrow> unat y) < (case s of (sh, y) \<Rightarrow> unat y))"
  proof (cases "even (unat y)")
    case False
    then show ?thesis using x sh by (simp add: s shift_to_set_def and_1_even)
  next
    case True
    then obtain h where h: "unat y = 2 * h" by blast
    have pos: "0 < h" using y h by (metis gr0I mult_0_right unat_eq_zero)
    have drop: "unat (drop_bit 1 y) = h" 
      by (subst unat_drop_bit_eq) (simp add: drop_bit_eq_div h)
    have "2 ^ (unat sh + 1) \<le> unat x" using pos by (simp add: x h)
    also have "\<dots> < 2 ^ 32" using unat_u32 [of x] by simp
    finally have lt: "unat sh + 1 < 32" by (rule power_less_imp_less_exp [rotated]) simp
    then have succ: "unat (sh + 1) = unat sh + 1" by (simp add: unat_word_ariths)
    from drop pos have "drop_bit 1 y \<noteq> 0" by auto
    with True drop lt succ pos h show ?thesis by (simp add: s shift_to_set_def and_1_even x)
  qed
qed (use assms in simp)

lemma and_7_dvd: "x AND 7 = (0 :: u32) \<longleftrightarrow> 8 dvd unat x"
proof -
  have "x AND 7 = 0 \<longleftrightarrow> unat (x AND 7) = 0" by (simp only: unat_eq_0)
  also have "unat (x AND 7) = unat x AND mask 3"
    by (simp only: unsigned_and_eq) (simp add: mask_eq_exp_minus_1)
  finally show ?thesis by (simp add: take_bit_eq_mask [symmetric] take_bit_eq_mod dvd_eq_mod_eq_0)
qed

lemma unat_eq_u32: "n < 4294967296 \<Longrightarrow> y = of_nat n \<longleftrightarrow> unat (y :: u32) = n"
  by (auto simp: unat_of_nat take_bit_eq_mod word_of_nat_eq_iff)

lemma flip_pattern_shift:
  assumes "odd k" "sh < 32" "k < 4294967296"
  shows "flip_pattern (k * 2 ^ sh) \<longleftrightarrow>
    k = 1 \<or> k = 3 \<or> k = 15 \<or> 8 dvd sh \<and> (k = 255 \<or> k = 65535 \<or> k = 4294967295)"
proof
  assume "flip_pattern (k * 2 ^ sh)"
  moreover have "k * 2 ^ sh \<noteq> 0" using assms(1) by (auto simp: odd_pos)
  ultimately obtain m where "k * 2 ^ sh = 1 * 2 ^ m \<or> k * 2 ^ sh = 3 * 2 ^ m \<or> k * 2 ^ sh = 15 * 2 ^ m
      \<or> 8 dvd m \<and> (k * 2 ^ sh = 255 * 2 ^ m \<or> k * 2 ^ sh = 65535 * 2 ^ m \<or> k * 2 ^ sh = 4294967295 * 2 ^ m)"
    unfolding flip_pattern_def mult_1 by blast
  moreover have "k = b \<and> sh = m" if "k * 2 ^ sh = b * 2 ^ m" "odd b" for b
    using odd_part_unique [OF that(1) assms(1) that(2)] .
  from this [of 1] this [of 3] this [of 15] this [of 255] this [of 65535] this [of 4294967295]
  have "k * 2 ^ sh = 1 * 2 ^ m \<Longrightarrow> k = 1" "k * 2 ^ sh = 3 * 2 ^ m \<Longrightarrow> k = 3"
    "k * 2 ^ sh = 15 * 2 ^ m \<Longrightarrow> k = 15" "k * 2 ^ sh = 255 * 2 ^ m \<Longrightarrow> k = 255 \<and> sh = m"
    "k * 2 ^ sh = 65535 * 2 ^ m \<Longrightarrow> k = 65535 \<and> sh = m"
    "k * 2 ^ sh = 4294967295 * 2 ^ m \<Longrightarrow> k = 4294967295 \<and> sh = m" by simp_all
  ultimately show "k = 1 \<or> k = 3 \<or> k = 15 \<or> 8 dvd sh \<and> (k = 255 \<or> k = 65535 \<or> k = 4294967295)"
    by blast
next
  assume "k = 1 \<or> k = 3 \<or> k = 15 \<or> 8 dvd sh \<and> (k = 255 \<or> k = 65535 \<or> k = 4294967295)"
  with assms(2) show "flip_pattern (k * 2 ^ sh)"
    unfolding flip_pattern_def by (intro disjI2 exI [of _ sh]) auto
qed

lemma could_be_bitflip_eq: "could_be_bitflip x = Inr (flip_pattern (unat x))"
proof (cases "x = 0")
  case True
  then show ?thesis by (simp add: could_be_bitflip_def flip_pattern_def)
next
  case False
  from shift_to_set_returns [OF this] obtain sh y where
    run: "run_loop shift_to_set (0, x) = Inr (sh, y)"
    and odd: "odd (unat y)" and x: "unat x = unat y * 2 ^ unat sh" and sh: "unat sh < 32" by auto
  have eqs: "y = 1 \<longleftrightarrow> unat y = 1" "y = 3 \<longleftrightarrow> unat y = 3" "y = 15 \<longleftrightarrow> unat y = 15"
    "y = 0xff \<longleftrightarrow> unat y = 255" "y = 0xffff \<longleftrightarrow> unat y = 65535" "y = 0xffffffff \<longleftrightarrow> unat y = 4294967295"
    using unat_eq_u32 [of 1 y] unat_eq_u32 [of 3 y] unat_eq_u32 [of 15 y] unat_eq_u32 [of 255 y]
      unat_eq_u32 [of 65535 y] unat_eq_u32 [of 4294967295 y] by simp_all
  show ?thesis
    using False by (auto simp: could_be_bitflip_def run x and_7_dvd eqs
        flip_pattern_shift [OF odd sh unat_u32])
qed

section \<open>Parts of a value\<close>

lemma masks_u32: "(0xff :: u32) = mask 8" "(0xffff :: u32) = mask 16"
  by (simp_all add: mask_eq_exp_minus_1)

lemma byte_at_insert: "i < 4 \<Longrightarrow> k < 4 \<Longrightarrow>
    byte_at k (insert_part 0xff i (ucast b) v) = (if k = i then b else byte_at k v)"
  by (rule bit_word_eqI) (auto simp: byte_at_def insert_part_def masks_u32 bit_simps dest: bit_imp_le_length)

lemma half_at_insert: "i < 2 \<Longrightarrow> k < 2 \<Longrightarrow>
    half_at k (insert_part 0xffff (2 * i) (ucast h) v) = (if k = i then h else half_at k v)"
  by (rule bit_word_eqI) (auto simp: half_at_def insert_part_def masks_u32 bit_simps dest: bit_imp_le_length)

lemma byte_at_ext: "v = w \<longleftrightarrow> (\<forall>i<4. byte_at i v = byte_at i w)"
proof
  assume eq: "\<forall>i<4. byte_at i v = byte_at i w"
  show "v = w"
  proof (rule bit_word_eqI)
    fix n assume n: "n < LENGTH(32)"
    then have "byte_at (n div 8) v = byte_at (n div 8) w" using eq by simp
    then have "bit (byte_at (n div 8) v) (n mod 8) = bit (byte_at (n div 8) w) (n mod 8)" by simp
    then show "bit v n = bit w n" using n by (simp add: byte_at_def bit_simps)
  qed
qed simp

lemma half_at_ext: "v = w \<longleftrightarrow> (\<forall>i<2. half_at i v = half_at i w)"
proof
  assume eq: "\<forall>i<2. half_at i v = half_at i w"
  show "v = w"
  proof (rule bit_word_eqI)
    fix n assume n: "n < LENGTH(32)"
    then have "half_at (n div 16) v = half_at (n div 16) w" using eq by simp
    then have "bit (half_at (n div 16) v) (n mod 16) = bit (half_at (n div 16) w) (n mod 16)" by simp
    then show "bit v n = bit w n" using n by (simp add: half_at_def bit_simps)
  qed
qed simp

lemma part_at_small:
  assumes "unat v < 2 ^ (8 * n)"
  shows "n \<le> i \<Longrightarrow> byte_at i v = 0" "n \<le> 2 * i \<Longrightarrow> half_at i v = 0"
proof -
  have "unat v < 2 ^ m" if "8 * n \<le> m" for m
    using assms that by (rule less_le_trans [OF _ power_increasing]) simp_all
  then have "unat (drop_bit m v) = 0" if "8 * n \<le> m" for m
    using that by (subst unat_drop_bit_eq) (simp add: drop_bit_eq_div)
  then have "drop_bit m v = 0" if "8 * n \<le> m" for m
    using that by (simp only: unat_eq_0)
  then show "n \<le> i \<Longrightarrow> byte_at i v = 0" "n \<le> 2 * i \<Longrightarrow> half_at i v = 0"
    by (simp_all add: byte_at_def half_at_def)
qed

section \<open>Arithmetic\<close>

lemma near_iff: "near a b \<longleftrightarrow> (\<exists>j\<le>ARITH_MAX. b = a + of_nat j \<or> b = a - of_nat j)"
proof
  assume "near a b"
  moreover have "b = a + of_nat (unat (b - a))" "b = a - of_nat (unat (a - b))" by simp_all
  ultimately show "\<exists>j\<le>ARITH_MAX. b = a + of_nat j \<or> b = a - of_nat j"
    unfolding near_def by blast
next
  have "unat (of_nat j :: 'a word) \<le> j" for j by (simp add: unat_of_nat take_bit_nat_less_eq_self)
  then have le: "j \<le> ARITH_MAX \<Longrightarrow> unat (of_nat j :: 'a word) \<le> ARITH_MAX" for j
    using order_trans by blast
  assume "\<exists>j\<le>ARITH_MAX. b = a + of_nat j \<or> b = a - of_nat j"
  then obtain j where j: "j \<le> ARITH_MAX" and "b - a = of_nat j \<or> a - b = of_nat j" by auto
  then show "near a b" using le [OF j] by (elim disjE) (simp_all add: near_def)
qed

text \<open>The counting loop finds whether exactly one part differs, and which.\<close>

definition only_diff :: "(nat \<Rightarrow> u32 \<Rightarrow> 'a::len word) \<Rightarrow> u32 \<Rightarrow> u32 \<Rightarrow> nat \<Rightarrow> nat \<Rightarrow> bool" where
  "only_diff part v w n i \<longleftrightarrow>
     i < n \<and> part i v \<noteq> part i w \<and> (\<forall>k<n. k \<noteq> i \<longrightarrow> part k v = part k w)"

lemma count_diffs_inv:
  "case count_diffs part v w n of (d, ov, nv) \<Rightarrow>
     (d = 0 \<longleftrightarrow> (\<forall>i<n. part i v = part i w)) \<and> (d = 1 \<longrightarrow> (\<exists>i. only_diff part v w n i)) \<and>
     (\<forall>i. only_diff part v w n i \<longrightarrow> d = 1 \<and> ov = part i v \<and> nv = part i w)"
proof (induction n)
  case 0
  then show ?case by (simp add: count_diffs_def only_diff_def)
next
  case (Suc n)
  obtain d ov nv where r: "count_diffs part v w n = (d, ov, nv)" by (cases "count_diffs part v w n")
  have step: "count_diffs part v w (Suc n) =
      (if part n v \<noteq> part n w then (d + 1, part n v, part n w) else (d, ov, nv))"
    using r by (simp add: count_diffs_def Let_def)
  show ?case
  proof (cases "part n v = part n w")
    case True
    then have "only_diff part v w (Suc n) i = only_diff part v w n i" for i
      by (auto simp: only_diff_def less_Suc_eq)
    with Suc r step True show ?thesis by (auto simp: less_Suc_eq)
  next
    case False
    then have od: "only_diff part v w (Suc n) i \<longleftrightarrow> i = n \<and> (\<forall>k<n. part k v = part k w)" for i
      by (auto simp: only_diff_def less_Suc_eq)
    from Suc r step False show ?thesis by (auto simp: od)
  qed
qed

lemma count_diffs_iff:
  "(case count_diffs part v w n of (d, ov, nv) \<Rightarrow> d = 1 \<and> P ov nv)
    \<longleftrightarrow> (\<exists>i. only_diff part v w n i \<and> P (part i v) (part i w))"
  using count_diffs_inv [where part = part and v = v and w = w and n = n] by (cases "count_diffs part v w n") auto

lemma only_diff_byte:
  assumes "v \<noteq> w" "n \<le> 4" "unat v < 2 ^ (8 * n)" "unat w < 2 ^ (8 * n)"
  shows "only_diff byte_at v w n i \<longleftrightarrow> i < n \<and> w = insert_part 0xff i (ucast (byte_at i w)) v"
proof
  assume od: "only_diff byte_at v w n i"
  then have i: "i < n" by (simp add: only_diff_def)
  moreover have "byte_at k w = byte_at k (insert_part 0xff i (ucast (byte_at i w)) v)" if "k < 4" for k
    using od i that assms(2) part_at_small(1) [OF assms(3), of k] part_at_small(1) [OF assms(4), of k]
    by (cases "k < n") (auto simp: byte_at_insert only_diff_def)
  ultimately show "i < n \<and> w = insert_part 0xff i (ucast (byte_at i w)) v" by (subst byte_at_ext) auto
next
  assume *: "i < n \<and> w = insert_part 0xff i (ucast (byte_at i w)) v"
  then have same: "byte_at k w = byte_at k v" if "k < 4" "k \<noteq> i" for k
    using byte_at_insert [of i k "byte_at i w" v] that assms(2) by simp
  with assms(1) have "byte_at i v \<noteq> byte_at i w" by (subst (asm) byte_at_ext) metis
  with same * assms(2) show "only_diff byte_at v w n i" by (auto simp: only_diff_def)
qed

lemma only_diff_half:
  assumes "v \<noteq> w" "n \<le> 2" "unat v < 2 ^ (16 * n)" "unat w < 2 ^ (16 * n)"
  shows "only_diff half_at v w n i \<longleftrightarrow> i < n \<and> w = insert_part 0xffff (2 * i) (ucast (half_at i w)) v"
proof
  assume od: "only_diff half_at v w n i"
  then have i: "i < n" by (simp add: only_diff_def)
  moreover have "half_at k w = half_at k (insert_part 0xffff (2 * i) (ucast (half_at i w)) v)" if "k < 2" for k
    using od i that assms part_at_small(2) [of v "2 * n" k] part_at_small(2) [of w "2 * n" k]
    by (cases "k < n") (auto simp: half_at_insert only_diff_def)
  ultimately show "i < n \<and> w = insert_part 0xffff (2 * i) (ucast (half_at i w)) v" by (subst half_at_ext) auto
next
  assume *: "i < n \<and> w = insert_part 0xffff (2 * i) (ucast (half_at i w)) v"
  then have same: "half_at k w = half_at k v" if "k < 2" "k \<noteq> i" for k
    using half_at_insert [of i k "half_at i w" v] that assms(2) by simp
  with assms(1) have "half_at i v \<noteq> half_at i w" by (subst (asm) half_at_ext) metis
  with same * assms(2) show "only_diff half_at v w n i" by (auto simp: only_diff_def)
qed

definition step_of :: "nat \<Rightarrow> 'a::len word \<Rightarrow> 'a word \<Rightarrow> bool" where
  "step_of j a b \<longleftrightarrow> b = a + of_nat j \<or> b = a - of_nat j"

definition arith_reach :: "nat \<Rightarrow> u32 \<Rightarrow> u32 \<Rightarrow> bool" where
  "arith_reach blen v w \<longleftrightarrow> (\<exists>j\<le>ARITH_MAX.
     (\<exists>i<blen. \<exists>b. step_of j (byte_at i v) b \<and> w = insert_part 0xff i (ucast b) v) \<or>
     (\<exists>i<blen div 2. \<exists>h. (step_of j (half_at i v) h \<or> step_of j (SWAP16 (half_at i v)) (SWAP16 h)) \<and>
        w = insert_part 0xffff (2 * i) (ucast h) v) \<or>
     blen = 4 \<and> (step_of j v w \<or> step_of j (SWAP32 v) (SWAP32 w)))"

lemma near_step: "near a b \<longleftrightarrow> (\<exists>j\<le>ARITH_MAX. step_of j a b)"
  by (simp add: near_iff step_of_def)

lemma near_sym: "near a b \<longleftrightarrow> near b a"
  by (auto simp: near_def)

lemma byte_change:
  assumes "v \<noteq> w" "n \<le> 4" "unat v < 2 ^ (8 * n)" "unat w < 2 ^ (8 * n)"
  shows "(\<exists>i. only_diff byte_at v w n i \<and> P (byte_at i v) (byte_at i w)) \<longleftrightarrow>
    (\<exists>i<n. \<exists>b. P (byte_at i v) b \<and> w = insert_part 0xff i (ucast b) v)"
proof -
  have "w = insert_part 0xff i (ucast b) v \<Longrightarrow> byte_at i w = b" if "i < n" for i b
    using byte_at_insert [of i i b v] that assms(2) by simp
  then show ?thesis unfolding only_diff_byte [OF assms] by metis
qed

lemma half_change:
  assumes "v \<noteq> w" "n \<le> 2" "unat v < 2 ^ (16 * n)" "unat w < 2 ^ (16 * n)"
  shows "(\<exists>i. only_diff half_at v w n i \<and> P (half_at i v) (half_at i w)) \<longleftrightarrow>
    (\<exists>i<n. \<exists>h. P (half_at i v) h \<and> w = insert_part 0xffff (2 * i) (ucast h) v)"
proof -
  have "w = insert_part 0xffff (2 * i) (ucast h) v \<Longrightarrow> half_at i w = h" if "i < n" for i h
    using half_at_insert [of i i h v] that assms(2) by simp
  then show ?thesis unfolding only_diff_half [OF assms] by metis
qed

lemma could_be_arith_eq:
  assumes blen: "blen = 1 \<or> blen = 2 \<or> blen = 4"
    and small: "unat v < 2 ^ (8 * blen)" "unat w < 2 ^ (8 * blen)" and ne: "v \<noteq> w"
  shows "could_be_arith v w blen \<longleftrightarrow>
    (\<exists>i<blen. \<exists>b. near (byte_at i v) b \<and> w = insert_part 0xff i (ucast b) v) \<or>
    (\<exists>i<blen div 2. \<exists>h. (near (half_at i v) h \<or> near (SWAP16 (half_at i v)) (SWAP16 h)) \<and>
        w = insert_part 0xffff (2 * i) (ucast h) v) \<or>
    blen = 4 \<and> (near v w \<or> near (SWAP32 v) (SWAP32 w))"
proof -
  let ?B = "\<exists>i. only_diff byte_at v w blen i \<and> near (byte_at i v) (byte_at i w)"
  let ?X = "\<exists>i<blen div 2. \<exists>h. (near (half_at i v) h \<or> near (SWAP16 (half_at i v)) (SWAP16 h)) \<and>
        w = insert_part 0xffff (2 * i) (ucast h) v"
  let ?H = "\<lambda>g. \<exists>i. only_diff half_at v w (blen div 2) i \<and> near (g (half_at i v)) (g (half_at i w))"
  have main: "could_be_arith v w blen \<longleftrightarrow> ?B \<or> blen \<noteq> 1 \<and> (?H id \<or> ?H SWAP16 \<or>
      blen = 4 \<and> (near v w \<or> near (SWAP32 v) (SWAP32 w)))"
  proof -
    obtain d ov nv where B: "count_diffs byte_at v w blen = (d, ov, nv)"
      by (cases "count_diffs byte_at v w blen")
    obtain d' ov' nv' where H: "count_diffs half_at v w (blen div 2) = (d', ov', nv')"
      by (cases "count_diffs half_at v w (blen div 2)")
    have b: "?B \<longleftrightarrow> d = 1 \<and> near ov nv"
      unfolding count_diffs_iff [symmetric] B by simp
    have h: "?H g \<longleftrightarrow> d' = 1 \<and> near (g ov') (g nv')" for g
      using count_diffs_iff [where part = half_at and v = v and w = w and n = "blen div 2"
          and P = "\<lambda>a b. near (g a) (g b)"] by (simp add: H)
    show ?thesis
      unfolding b h unfolding could_be_arith_def B H prod.case id_apply near_sym [of "SWAP32 w"]
      using ne by auto
  qed
  have "?H id \<or> ?H SWAP16 \<longleftrightarrow> (\<exists>i. only_diff half_at v w (blen div 2) i \<and>
      (near (half_at i v) (half_at i w) \<or> near (SWAP16 (half_at i v)) (SWAP16 (half_at i w))))"
    by auto
  also have "\<dots> \<longleftrightarrow> ?X" if "blen \<noteq> 1"
    by (rule half_change [OF ne]) (use blen small that in auto)
  finally have H: "blen \<noteq> 1 \<Longrightarrow> ?H id \<or> ?H SWAP16 \<longleftrightarrow> ?X" .
  have B: "?B \<longleftrightarrow> (\<exists>i<blen. \<exists>b. near (byte_at i v) b \<and> w = insert_part 0xff i (ucast b) v)"
    by (rule byte_change [OF ne _ small]) (use blen in auto)
  show ?thesis
  proof (cases "blen = 1")
    case True
    then show ?thesis using main B by simp
  next
    case False
    show ?thesis unfolding B [symmetric] H [OF False, symmetric] using main False by blast
  qed
qed

section \<open>The properties\<close>

text \<open>
  C35: \<open>could_be_bitflip\<close> returns for every difference, and answers yes exactly for 0, for the
  patterns 1, 3 and 15 at any shift and for the patterns 0xff, 0xffff and 0xffffffff at a shift
  that is a multiple of 8: its loop ends because the argument of the loop is not 0.
\<close>

theorem could_be_bitflip_patterns:
  "\<exists>r. could_be_bitflip x = Inr r \<and> (r \<longleftrightarrow>
     x = 0 \<or> (\<exists>sh<32. unat x = 2 ^ sh \<or> unat x = 3 * 2 ^ sh \<or> unat x = 15 * 2 ^ sh
       \<or> 8 dvd sh \<and> (unat x = 255 * 2 ^ sh \<or> unat x = 65535 * 2 ^ sh \<or> unat x = 4294967295 * 2 ^ sh)))"
  using could_be_bitflip_eq [of x] by (simp add: flip_pattern_def unat_eq_0)

text \<open>
  C36: \<open>could_be_arith\<close>, for two values of \<open>blen\<close> bytes, answers yes exactly when one addition or
  subtraction of at most \<open>ARITH_MAX\<close> makes the new value of the old one: on one of its bytes, on one
  of its aligned 16-bit halves in either byte order, or on the whole 32-bit value in either order.
\<close>

theorem could_be_arith_exact:
  assumes "blen = 1 \<or> blen = 2 \<or> blen = 4" "unat v < 2 ^ (8 * blen)" "unat w < 2 ^ (8 * blen)"
  shows "could_be_arith v w blen \<longleftrightarrow> arith_reach blen v w"
proof (cases "v = w")
  case True
  have "v = insert_part 0xff 0 (ucast (byte_at 0 v)) v"
    by (subst byte_at_ext) (simp add: byte_at_insert)
  moreover have "step_of 0 (byte_at 0 v) (byte_at 0 v)" by (simp add: step_of_def)
  moreover have "0 < blen" using assms(1) by auto
  ultimately have "arith_reach blen v v" unfolding arith_reach_def by blast
  then show ?thesis using True by (simp add: could_be_arith_def)
next
  case False
  show ?thesis
    unfolding could_be_arith_eq [OF assms False] arith_reach_def near_step by blast
qed

theorem could_be_arith_exact_witness:
  "\<exists>blen v w. (blen = 1 \<or> blen = 2 \<or> blen = 4) \<and> unat v < 2 ^ (8 * blen) \<and> unat w < 2 ^ (8 * blen) \<and>
     could_be_arith v w blen \<and> arith_reach blen v w"
proof -
  have "could_be_arith 0x00f0 0x0110 2"
    by (simp add: could_be_arith_def count_diffs_def byte_at_def half_at_def near_def SWAP16_def
        ARITH_MAX_def)
  moreover from this have "arith_reach 2 0x00f0 0x0110" using could_be_arith_exact [where blen = 2 and v = "0x00f0" and w = "0x0110"] by simp
  ultimately show ?thesis by (intro exI [of _ 2] exI [of _ "0x00f0"] exI [of _ "0x0110"]) simp
qed

text \<open>
  \<open>locate_diffs\<close> reads nothing beyond the \<open>len\<close> bytes of the two buffers; it gives -1 and -1
  when these are equal, and otherwise the first and the last position where they differ.
\<close>

theorem locate_diffs_exact:
  assumes "len \<le> length a" "len \<le> length b"
  shows "\<exists>first last. locate_diffs a b len = Inr (first, last) \<and>
    (if \<forall>i<len. a ! i = b ! i then first = -1 \<and> last = -1
     else 0 \<le> first \<and> first \<le> last \<and> last < int len \<and>
       a ! nat first \<noteq> b ! nat first \<and> a ! nat last \<noteq> b ! nat last \<and>
       (\<forall>i<len. a ! i \<noteq> b ! i \<longrightarrow> first \<le> int i \<and> int i \<le> last))"
proof -
  let ?I = "\<lambda>n (f :: int, l :: int). if \<forall>i<n. a ! i = b ! i then f = -1 \<and> l = -1
     else 0 \<le> f \<and> f \<le> l \<and> l < int n \<and> a ! nat f \<noteq> b ! nat f \<and> a ! nat l \<noteq> b ! nat l \<and>
       (\<forall>i<n. a ! i \<noteq> b ! i \<longrightarrow> f \<le> int i \<and> int i \<le> l)"
  have "\<exists>s'. locate_diffs a b len = Inr s' \<and> ?I (0 + len) s'"
    unfolding locate_diffs_def
  proof (rule count_loop_inv [where I = ?I])
    fix j :: nat and s :: "int \<times> int"
    assume j: "j < 0 + len" and I: "?I j s"
    obtain f l where s: "s = (f, l)" by fastforce
    have "j < length a" "j < length b" using j assms by auto
    with I show "\<exists>s'. (case s of (f_loc, l_loc) \<Rightarrow> ebind (load8 a j) (\<lambda>x. ebind (load8 b j) (\<lambda>y.
        if x \<noteq> y then Inr (if f_loc = -1 then int j else f_loc, int j) else Inr (f_loc, l_loc)))) = Inr s' \<and>
        ?I (Suc j) s'"
      by (auto simp: s mem_ok less_Suc_eq split: if_splits)
  qed simp
  then show ?thesis by (simp only: add_0) (force split: prod.splits)
qed

theorem locate_diffs_exact_witness:
  "\<exists>first last. locate_diffs [1, 2, 3, 4] [1, 7, 3, 5] 4 = Inr (first, last) \<and> first = 1 \<and> last = 3"
proof -
  have "locate_diffs [1, 2, 3, 4] [1, 7, 3, 5] 4 = Inr (1, 3)" by code_simp
  with locate_diffs_exact [of 4 "[1, 2, 3, 4]" "[1, 7, 3, 5]"] show ?thesis by simp
qed

end
