(* ===== verification/AFL_DetStages.thy ===== *)
theory AFL_DetStages
  imports AFL_DetFilters AFL_Extras AFL_Alloc
begin

text \<open>
  The deterministic stages of \<open>fuzz_one_original\<close> in \<^verbatim>\<open>src/afl-fuzz-one.c\<close>, one definition per
  stage, and their composition. Every stage writes its change into \<open>out_buf\<close>, executes the
  target and undoes the change. A stage can leave in three ways: to the next one, to the custom
  mutators (the time for deterministic fuzzing is over) or to the end (the target was stopped);
  the \<open>goto\<close>s of the code are the three constructors of \<open>flow\<close>.

  The C functions a stage calls and the parts of the fuzzer's state behind them are the argument
  \<open>h\<close>: \<open>h_fuzz\<close> is \<open>common_fuzz_stuff\<close> on a test case, \<open>h_hits\<close> reads
  \<open>queued_items + saved_crashes\<close>, \<open>h_cksum\<close> hashes the trace of the last execution, and
  \<open>h_timeout\<close> is \<open>is_det_timeout\<close>, which reads the clock. \<open>common_fuzz_stuff\<close> draws no random
  numbers, so the generator stands beside the world it changes.
\<close>

section \<open>State\<close>

datatype stage =
    STAGE_FLIP1 | STAGE_FLIP2 | STAGE_FLIP4 | STAGE_FLIP8 | STAGE_FLIP16 | STAGE_FLIP32
  | STAGE_ARITH8 | STAGE_ARITH16 | STAGE_ARITH32
  | STAGE_INTEREST8 | STAGE_INTEREST16 | STAGE_INTEREST32
  | STAGE_EXTRAS_UO | STAGE_EXTRAS_UI | STAGE_EXTRAS_AO | STAGE_EXTRAS_AI
  | STAGE_HAVOC | STAGE_SPLICE | STAGE_PYTHON | STAGE_CUSTOM_MUTATOR | STAGE_COLORIZATION
  | STAGE_ITS | STAGE_INF | STAGE_QUICK

datatype val_type = STAGE_VAL_NONE | STAGE_VAL_LE | STAGE_VAL_BE

text \<open>
  The fields of \<open>afl_state_t\<close> and the local variables that the stages change. Counters and offsets
  of 32 bits are natural numbers with the wrap-around written out. \<open>det_cksum\<close> is
  \<open>_prev_cksum\<close>, the hash of the unchanged test case.
\<close>

record ('w, 'r) det =
  d_world :: 'w
  d_rng :: 'r
  d_dict :: dict
  out_buf :: bytes
  ex_buf :: "bytes option"
  stage_name :: string
  stage_short :: string
  stage_cur :: nat
  stage_max :: nat
  stage_cur_byte :: nat
  stage_cur_val :: int
  stage_val_type :: val_type
  stage_finds :: "stage \<Rightarrow> u64"
  stage_cycles :: "stage \<Rightarrow> u64"
  orig_hit_cnt :: u64
  new_hit_cnt :: u64
  prev_cksum :: u64
  det_cksum :: u64
  a_collect :: bytes
  a_len :: nat
  blocks_eff_select :: u64
  blocks_eff_total :: u64
  last_len :: nat
  passed_det :: bool

record ('w, 'r) host =
  h_fuzz :: "bytes \<Rightarrow> 'w \<Rightarrow> bool \<times> 'w"
  h_hits :: "'w \<Rightarrow> u64"
  h_cksum :: "'w \<Rightarrow> u64"
  h_timeout :: "'w \<Rightarrow> bool \<times> 'w"
  h_rand :: "'r rand"
  h_sort :: "auto_extra sorter"
  h_alloc_ok :: "nat \<Rightarrow> bool"

text \<open>What the stages only read. \<open>de_in_buf\<close> is the test case, \<open>de_eff\<close> the effector map.\<close>

record det_env =
  de_len :: nat
  de_in_buf :: bytes
  de_eff :: bytes
  de_no_arith :: bool
  de_non_instrumented :: bool
  de_max_det_extras :: nat

section \<open>Control flow\<close>

datatype 's flow = Next 's | Custom 's | Abandon 's

definition fbind :: "'s flow res \<Rightarrow> ('s \<Rightarrow> 's flow res) \<Rightarrow> 's flow res" where
  "fbind m f = ebind m (\<lambda>fl. case fl of Next s \<Rightarrow> f s | Custom s \<Rightarrow> Inr (Custom s) | Abandon s \<Rightarrow> Inr (Abandon s))"

text \<open>A counted loop runs its body over the list of the values of its counter.\<close>

primrec for_each :: "'a list \<Rightarrow> ('a \<Rightarrow> 's \<Rightarrow> 's flow res) \<Rightarrow> 's \<Rightarrow> 's flow res" where
  "for_each [] body s = Inr (Next s)"
| "for_each (x # xs) body s = fbind (body x s) (for_each xs body)"

section \<open>Parts that the stages share\<close>

definition u32_mul :: "nat \<Rightarrow> nat \<Rightarrow> nat" where
  "u32_mul a b = (a * b) mod 2 ^ 32"

definition begin_stage :: "string \<Rightarrow> string \<Rightarrow> nat \<Rightarrow> ('w, 'r) det \<Rightarrow> ('w, 'r) det" where
  "begin_stage name short mx s =
     s\<lparr>stage_name := name, stage_short := short, stage_cur := 0, stage_max := mx, orig_hit_cnt := new_hit_cnt s\<rparr>"

definition end_stage :: "('w, 'r) host \<Rightarrow> stage \<Rightarrow> ('w, 'r) det \<Rightarrow> ('w, 'r) det flow res" where
  "end_stage h st s =
     (let n = h_hits h (d_world s) in
      Inr (Next (s\<lparr>new_hit_cnt := n,
             stage_finds := (stage_finds s)(st := stage_finds s st + (n - orig_hit_cnt s)),
             stage_cycles := (stage_cycles s)(st := stage_cycles s st + word_of_nat (stage_max s))\<rparr>)))"

text \<open>\<open>common_fuzz_stuff(afl, buf, len)\<close>, which reads \<open>len\<close> bytes of \<open>buf\<close>.\<close>

definition run_case :: "('w, 'r) host \<Rightarrow> bytes \<Rightarrow> nat \<Rightarrow> ('w, 'r) det \<Rightarrow> ('w, 'r) det flow res" where
  "run_case h buf n s =
     (if length buf < n then Inl Fault else
      case h_fuzz h (take n buf) (d_world s) of (stop, w) \<Rightarrow>
        Inr (if stop then Abandon (s\<lparr>d_world := w\<rparr>) else Next (s\<lparr>d_world := w\<rparr>)))"

definition run_out :: "('w, 'r) host \<Rightarrow> det_env \<Rightarrow> ('w, 'r) det \<Rightarrow> ('w, 'r) det flow res" where
  "run_out h e s = run_case h (out_buf s) (de_len e) s"

text \<open>The head of every round: the effector map, then the clock.\<close>

definition check_pos :: "('w, 'r) host \<Rightarrow> det_env \<Rightarrow> nat \<Rightarrow>
    (('w, 'r) det \<Rightarrow> ('w, 'r) det flow res) \<Rightarrow> ('w, 'r) det \<Rightarrow> ('w, 'r) det flow res" where
  "check_pos h e i k s =
     ebind (load8 (de_eff e) i) (\<lambda>v.
       if v = 0 then Inr (Next s)
       else case h_timeout h (d_world s) of (late, w) \<Rightarrow>
         if late then Inr (Custom (s\<lparr>d_world := w\<rparr>)) else k (s\<lparr>d_world := w\<rparr>))"

definition on_out :: "(bytes \<Rightarrow> bytes res) \<Rightarrow> ('w, 'r) det \<Rightarrow> ('w, 'r) det flow res" where
  "on_out f s = ebind (f (out_buf s)) (\<lambda>b. Inr (Next (s\<lparr>out_buf := b\<rparr>)))"

definition skip_value :: "('w, 'r) det \<Rightarrow> ('w, 'r) det flow res" where
  "skip_value s = Inr (Next (s\<lparr>stage_max := u32_sub (stage_max s) 1\<rparr>))"

definition count_value :: "('w, 'r) det \<Rightarrow> ('w, 'r) det flow res" where
  "count_value s = Inr (Next (s\<lparr>stage_cur := u32_add (stage_cur s) 1\<rparr>))"

text \<open>Write a value, execute, count: or skip it and lower the number of expected executions.\<close>

definition attempt :: "('w, 'r) host \<Rightarrow> det_env \<Rightarrow> bool \<Rightarrow> val_type \<Rightarrow> int \<Rightarrow> (bytes \<Rightarrow> bytes res) \<Rightarrow>
    ('w, 'r) det \<Rightarrow> ('w, 'r) det flow res" where
  "attempt h e skip vt v f s =
     (if skip then skip_value s
      else fbind (on_out f (s\<lparr>stage_val_type := vt, stage_cur_val := v\<rparr>)) (\<lambda>s.
           fbind (run_out h e s) count_value))"

section \<open>Bit flips\<close>

definition FLIP_BIT :: "bytes \<Rightarrow> nat \<Rightarrow> bytes res" where
  "FLIP_BIT b i = ebind (load8 b (i div 8)) (\<lambda>v. store8 b (i div 8) (v XOR drop_bit (i mod 8) 128))"

fun flip_bits :: "nat list \<Rightarrow> bytes \<Rightarrow> bytes res" where
  "flip_bits [] b = Inr b"
| "flip_bits (i # is) b = ebind (FLIP_BIT b i) (flip_bits is)"

text \<open>The loop over \<open>stage_cur\<close>; after it, \<open>stage_cur\<close> has reached \<open>stage_max\<close>.\<close>

definition walk :: "(nat \<Rightarrow> nat) \<Rightarrow> (nat \<Rightarrow> ('w, 'r) det \<Rightarrow> ('w, 'r) det flow res) \<Rightarrow>
    ('w, 'r) det \<Rightarrow> ('w, 'r) det flow res" where
  "walk byte_of body s =
     fbind (for_each [0..<stage_max s] (\<lambda>i s. body i (s\<lparr>stage_cur := i, stage_cur_byte := byte_of i\<rparr>)) s)
       (\<lambda>s. Inr (Next (s\<lparr>stage_cur := stage_max s\<rparr>)))"

text \<open>Collecting the tokens of the automatic dictionary while the lowest bit of a byte is flipped.\<close>

definition collect_char :: "nat \<Rightarrow> ('w, 'r) det \<Rightarrow> ('w, 'r) det flow res" where
  "collect_char i s =
     (if a_len s < MAX_AUTO_EXTRA then
        ebind (load8 (out_buf s) (i div 8)) (\<lambda>c. ebind (store8 (a_collect s) (a_len s) c) (\<lambda>a.
          Inr (Next (s\<lparr>a_collect := a, a_len := u32_add (a_len s) 1\<rparr>))))
      else Inr (Next (s\<lparr>a_len := u32_add (a_len s) 1\<rparr>)))"

definition add_collected :: "('w, 'r) host \<Rightarrow> ('w, 'r) det \<Rightarrow> ('w, 'r) det flow res" where
  "add_collected h s =
     (if MIN_AUTO_EXTRA \<le> a_len s \<and> a_len s \<le> MAX_AUTO_EXTRA then
        ebind (maybe_add_auto (h_sort h) (h_rand h) (take (a_len s) (a_collect s)) (d_dict s) (d_rng s))
          (\<lambda>(d, r). Inr (Next (s\<lparr>d_dict := d, d_rng := r\<rparr>)))
      else Inr (Next s))"

definition collect_token :: "('w, 'r) host \<Rightarrow> det_env \<Rightarrow> nat \<Rightarrow> ('w, 'r) det \<Rightarrow> ('w, 'r) det flow res" where
  "collect_token h e i s =
     (if \<not> de_non_instrumented e \<and> i mod 8 = 7 then
        let cksum = h_cksum h (d_world s) in
        fbind
          (if i = u32_sub (stage_max s) 1 \<and> cksum = prev_cksum s then
             fbind (collect_char i s) (add_collected h)
           else if cksum \<noteq> prev_cksum s then
             fbind (add_collected h s) (\<lambda>s. Inr (Next (s\<lparr>a_len := 0, prev_cksum := cksum\<rparr>)))
           else Inr (Next s))
          (\<lambda>s. if cksum \<noteq> det_cksum s then collect_char i s else Inr (Next s))
      else Inr (Next s))"

definition det_flip1 :: "('w, 'r) host \<Rightarrow> det_env \<Rightarrow> ('w, 'r) det \<Rightarrow> ('w, 'r) det flow res" where
  "det_flip1 h e s =
     (let s = s\<lparr>stage_short := ''flip1'', stage_max := u32_mul (de_len e) 8, stage_name := ''bitflip 1/1'',
               stage_val_type := STAGE_VAL_NONE, orig_hit_cnt := h_hits h (d_world s)\<rparr> in
      fbind (run_out h e s) (\<lambda>s.
      let c = h_cksum h (d_world s) in
      fbind (walk (\<lambda>i. i div 8) (\<lambda>i. check_pos h e (i div 8) (\<lambda>s.
          fbind (on_out (flip_bits [i]) s) (\<lambda>s.
          fbind (run_out h e s) (\<lambda>s.
          fbind (on_out (flip_bits [i]) s) (collect_token h e i)))))
        (s\<lparr>prev_cksum := c, det_cksum := c\<rparr>))
        (end_stage h STAGE_FLIP1)))"

definition det_flip2 :: "('w, 'r) host \<Rightarrow> det_env \<Rightarrow> ('w, 'r) det \<Rightarrow> ('w, 'r) det flow res" where
  "det_flip2 h e s =
     (let flip = (\<lambda>i. flip_bits [i, u32_add i 1]) in
      fbind (walk (\<lambda>i. i div 8) (\<lambda>i. check_pos h e (i div 8) (\<lambda>s.
          fbind (on_out (flip i) s) (\<lambda>s.
          fbind (run_out h e s) (on_out (flip i)))))
        (begin_stage ''bitflip 2/1'' ''flip2'' (u32_sub (u32_mul (de_len e) 8) 1) s))
        (end_stage h STAGE_FLIP2))"

definition det_flip4 :: "('w, 'r) host \<Rightarrow> det_env \<Rightarrow> ('w, 'r) det \<Rightarrow> ('w, 'r) det flow res" where
  "det_flip4 h e s =
     (let flip = (\<lambda>i. flip_bits [i, u32_add i 1, u32_add i 2, u32_add i 3]) in
      fbind (walk (\<lambda>i. i div 8) (\<lambda>i. check_pos h e (i div 8) (\<lambda>s.
          fbind (on_out (flip i) s) (\<lambda>s.
          fbind (run_out h e s) (on_out (flip i)))))
        (begin_stage ''bitflip 4/1'' ''flip4'' (u32_sub (u32_mul (de_len e) 8) 3) s))
        (end_stage h STAGE_FLIP4))"

definition flip_byte :: "nat \<Rightarrow> bytes \<Rightarrow> bytes res" where
  "flip_byte i b = ebind (load8 b i) (\<lambda>v. store8 b i (v XOR 0xFF))"

text \<open>The stage ends with the statistics of the effector map.\<close>

definition count_eff :: "det_env \<Rightarrow> ('w, 'r) det \<Rightarrow> ('w, 'r) det flow res" where
  "count_eff e s =
     fbind (for_each [0..<de_len e] (\<lambda>i s. ebind (load8 (de_eff e) i) (\<lambda>v.
         if v \<noteq> 0 then Inr (Next (s\<lparr>blocks_eff_select := blocks_eff_select s + 1\<rparr>)) else Inr (Next s))) s)
       (\<lambda>s. Inr (Next (s\<lparr>blocks_eff_total := blocks_eff_total s + word_of_nat (de_len e)\<rparr>)))"

definition det_flip8 :: "('w, 'r) host \<Rightarrow> det_env \<Rightarrow> ('w, 'r) det \<Rightarrow> ('w, 'r) det flow res" where
  "det_flip8 h e s =
     fbind (walk (\<lambda>i. i) (\<lambda>i. check_pos h e i (\<lambda>s.
          fbind (on_out (flip_byte i) s) (\<lambda>s.
          fbind (run_out h e s) (on_out (flip_byte i)))))
        ((begin_stage ''bitflip 8/8'' ''flip8'' (de_len e) s)\<lparr>prev_cksum := det_cksum s\<rparr>)) (\<lambda>s.
      fbind (count_eff e s) (end_stage h STAGE_FLIP8))"

definition flip_half :: "nat \<Rightarrow> bytes \<Rightarrow> bytes res" where
  "flip_half i b = ebind (load16 b i) (\<lambda>v. store16 b i (v XOR 0xFFFF))"

definition det_flip16 :: "('w, 'r) host \<Rightarrow> det_env \<Rightarrow> ('w, 'r) det \<Rightarrow> ('w, 'r) det flow res" where
  "det_flip16 h e s =
     fbind (for_each [0..<u32_sub (de_len e) 1] (\<lambda>i. check_pos h e i (\<lambda>s.
          fbind (on_out (flip_half i) (s\<lparr>stage_cur_byte := i\<rparr>)) (\<lambda>s.
          fbind (run_out h e s) (\<lambda>s.
          fbind (count_value s) (on_out (flip_half i))))))
        (begin_stage ''bitflip 16/8'' ''flip16'' (u32_sub (de_len e) 1) s))
       (end_stage h STAGE_FLIP16)"

definition flip_word :: "nat \<Rightarrow> bytes \<Rightarrow> bytes res" where
  "flip_word i b = ebind (load32 b i) (\<lambda>v. store32 b i (v XOR 0xFFFFFFFF))"

definition det_flip32 :: "('w, 'r) host \<Rightarrow> det_env \<Rightarrow> ('w, 'r) det \<Rightarrow> ('w, 'r) det flow res" where
  "det_flip32 h e s =
     fbind (for_each [0..<u32_sub (de_len e) 3] (\<lambda>i. check_pos h e i (\<lambda>s.
          fbind (on_out (flip_word i) (s\<lparr>stage_cur_byte := i\<rparr>)) (\<lambda>s.
          fbind (run_out h e s) (\<lambda>s.
          fbind (count_value s) (on_out (flip_word i))))))
        (begin_stage ''bitflip 32/8'' ''flip32'' (u32_sub (de_len e) 3) s))
       (end_stage h STAGE_FLIP32)"

section \<open>Arithmetic\<close>

text \<open>
  The filters are evaluated before the guard that the code tests first; they have no effect
  and return for every argument.
\<close>

definition try_arith :: "('w, 'r) host \<Rightarrow> det_env \<Rightarrow> bool \<Rightarrow> u32 \<Rightarrow> val_type \<Rightarrow> int \<Rightarrow> (bytes \<Rightarrow> bytes res) \<Rightarrow>
    ('w, 'r) det \<Rightarrow> ('w, 'r) det flow res" where
  "try_arith h e guard r vt v f s =
     ebind (could_be_bitflip r) (\<lambda>c. attempt h e (\<not> (guard \<and> \<not> c)) vt v f s)"

definition set_val_type :: "val_type \<Rightarrow> ('w, 'r) det \<Rightarrow> ('w, 'r) det" where
  "set_val_type vt s = s\<lparr>stage_val_type := vt\<rparr>"

definition arith8_step :: "('w, 'r) host \<Rightarrow> det_env \<Rightarrow> nat \<Rightarrow> u8 \<Rightarrow> nat \<Rightarrow>
    ('w, 'r) det \<Rightarrow> ('w, 'r) det flow res" where
  "arith8_step h e i orig j s =
     (let p = orig + word_of_nat j; m = orig - word_of_nat j; vt = stage_val_type s in
      fbind (try_arith h e True (ucast (orig XOR p)) vt (int j) (\<lambda>b. store8 b i p) s) (\<lambda>s.
      fbind (try_arith h e True (ucast (orig XOR m)) vt (- int j) (\<lambda>b. store8 b i m) s)
        (on_out (\<lambda>b. store8 b i orig))))"

definition det_arith8 :: "('w, 'r) host \<Rightarrow> det_env \<Rightarrow> ('w, 'r) det \<Rightarrow> ('w, 'r) det flow res" where
  "det_arith8 h e s =
     fbind (for_each [0..<de_len e] (\<lambda>i s. ebind (load8 (out_buf s) i) (\<lambda>orig.
         check_pos h e i (\<lambda>s. for_each [1..<ARITH_MAX + 1] (arith8_step h e i orig) (s\<lparr>stage_cur_byte := i\<rparr>)) s))
        (set_val_type STAGE_VAL_LE
          (begin_stage ''arith 8/8'' ''arith8'' (u32_mul (u32_mul 2 (de_len e)) ARITH_MAX) s)))
       (end_stage h STAGE_ARITH8)"

definition arith16_step :: "('w, 'r) host \<Rightarrow> det_env \<Rightarrow> nat \<Rightarrow> u16 \<Rightarrow> nat \<Rightarrow>
    ('w, 'r) det \<Rightarrow> ('w, 'r) det flow res" where
  "arith16_step h e i orig j s =
     (let d = word_of_nat j :: u16;
          r1 = orig XOR (orig + d); r2 = orig XOR (orig - d);
          r3 = orig XOR SWAP16 (SWAP16 orig + d); r4 = orig XOR SWAP16 (SWAP16 orig - d);
          put = (\<lambda>v b. store16 b i v) in
      fbind (try_arith h e (unat (orig AND 0xff) + j > 0xff) (ucast r1) STAGE_VAL_LE (int j)
        (put (orig + d)) (set_val_type STAGE_VAL_LE s)) (\<lambda>s.
      fbind (try_arith h e (unat (orig AND 0xff) < j) (ucast r2) STAGE_VAL_LE (- int j)
        (put (orig - d)) s) (\<lambda>s.
      fbind (try_arith h e (unat (drop_bit 8 orig) + j > 0xff) (ucast r3) STAGE_VAL_BE (int j)
        (put (SWAP16 (SWAP16 orig + d))) (set_val_type STAGE_VAL_BE s)) (\<lambda>s.
      fbind (try_arith h e (unat (drop_bit 8 orig) < j) (ucast r4) STAGE_VAL_BE (- int j)
        (put (SWAP16 (SWAP16 orig - d))) s)
        (on_out (put orig))))))"

definition det_arith16 :: "('w, 'r) host \<Rightarrow> det_env \<Rightarrow> ('w, 'r) det \<Rightarrow> ('w, 'r) det flow res" where
  "det_arith16 h e s =
     fbind (for_each [0..<u32_sub (de_len e) 1] (\<lambda>i s. ebind (load16 (out_buf s) i) (\<lambda>orig.
         check_pos h e i (\<lambda>s. for_each [1..<ARITH_MAX + 1] (arith16_step h e i orig) (s\<lparr>stage_cur_byte := i\<rparr>)) s))
        (begin_stage ''arith 16/8'' ''arith16'' (u32_mul (u32_mul 4 (u32_sub (de_len e) 1)) ARITH_MAX) s))
       (end_stage h STAGE_ARITH16)"

definition arith32_step :: "('w, 'r) host \<Rightarrow> det_env \<Rightarrow> nat \<Rightarrow> u32 \<Rightarrow> nat \<Rightarrow>
    ('w, 'r) det \<Rightarrow> ('w, 'r) det flow res" where
  "arith32_step h e i orig j s =
     (let d = word_of_nat j :: u32;
          r1 = orig XOR (orig + d); r2 = orig XOR (orig - d);
          r3 = orig XOR SWAP32 (SWAP32 orig + d); r4 = orig XOR SWAP32 (SWAP32 orig - d);
          put = (\<lambda>v b. store32 b i v) in
      fbind (try_arith h e (unat (orig AND 0xffff) + j > 0xffff) r1 STAGE_VAL_LE (int j)
        (put (orig + d)) (set_val_type STAGE_VAL_LE s)) (\<lambda>s.
      fbind (try_arith h e (unat (orig AND 0xffff) < j) r2 STAGE_VAL_LE (- int j)
        (put (orig - d)) s) (\<lambda>s.
      fbind (try_arith h e (unat (SWAP32 orig AND 0xffff) + j > 0xffff) r3 STAGE_VAL_BE (int j)
        (put (SWAP32 (SWAP32 orig + d))) (set_val_type STAGE_VAL_BE s)) (\<lambda>s.
      fbind (try_arith h e (unat (SWAP32 orig AND 0xffff) < j) r4 STAGE_VAL_BE (- int j)
        (put (SWAP32 (SWAP32 orig - d))) s)
        (on_out (put orig))))))"

definition det_arith32 :: "('w, 'r) host \<Rightarrow> det_env \<Rightarrow> ('w, 'r) det \<Rightarrow> ('w, 'r) det flow res" where
  "det_arith32 h e s =
     fbind (for_each [0..<u32_sub (de_len e) 3] (\<lambda>i s. ebind (load32 (out_buf s) i) (\<lambda>orig.
         check_pos h e i (\<lambda>s. for_each [1..<ARITH_MAX + 1] (arith32_step h e i orig) (s\<lparr>stage_cur_byte := i\<rparr>)) s))
        (begin_stage ''arith 32/8'' ''arith32'' (u32_mul (u32_mul 4 (u32_sub (de_len e) 3)) ARITH_MAX) s))
       (end_stage h STAGE_ARITH32)"

section \<open>Interesting values\<close>

definition interest8_step :: "('w, 'r) host \<Rightarrow> det_env \<Rightarrow> nat \<Rightarrow> u8 \<Rightarrow> int \<Rightarrow>
    ('w, 'r) det \<Rightarrow> ('w, 'r) det flow res" where
  "interest8_step h e i orig v s =
     (let w = word_of_int v :: u8 in
      ebind (could_be_bitflip (ucast (orig XOR w))) (\<lambda>c.
        if c \<or> could_be_arith (ucast orig) (ucast w) 1 then skip_value s
        else fbind (on_out (\<lambda>b. store8 b i w) (s\<lparr>stage_cur_val := v\<rparr>)) (\<lambda>s.
             fbind (run_out h e s) (\<lambda>s.
             fbind (on_out (\<lambda>b. store8 b i orig) s) count_value))))"

definition det_interest8 :: "('w, 'r) host \<Rightarrow> det_env \<Rightarrow> ('w, 'r) det \<Rightarrow> ('w, 'r) det flow res" where
  "det_interest8 h e s =
     fbind (for_each [0..<de_len e] (\<lambda>i s. ebind (load8 (out_buf s) i) (\<lambda>orig.
         check_pos h e i (\<lambda>s. for_each interesting_8 (interest8_step h e i orig) (s\<lparr>stage_cur_byte := i\<rparr>)) s))
        (set_val_type STAGE_VAL_LE
          (begin_stage ''interest 8/8'' ''int8'' (u32_mul (de_len e) (length interesting_8)) s)))
       (end_stage h STAGE_INTEREST8)"

text \<open>A value of a wider stage; \<open>guard\<close> is the comparison with its other byte order.\<close>

definition try_interest :: "('w, 'r) host \<Rightarrow> det_env \<Rightarrow> bool \<Rightarrow> u32 \<Rightarrow> u32 \<Rightarrow> nat \<Rightarrow> bool \<Rightarrow> val_type \<Rightarrow> int \<Rightarrow>
    (bytes \<Rightarrow> bytes res) \<Rightarrow> ('w, 'r) det \<Rightarrow> ('w, 'r) det flow res" where
  "try_interest h e guard orig w blen check_le vt v f s =
     ebind (could_be_bitflip (orig XOR w)) (\<lambda>c.
       attempt h e (\<not> (guard \<and> \<not> c \<and> \<not> could_be_arith orig w blen \<and> \<not> could_be_interest orig w blen check_le))
         vt v f s)"

definition interest16_step :: "('w, 'r) host \<Rightarrow> det_env \<Rightarrow> nat \<Rightarrow> u16 \<Rightarrow> int \<Rightarrow>
    ('w, 'r) det \<Rightarrow> ('w, 'r) det flow res" where
  "interest16_step h e i orig v s =
     (let w = word_of_int v :: u16 in
      fbind (try_interest h e True (ucast orig) (ucast w) 2 False STAGE_VAL_LE v
        (\<lambda>b. store16 b i w) (s\<lparr>stage_cur_val := v\<rparr>))
        (try_interest h e (w \<noteq> SWAP16 w) (ucast orig) (ucast (SWAP16 w)) 2 True STAGE_VAL_BE v
          (\<lambda>b. store16 b i (SWAP16 w))))"

definition det_interest16 :: "('w, 'r) host \<Rightarrow> det_env \<Rightarrow> ('w, 'r) det \<Rightarrow> ('w, 'r) det flow res" where
  "det_interest16 h e s =
     fbind (for_each [0..<u32_sub (de_len e) 1] (\<lambda>i s. ebind (load16 (out_buf s) i) (\<lambda>orig.
         check_pos h e i (\<lambda>s. fbind (for_each interesting_16 (interest16_step h e i orig) (s\<lparr>stage_cur_byte := i\<rparr>))
           (on_out (\<lambda>b. store16 b i orig))) s))
        (begin_stage ''interest 16/8'' ''int16''
          (u32_mul (u32_mul 2 (u32_sub (de_len e) 1)) (length interesting_16)) s))
       (end_stage h STAGE_INTEREST16)"

definition interest32_step :: "('w, 'r) host \<Rightarrow> det_env \<Rightarrow> nat \<Rightarrow> u32 \<Rightarrow> int \<Rightarrow>
    ('w, 'r) det \<Rightarrow> ('w, 'r) det flow res" where
  "interest32_step h e i orig v s =
     (let w = word_of_int v :: u32 in
      fbind (try_interest h e True orig w 4 False STAGE_VAL_LE v
        (\<lambda>b. store32 b i w) (s\<lparr>stage_cur_val := v\<rparr>))
        (try_interest h e (w \<noteq> SWAP32 w) orig (SWAP32 w) 4 True STAGE_VAL_BE v
          (\<lambda>b. store32 b i (SWAP32 w))))"

definition det_interest32 :: "('w, 'r) host \<Rightarrow> det_env \<Rightarrow> ('w, 'r) det \<Rightarrow> ('w, 'r) det flow res" where
  "det_interest32 h e s =
     fbind (for_each [0..<u32_sub (de_len e) 3] (\<lambda>i s. ebind (load32 (out_buf s) i) (\<lambda>orig.
         check_pos h e i (\<lambda>s. fbind (for_each interesting_32 (interest32_step h e i orig) (s\<lparr>stage_cur_byte := i\<rparr>))
           (on_out (\<lambda>b. store32 b i orig))) s))
        (begin_stage ''interest 32/8'' ''int32''
          (u32_mul (u32_mul 2 (u32_sub (de_len e) 3)) (length interesting_32)) s))
       (end_stage h STAGE_INTEREST32)"

section \<open>Dictionary tokens\<close>

text \<open>\<open>memcmp(x, b + i, len) == 0\<close>.\<close>

definition same_at :: "bytes \<Rightarrow> nat \<Rightarrow> bytes \<Rightarrow> bool res" where
  "same_at b i x = (if i + length x \<le> length b then Inr (take (length x) (drop i b) = x) else Inl Fault)"

text \<open>The last two tests of the loop body, which the two dictionaries share.\<close>

definition overwrite_token :: "('w, 'r) host \<Rightarrow> det_env \<Rightarrow> nat \<Rightarrow> bytes \<Rightarrow>
    ('w, 'r) det \<Rightarrow> ('w, 'r) det flow res" where
  "overwrite_token h e i x s =
     (if length x > de_len e - i then skip_value s
      else ebind (same_at (out_buf s) i x) (\<lambda>eq.
        if eq then skip_value s
        else fbind (on_out (\<lambda>b. memcpy b i x 0 (length x)) (s\<lparr>last_len := length x\<rparr>)) (\<lambda>s.
             fbind (run_out h e s) count_value)))"

definition drop_by_chance :: "('w, 'r) host \<Rightarrow> det_env \<Rightarrow> ('w, 'r) det \<Rightarrow> (bool \<times> ('w, 'r) det) res" where
  "drop_by_chance h e s =
     (let cnt = length (d_extras (d_dict s)) in
      if cnt > de_max_det_extras e then
        ebind (h_rand h cnt (d_rng s)) (\<lambda>(v, r). Inr (v \<ge> de_max_det_extras e, s\<lparr>d_rng := r\<rparr>))
      else Inr (False, s))"

definition restore_clobbered :: "det_env \<Rightarrow> nat \<Rightarrow> ('w, 'r) det \<Rightarrow> ('w, 'r) det flow res" where
  "restore_clobbered e i s = on_out (\<lambda>b. memcpy b i (de_in_buf e) i (last_len s)) s"

definition det_extras_over :: "('w, 'r) host \<Rightarrow> det_env \<Rightarrow> ('w, 'r) det \<Rightarrow> ('w, 'r) det flow res" where
  "det_extras_over h e s =
     (let xs = d_extras (d_dict s) in
      fbind (for_each [0..<de_len e] (\<lambda>i s. check_pos h e i (\<lambda>s.
          fbind (for_each xs (\<lambda>x s. ebind (drop_by_chance h e s) (\<lambda>(gone, s).
            if gone then skip_value s else overwrite_token h e i x s)) (s\<lparr>stage_cur_byte := i\<rparr>))
            (restore_clobbered e i)) (s\<lparr>last_len := 0\<rparr>))
        (set_val_type STAGE_VAL_NONE
          (begin_stage ''user extras (over)'' ''ext_UO'' (u32_mul (length xs) (de_len e)) s)))
        (end_stage h STAGE_EXTRAS_UO))"

definition det_auto_over :: "('w, 'r) host \<Rightarrow> det_env \<Rightarrow> ('w, 'r) det \<Rightarrow> ('w, 'r) det flow res" where
  "det_auto_over h e s =
     (let xs = take USE_AUTO_EXTRAS (map ae_data (d_a_extras (d_dict s))) in
      fbind (for_each [0..<de_len e] (\<lambda>i s. check_pos h e i (\<lambda>s.
          fbind (for_each xs (overwrite_token h e i) (s\<lparr>stage_cur_byte := i\<rparr>))
            (restore_clobbered e i)) (s\<lparr>last_len := 0\<rparr>))
        (set_val_type STAGE_VAL_NONE
          (begin_stage ''auto extras (over)'' ''ext_AO'' (u32_mul (length xs) (de_len e)) s)))
        (end_stage h STAGE_EXTRAS_AO))"

text \<open>
  The buffer \<open>ex_tmp\<close> of the insertion stages: the token and the tail of the test case are copied
  behind the position, and the byte at the position is copied when the position is left.
\<close>

definition with_ex :: "(bytes \<Rightarrow> bytes res) \<Rightarrow> ('w, 'r) det \<Rightarrow> ('w, 'r) det flow res" where
  "with_ex f s = ebind (f (contents (ex_buf s))) (\<lambda>b. Inr (Next (s\<lparr>ex_buf := Some b\<rparr>)))"

definition insert_token :: "('w, 'r) host \<Rightarrow> det_env \<Rightarrow> nat \<Rightarrow> bytes \<Rightarrow>
    ('w, 'r) det \<Rightarrow> ('w, 'r) det flow res" where
  "insert_token h e i x s =
     (if de_len e + length x > MAX_FILE then skip_value s
      else fbind (with_ex (\<lambda>t. memcpy t i x 0 (length x)) s) (\<lambda>s.
           fbind (with_ex (\<lambda>t. memcpy t (i + length x) (out_buf s) i (de_len e - i)) s) (\<lambda>s.
           fbind (run_case h (contents (ex_buf s)) (de_len e + length x) s) count_value)))"

definition copy_head :: "nat \<Rightarrow> ('w, 'r) det \<Rightarrow> ('w, 'r) det flow res" where
  "copy_head i s = ebind (load8 (out_buf s) i) (\<lambda>v. with_ex (\<lambda>t. store8 t i v) s)"

text \<open>A failing \<open>afl_realloc\<close> ends the process.\<close>

definition grow_ex :: "('w, 'r) host \<Rightarrow> det_env \<Rightarrow> ('w, 'r) det \<Rightarrow> ('w, 'r) det flow res" where
  "grow_ex h e s =
     (case afl_realloc (h_alloc_ok h) (ex_buf s) (de_len e + MAX_DICT_FILE) of
        None \<Rightarrow> Inl Fatal
      | Some b \<Rightarrow> Inr (Next (s\<lparr>ex_buf := Some b\<rparr>)))"

definition insert_all :: "('w, 'r) host \<Rightarrow> det_env \<Rightarrow> bytes list \<Rightarrow> ('w, 'r) det \<Rightarrow> ('w, 'r) det flow res" where
  "insert_all h e xs =
     for_each [0..<de_len e + 1] (\<lambda>i. check_pos h e (i mod de_len e) (\<lambda>s.
       fbind (for_each xs (insert_token h e i) (s\<lparr>stage_cur_byte := i\<rparr>)) (copy_head i)))"

definition det_extras_insert :: "('w, 'r) host \<Rightarrow> det_env \<Rightarrow> ('w, 'r) det \<Rightarrow> ('w, 'r) det flow res" where
  "det_extras_insert h e s =
     (let xs = d_extras (d_dict s) in
      fbind (grow_ex h e (begin_stage ''user extras (insert)'' ''ext_UI'' (u32_mul (length xs) (u32_add (de_len e) 1)) s)) (\<lambda>s.
      fbind (insert_all h e xs s) (end_stage h STAGE_EXTRAS_UI)))"

definition det_auto_insert :: "('w, 'r) host \<Rightarrow> det_env \<Rightarrow> ('w, 'r) det \<Rightarrow> ('w, 'r) det flow res" where
  "det_auto_insert h e s =
     (let xs = map ae_data (d_a_extras (d_dict s)) in
      fbind (grow_ex h e (begin_stage ''auto extras (insert)'' ''ext_AI'' (u32_mul (length xs) (u32_add (de_len e) 1)) s)) (\<lambda>s.
      fbind (insert_all h e xs s) (end_stage h STAGE_EXTRAS_AI)))"

section \<open>The stages in order\<close>

definition if_stage :: "bool \<Rightarrow> (('w, 'r) det \<Rightarrow> ('w, 'r) det flow res) \<Rightarrow> ('w, 'r) det \<Rightarrow> ('w, 'r) det flow res" where
  "if_stage c f s = (if c then f s else Inr (Next s))"

definition det_bitflips :: "('w, 'r) host \<Rightarrow> det_env \<Rightarrow> ('w, 'r) det \<Rightarrow> ('w, 'r) det flow res" where
  "det_bitflips h e s =
     fbind (det_flip1 h e s) (\<lambda>s.
     fbind (det_flip2 h e s) (\<lambda>s.
     fbind (det_flip4 h e s) (\<lambda>s.
     fbind (det_flip8 h e s) (if_stage (2 \<le> de_len e) (\<lambda>s.
     fbind (det_flip16 h e s) (if_stage (4 \<le> de_len e) (det_flip32 h e)))))))"

definition det_ariths :: "('w, 'r) host \<Rightarrow> det_env \<Rightarrow> ('w, 'r) det \<Rightarrow> ('w, 'r) det flow res" where
  "det_ariths h e = if_stage (\<not> de_no_arith e) (\<lambda>s.
     fbind (det_arith8 h e s) (if_stage (2 \<le> de_len e) (\<lambda>s.
     fbind (det_arith16 h e s) (if_stage (4 \<le> de_len e) (det_arith32 h e)))))"

definition det_interests :: "('w, 'r) host \<Rightarrow> det_env \<Rightarrow> ('w, 'r) det \<Rightarrow> ('w, 'r) det flow res" where
  "det_interests h e s =
     fbind (det_interest8 h e s) (if_stage (\<not> de_no_arith e \<and> 2 \<le> de_len e) (\<lambda>s.
     fbind (det_interest16 h e s) (if_stage (4 \<le> de_len e) (det_interest32 h e))))"

definition det_extras :: "('w, 'r) host \<Rightarrow> det_env \<Rightarrow> ('w, 'r) det \<Rightarrow> ('w, 'r) det flow res" where
  "det_extras h e s =
     fbind (if_stage (d_extras (d_dict s) \<noteq> []) (\<lambda>s.
       fbind (det_extras_over h e s) (det_extras_insert h e)) s) (\<lambda>s.
     if_stage (d_a_extras (d_dict s) \<noteq> []) (\<lambda>s.
       fbind (det_auto_over h e s) (det_auto_insert h e)) s)"

definition deterministic_stages :: "('w, 'r) host \<Rightarrow> det_env \<Rightarrow> ('w, 'r) det \<Rightarrow> ('w, 'r) det flow res" where
  "deterministic_stages h e s =
     fbind (det_bitflips h e s) (\<lambda>s.
     fbind (det_ariths h e s) (\<lambda>s.
     fbind (det_interests h e s) (\<lambda>s.
     fbind (det_extras h e s) (\<lambda>s. Inr (Next (s\<lparr>passed_det := True\<rparr>))))))"

end
