(* ===== verification/AFL_DetLemmas.thy ===== *)
theory AFL_DetLemmas
  imports AFL_DetStages AFL_DetFilterProps AFL_ExtrasProps
begin

text \<open>
  Proof rules for the deterministic stages. \<open>fpost\<close> is the postcondition of a computation with
  several exits; \<open>ran\<close> says what a piece of a stage has executed and that it has put the test case
  back; \<open>acct\<close> relates the stage's two counters to the executions.
\<close>

section \<open>Postconditions\<close>

definition fpost :: "'s flow res \<Rightarrow> ('s \<Rightarrow> bool) \<Rightarrow> ('s \<Rightarrow> bool) \<Rightarrow> bool" where
  "fpost m N C = (case m of Inl e \<Rightarrow> e \<noteq> Fault
     | Inr fl \<Rightarrow> (case fl of Next s \<Rightarrow> N s | Custom s \<Rightarrow> C s | Abandon s \<Rightarrow> True))"

lemma fpost_simps [simp]:
  "fpost (Inr (Next s)) N C = N s" "fpost (Inr (Custom s)) N C = C s" "fpost (Inr (Abandon s)) N C"
  "fpost (Inl e) N C = (e \<noteq> Fault)"
  by (simp_all add: fpost_def)

lemma fbind_simps [simp]:
  "fbind (Inr (Next s)) f = f s" "fbind (Inr (Custom s)) f = Inr (Custom s)"
  "fbind (Inr (Abandon s)) f = Inr (Abandon s)" "fbind (Inl e) f = Inl e"
  by (simp_all add: fbind_def)

lemma fpost_fbind:
  assumes "fpost m P C" "\<And>s. P s \<Longrightarrow> fpost (f s) N C"
  shows "fpost (fbind m f) N C"
proof (cases m)
  case (Inr fl)
  with assms show ?thesis by (cases fl) auto
qed (use assms(1) in simp)

lemma fpost_mono:
  assumes "fpost m P C" "\<And>s. P s \<Longrightarrow> N s" "\<And>s. C s \<Longrightarrow> D s"
  shows "fpost m N D"
proof (cases m)
  case (Inr fl)
  with assms show ?thesis by (cases fl) auto
qed (use assms(1) in simp)

lemma fbind_assoc: "fbind (fbind m f) g = fbind m (\<lambda>s. fbind (f s) g)"
proof (cases m)
  case (Inr fl)
  then show ?thesis by (cases fl) simp_all
qed simp

text \<open>The invariant of a loop speaks about the values that the counter still has to take.\<close>

lemma for_each_inv:
  assumes "\<And>x ys s. set (x # ys) \<subseteq> set xs \<Longrightarrow> I (x # ys) s \<Longrightarrow> fpost (body x s) (I ys) C" "I xs s"
  shows "fpost (for_each xs body s) (I []) C"
  using assms
proof (induction xs arbitrary: s)
  case (Cons x xs)
  have "fpost (body x s) (I xs) C" by (rule Cons.prems(1)) (use Cons.prems(2) in auto)
  moreover have "fpost (for_each xs body t) (I []) C" if "I xs t" for t
    by (rule Cons.IH) (use Cons.prems(1) that in auto)
  ultimately show ?case by (auto intro: fpost_fbind)
qed simp

section \<open>What a piece of a stage does\<close>

text \<open>\<open>lg\<close> reads the list of all test cases executed so far from the world.\<close>

definition records :: "('w, 'r) host \<Rightarrow> ('w \<Rightarrow> bytes list) \<Rightarrow> bool" where
  "records h lg \<longleftrightarrow> (\<forall>b w. lg (snd (h_fuzz h b w)) = lg w @ [b]) \<and> (\<forall>w. lg (snd (h_timeout h w)) = lg w)"

definition ran :: "('w, 'r) host \<Rightarrow> ('w \<Rightarrow> bytes list) \<Rightarrow> bytes list \<Rightarrow> ('w, 'r) det \<Rightarrow> ('w, 'r) det \<Rightarrow> bool" where
  "ran h lg L s s' \<longleftrightarrow> (records h lg \<longrightarrow> lg (d_world s') = lg (d_world s) @ L) \<and>
     out_buf s' = out_buf s \<and> d_dict s' = d_dict s \<and> ex_buf s' = ex_buf s \<and> a_collect s' = a_collect s"

lemma ran_refl: "ran h lg [] s s"
  by (simp add: ran_def)

lemma ran_trans: "ran h lg K s t \<Longrightarrow> ran h lg L t u \<Longrightarrow> ran h lg (K @ L) s u"
  by (simp add: ran_def)

definition acct :: "nat \<Rightarrow> nat \<Rightarrow> ('w, 'r) det \<Rightarrow> ('w, 'r) det \<Rightarrow> bool" where
  "acct n k s s' \<longleftrightarrow> (word_of_nat (stage_cur s') :: u32) = word_of_nat (stage_cur s) + word_of_nat k \<and>
     (word_of_nat (stage_max s') :: u32) + word_of_nat n = word_of_nat (stage_max s) + word_of_nat k"

lemma acct_refl: "acct 0 0 s s"
  by (simp add: acct_def)

lemma acct_trans: "acct m j s t \<Longrightarrow> acct n k t u \<Longrightarrow> acct (m + n) (j + k) s u"
  by (auto simp: acct_def algebra_simps)

lemma for_each_ran:
  assumes "\<And>x s. x \<in> set xs \<Longrightarrow> out_buf s = B \<Longrightarrow> fpost (body x s) (ran h lg (L x) s) (\<lambda>s'. out_buf s' = B)"
    and "out_buf s = B"
  shows "fpost (for_each xs body s) (ran h lg (concat (map L xs)) s) (\<lambda>s'. out_buf s' = B)"
  using assms
proof (induction xs arbitrary: s)
  case (Cons x xs)
  have 1: "fpost (body x s) (ran h lg (L x) s) (\<lambda>s'. out_buf s' = B)" using Cons.prems by simp
  have 2: "fpost (for_each xs body t) (ran h lg (concat (map L xs)) t) (\<lambda>s'. out_buf s' = B)" if "out_buf t = B" for t
    by (rule Cons.IH) (use Cons.prems(1) that in auto)
  show ?case
    by (simp, rule fpost_fbind [OF 1], rule fpost_mono [OF 2])
      (use Cons.prems(2) in \<open>auto simp: ran_def\<close>)
qed (simp add: ran_refl)

lemma for_each_acct:
  assumes "\<And>x s. x \<in> set xs \<Longrightarrow> I s \<Longrightarrow> fpost (body x s) (\<lambda>s'. I s' \<and> acct (n x) (k x) s s') C"
    and "I s"
  shows "fpost (for_each xs body s) (\<lambda>s'. I s' \<and> acct (sum_list (map n xs)) (sum_list (map k xs)) s s') C"
  using assms
proof (induction xs arbitrary: s)
  case (Cons x xs)
  have 1: "fpost (body x s) (\<lambda>s'. I s' \<and> acct (n x) (k x) s s') C" using Cons.prems by simp
  have 2: "fpost (for_each xs body t) (\<lambda>s'. I s' \<and> acct (sum_list (map n xs)) (sum_list (map k xs)) t s') C" if "I t" for t
    by (rule Cons.IH) (use Cons.prems(1) that in auto)
  show ?case
    by (simp, rule fpost_fbind [OF 1], rule fpost_mono [OF 2]) (auto intro: acct_trans)
qed (simp add: acct_refl)

section \<open>The shared parts\<close>

lemma run_case_ran:
  assumes "n \<le> length buf"
  shows "fpost (run_case h buf n s) (\<lambda>s'. \<exists>w. s' = s\<lparr>d_world := w\<rparr> \<and> (records h lg \<longrightarrow> lg w = lg (d_world s) @ [take n buf])) C"
proof -
  obtain stop w where hw: "h_fuzz h (take n buf) (d_world s) = (stop, w)" by fastforce
  have "records h lg \<longrightarrow> lg w = lg (d_world s) @ [take n buf]"
    using hw by (auto simp: records_def dest: spec [of _ "take n buf"] split: prod.splits) (metis snd_conv)
  then show ?thesis using assms hw by (auto simp: run_case_def)
qed

lemma check_pos_rule:
  assumes "i < length (de_eff e)" "de_eff e ! i = 0 \<Longrightarrow> N s" "\<And>w. C (s\<lparr>d_world := w\<rparr>)"
    and "\<And>w. (records h lg \<longrightarrow> lg w = lg (d_world s)) \<Longrightarrow> de_eff e ! i \<noteq> 0 \<Longrightarrow> fpost (k (s\<lparr>d_world := w\<rparr>)) N C"
  shows "fpost (check_pos h e i k s) N C"
proof -
  obtain late w where hw: "h_timeout h (d_world s) = (late, w)" by fastforce
  then have "records h lg \<longrightarrow> lg w = lg (d_world s)" by (metis records_def snd_conv)
  with assms hw show ?thesis by (simp add: check_pos_def mem_ok)
qed

lemma check_pos_ran:
  assumes "i < length (de_eff e)" and B: "out_buf s = B"
    and k: "\<And>w. fpost (k (s\<lparr>d_world := w\<rparr>)) (ran h lg L (s\<lparr>d_world := w\<rparr>)) (\<lambda>s'. out_buf s' = B)"
  shows "fpost (check_pos h e i k s) (ran h lg (if de_eff e ! i = 0 then [] else L) s) (\<lambda>s'. out_buf s' = B)"
  by (rule check_pos_rule [where lg = lg])
    (use assms in \<open>auto simp: ran_refl intro!: fpost_mono [OF k] simp: ran_def\<close>)

text \<open>The environment of the stages for a test case \<open>B\<close>; the buffer may be longer than the test case.\<close>

definition det_ok :: "det_env \<Rightarrow> bytes \<Rightarrow> bool" where
  "det_ok e B \<longleftrightarrow> 0 < de_len e \<and> de_len e \<le> MAX_FILE \<and> de_len e \<le> length B \<and> length (de_eff e) = de_len e"

lemma det_okD:
  assumes "det_ok e B"
  shows "0 < de_len e" "de_len e \<le> 1048576" "de_len e \<le> length B" "length (de_eff e) = de_len e"
  using assms by (auto simp: det_ok_def MAX_FILE_def)

definition visits :: "det_env \<Rightarrow> (nat \<Rightarrow> nat) \<Rightarrow> (nat \<Rightarrow> bytes list) \<Rightarrow> nat \<Rightarrow> bytes list" where
  "visits e pos L n = concat (map (\<lambda>i. if de_eff e ! pos i = 0 then [] else L i) [0..<n])"

lemma set_visits: "set (visits e pos L n) = (\<Union>i\<in>{i. i < n \<and> de_eff e ! pos i \<noteq> 0}. set (L i))"
  by (auto simp: visits_def split: if_splits)

text \<open>A change that undoes itself.\<close>

lemma flip_and_run:
  assumes "out_buf s = B" "f B = Inr B'" "f B' = Inr B" "length B' = length B" "de_len e \<le> length B"
  shows "fpost (fbind (on_out f s) (\<lambda>s. fbind (run_out h e s) (on_out f)))
    (ran h lg [take (de_len e) B'] s) (\<lambda>s'. out_buf s' = B)"
proof -
  let ?s = "s\<lparr>out_buf := B'\<rparr>"
  have run: "fpost (run_out h e ?s) (\<lambda>s'. \<exists>w. s' = ?s\<lparr>d_world := w\<rparr> \<and>
      (records h lg \<longrightarrow> lg w = lg (d_world ?s) @ [take (de_len e) B'])) (\<lambda>s'. out_buf s' = B)"
    unfolding run_out_def using run_case_ran [of "de_len e" B' h ?s] assms by simp
  have "fpost (fbind (run_out h e ?s) (on_out f)) (ran h lg [take (de_len e) B'] s) (\<lambda>s'. out_buf s' = B)"
    by (rule fpost_fbind [OF run]) (use assms in \<open>auto simp: on_out_def ran_def\<close>)
  then show ?thesis using assms by (simp add: on_out_def)
qed

lemma walk_ran:
  assumes body: "\<And>i s. i < n \<Longrightarrow> out_buf s = B \<Longrightarrow> fpost (body i s) (ran h lg (L i) s) (\<lambda>s'. out_buf s' = B)"
    and "out_buf s = B" "stage_max s = n"
  shows "fpost (walk byte_of body s) (ran h lg (concat (map L [0..<n])) s) (\<lambda>s'. out_buf s' = B)"
proof -
  have "fpost (for_each [0..<n] (\<lambda>i s. body i (s\<lparr>stage_cur := i, stage_cur_byte := byte_of i\<rparr>)) s)
      (ran h lg (concat (map L [0..<n])) s) (\<lambda>s'. out_buf s' = B)"
  proof (rule for_each_ran)
    fix i :: nat and s :: "('a, 'b) det"
    assume "i \<in> set [0..<n]" "out_buf s = B"
    then have "fpost (body i (s\<lparr>stage_cur := i, stage_cur_byte := byte_of i\<rparr>))
        (ran h lg (L i) (s\<lparr>stage_cur := i, stage_cur_byte := byte_of i\<rparr>)) (\<lambda>s'. out_buf s' = B)"
      by (intro body) auto
    then show "fpost (body i (s\<lparr>stage_cur := i, stage_cur_byte := byte_of i\<rparr>)) (ran h lg (L i) s) (\<lambda>s'. out_buf s' = B)"
      by (rule fpost_mono) (auto simp: ran_def)
  qed (rule assms(2))
  then show ?thesis unfolding walk_def assms(3)
    by (rule fpost_fbind) (auto simp: ran_def)
qed

lemma end_stage_ran: "fpost (end_stage h st s) (ran h lg [] s) C"
  by (simp add: end_stage_def ran_def Let_def)

lemma begin_stage_simps [simp]:
  "out_buf (begin_stage a b m s) = out_buf s" "stage_max (begin_stage a b m s) = m"
  "stage_cur (begin_stage a b m s) = 0" "d_world (begin_stage a b m s) = d_world s"
  "d_dict (begin_stage a b m s) = d_dict s" "ex_buf (begin_stage a b m s) = ex_buf s"
  "d_rng (begin_stage a b m s) = d_rng s" "a_collect (begin_stage a b m s) = a_collect s" "new_hit_cnt (begin_stage a b m s) = new_hit_cnt s"
  by (simp_all add: begin_stage_def)

text \<open>A stage is a piece between its first and its last assignments.\<close>

lemma stage_ran:
  assumes "fpost (m t) (ran h lg L t) (\<lambda>s'. out_buf s' = B)"
    and "out_buf t = out_buf s" "d_world t = d_world s" "d_dict t = d_dict s" "ex_buf t = ex_buf s"
    and "a_collect t = a_collect s"
  shows "fpost (fbind (m t) (end_stage h st)) (ran h lg L s) (\<lambda>s'. out_buf s' = B)"
  by (rule fpost_fbind [OF assms(1)], rule fpost_mono [OF end_stage_ran [of h st _ lg]])
    (use assms(2-) in \<open>auto simp: ran_def\<close>)

section \<open>Flips\<close>

definition xbit :: "nat \<Rightarrow> bytes \<Rightarrow> bytes" where
  "xbit i b = b[i div 8 := b ! (i div 8) XOR drop_bit (i mod 8) 128]"

lemma length_xbit [simp]: "length (xbit i b) = length b"
  by (simp add: xbit_def)

lemma xbit_xbit: "xbit i (xbit i b) = b"
  by (cases "i div 8 < length b") (simp_all add: xbit_def xor.assoc list_update_beyond)

lemma xbit_commute: "xbit i (xbit j b) = xbit j (xbit i b)"
proof (cases "i div 8 = j div 8")
  case True
  then show ?thesis
    by (cases "i div 8 < length b") (simp_all add: xbit_def ac_simps list_update_beyond)
next
  case False
  then show ?thesis by (simp add: xbit_def list_update_swap)
qed

lemma fold_xbit_commute: "fold xbit is (xbit i b) = xbit i (fold xbit is b)"
proof (induction "is" arbitrary: b)
  case (Cons k ks)
  have "fold xbit (k # ks) (xbit i b) = fold xbit ks (xbit i (xbit k b))" by (simp add: xbit_commute [of k i])
  then show ?case by (simp add: Cons.IH)
qed simp

lemma fold_xbit_twice: "fold xbit is (fold xbit is b) = b"
  by (induction "is" arbitrary: b) (auto simp: fold_xbit_commute xbit_xbit)

lemma length_fold_xbit [simp]: "length (fold xbit is b) = length b"
  by (induction "is" arbitrary: b) auto

lemma flip_bits_eq: "\<forall>i\<in>set is. i div 8 < length b \<Longrightarrow> flip_bits is b = Inr (fold xbit is b)"
  by (induction "is" arbitrary: b) (auto simp: FLIP_BIT_def xbit_def mem_ok)

lemma flip_bits_run:
  assumes "\<forall>i\<in>set is. i div 8 < de_len e" "out_buf s = B" "det_ok e B"
  shows "fpost (fbind (on_out (flip_bits is) s) (\<lambda>s. fbind (run_out h e s) (on_out (flip_bits is))))
    (ran h lg [take (de_len e) (fold xbit is B)] s) (\<lambda>s'. out_buf s' = B)"
  by (rule flip_and_run)
    (use assms det_okD [OF assms(3)] in \<open>auto simp: fold_xbit_twice intro!: flip_bits_eq trans [OF flip_bits_eq]\<close>)

definition flip_cases :: "det_env \<Rightarrow> bytes \<Rightarrow> nat \<Rightarrow> bytes list" where
  "flip_cases e B k = visits e (\<lambda>i. i div 8) (\<lambda>i. [take (de_len e) (fold xbit [i..<i + k] B)]) (8 * de_len e - (k - 1))"

lemma upt_2_4: "[i..<i + 2] = [i, i + 1]" "[i..<i + 4] = [i, i + 1, i + 2, i + 3]"
  by (simp_all add: upt_conv_Cons eval_nat_numeral)

lemma det_flip2_ran:
  assumes e: "det_ok e B" and B: "out_buf s = B"
  shows "fpost (det_flip2 h e s) (ran h lg (flip_cases e B 2) s) (\<lambda>s'. out_buf s' = B)"
proof -
  note ok = det_okD [OF e]
  have mx: "u32_sub (u32_mul (de_len e) 8) 1 = 8 * de_len e - 1"
    using ok by (simp add: u32_mul_def)
  show ?thesis
    unfolding det_flip2_def Let_def mx flip_cases_def visits_def
  proof (rule stage_ran, rule walk_ran [OF check_pos_ran])
    fix i :: nat and w and s :: "('a, 'b) det"
    assume i: "i < 8 * de_len e - (2 - 1)" and s: "out_buf s = B"
    have ii: "[i, u32_add i 1] = [i..<i + 2]" using i ok by (simp add: upt_2_4)
    show "fpost (fbind (on_out (flip_bits [i, u32_add i 1]) (s\<lparr>d_world := w\<rparr>))
         (\<lambda>s. fbind (run_out h e s) (on_out (flip_bits [i, u32_add i 1]))))
        (ran h lg [take (de_len e) (fold xbit [i..<i + 2] B)] (s\<lparr>d_world := w\<rparr>)) (\<lambda>s'. out_buf s' = B)"
      unfolding ii by (rule flip_bits_run) (use i s e in auto)
    show "i div 8 < length (de_eff e)" using i ok by simp
  qed (use B in auto)
qed

lemma det_flip4_ran:
  assumes e: "det_ok e B" and B: "out_buf s = B"
  shows "fpost (det_flip4 h e s) (ran h lg (flip_cases e B 4) s) (\<lambda>s'. out_buf s' = B)"
proof -
  note ok = det_okD [OF e]
  have mx: "u32_sub (u32_mul (de_len e) 8) 3 = 8 * de_len e - 3"
    using ok by (simp add: u32_mul_def)
  show ?thesis
    unfolding det_flip4_def Let_def mx flip_cases_def visits_def
  proof (rule stage_ran, rule walk_ran [OF check_pos_ran])
    fix i :: nat and w and s :: "('a, 'b) det"
    assume i: "i < 8 * de_len e - (4 - 1)" and s: "out_buf s = B"
    have ii: "[i, u32_add i 1, u32_add i 2, u32_add i 3] = [i..<i + 4]"
      using i ok by (simp add: upt_2_4)
    show "fpost (fbind (on_out (flip_bits [i, u32_add i 1, u32_add i 2, u32_add i 3]) (s\<lparr>d_world := w\<rparr>))
         (\<lambda>s. fbind (run_out h e s) (on_out (flip_bits [i, u32_add i 1, u32_add i 2, u32_add i 3]))))
        (ran h lg [take (de_len e) (fold xbit [i..<i + 4] B)] (s\<lparr>d_world := w\<rparr>)) (\<lambda>s'. out_buf s' = B)"
      unfolding ii by (rule flip_bits_run) (use i s e in auto)
    show "i div 8 < length (de_eff e)" using i ok by simp
  qed (use B in auto)
qed

text \<open>Reading and writing 16 and 32 bits, as functions.\<close>

definition get16 :: "bytes \<Rightarrow> nat \<Rightarrow> u16" where
  "get16 b i = ucast (b ! i) OR push_bit 8 (ucast (b ! (i + 1)))"

definition put16 :: "bytes \<Rightarrow> nat \<Rightarrow> u16 \<Rightarrow> bytes" where
  "put16 b i v = b[i := ucast v, i + 1 := ucast (drop_bit 8 v)]"

definition get32 :: "bytes \<Rightarrow> nat \<Rightarrow> u32" where
  "get32 b i = ucast (b ! i) OR push_bit 8 (ucast (b ! (i + 1)))
     OR push_bit 16 (ucast (b ! (i + 2))) OR push_bit 24 (ucast (b ! (i + 3)))"

definition put32 :: "bytes \<Rightarrow> nat \<Rightarrow> u32 \<Rightarrow> bytes" where
  "put32 b i v = b[i := ucast v, i + 1 := ucast (drop_bit 8 v),
     i + 2 := ucast (drop_bit 16 v), i + 3 := ucast (drop_bit 24 v)]"

named_theorems wide \<comment> \<open>16- and 32-bit accesses inside a buffer\<close>

lemma load_wide [wide]:
  "i + 2 \<le> length b \<Longrightarrow> load16 b i = Inr (get16 b i)" "i + 4 \<le> length b \<Longrightarrow> load32 b i = Inr (get32 b i)"
  by (simp_all add: load16_def load32_def get16_def get32_def)

lemma store_wide [wide]:
  "i + 2 \<le> length b \<Longrightarrow> store16 b i v = Inr (put16 b i v)" "i + 4 \<le> length b \<Longrightarrow> store32 b i w = Inr (put32 b i w)"
  by (simp_all add: store16_def store32_def put16_def put32_def)

lemma length_put [wide]: "length (put16 b i v) = length b" "length (put32 b i w) = length b"
  by (simp_all add: put16_def put32_def)

lemma get_put [wide]:
  "i + 2 \<le> length b \<Longrightarrow> get16 (put16 b i v) i = v" "i + 4 \<le> length b \<Longrightarrow> get32 (put32 b i w) i = w"
  using load16_store16 [of b i v "put16 b i v"] load32_store32 [of b i w "put32 b i w"]
  by (simp_all add: load_wide store_wide length_put)

lemma put_put [wide]: "put16 (put16 b i v) i v' = put16 b i v'" "put32 (put32 b i w) i w' = put32 b i w'"
proof -
  show "put16 (put16 b i v) i v' = put16 b i v'"
  proof (rule nth_equalityI)
    fix k assume "k < length (put16 (put16 b i v) i v')"
    then show "put16 (put16 b i v) i v' ! k = put16 b i v' ! k"
      by (cases "k = i"; cases "k = i + 1") (auto simp: put16_def)
  qed (simp add: length_put)
  show "put32 (put32 b i w) i w' = put32 b i w'"
  proof (rule nth_equalityI)
    fix k assume "k < length (put32 (put32 b i w) i w')"
    then show "put32 (put32 b i w) i w' ! k = put32 b i w' ! k"
      by (cases "k = i"; cases "k = i + 1"; cases "k = i + 2"; cases "k = i + 3") (auto simp: put32_def)
  qed (simp add: length_put)
qed

lemma put_get [wide]:
  "i + 2 \<le> length b \<Longrightarrow> put16 b i (get16 b i) = b" "i + 4 \<le> length b \<Longrightarrow> put32 b i (get32 b i) = b"
proof -
  assume i: "i + 2 \<le> length b"
  have "ucast (get16 b i) = b ! i" "ucast (drop_bit 8 (get16 b i)) = b ! (i + 1)"
    unfolding get16_def by (rule bit_word_eqI; auto simp: bit_simps dest: bit_imp_le_length)+
  then show "put16 b i (get16 b i) = b" by (simp add: put16_def)
next
  assume i: "i + 4 \<le> length b"
  have "ucast (get32 b i) = b ! i" "ucast (drop_bit 8 (get32 b i)) = b ! (i + 1)"
    "ucast (drop_bit 16 (get32 b i)) = b ! (i + 2)" "ucast (drop_bit 24 (get32 b i)) = b ! (i + 3)"
    unfolding get32_def by (rule bit_word_eqI; auto simp: bit_simps dest: bit_imp_le_length)+
  then show "put32 b i (get32 b i) = b" by (simp add: put32_def)
qed

lemma flip_and_run_count:
  assumes "out_buf s = B" "f B = Inr B'" "f B' = Inr B" "length B' = length B" "de_len e \<le> length B"
  shows "fpost (fbind (on_out f (s\<lparr>stage_cur_byte := i\<rparr>)) (\<lambda>s. fbind (run_out h e s) (\<lambda>s. fbind (count_value s) (on_out f))))
    (ran h lg [take (de_len e) B'] s) (\<lambda>s'. out_buf s' = B)"
proof -
  let ?s = "s\<lparr>stage_cur_byte := i, out_buf := B'\<rparr>"
  have run: "fpost (run_out h e ?s) (\<lambda>s'. \<exists>w. s' = ?s\<lparr>d_world := w\<rparr> \<and>
      (records h lg \<longrightarrow> lg w = lg (d_world ?s) @ [take (de_len e) B'])) (\<lambda>s'. out_buf s' = B)"
    unfolding run_out_def using run_case_ran [of "de_len e" B' h ?s] assms by simp
  have "fpost (fbind (run_out h e ?s) (\<lambda>s. fbind (count_value s) (on_out f)))
      (ran h lg [take (de_len e) B'] s) (\<lambda>s'. out_buf s' = B)"
    by (rule fpost_fbind [OF run]) (use assms in \<open>auto simp: on_out_def count_value_def ran_def\<close>)
  then show ?thesis using assms by (simp add: on_out_def)
qed

lemma concat_map_Nil: "concat (map (\<lambda>_. []) xs) = []"
  by (induction xs) auto

lemma count_eff_ran:
  assumes "det_ok e B" "out_buf s = B"
  shows "fpost (count_eff e s) (ran h lg [] s) (\<lambda>s'. out_buf s' = B)"
proof -
  have "fpost (for_each [0..<de_len e] (\<lambda>i s. ebind (load8 (de_eff e) i) (\<lambda>v.
         if v \<noteq> 0 then Inr (Next (s\<lparr>blocks_eff_select := blocks_eff_select s + 1\<rparr>)) else Inr (Next s))) s)
      (ran h lg (concat (map (\<lambda>_. []) [0..<de_len e])) s) (\<lambda>s'. out_buf s' = B)"
    by (rule for_each_ran) (use assms in \<open>auto simp: mem_ok det_okD ran_def\<close>)
  then have "fpost (for_each [0..<de_len e] (\<lambda>i s. ebind (load8 (de_eff e) i) (\<lambda>v.
         if v \<noteq> 0 then Inr (Next (s\<lparr>blocks_eff_select := blocks_eff_select s + 1\<rparr>)) else Inr (Next s))) s)
      (ran h lg [] s) (\<lambda>s'. out_buf s' = B)" by (simp only: concat_map_Nil)
  then show ?thesis unfolding count_eff_def by (rule fpost_fbind) (auto simp: ran_def)
qed

lemma det_flip8_ran:
  assumes e: "det_ok e B" and B: "out_buf s = B"
  shows "fpost (det_flip8 h e s) (ran h lg (visits e (\<lambda>i. i) (\<lambda>i. [take (de_len e) (B[i := B ! i XOR 0xFF])]) (de_len e)) s)
    (\<lambda>s'. out_buf s' = B)" (is "fpost _ (ran h lg ?L s) ?C")
proof -
  note ok = det_okD [OF e]
  let ?t = "(begin_stage ''bitflip 8/8'' ''flip8'' (de_len e) s)\<lparr>prev_cksum := det_cksum s\<rparr>"
  have "fpost (walk (\<lambda>i. i) (\<lambda>i. check_pos h e i (\<lambda>s.
          fbind (on_out (flip_byte i) s) (\<lambda>s. fbind (run_out h e s) (on_out (flip_byte i))))) ?t) (ran h lg ?L ?t) ?C"
    unfolding visits_def
  proof (rule walk_ran [OF check_pos_ran])
    fix i :: nat and w and s :: "('a, 'b) det"
    assume i: "i < de_len e" and s: "out_buf s = B"
    show "fpost (fbind (on_out (flip_byte i) (s\<lparr>d_world := w\<rparr>)) (\<lambda>s. fbind (run_out h e s) (on_out (flip_byte i))))
        (ran h lg [take (de_len e) (B[i := B ! i XOR 0xFF])] (s\<lparr>d_world := w\<rparr>)) ?C"
      by (rule flip_and_run) (use i ok s in \<open>auto simp: flip_byte_def mem_ok xor.assoc\<close>)
    show "i < length (de_eff e)" using i ok by simp
  qed (use B in auto)
  then have "fpost (fbind (walk (\<lambda>i. i) (\<lambda>i. check_pos h e i (\<lambda>s.
          fbind (on_out (flip_byte i) s) (\<lambda>s. fbind (run_out h e s) (on_out (flip_byte i))))) ?t)
       (\<lambda>s. fbind (count_eff e s) (end_stage h STAGE_FLIP8))) (ran h lg ?L ?t) ?C"
  proof (rule fpost_fbind)
    fix u assume u: "ran h lg ?L ?t u"
    then have "out_buf u = B" using B by (simp add: ran_def)
    then have "fpost (fbind (count_eff e u) (end_stage h STAGE_FLIP8)) (ran h lg [] u) ?C"
      by (intro stage_ran [of "count_eff e" u] count_eff_ran [OF e]) auto
    then show "fpost (fbind (count_eff e u) (end_stage h STAGE_FLIP8)) (ran h lg ?L ?t) ?C"
      by (rule fpost_mono) (use ran_trans [OF u] in force)+
  qed
  then show ?thesis unfolding det_flip8_def by (rule fpost_mono) (auto simp: ran_def)
qed

lemma det_flip16_ran:
  assumes e: "det_ok e B" and B: "out_buf s = B" and len: "2 \<le> de_len e"
  shows "fpost (det_flip16 h e s) (ran h lg (visits e (\<lambda>i. i)
     (\<lambda>i. [take (de_len e) (put16 B i (get16 B i XOR 0xFFFF))]) (de_len e - 1)) s) (\<lambda>s'. out_buf s' = B)"
proof -
  note ok = det_okD [OF e]
  have mx: "u32_sub (de_len e) 1 = de_len e - 1" using ok by simp
  show ?thesis
    unfolding det_flip16_def mx visits_def
  proof (rule stage_ran, rule for_each_ran [OF check_pos_ran])
    fix i :: nat and w and s :: "('a, 'b) det"
    assume i: "i \<in> set [0..<de_len e - 1]" and s: "out_buf s = B"
    have "i + 2 \<le> length B" using i ok by simp
    then show "fpost (fbind (on_out (flip_half i) (s\<lparr>d_world := w, stage_cur_byte := i\<rparr>))
          (\<lambda>s. fbind (run_out h e s) (\<lambda>s. fbind (count_value s) (on_out (flip_half i)))))
        (ran h lg [take (de_len e) (put16 B i (get16 B i XOR 0xFFFF))] (s\<lparr>d_world := w\<rparr>)) (\<lambda>s'. out_buf s' = B)"
      by (intro flip_and_run_count [of "s\<lparr>d_world := w\<rparr>", simplified])
        (use i ok s in \<open>auto simp: flip_half_def wide xor.assoc\<close>)
    show "i < length (de_eff e)" using i ok by simp
  qed (use B in auto)
qed

lemma det_flip32_ran:
  assumes e: "det_ok e B" and B: "out_buf s = B" and len: "4 \<le> de_len e"
  shows "fpost (det_flip32 h e s) (ran h lg (visits e (\<lambda>i. i)
     (\<lambda>i. [take (de_len e) (put32 B i (get32 B i XOR 0xFFFFFFFF))]) (de_len e - 3)) s) (\<lambda>s'. out_buf s' = B)"
proof -
  note ok = det_okD [OF e]
  have mx: "u32_sub (de_len e) 3 = de_len e - 3" using ok len by simp
  show ?thesis
    unfolding det_flip32_def mx visits_def
  proof (rule stage_ran, rule for_each_ran [OF check_pos_ran])
    fix i :: nat and w and s :: "('a, 'b) det"
    assume i: "i \<in> set [0..<de_len e - 3]" and s: "out_buf s = B"
    have "i + 4 \<le> length B" using i ok by simp
    then show "fpost (fbind (on_out (flip_word i) (s\<lparr>d_world := w, stage_cur_byte := i\<rparr>))
          (\<lambda>s. fbind (run_out h e s) (\<lambda>s. fbind (count_value s) (on_out (flip_word i)))))
        (ran h lg [take (de_len e) (put32 B i (get32 B i XOR 0xFFFFFFFF))] (s\<lparr>d_world := w\<rparr>)) (\<lambda>s'. out_buf s' = B)"
      by (intro flip_and_run_count [of "s\<lparr>d_world := w\<rparr>", simplified])
        (use i ok s in \<open>auto simp: flip_word_def wide xor.assoc\<close>)
    show "i < length (de_eff e)" using i ok by simp
  qed (use B in auto)
qed

section \<open>The walking bit and the tokens\<close>

definition keeps :: "('w, 'r) det \<Rightarrow> ('w, 'r) det \<Rightarrow> bool" where
  "keeps s s' \<longleftrightarrow> d_world s' = d_world s \<and> out_buf s' = out_buf s \<and> ex_buf s' = ex_buf s \<and>
     d_extras (d_dict s') = d_extras (d_dict s)"

definition tok_ok :: "nat \<Rightarrow> ('w, 'r) det \<Rightarrow> bool" where
  "tok_ok K s \<longleftrightarrow> length (a_collect s) = MAX_AUTO_EXTRA \<and> auto_ok (d_a_extras (d_dict s)) \<and>
     (\<forall>a\<in>set (d_a_extras (d_dict s)). ae_hit_cnt a \<le> K)"

lemma tok_ok_mono: "tok_ok K s \<Longrightarrow> K \<le> M \<Longrightarrow> tok_ok M s"
  by (fastforce simp: tok_ok_def)

lemma collect_char_ok:
  assumes "tok_ok K s" "i div 8 < length (out_buf s)"
  shows "fpost (collect_char i s) (\<lambda>s'. tok_ok K s' \<and> keeps s s') C"
  using assms by (auto simp: collect_char_def mem_ok tok_ok_def keeps_def)

context rng_source
begin

lemma add_collected_ok:
  assumes "h_rand h = rb" "qsort_ok (h_sort h)" "tok_ok K s" "K < 2147483647"
  shows "fpost (add_collected h s) (\<lambda>s'. tok_ok (K + 1) s' \<and> keeps s s') C"
proof (cases "MIN_AUTO_EXTRA \<le> a_len s \<and> a_len s \<le> MAX_AUTO_EXTRA")
  case False
  with assms(3) show ?thesis by (auto simp: add_collected_def keeps_def intro: tok_ok_mono)
next
  case True
  have "safe (maybe_add_auto (h_sort h) rb (take (a_len s) (a_collect s)) (d_dict s) (d_rng s)) (\<lambda>(d', r').
      auto_ok (d_a_extras d') \<and> d_extras d' = d_extras (d_dict s) \<and> (\<forall>a\<in>set (d_a_extras d'). ae_hit_cnt a \<le> K + 1))"
    by (rule safe_mono [OF maybe_add_auto_safe [OF assms(2)]]) (use assms(3,4) in \<open>auto simp: tok_ok_def\<close>)
  with True assms(1,3) show ?thesis
    by (cases "maybe_add_auto (h_sort h) rb (take (a_len s) (a_collect s)) (d_dict s) (d_rng s)")
      (auto simp: add_collected_def keeps_def tok_ok_def)
qed

lemma collect_token_ok:
  assumes "h_rand h = rb" "qsort_ok (h_sort h)" "tok_ok K s" "K < 2147483647" "i div 8 < length (out_buf s)"
  shows "fpost (collect_token h e i s) (\<lambda>s'. tok_ok (K + 1) s' \<and> keeps s s') C"
proof -
  let ?ck = "h_cksum h (d_world s)"
  let ?P = "\<lambda>s'. tok_ok (K + 1) s' \<and> keeps s s'"
  have add: "fpost (add_collected h u) (\<lambda>s'. tok_ok (K + 1) s' \<and> keeps u s') C" if "tok_ok K u" for u
    by (rule add_collected_ok [OF assms(1,2) that assms(4)])
  have first: "fpost (fbind (collect_char i s) (add_collected h)) ?P C"
    by (rule fpost_fbind [OF collect_char_ok [OF assms(3,5)]], rule fpost_mono [OF add]) (auto simp: keeps_def)
  have second: "fpost (fbind (add_collected h s) (\<lambda>s. Inr (Next (s\<lparr>a_len := 0, prev_cksum := ?ck\<rparr>)))) ?P C"
    by (rule fpost_fbind [OF add [OF assms(3)]]) (auto simp: keeps_def tok_ok_def)
  have "?P s" using assms(3) tok_ok_mono [of K s "K + 1"] by (simp add: keeps_def)
  with first second have 1: "fpost
      (if i = u32_sub (stage_max s) 1 \<and> ?ck = prev_cksum s then fbind (collect_char i s) (add_collected h)
       else if ?ck \<noteq> prev_cksum s then
         fbind (add_collected h s) (\<lambda>s. Inr (Next (s\<lparr>a_len := 0, prev_cksum := ?ck\<rparr>)))
       else Inr (Next s)) ?P C"
    by (cases "i = u32_sub (stage_max s) 1 \<and> ?ck = prev_cksum s"; cases "?ck \<noteq> prev_cksum s")
      (simp_all only: if_True if_False not_False_eq_True not_True_eq_False simp_thms fpost_simps)
  have 2: "fpost (if ?ck \<noteq> det_cksum u then collect_char i u else Inr (Next u)) ?P C" if "?P u" for u
  proof -
    have "i div 8 < length (out_buf u)" using that assms(5) by (simp add: keeps_def)
    from collect_char_ok [OF _ this, of "K + 1" C] that show ?thesis
      by (auto intro: fpost_mono simp: keeps_def)
  qed
  from \<open>?P s\<close> fpost_fbind [OF 1 2] show ?thesis by (simp add: collect_token_def Let_def)
qed

lemma det_flip1_ok:
  fixes h :: "('w, 'r) host" and s :: "('w, 'r) det"
  assumes h: "h_rand h = rb" "qsort_ok (h_sort h)" and e: "det_ok e B" and B: "out_buf s = B"
    and tok: "tok_ok K s" "K + 8 * de_len e < 2147483648"
  shows "fpost (det_flip1 h e s)
    (\<lambda>s'. (records h lg \<longrightarrow> lg (d_world s') = lg (d_world s) @ take (de_len e) B # flip_cases e B 1) \<and>
       out_buf s' = B \<and> ex_buf s' = ex_buf s \<and> d_extras (d_dict s') = d_extras (d_dict s) \<and>
       auto_ok (d_a_extras (d_dict s')))
    (\<lambda>s'. out_buf s' = B)" (is "fpost _ ?N ?C")
proof -
  note ok = det_okD [OF e]
  let ?n = "8 * de_len e"
  let ?L = "\<lambda>i. if de_eff e ! (i div 8) = 0 then [] else [take (de_len e) (fold xbit [i] B)]"
  define W where "W = lg (d_world s) @ take (de_len e) B # concat (map ?L [0..<?n])"
  define I where "I = (\<lambda>ys (u :: ('w, 'r) det). (records h lg \<longrightarrow> lg (d_world u) @ concat (map ?L ys) = W) \<and> out_buf u = B \<and>
    ex_buf u = ex_buf s \<and> d_extras (d_dict u) = d_extras (d_dict s) \<and> tok_ok (K + ?n - length ys) u \<and>
    length ys \<le> ?n)"
  have fc: "flip_cases e B 1 = concat (map ?L [0..<?n])" by (simp add: flip_cases_def visits_def cong: if_cong)
  let ?body = "\<lambda>i. check_pos h e (i div 8) (\<lambda>s. fbind (on_out (flip_bits [i]) s) (\<lambda>s.
          fbind (run_out h e s) (\<lambda>s. fbind (on_out (flip_bits [i]) s) (collect_token h e i))))"
  have step: "fpost (?body i (u\<lparr>stage_cur := i, stage_cur_byte := i div 8\<rparr>)) (I ys) ?C"
    if ys: "set (i # ys) \<subseteq> set [0..<?n]" and I: "I (i # ys) u" for i ys and u :: "('w, 'r) det"
  proof -
    let ?u = "u\<lparr>stage_cur := i, stage_cur_byte := i div 8\<rparr>"
    have i: "i < ?n" using ys by simp
    have len: "length (i # ys) \<le> ?n" using I by (simp add: I_def)
    have K: "K + ?n - length (i # ys) + 1 = K + ?n - length ys" using len by simp
    have u: "out_buf ?u = B" "tok_ok (K + ?n - length (i # ys)) ?u" using I by (auto simp: I_def tok_ok_def)
    have piece: "fpost (fbind (fbind (on_out (flip_bits [i]) (?u\<lparr>d_world := w\<rparr>))
          (\<lambda>s. fbind (run_out h e s) (on_out (flip_bits [i])))) (collect_token h e i)) (I ys) ?C"
      if w: "records h lg \<longrightarrow> lg w = lg (d_world u)" and vis: "de_eff e ! (i div 8) \<noteq> 0" for w
    proof (rule fpost_fbind)
      show "fpost (fbind (on_out (flip_bits [i]) (?u\<lparr>d_world := w\<rparr>)) (\<lambda>s. fbind (run_out h e s) (on_out (flip_bits [i]))))
          (ran h lg [take (de_len e) (fold xbit [i] B)] (?u\<lparr>d_world := w\<rparr>)) ?C"
        by (rule flip_bits_run) (use i u e in auto)
      fix v assume v: "ran h lg [take (de_len e) (fold xbit [i] B)] (?u\<lparr>d_world := w\<rparr>) v"
      then have tv: "tok_ok (K + ?n - length (i # ys)) v" "out_buf v = B"
        using u by (auto simp: ran_def tok_ok_def)
      have "i div 8 < length (out_buf v)" using i ok tv(2) by simp
      then have "fpost (collect_token h e i v) (\<lambda>s'. tok_ok (K + ?n - length (i # ys) + 1) s' \<and> keeps v s') ?C"
        by (intro collect_token_ok [OF h tv(1)]) (use tok(2) len in auto)
      then show "fpost (collect_token h e i v) (I ys) ?C"
        by (rule fpost_mono) (use v I w vis K in \<open>auto simp: ran_def keeps_def I_def\<close>)
    qed
    show ?thesis
      by (rule check_pos_rule [where lg = lg])
        (use i ok I u tok_ok_mono [OF u(2), of "K + ?n - length ys"] piece in \<open>auto simp: I_def fbind_assoc\<close>)
  qed
  have loop: "fpost (walk (\<lambda>i. i div 8) ?body u) (I []) ?C" if u: "I [0..<?n] u" "stage_max u = ?n" for u
  proof -
    have "fpost (for_each [0..<?n] (\<lambda>i s. ?body i (s\<lparr>stage_cur := i, stage_cur_byte := i div 8\<rparr>)) u) (I []) ?C"
    proof (rule for_each_inv)
      fix i ys and v :: "('w, 'r) det"
      assume "set (i # ys) \<subseteq> set [0..<?n]" and I: "I (i # ys) v"
      then show "fpost (?body i (v\<lparr>stage_cur := i, stage_cur_byte := i div 8\<rparr>)) (I ys) ?C"
        by (rule step)
    qed (rule u(1))
    then show ?thesis unfolding walk_def u(2)
      by (rule fpost_fbind) (auto simp: I_def tok_ok_def)
  qed
  let ?s1 = "s\<lparr>stage_short := ''flip1'', stage_max := u32_mul (de_len e) 8, stage_name := ''bitflip 1/1'',
               stage_val_type := STAGE_VAL_NONE, orig_hit_cnt := h_hits h (d_world s)\<rparr>"
  have run: "fpost (run_out h e ?s1) (\<lambda>s'. \<exists>w. s' = ?s1\<lparr>d_world := w\<rparr> \<and>
      (records h lg \<longrightarrow> lg w = lg (d_world ?s1) @ [take (de_len e) (out_buf ?s1)])) ?C"
    unfolding run_out_def by (rule run_case_ran) (use ok B in simp)
  show ?thesis
    unfolding det_flip1_def Let_def
  proof (rule fpost_fbind [OF run], elim exE conjE)
    fix u w assume u: "u = ?s1\<lparr>d_world := w\<rparr>"
      and w: "records h lg \<longrightarrow> lg w = lg (d_world ?s1) @ [take (de_len e) (out_buf ?s1)]"
    let ?v = "u\<lparr>prev_cksum := h_cksum h (d_world u), det_cksum := h_cksum h (d_world u)\<rparr>"
    have "I [0..<?n] ?v" "stage_max ?v = ?n"
      using u w B ok tok(1) by (auto simp: I_def W_def tok_ok_def u32_mul_def)
    then have "fpost (walk (\<lambda>i. i div 8) ?body ?v) (I []) ?C" by (rule loop)
    then show "fpost (fbind (walk (\<lambda>i. i div 8) ?body ?v) (end_stage h STAGE_FLIP1)) ?N ?C"
      by (rule fpost_fbind) (auto simp: end_stage_def Let_def I_def W_def tok_ok_def fc [unfolded One_nat_def])
  qed
qed

end

end
