(* ===== verification/AFL_DetValues.thy ===== *)
theory AFL_DetValues
  imports AFL_DetLemmas
begin

text \<open>
  The value stages: arithmetic and interesting values of 8, 16 and 32 bits. A position is visited by
  overwriting the value at it again and again; \<open>tried\<close> collects what was executed there, how many
  values were considered and what the two counters of the stage say about it.
\<close>

section \<open>Trying values at a position\<close>

definition tried :: "('w, 'r) host \<Rightarrow> ('w \<Rightarrow> bytes list) \<Rightarrow> nat \<Rightarrow> bytes list \<Rightarrow> ('w, 'r) det \<Rightarrow> ('w, 'r) det \<Rightarrow> bool" where
  "tried h lg n L s s' \<longleftrightarrow> (records h lg \<longrightarrow> lg (d_world s') = lg (d_world s) @ L) \<and>
     d_dict s' = d_dict s \<and> ex_buf s' = ex_buf s \<and> a_collect s' = a_collect s \<and>
     stage_cycles s' = stage_cycles s \<and> acct n (length L) s s'"

lemma tried_refl: "tried h lg 0 [] s s"
  by (simp add: tried_def acct_refl)

lemma tried_trans: "tried h lg m K s t \<Longrightarrow> tried h lg n L t u \<Longrightarrow> tried h lg (m + n) (K @ L) s u"
  by (auto simp: tried_def intro: acct_trans)

lemma tried_cong:
  "tried h lg n L s t \<Longrightarrow> d_world s' = d_world s \<Longrightarrow> d_dict s' = d_dict s \<Longrightarrow> ex_buf s' = ex_buf s \<Longrightarrow>
   a_collect s' = a_collect s \<Longrightarrow> stage_cycles s' = stage_cycles s \<Longrightarrow>
   stage_cur s' = stage_cur s \<Longrightarrow> stage_max s' = stage_max s \<Longrightarrow> tried h lg n L s' t"
  by (simp add: tried_def acct_def)

lemma tried_cong2:
  "tried h lg n L s t \<Longrightarrow> d_world t' = d_world t \<Longrightarrow> d_dict t' = d_dict t \<Longrightarrow> ex_buf t' = ex_buf t \<Longrightarrow>
   a_collect t' = a_collect t \<Longrightarrow> stage_cycles t' = stage_cycles t \<Longrightarrow>
   stage_cur t' = stage_cur t \<Longrightarrow> stage_max t' = stage_max t \<Longrightarrow> tried h lg n L s t'"
  by (simp add: tried_def acct_def)

lemma for_each_tried:
  assumes "\<And>x s. x \<in> set xs \<Longrightarrow> I s \<Longrightarrow> fpost (body x s) (\<lambda>s'. I s' \<and> tried h lg (n x) (L x) s s') C" "I s"
  shows "fpost (for_each xs body s) (\<lambda>s'. I s' \<and> tried h lg (sum_list (map n xs)) (concat (map L xs)) s s') C"
  using assms
proof (induction xs arbitrary: s)
  case (Cons x xs)
  have 1: "fpost (body x s) (\<lambda>s'. I s' \<and> tried h lg (n x) (L x) s s') C" using Cons.prems by simp
  have 2: "fpost (for_each xs body t)
      (\<lambda>s'. I s' \<and> tried h lg (sum_list (map n xs)) (concat (map L xs)) t s') C" if "I t" for t
    by (rule Cons.IH) (use Cons.prems(1) that in auto)
  show ?case
    by (simp, rule fpost_fbind [OF 1], rule fpost_mono [OF 2]) (auto intro: tried_trans)
qed (simp add: tried_refl)

lemma u32_counters:
  "(word_of_nat (u32_add a 1) :: u32) = word_of_nat a + 1" "(word_of_nat (u32_sub a 1) :: u32) = word_of_nat a - 1"
proof -
  have mod: "(word_of_nat (n mod 4294967296) :: u32) = word_of_nat n" for n
    by (simp add: word_of_nat_eq_iff take_bit_eq_mod)
  show "(word_of_nat (u32_add a 1) :: u32) = word_of_nat a + 1" by (simp add: u32_add_def mod)
  have "(word_of_nat (a + 4294967295) :: u32) = word_of_nat a - 1" by simp
  then show "(word_of_nat (u32_sub a 1) :: u32) = word_of_nat a - 1" by (simp only: u32_sub_def) (simp add: mod)
qed

lemma skip_value_tried:
  "fpost (skip_value s) (\<lambda>s'. out_buf s' = out_buf s \<and> tried h lg 1 [] s s') C"
  using u32_counters(2) [of "stage_max s"] by (simp add: skip_value_def tried_def acct_def)

text \<open>Write, execute, count.\<close>

lemma write_run_count:
  assumes "f (out_buf s) = Inr b" "de_len e \<le> length b"
  shows "fpost (fbind (on_out f s) (\<lambda>s. fbind (run_out h e s) count_value))
    (\<lambda>s'. out_buf s' = b \<and> tried h lg 1 [take (de_len e) b] s s') C"
proof -
  let ?s = "s\<lparr>out_buf := b\<rparr>"
  have "fpost (fbind (run_out h e ?s) count_value) (\<lambda>s'. out_buf s' = b \<and> tried h lg 1 [take (de_len e) b] s s') C"
    unfolding run_out_def
    by (rule fpost_fbind [OF run_case_ran [where lg = lg]])
      (use assms(2) u32_counters(1) in \<open>auto simp: count_value_def tried_def acct_def\<close>)
  then show ?thesis using assms(1) by (simp add: on_out_def)
qed

lemma attempt_tried:
  assumes "\<not> skip \<Longrightarrow> f (out_buf s) = Inr b" "de_len e \<le> length b"
  shows "fpost (attempt h e skip vt v f s)
    (\<lambda>s'. out_buf s' = (if skip then out_buf s else b) \<and> tried h lg 1 (if skip then [] else [take (de_len e) b]) s s') C"
proof (cases skip)
  case True
  then show ?thesis using skip_value_tried [of s h lg C] by (simp add: attempt_def)
next
  case False
  have "fpost (attempt h e skip vt v f s) (\<lambda>s'. out_buf s' = b \<and> tried h lg 1 [take (de_len e) b] (s\<lparr>stage_val_type := vt, stage_cur_val := v\<rparr>) s') C"
    using False write_run_count [of f "s\<lparr>stage_val_type := vt, stage_cur_val := v\<rparr>"] assms by (simp add: attempt_def)
  then show ?thesis
    by (rule fpost_mono) (use False in \<open>auto elim!: tried_cong\<close>)
qed

text \<open>What an arithmetic step executes.\<close>

definition tries :: "det_env \<Rightarrow> bool \<Rightarrow> u32 \<Rightarrow> bytes \<Rightarrow> bytes list" where
  "tries e guard r b = (if guard \<and> \<not> flip_pattern (unat r) then [take (de_len e) b] else [])"

lemma try_arith_tried:
  assumes "f (out_buf s) = Inr b" "de_len e \<le> length b"
  shows "fpost (try_arith h e guard r vt v f s) (\<lambda>s'. out_buf s' \<in> {out_buf s, b} \<and> tried h lg 1 (tries e guard r b) s s') C"
proof -
  have "fpost (attempt h e (\<not> (guard \<and> \<not> flip_pattern (unat r))) vt v f s) (\<lambda>s'. out_buf s' =
      (if \<not> (guard \<and> \<not> flip_pattern (unat r)) then out_buf s else b) \<and> tried h lg 1 (tries e guard r b) s s') C"
    using attempt_tried [of "\<not> (guard \<and> \<not> flip_pattern (unat r))" f s b e h vt v lg C] assms
    by (auto simp: tries_def)
  then show ?thesis unfolding try_arith_def could_be_bitflip_eq ebind_simps by (rule fpost_mono) auto
qed

text \<open>Two tries in a row on a buffer from a set \<open>P\<close> that every write of this position stays in.\<close>

lemma try_next:
  assumes "fpost m (\<lambda>s'. out_buf s' \<in> P \<and> tried h lg n K s s') C"
    and "\<And>t. out_buf t \<in> P \<Longrightarrow> fpost (g t) (\<lambda>s'. out_buf s' \<in> Q \<and> tried h lg k L t s') C"
  shows "fpost (fbind m g) (\<lambda>s'. out_buf s' \<in> Q \<and> tried h lg (n + k) (K @ L) s s') C"
  by (rule fpost_fbind [OF assms(1)], rule fpost_mono [OF assms(2)]) (auto intro: tried_trans)

lemma put_back:
  assumes "out_buf t \<in> P" "\<And>b. b \<in> P \<Longrightarrow> f b = Inr B"
  shows "fpost (on_out f t) (\<lambda>s'. out_buf s' \<in> {B} \<and> tried h lg 0 [] t s') C"
  using assms by (simp add: on_out_def tried_def acct_def)

lemma try_put:
  assumes "out_buf s \<in> P" "\<And>b. b \<in> P \<Longrightarrow> f b = Inr b'" "b' \<in> P" "de_len e \<le> length b'"
  shows "fpost (try_arith h e guard r vt v f s) (\<lambda>s'. out_buf s' \<in> P \<and> tried h lg 1 (tries e guard r b') s s') C"
  by (rule fpost_mono [OF try_arith_tried]) (use assms in auto)

lemma try_put_vt:
  assumes "out_buf s \<in> P" "\<And>b. b \<in> P \<Longrightarrow> f b = Inr b'" "b' \<in> P" "de_len e \<le> length b'"
  shows "fpost (try_arith h e guard r vt v f (set_val_type vt s)) (\<lambda>s'. out_buf s' \<in> P \<and> tried h lg 1 (tries e guard r b') s s') C"
proof -
  have "out_buf (set_val_type vt s) \<in> P" using assms(1) by (simp add: set_val_type_def)
  from try_put [OF this assms(2-4)] show ?thesis
    by (rule fpost_mono) (auto elim!: tried_cong simp: set_val_type_def)
qed

section \<open>Arithmetic\<close>

lemma sums: "1 + (1 + 0) = (2 :: nat)" "1 + (1 + 2) = (4 :: nat)"
  by simp_all

definition arith8_cases :: "det_env \<Rightarrow> bytes \<Rightarrow> nat \<Rightarrow> nat \<Rightarrow> bytes list" where
  "arith8_cases e B i j =
     (let orig = B ! i; p = orig + word_of_nat j; m = orig - word_of_nat j in
      tries e True (ucast (orig XOR p)) (B[i := p]) @ tries e True (ucast (orig XOR m)) (B[i := m]))"

lemma arith8_step_tried:
  assumes "i < length B" "de_len e \<le> length B" "out_buf s = B"
  shows "fpost (arith8_step h e i (B ! i) j s) (\<lambda>s'. out_buf s' = B \<and> tried h lg 2 (arith8_cases e B i j) s s') C"
proof -
  let ?P = "{b. \<exists>v. b = B[i := v]}"
  have P: "out_buf s \<in> ?P" using list_update_id [of B i, symmetric] assms(3) by blast
  have put: "b \<in> ?P \<Longrightarrow> store8 b i v = Inr (B[i := v])" for b v using assms(1) by (auto simp: mem_ok)
  have "fpost (arith8_step h e i (B ! i) j s) (\<lambda>s'. out_buf s' \<in> {B} \<and> tried h lg (1 + (1 + 0))
      (tries e True (ucast (B ! i XOR (B ! i + word_of_nat j))) (B[i := B ! i + word_of_nat j]) @
       (tries e True (ucast (B ! i XOR (B ! i - word_of_nat j))) (B[i := B ! i - word_of_nat j]) @ [])) s s') C"
    unfolding arith8_step_def Let_def
    by (rule try_next, rule try_put [OF P], rule put, assumption, force, use assms in simp,
        rule try_next, rule try_put, assumption, rule put, assumption, force, use assms in simp,
        rule put_back, assumption) (use put [of _ "B ! i"] assms(1) in auto)
  then show ?thesis by (simp only: arith8_cases_def Let_def append_Nil2 singleton_iff sums)
qed

definition arith16_cases :: "det_env \<Rightarrow> bytes \<Rightarrow> nat \<Rightarrow> nat \<Rightarrow> bytes list" where
  "arith16_cases e B i j =
     (let orig = get16 B i; d = word_of_nat j :: u16 in
      tries e (unat (orig AND 0xff) + j > 0xff) (ucast (orig XOR (orig + d))) (put16 B i (orig + d)) @
      tries e (unat (orig AND 0xff) < j) (ucast (orig XOR (orig - d))) (put16 B i (orig - d)) @
      tries e (unat (drop_bit 8 orig) + j > 0xff) (ucast (orig XOR SWAP16 (SWAP16 orig + d)))
        (put16 B i (SWAP16 (SWAP16 orig + d))) @
      tries e (unat (drop_bit 8 orig) < j) (ucast (orig XOR SWAP16 (SWAP16 orig - d)))
        (put16 B i (SWAP16 (SWAP16 orig - d))))"

lemma arith16_step_tried:
  assumes "i + 2 \<le> length B" "de_len e \<le> length B" "out_buf s = B"
  shows "fpost (arith16_step h e i (get16 B i) j s) (\<lambda>s'. out_buf s' = B \<and> tried h lg 4 (arith16_cases e B i j) s s') C"
proof -
  let ?P = "{b. \<exists>v. b = put16 B i v}" and ?o = "get16 B i" and ?d = "word_of_nat j :: u16"
  have P: "out_buf s \<in> ?P" using put_get(1) [OF assms(1), symmetric] assms(3) by blast
  have put: "b \<in> ?P \<Longrightarrow> store16 b i v = Inr (put16 B i v)" for b v using assms(1) by (auto simp: wide)
  have len: "de_len e \<le> length (put16 B i v)" for v using assms(2) by (simp add: wide)
  have mem: "put16 B i v \<in> ?P" for v by auto
  have "fpost (arith16_step h e i ?o j s) (\<lambda>s'. out_buf s' \<in> {B} \<and> tried h lg (1 + (1 + (1 + (1 + 0))))
      (tries e (unat (?o AND 0xff) + j > 0xff) (ucast (?o XOR (?o + ?d))) (put16 B i (?o + ?d)) @
       (tries e (unat (?o AND 0xff) < j) (ucast (?o XOR (?o - ?d))) (put16 B i (?o - ?d)) @
       (tries e (unat (drop_bit 8 ?o) + j > 0xff) (ucast (?o XOR SWAP16 (SWAP16 ?o + ?d))) (put16 B i (SWAP16 (SWAP16 ?o + ?d))) @
       (tries e (unat (drop_bit 8 ?o) < j) (ucast (?o XOR SWAP16 (SWAP16 ?o - ?d))) (put16 B i (SWAP16 (SWAP16 ?o - ?d))) @ [])))) s s') C"
    unfolding arith16_step_def Let_def
    by (rule try_next, rule try_put_vt [OF P], rule put, assumption, rule mem, rule len,
        rule try_next, rule try_put, assumption, rule put, assumption, rule mem, rule len,
        rule try_next, rule try_put_vt, assumption, rule put, assumption, rule mem, rule len,
        rule try_next, rule try_put, assumption, rule put, assumption, rule mem, rule len,
        rule put_back, assumption) (use put [of _ "?o"] put_get(1) [OF assms(1)] in auto)
  then show ?thesis by (simp only: arith16_cases_def Let_def append_Nil2 singleton_iff sums)
qed

definition arith32_cases :: "det_env \<Rightarrow> bytes \<Rightarrow> nat \<Rightarrow> nat \<Rightarrow> bytes list" where
  "arith32_cases e B i j =
     (let orig = get32 B i; d = word_of_nat j :: u32 in
      tries e (unat (orig AND 0xffff) + j > 0xffff) (orig XOR (orig + d)) (put32 B i (orig + d)) @
      tries e (unat (orig AND 0xffff) < j) (orig XOR (orig - d)) (put32 B i (orig - d)) @
      tries e (unat (SWAP32 orig AND 0xffff) + j > 0xffff) (orig XOR SWAP32 (SWAP32 orig + d))
        (put32 B i (SWAP32 (SWAP32 orig + d))) @
      tries e (unat (SWAP32 orig AND 0xffff) < j) (orig XOR SWAP32 (SWAP32 orig - d))
        (put32 B i (SWAP32 (SWAP32 orig - d))))"

lemma arith32_step_tried:
  assumes "i + 4 \<le> length B" "de_len e \<le> length B" "out_buf s = B"
  shows "fpost (arith32_step h e i (get32 B i) j s) (\<lambda>s'. out_buf s' = B \<and> tried h lg 4 (arith32_cases e B i j) s s') C"
proof -
  let ?P = "{b. \<exists>v. b = put32 B i v}" and ?o = "get32 B i" and ?d = "word_of_nat j :: u32"
  have P: "out_buf s \<in> ?P" using put_get(2) [OF assms(1), symmetric] assms(3) by blast
  have put: "b \<in> ?P \<Longrightarrow> store32 b i v = Inr (put32 B i v)" for b v using assms(1) by (auto simp: wide)
  have len: "de_len e \<le> length (put32 B i v)" for v using assms(2) by (simp add: wide)
  have mem: "put32 B i v \<in> ?P" for v by auto
  have "fpost (arith32_step h e i ?o j s) (\<lambda>s'. out_buf s' \<in> {B} \<and> tried h lg (1 + (1 + (1 + (1 + 0))))
      (tries e (unat (?o AND 0xffff) + j > 0xffff) (?o XOR (?o + ?d)) (put32 B i (?o + ?d)) @
       (tries e (unat (?o AND 0xffff) < j) (?o XOR (?o - ?d)) (put32 B i (?o - ?d)) @
       (tries e (unat (SWAP32 ?o AND 0xffff) + j > 0xffff) (?o XOR SWAP32 (SWAP32 ?o + ?d)) (put32 B i (SWAP32 (SWAP32 ?o + ?d))) @
       (tries e (unat (SWAP32 ?o AND 0xffff) < j) (?o XOR SWAP32 (SWAP32 ?o - ?d)) (put32 B i (SWAP32 (SWAP32 ?o - ?d))) @ [])))) s s') C"
    unfolding arith32_step_def Let_def
    by (rule try_next, rule try_put_vt [OF P], rule put, assumption, rule mem, rule len,
        rule try_next, rule try_put, assumption, rule put, assumption, rule mem, rule len,
        rule try_next, rule try_put_vt, assumption, rule put, assumption, rule mem, rule len,
        rule try_next, rule try_put, assumption, rule put, assumption, rule mem, rule len,
        rule put_back, assumption) (use put [of _ "?o"] put_get(2) [OF assms(1)] in auto)
  then show ?thesis by (simp only: arith32_cases_def Let_def append_Nil2 singleton_iff sums)
qed

section \<open>A stage over the positions\<close>

lemma pos_tried:
  assumes "i < length (de_eff e)" "out_buf s = B"
    and k: "\<And>t. out_buf t = B \<Longrightarrow> fpost (k t) (\<lambda>s'. out_buf s' = B \<and> tried h lg n L t s') (\<lambda>s'. out_buf s' = B)"
  shows "fpost (check_pos h e i (\<lambda>s. k (s\<lparr>stage_cur_byte := i\<rparr>)) s)
    (\<lambda>s'. out_buf s' = B \<and> tried h lg (if de_eff e ! i = 0 then 0 else n) (if de_eff e ! i = 0 then [] else L) s s')
    (\<lambda>s'. out_buf s' = B)"
proof (rule check_pos_rule [where lg = lg])
  fix w assume w: "records h lg \<longrightarrow> lg w = lg (d_world s)" and vis: "de_eff e ! i \<noteq> 0"
  let ?t = "s\<lparr>d_world := w, stage_cur_byte := i\<rparr>"
  have "out_buf ?t = B" using assms(2) by simp
  from k [OF this] show "fpost (k ?t)
      (\<lambda>s'. out_buf s' = B \<and> tried h lg (if de_eff e ! i = 0 then 0 else n) (if de_eff e ! i = 0 then [] else L) s s')
      (\<lambda>s'. out_buf s' = B)"
    by (rule fpost_mono) (use w vis in \<open>auto simp: tried_def acct_def\<close>)
qed (use assms in \<open>auto simp: tried_refl\<close>)

definition eff_sum :: "det_env \<Rightarrow> nat \<Rightarrow> nat \<Rightarrow> nat" where
  "eff_sum e k n = sum_list (map (\<lambda>i. if de_eff e ! i = 0 then 0 else k) [0..<n])"

lemma eff_sum_eq: "eff_sum e k n = k * length (filter (\<lambda>i. de_eff e ! i \<noteq> 0) [0..<n])"
  by (induction n) (auto simp: eff_sum_def)

text \<open>What a value stage leaves behind: \<open>mx\<close> is its first \<open>stage_max\<close>.\<close>

definition stage_done :: "('w, 'r) host \<Rightarrow> ('w \<Rightarrow> bytes list) \<Rightarrow> stage \<Rightarrow> nat \<Rightarrow> nat \<Rightarrow> bytes list \<Rightarrow>
    ('w, 'r) det \<Rightarrow> ('w, 'r) det \<Rightarrow> bool" where
  "stage_done h lg st mx n L s s' \<longleftrightarrow> ran h lg L s s' \<and> (word_of_nat (stage_cur s') :: u32) = word_of_nat (length L) \<and>
     (word_of_nat (stage_max s') :: u32) + word_of_nat n = word_of_nat mx + word_of_nat (length L) \<and>
     stage_cycles s' = (stage_cycles s)(st := stage_cycles s st + word_of_nat (stage_max s'))"

lemma position_stage:
  assumes load: "\<And>i s. i < n \<Longrightarrow> out_buf s = B \<Longrightarrow> ld s i = Inr (orig i)"
    and body: "\<And>i t. i < n \<Longrightarrow> out_buf t = B \<Longrightarrow> fpost (k i (orig i) t)
      (\<lambda>s'. out_buf s' = B \<and> tried h lg N (L i) t s') (\<lambda>s'. out_buf s' = B)"
    and n: "n \<le> length (de_eff e)"
    and t: "out_buf t = B" "stage_cur t = 0" "stage_max t = mx" "out_buf t = out_buf s" "d_world t = d_world s"
      "d_dict t = d_dict s" "ex_buf t = ex_buf s" "a_collect t = a_collect s" "stage_cycles t = stage_cycles s"
  shows "fpost (fbind (for_each [0..<n] (\<lambda>i s. ebind (ld s i) (\<lambda>orig.
      check_pos h e i (\<lambda>s. k i orig (s\<lparr>stage_cur_byte := i\<rparr>)) s)) t) (end_stage h st))
    (stage_done h lg st mx (eff_sum e N n) (visits e (\<lambda>i. i) L n) s) (\<lambda>s'. out_buf s' = B)"
proof -
  have "fpost (for_each [0..<n] (\<lambda>i s. ebind (ld s i) (\<lambda>orig.
      check_pos h e i (\<lambda>s. k i orig (s\<lparr>stage_cur_byte := i\<rparr>)) s)) t)
    (\<lambda>s'. out_buf s' = B \<and> tried h lg (eff_sum e N n) (visits e (\<lambda>i. i) L n) t s') (\<lambda>s'. out_buf s' = B)"
    unfolding eff_sum_def visits_def
  proof (rule for_each_tried [where I = "\<lambda>s. out_buf s = B"])
    fix i :: nat and u :: "('a, 'b) det" assume i: "i \<in> set [0..<n]" and u: "out_buf u = B"
    show "fpost (ebind (ld u i) (\<lambda>orig. check_pos h e i (\<lambda>s. k i orig (s\<lparr>stage_cur_byte := i\<rparr>)) u))
        (\<lambda>s'. out_buf s' = B \<and> tried h lg (if de_eff e ! i = 0 then 0 else N) (if de_eff e ! i = 0 then [] else L i) u s')
        (\<lambda>s'. out_buf s' = B)"
    proof -
      have "i < n" using i by simp
      then show ?thesis
        unfolding load [OF \<open>i < n\<close> u] ebind_simps by (intro pos_tried [OF _ u] body) (use n in auto)
    qed
  qed (rule t(1))
  then show ?thesis
    by (rule fpost_fbind)
      (use t in \<open>auto simp: end_stage_def Let_def stage_done_def ran_def tried_def acct_def\<close>)
qed

lemma step_loop:
  assumes "\<And>x t. x \<in> set xs \<Longrightarrow> out_buf t = B \<Longrightarrow> fpost (body x t) (\<lambda>s'. out_buf s' = B \<and> tried h lg k (L x) t s') C"
    and "out_buf t = B"
  shows "fpost (for_each xs body t) (\<lambda>s'. out_buf s' = B \<and> tried h lg (k * length xs) (concat (map L xs)) t s') C"
proof -
  have "sum_list (map (\<lambda>_. k) xs) = k * length xs" by (induction xs) auto
  with for_each_tried [of xs "\<lambda>s. out_buf s = B" body h lg "\<lambda>_. k" L C t] assms show ?thesis by simp
qed

lemma begin_stage_cycles [simp]: "stage_cycles (begin_stage a b m s) = stage_cycles s"
  by (simp add: begin_stage_def)

lemma set_val_type_simps [simp]:
  "out_buf (set_val_type vt s) = out_buf s" "stage_cur (set_val_type vt s) = stage_cur s"
  "stage_max (set_val_type vt s) = stage_max s" "d_world (set_val_type vt s) = d_world s"
  "d_dict (set_val_type vt s) = d_dict s" "ex_buf (set_val_type vt s) = ex_buf s"
  "a_collect (set_val_type vt s) = a_collect s" "stage_cycles (set_val_type vt s) = stage_cycles s"
  "d_rng (set_val_type vt s) = d_rng s"
  by (simp_all add: set_val_type_def)

abbreviation steps :: "nat list" where "steps \<equiv> [1..<ARITH_MAX + 1]"

lemma det_arith8_done:
  assumes e: "det_ok e B" and B: "out_buf s = B"
  shows "fpost (det_arith8 h e s) (stage_done h lg STAGE_ARITH8 (70 * de_len e) (eff_sum e 70 (de_len e))
      (visits e (\<lambda>i. i) (\<lambda>i. concat (map (arith8_cases e B i) steps)) (de_len e)) s) (\<lambda>s'. out_buf s' = B)"
proof -
  note ok = det_okD [OF e]
  have mx: "u32_mul (u32_mul 2 (de_len e)) ARITH_MAX = 70 * de_len e" using ok by (simp add: u32_mul_def ARITH_MAX_def)
  have 70: "2 * length steps = 70" by (simp add: ARITH_MAX_def)
  show ?thesis
    unfolding det_arith8_def mx 70 [symmetric]
  proof (rule position_stage [where orig = "\<lambda>i. B ! i"])
    fix i :: nat and t :: "('a, 'b) det" assume i: "i < de_len e" and t: "out_buf t = B"
    show "fpost (for_each steps (arith8_step h e i (B ! i)) t)
        (\<lambda>s'. out_buf s' = B \<and> tried h lg (2 * length steps) (concat (map (arith8_cases e B i) steps)) t s')
        (\<lambda>s'. out_buf s' = B)"
      by (rule step_loop [OF _ t], rule arith8_step_tried) (use i ok in auto)
  qed (use ok B in \<open>auto simp: mem_ok\<close>)
qed

lemma det_arith16_done:
  assumes e: "det_ok e B" and B: "out_buf s = B" and len: "2 \<le> de_len e"
  shows "fpost (det_arith16 h e s) (stage_done h lg STAGE_ARITH16 (140 * (de_len e - 1)) (eff_sum e 140 (de_len e - 1))
      (visits e (\<lambda>i. i) (\<lambda>i. concat (map (arith16_cases e B i) steps)) (de_len e - 1)) s) (\<lambda>s'. out_buf s' = B)"
proof -
  note ok = det_okD [OF e]
  have n: "u32_sub (de_len e) 1 = de_len e - 1" using ok by simp
  have mx: "u32_mul (u32_mul 4 (de_len e - 1)) ARITH_MAX = 140 * (de_len e - 1)" using ok by (simp add: u32_mul_def ARITH_MAX_def)
  have 140: "4 * length steps = 140" by (simp add: ARITH_MAX_def)
  show ?thesis
    unfolding det_arith16_def n mx 140 [symmetric]
  proof (rule position_stage [where orig = "\<lambda>i. get16 B i"])
    fix i :: nat and t :: "('a, 'b) det" assume i: "i < de_len e - 1" and t: "out_buf t = B"
    have "i + 2 \<le> length B" using i ok by simp
    then show "fpost (for_each steps (arith16_step h e i (get16 B i)) t)
        (\<lambda>s'. out_buf s' = B \<and> tried h lg (4 * length steps) (concat (map (arith16_cases e B i) steps)) t s')
        (\<lambda>s'. out_buf s' = B)"
      by (intro step_loop [OF _ t] arith16_step_tried) (use ok in auto)
  qed (use ok B in \<open>auto simp: wide\<close>)
qed

lemma det_arith32_done:
  assumes e: "det_ok e B" and B: "out_buf s = B" and len: "4 \<le> de_len e"
  shows "fpost (det_arith32 h e s) (stage_done h lg STAGE_ARITH32 (140 * (de_len e - 3)) (eff_sum e 140 (de_len e - 3))
      (visits e (\<lambda>i. i) (\<lambda>i. concat (map (arith32_cases e B i) steps)) (de_len e - 3)) s) (\<lambda>s'. out_buf s' = B)"
proof -
  note ok = det_okD [OF e]
  have n: "u32_sub (de_len e) 3 = de_len e - 3" using ok len by simp
  have mx: "u32_mul (u32_mul 4 (de_len e - 3)) ARITH_MAX = 140 * (de_len e - 3)" using ok by (simp add: u32_mul_def ARITH_MAX_def)
  have 140: "4 * length steps = 140" by (simp add: ARITH_MAX_def)
  show ?thesis
    unfolding det_arith32_def n mx 140 [symmetric]
  proof (rule position_stage [where orig = "\<lambda>i. get32 B i"])
    fix i :: nat and t :: "('a, 'b) det" assume i: "i < de_len e - 3" and t: "out_buf t = B"
    have "i + 4 \<le> length B" using i ok by simp
    then show "fpost (for_each steps (arith32_step h e i (get32 B i)) t)
        (\<lambda>s'. out_buf s' = B \<and> tried h lg (4 * length steps) (concat (map (arith32_cases e B i) steps)) t s')
        (\<lambda>s'. out_buf s' = B)"
      by (intro step_loop [OF _ t] arith32_step_tried) (use ok in auto)
  qed (use ok B in \<open>auto simp: wide\<close>)
qed

section \<open>Interesting values\<close>

definition interest8_cases :: "det_env \<Rightarrow> bytes \<Rightarrow> nat \<Rightarrow> int \<Rightarrow> bytes list" where
  "interest8_cases e B i v =
     (let orig = B ! i; w = word_of_int v in
      if flip_pattern (unat (ucast (orig XOR w) :: u32)) \<or> could_be_arith (ucast orig) (ucast w) 1 then []
      else [take (de_len e) (B[i := w])])"

lemma interest8_step_tried:
  assumes "i < length B" "de_len e \<le> length B" "out_buf s = B"
  shows "fpost (interest8_step h e i (B ! i) v s) (\<lambda>s'. out_buf s' = B \<and> tried h lg 1 (interest8_cases e B i v) s s') C"
proof (cases "flip_pattern (unat (ucast (B ! i XOR word_of_int v) :: u32)) \<or> could_be_arith (ucast (B ! i)) (ucast (word_of_int v :: u8)) 1")
  case True
  with skip_value_tried [of s h lg C] assms(3) show ?thesis
    by (auto simp: interest8_step_def interest8_cases_def could_be_bitflip_eq Let_def)
next
  case False
  let ?b = "B[i := word_of_int v]" and ?s = "s\<lparr>stage_cur_val := v, out_buf := B[i := word_of_int v]\<rparr>"
  have run: "fpost (run_out h e ?s) (\<lambda>s'. \<exists>w. s' = ?s\<lparr>d_world := w\<rparr> \<and>
      (records h lg \<longrightarrow> lg w = lg (d_world ?s) @ [take (de_len e) ?b])) C"
    unfolding run_out_def using run_case_ran [of "de_len e" ?b h ?s] assms by simp
  have "fpost (fbind (run_out h e ?s) (\<lambda>s. fbind (on_out (\<lambda>b. store8 b i (B ! i)) s) count_value))
      (\<lambda>s'. out_buf s' = B \<and> tried h lg 1 [take (de_len e) ?b] s s') C"
    by (rule fpost_fbind [OF run])
      (use assms u32_counters(1) in \<open>auto simp: on_out_def count_value_def tried_def acct_def mem_ok\<close>)
  with False assms show ?thesis
    by (simp add: interest8_step_def interest8_cases_def could_be_bitflip_eq Let_def on_out_def mem_ok)
qed

lemma det_interest8_done:
  assumes e: "det_ok e B" and B: "out_buf s = B"
  shows "fpost (det_interest8 h e s) (stage_done h lg STAGE_INTEREST8 (9 * de_len e) (eff_sum e 9 (de_len e))
      (visits e (\<lambda>i. i) (\<lambda>i. concat (map (interest8_cases e B i) interesting_8)) (de_len e)) s) (\<lambda>s'. out_buf s' = B)"
proof -
  note ok = det_okD [OF e]
  have mx: "u32_mul (de_len e) (length interesting_8) = 9 * de_len e" using ok by (simp add: u32_mul_def interesting_8_def)
  have 9: "1 * length interesting_8 = 9" by (simp add: interesting_8_def)
  show ?thesis
    unfolding det_interest8_def mx 9 [symmetric]
  proof (rule position_stage [where orig = "\<lambda>i. B ! i"])
    fix i :: nat and t :: "('a, 'b) det" assume i: "i < de_len e" and t: "out_buf t = B"
    show "fpost (for_each interesting_8 (interest8_step h e i (B ! i)) t)
        (\<lambda>s'. out_buf s' = B \<and> tried h lg (1 * length interesting_8) (concat (map (interest8_cases e B i) interesting_8)) t s')
        (\<lambda>s'. out_buf s' = B)"
      by (rule step_loop [OF _ t], rule interest8_step_tried) (use i ok in auto)
  qed (use ok B in \<open>auto simp: mem_ok\<close>)
qed

text \<open>The wider stages.\<close>

definition tries_interest :: "det_env \<Rightarrow> bool \<Rightarrow> u32 \<Rightarrow> u32 \<Rightarrow> nat \<Rightarrow> bool \<Rightarrow> bytes \<Rightarrow> bytes list" where
  "tries_interest e guard orig w blen check_le b =
     (if guard \<and> \<not> flip_pattern (unat (orig XOR w)) \<and> \<not> could_be_arith orig w blen \<and>
         \<not> could_be_interest orig w blen check_le
      then [take (de_len e) b] else [])"

lemma try_interest_tried:
  assumes "out_buf s \<in> P" "\<And>b. b \<in> P \<Longrightarrow> f b = Inr b'" "b' \<in> P" "de_len e \<le> length b'"
  shows "fpost (try_interest h e guard orig w blen check_le vt v f s)
    (\<lambda>s'. out_buf s' \<in> P \<and> tried h lg 1 (tries_interest e guard orig w blen check_le b') s s') C"
  unfolding try_interest_def could_be_bitflip_eq ebind_simps tries_interest_def
  by (rule fpost_mono [OF attempt_tried [of _ f s b' e h vt v lg C]]) (use assms in \<open>auto split: if_splits\<close>)

definition interest16_cases :: "det_env \<Rightarrow> bytes \<Rightarrow> nat \<Rightarrow> int \<Rightarrow> bytes list" where
  "interest16_cases e B i v =
     (let orig = ucast (get16 B i); w = word_of_int v in
      tries_interest e True orig (ucast w) 2 False (put16 B i w) @
      tries_interest e (w \<noteq> SWAP16 w) orig (ucast (SWAP16 w)) 2 True (put16 B i (SWAP16 w)))"

lemma interest16_step_tried:
  assumes "i + 2 \<le> length B" "de_len e \<le> length B" "out_buf s \<in> {b. \<exists>v. b = put16 B i v}"
  shows "fpost (interest16_step h e i (get16 B i) v s)
    (\<lambda>s'. out_buf s' \<in> {b. \<exists>v. b = put16 B i v} \<and> tried h lg 2 (interest16_cases e B i v) s s') C"
proof -
  let ?P = "{b. \<exists>v. b = put16 B i v}"
  have put: "b \<in> ?P \<Longrightarrow> store16 b i v = Inr (put16 B i v)" for b v using assms(1) by (auto simp: wide)
  have len: "de_len e \<le> length (put16 B i v)" for v using assms(2) by (simp add: wide)
  have mem: "put16 B i v \<in> ?P" for v by auto
  have P: "out_buf (s\<lparr>stage_cur_val := v\<rparr>) \<in> ?P" using assms(3) by simp
  have "fpost (interest16_step h e i (get16 B i) v s) (\<lambda>s'. out_buf s' \<in> ?P \<and>
      tried h lg (1 + 1) (interest16_cases e B i v) (s\<lparr>stage_cur_val := v\<rparr>) s') C"
    unfolding interest16_step_def interest16_cases_def Let_def
    by (rule try_next, rule try_interest_tried [OF P], rule put, assumption, rule mem, rule len, rule try_interest_tried, assumption, rule put, assumption, rule mem, rule len)
  then show ?thesis by (rule fpost_mono) (auto elim!: tried_cong simp: numeral_2_eq_2)
qed

definition interest32_cases :: "det_env \<Rightarrow> bytes \<Rightarrow> nat \<Rightarrow> int \<Rightarrow> bytes list" where
  "interest32_cases e B i v =
     (let orig = get32 B i; w = word_of_int v in
      tries_interest e True orig w 4 False (put32 B i w) @
      tries_interest e (w \<noteq> SWAP32 w) orig (SWAP32 w) 4 True (put32 B i (SWAP32 w)))"

lemma interest32_step_tried:
  assumes "i + 4 \<le> length B" "de_len e \<le> length B" "out_buf s \<in> {b. \<exists>v. b = put32 B i v}"
  shows "fpost (interest32_step h e i (get32 B i) v s)
    (\<lambda>s'. out_buf s' \<in> {b. \<exists>v. b = put32 B i v} \<and> tried h lg 2 (interest32_cases e B i v) s s') C"
proof -
  let ?P = "{b. \<exists>v. b = put32 B i v}"
  have put: "b \<in> ?P \<Longrightarrow> store32 b i v = Inr (put32 B i v)" for b v using assms(1) by (auto simp: wide)
  have len: "de_len e \<le> length (put32 B i v)" for v using assms(2) by (simp add: wide)
  have mem: "put32 B i v \<in> ?P" for v by auto
  have P: "out_buf (s\<lparr>stage_cur_val := v\<rparr>) \<in> ?P" using assms(3) by simp
  have "fpost (interest32_step h e i (get32 B i) v s) (\<lambda>s'. out_buf s' \<in> ?P \<and>
      tried h lg (1 + 1) (interest32_cases e B i v) (s\<lparr>stage_cur_val := v\<rparr>) s') C"
    unfolding interest32_step_def interest32_cases_def Let_def
    by (rule try_next, rule try_interest_tried [OF P], rule put, assumption, rule mem, rule len, rule try_interest_tried, assumption, rule put, assumption, rule mem, rule len)
  then show ?thesis by (rule fpost_mono) (auto elim!: tried_cong simp: numeral_2_eq_2)
qed

text \<open>A loop that puts the value back behind its last round.\<close>

lemma loop_put_back:
  assumes step: "\<And>x t. x \<in> set xs \<Longrightarrow> out_buf t \<in> P \<Longrightarrow> fpost (body x t) (\<lambda>s'. out_buf s' \<in> P \<and> tried h lg k (L x) t s') C"
    and "out_buf t \<in> P" and undo: "\<And>b. b \<in> P \<Longrightarrow> f b = Inr B"
  shows "fpost (fbind (for_each xs body t) (on_out f))
    (\<lambda>s'. out_buf s' = B \<and> tried h lg (k * length xs) (concat (map L xs)) t s') C"
proof -
  have "sum_list (map (\<lambda>_. k) xs) = k * length xs" by (induction xs) auto
  then have loop: "fpost (for_each xs body t) (\<lambda>s'. out_buf s' \<in> P \<and> tried h lg (k * length xs) (concat (map L xs)) t s') C"
    using for_each_tried [of xs "\<lambda>s. out_buf s \<in> P" body h lg "\<lambda>_. k" L C t] step assms(2) by simp
  show ?thesis
    by (rule fpost_fbind [OF loop], rule fpost_mono [OF put_back [where P = P]]) (use undo in \<open>auto dest: tried_trans\<close>)
qed

lemma det_interest16_done:
  assumes e: "det_ok e B" and B: "out_buf s = B" and len: "2 \<le> de_len e"
  shows "fpost (det_interest16 h e s) (stage_done h lg STAGE_INTEREST16 (38 * (de_len e - 1)) (eff_sum e 38 (de_len e - 1))
      (visits e (\<lambda>i. i) (\<lambda>i. concat (map (interest16_cases e B i) interesting_16)) (de_len e - 1)) s) (\<lambda>s'. out_buf s' = B)"
proof -
  note ok = det_okD [OF e]
  have n: "u32_sub (de_len e) 1 = de_len e - 1" using ok by simp
  have mx: "u32_mul (u32_mul 2 (de_len e - 1)) (length interesting_16) = 38 * (de_len e - 1)"
    using ok by (simp add: u32_mul_def interesting_16_def interesting_8_def)
  have 38: "2 * length interesting_16 = 38" by (simp add: interesting_16_def interesting_8_def)
  show ?thesis
    unfolding det_interest16_def n mx 38 [symmetric]
  proof (rule position_stage [where orig = "\<lambda>i. get16 B i"])
    fix i :: nat and t :: "('a, 'b) det" assume i: "i < de_len e - 1" and t: "out_buf t = B"
    have i2: "i + 2 \<le> length B" using i ok by simp
    show "fpost (fbind (for_each interesting_16 (interest16_step h e i (get16 B i)) t) (on_out (\<lambda>b. store16 b i (get16 B i))))
        (\<lambda>s'. out_buf s' = B \<and> tried h lg (2 * length interesting_16) (concat (map (interest16_cases e B i) interesting_16)) t s')
        (\<lambda>s'. out_buf s' = B)"
    proof (rule loop_put_back [where P = "{b. \<exists>v. b = put16 B i v}"], rule interest16_step_tried [OF i2])
      show "out_buf t \<in> {b. \<exists>v. b = put16 B i v}" using put_get(1) [OF i2, symmetric] t by blast
    qed (use i2 ok in \<open>auto simp: wide\<close>)
  qed (use ok B in \<open>auto simp: wide\<close>)
qed

lemma det_interest32_done:
  assumes e: "det_ok e B" and B: "out_buf s = B" and len: "4 \<le> de_len e"
  shows "fpost (det_interest32 h e s) (stage_done h lg STAGE_INTEREST32 (56 * (de_len e - 3)) (eff_sum e 56 (de_len e - 3))
      (visits e (\<lambda>i. i) (\<lambda>i. concat (map (interest32_cases e B i) interesting_32)) (de_len e - 3)) s) (\<lambda>s'. out_buf s' = B)"
proof -
  note ok = det_okD [OF e]
  have n: "u32_sub (de_len e) 3 = de_len e - 3" using ok len by simp
  have mx: "u32_mul (u32_mul 2 (de_len e - 3)) (length interesting_32) = 56 * (de_len e - 3)"
    using ok by (simp add: u32_mul_def interesting_32_def interesting_16_def interesting_8_def)
  have 56: "2 * length interesting_32 = 56" by (simp add: interesting_32_def interesting_16_def interesting_8_def)
  show ?thesis
    unfolding det_interest32_def n mx 56 [symmetric]
  proof (rule position_stage [where orig = "\<lambda>i. get32 B i"])
    fix i :: nat and t :: "('a, 'b) det" assume i: "i < de_len e - 3" and t: "out_buf t = B"
    have i4: "i + 4 \<le> length B" using i ok by simp
    show "fpost (fbind (for_each interesting_32 (interest32_step h e i (get32 B i)) t) (on_out (\<lambda>b. store32 b i (get32 B i))))
        (\<lambda>s'. out_buf s' = B \<and> tried h lg (2 * length interesting_32) (concat (map (interest32_cases e B i) interesting_32)) t s')
        (\<lambda>s'. out_buf s' = B)"
    proof (rule loop_put_back [where P = "{b. \<exists>v. b = put32 B i v}"], rule interest32_step_tried [OF i4])
      show "out_buf t \<in> {b. \<exists>v. b = put32 B i v}" using put_get(2) [OF i4, symmetric] t by blast
    qed (use i4 ok in \<open>auto simp: wide\<close>)
  qed (use ok B in \<open>auto simp: wide\<close>)
qed

end
