(* ===== verification/AFL_DetTokens.thy ===== *)
theory AFL_DetTokens
  imports AFL_DetValues
begin

text \<open>
  The dictionary stages. Overwriting relies on the order of the tokens: a token is never shorter
  than the ones before it, so restoring as many bytes as the last one wrote is enough. Inserting
  relies on the bytes in front of the position, which are copied one by one as the loop advances.
\<close>

section \<open>Overwriting\<close>

text \<open>The test case with the bytes \<open>ys\<close> written over it at \<open>i\<close>.\<close>

definition over :: "bytes \<Rightarrow> nat \<Rightarrow> bytes \<Rightarrow> bytes" where
  "over B i ys = take i B @ ys @ drop (i + length ys) B"

lemma length_over [simp]: "i + length ys \<le> length B \<Longrightarrow> length (over B i ys) = length B"
  by (simp add: over_def)

lemma over_over:
  assumes "length ys \<le> length xs" "i + length xs \<le> length B"
  shows "over (over B i ys) i xs = over B i xs"
  using assms by (simp add: over_def add.commute)

lemma over_self:
  assumes "i + n \<le> length B"
  shows "over B i (take n (drop i B)) = B"
proof -
  have "drop (i + length (take n (drop i B))) B = drop n (drop i B)"
    using assms by (simp add: add.commute)
  then show ?thesis
    unfolding over_def by (simp only: append_take_drop_id)
qed

definition clobbered :: "det_env \<Rightarrow> bytes \<Rightarrow> nat \<Rightarrow> ('w, 'r) det \<Rightarrow> bool" where
  "clobbered e B i s \<longleftrightarrow> (\<exists>ys. length ys = last_len s \<and> i + length ys \<le> de_len e \<and> out_buf s = over B i ys)"

definition same :: "('w, 'r) det \<Rightarrow> ('w, 'r) det \<Rightarrow> bool" where
  "same s s' \<longleftrightarrow> d_dict s' = d_dict s \<and> ex_buf s' = ex_buf s"

lemma overwrite_token_ok:
  assumes "clobbered e B i s" "last_len s \<le> length x" "de_len e \<le> length B" "i \<le> de_len e"
  shows "fpost (overwrite_token h e i x s) (\<lambda>s'. clobbered e B i s' \<and> last_len s' \<le> length x \<and> same s s') C"
proof (cases "length x > de_len e - i")
  case True
  with assms show ?thesis by (auto simp: overwrite_token_def skip_value_def clobbered_def same_def)
next
  case False
  from assms(1) obtain ys where ys: "length ys = last_len s" "i + length ys \<le> de_len e" "out_buf s = over B i ys"
    by (auto simp: clobbered_def)
  have fit: "i + length x \<le> length (out_buf s)" using False assms(3,4) ys by simp
  show ?thesis
  proof (cases "take (length x) (drop i (out_buf s)) = x")
    case True
    with False fit assms show ?thesis
      by (auto simp: overwrite_token_def same_at_def skip_value_def clobbered_def same_def)
  next
    case differ: False
    let ?s = "s\<lparr>last_len := length x, out_buf := over B i x\<rparr>"
    have "memcpy (out_buf s) i x 0 (length x) = Inr (over (out_buf s) i x)"
      using fit by (simp add: mem_ok over_def)
    also have "over (out_buf s) i x = over B i x"
      using ys assms(2,3,4) False by (simp add: over_over)
    finally have wr: "on_out (\<lambda>b. memcpy b i x 0 (length x)) (s\<lparr>last_len := length x\<rparr>) = Inr (Next ?s)"
      by (simp add: on_out_def)
    have len: "de_len e \<le> length (over B i x)" using False assms(3,4) by simp
    have "fpost (fbind (run_out h e ?s) count_value) (\<lambda>s'. clobbered e B i s' \<and> last_len s' \<le> length x \<and> same s s') C"
      unfolding run_out_def
      by (rule fpost_fbind [OF run_case_ran [where lg = "\<lambda>_. []"]])
        (use False assms(4) len in \<open>auto simp: count_value_def clobbered_def same_def\<close>)
    with False differ fit wr show ?thesis by (simp add: overwrite_token_def same_at_def)
  qed
qed

lemma restore_ok:
  assumes "clobbered e B i s" "take (de_len e) (de_in_buf e) = take (de_len e) B" "de_len e \<le> length B"
    "de_len e \<le> length (de_in_buf e)"
  shows "fpost (restore_clobbered e i s) (\<lambda>s'. out_buf s' = B \<and> same s s') C"
proof -
  from assms(1) obtain ys where ys: "length ys = last_len s" "i + length ys \<le> de_len e" "out_buf s = over B i ys"
    by (auto simp: clobbered_def)
  have "take (last_len s) (drop i (de_in_buf e)) = take (last_len s) (drop i (take (de_len e) (de_in_buf e)))"
    using ys by (simp add: drop_take min_def)
  also have "\<dots> = take (last_len s) (drop i B)"
    using ys unfolding assms(2) by (simp add: drop_take min_def)
  finally have "memcpy (out_buf s) i (de_in_buf e) i (last_len s) = Inr (over B i (take (last_len s) (drop i B)))"
    using ys assms(3,4) by (simp add: mem_ok over_def)
  also have "over B i (take (last_len s) (drop i B)) = B"
    by (rule over_self) (use ys assms(3) in simp)
  finally show ?thesis by (simp add: restore_clobbered_def on_out_def same_def)
qed

text \<open>One of the two overwriting stages, up to its last assignments.\<close>

lemma over_stage:
  fixes h :: "('w, 'r) host" and s t :: "('w, 'r) det" and xs :: "bytes list"
  assumes e: "det_ok e B" and B: "take (de_len e) (de_in_buf e) = take (de_len e) B" "de_len e \<le> length (de_in_buf e)"
    and sorted: "sorted_wrt (\<lambda>a b. length a \<le> length b) xs"
    and body: "\<And>i x t. i < de_len e \<Longrightarrow> x \<in> set xs \<Longrightarrow> clobbered e B i t \<Longrightarrow> last_len t \<le> length x \<Longrightarrow> d_dict t = d_dict s \<Longrightarrow>
      fpost (body i x t) (\<lambda>s'. clobbered e B i s' \<and> last_len s' \<le> length x \<and> same t s') (\<lambda>s'. out_buf s' = B)"
    and t: "out_buf t = B" "same s t"
  shows "fpost (fbind (for_each [0..<de_len e] (\<lambda>i s. check_pos h e i (\<lambda>s.
          fbind (for_each xs (body i) (s\<lparr>stage_cur_byte := i\<rparr>)) (restore_clobbered e i)) (s\<lparr>last_len := 0\<rparr>)) t)
        (end_stage h st)) (\<lambda>s'. out_buf s' = B \<and> same s s') (\<lambda>s'. out_buf s' = B)"
proof -
  note ok = det_okD [OF e]
  let ?I = "\<lambda>(ys :: nat list) (u :: ('w, 'r) det). out_buf u = B \<and> same s u"
  let ?C = "\<lambda>s'. out_buf s' = B"
  have "fpost (for_each [0..<de_len e] (\<lambda>i s. check_pos h e i (\<lambda>s.
      fbind (for_each xs (body i) (s\<lparr>stage_cur_byte := i\<rparr>)) (restore_clobbered e i)) (s\<lparr>last_len := 0\<rparr>)) t) (?I []) ?C"
  proof (rule for_each_inv [where I = ?I])
    fix i ys and u :: "('w, 'r) det" assume i: "set (i # ys) \<subseteq> set [0..<de_len e]" and I: "?I (i # ys) u"
    have piece: "fpost (fbind (for_each xs (body i) v) (restore_clobbered e i)) (\<lambda>s'. out_buf s' = B \<and> same s s') ?C"
      if v: "out_buf v = B" "last_len v = 0" "same s v" for v :: "('w, 'r) det"
    proof -
      let ?J = "\<lambda>(ys :: bytes list) (w :: ('w, 'r) det). clobbered e B i w \<and> sorted_wrt (\<lambda>a b. length a \<le> length b) ys \<and>
         (\<forall>y\<in>set ys. last_len w \<le> length y) \<and> same s w"
      have loop: "fpost (for_each xs (body i) v) (?J []) ?C"
      proof (rule for_each_inv [where I = ?J])
        fix x ys w assume sub: "set (x # ys) \<subseteq> set xs" and J: "?J (x # ys) w"
        have "fpost (body i x w) (\<lambda>s'. clobbered e B i s' \<and> last_len s' \<le> length x \<and> same w s') ?C"
          by (rule body) (use sub J i in \<open>auto simp: same_def\<close>)
        then show "fpost (body i x w) (?J ys) ?C"
          by (rule fpost_mono) (use J in \<open>auto simp: same_def intro: order_trans\<close>)
      next
        show "?J xs v" using v i sorted by (auto simp: clobbered_def over_def)
      qed
      show ?thesis
        by (rule fpost_fbind [OF loop], rule fpost_mono [OF restore_ok]) (use B ok in \<open>auto simp: same_def\<close>)
    qed
    show "fpost (check_pos h e i (\<lambda>s. fbind (for_each xs (body i) (s\<lparr>stage_cur_byte := i\<rparr>)) (restore_clobbered e i))
        (u\<lparr>last_len := 0\<rparr>)) (?I ys) ?C"
      by (rule check_pos_rule [where lg = "\<lambda>_. []"])
        (use I i ok in \<open>auto simp: same_def intro!: fpost_mono [OF piece]\<close>)
  qed (use t in auto)
  then show ?thesis by (rule fpost_fbind) (auto simp: end_stage_def Let_def same_def)
qed

context rng_source
begin

lemma drop_by_chance_ok:
  assumes "h_rand h = rb"
  shows "safe (drop_by_chance h e s) (\<lambda>(gone, s'). \<exists>r. s' = s\<lparr>d_rng := r\<rparr>)"
proof (cases "length (d_extras (d_dict s)) > de_max_det_extras e")
  case True
  have "safe (rb (length (d_extras (d_dict s))) (d_rng s)) (\<lambda>_. True)" by (rule safe_mono [OF rb_safe]) auto
  with True assms show ?thesis
    by (cases "rb (length (d_extras (d_dict s))) (d_rng s)") (auto simp: drop_by_chance_def Let_def)
next
  case False
  then show ?thesis by (simp add: drop_by_chance_def Let_def exI [of _ "d_rng s"])
qed

lemma det_extras_over_ok:
  fixes h :: "('w, 'r) host" and s :: "('w, 'r) det"
  assumes h: "h_rand h = rb" and e: "det_ok e B" and B: "out_buf s = B" "take (de_len e) (de_in_buf e) = take (de_len e) B"
    "de_len e \<le> length (de_in_buf e)" and xs: "extras_ok (d_extras (d_dict s))"
  shows "fpost (det_extras_over h e s) (\<lambda>s'. out_buf s' = B \<and> same s s') (\<lambda>s'. out_buf s' = B)"
  unfolding det_extras_over_def Let_def
proof (rule over_stage [OF e B(2,3)])
  show "sorted_wrt (\<lambda>a b. length a \<le> length b) (d_extras (d_dict s))" using xs by (simp add: extras_ok_def)
  fix i and x :: bytes and t :: "('w, 'r) det"
  assume a: "i < de_len e" "clobbered e B i t" "last_len t \<le> length x"
  let ?Q = "\<lambda>s'. clobbered e B i s' \<and> last_len s' \<le> length x \<and> same t s'"
  have each: "fpost (overwrite_token h e i x (t\<lparr>d_rng := r\<rparr>)) ?Q (\<lambda>s'. out_buf s' = B)" for r
    by (rule fpost_mono [OF overwrite_token_ok]) (use a det_okD [OF e] in \<open>auto simp: clobbered_def same_def\<close>)
  have skip: "fpost (skip_value (t\<lparr>d_rng := r\<rparr>)) ?Q (\<lambda>s'. out_buf s' = B)" for r
    using a by (auto simp: skip_value_def clobbered_def same_def)
  show "fpost (ebind (drop_by_chance h e t) (\<lambda>(gone, s). if gone then skip_value s else overwrite_token h e i x s))
      ?Q (\<lambda>s'. out_buf s' = B)"
    using drop_by_chance_ok [OF h, of e t] each skip
    by (cases "drop_by_chance h e t") auto
qed (auto simp: B(1) same_def set_val_type_def begin_stage_def)

end

lemma det_auto_over_ok:
  fixes h :: "('w, 'r) host" and s :: "('w, 'r) det"
  assumes e: "det_ok e B" and B: "out_buf s = B" "take (de_len e) (de_in_buf e) = take (de_len e) B"
    "de_len e \<le> length (de_in_buf e)" and as: "auto_ok (d_a_extras (d_dict s))"
  shows "fpost (det_auto_over h e s) (\<lambda>s'. out_buf s' = B \<and> same s s') (\<lambda>s'. out_buf s' = B)"
  unfolding det_auto_over_def Let_def
proof (rule over_stage [OF e B(2,3)])
  show "sorted_wrt (\<lambda>a b. length a \<le> length b) (take USE_AUTO_EXTRAS (map ae_data (d_a_extras (d_dict s))))"
    using as by (simp add: auto_ok_def take_map sorted_wrt_map)
  fix i and x :: bytes and t :: "('w, 'r) det"
  assume a: "i < de_len e" "clobbered e B i t" "last_len t \<le> length x"
  show "fpost (overwrite_token h e i x t) (\<lambda>s'. clobbered e B i s' \<and> last_len s' \<le> length x \<and> same t s')
      (\<lambda>s'. out_buf s' = B)"
    by (rule overwrite_token_ok) (use a det_okD [OF e] in auto)
qed (auto simp: B(1) same_def set_val_type_def begin_stage_def)

end
