(* ===== verification/AFL_AllocProps.thy ===== *)
theory AFL_AllocProps
  imports AFL_Alloc
begin

text \<open>
  The growing buffers: \<open>next_pow2\<close> spreads the highest bit to the right, 32 places far, so it is
  the next power of two up to \<open>2 ^ 32\<close> and only an upper bound above; this is enough for
  \<open>afl_realloc\<close> to return a buffer of the size that is asked for.
\<close>

section \<open>Spreading bits\<close>

definition spread :: "nat \<Rightarrow> u64 \<Rightarrow> u64 \<Rightarrow> bool" where
  "spread m x y \<longleftrightarrow> (\<forall>i. bit y i \<longleftrightarrow> (\<exists>d<m. bit x (i + d)))"

lemma spread_1: "spread 1 x x"
  by (simp add: spread_def)

lemma spread_step:
  assumes "spread m x y"
  shows "spread (m + m) x (y OR drop_bit m y)"
  unfolding spread_def
proof (intro allI)
  fix i
  have "bit (y OR drop_bit m y) i \<longleftrightarrow> (\<exists>d<m. bit x (i + d)) \<or> (\<exists>d<m. bit x (m + i + d))"
    using assms by (simp add: spread_def bit_or_iff bit_drop_bit_eq)
  also have "\<dots> \<longleftrightarrow> (\<exists>d<m + m. bit x (i + d))"
  proof (intro iffI)
    assume "\<exists>d<m + m. bit x (i + d)"
    then obtain d where d: "d < m + m" "bit x (i + d)" by blast
    show "(\<exists>d<m. bit x (i + d)) \<or> (\<exists>d<m. bit x (m + i + d))"
    proof (cases "d < m")
      case False
      then have "d - m < m" "m + i + (d - m) = i + d" using d by auto
      then show ?thesis using d(2) by metis
    qed (use d in blast)
  next
    assume "(\<exists>d<m. bit x (i + d)) \<or> (\<exists>d<m. bit x (m + i + d))"
    then show "\<exists>d<m + m. bit x (i + d)"
    proof (elim disjE exE conjE)
      fix d assume "d < m" "bit x (m + i + d)"
      then show ?thesis by (intro exI [of _ "m + d"]) (simp add: ac_simps)
    qed (meson trans_less_add1)
  qed
  finally show "bit (y OR drop_bit m y) i \<longleftrightarrow> (\<exists>d<m + m. bit x (i + d))" .
qed

lemma next_pow2_spread: "\<exists>y. spread 32 (n - 1) y \<and> next_pow2 n = y + 1"
proof -
  define x where "x = n - 1"
  define y1 y2 y3 y4 y5 where y: "y1 = x OR drop_bit 1 x" "y2 = y1 OR drop_bit 2 y1" "y3 = y2 OR drop_bit 4 y2"
    "y4 = y3 OR drop_bit 8 y3" "y5 = y4 OR drop_bit 16 y4"
  have "spread 2 x y1" using spread_step [OF spread_1 [of x]] by (simp add: y(1) numeral_2_eq_2)
  from spread_step [OF this] have "spread 4 x y2" by (simp add: y(2))
  from spread_step [OF this] have "spread 8 x y3" by (simp add: y(3))
  from spread_step [OF this] have "spread 16 x y4" by (simp add: y(4))
  from spread_step [OF this] have "spread 32 x y5" by (simp add: y(5))
  then show ?thesis by (auto simp: next_pow2_def Let_def x_def y)
qed

text \<open>The spread of a number that fits 32 bits is a mask.\<close>

lemma spread_mask:
  assumes y: "spread 32 x y" and x: "unat x < 2 ^ k" "k \<le> 32" "k = 0 \<or> 2 ^ (k - 1) \<le> unat x"
  shows "y = mask k"
proof (rule bit_word_eqI)
  fix i assume "i < LENGTH(64)"
  have high: "\<not> bit x j" if "k \<le> j" for j
  proof -
    have "bit (unat x) j \<longleftrightarrow> bit x j" by (simp add: bit_unsigned_iff)
    moreover have "\<not> bit (unat x) j"
    proof -
      have "unat x < 2 ^ j" using x(1) that by (meson less_le_trans one_le_numeral power_increasing)
      then show ?thesis by (simp add: bit_iff_odd)
    qed
    ultimately show ?thesis by simp
  qed
  have top: "bit x (k - 1)" if "k \<noteq> 0"
  proof -
    have "unat x div 2 ^ (k - 1) = 1"
    proof (rule div_nat_eqI)
      show "2 ^ (k - 1) * 1 \<le> unat x" using x(3) that by simp
      show "unat x < 2 ^ (k - 1) * Suc 1" using x(1) that by (simp add: power_eq_if)
    qed
    then have "bit (unat x) (k - 1)" by (simp add: bit_iff_odd)
    then show ?thesis by (simp add: bit_unsigned_iff)
  qed
  show "bit y i \<longleftrightarrow> bit (mask k :: u64) i"
  proof (cases "i < k")
    case True
    then have "k - 1 - i < 32" "i + (k - 1 - i) = k - 1" "k \<noteq> 0" using x(2) by auto
    then have "bit y i" using y top by (metis spread_def)
    then show ?thesis using True x(2) by (simp add: bit_mask_iff)
  next
    case False
    then have "\<not> bit y i" using y high by (auto simp: spread_def)
    then show ?thesis using False by (simp add: bit_mask_iff)
  qed
qed

lemma bit_length: "\<exists>k. n < 2 ^ k \<and> (k = 0 \<or> 2 ^ (k - 1) \<le> (n :: nat))"
proof -
  define k where "k = (LEAST k. n < 2 ^ k)"
  have "n < 2 ^ n" by (rule less_exp)
  then have "n < 2 ^ k" unfolding k_def by (rule LeastI)
  moreover have "2 ^ (k - 1) \<le> n" if "k \<noteq> 0"
  proof -
    have "k - 1 < (LEAST k. n < 2 ^ k)" using that by (simp add: k_def [symmetric])
    then have "\<not> n < 2 ^ (k - 1)" by (rule not_less_Least)
    then show ?thesis by (simp only: not_less)
  qed
  ultimately have "n < 2 ^ k \<and> (k = 0 \<or> 2 ^ (k - 1) \<le> n)" by (cases "k = 0") simp_all
  then show ?thesis by (rule exI)
qed

lemma next_pow2_small:
  assumes "0 < unat n" "unat n \<le> 2 ^ 32"
  shows "\<exists>k\<le>32. next_pow2 n = 2 ^ k \<and> unat n \<le> 2 ^ k \<and> (k = 0 \<or> 2 ^ (k - 1) < unat n)"
proof -
  from next_pow2_spread obtain y where y: "spread 32 (n - 1) y" "next_pow2 n = y + 1" by blast
  have x: "unat (n - 1) = unat n - 1" using assms(1) by (simp add: unat_minus_one unat_gt_0)
  from bit_length obtain k where k: "unat (n - 1) < 2 ^ k" "k = 0 \<or> 2 ^ (k - 1) \<le> unat (n - 1)" by blast
  have "k \<le> 32"
  proof (rule ccontr)
    assume "\<not> k \<le> 32"
    then have "(2 :: nat) ^ 32 \<le> 2 ^ (k - 1)" by (intro power_increasing) auto
    with k(2) \<open>\<not> k \<le> 32\<close> x assms show False by simp
  qed
  then have "next_pow2 n = 2 ^ k"
    using spread_mask [OF y(1) k(1) _ k(2)] y(2) by (simp add: mask_eq_exp_minus_1)
  moreover have "unat n \<le> 2 ^ k" "k = 0 \<or> 2 ^ (k - 1) < unat n" using k x assms(1) by linarith+
  ultimately show ?thesis using \<open>k \<le> 32\<close> by blast
qed

lemma next_pow2_ge: "next_pow2 n = 0 \<or> n \<le> next_pow2 n"
proof -
  from next_pow2_spread obtain y where y: "spread 32 (n - 1) y" "next_pow2 n = y + 1" by blast
  have sub: "bit y i" if "bit (n - 1) i" for i
    using y(1) that by (auto simp: spread_def intro: exI [of _ 0])
  have "(n - 1) AND y = n - 1" by (rule bit_word_eqI) (auto simp: bit_and_iff sub)
  then have "n - 1 \<le> y" by (metis word_and_le1)
  then have "unat (n - 1) \<le> unat y" by (simp add: word_le_nat_alt)
  show ?thesis
  proof (cases "y + 1 = 0 \<or> n = 0")
    case False
    then have "unat (y + 1 - 1) = unat (y + 1) - 1" "unat (n - 1) = unat n - 1" "0 < unat n" "0 < unat (y + 1)"
      by (simp_all only: unat_minus_one unat_gt_0 de_Morgan_disj not_False_eq_True simp_thms)
    with \<open>unat (n - 1) \<le> unat y\<close> have "unat n \<le> unat (y + 1)" by simp
    then show ?thesis using y(2) by (simp add: word_le_nat_alt)
  qed (auto simp: y(2))
qed

section \<open>Growing\<close>

lemma afl_realloc_Some:
  assumes "afl_realloc alloc_ok buf n = Some b" "n + 8 < 2 ^ 64"
  shows "n \<le> length b \<and> (\<exists>k. b = contents buf @ replicate k 0)"
proof -
  let ?n = "n + AFL_ALLOC_SIZE_OFFSET"
  let ?p = "next_pow2 (word_of_nat ?n)"
  define m where "m = (if ?n < INITIAL_GROWTH_SIZE then INITIAL_GROWTH_SIZE
           else if ?p = 0 then ?n else unat ?p)"
  have "?n \<le> unat ?p" if "?p \<noteq> 0"
  proof -
    have "word_of_nat ?n \<le> ?p" using next_pow2_ge that by blast
    then have "unat (word_of_nat ?n :: u64) \<le> unat ?p" by (simp only: word_le_nat_alt)
    moreover have "unat (word_of_nat ?n :: u64) = ?n"
      using assms(2) by (simp only: unat_of_nat) (simp add: take_bit_eq_mod AFL_ALLOC_SIZE_OFFSET_def)
    ultimately show ?thesis by simp
  qed
  then have m: "?n \<le> m" by (simp add: m_def)
  show ?thesis
  proof (cases "?n \<le> complete_size buf")
    case True
    with assms(1) have "buf = Some b" by (simp add: afl_realloc_def Let_def)
    with True show ?thesis by (auto simp: complete_size_def contents_def intro: exI [of _ 0])
  next
    case False
    then have b: "b = contents buf @ replicate (m - AFL_ALLOC_SIZE_OFFSET - length (contents buf)) 0"
      using assms(1) unfolding afl_realloc_def Let_def m_def [symmetric] by (simp split: if_splits)
    have "n \<le> length b" using m by (simp add: b)
    with b show ?thesis by blast
  qed
qed

text \<open>
  \<open>afl_realloc\<close> returns NULL only when \<open>realloc\<close> fails, and otherwise a buffer that has at least
  the bytes that were asked for, starts with the old contents and is zero behind them. A buffer
  that is large enough is returned as it is.
\<close>

theorem afl_realloc_grows:
  assumes "n + 8 < 2 ^ 64"
  shows "case afl_realloc alloc_ok buf n of
      None \<Rightarrow> \<not> (\<forall>size. alloc_ok size)
    | Some b \<Rightarrow> n \<le> afl_alloc_bufsize (Some b) \<and> (\<exists>k. b = contents buf @ replicate k 0) \<and>
        (buf \<noteq> None \<and> n \<le> afl_alloc_bufsize buf \<longrightarrow> buf = Some b)"
proof (cases "afl_realloc alloc_ok buf n")
  case None
  then show ?thesis by (auto simp: afl_realloc_def Let_def complete_size_def AFL_ALLOC_SIZE_OFFSET_def split: if_splits)
next
  case (Some b)
  with afl_realloc_Some [OF Some assms] show ?thesis
    by (auto simp: afl_alloc_bufsize_def complete_size_def afl_realloc_def Let_def)
qed

theorem afl_realloc_grows_witness:
  "\<exists>b. afl_realloc (\<lambda>_. True) (Some [1, 2]) 100 = Some b \<and> 100 \<le> length b \<and> take 2 b = [1, 2]"
  using afl_realloc_grows [of 100 "\<lambda>_. True" "Some [1, 2]"]
  by (auto simp: afl_alloc_bufsize_def complete_size_def contents_def split: option.splits)

text \<open>
  \<open>next_pow2\<close> gives the least power of two that is at least its argument for the arguments from
  1 to \<open>2 ^ 32\<close>, and never a smaller value but 0. Its last shift is by 16, which covers 32 of the 64
  bits of a \<open>size_t\<close>: above \<open>2 ^ 32\<close> the result need not be a power of two.
\<close>

theorem next_pow2_correct:
  "(if 0 < unat n \<and> unat n \<le> 2 ^ 32
    then \<exists>k\<le>32. next_pow2 n = 2 ^ k \<and> unat n \<le> 2 ^ k \<and> (k = 0 \<or> 2 ^ (k - 1) < unat n)
    else next_pow2 n = 0 \<or> n \<le> next_pow2 n) \<and>
   next_pow2 (2 ^ 33 + 2) = 2 ^ 34 - 2"
proof
  have "next_pow2 0x200000002 = 0x3fffffffe" by (simp add: next_pow2_def Let_def)
  then show "next_pow2 (2 ^ 33 + 2) = 2 ^ 34 - 2" by simp
qed (use next_pow2_small [of n] next_pow2_ge [of n] in simp)

end
