(* ===== verification/AFL_DetInsert.thy ===== *)
theory AFL_DetInsert
  imports AFL_DetTokens AFL_AllocProps
begin

text \<open>
  The two insertion stages. Their scratch buffer is correct in front of the position at the
  indices whose byte was copied when the loop left them; the loop copies no byte at a position
  that the effector map skips.
\<close>

section \<open>One token\<close>

definition fits :: "det_env \<Rightarrow> bytes \<Rightarrow> bool" where
  "fits e x \<longleftrightarrow> de_len e + length x \<le> MAX_FILE"

text \<open>The scratch buffer has room for every token and has kept its first \<open>i\<close> bytes.\<close>

definition scratch :: "det_env \<Rightarrow> nat \<Rightarrow> bytes \<Rightarrow> ('w, 'r) det \<Rightarrow> bool" where
  "scratch e i pre s \<longleftrightarrow> (\<exists>T. ex_buf s = Some T \<and> de_len e + MAX_DICT_FILE \<le> length T \<and> take i T = pre)"

lemma memcpy_keeps:
  assumes "memcpy dst d src s n = Inr b" "i \<le> d"
  shows "take i b = take i dst" "length b = length dst"
  using assms by (auto simp: memcpy_def split: if_splits)

lemma insert_token_ok:
  fixes h :: "('w, 'r) host" and s :: "('w, 'r) det"
  assumes sc: "scratch e i pre s" and x: "length x \<le> MAX_DICT_FILE" and i: "i \<le> de_len e" "de_len e \<le> length (out_buf s)"
  shows "fpost (insert_token h e i x s) (\<lambda>s'. scratch e i pre s' \<and> out_buf s' = out_buf s \<and> d_dict s' = d_dict s \<and>
    (records h lg \<longrightarrow> lg (d_world s') = lg (d_world s) @
      (if fits e x then [pre @ x @ drop i (take (de_len e) (out_buf s))] else []))) C"
proof (cases "fits e x")
  case False
  then show ?thesis using sc by (auto simp: insert_token_def skip_value_def fits_def scratch_def)
next
  case True
  from sc obtain T where T: "ex_buf s = Some T" "de_len e + MAX_DICT_FILE \<le> length T" "take i T = pre"
    by (auto simp: scratch_def)
  let ?n = "length x" and ?len = "de_len e"
  define T1 where "T1 = pre @ x @ drop (i + ?n) T"
  define T2 where "T2 = pre @ x @ take (?len - i) (drop i (out_buf s)) @ drop (?len + ?n) T"
  have pre: "length pre = i" using T i by auto
  have room: "i + ?n \<le> length T" "?len + ?n \<le> length T" using T x i by auto
  have T1: "memcpy T i x 0 ?n = Inr T1" using room T by (simp add: mem_ok T1_def)
  have "length T1 = length T" using room pre by (simp add: T1_def)
  then have "memcpy T1 (i + ?n) (out_buf s) i (?len - i) =
      Inr (take (i + ?n) T1 @ take (?len - i) (drop i (out_buf s)) @ drop (i + ?n + (?len - i)) T1)"
    using i room by (intro memcpy_ok) auto
  also have "take (i + ?n) T1 = pre @ x" using pre by (simp add: T1_def)
  also have "drop (i + ?n + (?len - i)) T1 = drop (?len + ?n) T" using pre i by (simp add: T1_def ac_simps)
  finally have T2: "memcpy T1 (i + ?n) (out_buf s) i (?len - i) = Inr T2" by (simp add: T2_def)
  have len2: "length T2 = length T" using pre i room by (simp add: T2_def)
  have tail: "take (?len - i) (drop i (out_buf s)) = drop i (take ?len (out_buf s))" by (simp add: drop_take)
  have case_eq: "take (?len + ?n) T2 = pre @ x @ drop i (take ?len (out_buf s))"
    using pre i unfolding T2_def tail by simp
  let ?s = "s\<lparr>ex_buf := Some T2\<rparr>"
  have run: "fpost (run_case h T2 (?len + ?n) ?s) (\<lambda>s'. \<exists>w. s' = ?s\<lparr>d_world := w\<rparr> \<and>
      (records h lg \<longrightarrow> lg w = lg (d_world ?s) @ [take (?len + ?n) T2])) C"
    by (rule run_case_ran) (use len2 room in simp)
  have sc2: "scratch e i pre ?s" using T(2) len2 pre by (simp add: scratch_def T2_def)
  have "insert_token h e i x s = fbind (run_case h T2 (?len + ?n) ?s) count_value"
    using True T1 T2 T(1) by (simp add: insert_token_def fits_def with_ex_def contents_def not_less)
  moreover have "fpost (fbind (run_case h T2 (?len + ?n) ?s) count_value) (\<lambda>s'. scratch e i pre s' \<and>
      out_buf s' = out_buf s \<and> d_dict s' = d_dict s \<and> (records h lg \<longrightarrow> lg (d_world s') = lg (d_world s) @
      (if fits e x then [pre @ x @ drop i (take ?len (out_buf s))] else []))) C"
    by (rule fpost_fbind [OF run]) (use sc2 True case_eq in \<open>auto simp: count_value_def scratch_def\<close>)
  ultimately show ?thesis by simp
qed

section \<open>One position\<close>

definition insertions :: "det_env \<Rightarrow> bytes \<Rightarrow> bytes list \<Rightarrow> nat \<Rightarrow> bytes \<Rightarrow> bytes list" where
  "insertions e B xs i pre = map (\<lambda>x. pre @ x @ drop i (take (de_len e) B)) (filter (fits e) xs)"

lemma insert_tokens_ok:
  fixes h :: "('w, 'r) host" and s :: "('w, 'r) det"
  assumes "scratch e i pre s" "\<forall>x\<in>set xs. length x \<le> MAX_DICT_FILE" "i \<le> de_len e" "de_len e \<le> length B" "out_buf s = B"
  shows "fpost (for_each xs (insert_token h e i) s) (\<lambda>s'. scratch e i pre s' \<and> out_buf s' = B \<and> d_dict s' = d_dict s \<and>
    (records h lg \<longrightarrow> lg (d_world s') = lg (d_world s) @ insertions e B xs i pre)) C"
  using assms
proof (induction xs arbitrary: s)
  case (Cons x xs)
  have 1: "fpost (insert_token h e i x s) (\<lambda>s'. scratch e i pre s' \<and> out_buf s' = out_buf s \<and> d_dict s' = d_dict s \<and>
    (records h lg \<longrightarrow> lg (d_world s') = lg (d_world s) @
      (if fits e x then [pre @ x @ drop i (take (de_len e) (out_buf s))] else []))) C"
    by (rule insert_token_ok) (use Cons.prems in auto)
  show ?case
    by (simp, rule fpost_fbind [OF 1], rule fpost_mono [OF Cons.IH])
      (use Cons.prems in \<open>auto simp: insertions_def\<close>)
qed (simp add: insertions_def)

text \<open>What is known of the bytes in front of position \<open>k\<close>; \<open>b0\<close> is the first byte of the fresh buffer.\<close>

definition head_ok :: "det_env \<Rightarrow> bytes \<Rightarrow> u8 \<Rightarrow> nat \<Rightarrow> bytes \<Rightarrow> bool" where
  "head_ok e B b0 k pre \<longleftrightarrow> length pre = k \<and> (\<forall>j<k. de_eff e ! (j mod de_len e) \<noteq> 0 \<longrightarrow> pre ! j = B ! j) \<and>
     (de_eff e ! 0 = 0 \<longrightarrow> 0 < k \<longrightarrow> pre ! 0 = b0)"

lemma head_extend:
  assumes pre: "head_ok e B b0 k (take k T)" and k: "k < length T" "k = 0 \<Longrightarrow> de_eff e ! 0 = 0 \<Longrightarrow> c = b0"
    and c: "de_eff e ! (k mod de_len e) \<noteq> 0 \<Longrightarrow> c = B ! k"
  shows "head_ok e B b0 (Suc k) (take (Suc k) (T[k := c]))"
proof -
  have eq: "take (Suc k) (T[k := c]) = take k T @ [c]" using k(1) by (simp add: take_Suc_conv_app_nth)
  show ?thesis
    unfolding head_ok_def eq
    using pre k c by (auto simp: head_ok_def nth_append less_Suc_eq)
qed

section \<open>The loop over the positions\<close>

lemma upt_Cons_eqD: "x # ys = [i..<n] \<Longrightarrow> x = i \<and> ys = [Suc i..<n] \<and> i < n"
  by (cases "i < n") (auto simp: upt_conv_Cons)

lemma visits_Suc: "visits e pos L (Suc n) = visits e pos L n @ (if de_eff e ! pos n = 0 then [] else L n)"
  by (simp add: visits_def)

lemma visits_cong: "(\<And>i. i < n \<Longrightarrow> L i = L' i) \<Longrightarrow> visits e pos L n = visits e pos L' n"
  by (auto simp: visits_def intro!: arg_cong [where f = concat])

text \<open>The cases that are executed at the first \<open>n\<close> positions.\<close>

definition inserted :: "det_env \<Rightarrow> bytes \<Rightarrow> u8 \<Rightarrow> bytes list \<Rightarrow> nat \<Rightarrow> bytes list \<Rightarrow> bool" where
  "inserted e B b0 xs n L \<longleftrightarrow> (\<exists>pre. (\<forall>k<n. head_ok e B b0 k (pre k)) \<and>
     L = visits e (\<lambda>k. k mod de_len e) (\<lambda>k. insertions e B xs k (pre k)) n)"

lemma inserted_Suc:
  assumes "inserted e B b0 xs n L" "head_ok e B b0 n pre"
  shows "inserted e B b0 xs (Suc n) (L @ (if de_eff e ! (n mod de_len e) = 0 then [] else insertions e B xs n pre))"
proof -
  from assms(1) obtain f where f: "\<forall>k<n. head_ok e B b0 k (f k)"
    "L = visits e (\<lambda>k. k mod de_len e) (\<lambda>k. insertions e B xs k (f k)) n"
    by (auto simp: inserted_def)
  have "visits e (\<lambda>k. k mod de_len e) (\<lambda>k. insertions e B xs k ((f(n := pre)) k)) n = L"
    unfolding f(2) by (rule visits_cong) auto
  with f(1) assms(2) show ?thesis
    unfolding inserted_def by (intro exI [of _ "f(n := pre)"]) (simp add: visits_Suc less_Suc_eq)
qed

text \<open>The body of the loop.\<close>

definition insert_at :: "('w, 'r) host \<Rightarrow> det_env \<Rightarrow> bytes list \<Rightarrow> nat \<Rightarrow> ('w, 'r) det \<Rightarrow> ('w, 'r) det flow res" where
  "insert_at h e xs i = check_pos h e (i mod de_len e) (\<lambda>s.
     fbind (for_each xs (insert_token h e i) (s\<lparr>stage_cur_byte := i\<rparr>)) (copy_head i))"

lemma insert_all_at: "insert_all h e xs = for_each [0..<de_len e + 1] (insert_at h e xs)"
  by (simp only: insert_all_def insert_at_def [abs_def])

lemma insert_upto_ok:
  fixes h :: "('w, 'r) host" and s :: "('w, 'r) det"
  assumes e: "det_ok e B" and B: "out_buf s = B" and n: "n \<le> length B" "n \<le> de_len e + 1" and xs: "\<forall>x\<in>set xs. length x \<le> MAX_DICT_FILE"
    and ex: "ex_buf s = Some T" "de_len e + MAX_DICT_FILE \<le> length T"
  shows "fpost (for_each [0..<n] (insert_at h e xs) s) (\<lambda>s'. out_buf s' = B \<and> d_dict s' = d_dict s \<and>
      (\<exists>U. ex_buf s' = Some U \<and> de_len e + MAX_DICT_FILE \<le> length U) \<and>
      (records h lg \<longrightarrow> (\<exists>L. lg (d_world s') = lg (d_world s) @ L \<and> inserted e B (T ! 0) xs n L)))
    (\<lambda>s'. out_buf s' = B)" (is "fpost _ ?N ?C")
proof -
  note ok = det_okD [OF e]
  let ?len = "de_len e" and ?b0 = "T ! 0"
  define P where "P = (\<lambda>i (u :: ('w, 'r) det). \<exists>U L. out_buf u = B \<and>
    d_dict u = d_dict s \<and> ex_buf u = Some U \<and> ?len + MAX_DICT_FILE \<le> length U \<and> head_ok e B ?b0 i (take i U) \<and>
    (i = 0 \<longrightarrow> U ! 0 = ?b0) \<and> (records h lg \<longrightarrow> lg (d_world u) = lg (d_world s) @ L) \<and> inserted e B ?b0 xs i L)"
  define I where "I = (\<lambda>ys (u :: ('w, 'r) det). \<exists>i. ys = [i..<n] \<and> i \<le> n \<and> P i u)"
  have "inserted e B ?b0 xs 0 []" by (simp add: inserted_def visits_def)
  moreover have "head_ok e B ?b0 0 (take 0 T)" by (simp add: head_ok_def)
  ultimately have "P 0 s" unfolding P_def using B ex by blast
  then have start: "I [0..<n] s" unfolding I_def by blast
  have loop: "fpost (for_each [0..<n] (insert_at h e xs) s) (I []) ?C"
  proof (rule for_each_inv [where I = I])
    fix x ys and u :: "('w, 'r) det"
    assume "I (x # ys) u"
    then obtain i where i: "x # ys = [i..<n]" "P i u" unfolding I_def by blast
    from upt_Cons_eqD [OF i(1)] have x: "x < n" "ys = [Suc x..<n]" "P x u" using i(2) by auto
    then obtain U L where u: "out_buf u = B" "d_dict u = d_dict s"
      and U: "ex_buf u = Some U" "?len + MAX_DICT_FILE \<le> length U" and pre: "head_ok e B ?b0 x (take x U)" "x = 0 \<longrightarrow> U ! 0 = ?b0"
      and L: "records h lg \<longrightarrow> lg (d_world u) = lg (d_world s) @ L" "inserted e B ?b0 xs x L"
      unfolding P_def by blast
    have I_intro: "I ys v" if "P (Suc x) v" for v using that x unfolding I_def by auto
    have xlt: "x < length U" using x U n by (simp add: MAX_DICT_FILE_def)
    let ?m = "x mod ?len"
    have skipped: "I ys u" if z: "de_eff e ! ?m = 0"
    proof -
      have "head_ok e B ?b0 (Suc x) (take (Suc x) (U[x := U ! x]))"
        by (rule head_extend) (use pre xlt z in auto)
      moreover have "inserted e B ?b0 xs (Suc x) L" using inserted_Suc [OF L(2) pre(1)] z by simp
      ultimately have "P (Suc x) u" unfolding P_def using u U L(1) by (intro exI [of _ U] exI [of _ L]) simp
      then show ?thesis by (rule I_intro)
    qed
    have visited: "fpost (fbind (for_each xs (insert_token h e x) (u\<lparr>d_world := w, stage_cur_byte := x\<rparr>)) (copy_head x))
        (I ys) ?C" if w: "records h lg \<longrightarrow> lg w = lg (d_world u)" and nz: "de_eff e ! ?m \<noteq> 0" for w
    proof -
      let ?u = "u\<lparr>d_world := w, stage_cur_byte := x\<rparr>"
      have sc: "scratch e x (take x U) ?u" using U by (simp add: scratch_def)
      have "fpost (for_each xs (insert_token h e x) ?u) (\<lambda>s'. scratch e x (take x U) s' \<and> out_buf s' = B \<and>
          d_dict s' = d_dict ?u \<and> (records h lg \<longrightarrow> lg (d_world s') = lg (d_world ?u) @ insertions e B xs x (take x U))) ?C"
        by (rule insert_tokens_ok [OF sc xs]) (use u ok x n in auto)
      then show ?thesis
      proof (rule fpost_fbind)
        fix v :: "('w, 'r) det"
        assume v: "scratch e x (take x U) v \<and> out_buf v = B \<and> d_dict v = d_dict ?u \<and>
          (records h lg \<longrightarrow> lg (d_world v) = lg (d_world ?u) @ insertions e B xs x (take x U))"
        then obtain V where V: "ex_buf v = Some V" "?len + MAX_DICT_FILE \<le> length V" "take x V = take x U"
          by (auto simp: scratch_def)
        have lt: "x < length V" "x < length B" using V(2) x(1) n by (auto simp: MAX_DICT_FILE_def)
        have "head_ok e B ?b0 (Suc x) (take (Suc x) (V[x := B ! x]))"
          by (rule head_extend) (use pre V lt nz ok in auto)
        moreover have "inserted e B ?b0 xs (Suc x) (L @ insertions e B xs x (take x U))"
          using inserted_Suc [OF L(2) pre(1)] nz by simp
        ultimately have "P (Suc x) (v\<lparr>ex_buf := Some (V[x := B ! x])\<rparr>)"
          unfolding P_def using u v V w L(1)
          by (intro exI [of _ "V[x := B ! x]"] exI [of _ "L @ insertions e B xs x (take x U)"]) simp
        then have "I ys (v\<lparr>ex_buf := Some (V[x := B ! x])\<rparr>)" by (rule I_intro)
        moreover have "copy_head x v = Inr (Next (v\<lparr>ex_buf := Some (V[x := B ! x])\<rparr>))"
          using v V lt by (simp add: copy_head_def mem_ok with_ex_def contents_def)
        ultimately show "fpost (copy_head x v) (I ys) ?C" by simp
      qed
    qed
    show "fpost (insert_at h e xs x u) (I ys) ?C"
      unfolding insert_at_def by (rule check_pos_rule [where lg = lg]) (use ok u skipped visited in auto)
  qed (use start in simp)
  then show ?thesis
  proof (rule fpost_mono)
    fix u assume "I [] u"
    then obtain i where i: "[] = [i..<n]" "i \<le> n" "P i u" unfolding I_def by blast
    then have "i = n" by (metis le_antisym upt_eq_Nil_conv zero_le le_zero_eq)
    then have "P n u" using i by simp
    then show "?N u" unfolding P_def by blast
  qed
qed

lemma insert_all_ok:
  fixes h :: "('w, 'r) host" and s :: "('w, 'r) det"
  assumes e: "det_ok e B" and B: "out_buf s = B" "de_len e < length B" and xs: "\<forall>x\<in>set xs. length x \<le> MAX_DICT_FILE"
    and ex: "ex_buf s = Some T" "de_len e + MAX_DICT_FILE \<le> length T"
  shows "fpost (insert_all h e xs s) (\<lambda>s'. out_buf s' = B \<and> d_dict s' = d_dict s \<and>
      (records h lg \<longrightarrow> (\<exists>L. lg (d_world s') = lg (d_world s) @ L \<and> inserted e B (T ! 0) xs (de_len e + 1) L)))
    (\<lambda>s'. out_buf s' = B)"
  unfolding insert_all_at
  by (rule fpost_mono [OF insert_upto_ok [OF e B(1) _ _ xs ex, where lg = lg]]) (use B(2) in auto)

section \<open>The stages\<close>

definition first_byte :: "bytes option \<Rightarrow> u8" where
  "first_byte buf = (case contents buf of [] \<Rightarrow> 0 | b # _ \<Rightarrow> b)"

lemma insert_stage:
  fixes h :: "('w, 'r) host" and s t :: "('w, 'r) det"
  assumes e: "det_ok e B" and B: "out_buf s = B" "de_len e < length B" and xs: "\<forall>x\<in>set xs. length x \<le> MAX_DICT_FILE"
    and t: "out_buf t = out_buf s" "d_dict t = d_dict s" "d_world t = d_world s" "ex_buf t = ex_buf s"
  shows "fpost (fbind (grow_ex h e t) (\<lambda>s. fbind (insert_all h e xs s) (end_stage h st)))
    (\<lambda>s'. out_buf s' = B \<and> d_dict s' = d_dict s \<and>
      (records h lg \<longrightarrow> (\<exists>L. lg (d_world s') = lg (d_world s) @ L \<and> inserted e B (first_byte (ex_buf s)) xs (de_len e + 1) L)))
    (\<lambda>s'. out_buf s' = B)" (is "fpost _ ?N ?C")
proof (cases "afl_realloc (h_alloc_ok h) (ex_buf t) (de_len e + MAX_DICT_FILE)")
  case None
  then show ?thesis by (simp add: grow_ex_def)
next
  case (Some T)
  have "de_len e + MAX_DICT_FILE + 8 < 2 ^ 64" using det_okD [OF e] by (simp add: MAX_DICT_FILE_def)
  from afl_realloc_Some [OF Some this] obtain k where T: "de_len e + MAX_DICT_FILE \<le> length T" "T = contents (ex_buf t) @ replicate k 0"
    by blast
  have b0: "T ! 0 = first_byte (ex_buf s)"
  proof (cases "contents (ex_buf s)")
    case Nil
    with T t(4) have "k \<noteq> 0" by (auto simp: MAX_DICT_FILE_def)
    with Nil T t(4) show ?thesis by (simp add: first_byte_def)
  qed (use T t(4) in \<open>simp add: first_byte_def\<close>)
  let ?t = "t\<lparr>ex_buf := Some T\<rparr>"
  have "fpost (insert_all h e xs ?t) (\<lambda>s'. out_buf s' = B \<and> d_dict s' = d_dict ?t \<and>
      (records h lg \<longrightarrow> (\<exists>L. lg (d_world s') = lg (d_world ?t) @ L \<and> inserted e B (T ! 0) xs (de_len e + 1) L))) ?C"
    by (rule insert_all_ok [OF e _ B(2) xs _ T(1)]) (use B t in auto)
  then have "fpost (fbind (insert_all h e xs ?t) (end_stage h st)) ?N ?C"
    by (rule fpost_fbind) (use t b0 in \<open>auto simp: end_stage_def Let_def\<close>)
  with Some show ?thesis by (simp add: grow_ex_def)
qed

lemma det_extras_insert_ok:
  assumes "det_ok e B" "out_buf s = B" "de_len e < length B" "extras_ok (d_extras (d_dict s))"
  shows "fpost (det_extras_insert h e s)
    (\<lambda>s'. out_buf s' = B \<and> d_dict s' = d_dict s \<and> (records h lg \<longrightarrow> (\<exists>L. lg (d_world s') = lg (d_world s) @ L \<and>
       inserted e B (first_byte (ex_buf s)) (d_extras (d_dict s)) (de_len e + 1) L)))
    (\<lambda>s'. out_buf s' = B)"
  unfolding det_extras_insert_def Let_def
  by (rule insert_stage [OF assms(1-3)]) (use assms(4) in \<open>auto simp: extras_ok_def\<close>)

lemma det_auto_insert_ok:
  assumes "det_ok e B" "out_buf s = B" "de_len e < length B" "auto_ok (d_a_extras (d_dict s))"
  shows "fpost (det_auto_insert h e s)
    (\<lambda>s'. out_buf s' = B \<and> d_dict s' = d_dict s \<and> (records h lg \<longrightarrow> (\<exists>L. lg (d_world s') = lg (d_world s) @ L \<and>
       inserted e B (first_byte (ex_buf s)) (map ae_data (d_a_extras (d_dict s))) (de_len e + 1) L)))
    (\<lambda>s'. out_buf s' = B)"
  unfolding det_auto_insert_def Let_def
  by (rule insert_stage [OF assms(1-3)])
    (use assms(4) in \<open>force simp: auto_ok_def auto_token_def MAX_AUTO_EXTRA_def MAX_DICT_FILE_def\<close>)+

end
