(* ===== verification/AFL_DetCompose.thy ===== *)
theory AFL_DetCompose
  imports AFL_DetInsert
begin

text \<open>
  The stages composed. \<open>ready\<close> is what a stage needs and keeps, \<open>does\<close> adds the list of the test
  cases it has executed; the three lists \<open>bitflip_cases\<close>, \<open>arith_cases\<close> and \<open>interest_cases\<close> are
  the stages' specification: they are functions of the test case and the effector map alone.
\<close>

section \<open>What the stages keep\<close>

definition ready :: "bytes \<Rightarrow> ('w, 'r) det \<Rightarrow> bool" where
  "ready B s \<longleftrightarrow> out_buf s = B \<and> extras_ok (d_extras (d_dict s)) \<and> auto_ok (d_a_extras (d_dict s))"

definition does :: "('w, 'r) host \<Rightarrow> ('w \<Rightarrow> bytes list) \<Rightarrow> bytes \<Rightarrow> bytes list \<Rightarrow> ('w, 'r) det \<Rightarrow> ('w, 'r) det \<Rightarrow> bool" where
  "does h lg B L s s' \<longleftrightarrow> ready B s' \<and> (records h lg \<longrightarrow> lg (d_world s') = lg (d_world s) @ L)"

lemma does_ran:
  assumes "fpost m (ran h lg L s) (\<lambda>s'. out_buf s' = B)" "ready B s"
  shows "fpost m (does h lg B L s) (\<lambda>s'. out_buf s' = B)"
  by (rule fpost_mono [OF assms(1)]) (use assms(2) in \<open>auto simp: ran_def does_def ready_def\<close>)

lemma does_done:
  assumes "fpost m (stage_done h lg st mx n L s) (\<lambda>s'. out_buf s' = B)" "ready B s"
  shows "fpost m (does h lg B L s) (\<lambda>s'. out_buf s' = B)"
  by (rule does_ran [OF fpost_mono [OF assms(1)] assms(2)]) (auto simp: stage_done_def)

lemma does_seq:
  assumes "fpost m (does h lg B K s) C" "\<And>t. ready B t \<Longrightarrow> fpost (g t) (does h lg B L t) C"
  shows "fpost (fbind m g) (does h lg B (K @ L) s) C"
  by (rule fpost_fbind [OF assms(1)], rule fpost_mono [OF assms(2)]) (auto simp: does_def)

lemma does_nothing: "ready B s \<Longrightarrow> fpost (Inr (Next s)) (does h lg B [] s) C"
  by (simp add: does_def)

lemma does_if:
  assumes "ready B s" "c \<Longrightarrow> fpost (f s) (does h lg B L s) C"
  shows "fpost (if_stage c f s) (does h lg B (if c then L else []) s) C"
  using assms by (cases c) (simp_all add: if_stage_def does_def)

section \<open>The executed test cases\<close>

definition bitflip_cases :: "det_env \<Rightarrow> bytes \<Rightarrow> bytes list" where
  "bitflip_cases e B = (let n = de_len e in
     (take n B # flip_cases e B 1) @ flip_cases e B 2 @ flip_cases e B 4 @
     visits e (\<lambda>i. i) (\<lambda>i. [take n (B[i := B ! i XOR 0xFF])]) n @
     (if 2 \<le> n then visits e (\<lambda>i. i) (\<lambda>i. [take n (put16 B i (get16 B i XOR 0xFFFF))]) (n - 1) @
       (if 4 \<le> n then visits e (\<lambda>i. i) (\<lambda>i. [take n (put32 B i (get32 B i XOR 0xFFFFFFFF))]) (n - 3) else []) else []))"

definition arith_cases :: "det_env \<Rightarrow> bytes \<Rightarrow> bytes list" where
  "arith_cases e B = (let n = de_len e in
     if \<not> de_no_arith e then
       visits e (\<lambda>i. i) (\<lambda>i. concat (map (arith8_cases e B i) steps)) n @
       (if 2 \<le> n then visits e (\<lambda>i. i) (\<lambda>i. concat (map (arith16_cases e B i) steps)) (n - 1) @
         (if 4 \<le> n then visits e (\<lambda>i. i) (\<lambda>i. concat (map (arith32_cases e B i) steps)) (n - 3) else []) else [])
     else [])"

definition interest_cases :: "det_env \<Rightarrow> bytes \<Rightarrow> bytes list" where
  "interest_cases e B = (let n = de_len e in
     visits e (\<lambda>i. i) (\<lambda>i. concat (map (interest8_cases e B i) interesting_8)) n @
     (if \<not> de_no_arith e \<and> 2 \<le> n then visits e (\<lambda>i. i) (\<lambda>i. concat (map (interest16_cases e B i) interesting_16)) (n - 1) @
       (if 4 \<le> n then visits e (\<lambda>i. i) (\<lambda>i. concat (map (interest32_cases e B i) interesting_32)) (n - 3) else []) else []))"

lemma det_ariths_does:
  fixes h :: "('w, 'r) host" and s :: "('w, 'r) det"
  assumes e: "det_ok e B" and s: "ready B s"
  shows "fpost (det_ariths h e s) (does h lg B (arith_cases e B) s) (\<lambda>s'. out_buf s' = B)"
  unfolding det_ariths_def arith_cases_def Let_def
proof (rule does_if [OF s], rule does_seq)
  show "fpost (det_arith8 h e s) (does h lg B (visits e (\<lambda>i. i) (\<lambda>i. concat (map (arith8_cases e B i) steps)) (de_len e)) s)
      (\<lambda>s'. out_buf s' = B)"
    by (rule does_done [OF det_arith8_done [OF e]]) (use s in \<open>auto simp: ready_def\<close>)
next
  fix t :: "('w, 'r) det" assume t: "ready B t"
  then show "fpost (if_stage (2 \<le> de_len e) (\<lambda>s. fbind (det_arith16 h e s) (if_stage (4 \<le> de_len e) (det_arith32 h e))) t)
    (does h lg B (if 2 \<le> de_len e then visits e (\<lambda>i. i) (\<lambda>i. concat (map (arith16_cases e B i) steps)) (de_len e - 1) @
         (if 4 \<le> de_len e then visits e (\<lambda>i. i) (\<lambda>i. concat (map (arith32_cases e B i) steps)) (de_len e - 3) else []) else []) t)
    (\<lambda>s'. out_buf s' = B)"
    by (intro does_if does_seq does_done [OF det_arith16_done [OF e]] does_done [OF det_arith32_done [OF e]])
      (auto simp: ready_def)
qed

lemma det_interests_does:
  fixes h :: "('w, 'r) host" and s :: "('w, 'r) det"
  assumes e: "det_ok e B" and s: "ready B s"
  shows "fpost (det_interests h e s) (does h lg B (interest_cases e B) s) (\<lambda>s'. out_buf s' = B)"
  unfolding det_interests_def interest_cases_def Let_def
proof (rule does_seq)
  show "fpost (det_interest8 h e s)
      (does h lg B (visits e (\<lambda>i. i) (\<lambda>i. concat (map (interest8_cases e B i) interesting_8)) (de_len e)) s) (\<lambda>s'. out_buf s' = B)"
    by (rule does_done [OF det_interest8_done [OF e]]) (use s in \<open>auto simp: ready_def\<close>)
next
  fix t :: "('w, 'r) det" assume t: "ready B t"
  then show "fpost (if_stage (\<not> de_no_arith e \<and> 2 \<le> de_len e)
      (\<lambda>s. fbind (det_interest16 h e s) (if_stage (4 \<le> de_len e) (det_interest32 h e))) t)
    (does h lg B (if \<not> de_no_arith e \<and> 2 \<le> de_len e
       then visits e (\<lambda>i. i) (\<lambda>i. concat (map (interest16_cases e B i) interesting_16)) (de_len e - 1) @
         (if 4 \<le> de_len e then visits e (\<lambda>i. i) (\<lambda>i. concat (map (interest32_cases e B i) interesting_32)) (de_len e - 3) else [])
       else []) t) (\<lambda>s'. out_buf s' = B)"
    by (intro does_if does_seq does_done [OF det_interest16_done [OF e]] does_done [OF det_interest32_done [OF e]])
      (auto simp: ready_def)
qed

lemma wide_flips_does:
  assumes e: "det_ok e B" and s: "ready B s"
  shows "fpost (if_stage (2 \<le> de_len e) (\<lambda>s. fbind (det_flip16 h e s) (if_stage (4 \<le> de_len e) (det_flip32 h e))) s)
    (does h lg B (if 2 \<le> de_len e
       then visits e (\<lambda>i. i) (\<lambda>i. [take (de_len e) (put16 B i (get16 B i XOR 0xFFFF))]) (de_len e - 1) @
         (if 4 \<le> de_len e then visits e (\<lambda>i. i) (\<lambda>i. [take (de_len e) (put32 B i (get32 B i XOR 0xFFFFFFFF))]) (de_len e - 3) else [])
       else []) s) (\<lambda>s'. out_buf s' = B)"
  using s by (intro does_if does_seq does_ran [OF det_flip16_ran [OF e]] does_ran [OF det_flip32_ran [OF e]])
      (auto simp: ready_def)

lemma flip8_does:
  assumes e: "det_ok e B" and s: "ready B s"
  shows "fpost (det_flip8 h e s)
    (does h lg B (visits e (\<lambda>i. i) (\<lambda>i. [take (de_len e) (B[i := B ! i XOR 0xFF])]) (de_len e)) s) (\<lambda>s'. out_buf s' = B)"
  by (rule does_ran [OF det_flip8_ran [OF e]]) (use s in \<open>auto simp: ready_def\<close>)

lemma later_flips_does:
  fixes h :: "('w, 'r) host" and s :: "('w, 'r) det"
  assumes e: "det_ok e B" and s: "ready B s"
  shows "fpost (fbind (det_flip2 h e s) (\<lambda>s. fbind (det_flip4 h e s) (\<lambda>s. fbind (det_flip8 h e s)
        (if_stage (2 \<le> de_len e) (\<lambda>s. fbind (det_flip16 h e s) (if_stage (4 \<le> de_len e) (det_flip32 h e)))))))
      (does h lg B (flip_cases e B 2 @ flip_cases e B 4 @
         visits e (\<lambda>i. i) (\<lambda>i. [take (de_len e) (B[i := B ! i XOR 0xFF])]) (de_len e) @
         (if 2 \<le> de_len e then visits e (\<lambda>i. i) (\<lambda>i. [take (de_len e) (put16 B i (get16 B i XOR 0xFFFF))]) (de_len e - 1) @
           (if 4 \<le> de_len e then visits e (\<lambda>i. i) (\<lambda>i. [take (de_len e) (put32 B i (get32 B i XOR 0xFFFFFFFF))]) (de_len e - 3)
            else []) else [])) s) (\<lambda>s'. out_buf s' = B)"
proof (rule does_seq)
  show "fpost (det_flip2 h e s) (does h lg B (flip_cases e B 2) s) (\<lambda>s'. out_buf s' = B)"
    by (rule does_ran [OF det_flip2_ran [OF e]]) (use s in \<open>auto simp: ready_def\<close>)
next
  fix t :: "('w, 'r) det" assume t: "ready B t"
  show "fpost (fbind (det_flip4 h e t) (\<lambda>s. fbind (det_flip8 h e s)
        (if_stage (2 \<le> de_len e) (\<lambda>s. fbind (det_flip16 h e s) (if_stage (4 \<le> de_len e) (det_flip32 h e))))))
      (does h lg B (flip_cases e B 4 @
         visits e (\<lambda>i. i) (\<lambda>i. [take (de_len e) (B[i := B ! i XOR 0xFF])]) (de_len e) @
         (if 2 \<le> de_len e then visits e (\<lambda>i. i) (\<lambda>i. [take (de_len e) (put16 B i (get16 B i XOR 0xFFFF))]) (de_len e - 1) @
           (if 4 \<le> de_len e then visits e (\<lambda>i. i) (\<lambda>i. [take (de_len e) (put32 B i (get32 B i XOR 0xFFFFFFFF))]) (de_len e - 3)
            else []) else [])) t) (\<lambda>s'. out_buf s' = B)"
  proof (rule does_seq)
    show "fpost (det_flip4 h e t) (does h lg B (flip_cases e B 4) t) (\<lambda>s'. out_buf s' = B)"
      by (rule does_ran [OF det_flip4_ran [OF e]]) (use t in \<open>auto simp: ready_def\<close>)
  qed (rule does_seq [OF flip8_does [OF e] wide_flips_does [OF e]])
qed

context rng_source
begin

lemma det_bitflips_does:
  fixes h :: "('w, 'r) host" and s :: "('w, 'r) det"
  assumes h: "h_rand h = rb" "qsort_ok (h_sort h)" and e: "det_ok e B" and s: "ready B s"
    and tok: "tok_ok K s" "K + 8 * de_len e < 2147483648"
  shows "fpost (det_bitflips h e s) (does h lg B (bitflip_cases e B) s) (\<lambda>s'. out_buf s' = B)"
  unfolding det_bitflips_def bitflip_cases_def Let_def
proof (rule does_seq)
  have B: "out_buf s = B" using s by (simp add: ready_def)
  show "fpost (det_flip1 h e s) (does h lg B (take (de_len e) B # flip_cases e B 1) s) (\<lambda>s'. out_buf s' = B)"
    by (rule fpost_mono [OF det_flip1_ok [OF h e B tok, where lg = lg]]) (use s in \<open>auto simp: does_def ready_def\<close>)
qed (rule later_flips_does [OF e])

text \<open>The dictionary stages keep the test case as well; what they execute is not needed below.\<close>

lemma det_extras_keeps:
  fixes h :: "('w, 'r) host" and s :: "('w, 'r) det"
  assumes h: "h_rand h = rb" and e: "det_ok e B" "de_len e < length B"
    and in_buf: "take (de_len e) (de_in_buf e) = take (de_len e) B" "de_len e \<le> length (de_in_buf e)" and s: "ready B s"
  shows "fpost (det_extras h e s) (ready B) (\<lambda>s'. out_buf s' = B)"
proof -
  let ?C = "\<lambda>s' :: ('w, 'r) det. out_buf s' = B"
  have uo: "fpost (det_extras_over h e t) (ready B) ?C" if "ready B t" for t :: "('w, 'r) det"
    by (rule fpost_mono [OF det_extras_over_ok [OF h e(1) _ in_buf]]) (use that in \<open>auto simp: ready_def same_def\<close>)
  have ui: "fpost (det_extras_insert h e t) (ready B) ?C" if "ready B t" for t :: "('w, 'r) det"
    by (rule fpost_mono [OF det_extras_insert_ok [OF e(1) _ e(2), where lg = "\<lambda>_. []"]])
      (use that in \<open>auto simp: ready_def\<close>)
  have ao: "fpost (det_auto_over h e t) (ready B) ?C" if "ready B t" for t :: "('w, 'r) det"
    by (rule fpost_mono [OF det_auto_over_ok [OF e(1) _ in_buf]]) (use that in \<open>auto simp: ready_def same_def\<close>)
  have ai: "fpost (det_auto_insert h e t) (ready B) ?C" if "ready B t" for t :: "('w, 'r) det"
    by (rule fpost_mono [OF det_auto_insert_ok [OF e(1) _ e(2), where lg = "\<lambda>_. []"]])
      (use that in \<open>auto simp: ready_def\<close>)
  have opt: "fpost (if_stage c f t) (ready B) ?C" if "ready B t" "fpost (f t) (ready B) ?C" for c f t
    using that by (simp add: if_stage_def)
  show ?thesis
    unfolding det_extras_def by (intro fpost_fbind [where P = "ready B"] opt uo ui ao ai s)
qed

end

end
