(* ===== verification/AFL_DetReturn.thy ===== *)
theory AFL_DetReturn
  imports AFL_DetCompose
begin

text \<open>
  The deterministic stages return. When the target does not stop the fuzzer, the clock does not
  run out and memory is available, the only things that could keep a stage from handing over to the
  next one are an access outside a buffer and an error of the generator. Random numbers are drawn
  only when the user's dictionary is larger than \<open>max_det_extras\<close> or the automatic dictionary
  is full, so what matters of the state is the two dictionaries: the statements carry a predicate
  on them, and only the first stage, which collects tokens, changes it.
\<close>

section \<open>Which errors are possible\<close>

text \<open>\<open>E\<close> are the errors that are allowed beside the memory faults, \<open>J\<close> is what is kept of the dictionaries.\<close>

definition mem_only :: "err set \<Rightarrow> 'a res \<Rightarrow> bool" where
  "mem_only E m = (case m of Inl e \<Rightarrow> e = Fault \<or> e \<in> E | Inr x \<Rightarrow> True)"

definition fine :: "err set \<Rightarrow> (dict \<Rightarrow> bool) \<Rightarrow> ('w, 'r) det flow res \<Rightarrow> bool" where
  "fine E J m = (case m of Inl e \<Rightarrow> e = Fault \<or> e \<in> E
     | Inr fl \<Rightarrow> (case fl of Next s \<Rightarrow> J (d_dict s) | Custom s \<Rightarrow> False | Abandon s \<Rightarrow> False))"

named_theorems returns \<comment> \<open>what can only fail by an allowed error\<close>

lemma mem_only_simps [simp]: "mem_only E (Inr x)" "mem_only E (Inl e) \<longleftrightarrow> e = Fault \<or> e \<in> E"
  by (simp_all add: mem_only_def)

lemma fine_simps [simp]: "fine E J (Inr (Next s)) = J (d_dict s)" "\<not> fine E J (Inr (Custom s))" "\<not> fine E J (Inr (Abandon s))"
  "fine E J (Inl e) \<longleftrightarrow> e = Fault \<or> e \<in> E"
  by (simp_all add: fine_def)

lemma mem_only_ebind [returns]: "mem_only E m \<Longrightarrow> (\<And>x. mem_only E (f x)) \<Longrightarrow> mem_only E (ebind m f)"
  by (cases m) auto

lemma fine_ebind [returns]: "mem_only E m \<Longrightarrow> (\<And>x. fine E J (f x)) \<Longrightarrow> fine E J (ebind m f)"
  by (cases m) auto

lemma fine_seq:
  assumes "fine E I m" "\<And>s. I (d_dict s) \<Longrightarrow> fine E J (f s)"
  shows "fine E J (fbind m f)"
proof (cases m)
  case (Inr fl)
  with assms show ?thesis by (cases fl) auto
qed (use assms(1) in simp)

lemmas fine_fbind [returns] = fine_seq [of _ J _ J for J]

lemma fine_for_each [returns]:
  "(\<And>x s. J (d_dict s) \<Longrightarrow> fine E J (body x s)) \<Longrightarrow> J (d_dict s) \<Longrightarrow> fine E J (for_each xs body s)"
  by (induction xs arbitrary: s) (auto intro: fine_fbind)

text \<open>A counted loop whose rounds take the predicate forward.\<close>

lemma fine_counted:
  assumes "\<And>i s. i < n \<Longrightarrow> P i (d_dict s) \<Longrightarrow> fine E (P (Suc i)) (body i s)"
  shows "k \<le> n \<Longrightarrow> P k (d_dict s) \<Longrightarrow> fine E (P n) (for_each [k..<n] body s)"
proof (induction "n - k" arbitrary: k s)
  case (Suc d)
  then have "[k..<n] = k # [Suc k..<n]" by (simp add: upt_rec)
  moreover have "fine E (P (Suc k)) (body k s)" using Suc.hyps(2) Suc.prems assms by simp
  moreover have "fine E (P n) (for_each [Suc k..<n] body t)" if "P (Suc k) (d_dict t)" for t
    using Suc.hyps Suc.prems that by (intro Suc.hyps(1)) simp_all
  ultimately show ?case by (auto intro: fine_seq)
qed simp

lemma fine_if [returns]: "(c \<Longrightarrow> fine E J a) \<Longrightarrow> (\<not> c \<Longrightarrow> fine E J b) \<Longrightarrow> fine E J (if c then a else b)"
  by simp

lemma fine_prod [returns]: "(\<And>x y. p = (x, y) \<Longrightarrow> fine E J (f x y)) \<Longrightarrow> fine E J (case p of (x, y) \<Rightarrow> f x y)"
  by (cases p) simp

lemma fine_mono: "fine E I m \<Longrightarrow> (\<And>d. I d \<Longrightarrow> J d) \<Longrightarrow> fine E J m"
  by (auto simp: fine_def split: sum.splits flow.splits)

text \<open>An \<open>fpost\<close> statement about a computation that is \<open>fine\<close> is one about its result.\<close>

lemma fine_fpost: "fine E J m \<Longrightarrow> fpost m N C \<Longrightarrow> (\<exists>s. m = Inr (Next s) \<and> N s) \<or> (\<exists>e\<in>E. m = Inl e)"
  by (auto simp: fine_def fpost_def split: sum.splits flow.splits)

lemma mem_only_access [returns]:
  "mem_only E (load8 b i)" "mem_only E (store8 b i v8)" "mem_only E (load16 b i)" "mem_only E (store16 b i v16)"
  "mem_only E (load32 b i)" "mem_only E (store32 b i v32)" "mem_only E (memcpy b i src j n)" "mem_only E (same_at b i x)"
  by (simp_all add: load8_def store8_def load16_def store16_def load32_def store32_def memcpy_def same_at_def)

lemma mem_only_flips [returns]:
  "mem_only E (FLIP_BIT b i)" "mem_only E (flip_byte i b)" "mem_only E (flip_half i b)" "mem_only E (flip_word i b)"
  unfolding FLIP_BIT_def flip_byte_def flip_half_def flip_word_def by (intro returns)+

lemma mem_only_flip_bits [returns]: "mem_only E (flip_bits is b)"
  by (induction "is" arbitrary: b) (auto intro!: returns)

section \<open>The pieces\<close>

lemma fine_on_out [returns]: "(\<And>b. mem_only E (f b)) \<Longrightarrow> J (d_dict s) \<Longrightarrow> fine E J (on_out f s)"
  by (auto simp: on_out_def intro!: returns)

lemma fine_parts [returns]:
  "J (d_dict s) \<Longrightarrow> fine E J (skip_value s)" "J (d_dict s) \<Longrightarrow> fine E J (count_value s)" "J (d_dict s) \<Longrightarrow> fine E J (end_stage h st s)"
  by (simp_all add: skip_value_def count_value_def end_stage_def Let_def)

lemma fine_with_ex [returns]: "(\<And>b. mem_only E (f b)) \<Longrightarrow> J (d_dict s) \<Longrightarrow> fine E J (with_ex f s)"
  by (auto simp: with_ex_def intro!: returns)

lemma fine_walk [returns]: "(\<And>i s. J (d_dict s) \<Longrightarrow> fine E J (body i s)) \<Longrightarrow> J (d_dict s) \<Longrightarrow> fine E J (walk byte_of body s)"
  unfolding walk_def by (intro returns) simp_all

lemma fine_if_stage [returns]: "(\<And>s. J (d_dict s) \<Longrightarrow> fine E J (f s)) \<Longrightarrow> J (d_dict s) \<Longrightarrow> fine E J (if_stage c f s)"
  by (simp add: if_stage_def)

text \<open>A target, a clock and an allocator that do not interfere.\<close>

definition quiet :: "('w, 'r) host \<Rightarrow> bool" where
  "quiet h \<longleftrightarrow> (\<forall>b w. \<not> fst (h_fuzz h b w)) \<and> (\<forall>w. \<not> fst (h_timeout h w)) \<and> (\<forall>n. h_alloc_ok h n)"

lemma fine_run_case [returns]:
  assumes "quiet h" "J (d_dict s)"
  shows "fine E J (run_case h b n s)"
proof -
  have "fst (h_fuzz h (take n b) (d_world s)) = False" using assms by (simp add: quiet_def)
  then show ?thesis using assms(2) by (auto simp: run_case_def split: prod.splits)
qed

lemma fine_run_out [returns]: "quiet h \<Longrightarrow> J (d_dict s) \<Longrightarrow> fine E J (run_out h e s)"
  unfolding run_out_def by (rule returns)

lemma fine_check_pos:
  assumes "quiet h" "\<And>s. I (d_dict s) \<Longrightarrow> fine E J (k s)" "\<And>d. I d \<Longrightarrow> J d" "I (d_dict s)"
  shows "fine E J (check_pos h e i k s)"
proof -
  have "fst (h_timeout h (d_world s)) = False" using assms(1) by (simp add: quiet_def)
  then show ?thesis
    unfolding check_pos_def using assms(2-4) by (auto intro!: fine_ebind returns split: prod.splits)
qed

lemma fine_check [returns]:
  "quiet h \<Longrightarrow> (\<And>s. J (d_dict s) \<Longrightarrow> fine E J (k s)) \<Longrightarrow> J (d_dict s) \<Longrightarrow> fine E J (check_pos h e i k s)"
  by (rule fine_check_pos [where I = J])

lemma fine_grow_ex [returns]: "quiet h \<Longrightarrow> J (d_dict s) \<Longrightarrow> fine E J (grow_ex h e s)"
  by (auto simp: grow_ex_def quiet_def afl_realloc_def Let_def complete_size_def AFL_ALLOC_SIZE_OFFSET_def
      split: option.splits if_splits)

lemma fine_attempt [returns]:
  assumes "quiet h" "\<And>b. mem_only E (f b)" "J (d_dict s)"
  shows "fine E J (attempt h e skip vt v f s)" "fine E J (try_arith h e guard x vt v f s)"
    "fine E J (try_interest h e guard x y n le vt v f s)"
proof -
  show attempt: "fine E J (attempt h e skip vt v f s)" for skip
    unfolding attempt_def by (intro returns assms) (use assms(3) in simp_all)
  show "fine E J (try_arith h e guard x vt v f s)" "fine E J (try_interest h e guard x y n le vt v f s)"
    using attempt assms(3) by (simp_all add: try_arith_def try_interest_def could_be_bitflip_eq)
qed

section \<open>The generator\<close>

text \<open>
  \<open>undrawn\<close>: the user's dictionary is small enough to be used whole, or every error of the generator is
  allowed. \<open>gathers\<close>: the collecting of tokens takes \<open>P k\<close> to \<open>P (k + 1)\<close>, up to \<open>P n\<close>.
\<close>

definition rand_errors :: "('w, 'r) host \<Rightarrow> err set" where
  "rand_errors h = {err. \<exists>n r. h_rand h n r = Inl err}"

definition undrawn :: "('w, 'r) host \<Rightarrow> det_env \<Rightarrow> err set \<Rightarrow> (dict \<Rightarrow> bool) \<Rightarrow> bool" where
  "undrawn h e E J \<longleftrightarrow> (\<forall>d. J d \<longrightarrow> length (d_extras d) \<le> de_max_det_extras e) \<or> rand_errors h \<subseteq> E"

definition gathers :: "('w, 'r) host \<Rightarrow> err set \<Rightarrow> nat \<Rightarrow> (nat \<Rightarrow> dict \<Rightarrow> bool) \<Rightarrow> bool" where
  "gathers h E n P \<longleftrightarrow> (\<forall>k d. P k d \<longrightarrow> P (Suc k) d) \<and>
     (\<forall>k<n. \<forall>s. P k (d_dict s) \<longrightarrow> fine E (P (Suc k)) (add_collected h s))"

lemma mem_only_rand: "rand_errors h \<subseteq> E \<Longrightarrow> mem_only E (h_rand h n r)"
  by (cases "h_rand h n r") (auto simp: rand_errors_def)

lemma fine_chance [returns]:
  assumes "undrawn h e E J" "J (d_dict s)" "\<And>gone s. J (d_dict s) \<Longrightarrow> fine E J (f gone s)"
  shows "fine E J (ebind (drop_by_chance h e s) (\<lambda>(gone, s). f gone s))"
proof (cases "de_max_det_extras e < length (d_extras (d_dict s))")
  case False
  then show ?thesis using assms(2,3) by (simp add: drop_by_chance_def Let_def)
next
  case True
  then have "rand_errors h \<subseteq> E" using assms(1,2) by (auto simp: undrawn_def dest: leD)
  then have "mem_only E (h_rand h (length (d_extras (d_dict s))) (d_rng s))" by (rule mem_only_rand)
  then show ?thesis using True assms(2,3)
    by (cases "h_rand h (length (d_extras (d_dict s))) (d_rng s)") (auto simp: drop_by_chance_def Let_def)
qed

text \<open>Two cases: all errors of the generator are allowed, or the automatic dictionary has room.\<close>

lemma gathers_errors:
  assumes "rand_errors h \<subseteq> E"
  shows "gathers h E n (\<lambda>_ _. True)"
proof -
  have "mem_only E (maybe_add_auto qs (h_rand h) mem d r)" for qs mem d r
    unfolding maybe_add_auto_def Let_def
    using mem_only_rand [OF assms] by (auto intro!: mem_only_ebind split: option.split prod.splits)
  then have "fine E (\<lambda>_. True) (add_collected h s)" for s
    unfolding add_collected_def by (intro returns) simp_all
  then show ?thesis by (simp add: gathers_def)
qed

definition roomy :: "nat \<Rightarrow> nat \<Rightarrow> nat \<Rightarrow> nat \<Rightarrow> dict \<Rightarrow> bool" where
  "roomy x C L k d \<longleftrightarrow> length (d_extras d) \<le> x \<and> auto_ok (d_a_extras d) \<and> (\<forall>a\<in>set (d_a_extras d). ae_hit_cnt a \<le> C + k) \<and>
     length (d_a_extras d) \<le> L + k"

lemma gathers_roomy:
  assumes qs: "qsort_ok (h_sort h)" and C: "C + n < 2147483648" and L: "L + n \<le> MAX_AUTO_EXTRAS"
  shows "gathers h E n (roomy x C L)"
  unfolding gathers_def
proof (intro conjI allI impI)
  show "roomy x C L (Suc k) d" if "roomy x C L k d" for k d using that by (auto simp: roomy_def intro: le_SucI)
  show "fine E (roomy x C L (Suc k)) (add_collected h s)" if k: "k < n" and s: "roomy x C L k (d_dict s)" for k s
  proof -
    have "length (d_a_extras (d_dict s)) < MAX_AUTO_EXTRAS" "C + k < 2147483647" using k s C L by (auto simp: roomy_def)
    moreover have "auto_ok (d_a_extras (d_dict s))" "\<forall>a\<in>set (d_a_extras (d_dict s)). ae_hit_cnt a \<le> C + k" using s by (simp_all add: roomy_def)
    ultimately obtain d' where d': "maybe_add_auto (h_sort h) (h_rand h) (take (a_len s) (a_collect s)) (d_dict s) (d_rng s) = Inr (d', d_rng s)"
      "auto_ok (d_a_extras d')" "d_extras d' = d_extras (d_dict s)" "\<forall>a\<in>set (d_a_extras d'). ae_hit_cnt a \<le> C + k + 1"
      "length (d_a_extras d') \<le> length (d_a_extras (d_dict s)) + 1"
      using maybe_add_auto_room [OF qs, of "d_dict s" "C + k" "h_rand h" "take (a_len s) (a_collect s)" "d_rng s"] by blast
    then show ?thesis using s by (auto simp: add_collected_def roomy_def intro: le_SucI)
  qed
qed

section \<open>The first stage\<close>

lemma fine_collect_char [returns]: "J (d_dict s) \<Longrightarrow> fine E J (collect_char i s)"
  unfolding collect_char_def by (intro returns) simp_all

lemma fine_collect_token:
  assumes g: "gathers h E n P" and k: "i div 8 < n" and s: "P (i div 8) (d_dict s)"
  shows "fine E (P (Suc i div 8)) (collect_token h e i s)"
proof (cases "\<not> de_non_instrumented e \<and> i mod 8 = 7")
  case False
  have "P (Suc i div 8) (d_dict s)"
  proof (cases "i mod 8 = 7")
    case True
    then have "Suc i div 8 = Suc (i div 8)" by presburger
    then show ?thesis using g s by (simp add: gathers_def)
  next
    case False
    then have "Suc i div 8 = i div 8" by presburger
    then show ?thesis using s by simp
  qed
  then show ?thesis using False by (auto simp: collect_token_def)
next
  case True
  let ?k = "i div 8" and ?ck = "h_cksum h (d_world s)"
  have next8: "Suc i div 8 = Suc ?k" using conjunct2 [OF True] by presburger
  have add: "fine E (P (Suc ?k)) (add_collected h t)" if "P ?k (d_dict t)" for t
    using g k that by (simp add: gathers_def)
  have keep: "P (Suc ?k) (d_dict s)" using g s by (simp add: gathers_def)
  have a: "fine E (P (Suc ?k)) (fbind (collect_char i s) (add_collected h))"
    by (rule fine_seq [where I = "P ?k"]) (use s add in \<open>auto intro: returns\<close>)
  have b: "fine E (P (Suc ?k)) (fbind (add_collected h s) (\<lambda>s. Inr (Next (s\<lparr>a_len := 0, prev_cksum := ?ck\<rparr>))))"
    by (rule fine_seq [OF add [OF s]]) simp
  show ?thesis
    unfolding collect_token_def next8 Let_def if_P [OF True]
    by (rule fine_seq [where I = "P (Suc ?k)"]) (use a b keep in \<open>auto intro!: returns\<close>)
qed

lemma fine_flip1:
  assumes h: "quiet h" and g: "gathers h E (de_len e) P" and s: "P 0 (d_dict s)"
  shows "fine E (P (de_len e)) (det_flip1 h e s)"
proof -
  have mono: "P k d \<Longrightarrow> k \<le> j \<Longrightarrow> P j d" for k j d
    by (induction j) (use g in \<open>auto simp: gathers_def le_Suc_eq\<close>)
  let ?m = "u32_mul (de_len e) 8"
  have m: "?m \<le> de_len e * 8" by (simp add: u32_mul_def)
  then have le: "?m div 8 \<le> de_len e" by simp
  let ?round = "\<lambda>i. check_pos h e (i div 8) (\<lambda>s.
      fbind (on_out (flip_bits [i]) s) (\<lambda>s. fbind (run_out h e s) (\<lambda>s. fbind (on_out (flip_bits [i]) s) (collect_token h e i))))"
  have round: "fine E (P (Suc i div 8)) (?round i t)" if i: "i < ?m" and t: "P (i div 8) (d_dict t)" for i t
  proof -
    have k: "i div 8 < de_len e" using i m by (simp add: less_mult_imp_div_less)
    have "fine E (P (Suc i div 8)) (fbind (on_out (flip_bits [i]) u) (\<lambda>s. fbind (run_out h e s) (\<lambda>s. fbind (on_out (flip_bits [i]) s) (collect_token h e i))))"
      if "P (i div 8) (d_dict u)" for u
      by (rule fine_seq [where I = "P (i div 8)"] fine_collect_token [OF g k] returns h that | assumption)+
    then show ?thesis by (rule fine_check_pos [OF h, where I = "P (i div 8)"]) (use t mono in \<open>auto simp: div_le_mono\<close>)
  qed
  have loop: "fine E (P (de_len e)) (walk (\<lambda>i. i div 8) ?round t)" if "P 0 (d_dict t)" "stage_max t = ?m" for t
    unfolding walk_def that(2)
  proof (rule fine_seq [where I = "P (?m div 8)"])
    show "fine E (P (?m div 8)) (for_each [0..<?m] (\<lambda>i s. ?round i (s\<lparr>stage_cur := i, stage_cur_byte := i div 8\<rparr>)) t)"
      by (rule fine_counted [where P = "\<lambda>i. P (i div 8)"]) (use round that(1) in simp_all)
  qed (use mono le in auto)
  let ?s = "s\<lparr>stage_short := ''flip1'', stage_max := ?m, stage_name := ''bitflip 1/1'',
               stage_val_type := STAGE_VAL_NONE, orig_hit_cnt := h_hits h (d_world s)\<rparr>"
  have "run_out h e ?s = Inl Fault \<or> (\<exists>w. run_out h e ?s = Inr (Next (?s\<lparr>d_world := w\<rparr>)))"
    using h by (auto simp: run_out_def run_case_def quiet_def split: prod.splits) (metis fst_conv)
  then show ?thesis
  proof (elim disjE exE)
    fix w assume "run_out h e ?s = Inr (Next (?s\<lparr>d_world := w\<rparr>))"
    then have "det_flip1 h e s = fbind (walk (\<lambda>i. i div 8) ?round
        (?s\<lparr>d_world := w, prev_cksum := h_cksum h w, det_cksum := h_cksum h w\<rparr>)) (end_stage h STAGE_FLIP1)"
      by (simp add: det_flip1_def Let_def)
    moreover have "fine E (P (de_len e)) \<dots>"
      by (rule fine_seq [OF loop]) (use s in \<open>auto intro: returns\<close>)
    ultimately show ?thesis by simp
  qed (simp add: det_flip1_def Let_def)
qed

section \<open>The other stages\<close>

lemma begin_dict [simp]: "d_dict (begin_stage name short mx s) = d_dict s" "d_dict (set_val_type vt s) = d_dict s"
  by (simp_all add: begin_stage_def set_val_type_def)

lemma fine_flips [returns]:
  assumes "quiet h" "J (d_dict s)"
  shows "fine E J (det_flip2 h e s)" "fine E J (det_flip4 h e s)" "fine E J (det_flip8 h e s)"
    "fine E J (det_flip16 h e s)" "fine E J (det_flip32 h e s)"
  unfolding det_flip2_def det_flip4_def det_flip8_def det_flip16_def det_flip32_def count_eff_def Let_def
  by (intro returns assms(1); simp add: assms(2))+

lemma fine_steps [returns]:
  assumes "quiet h" "J (d_dict s)"
  shows "fine E J (arith8_step h e i o8 j s)" "fine E J (arith16_step h e i o16 j s)" "fine E J (arith32_step h e i o32 j s)"
    "fine E J (interest8_step h e i o8 v s)" "fine E J (interest16_step h e i o16 v s)" "fine E J (interest32_step h e i o32 v s)"
  unfolding arith8_step_def arith16_step_def arith32_step_def interest8_step_def interest16_step_def interest32_step_def
    could_be_bitflip_eq ebind_simps Let_def
  by (intro returns assms(1); simp add: assms(2))+

lemma fine_values [returns]:
  assumes "quiet h" "J (d_dict s)"
  shows "fine E J (det_arith8 h e s)" "fine E J (det_arith16 h e s)" "fine E J (det_arith32 h e s)"
    "fine E J (det_interest8 h e s)" "fine E J (det_interest16 h e s)" "fine E J (det_interest32 h e s)"
  unfolding det_arith8_def det_arith16_def det_arith32_def det_interest8_def det_interest16_def det_interest32_def
  by (intro returns assms(1); simp add: assms(2))+

lemma fine_overwrite [returns]: "quiet h \<Longrightarrow> J (d_dict s) \<Longrightarrow> fine E J (overwrite_token h e i x s)"
  unfolding overwrite_token_def by (intro returns) simp_all

lemma fine_insert [returns]: "quiet h \<Longrightarrow> J (d_dict s) \<Longrightarrow> fine E J (insert_token h e i x s)"
  unfolding insert_token_def by (intro returns) simp_all

lemma fine_copies [returns]: "J (d_dict s) \<Longrightarrow> fine E J (copy_head i s)" "J (d_dict s) \<Longrightarrow> fine E J (restore_clobbered e i s)"
  unfolding copy_head_def restore_clobbered_def by (intro returns; simp)+

lemma fine_tokens [returns]:
  assumes "quiet h" "undrawn h e E J" "J (d_dict s)"
  shows "fine E J (det_extras_over h e s)" "fine E J (det_auto_over h e s)"
    "fine E J (det_extras_insert h e s)" "fine E J (det_auto_insert h e s)"
  unfolding det_extras_over_def det_auto_over_def det_extras_insert_def det_auto_insert_def insert_all_def Let_def
  by (intro returns assms(1,2); simp add: assms(3))+

text \<open>The stages as a whole: tokens are collected once for every byte at most.\<close>

lemma fine_deterministic_stages:
  assumes h: "quiet h" and g: "gathers h E (de_len e) P" and u: "undrawn h e E (P (de_len e))" and s: "P 0 (d_dict s)"
  shows "fine E (P (de_len e)) (deterministic_stages h e s)"
proof -
  note first = fine_seq [OF fine_flip1 [OF h g s]]
  show ?thesis
    unfolding deterministic_stages_def det_bitflips_def det_ariths_def det_interests_def det_extras_def fbind_assoc
    by (rule first) (intro returns h u; simp)+
qed

end
