(* ===== verification/AFL_DetCover.thy ===== *)
theory AFL_DetCover
  imports AFL_DetCompose
begin

text \<open>
  Which test cases the lists of \<^verbatim>\<open>AFL_DetCompose\<close> contain: the changes of one byte that the filters
  skip are made by an earlier stage, those of two bytes need not be.
\<close>

section \<open>Flips inside a byte\<close>

definition flip_mask :: "nat \<Rightarrow> nat \<Rightarrow> u8" where
  "flip_mask a k = fold (\<lambda>j m. m XOR drop_bit j 128) [a..<a + k] 0"

lemma fold_xbit_byte:
  assumes "i < length B" "a + k \<le> 8"
  shows "fold xbit [8 * i + a..<8 * i + a + k] B = B[i := B ! i XOR flip_mask a k]"
  using assms(2)
proof (induction k)
  case (Suc k)
  then have "(8 * i + (a + k)) div 8 = i" "(8 * i + (a + k)) mod 8 = a + k" by simp_all
  moreover have "fold xbit [8 * i + a..<8 * i + a + Suc k] B =
      xbit (8 * i + (a + k)) (fold xbit [8 * i + a..<8 * i + a + k] B)" by (simp add: ac_simps)
  moreover have "flip_mask a (Suc k) = flip_mask a k XOR drop_bit (a + k) 128" by (simp add: flip_mask_def)
  ultimately show ?case using Suc assms(1) by (simp add: xbit_def xor.assoc)
qed (simp add: flip_mask_def)

lemma less_8_cases: "n < (8 :: nat) \<Longrightarrow> n = 0 \<or> n = 1 \<or> n = 2 \<or> n = 3 \<or> n = 4 \<or> n = 5 \<or> n = 6 \<or> n = 7"
  by auto

lemma flip_masks:
  "flip_mask 7 1 = 1" "flip_mask 6 1 = 2" "flip_mask 5 1 = 4" "flip_mask 4 1 = 8"
  "flip_mask 3 1 = 16" "flip_mask 2 1 = 32" "flip_mask 1 1 = 64" "flip_mask 0 1 = 128"
  "flip_mask 6 2 = 3" "flip_mask 5 2 = 6" "flip_mask 4 2 = 12" "flip_mask 3 2 = 24"
  "flip_mask 2 2 = 48" "flip_mask 1 2 = 96" "flip_mask 0 2 = 192"
  "flip_mask 4 4 = 15" "flip_mask 3 4 = 30" "flip_mask 2 4 = 60" "flip_mask 1 4 = 120" "flip_mask 0 4 = 240"
  by (simp_all add: flip_mask_def upt_rec)

lemma byte_pattern:
  fixes x :: u8
  assumes "flip_pattern (unat x)"
  shows "x = 0 \<or> x = 255 \<or> (\<exists>a k. k \<in> {1, 2, 4} \<and> a + k \<le> 8 \<and> x = flip_mask a k)"
proof -
  have w: "x = word_of_nat (unat x)" by simp
  have lt: "unat x < 256" using unsigned_less [of x] by simp
  show ?thesis
  proof (cases "unat x = 0")
    case True
    then show ?thesis using w by simp
  next
    case False
    with assms obtain sh where sh: "unat x = 2 ^ sh \<or> unat x = 3 * 2 ^ sh \<or> unat x = 15 * 2 ^ sh \<or>
        unat x = 255 * 2 ^ sh \<or> unat x = 65535 * 2 ^ sh \<or> unat x = 4294967295 * 2 ^ sh"
      unfolding flip_pattern_def by blast
    have le: "2 ^ sh \<le> unat x" using sh by (elim disjE) simp_all
    have "sh < 8"
    proof (rule ccontr)
      assume "\<not> sh < 8"
      then have "(2 :: nat) ^ 8 \<le> 2 ^ sh" by (intro power_increasing) auto
      with le lt show False by simp
    qed
    from less_8_cases [OF this] sh lt
    have "unat x \<in> {1, 2, 4, 8, 16, 32, 64, 128, 3, 6, 12, 24, 48, 96, 192, 15, 30, 60, 120, 240, 255}"
      by (elim disjE) simp_all
    then have "x \<in> {1, 2, 4, 8, 16, 32, 64, 128, 3, 6, 12, 24, 48, 96, 192, 15, 30, 60, 120, 240, 255}"
      by (subst w) (elim insertE emptyE; simp)
    then have "x = 255 \<or> x \<in> (\<lambda>(a, k). flip_mask a k) ` {(7, 1), (6, 1), (5, 1), (4, 1), (3, 1), (2, 1), (1, 1), (0, 1),
        (6, 2), (5, 2), (4, 2), (3, 2), (2, 2), (1, 2), (0, 2), (4, 4), (3, 4), (2, 4), (1, 4), (0, 4)}"
      unfolding image_insert image_empty prod.case flip_masks by blast
    then show ?thesis
    proof
      assume "x \<in> (\<lambda>(a, k). flip_mask a k) ` {(7, 1), (6, 1), (5, 1), (4, 1), (3, 1), (2, 1), (1, 1), (0, 1),
        (6, 2), (5, 2), (4, 2), (3, 2), (2, 2), (1, 2), (0, 2), (4, 4), (3, 4), (2, 4), (1, 4), (0, 4)}"
      then obtain a k where ak: "x = flip_mask a k" "(a, k) \<in> {(7, 1), (6, 1), (5, 1), (4, 1), (3, 1), (2, 1), (1, 1), (0, 1),
        (6, 2), (5, 2), (4, 2), (3, 2), (2, 2), (1, 2), (0, 2), (4, 4), (3, 4), (2, 4), (1, 4), (0, 4)}" by auto
      then have "k \<in> {1, 2, 4} \<and> a + k \<le> 8" by auto
      with ak(1) show ?thesis by blast
    qed simp
  qed
qed

section \<open>Changes of one byte\<close>

lemma unat_ucast_u8: "unat (ucast (x :: u8) :: u32) = unat x"
proof -
  have "unat x < 256" using unsigned_less [of x] by simp
  then show ?thesis by (simp add: unsigned_ucast_eq take_bit_eq_mod)
qed

lemma in_flip_cases:
  assumes i: "i < de_len e" "de_eff e ! i \<noteq> 0" "i < length B" and k: "k \<in> {1, 2, 4}" "a + k \<le> 8"
  shows "take (de_len e) (B[i := B ! i XOR flip_mask a k]) \<in> set (flip_cases e B k)"
proof -
  have pos: "(8 * i + a) div 8 = i" "8 * i + a < 8 * de_len e - (k - 1)" using i k by auto
  then show ?thesis
    unfolding flip_cases_def set_visits
    using i(2) by (auto intro!: bexI [of _ "8 * i + a"] simp: fold_xbit_byte [OF i(3) k(2)])
qed

lemma in_bitflip_cases:
  assumes e: "det_ok e B" and i: "i < de_len e" "de_eff e ! i \<noteq> 0" and x: "flip_pattern (unat (B ! i XOR v))"
  shows "take (de_len e) (B[i := v]) \<in> set (bitflip_cases e B)"
proof -
  have len: "i < length B" using det_okD [OF e] i by simp
  have v: "v = B ! i XOR (B ! i XOR v)" by (simp add: xor.assoc [symmetric])
  from byte_pattern [OF x] show ?thesis
  proof (elim disjE exE conjE)
    assume "B ! i XOR v = 0"
    then have "v = B ! i" using v by simp
    then show ?thesis by (simp add: bitflip_cases_def Let_def)
  next
    assume "B ! i XOR v = 255"
    then have "take (de_len e) (B[i := v]) \<in> set (visits e (\<lambda>i. i) (\<lambda>i. [take (de_len e) (B[i := B ! i XOR 0xFF])]) (de_len e))"
      unfolding set_visits using v i by auto
    then show ?thesis by (simp add: bitflip_cases_def Let_def)
  next
    fix a k :: nat assume k: "k \<in> {1, 2, 4}" "a + k \<le> 8" "B ! i XOR v = flip_mask a k"
    have "take (de_len e) (B[i := v]) \<in> set (flip_cases e B k)"
      using in_flip_cases [OF i len k(1,2)] v k(3) by simp
    with k(1) show ?thesis by (auto simp: bitflip_cases_def Let_def)
  qed
qed

lemma in_arith_cases:
  assumes e: "det_ok e B" and i: "i < de_len e" "de_eff e ! i \<noteq> 0" and arith: "\<not> de_no_arith e"
    and j: "j \<le> ARITH_MAX" "v = B ! i + word_of_nat j \<or> v = B ! i - word_of_nat j"
  shows "take (de_len e) (B[i := v]) \<in> set (bitflip_cases e B @ arith_cases e B)"
proof (cases "flip_pattern (unat (B ! i XOR v))")
  case True
  then show ?thesis using in_bitflip_cases [OF e i] by simp
next
  case False
  then have "v \<noteq> B ! i" by (auto simp: flip_pattern_def)
  then have "j \<in> set steps" using j by (cases "j = 0") (auto simp: ARITH_MAX_def)
  moreover have "take (de_len e) (B[i := v]) \<in> set (arith8_cases e B i j)"
    using j(2) False by (auto simp: arith8_cases_def tries_def Let_def unat_ucast_u8)
  ultimately have "take (de_len e) (B[i := v]) \<in> set (visits e (\<lambda>i. i) (\<lambda>i. concat (map (arith8_cases e B i) steps)) (de_len e))"
    unfolding set_visits set_concat set_map using i by blast
  then show ?thesis using arith by (simp add: arith_cases_def Let_def)
qed

lemma could_be_arith_byte:
  fixes a b :: u8
  assumes "could_be_arith (ucast a) (ucast b) 1"
  shows "\<exists>j\<le>ARITH_MAX. b = a + of_nat j \<or> b = a - of_nat (j :: nat)"
proof -
  have byte: "byte_at 0 (ucast x) = x" for x :: u8
    unfolding byte_at_def by (rule bit_word_eqI) (auto simp: bit_simps dest: bit_imp_le_length)
  have "near a b"
  proof (cases "a = b")
    case True
    then show ?thesis by (simp add: near_def)
  next
    case False
    then have ne: "(ucast a :: u32) \<noteq> ucast b" using byte [of a] byte [of b] by metis
    have "count_diffs byte_at (ucast a) (ucast b) 1 = (1, a, b)"
      using False by (simp add: count_diffs_def byte)
    with ne assms show ?thesis by (simp add: could_be_arith_def split: if_splits)
  qed
  then show ?thesis by (simp only: near_iff)
qed

lemma in_value_cases:
  assumes e: "det_ok e B" and i: "i < de_len e" "de_eff e ! i \<noteq> 0" and arith: "\<not> de_no_arith e"
    and v: "(\<exists>j\<le>ARITH_MAX. v = B ! i + word_of_nat j \<or> v = B ! i - word_of_nat j) \<or> v \<in> word_of_int ` set interesting_8"
  shows "take (de_len e) (B[i := v]) \<in> set (bitflip_cases e B @ arith_cases e B @ interest_cases e B)"
proof (cases "\<exists>j\<le>ARITH_MAX. v = B ! i + word_of_nat j \<or> v = B ! i - word_of_nat j")
  case True
  then show ?thesis using in_arith_cases [OF e i arith] by auto
next
  case False
  with v obtain w where w: "w \<in> set interesting_8" "v = word_of_int w" by blast
  have na: "\<not> could_be_arith (ucast (B ! i)) (ucast v) 1" using could_be_arith_byte False by blast
  show ?thesis
  proof (cases "flip_pattern (unat (B ! i XOR v))")
    case True
    then show ?thesis using in_bitflip_cases [OF e i] by simp
  next
    case False
    then have "take (de_len e) (B[i := v]) \<in> set (interest8_cases e B i w)"
      using na w(2) by (simp add: interest8_cases_def Let_def unat_ucast_u8)
    then have "take (de_len e) (B[i := v]) \<in>
        set (visits e (\<lambda>i. i) (\<lambda>i. concat (map (interest8_cases e B i) interesting_8)) (de_len e))"
      unfolding set_visits set_concat set_map using i w(1) by blast
    then show ?thesis by (simp add: interest_cases_def Let_def)
  qed
qed

section \<open>What is left out\<close>

text \<open>Without the arithmetic stages, the interesting values near the old value are still skipped.\<close>

lemma flip_mask_21: "k \<in> {1, 2, 4} \<Longrightarrow> a < 8 - (k - 1) \<Longrightarrow> flip_mask a k \<noteq> 21"
proof -
  assume "k \<in> {1, 2, 4}" and a: "a < 8 - (k - 1)"
  then have "list_all (\<lambda>a. flip_mask a k \<noteq> 21) [0..<8 - (k - 1)]"
    by (elim insertE emptyE; hypsubst) code_simp+
  with a show ?thesis by (simp add: list_all_iff)
qed

lemma not_in_flip_cases_5:
  assumes "de_len e = 1" "k \<in> {1, 2, 4}"
  shows "[16] \<notin> set (flip_cases e [5] k)"
proof
  assume "[16] \<in> set (flip_cases e [5] k)"
  then obtain a where a: "a < 8 - (k - 1)" "[16] = take 1 (fold xbit [a..<a + k] [5 :: u8])"
    unfolding flip_cases_def set_visits using assms(1) by auto
  have "fold xbit [8 * 0 + a..<8 * 0 + a + k] [5 :: u8] = [5 :: u8][0 := [5] ! 0 XOR flip_mask a k]"
    by (rule fold_xbit_byte) (use a assms(2) in auto)
  with a(2) have "5 XOR flip_mask a k = 16" by simp
  then have "5 XOR (5 XOR flip_mask a k) = 5 XOR 16" by simp
  then have "flip_mask a k = 21" by (simp add: xor.assoc [symmetric])
  with flip_mask_21 [OF assms(2) a(1)] show False by simp
qed

lemma arith_5_16: "could_be_arith 5 16 (Suc 0)"
  by (simp add: could_be_arith_def count_diffs_def byte_at_def near_def ARITH_MAX_def Let_def)

lemma no_arith_cases:
  assumes "de_len e = 1" "de_no_arith e"
  shows "[16] \<notin> set (bitflip_cases e [5] @ arith_cases e [5] @ interest_cases e [5])"
proof -
  have "[16] \<notin> set (bitflip_cases e [5])"
    using not_in_flip_cases_5 [OF assms(1)] assms(1)
    by (auto simp: bitflip_cases_def Let_def set_visits)
  moreover have "[16] \<notin> set (interest8_cases e [5] 0 v)" for v
    using assms(1) arith_5_16 by (auto simp: interest8_cases_def Let_def)
  then have "[16] \<notin> set (interest_cases e [5])"
    using assms by (auto simp: interest_cases_def Let_def set_visits)
  ultimately show ?thesis using assms(2) by (simp add: arith_cases_def Let_def)
qed

text \<open>
  The filters see a 16-bit value in little-endian order, in which a flip of neighbouring bits may
  cross from the highest bit of a byte to the lowest of the next. \<open>FLIP_BIT\<close> counts the bits of a
  byte from the highest, so its neighbours cross from the lowest bit of a byte to the highest.
\<close>

abbreviation crossing :: bytes where "crossing \<equiv> [0xE0, 0]"

lemma get16_crossing: "get16 crossing 0 = 0xE0"
  by (simp add: get16_def)

lemma put16_crossing:
  assumes "[0, 1] = take 2 (put16 crossing 0 v)"
  shows "v = 0x100"
proof -
  have "put16 crossing 0 v = [0, 1]" using assms by (simp add: put16_def)
  moreover have "get16 (put16 crossing 0 v) 0 = v" by (rule get_put(1)) simp
  moreover have "get16 [0, 1] 0 = 0x100" by (simp add: get16_def)
  ultimately show ?thesis by simp
qed

lemma pattern_480: "flip_pattern 480"
  unfolding flip_pattern_def by (intro disjI2 exI [of _ 5]) simp

lemma tries_crossing:
  assumes "de_len e = 2"
  shows "[0, 1] \<notin> set (tries e g (ucast (0xE0 XOR v)) (put16 crossing 0 v))"
    "[0, 1] \<notin> set (tries_interest e g 0xE0 (ucast v) n le (put16 crossing 0 v))"
  using put16_crossing [of v] pattern_480 assms by (auto simp: tries_def tries_interest_def)

lemma flips_crossing:
  assumes "de_len e = 2" "k \<in> {1, 2, 4}"
  shows "[0, 1] \<notin> set (flip_cases e crossing k)"
proof -
  have "list_all (\<lambda>i. fold xbit [i..<i + k] crossing \<noteq> [0, 1]) [0..<16 - (k - 1)]"
    using assms(2) by (elim insertE emptyE; hypsubst) code_simp+
  then have "fold xbit [i..<i + k] crossing \<noteq> [0, 1]" if "i < 16 - (k - 1)" for i
    using that by (simp add: list_all_iff)
  moreover have "take 2 (fold xbit js crossing) = fold xbit js crossing" for js by (rule take_all) simp
  ultimately show ?thesis unfolding flip_cases_def set_visits using assms(1) by fastforce
qed

lemma byte_crossing: "[0, 1] \<noteq> take 2 (crossing[0 := v])" "[0, 1] \<noteq> take 2 (crossing[Suc 0 := v])"
  by simp_all

lemma crossing_cases:
  assumes e: "de_len e = 2"
  shows "[0, 1] \<notin> set (bitflip_cases e crossing @ arith_cases e crossing @ interest_cases e crossing)"
proof -
  have two: "i < 2 \<Longrightarrow> i = 0 \<or> i = Suc 0" for i by auto
  have "[0, 1] \<notin> set (bitflip_cases e crossing)"
    using flips_crossing [OF e] e
    by (auto simp: bitflip_cases_def Let_def set_visits put16_def get16_def dest!: two)
  moreover have a8: "[0, 1] \<notin> set (arith8_cases e crossing i j)" if "i < 2" for i j
    using two [OF that] e by (elim disjE) (auto simp: arith8_cases_def tries_def Let_def)
  have a16: "[0, 1] \<notin> set (arith16_cases e crossing 0 j)" for j
    unfolding arith16_cases_def Let_def get16_crossing set_append Un_iff de_Morgan_disj
    by (intro conjI tries_crossing [OF e])
  have "[0, 1] \<notin> set (arith_cases e crossing)"
    using a8 a16 e by (auto simp: arith_cases_def Let_def set_visits)
  moreover have i8: "[0, 1] \<notin> set (interest8_cases e crossing i v)" if "i < 2" for i v
    using two [OF that] e by (elim disjE) (auto simp: interest8_cases_def Let_def)
  have ucast_E0: "(ucast (0xE0 :: u16) :: u32) = 0xE0" by simp
  have i16: "[0, 1] \<notin> set (interest16_cases e crossing 0 v)" for v
    unfolding interest16_cases_def Let_def get16_crossing ucast_E0 set_append Un_iff de_Morgan_disj
    by (intro conjI tries_crossing [OF e])
  have "[0, 1] \<notin> set (interest_cases e crossing)"
    using i8 i16 e by (auto simp: interest_cases_def Let_def set_visits)
  ultimately show ?thesis by simp
qed

end
