(* ===== verification/AFL_DetProps.thy ===== *)
theory AFL_DetProps
  imports AFL_DetCover AFL_DetReturn
begin

text \<open>
  The properties of the deterministic stages. A target that only records its test cases is the
  concrete instance of the fuzzer's environment.
\<close>

section \<open>A recording target\<close>

definition recorder :: "(bytes list, rng) host" where
  "recorder = \<lparr>h_fuzz = \<lambda>b w. (False, w @ [b]), h_hits = \<lambda>_. 0, h_cksum = \<lambda>_. 0, h_timeout = \<lambda>w. (False, w),
     h_rand = rand_below, h_sort = insertion_sort, h_alloc_ok = \<lambda>_. True\<rparr>"

definition start :: "bytes \<Rightarrow> dict \<Rightarrow> rng \<Rightarrow> (bytes list, rng) det" where
  "start B d r = \<lparr>d_world = [], d_rng = r, d_dict = d, out_buf = B, ex_buf = None, stage_name = [], stage_short = [],
     stage_cur = 0, stage_max = 0, stage_cur_byte = 0, stage_cur_val = 0, stage_val_type = STAGE_VAL_NONE,
     stage_finds = \<lambda>_. 0, stage_cycles = \<lambda>_. 0, orig_hit_cnt = 0, new_hit_cnt = 0, prev_cksum = 0, det_cksum = 0,
     a_collect = replicate MAX_AUTO_EXTRA 0, a_len = 0, blocks_eff_select = 0, blocks_eff_total = 0, last_len = 0,
     passed_det = False\<rparr>"

definition plain_env :: "bytes \<Rightarrow> bytes \<Rightarrow> bool \<Rightarrow> det_env" where
  "plain_env B eff na = \<lparr>de_len = length eff, de_in_buf = B, de_eff = eff, de_no_arith = na,
     de_non_instrumented = False, de_max_det_extras = 200\<rparr>"

lemma recorder_simps [simp]: "h_rand recorder = rand_below" "qsort_ok (h_sort recorder)" "records recorder id" "records recorder (\<lambda>w. w)"
  by (simp_all add: recorder_def insertion_sort_ok records_def)

lemma start_simps [simp]:
  "d_world (start B d r) = []" "out_buf (start B d r) = B" "d_dict (start B d r) = d" "ex_buf (start B d r) = None"
  "stage_cycles (start B d r) = (\<lambda>_. 0)"
  "a_collect (start B d r) = replicate MAX_AUTO_EXTRA 0"
  by (simp_all add: start_def)

lemma start_ok [simp]: "ready B (start B no_dict r)" "tok_ok 0 (start B no_dict r)"
  by (simp_all add: ready_def tok_ok_def no_dict_def extras_ok_def auto_ok_def)

lemma plain_env_simps [simp]:
  "de_len (plain_env B eff na) = length eff" "de_in_buf (plain_env B eff na) = B" "de_eff (plain_env B eff na) = eff"
  "de_no_arith (plain_env B eff na) = na"
  by (simp_all add: plain_env_def)

lemma plain_env_ok [simp]: "det_ok (plain_env B eff na) B \<longleftrightarrow> 0 < length eff \<and> length eff \<le> MAX_FILE \<and> length eff \<le> length B"
  by (auto simp: det_ok_def)

lemma rand_below_source: "h_rand h = rand_below \<Longrightarrow> rng_source (h_rand h)"
  using afl_rng.rng_source_axioms by simp

section \<open>The stages as a whole\<close>

text \<open>The bit flips, the arithmetic and the interesting values.\<close>

definition byte_stages :: "('w, 'r) host \<Rightarrow> det_env \<Rightarrow> ('w, 'r) det \<Rightarrow> ('w, 'r) det flow res" where
  "byte_stages h e s = fbind (det_bitflips h e s) (\<lambda>s. fbind (det_ariths h e s) (det_interests h e))"

lemma byte_stages_does:
  fixes h :: "('w, 'r) host" and s :: "('w, 'r) det"
  assumes "rng_source (h_rand h)" "qsort_ok (h_sort h)" "det_ok e B" "ready B s" "tok_ok K s" "K + 8 * de_len e < 2147483648"
  shows "fpost (byte_stages h e s) (does h lg B (bitflip_cases e B @ arith_cases e B @ interest_cases e B) s)
    (\<lambda>s'. out_buf s' = B)"
  unfolding byte_stages_def
  by (rule does_seq [OF rng_source.det_bitflips_does [OF assms(1) refl assms(2-)] does_seq [OF det_ariths_does det_interests_does]])
    (use assms(3) in auto)

lemma stages_safe:
  fixes h :: "('w, 'r) host" and s :: "('w, 'r) det"
  assumes "rng_source (h_rand h)" "qsort_ok (h_sort h)" "det_ok e B" "de_len e < length B"
    "take (de_len e) (de_in_buf e) = take (de_len e) B" "de_len e \<le> length (de_in_buf e)"
    "ready B s" "tok_ok K s" "K + 8 * de_len e < 2147483648"
  shows "fpost (deterministic_stages h e s) (\<lambda>s'. ready B s' \<and> passed_det s') (\<lambda>s'. out_buf s' = B)"
proof -
  have "deterministic_stages h e s = fbind (byte_stages h e s) (\<lambda>s. fbind (det_extras h e s)
      (\<lambda>s. Inr (Next (s\<lparr>passed_det := True\<rparr>))))"
    by (simp add: deterministic_stages_def byte_stages_def fbind_assoc)
  moreover have "fpost (byte_stages h e s) (ready B) (\<lambda>s'. out_buf s' = B)"
    by (rule fpost_mono [OF byte_stages_does [OF assms(1-3,7-9), where lg = "\<lambda>_. []"]]) (auto simp: does_def)
  ultimately show ?thesis
    using rng_source.det_extras_keeps [OF assms(1) refl assms(3,4,5,6)]
    by (auto intro!: fpost_fbind [where P = "ready B"] simp: ready_def)
qed

text \<open>
  C29: the deterministic stages are safe and leave the test case as it was. Whatever the target
  does, with a dictionary in order and one readable byte behind the test case, no access leaves a
  buffer, the loops and the generator never fault, and \<open>out_buf\<close> holds the original bytes when the
  stages end and when they are left for the custom mutators in the middle. The dictionaries stay
  in order.
\<close>

theorem deterministic_stages_safe:
  fixes h :: "('w, rng) host" and s :: "('w, rng) det"
  assumes "h_rand h = rand_below" "qsort_ok (h_sort h)" "det_ok e B" "de_len e < length B"
    "take (de_len e) (de_in_buf e) = take (de_len e) B" "de_len e \<le> length (de_in_buf e)"
    "ready B s" "tok_ok K s" "K + 8 * de_len e < 2147483648"
  shows "fpost (deterministic_stages h e s) (\<lambda>s'. ready B s' \<and> passed_det s') (\<lambda>s'. out_buf s' = B)"
  by (rule stages_safe [OF rand_below_source [OF assms(1)] assms(2-)])

theorem deterministic_stages_safe_witness:
  "\<forall>r. fpost (deterministic_stages recorder (plain_env [1, 2, 3] [1, 0] False) (start [1, 2, 3] no_dict r))
     (\<lambda>s'. ready [1, 2, 3] s' \<and> passed_det s') (\<lambda>s'. out_buf s' = [1, 2, 3])"
  by (intro allI deterministic_stages_safe [where K = 0]) (simp_all add: MAX_FILE_def)


lemma quiet_recorder: "quiet recorder"
  by (simp add: quiet_def recorder_def)



text \<open>
  C31: the bit flip, arithmetic and interesting value stages execute exactly the specified test
  cases in the specified order: the test case itself, then every candidate at every position that
  the effector map selects, less those that the filters skip; the test case is restored at the end.
\<close>

theorem byte_stages_exact:
  fixes h :: "('w, rng) host" and s :: "('w, rng) det"
  assumes "h_rand h = rand_below" "qsort_ok (h_sort h)" "det_ok e B" "ready B s" "tok_ok K s" "K + 8 * de_len e < 2147483648"
    and "records h lg"
  shows "fpost (byte_stages h e s) (\<lambda>s'. out_buf s' = B \<and>
    lg (d_world s') = lg (d_world s) @ bitflip_cases e B @ arith_cases e B @ interest_cases e B) (\<lambda>s'. out_buf s' = B)"
  by (rule fpost_mono [OF byte_stages_does [OF rand_below_source [OF assms(1)] assms(2-6), where lg = lg]]) (use assms(7) in \<open>auto simp: does_def ready_def\<close>)

theorem byte_stages_exact_witness:
  "\<forall>r. fpost (byte_stages recorder (plain_env [5] [1] True) (start [5] no_dict r)) (\<lambda>s'. out_buf s' = [5] \<and>
     d_world s' = bitflip_cases (plain_env [5] [1] True) [5] @ interest_cases (plain_env [5] [1] True) [5])
     (\<lambda>s'. out_buf s' = [5])"
proof
  fix r
  have "fpost (byte_stages recorder (plain_env [5] [1] True) (start [5] no_dict r)) (\<lambda>s'. out_buf s' = [5] \<and>
     id (d_world s') = id (d_world (start [5] no_dict r)) @ bitflip_cases (plain_env [5] [1] True) [5] @
       arith_cases (plain_env [5] [1] True) [5] @ interest_cases (plain_env [5] [1] True) [5]) (\<lambda>s'. out_buf s' = [5])"
    by (rule byte_stages_exact [where K = 0]) (simp_all add: MAX_FILE_def)
  then show "fpost (byte_stages recorder (plain_env [5] [1] True) (start [5] no_dict r)) (\<lambda>s'. out_buf s' = [5] \<and>
     d_world s' = bitflip_cases (plain_env [5] [1] True) [5] @ interest_cases (plain_env [5] [1] True) [5])
     (\<lambda>s'. out_buf s' = [5])"
    by (simp add: arith_cases_def Let_def)
qed

text \<open>
  C32: while the arithmetic stages are on, nothing is lost by the filters on one byte. At every position
  that the effector map selects, the stages execute the test case with every sum and difference of the byte with 0 to 35 and with
  every interesting value, although the value stages skip what could be a bit flip or arithmetic.
\<close>

theorem byte_values_complete:
  fixes h :: "('w, rng) host" and s :: "('w, rng) det"
  assumes "h_rand h = rand_below" "qsort_ok (h_sort h)" "det_ok e B" "ready B s" "tok_ok K s" "K + 8 * de_len e < 2147483648"
    and "records h lg" "\<not> de_no_arith e" "i < de_len e" "de_eff e ! i \<noteq> 0"
    and "(\<exists>j\<le>ARITH_MAX. v = B ! i + word_of_nat j \<or> v = B ! i - word_of_nat j) \<or> v \<in> word_of_int ` set interesting_8"
  shows "fpost (byte_stages h e s) (\<lambda>s'. take (de_len e) (B[i := v]) \<in> set (lg (d_world s'))) (\<lambda>_. True)"
  by (rule fpost_mono [OF byte_stages_does [OF rand_below_source [OF assms(1)] assms(2-6), where lg = lg]])
    (use in_value_cases [OF assms(3,9,10,8,11)] assms(7) in \<open>auto simp: does_def\<close>)

theorem byte_values_complete_witness:
  "\<forall>r. fpost (byte_stages recorder (plain_env [5, 7] [1, 1] False) (start [5, 7] no_dict r))
     (\<lambda>s'. [5, 100] \<in> set (d_world s')) (\<lambda>_. True)"
proof
  fix r
  have "fpost (byte_stages recorder (plain_env [5, 7] [1, 1] False) (start [5, 7] no_dict r))
     (\<lambda>s'. take (de_len (plain_env [5, 7] [1, 1] False)) ([5, 7][1 := 100]) \<in> set (id (d_world s'))) (\<lambda>_. True)"
    by (rule byte_values_complete [where K = 0]) (simp_all add: MAX_FILE_def interesting_8_def)
  then show "fpost (byte_stages recorder (plain_env [5, 7] [1, 1] False) (start [5, 7] no_dict r))
     (\<lambda>s'. [5, 100] \<in> set (d_world s')) (\<lambda>_. True)"
    by simp
qed

text \<open>
  with the arithmetic stages switched off, the filter of the interesting values still assumes
  they have run: of the one-byte test case 5, the interesting value 16 is executed exactly when
  the arithmetic is on.
\<close>

theorem no_arith_gap:
  fixes h :: "('w, rng) host" and s :: "('w, rng) det"
  assumes "h_rand h = rand_below" "qsort_ok (h_sort h)" "ready [5] s" "tok_ok 0 s" "records h lg"
    and "de_len e = 1" "length (de_eff e) = 1" "de_eff e ! 0 \<noteq> 0"
  shows "16 \<in> set interesting_8 \<and>
    fpost (byte_stages h e s) (\<lambda>s'. \<exists>L. lg (d_world s') = lg (d_world s) @ L \<and> [16] \<in> set L = (\<not> de_no_arith e)) (\<lambda>_. True)"
proof
  have e: "det_ok e [5]" using assms(6,7) by (simp add: det_ok_def MAX_FILE_def)
  have "[16] \<in> set (bitflip_cases e [5] @ arith_cases e [5] @ interest_cases e [5])" if "\<not> de_no_arith e"
    using in_value_cases [OF e _ assms(8) that, of 16] assms(6) by (simp add: interesting_8_def)
  then have eq: "[16] \<in> set (bitflip_cases e [5] @ arith_cases e [5] @ interest_cases e [5]) = (\<not> de_no_arith e)"
    using no_arith_cases [OF assms(6)] by blast
  have "fpost (byte_stages h e s) (does h lg [5] (bitflip_cases e [5] @ arith_cases e [5] @ interest_cases e [5]) s)
      (\<lambda>s'. out_buf s' = [5])"
    by (rule byte_stages_does [OF rand_below_source [OF assms(1)] assms(2) e assms(3,4)]) (simp add: assms(6))
  then show "fpost (byte_stages h e s) (\<lambda>s'. \<exists>L. lg (d_world s') = lg (d_world s) @ L \<and> [16] \<in> set L = (\<not> de_no_arith e)) (\<lambda>_. True)"
    by (rule fpost_mono) (use assms(5) eq in \<open>auto simp: does_def\<close>)
qed (simp add: interesting_8_def)

theorem no_arith_gap_witness:
  "\<forall>r. fpost (byte_stages recorder (plain_env [5] [1] True) (start [5] no_dict r)) (\<lambda>s'. [16] \<notin> set (d_world s')) (\<lambda>_. True)"
proof
  fix r
  have "fpost (byte_stages recorder (plain_env [5] [1] True) (start [5] no_dict r))
     (\<lambda>s'. \<exists>L. id (d_world s') = id (d_world (start [5] no_dict r)) @ L \<and>
       [16] \<in> set L = (\<not> de_no_arith (plain_env [5] [1] True))) (\<lambda>_. True)"
    by (rule no_arith_gap [THEN conjunct2]) simp_all
  then show "fpost (byte_stages recorder (plain_env [5] [1] True) (start [5] no_dict r)) (\<lambda>s'. [16] \<notin> set (d_world s')) (\<lambda>_. True)"
    by simp
qed

text \<open>
  C33: a 16-bit value that the filters take for a bit flip is executed by no stage. Adding 32 to
  the first byte of \<open>E0 00\<close>, as a little-endian number, gives the interesting value 256, \<open>00 01\<close>;
  \<open>could_be_bitflip\<close> accepts the difference because its four bits are adjacent in that number,
  but the bits of \<open>FLIP_BIT\<close> are counted in the other direction within a byte.
\<close>

theorem crossing_bits_gap:
  fixes h :: "('w, rng) host" and s :: "('w, rng) det"
  assumes "h_rand h = rand_below" "qsort_ok (h_sort h)" "ready [0xE0, 0] s" "tok_ok 0 s" "records h lg"
    and "de_len e = 2" "length (de_eff e) = 2"
  shows "256 \<in> set interesting_16 \<and> could_be_bitflip (0x00E0 XOR 0x0100) = Inr True \<and>
    fpost (byte_stages h e s) (\<lambda>s'. \<exists>L. lg (d_world s') = lg (d_world s) @ L \<and> [0, 1] \<notin> set L) (\<lambda>_. True)"
proof (intro conjI)
  have e: "det_ok e [0xE0, 0]" using assms(6,7) by (simp add: det_ok_def MAX_FILE_def)
  have "fpost (byte_stages h e s) (does h lg [0xE0, 0] (bitflip_cases e [0xE0, 0] @ arith_cases e [0xE0, 0] @
      interest_cases e [0xE0, 0]) s) (\<lambda>s'. out_buf s' = [0xE0, 0])"
    by (rule byte_stages_does [OF rand_below_source [OF assms(1)] assms(2) e assms(3,4)]) (simp add: assms(6))
  then show "fpost (byte_stages h e s) (\<lambda>s'. \<exists>L. lg (d_world s') = lg (d_world s) @ L \<and> [0, 1] \<notin> set L) (\<lambda>_. True)"
    by (rule fpost_mono) (use assms(5) crossing_cases [OF assms(6)] in \<open>auto simp: does_def\<close>)
qed (simp_all add: interesting_16_def could_be_bitflip_eq pattern_480)

theorem crossing_bits_gap_witness:
  "\<forall>r. fpost (byte_stages recorder (plain_env [0xE0, 0] [1, 1] False) (start [0xE0, 0] no_dict r))
     (\<lambda>s'. [0, 1] \<notin> set (d_world s')) (\<lambda>_. True)"
proof
  fix r
  have "fpost (byte_stages recorder (plain_env [0xE0, 0] [1, 1] False) (start [0xE0, 0] no_dict r))
     (\<lambda>s'. \<exists>L. id (d_world s') = id (d_world (start [0xE0, 0] no_dict r)) @ L \<and> [0, 1] \<notin> set L) (\<lambda>_. True)"
    by (rule crossing_bits_gap [THEN conjunct2, THEN conjunct2]) simp_all
  then show "fpost (byte_stages recorder (plain_env [0xE0, 0] [1, 1] False) (start [0xE0, 0] no_dict r))
     (\<lambda>s'. [0, 1] \<notin> set (d_world s')) (\<lambda>_. True)"
    by simp
qed

section \<open>Counting and inserting\<close>

definition skipped :: "det_env \<Rightarrow> nat" where
  "skipped e = length (filter (\<lambda>i. de_eff e ! i = 0) [0..<de_len e])"

lemma skipped_planned: "k * skipped e + eff_sum e k (de_len e) = k * de_len e"
proof -
  have "skipped e + length (filter (\<lambda>i. de_eff e ! i \<noteq> 0) [0..<de_len e]) = de_len e"
    using sum_length_filter_compl [of "\<lambda>i. de_eff e ! i = 0" "[0..<de_len e]"] by (simp add: skipped_def)
  then show ?thesis unfolding eff_sum_eq by (metis add_mult_distrib2)
qed

lemma reported_execs:
  assumes "stage_done h lg st (k * de_len e) (eff_sum e k (de_len e)) L s s'" "records h lg"
  shows "\<exists>L. lg (d_world s') = lg (d_world s) @ L \<and>
    ucast (stage_cycles s' st - stage_cycles s st) = (word_of_nat (length L + k * skipped e) :: u32)"
proof (intro exI conjI)
  show "lg (d_world s') = lg (d_world s) @ L" using assms by (simp add: stage_done_def ran_def)
  let ?m = "word_of_nat (stage_max s') :: u32" and ?n = "word_of_nat (eff_sum e k (de_len e)) :: u32"
  have "?m + ?n = word_of_nat (k * de_len e) + word_of_nat (length L)" using assms(1) by (simp add: stage_done_def)
  also have "\<dots> = word_of_nat (length L + k * skipped e) + ?n"
    unfolding skipped_planned [of k e, symmetric] by simp
  finally have "?m = word_of_nat (length L + k * skipped e)" by (simp only: add_right_cancel)
  moreover have "ucast (word_of_nat (stage_max s') :: u64) = ?m" 
    by (rule bit_word_eqI) (auto simp: bit_simps)
  ultimately show "ucast (stage_cycles s' st - stage_cycles s st) = (word_of_nat (length L + k * skipped e) :: u32)"
    using assms(1) by (simp add: stage_done_def)
qed

text \<open>
  the number of executions that a value stage reports is too large. \<open>stage_cycles\<close> grows by
  what the stage has executed and, for every position that the effector map skips, by the 70 (or
  9) executions that were planned there: \<open>stage_max\<close> is lowered for skipped values but not for
  skipped positions.
\<close>

theorem skipped_positions_counted:
  assumes "det_ok e B" "out_buf s = B" "records h lg"
  shows "fpost (det_arith8 h e s) (\<lambda>s'. \<exists>L. lg (d_world s') = lg (d_world s) @ L \<and>
      ucast (stage_cycles s' STAGE_ARITH8 - stage_cycles s STAGE_ARITH8) = (word_of_nat (length L + 70 * skipped e) :: u32)) (\<lambda>_. True) \<and>
    fpost (det_interest8 h e s) (\<lambda>s'. \<exists>L. lg (d_world s') = lg (d_world s) @ L \<and>
      ucast (stage_cycles s' STAGE_INTEREST8 - stage_cycles s STAGE_INTEREST8) = (word_of_nat (length L + 9 * skipped e) :: u32)) (\<lambda>_. True)"
proof
  show "fpost (det_arith8 h e s) (\<lambda>s'. \<exists>L. lg (d_world s') = lg (d_world s) @ L \<and>
      ucast (stage_cycles s' STAGE_ARITH8 - stage_cycles s STAGE_ARITH8) = (word_of_nat (length L + 70 * skipped e) :: u32)) (\<lambda>_. True)"
    by (rule fpost_mono [OF det_arith8_done [OF assms(1,2)]], rule reported_execs [OF _ assms(3)]) auto
  show "fpost (det_interest8 h e s) (\<lambda>s'. \<exists>L. lg (d_world s') = lg (d_world s) @ L \<and>
      ucast (stage_cycles s' STAGE_INTEREST8 - stage_cycles s STAGE_INTEREST8) = (word_of_nat (length L + 9 * skipped e) :: u32)) (\<lambda>_. True)"
    by (rule fpost_mono [OF det_interest8_done [OF assms(1,2)]], rule reported_execs [OF _ assms(3)]) auto
qed

theorem skipped_positions_counted_witness:
  "\<forall>r. fpost (det_arith8 recorder (plain_env [1] [0] False) (start [1] no_dict r)) (\<lambda>s'. \<exists>L. d_world s' = L \<and>
      ucast (stage_cycles s' STAGE_ARITH8) = (word_of_nat (length L + 70) :: u32)) (\<lambda>_. True)"
proof
  fix r
  have sk: "skipped (plain_env [1] [0] False) = 1" by (simp add: skipped_def)
  have "det_ok (plain_env [1] [0] False) [1]" by (simp add: MAX_FILE_def)
  from skipped_positions_counted [OF this, of "start [1] no_dict r" recorder id, THEN conjunct1]
  show "fpost (det_arith8 recorder (plain_env [1] [0] False) (start [1] no_dict r)) (\<lambda>s'. \<exists>L. d_world s' = L \<and>
      ucast (stage_cycles s' STAGE_ARITH8) = (word_of_nat (length L + 70) :: u32)) (\<lambda>_. True)"
    by (simp add: sk)
qed

lemma inserted_all:
  assumes "inserted e B b0 xs (de_len e + 1) L" "det_ok e B" "list_all (\<lambda>v. v \<noteq> 0) (de_eff e)"
  shows "L = concat (map (\<lambda>k. map (\<lambda>x. take k B @ x @ drop k (take (de_len e) B)) (filter (fits e) xs)) [0..<de_len e + 1])"
proof -
  note ok = det_okD [OF assms(2)]
  have eff: "de_eff e ! (k mod de_len e) \<noteq> 0" for k
    using assms(3) ok by (simp add: list_all_length)
  from assms(1) obtain f where f: "\<forall>k<de_len e + 1. head_ok e B b0 k (f k)"
    "L = visits e (\<lambda>k. k mod de_len e) (\<lambda>k. insertions e B xs k (f k)) (de_len e + 1)"
    by (auto simp: inserted_def)
  have "f k = take k B" if "k < de_len e + 1" for k
  proof (rule nth_equalityI)
    have head: "head_ok e B b0 k (f k)" using f(1) that by blast
    then show len: "length (f k) = length (take k B)" using that ok by (simp add: head_ok_def)
    fix j assume "j < length (f k)"
    then show "f k ! j = take k B ! j" using head eff by (simp add: head_ok_def)
  qed
  then have "visits e (\<lambda>k. k mod de_len e) (\<lambda>k. insertions e B xs k (f k)) (de_len e + 1) =
      visits e (\<lambda>k. k mod de_len e) (\<lambda>k. insertions e B xs k (take k B)) (de_len e + 1)"
    by (intro visits_cong) simp
  with f(2) show ?thesis by (simp add: visits_def insertions_def eff)
qed

text \<open>
  C34: with an effector map that selects every position, the insertion stage of the user's
  dictionary executes exactly the test case with every token that fits inserted at every position,
  the end included, in this order.
\<close>

theorem tokens_inserted_everywhere:
  assumes "det_ok e B" "out_buf s = B" "de_len e < length B" "extras_ok (d_extras (d_dict s))" "records h lg"
    and "list_all (\<lambda>v. v \<noteq> 0) (de_eff e)"
  shows "fpost (det_extras_insert h e s) (\<lambda>s'. out_buf s' = B \<and> lg (d_world s') = lg (d_world s) @
      concat (map (\<lambda>k. map (\<lambda>x. take k B @ x @ drop k (take (de_len e) B))
        (filter (\<lambda>x. de_len e + length x \<le> MAX_FILE) (d_extras (d_dict s)))) [0..<de_len e + 1])) (\<lambda>s'. out_buf s' = B)"
  by (rule fpost_mono [OF det_extras_insert_ok [OF assms(1-4), where lg = lg]])
    (use assms(5) inserted_all [OF _ assms(1,6)] in \<open>auto simp: fits_def [abs_def]\<close>)

definition one_token :: dict where
  "one_token = \<lparr>d_extras = [[7, 7]], d_a_extras = [], d_auto_changed = False\<rparr>"

lemma one_token_ok [simp]: "extras_ok [[7, 7]]" "d_extras one_token = [[7, 7]]"
  by (simp_all add: one_token_def extras_ok_def MAX_DICT_FILE_def)

theorem tokens_inserted_everywhere_witness:
  "\<forall>r. fpost (det_extras_insert recorder (plain_env [1, 2, 3] [1, 1] False) (start [1, 2, 3] one_token r))
     (\<lambda>s'. d_world s' = [[7, 7, 1, 2], [1, 7, 7, 2], [1, 2, 7, 7]]) (\<lambda>s'. out_buf s' = [1, 2, 3])"
proof
  fix r
  have "fpost (det_extras_insert recorder (plain_env [1, 2, 3] [1, 1] False) (start [1, 2, 3] one_token r))
    (\<lambda>s'. out_buf s' = [1, 2, 3] \<and> id (d_world s') = id (d_world (start [1, 2, 3] one_token r)) @
      concat (map (\<lambda>k. map (\<lambda>x. take k [1, 2, 3] @ x @ drop k (take (de_len (plain_env [1, 2, 3] [1, 1] False)) [1, 2, 3]))
        (filter (\<lambda>x. de_len (plain_env [1, 2, 3] [1, 1] False) + length x \<le> MAX_FILE)
          (d_extras (d_dict (start [1, 2, 3] one_token r))))) [0..<de_len (plain_env [1, 2, 3] [1, 1] False) + 1]))
    (\<lambda>s'. out_buf s' = [1, 2, 3])"
    by (rule tokens_inserted_everywhere) (simp_all add: MAX_FILE_def)
  then show "fpost (det_extras_insert recorder (plain_env [1, 2, 3] [1, 1] False) (start [1, 2, 3] one_token r))
     (\<lambda>s'. d_world s' = [[7, 7, 1, 2], [1, 7, 7, 2], [1, 2, 7, 7]]) (\<lambda>s'. out_buf s' = [1, 2, 3])"
    by (rule fpost_mono) (simp_all add: MAX_FILE_def numeral_2_eq_2)
qed

text \<open>
  where the effector map skips a position, the insertion stages execute something else. The
  code copies the byte at a position into the scratch buffer only when it has tried the tokens
  there; when the map skips position 0 and the buffer is new, every test case that is executed
  starts with a zero byte in place of the first byte of the test case.
\<close>

theorem insertion_stale_head:
  assumes "det_ok e B" "out_buf s = B" "de_len e < length B" "extras_ok (d_extras (d_dict s))" "records h lg"
    and "de_eff e ! 0 = 0" "ex_buf s = None"
  shows "fpost (det_extras_insert h e s) (\<lambda>s'. \<exists>L. lg (d_world s') = lg (d_world s) @ L \<and> (\<forall>c\<in>set L. c ! 0 = 0)) (\<lambda>s'. out_buf s' = B)"
proof (rule fpost_mono [OF det_extras_insert_ok [OF assms(1-4), where lg = lg]])
  note ok = det_okD [OF assms(1)]
  fix s' assume "out_buf s' = B \<and> d_dict s' = d_dict s \<and> (records h lg \<longrightarrow> (\<exists>L. lg (d_world s') = lg (d_world s) @ L \<and>
       inserted e B (first_byte (ex_buf s)) (d_extras (d_dict s)) (de_len e + 1) L))"
  then obtain L f where L: "lg (d_world s') = lg (d_world s) @ L"
    and f: "\<forall>k<de_len e + 1. head_ok e B 0 k (f k)"
      "L = visits e (\<lambda>k. k mod de_len e) (\<lambda>k. insertions e B (d_extras (d_dict s)) k (f k)) (de_len e + 1)"
    using assms(5,7) by (auto simp: inserted_def first_byte_def contents_def)
  have "c ! 0 = 0" if "c \<in> set L" for c
  proof -
    from that obtain k where k: "k < de_len e + 1" "de_eff e ! (k mod de_len e) \<noteq> 0"
      "c \<in> set (insertions e B (d_extras (d_dict s)) k (f k))"
      unfolding f(2) set_visits by auto
    then have "k \<noteq> 0" using assms(6) by (cases "k = 0") auto
    then have "f k ! 0 = 0" "length (f k) = k" using f(1) k(1) assms(6) by (auto simp: head_ok_def)
    then show ?thesis using k(3) \<open>k \<noteq> 0\<close> by (auto simp: insertions_def nth_append)
  qed
  with L show "\<exists>L. lg (d_world s') = lg (d_world s) @ L \<and> (\<forall>c\<in>set L. c ! 0 = 0)" by blast
qed

theorem insertion_stale_head_witness:
  "\<forall>r. fpost (det_extras_insert recorder (plain_env [1, 2, 3] [0, 1] False) (start [1, 2, 3] one_token r))
     (\<lambda>s'. \<forall>c\<in>set (d_world s'). c ! 0 = 0) (\<lambda>s'. out_buf s' = [1, 2, 3])"
proof
  fix r
  have "fpost (det_extras_insert recorder (plain_env [1, 2, 3] [0, 1] False) (start [1, 2, 3] one_token r))
     (\<lambda>s'. \<exists>L. id (d_world s') = id (d_world (start [1, 2, 3] one_token r)) @ L \<and> (\<forall>c\<in>set L. c ! 0 = 0))
     (\<lambda>s'. out_buf s' = [1, 2, 3])"
    by (rule insertion_stale_head) (simp_all add: MAX_FILE_def)
  then show "fpost (det_extras_insert recorder (plain_env [1, 2, 3] [0, 1] False) (start [1, 2, 3] one_token r))
     (\<lambda>s'. \<forall>c\<in>set (d_world s'). c ! 0 = 0) (\<lambda>s'. out_buf s' = [1, 2, 3])"
    by simp
qed

lemma for_each_append: "for_each (xs @ ys) body s = fbind (for_each xs body s) (for_each ys body)"
proof (induction xs arbitrary: s)
  case (Cons x xs)
  have "for_each (xs @ ys) body = (\<lambda>s. fbind (for_each xs body s) (for_each ys body))"
    by (rule ext) (rule Cons.IH)
  then show ?case by (simp add: fbind_assoc)
qed simp

lemma fine_cases: "fine {} J m \<Longrightarrow> m = Inl Fault \<or> (\<exists>s. m = Inr (Next s))"
  by (cases m) (auto simp: fine_def split: flow.splits)

lemma insert_at_end:
  assumes "quiet h" "det_ok e B" "length B = de_len e" "out_buf s = B" "ex_buf s = Some U" "de_len e + MAX_DICT_FILE \<le> length U"
    and "\<forall>x\<in>set xs. length x \<le> MAX_DICT_FILE" "de_eff e ! 0 \<noteq> 0"
  shows "insert_at h e xs (de_len e) s = Inl Fault"
proof -
  note ok = det_okD [OF assms(2)]
  obtain w where w: "h_timeout h (d_world s) = (False, w)" using assms(1) by (metis prod.collapse quiet_def)
  let ?s = "s\<lparr>d_world := w, stage_cur_byte := de_len e\<rparr>" and ?run = "for_each xs (insert_token h e (de_len e))"
  have "fine {} (\<lambda>_. True) (?run ?s)" by (intro returns assms) simp_all
  moreover have "fpost (?run ?s) (\<lambda>s'. out_buf s' = B) (\<lambda>_. True)"
    by (rule fpost_mono [OF insert_tokens_ok [where pre = "take (de_len e) U" and lg = "\<lambda>_. []"]])
      (use assms ok in \<open>auto simp: scratch_def\<close>)
  moreover have "copy_head (de_len e) v = Inl Fault" if "out_buf v = B" for v :: "('a, 'b) det"
    using that assms(3) by (simp add: copy_head_def load8_def)
  ultimately have "fbind (?run ?s) (copy_head (de_len e)) = Inl Fault"
    using fine_cases [of "\<lambda>_. True" "?run ?s"] by auto
  then show ?thesis using w ok assms(8) by (simp add: insert_at_def check_pos_def mem_ok)
qed

text \<open>
  the insertion stages read one byte behind the test case. After the last position the loop
  copies \<open>out_buf[len]\<close>; when the buffer holds exactly the test case, as \<open>afl_realloc\<close> makes it
  for 56 bytes, the access is outside it.
\<close>

theorem insertion_reads_past_end:
  assumes "quiet h" "det_ok e B" "length B = de_len e" "out_buf s = B" "extras_ok (d_extras (d_dict s))" "de_eff e ! 0 \<noteq> 0"
  shows "det_extras_insert h e s = Inl Fault \<and> afl_realloc (\<lambda>_. True) None 56 = Some (replicate 56 0)"
proof
  let ?xs = "d_extras (d_dict s)"
  let ?t = "begin_stage ''user extras (insert)'' ''ext_UI'' (u32_mul (length ?xs) (u32_add (de_len e) 1)) s"
  have xs: "\<forall>x\<in>set ?xs. length x \<le> MAX_DICT_FILE" using assms(5) by (simp add: extras_ok_def)
  have "de_len e + MAX_DICT_FILE + 8 < 2 ^ 64" using det_okD [OF assms(2)] by (simp add: MAX_DICT_FILE_def)
  moreover from fine_grow_ex [OF assms(1), of "\<lambda>_. True" ?t "{}" e] obtain T where T: "afl_realloc (h_alloc_ok h) (ex_buf ?t) (de_len e + MAX_DICT_FILE) = Some T"
    by (cases "afl_realloc (h_alloc_ok h) (ex_buf ?t) (de_len e + MAX_DICT_FILE)") (auto simp: grow_ex_def)
  ultimately have len: "de_len e + MAX_DICT_FILE \<le> length T" using afl_realloc_Some by blast
  let ?t' = "?t\<lparr>ex_buf := Some T\<rparr>"
  have "fine {} (\<lambda>_. True) (for_each [0..<de_len e] (insert_at h e ?xs) ?t')" unfolding insert_at_def
    by (intro returns assms) simp_all
  moreover have "fpost (for_each [0..<de_len e] (insert_at h e ?xs) ?t') (\<lambda>s'. out_buf s' = B \<and>
      (\<exists>U. ex_buf s' = Some U \<and> de_len e + MAX_DICT_FILE \<le> length U)) (\<lambda>s'. out_buf s' = B)"
    by (rule fpost_mono [OF insert_upto_ok [OF assms(2) _ _ _ xs _ len, where lg = "\<lambda>_. []"]]) (use assms in auto)
  ultimately obtain u U where u: "for_each [0..<de_len e] (insert_at h e ?xs) ?t' = Inr (Next u)"
    "out_buf u = B" "ex_buf u = Some U" "de_len e + MAX_DICT_FILE \<le> length U" using fine_fpost by blast
  have "insert_all h e ?xs ?t' = Inl Fault"
    using insert_at_end [OF assms(1-3) u(2-4) xs assms(6)] u(1) by (simp add: insert_all_at for_each_append)
  then show "det_extras_insert h e s = Inl Fault" using T by (simp add: det_extras_insert_def Let_def grow_ex_def)
qed (simp add: afl_realloc_def complete_size_def AFL_ALLOC_SIZE_OFFSET_def INITIAL_GROWTH_SIZE_def Let_def next_pow2_def contents_def)

theorem insertion_reads_past_end_witness:
  "\<forall>r. det_extras_insert recorder (plain_env [1, 2] [1, 1] False) (start [1, 2] one_token r) = Inl Fault"
proof
  fix r
  show "det_extras_insert recorder (plain_env [1, 2] [1, 1] False) (start [1, 2] one_token r) = Inl Fault"
    using insertion_reads_past_end [of "recorder" "plain_env [1, 2] [1, 1] False" "[1, 2]" "start [1, 2] one_token r"]
    by (simp add: quiet_recorder MAX_FILE_def)
qed

end
