(* ===== verification/AFL_Tmin.thy ===== *)
theory AFL_Tmin
  imports AFL_Alloc
begin

text \<open>
  The test case minimizer \<^verbatim>\<open>src/afl-tmin.c\<close>: the classification of the trace, the decision whether
  a change is kept and the four stages of \<open>minimize\<close>. Running the target is the argument \<open>h\<close>:
  \<open>t_exec\<close> gives the result of the fork server, the raw trace and whether the user has stopped the
  program; \<open>t_hash\<close> is the hash of the trace. The \<open>goto\<close>s of \<open>minimize\<close> are loops whose bodies
  break or continue. Counters that are only printed (\<open>alpha_del0\<close> to \<open>alpha_d_total\<close>,
  \<open>syms_removed\<close>, \<open>stage_o_len\<close>) are left out.
\<close>

section \<open>State\<close>

datatype fsrv_run_result =
  FSRV_RUN_OK | FSRV_RUN_TMOUT | FSRV_RUN_CRASH | FSRV_RUN_ERROR | FSRV_RUN_NOINST | FSRV_RUN_NOBITS

record 'w thost =
  t_exec :: "bytes \<Rightarrow> 'w \<Rightarrow> fsrv_run_result \<times> bytes \<times> bool \<times> 'w"
  t_hash :: "bytes \<Rightarrow> u64"

record 'w tmin =
  t_world :: 'w
  t_trace :: bytes
  in_data :: bytes
  in_len :: nat
  tmp_buf :: bytes
  hang_mode :: bool
  crash_mode :: bool
  exact_mode :: bool
  edges_only :: bool
  mask_bitmap :: "bytes option"
  del_len_limit :: nat
  orig_cksum :: u64
  last_run_timed_out :: bool
  missed_hangs :: nat
  missed_crashes :: nat
  missed_paths :: nat

definition TMIN_MAX_FILE :: nat where "TMIN_MAX_FILE = 10 * 1024 * 1024"
definition TMIN_SET_MIN_SIZE :: nat where "TMIN_SET_MIN_SIZE = 4"
definition TMIN_SET_STEPS :: nat where "TMIN_SET_STEPS = 128"
definition TRIM_START_STEPS :: nat where "TRIM_START_STEPS = 16"

text \<open>\<open>next_pow2\<close> stored in an \<open>u32\<close>.\<close>

definition pow2_u32 :: "nat \<Rightarrow> nat" where
  "pow2_u32 n = unat (ucast (next_pow2 (word_of_nat n)) :: u32)"

section \<open>The trace\<close>

text \<open>The table \<open>count_class_lookup\<close> of the file.\<close>

definition tmin_class :: "u8 \<Rightarrow> u8" where
  "tmin_class b = (if b = 0 then 0 else if b = 1 then 1 else if b = 2 then 2 else if b = 3 then 4
     else if b \<le> 7 then 8 else if b \<le> 15 then 16 else if b \<le> 31 then 32 else if b \<le> 127 then 64 else 128)"

definition tmin_classify_counts :: "bool \<Rightarrow> bytes \<Rightarrow> bytes" where
  "tmin_classify_counts edges mem =
     (if edges then map (\<lambda>b. if b \<noteq> 0 then 1 else b) mem else map tmin_class mem)"

definition apply_mask :: "bytes option \<Rightarrow> bytes \<Rightarrow> bytes res" where
  "apply_mask msk mem =
     (case msk of
        None \<Rightarrow> Inr mem
      | Some k \<Rightarrow> count_loop (length mem div 4) 0 (\<lambda>i m.
          ebind (load32 m (4 * i)) (\<lambda>v. ebind (load32 k (4 * i)) (\<lambda>w. store32 m (4 * i) (v AND NOT w)))) mem)"

definition anything_set :: "bytes \<Rightarrow> bool" where
  "anything_set trace = list_ex (\<lambda>i. load32 trace (4 * i) \<noteq> Inr 0) [0..<length trace div 4]"

section \<open>Running the target\<close>

text \<open>A stop by the user writes the current result and ends the process.\<close>

definition tmin_run_target :: "'w thost \<Rightarrow> bytes \<Rightarrow> nat \<Rightarrow> bool \<Rightarrow> 'w tmin \<Rightarrow> (bool \<times> 'w tmin) res" where
  "tmin_run_target h mem len first_run s =
     (if length mem < len then Inl Fault else
      case t_exec h (take len mem) (t_world s) of (ret, trace, stop_soon, w) \<Rightarrow>
      let s = s\<lparr>t_world := w, t_trace := trace, last_run_timed_out := (ret = FSRV_RUN_TMOUT)\<rparr> in
      if ret = FSRV_RUN_ERROR then Inl Fatal
      else if stop_soon then Inl Fatal
      else if hang_mode s then
        (case ret of
           FSRV_RUN_TMOUT \<Rightarrow> Inr (True, s)
         | FSRV_RUN_CRASH \<Rightarrow> Inr (False, s\<lparr>missed_crashes := u32_add (missed_crashes s) 1\<rparr>)
         | _ \<Rightarrow> Inr (False, s\<lparr>missed_hangs := u32_add (missed_hangs s) 1\<rparr>))
      else ebind (apply_mask (mask_bitmap s) (tmin_classify_counts (edges_only s) trace)) (\<lambda>trace.
        let s = s\<lparr>t_trace := trace\<rparr> in
        if ret = FSRV_RUN_TMOUT then Inr (False, s\<lparr>missed_hangs := u32_add (missed_hangs s) 1\<rparr>)
        else
          let s = (if ret = FSRV_RUN_CRASH \<and> first_run then s\<lparr>crash_mode := True\<rparr> else s) in
          if ret = FSRV_RUN_CRASH \<and> crash_mode s \<and> \<not> exact_mode s then Inr (True, s)
          else if ret = FSRV_RUN_CRASH \<and> \<not> crash_mode s
            then Inr (False, s\<lparr>missed_crashes := u32_add (missed_crashes s) 1\<rparr>)
          else if ret \<noteq> FSRV_RUN_CRASH \<and> crash_mode s
            then Inr (False, s\<lparr>missed_paths := u32_add (missed_paths s) 1\<rparr>)
          else if ret = FSRV_RUN_NOINST then Inl Fatal
          else
            let cksum = t_hash h trace; s = (if first_run then s\<lparr>orig_cksum := cksum\<rparr> else s) in
            if orig_cksum s = cksum then Inr (True, s)
            else Inr (False, s\<lparr>missed_paths := u32_add (missed_paths s) 1\<rparr>)))"

section \<open>Block normalization\<close>

text \<open>The scan for a byte other than \<open>'0'\<close>, and \<open>memcmp\<close> on two blocks of a buffer.\<close>

definition all_zero_chars :: "bytes \<Rightarrow> nat \<Rightarrow> nat \<Rightarrow> bool res" where
  "all_zero_chars b pos n = (if pos + n \<le> length b then Inr (take n (drop pos b) = replicate n 48) else Inl Fault)"

definition same_blocks :: "bytes \<Rightarrow> nat \<Rightarrow> nat \<Rightarrow> nat \<Rightarrow> bool res" where
  "same_blocks b i j n =
     (if i + n \<le> length b \<and> j + n \<le> length b then Inr (take n (drop i b) = take n (drop j b)) else Inl Fault)"

definition norm_step :: "'w thost \<Rightarrow> nat \<Rightarrow> nat \<times> 'w tmin \<Rightarrow> (('w tmin, nat \<times> 'w tmin) ctl) res" where
  "norm_step h set_len = (\<lambda>(set_pos, s).
     if \<not> set_pos < in_len s then Inr (Break s) else
     let use_len = min set_len (in_len s - set_pos) in
     ebind (all_zero_chars (in_data s) set_pos use_len) (\<lambda>z.
       if z then Inr (Cont (set_pos + set_len, s))
       else ebind (memcpy (tmp_buf s) 0 (in_data s) 0 (in_len s)) (\<lambda>t.
            ebind (memset t set_pos 48 use_len) (\<lambda>t.
            ebind (tmin_run_target h t (in_len s) False (s\<lparr>tmp_buf := t\<rparr>)) (\<lambda>(keep, s).
              if keep then ebind (memset (in_data s) set_pos 48 use_len) (\<lambda>d.
                Inr (Cont (set_pos + set_len, s\<lparr>in_data := d\<rparr>)))
              else Inr (Cont (set_pos + set_len, s)))))))"

definition normalize :: "'w thost \<Rightarrow> 'w tmin \<Rightarrow> 'w tmin res" where
  "normalize h s =
     (let set_len = pow2_u32 (in_len s div TMIN_SET_STEPS);
          set_len = (if set_len < TMIN_SET_MIN_SIZE then TMIN_SET_MIN_SIZE else set_len)
      in run_loop (norm_step h set_len) (0, s))"

section \<open>Block deletion\<close>

text \<open>A copy of the tail reads nothing when there is none, even behind the end of the buffer.\<close>

definition copy_tail :: "bytes \<Rightarrow> nat \<Rightarrow> bytes \<Rightarrow> nat \<Rightarrow> nat \<Rightarrow> bytes res" where
  "copy_tail dst d src s n = (if n = 0 then Inr dst else memcpy dst d src s n)"

definition del_step :: "'w thost \<Rightarrow> nat \<Rightarrow> nat \<times> bool \<times> bool \<times> 'w tmin \<Rightarrow>
    ((bool \<times> 'w tmin, nat \<times> bool \<times> bool \<times> 'w tmin) ctl) res" where
  "del_step h del_len = (\<lambda>(del_pos, prev_del, changed_any, s).
     if \<not> del_pos < in_len s then Inr (Break (changed_any, s)) else
     let tail_len = in_len s - del_pos - del_len in
     ebind (if \<not> prev_del \<and> tail_len \<noteq> 0 then
              (if del_pos < del_len then Inl Fault
               else same_blocks (in_data s) (del_pos - del_len) del_pos del_len)
            else Inr False) (\<lambda>same.
     if same then Inr (Cont (del_pos + del_len, prev_del, changed_any, s))
     else ebind (memcpy (tmp_buf s) 0 (in_data s) 0 del_pos) (\<lambda>t.
          ebind (copy_tail t del_pos (in_data s) (del_pos + del_len) tail_len) (\<lambda>t.
          ebind (tmin_run_target h t (del_pos + tail_len) False (s\<lparr>tmp_buf := t\<rparr>)) (\<lambda>(keep, s).
            if keep then ebind (memcpy (in_data s) 0 (tmp_buf s) 0 (del_pos + tail_len)) (\<lambda>d.
              Inr (Cont (del_pos, True, True, s\<lparr>in_data := d, in_len := del_pos + tail_len\<rparr>)))
            else Inr (Cont (del_pos + del_len, False, changed_any, s)))))))"

definition del_size_step :: "'w thost \<Rightarrow> nat \<times> bool \<times> 'w tmin \<Rightarrow> ((bool \<times> 'w tmin, nat \<times> bool \<times> 'w tmin) ctl) res" where
  "del_size_step h = (\<lambda>(del_len, changed_any, s).
     let del_len = (if del_len = 0 then 1 else del_len) in
     ebind (run_loop (del_step h del_len) (0, True, changed_any, s)) (\<lambda>(changed_any, s).
       if del_len > del_len_limit s \<and> in_len s \<ge> 1 then Inr (Cont (del_len div 2, changed_any, s))
       else Inr (Break (changed_any, s))))"

definition delete_blocks :: "'w thost \<Rightarrow> 'w tmin \<Rightarrow> (bool \<times> 'w tmin) res" where
  "delete_blocks h s = run_loop (del_size_step h) (pow2_u32 (in_len s div TRIM_START_STEPS), False, s)"

section \<open>Symbols and characters\<close>

definition alpha_map :: "'w tmin \<Rightarrow> nat \<Rightarrow> nat" where
  "alpha_map s i = count_list (take (in_len s) (in_data s)) (word_of_nat i)"

definition replace_sym :: "u8 \<Rightarrow> nat \<Rightarrow> bytes \<Rightarrow> bytes" where
  "replace_sym c n b = map (\<lambda>x. if x = c then 48 else x) (take n b) @ drop n b"

definition sym_step :: "'w thost \<Rightarrow> (nat \<Rightarrow> nat) \<Rightarrow> nat \<Rightarrow> bool \<times> 'w tmin \<Rightarrow> (bool \<times> 'w tmin) res" where
  "sym_step h alpha i = (\<lambda>(changed_any, s).
     if i = 48 \<or> alpha i = 0 then Inr (changed_any, s)
     else ebind (memcpy (tmp_buf s) 0 (in_data s) 0 (in_len s)) (\<lambda>t.
          let t = replace_sym (word_of_nat i) (in_len s) t in
          ebind (tmin_run_target h t (in_len s) False (s\<lparr>tmp_buf := t\<rparr>)) (\<lambda>(keep, s).
            if keep then ebind (memcpy (in_data s) 0 (tmp_buf s) 0 (in_len s)) (\<lambda>d.
              Inr (True, s\<lparr>in_data := d\<rparr>))
            else Inr (changed_any, s))))"

definition minimize_alphabet :: "'w thost \<Rightarrow> bool \<times> 'w tmin \<Rightarrow> (bool \<times> 'w tmin) res" where
  "minimize_alphabet h = (\<lambda>(changed_any, s). count_loop 256 0 (sym_step h (alpha_map s)) (changed_any, s))"

definition char_step :: "'w thost \<Rightarrow> nat \<Rightarrow> bool \<times> 'w tmin \<Rightarrow> (bool \<times> 'w tmin) res" where
  "char_step h i = (\<lambda>(changed_any, s).
     ebind (load8 (tmp_buf s) i) (\<lambda>orig.
     if orig = 48 then Inr (changed_any, s)
     else ebind (store8 (tmp_buf s) i 48) (\<lambda>t.
          ebind (tmin_run_target h t (in_len s) False (s\<lparr>tmp_buf := t\<rparr>)) (\<lambda>(keep, s).
            if keep then ebind (store8 (in_data s) i 48) (\<lambda>d. Inr (True, s\<lparr>in_data := d\<rparr>))
            else ebind (store8 (tmp_buf s) i orig) (\<lambda>t. Inr (changed_any, s\<lparr>tmp_buf := t\<rparr>))))))"

definition minimize_chars :: "'w thost \<Rightarrow> bool \<times> 'w tmin \<Rightarrow> (bool \<times> 'w tmin) res" where
  "minimize_chars h = (\<lambda>(changed_any, s).
     ebind (memcpy (tmp_buf s) 0 (in_data s) 0 (in_len s)) (\<lambda>t.
       count_loop (in_len s) 0 (char_step h) (changed_any, s\<lparr>tmp_buf := t\<rparr>)))"

section \<open>The passes\<close>

definition pass_step :: "'w thost \<Rightarrow> nat \<times> 'w tmin \<Rightarrow> (('w tmin, nat \<times> 'w tmin) ctl) res" where
  "pass_step h = (\<lambda>(cur_pass, s).
     let cur_pass = cur_pass + 1 in
     ebind (delete_blocks h s) (\<lambda>(changed_any, s).
     if cur_pass > 1 \<and> \<not> changed_any then Inr (Break s)
     else ebind (minimize_alphabet h (changed_any, s)) (\<lambda>(changed_any, s).
          ebind (minimize_chars h (changed_any, s)) (\<lambda>(changed_any, s).
            if changed_any then Inr (Cont (cur_pass, s)) else Inr (Break s)))))"

text \<open>\<open>tmp\<close> is the uninitialised block of \<open>in_len\<close> bytes.\<close>

definition minimize :: "'w thost \<Rightarrow> bytes \<Rightarrow> 'w tmin \<Rightarrow> 'w tmin res" where
  "minimize h tmp s =
     ebind (normalize h (s\<lparr>tmp_buf := tmp\<rparr>)) (\<lambda>s. run_loop (pass_step h) (0, s))"

text \<open>The part of \<open>main\<close> around it: the dry run, its checks, the minimization and the output.\<close>

definition tmin_main :: "'w thost \<Rightarrow> bytes \<Rightarrow> 'w tmin \<Rightarrow> (bytes \<times> 'w tmin) res" where
  "tmin_main h tmp s =
     ebind (tmin_run_target h (in_data s) (in_len s) True s) (\<lambda>(_, s).
     if hang_mode s \<and> \<not> last_run_timed_out s then Inl Fatal
     else if last_run_timed_out s \<and> \<not> hang_mode s then Inl Fatal
     else if \<not> hang_mode s \<and> \<not> crash_mode s \<and> \<not> anything_set (t_trace s) then Inl Fatal
     else ebind (minimize h tmp s) (\<lambda>s.
       if in_len s \<le> length (in_data s) then Inr (take (in_len s) (in_data s), s) else Inl Fault))"

end
