(* ===== verification/AFL_TminLemmas.thy ===== *)
theory AFL_TminLemmas
  imports AFL_Tmin AFL_AllocProps
begin

text \<open>
  The minimizer on a target that behaves the same for the same input. \<open>judge\<close> reduces running the
  target to a predicate on test cases; each stage then keeps a test case that the predicate accepts
  and makes it lighter when it reports a change, where \<open>weight\<close> counts the bytes and the bytes
  other than \<open>'0'\<close>. The weight is the measure of the passes.
\<close>

section \<open>States\<close>

definition data :: "'w tmin \<Rightarrow> bytes" where
  "data s = take (in_len s) (in_data s)"

definition cfg :: "'w tmin \<Rightarrow> 'w tmin \<Rightarrow> bool" where
  "cfg c s \<longleftrightarrow> hang_mode s = hang_mode c \<and> crash_mode s = crash_mode c \<and> exact_mode s = exact_mode c \<and>
     edges_only s = edges_only c \<and> mask_bitmap s = mask_bitmap c \<and> orig_cksum s = orig_cksum c \<and>
     del_len_limit s = del_len_limit c"

definition kept :: "'w tmin \<Rightarrow> 'w tmin \<Rightarrow> bool" where
  "kept s s' \<longleftrightarrow> cfg s s' \<and> in_data s' = in_data s \<and> in_len s' = in_len s \<and> tmp_buf s' = tmp_buf s"

definition judge :: "'w thost \<Rightarrow> 'w tmin \<Rightarrow> (bytes \<Rightarrow> bool) \<Rightarrow> bool" where
  "judge h c K \<longleftrightarrow> (\<forall>s mem len. cfg c s \<longrightarrow> len \<le> length mem \<longrightarrow>
     (\<exists>s'. tmin_run_target h mem len False s = Inr (K (take len mem), s') \<and> kept s s'))"

lemma judgeD:
  assumes "judge h c K" "cfg c s" "len \<le> length mem"
  obtains s' where "tmin_run_target h mem len False s = Inr (K (take len mem), s')" "kept s s'"
  using assms unfolding judge_def by blast

definition buffers :: "nat \<Rightarrow> 'w tmin \<Rightarrow> 'w tmin \<Rightarrow> bool" where
  "buffers N c s \<longleftrightarrow> cfg c s \<and> length (in_data s) = N \<and> length (tmp_buf s) = N \<and> in_len s \<le> N"

definition weight :: "bytes \<Rightarrow> nat" where
  "weight d = length d + length (filter (\<lambda>b. b \<noteq> 48) d)"

text \<open>What a stage has made of the state; \<open>b\<close> says whether it has changed the test case.\<close>

definition reach :: "nat \<Rightarrow> 'w tmin \<Rightarrow> (bytes \<Rightarrow> bool) \<Rightarrow> bool \<Rightarrow> 'w tmin \<Rightarrow> 'w tmin \<Rightarrow> bool" where
  "reach N c K b s s' \<longleftrightarrow> buffers N c s' \<and> (K (data s) \<longrightarrow> K (data s')) \<and> length (data s') \<le> length (data s) \<and>
     (if b then weight (data s') < weight (data s) else data s' = data s)"

lemma reach_refl: "buffers N c s \<Longrightarrow> reach N c K False s s"
  by (simp add: reach_def)

lemma reach_trans: "reach N c K a s t \<Longrightarrow> reach N c K b t u \<Longrightarrow> reach N c K (a \<or> b) s u"
  by (auto simp: reach_def split: if_splits)

lemma length_data: "buffers N c s \<Longrightarrow> length (data s) = in_len s"
  by (simp add: buffers_def data_def)

lemma weight_append [simp]: "weight (a @ b) = weight a + weight b"
  by (simp add: weight_def)

text \<open>A copy of the test case in the scratch buffer.\<close>

lemma copied:
  assumes "buffers N c s"
  shows "memcpy (tmp_buf s) 0 (in_data s) 0 (in_len s) = Inr (data s @ drop (in_len s) (tmp_buf s))"
  using assms by (simp add: buffers_def data_def mem_ok)

lemma buffers_upd [simp]:
  "buffers N c s \<Longrightarrow> length t = N \<Longrightarrow> buffers N c (s\<lparr>tmp_buf := t\<rparr>)"
  "buffers N c s \<Longrightarrow> length d = N \<Longrightarrow> buffers N c (s\<lparr>in_data := d\<rparr>)"
  by (simp_all add: buffers_def cfg_def)

lemma cfg_kept: "cfg c s \<Longrightarrow> kept s s' \<Longrightarrow> cfg c s'"
  by (simp add: cfg_def kept_def)

lemma buffers_kept: "buffers N c s \<Longrightarrow> kept s s' \<Longrightarrow> buffers N c s'"
  by (auto simp: buffers_def kept_def intro: cfg_kept)

lemma data_kept: "kept s s' \<Longrightarrow> data s' = data s"
  by (simp add: data_def kept_def)

text \<open>One trial: the target runs on the first \<open>n\<close> bytes of a new scratch buffer.\<close>

lemma trial:
  assumes "judge h c K" "buffers N c s" "length t = N" "n \<le> N"
  obtains s' where "tmin_run_target h t n False (s\<lparr>tmp_buf := t\<rparr>) = Inr (K (take n t), s')"
    "buffers N c s'" "data s' = data s" "in_data s' = in_data s" "in_len s' = in_len s" "tmp_buf s' = t"
proof -
  have b: "buffers N c (s\<lparr>tmp_buf := t\<rparr>)" using assms by simp
  then have "cfg c (s\<lparr>tmp_buf := t\<rparr>)" by (simp add: buffers_def)
  from judgeD [OF assms(1) this, of n t] assms(3,4) obtain s' where
    s': "tmin_run_target h t n False (s\<lparr>tmp_buf := t\<rparr>) = Inr (K (take n t), s')" "kept (s\<lparr>tmp_buf := t\<rparr>) s'" by auto
  show ?thesis
    by (rule that [OF s'(1) buffers_kept [OF b s'(2)]])
      (use s'(2) in \<open>auto simp: kept_def data_def\<close>)
qed

section \<open>Block normalization\<close>

definition blank :: "nat \<Rightarrow> nat \<Rightarrow> bytes \<Rightarrow> bytes" where
  "blank pos n d = take pos d @ replicate n 48 @ drop (pos + n) d"

lemma weight_blank: "pos + n \<le> length d \<Longrightarrow> weight (blank pos n d) \<le> weight d"
proof -
  assume le: "pos + n \<le> length d"
  have "d = take pos d @ take n (drop pos d) @ drop (pos + n) d"
    by (metis append_take_drop_id add.commute drop_drop)
  then have "weight d = weight (take pos d) + weight (take n (drop pos d)) + weight (drop (pos + n) d)"
    by (metis weight_append add.assoc)
  moreover have "weight (replicate n 48) \<le> weight (take n (drop pos d))" using le by (simp add: weight_def)
  ultimately show ?thesis by (simp add: blank_def)
qed

lemma length_blank: "pos + n \<le> length d \<Longrightarrow> length (blank pos n d) = length d"
  by (simp add: blank_def)

lemma norm_step_ok:
  assumes h: "judge h c K" and s: "buffers N c s" and pos: "pos < in_len s" and n: "n = min set_len (in_len s - pos)"
  shows "\<exists>s'. norm_step h set_len (pos, s) = Inr (Cont (pos + set_len, s')) \<and> buffers N c s' \<and> in_len s' = in_len s \<and>
    (data s' = data s \<or> K (data s') \<and> data s' = blank pos n (data s))"
proof (cases "take n (drop pos (in_data s)) = replicate n 48")
  case True
  then show ?thesis using s pos n
    by (intro exI [of _ s]) (auto simp: norm_step_def Let_def all_zero_chars_def buffers_def)
next
  case False
  have N: "length (in_data s) = N" "length (tmp_buf s) = N" "in_len s \<le> N" using s by (auto simp: buffers_def)
  have pn: "pos + n \<le> in_len s" using pos n by simp
  let ?t = "data s @ drop (in_len s) (tmp_buf s)"
  have lt: "length ?t = N" using N length_data [OF s] by simp
  define t where "t = take pos ?t @ replicate n 48 @ drop (pos + n) ?t"
  have t: "memset ?t pos 48 n = Inr t" using lt N pn by (simp add: mem_ok t_def)
  have len: "length t = N" using lt N pn by (simp add: t_def)
  have tk: "take (in_len s) t = blank pos n (data s)"
    using length_data [OF s] pn by (simp add: t_def blank_def)
  from trial [OF h s len N(3)] obtain s' where s': "tmin_run_target h t (in_len s) False (s\<lparr>tmp_buf := t\<rparr>) = Inr (K (take (in_len s) t), s')"
    "buffers N c s'" "data s' = data s" "in_data s' = in_data s" "in_len s' = in_len s" by metis
  have zero: "all_zero_chars (in_data s) pos n = Inr False"
    using False N pn by (simp add: all_zero_chars_def)
  have step: "norm_step h set_len (pos, s) = (if K (blank pos n (data s)) then
      ebind (memset (in_data s') pos 48 n) (\<lambda>d. Inr (Cont (pos + set_len, s'\<lparr>in_data := d\<rparr>)))
      else Inr (Cont (pos + set_len, s')))"
    using pos zero t s'(1) by (simp add: norm_step_def Let_def n [symmetric] copied [OF s] tk)
  show ?thesis
  proof (cases "K (blank pos n (data s))")
    case True
    let ?d = "blank pos n (in_data s)"
    have "memset (in_data s') pos 48 n = Inr ?d" using s'(4) N pn by (simp add: mem_ok blank_def)
    moreover have "data (s'\<lparr>in_data := ?d\<rparr>) = blank pos n (data s)"
      using N pn s'(5) by (simp add: data_def blank_def take_overwrite) (simp add: drop_take)
    moreover have "buffers N c (s'\<lparr>in_data := ?d\<rparr>)"
      using s'(2) N pn by (simp add: length_blank)
    ultimately show ?thesis using step True s'(5) by auto
  next
    case False
    then show ?thesis using step s' by auto
  qed
qed

lemma normalize_ok:
  assumes h: "judge h c K" and s: "buffers N c s"
  shows "\<exists>s'. normalize h s = Inr s' \<and> buffers N c s' \<and> (K (data s) \<longrightarrow> K (data s')) \<and>
    length (data s') = length (data s) \<and> weight (data s') \<le> weight (data s)"
proof -
  define set_len where "set_len = (if pow2_u32 (in_len s div TMIN_SET_STEPS) < TMIN_SET_MIN_SIZE then TMIN_SET_MIN_SIZE
    else pow2_u32 (in_len s div TMIN_SET_STEPS))"
  have pos: "0 < set_len" by (simp add: set_len_def TMIN_SET_MIN_SIZE_def)
  let ?I = "\<lambda>(pos :: nat, t). buffers N c t \<and> (K (data s) \<longrightarrow> K (data t)) \<and> length (data t) = length (data s) \<and>
    weight (data t) \<le> weight (data s) \<and> in_len t = in_len s"
  have "\<exists>s'. run_loop (norm_step h set_len) (0, s) = Inr s' \<and> ?I (0, s')"
  proof (rule run_loop_returns [where I = ?I and m = "\<lambda>(pos, t). in_len s - pos"])
    fix st assume I: "?I st"
    obtain p t where st: "st = (p, t)" by fastforce
    show "(\<exists>a. norm_step h set_len st = Inr (Break a) \<and> ?I (0, a)) \<or>
        (\<exists>s'. norm_step h set_len st = Inr (Cont s') \<and> ?I s' \<and>
          (case s' of (pos, t) \<Rightarrow> in_len s - pos) < (case st of (pos, t) \<Rightarrow> in_len s - pos))"
    proof (cases "p < in_len t")
      case False
      then show ?thesis using I by (auto simp: st norm_step_def)
    next
      case True
      have t: "buffers N c t" "in_len t = in_len s" using I by (auto simp: st)
      from norm_step_ok [OF h t(1) True refl] obtain t' where t': "norm_step h set_len (p, t) = Inr (Cont (p + set_len, t'))"
        "buffers N c t'" "in_len t' = in_len t"
        "data t' = data t \<or> K (data t') \<and> data t' = blank p (min set_len (in_len t - p)) (data t)" by blast
      have "p + min set_len (in_len t - p) \<le> length (data t)" using length_data [OF t(1)] True by simp
      then have "length (data t') = length (data t)" "weight (data t') \<le> weight (data t)"
        using t'(4) by (auto simp: length_blank weight_blank)
      moreover have "K (data t) \<longrightarrow> K (data t')" using t'(4) by auto
      ultimately have "?I (p + set_len, t')" using I t' by (auto simp: st)
      then show ?thesis using t'(1) True t(2) pos by (auto simp: st)
    qed
  qed (use s in simp)
  then show ?thesis by (auto simp: normalize_def Let_def set_len_def [symmetric])
qed

section \<open>Block deletion\<close>

definition cut :: "nat \<Rightarrow> nat \<Rightarrow> bytes \<Rightarrow> bytes" where
  "cut n pos d = take pos d @ drop (pos + n) d"

lemma length_cut: "pos \<le> length d \<Longrightarrow> length (cut n pos d) = pos + (length d - pos - n)"
  by (simp add: cut_def)

lemma weight_cut: "0 < n \<Longrightarrow> pos < length d \<Longrightarrow> weight (cut n pos d) < weight d"
proof -
  assume *: "0 < n" "pos < length d"
  have "d = take pos d @ take n (drop pos d) @ drop (pos + n) d"
    by (metis append_take_drop_id add.commute drop_drop)
  then have "weight d = weight (take pos d) + weight (take n (drop pos d)) + weight (drop (pos + n) d)"
    by (metis weight_append add.assoc)
  moreover have "0 < weight (take n (drop pos d))" using * by (simp add: weight_def)
  ultimately show ?thesis by (simp add: cut_def)
qed

text \<open>Deleting one of two equal neighbouring blocks gives the same test case.\<close>

lemma cut_same_blocks:
  assumes "n \<le> pos" "pos + n \<le> length d" "take n (drop (pos - n) d) = take n (drop pos d)"
  shows "cut n (pos - n) d = cut n pos d"
proof -
  have "take pos d = take (pos - n) d @ take n (drop (pos - n) d)"
    using assms(1) by (simp add: take_add [symmetric])
  moreover have "drop pos d = take n (drop pos d) @ drop (pos + n) d"
    by (metis append_take_drop_id add.commute drop_drop)
  ultimately show ?thesis using assms by (simp add: cut_def)
qed

lemma take_drop_take: "pos + n \<le> l \<Longrightarrow> take n (drop pos (take l d)) = take n (drop pos d)"
  by (simp add: drop_take min_absorb1)

lemma copy_tail_ok: "d + n \<le> length dst \<Longrightarrow> n = 0 \<or> s + n \<le> length src \<Longrightarrow>
    copy_tail dst d src s n = Inr (take d dst @ take n (drop s src) @ drop (d + n) dst)"
  by (auto simp: copy_tail_def mem_ok)

lemma del_step_at:
  assumes "pos < in_len s" "tail = in_len s - pos - n"
  shows "del_step h n (pos, prev, ch, s) =
    ebind (if \<not> prev \<and> tail \<noteq> 0 then (if pos < n then Inl Fault else same_blocks (in_data s) (pos - n) pos n) else Inr False) (\<lambda>same.
      if same then Inr (Cont (pos + n, prev, ch, s))
      else ebind (memcpy (tmp_buf s) 0 (in_data s) 0 pos) (\<lambda>t.
           ebind (copy_tail t pos (in_data s) (pos + n) tail) (\<lambda>t.
           ebind (tmin_run_target h t (pos + tail) False (s\<lparr>tmp_buf := t\<rparr>)) (\<lambda>(keep, s).
             if keep then ebind (memcpy (in_data s) 0 (tmp_buf s) 0 (pos + tail)) (\<lambda>d.
               Inr (Cont (pos, True, True, s\<lparr>in_data := d, in_len := pos + tail\<rparr>)))
             else Inr (Cont (pos + n, False, ch, s))))))"
  using assms(1) unfolding assms(2) del_step_def Let_def prod.case by (simp only: not_True_eq_False if_False)

lemma del_step_cases:
  assumes h: "judge h c K" and s: "buffers N c s" and n: "0 < n" and pos: "pos < in_len s" and prev: "prev \<or> n \<le> pos"
  shows "(\<not> prev \<and> cut n (pos - n) (data s) = cut n pos (data s) \<and> del_step h n (pos, prev, ch, s) = Inr (Cont (pos + n, prev, ch, s))) \<or>
    (\<exists>s'. buffers N c s' \<and>
      (\<not> K (cut n pos (data s)) \<and> data s' = data s \<and> in_len s' = in_len s \<and>
         del_step h n (pos, prev, ch, s) = Inr (Cont (pos + n, False, ch, s')) \<or>
       K (cut n pos (data s)) \<and> data s' = cut n pos (data s) \<and> in_len s' = length (cut n pos (data s)) \<and>
         del_step h n (pos, prev, ch, s) = Inr (Cont (pos, True, True, s'))))"
proof -
  have N: "length (in_data s) = N" "length (tmp_buf s) = N" "in_len s \<le> N" using s by (auto simp: buffers_def)
  define tail where "tail = in_len s - pos - n"
  have le: "pos + tail \<le> in_len s" "tail \<noteq> 0 \<Longrightarrow> pos + n + tail = in_len s" using pos by (auto simp: tail_def)
  define same where "same = (\<not> prev \<and> tail \<noteq> 0 \<and> take n (drop (pos - n) (in_data s)) = take n (drop pos (in_data s)))"
  have guard: "(if \<not> prev \<and> tail \<noteq> 0 then (if pos < n then Inl Fault else same_blocks (in_data s) (pos - n) pos n)
      else Inr False) = (Inr same :: bool res)"
    using prev le N by (auto simp: same_def same_blocks_def)
  show ?thesis
  proof (cases same)
    case True
    then have "del_step h n (pos, prev, ch, s) = Inr (Cont (pos + n, prev, ch, s))"
      unfolding del_step_at [OF pos tail_def] guard by simp
    moreover have "cut n (pos - n) (data s) = cut n pos (data s)"
    proof (rule cut_same_blocks)
      show "n \<le> pos" using True prev by (auto simp: same_def)
      have *: "pos + n \<le> in_len s" using True le by (auto simp: same_def)
      then show "pos + n \<le> length (data s)" using length_data [OF s] by simp
      show "take n (drop (pos - n) (data s)) = take n (drop pos (data s))"
        using True * by (simp add: same_def data_def take_drop_take)
    qed
    ultimately show ?thesis using True by (simp add: same_def)
  next
    case False
    define t1 where "t1 = take pos (in_data s) @ drop pos (tmp_buf s)"
    define t where "t = take pos t1 @ take tail (drop (pos + n) (in_data s)) @ drop (pos + tail) t1"
    have t1: "memcpy (tmp_buf s) 0 (in_data s) 0 pos = Inr t1" "length t1 = N"
      using N pos by (simp_all add: mem_ok t1_def)
    have cp: "tail = 0 \<or> pos + n + tail \<le> length (in_data s)" using le(2) N by (cases "tail = 0") auto
    have "pos + tail \<le> length t1" using t1 N le by simp
    from copy_tail_ok [OF this cp] have t: "copy_tail t1 pos (in_data s) (pos + n) tail = Inr t" by (simp add: t_def)
    have lt: "length t = N" using t1(2) N le(1) cp by (auto simp: t_def)
    have tk: "take (pos + tail) t = cut n pos (data s)"
    proof -
      have "take tail (drop (pos + n) (in_data s)) = drop (pos + n) (data s)"
        by (simp add: data_def drop_take tail_def)
      moreover have "take pos t1 = take pos (data s)" using N pos by (simp add: t1_def data_def min_def)
      moreover have "length (take pos t1) + length (take tail (drop (pos + n) (in_data s))) = pos + tail"
        using t1 N pos cp by auto
      ultimately show ?thesis unfolding t_def cut_def by (metis take_exact2)
    qed
    have lc: "length (cut n pos (data s)) = pos + tail"
      using length_data [OF s] pos by (simp add: length_cut tail_def)
    have "pos + tail \<le> N" using le N by simp
    from trial [OF h s lt this] obtain s' where
      s': "tmin_run_target h t (pos + tail) False (s\<lparr>tmp_buf := t\<rparr>) = Inr (K (take (pos + tail) t), s')"
      "buffers N c s'" "data s' = data s" "in_data s' = in_data s" "in_len s' = in_len s" "tmp_buf s' = t" by metis
    let ?d = "take (pos + tail) t @ drop (pos + tail) (in_data s)"
    have d: "memcpy (in_data s') 0 (tmp_buf s') 0 (pos + tail) = Inr ?d" using s' N lt le by (simp add: mem_ok)
    have step: "del_step h n (pos, prev, ch, s) = (if K (cut n pos (data s))
        then Inr (Cont (pos, True, True, s'\<lparr>in_data := ?d, in_len := pos + tail\<rparr>))
        else Inr (Cont (pos + n, False, ch, s')))"
      using False t1 t d s'(1) tk unfolding del_step_at [OF pos tail_def] guard by simp
    show ?thesis
    proof (cases "K (cut n pos (data s))")
      case True
      let ?u = "s'\<lparr>in_data := ?d, in_len := pos + tail\<rparr>"
      have "buffers N c ?u" using s'(2) lt N le by (auto simp: buffers_def cfg_def)
      moreover have "data ?u = cut n pos (data s)" using lc by (simp add: data_def tk)
      ultimately show ?thesis using True step lc by (intro disjI2 exI [of _ ?u]) simp
    next
      case False
      then show ?thesis using step s' by (intro disjI2 exI [of _ s']) simp
    qed
  qed
qed

text \<open>Without a change, every block in front of the position has been tried.\<close>

definition tried :: "(bytes \<Rightarrow> bool) \<Rightarrow> nat \<Rightarrow> nat \<Rightarrow> bytes \<Rightarrow> bool" where
  "tried K n p d \<longleftrightarrow> (\<forall>q<p. n dvd q \<longrightarrow> \<not> K (cut n q d))"

lemma tried_step: "n dvd p \<Longrightarrow> tried K n p d \<Longrightarrow> \<not> K (cut n p d) \<Longrightarrow> tried K n (p + n) d"
  unfolding tried_def
proof (intro allI impI)
  fix q assume *: "n dvd p" "\<forall>q<p. n dvd q \<longrightarrow> \<not> K (cut n q d)" "\<not> K (cut n p d)" "q < p + n" "n dvd q"
  show "\<not> K (cut n q d)"
  proof (cases "q < p")
    case False
    then have "n dvd q - p" "q - p < n" using * by auto
    then have "q = p" using False by (auto dest: dvd_imp_le)
    then show ?thesis using * by simp
  qed (use * in blast)
qed

text \<open>The invariant of the deletion loop that has started in the state \<open>s\<close>.\<close>

definition del_inv :: "nat \<Rightarrow> 'w tmin \<Rightarrow> (bytes \<Rightarrow> bool) \<Rightarrow> nat \<Rightarrow> bool \<Rightarrow> 'w tmin \<Rightarrow> nat \<times> bool \<times> bool \<times> 'w tmin \<Rightarrow> bool" where
  "del_inv N c K n ch s = (\<lambda>(p, prev, ch', t). \<exists>a. ch' = (ch \<or> a) \<and> reach N c K a s t \<and> (prev \<or> n \<le> p) \<and>
     (\<not> a \<longrightarrow> n dvd p \<and> (prev \<longrightarrow> p = 0) \<and> tried K n p (data s)))"

lemma reach_same: "reach N c K a s t \<Longrightarrow> buffers N c u \<Longrightarrow> data u = data t \<Longrightarrow> reach N c K a s u"
  by (auto simp: reach_def)

lemma reach_cut:
  assumes "reach N c K a s t" "buffers N c u" "0 < n" "p < length (data t)" "K (cut n p (data t))" "data u = cut n p (data t)"
  shows "reach N c K True s u"
proof -
  have "weight (data u) < weight (data t)" "length (data u) \<le> length (data t)"
    using weight_cut [OF assms(3,4)] assms(4,6) by (auto simp: length_cut)
  then show ?thesis using assms(1,2,5,6) by (auto simp: reach_def split: if_splits)
qed

lemma del_step_inv:
  fixes c s t :: "'w tmin"
  assumes h: "judge h c K" and n: "0 < n" and I: "del_inv N c K n ch s (p, prev, ch', t)" and p: "p < in_len t"
  shows "\<exists>p' prev' ch'' t'. del_step h n (p, prev, ch', t) = Inr (Cont (p', prev', ch'', t')) \<and>
    del_inv N c K n ch s (p', prev', ch'', t') \<and> in_len t' - p' < in_len t - p"
proof -
  from I obtain a where a: "ch' = (ch \<or> a)" "reach N c K a s t" "prev \<or> n \<le> p"
    "\<not> a \<Longrightarrow> n dvd p" "\<not> a \<Longrightarrow> prev \<Longrightarrow> p = 0" "\<not> a \<Longrightarrow> tried K n p (data s)" "\<not> a \<Longrightarrow> data t = data s"
    by (auto simp: del_inv_def reach_def)
  have t: "buffers N c t" using a(2) by (simp add: reach_def)
  consider (skip) "\<not> prev" "cut n (p - n) (data t) = cut n p (data t)" "del_step h n (p, prev, ch', t) = Inr (Cont (p + n, prev, ch', t))"
    | (keep) t' where "buffers N c t'" "\<not> K (cut n p (data t))" "data t' = data t" "in_len t' = in_len t"
        "del_step h n (p, prev, ch', t) = Inr (Cont (p + n, False, ch', t'))"
    | (del) t' where "buffers N c t'" "K (cut n p (data t))" "data t' = cut n p (data t)" "in_len t' = length (cut n p (data t))"
        "del_step h n (p, prev, ch', t) = Inr (Cont (p, True, True, t'))"
    using del_step_cases [OF h t n p a(3), of ch'] by blast
  then show ?thesis
  proof cases
    case skip
    have "tried K n (p + n) (data s)" if "\<not> a"
    proof (rule tried_step [OF a(4) a(6)])
      have "n \<le> p" "n dvd p - n" "p - n < p" using a(3) a(4) [OF that] skip(1) n by auto
      then show "\<not> K (cut n p (data s))" using a(6) [OF that] a(7) [OF that] skip(2) by (auto simp: tried_def)
    qed (use that in auto)
    then have "del_inv N c K n ch s (p + n, prev, ch', t)" using a skip(1) by (auto simp: del_inv_def)
    then show ?thesis using skip(3) n p by (intro exI conjI) auto
  next
    case keep
    have "tried K n (p + n) (data s)" if "\<not> a"
      using tried_step [OF a(4) a(6)] that keep(2) a(7) by auto
    moreover have "reach N c K a s t'" using a(2) keep(1,3) by (rule reach_same)
    ultimately have "del_inv N c K n ch s (p + n, False, ch', t')" using a by (auto simp: del_inv_def)
    then show ?thesis using keep n p by (intro exI conjI) auto
  next
    case del
    have pl: "p < length (data t)" using p length_data [OF t] by simp
    have "reach N c K True s t'" by (rule reach_cut [OF a(2) del(1) n pl del(2,3)])
    then have "del_inv N c K n ch s (p, True, True, t')" by (auto simp: del_inv_def)
    moreover have "in_len t' - p < in_len t - p" using del(4) pl n length_data [OF t] by (simp add: length_cut)
    ultimately show ?thesis using del(5) by blast
  qed
qed

lemma del_loop_ok:
  fixes c s :: "'w tmin"
  assumes h: "judge h c K" and s: "buffers N c s" and n: "0 < n"
  shows "\<exists>a s'. run_loop (del_step h n) (0, True, ch, s) = Inr (ch \<or> a, s') \<and> reach N c K a s s' \<and>
    (\<not> a \<longrightarrow> tried K n (in_len s) (data s))"
proof -
  have "\<exists>r. run_loop (del_step h n) (0, True, ch, s) = Inr r \<and>
    (\<exists>a s'. r = (ch \<or> a, s') \<and> reach N c K a s s' \<and> (\<not> a \<longrightarrow> tried K n (in_len s) (data s)))"
  proof (rule run_loop_returns [where I = "del_inv N c K n ch s" and m = "\<lambda>(p, prev, ch, t). in_len t - p"], goal_cases)
    case (1 st)
    obtain p prev ch' t where st: "st = (p, prev, ch', t)" using prod_cases4 by blast
    show ?case
    proof (cases "p < in_len t")
      case True
      from del_step_inv [OF h n 1 [unfolded st] True] show ?thesis by (fastforce simp: st)
    next
      case False
      from 1 st obtain a where a: "ch' = (ch \<or> a)" "reach N c K a s t" "\<not> a \<Longrightarrow> tried K n p (data s)"
        by (auto simp: del_inv_def)
      have "tried K n (in_len s) (data s)" if "\<not> a"
      proof -
        have "data t = data s" "buffers N c t" using a(2) that by (auto simp: reach_def)
        then have "in_len t = in_len s" using length_data s by metis
        then show ?thesis using a(3) [OF that] False by (auto simp: tried_def)
      qed
      then show ?thesis using a False by (auto simp: st del_step_def)
    qed
  next
    case 2
    show ?case using reach_refl [OF s] by (auto simp: del_inv_def tried_def)
  qed
  then show ?thesis by blast
qed

text \<open>At the end, the blocks of some size up to the limit have been tried in vain.\<close>

definition swept :: "(bytes \<Rightarrow> bool) \<Rightarrow> nat \<Rightarrow> bytes \<Rightarrow> bool" where
  "swept K l d \<longleftrightarrow> (\<exists>n. 0 < n \<and> n \<le> l \<and> tried K n (length d) d)"

lemma swept_one: "swept K 1 d \<Longrightarrow> q < length d \<Longrightarrow> \<not> K (take q d @ drop (Suc q) d)"
  by (auto simp: swept_def tried_def cut_def le_Suc_eq)

lemma delete_blocks_ok:
  fixes c s :: "'w tmin"
  assumes h: "judge h c K" and s: "buffers N c s" and l: "0 < del_len_limit c"
  shows "\<exists>a s'. delete_blocks h s = Inr (a, s') \<and> reach N c K a s s' \<and> (\<not> a \<longrightarrow> swept K (del_len_limit c) (data s))"
proof -
  let ?I = "\<lambda>(n :: nat, a, t). reach N c K a s t"
  let ?Q = "\<lambda>(a, t). reach N c K a s t \<and> (\<not> a \<longrightarrow> swept K (del_len_limit c) (data s))"
  have "\<exists>r. run_loop (del_size_step h) (pow2_u32 (in_len s div TRIM_START_STEPS), False, s) = Inr r \<and> ?Q r"
  proof (rule run_loop_returns [where I = ?I and m = "\<lambda>(n, a, t). n"], goal_cases)
    case (1 st)
    obtain m b t where st: "st = (m, b, t)" using prod_cases3 by blast
    define n where "n = (if m = 0 then 1 else m)"
    have b: "reach N c K b s t" "buffers N c t" using 1 by (auto simp: st reach_def)
    have "0 < n" by (simp add: n_def)
    from del_loop_ok [OF h b(2) this, of b] obtain a u where u: "run_loop (del_step h n) (0, True, b, t) = Inr (b \<or> a, u)"
      "reach N c K a t u" "\<not> a \<Longrightarrow> tried K n (in_len t) (data t)" by blast
    have r: "reach N c K (b \<or> a) s u" using b(1) u(2) by (rule reach_trans)
    then have lim: "del_len_limit u = del_len_limit c" by (simp add: reach_def buffers_def cfg_def)
    have step: "del_size_step h st = (if n > del_len_limit c \<and> in_len u \<ge> 1 then Inr (Cont (n div 2, b \<or> a, u)) else Inr (Break (b \<or> a, u)))"
      using u(1) lim by (simp add: st del_size_step_def n_def [symmetric] Let_def)
    show ?case
    proof (cases "n > del_len_limit c \<and> in_len u \<ge> 1")
      case True
      then have "n div 2 < m" using l by (auto simp: n_def split: if_splits)
      then show ?thesis using step True r by (auto simp: st)
    next
      case False
      have "swept K (del_len_limit c) (data s)" if no: "\<not> (b \<or> a)"
      proof -
        have d: "data t = data s" "data u = data s" using b(1) r no by (auto simp: reach_def)
        have len: "in_len t = length (data s)" "in_len u = length (data s)"
          using length_data b(2) r d by (metis, metis reach_def)
        have tr: "tried K n (length (data s)) (data s)" using u(3) no len d by simp
        show ?thesis
        proof (cases "n \<le> del_len_limit c")
          case True
          then show ?thesis using tr \<open>0 < n\<close> unfolding swept_def by blast
        next
          case f: False
          then have "length (data s) = 0" using False len(2) by (metis One_nat_def Suc_leI gr0I not_less)
          then show ?thesis using l by (auto simp: swept_def tried_def)
        qed
      qed
      then show ?thesis using step False r by auto
    qed
  qed (use reach_refl [OF s] in simp)
  then show ?thesis by (auto simp: delete_blocks_def)
qed

section \<open>Symbols and characters\<close>

lemma replace_sym_append: "replace_sym c (length a) (a @ b) = map (\<lambda>x. if x = c then 48 else x) a @ b"
  by (simp add: replace_sym_def)

lemma weight_map: "weight (map (\<lambda>x. if x = c then 48 else x) d) \<le> weight d"
  by (induction d) (auto simp: weight_def)

lemma weight_map_less: "c \<noteq> 48 \<Longrightarrow> c \<in> set d \<Longrightarrow> weight (map (\<lambda>x. if x = c then 48 else x) d) < weight d"
proof (induction d)
  case (Cons x d)
  then show ?case using weight_map [of c d] by (cases "x = c") (auto simp: weight_def)
qed simp

lemma reach_lighter:
  assumes "reach N c K a s t" "buffers N c u" "K (data u)" "length (data u) = length (data t)" "weight (data u) < weight (data t)"
  shows "reach N c K True s u"
  using assms by (auto simp: reach_def split: if_splits)

lemma sym_unat: "i < 256 \<Longrightarrow> unat (word_of_nat i :: u8) = i"
  by (simp add: unat_of_nat take_bit_eq_mod)

lemma sym_not_48: "i < 256 \<Longrightarrow> i \<noteq> 48 \<Longrightarrow> word_of_nat i \<noteq> (48 :: u8)"
  using sym_unat [of i] by auto

text \<open>A symbol of the map is still in the test case when its turn comes.\<close>

lemma sym_step_ok:
  fixes c t :: "'w tmin"
  assumes h: "judge h c K" and i: "i < 256" and r: "reach N c K a s t"
    and al: "i \<noteq> 48 \<Longrightarrow> alpha i \<noteq> 0 \<Longrightarrow> word_of_nat i \<in> set (data t)"
  shows "\<exists>b u. sym_step h alpha i (ch \<or> a, t) = Inr (ch \<or> b, u) \<and> reach N c K b s u \<and>
    (data u = data t \<or> data u = map (\<lambda>x. if x = word_of_nat i then 48 else x) (data t))"
proof (cases "i = 48 \<or> alpha i = 0")
  case True
  then have "sym_step h alpha i (ch \<or> a, t) = Inr (ch \<or> a, t)" by (auto simp: sym_step_def)
  then show ?thesis using r by blast
next
  case False
  have b: "buffers N c t" using r by (simp add: reach_def)
  have N: "length (in_data t) = N" "length (tmp_buf t) = N" "in_len t \<le> N" using b by (auto simp: buffers_def)
  let ?d = "map (\<lambda>x. if x = word_of_nat i then 48 else x) (data t)"
  define tb where "tb = ?d @ drop (in_len t) (tmp_buf t)"
  have rep: "replace_sym (word_of_nat i) (in_len t) (data t @ drop (in_len t) (tmp_buf t)) = tb"
    using replace_sym_append [of _ "data t"] length_data [OF b] by (simp add: tb_def)
  have lt: "length tb = N" using N length_data [OF b] by (simp add: tb_def)
  have tk: "take (in_len t) tb = ?d" using length_data [OF b] by (simp add: tb_def)
  from trial [OF h b lt N(3)] obtain u where u: "tmin_run_target h tb (in_len t) False (t\<lparr>tmp_buf := tb\<rparr>) = Inr (K (take (in_len t) tb), u)"
    "buffers N c u" "data u = data t" "in_data u = in_data t" "in_len u = in_len t" "tmp_buf u = tb" by metis
  let ?e = "?d @ drop (in_len t) (in_data t)"
  have e: "memcpy (in_data u) 0 (tmp_buf u) 0 (in_len u) = Inr ?e" "length ?e = N"
    using u N lt tk length_data [OF b] by (simp_all add: mem_ok)
  have step: "sym_step h alpha i (ch \<or> a, t) = (if K ?d then Inr (True, u\<lparr>in_data := ?e\<rparr>) else Inr (ch \<or> a, u))"
    using False u(1) e(1) unfolding sym_step_def by (simp add: copied [OF b] rep Let_def tk)
  show ?thesis
  proof (cases "K ?d")
    case True
    let ?u = "u\<lparr>in_data := ?e\<rparr>"
    have d: "data ?u = ?d" using u(5) length_data [OF b] by (simp add: data_def)
    have "word_of_nat i \<noteq> (48 :: u8)" using sym_not_48 [OF i] False by simp
    from weight_map_less [OF this al] have "weight (data ?u) < weight (data t)" using False d by simp
    with reach_lighter [OF r, of ?u] have "reach N c K True s ?u" using d True u(2) e(2) by simp
    then show ?thesis using step True d by (intro exI [of _ True] exI [of _ ?u]) simp
  next
    case no: False
    have "reach N c K a s u" using r u(2,3) by (rule reach_same)
    then show ?thesis using step no u(3) by (intro exI [of _ a] exI [of _ u]) simp
  qed
qed

lemma minimize_alphabet_ok:
  fixes c s :: "'w tmin"
  assumes h: "judge h c K" and s: "buffers N c s"
  shows "\<exists>a s'. minimize_alphabet h (ch, s) = Inr (ch \<or> a, s') \<and> reach N c K a s s'"
proof -
  let ?I = "\<lambda>j (ch', t). \<exists>a. ch' = (ch \<or> a) \<and> reach N c K a s t \<and>
    (\<forall>i. j \<le> i \<longrightarrow> i < 256 \<longrightarrow> word_of_nat i \<in> set (data s) \<longrightarrow> word_of_nat i \<in> set (data t))"
  have "\<exists>r. count_loop 256 0 (sym_step h (alpha_map s)) (ch, s) = Inr r \<and> ?I (0 + 256) r"
  proof (rule count_loop_inv, goal_cases)
    case (1 i st)
    obtain ch' t where st: "st = (ch', t)" by fastforce
    from 1 obtain a where a: "ch' = (ch \<or> a)" "reach N c K a s t"
      "\<And>j. i \<le> j \<Longrightarrow> j < 256 \<Longrightarrow> word_of_nat j \<in> set (data s) \<Longrightarrow> word_of_nat j \<in> set (data t)" by (auto simp: st)
    have i: "i < 256" using 1 by simp
    have "word_of_nat i \<in> set (data t)" if "alpha_map s i \<noteq> 0"
      using a(3) [of i] i that by (auto simp: alpha_map_def data_def count_list_0_iff)
    with sym_step_ok [OF h i a(2), where alpha = "alpha_map s" and ch = ch] obtain b u where u:
      "sym_step h (alpha_map s) i (ch \<or> a, t) = Inr (ch \<or> b, u)" "reach N c K b s u"
      "data u = data t \<or> data u = map (\<lambda>x. if x = word_of_nat i then 48 else x) (data t)" by blast
    have "word_of_nat j \<in> set (data u)" if j: "Suc i \<le> j" "j < 256" "word_of_nat j \<in> set (data s)" for j
    proof -
      have "word_of_nat j \<in> set (data t)" using a(3) j by simp
      moreover have "word_of_nat j \<noteq> (word_of_nat i :: u8)" using sym_unat [of i] sym_unat [of j] i j by auto
      ultimately show ?thesis using u(3) by force
    qed
    then show ?case using u a(1) by (auto simp: st)
  next
    case 2
    show ?case using reach_refl [OF s] by auto
  qed
  then show ?thesis by (auto simp: minimize_alphabet_def)
qed

lemma weight_zero: "i < length d \<Longrightarrow> d ! i \<noteq> 48 \<Longrightarrow> weight (d[i := 48]) < weight d"
  by (induction d arbitrary: i) (auto simp: weight_def nth_Cons' list_update.simps split: nat.splits)

lemma char_step_ok:
  fixes c t :: "'w tmin"
  assumes h: "judge h c K" and r: "reach N c K a s t" and i: "i < in_len t" and tmp: "take (in_len t) (tmp_buf t) = data t"
  shows "\<exists>b u. char_step h i (ch \<or> a, t) = Inr (ch \<or> b, u) \<and> reach N c K b s u \<and> in_len u = in_len t \<and>
    take (in_len u) (tmp_buf u) = data u"
proof (cases "tmp_buf t ! i = 48")
  case True
  have "i < length (tmp_buf t)" using r i by (auto simp: reach_def buffers_def)
  then have "char_step h i (ch \<or> a, t) = Inr (ch \<or> a, t)" using True by (simp add: char_step_def mem_ok)
  then show ?thesis using r tmp by blast
next
  case False
  have b: "buffers N c t" using r by (simp add: reach_def)
  have N: "length (in_data t) = N" "length (tmp_buf t) = N" "in_len t \<le> N" using b by (auto simp: buffers_def)
  define tb where "tb = (tmp_buf t)[i := 48]"
  have lt: "length tb = N" using N by (simp add: tb_def)
  have tk: "take (in_len t) tb = (data t)[i := 48]" by (simp add: tb_def take_update_swap tmp)
  from trial [OF h b lt N(3)] obtain u where u: "tmin_run_target h tb (in_len t) False (t\<lparr>tmp_buf := tb\<rparr>) = Inr (K (take (in_len t) tb), u)"
    "buffers N c u" "data u = data t" "in_data u = in_data t" "in_len u = in_len t" "tmp_buf u = tb" by metis
  have restore: "tb[i := tmp_buf t ! i] = tmp_buf t" by (simp add: tb_def)
  have il: "i < N" using i N by simp
  have step: "char_step h i (ch \<or> a, t) = (if K ((data t)[i := 48]) then Inr (True, u\<lparr>in_data := (in_data t)[i := 48]\<rparr>)
      else Inr (ch \<or> a, u\<lparr>tmp_buf := tmp_buf t\<rparr>))"
    using False u(1,4,6) N lt il tk by (simp add: char_step_def mem_ok tb_def [symmetric] restore)
  show ?thesis
  proof (cases "K ((data t)[i := 48])")
    case True
    let ?u = "u\<lparr>in_data := (in_data t)[i := 48]\<rparr>"
    have d: "data ?u = (data t)[i := 48]" using u(5) by (simp add: data_def take_update_swap)
    have "data t ! i \<noteq> 48" using False i by (simp add: tmp [symmetric])
    then have "weight (data ?u) < weight (data t)" unfolding d using weight_zero i length_data [OF b] by simp
    then have "reach N c K True s ?u" using reach_lighter [OF r, of ?u] d True u(2) N by simp
    then show ?thesis using step True d tk u(5,6) by (intro exI [of _ True] exI [of _ ?u]) simp
  next
    case no: False
    let ?u = "u\<lparr>tmp_buf := tmp_buf t\<rparr>"
    have d: "data ?u = data t" using u(3) by (simp add: data_def)
    have "reach N c K a s ?u" using r _ d by (rule reach_same) (use u(2) N in simp)
    then show ?thesis using step no d u(5) tmp by (intro exI [of _ a] exI [of _ ?u]) simp
  qed
qed

lemma minimize_chars_ok:
  fixes c s :: "'w tmin"
  assumes h: "judge h c K" and s: "buffers N c s"
  shows "\<exists>a s'. minimize_chars h (ch, s) = Inr (ch \<or> a, s') \<and> reach N c K a s s'"
proof -
  let ?s = "s\<lparr>tmp_buf := data s @ drop (in_len s) (tmp_buf s)\<rparr>"
  let ?I = "\<lambda>(j :: nat) (ch', t). \<exists>a. ch' = (ch \<or> a) \<and> reach N c K a s t \<and> in_len t = in_len s \<and> take (in_len t) (tmp_buf t) = data t"
  have "\<exists>r. count_loop (in_len s) 0 (char_step h) (ch, ?s) = Inr r \<and> ?I (0 + in_len s) r"
  proof (rule count_loop_inv, goal_cases)
    case (1 i st)
    obtain ch' t where st: "st = (ch', t)" by fastforce
    from 1 obtain a where a: "ch' = (ch \<or> a)" "reach N c K a s t" "in_len t = in_len s" "take (in_len t) (tmp_buf t) = data t"
      unfolding st prod.case by blast
    have "i < in_len t" using 1 a(3) by simp
    from char_step_ok [OF h a(2) this a(4), of ch] obtain b u where u: "char_step h i (ch \<or> a, t) = Inr (ch \<or> b, u)"
      "reach N c K b s u" "in_len u = in_len t" "take (in_len u) (tmp_buf u) = data u" by blast
    have "?I (Suc i) (ch \<or> b, u)" unfolding prod.case using u(2-4) a(3) by (intro exI [of _ b]) metis
    with u(1) show ?case unfolding st a(1) by (rule_tac x = "(ch \<or> b, u)" in exI) (rule conjI)
  next
    case 2
    have len: "length (data s) = in_len s" using length_data [OF s] .
    have d: "data ?s = data s" by (simp add: data_def)
    have "buffers N c ?s" using s len by (auto simp: buffers_def cfg_def)
    then have "reach N c K False s ?s" using d by (simp add: reach_def)
    then show ?case using len d by (intro case_prodI exI [of _ False]) simp
  qed
  then show ?thesis by (auto simp: minimize_chars_def copied [OF s])
qed

end
