(* ===== verification/AFL_TminProps.thy ===== *)
theory AFL_TminProps
  imports AFL_TminLemmas
begin

text \<open>
  The passes of the minimizer, whose measure is \<open>weight\<close>, and the whole program on a target that
  behaves the same for the same input (\<open>steady\<close>): what the options of the run tell apart
  (\<open>alike\<close>) is what a trial decides (\<open>judge_verdict\<close>).
\<close>

section \<open>The passes\<close>

lemma pass_step_ok:
  fixes c s :: "'w tmin"
  assumes h: "judge h c K" and s: "buffers N c s" and l: "0 < del_len_limit c"
  shows "(\<exists>u. pass_step h (p, s) = Inr (Break u) \<and> reach N c K False s u \<and> swept K (del_len_limit c) (data u)) \<or>
    (\<exists>u. pass_step h (p, s) = Inr (Cont (p + 1, u)) \<and> reach N c K True s u)"
proof -
  from delete_blocks_ok [OF h s l] obtain a1 s1 where s1: "delete_blocks h s = Inr (a1, s1)" "reach N c K a1 s s1"
    "\<not> a1 \<Longrightarrow> swept K (del_len_limit c) (data s)" by blast
  have b1: "buffers N c s1" using s1(2) by (simp add: reach_def)
  from minimize_alphabet_ok [OF h b1, of a1] obtain a2 s2 where
    s2: "minimize_alphabet h (a1, s1) = Inr (a1 \<or> a2, s2)" "reach N c K a2 s1 s2" by blast
  have b2: "buffers N c s2" using s2(2) by (simp add: reach_def)
  from minimize_chars_ok [OF h b2, of "a1 \<or> a2"] obtain a3 s3 where
    s3: "minimize_chars h (a1 \<or> a2, s2) = Inr ((a1 \<or> a2) \<or> a3, s3)" "reach N c K a3 s2 s3" by blast
  have r3: "reach N c K ((a1 \<or> a2) \<or> a3) s s3"
    using reach_trans [OF reach_trans [OF s1(2) s2(2)] s3(2)] .
  have step: "pass_step h (p, s) = (if p + 1 > 1 \<and> \<not> a1 then Inr (Break s1)
      else if (a1 \<or> a2) \<or> a3 then Inr (Cont (p + 1, s3)) else Inr (Break s3))"
    unfolding pass_step_def Let_def prod.case by (simp only: s1(1) s2(1) s3(1) ebind_simps prod.case)
  have same: "data u = data s" if "reach N c K False s u" for u using that by (simp add: reach_def)
  consider (early) "p + 1 > 1 \<and> \<not> a1" | (go) "\<not> (p + 1 > 1 \<and> \<not> a1)" "(a1 \<or> a2) \<or> a3"
    | (stop) "\<not> (p + 1 > 1 \<and> \<not> a1)" "\<not> ((a1 \<or> a2) \<or> a3)" by blast
  then show ?thesis
  proof cases
    case early
    then have a: "a1 = False" by simp
    show ?thesis using step early s1(2,3) same unfolding a by auto
  next
    case go
    have "pass_step h (p, s) = Inr (Cont (p + 1, s3))" unfolding step by (simp only: go if_False if_True)
    moreover have "reach N c K True s s3" using r3 by (simp only: go)
    ultimately show ?thesis by blast
  next
    case stop
    then have a: "a1 = False" "a2 = False" "a3 = False" by simp_all
    show ?thesis using step stop s1(3) r3 same unfolding a by auto
  qed
qed

lemma minimize_ok:
  fixes c s :: "'w tmin"
  assumes h: "judge h c K" and c: "cfg c s" and len: "length (in_data s) = N" "in_len s \<le> N" "length tmp = N"
    and l: "0 < del_len_limit c"
  shows "\<exists>u. minimize h tmp s = Inr u \<and> buffers N c u \<and> (K (data s) \<longrightarrow> K (data u)) \<and>
    length (data u) \<le> length (data s) \<and> swept K (del_len_limit c) (data u)"
proof -
  have s: "buffers N c (s\<lparr>tmp_buf := tmp\<rparr>)" using c len by (simp add: buffers_def cfg_def)
  have d: "data (s\<lparr>tmp_buf := tmp\<rparr>) = data s" by (simp add: data_def)
  from normalize_ok [OF h s] obtain t where t: "normalize h (s\<lparr>tmp_buf := tmp\<rparr>) = Inr t" "buffers N c t"
    "K (data s) \<Longrightarrow> K (data t)" "length (data t) = length (data s)" by (auto simp: d)
  let ?I = "\<lambda>(p :: nat, u). buffers N c u \<and> (K (data t) \<longrightarrow> K (data u)) \<and> length (data u) \<le> length (data t)"
  let ?Q = "\<lambda>u. ?I (0, u) \<and> swept K (del_len_limit c) (data u)"
  have "\<exists>u. run_loop (pass_step h) (0, t) = Inr u \<and> ?Q u"
  proof (rule run_loop_returns [where I = ?I and m = "\<lambda>(p, u). weight (data u)"], goal_cases)
    case (1 st)
    obtain p u where st: "st = (p, u)" by fastforce
    have u: "buffers N c u" using 1 by (simp add: st)
    from pass_step_ok [OF h u l, of p] show ?case
    proof (elim disjE exE conjE)
      fix v assume v: "pass_step h (p, u) = Inr (Break v)" "reach N c K False u v" "swept K (del_len_limit c) (data v)"
      then have "?Q v" using 1 by (simp add: st reach_def)
      with v(1) show ?case unfolding st by blast
    next
      fix v assume v: "pass_step h (p, u) = Inr (Cont (p + 1, v))" "reach N c K True u v"
      then have "?I (p + 1, v)" "weight (data v) < weight (data u)" using 1 by (simp_all add: st reach_def)
      with v(1) show ?case unfolding st by (intro disjI2 exI [of _ "(p + 1, v)"] conjI) simp_all
    qed
  qed (use t in simp)
  then show ?thesis using t by (auto simp: minimize_def)
qed

section \<open>A target that behaves the same for the same input\<close>

text \<open>\<open>E\<close> gives the result and the trace of every test case.\<close>

definition steady :: "'w thost \<Rightarrow> (bytes \<Rightarrow> fsrv_run_result \<times> bytes) \<Rightarrow> bytes option \<Rightarrow> bool" where
  "steady h E msk \<longleftrightarrow> (\<forall>d w. \<exists>w'. t_exec h d w = (fst (E d), snd (E d), False, w')) \<and>
     (\<forall>d. fst (E d) \<noteq> FSRV_RUN_ERROR \<and> fst (E d) \<noteq> FSRV_RUN_NOINST) \<and>
     (\<forall>k. msk = Some k \<longrightarrow> (\<forall>d. length (snd (E d)) \<le> length k))"

definition masked :: "'w tmin \<Rightarrow> bytes \<Rightarrow> bytes" where
  "masked c trace = projr (apply_mask (mask_bitmap c) (tmin_classify_counts (edges_only c) trace))"

text \<open>Two test cases that the options of the run do not tell apart: \<open>d\<close> is the reference.\<close>

definition alike :: "'w thost \<Rightarrow> (bytes \<Rightarrow> fsrv_run_result \<times> bytes) \<Rightarrow> 'w tmin \<Rightarrow> bytes \<Rightarrow> bytes \<Rightarrow> bool" where
  "alike h E s d d' \<longleftrightarrow>
     (if hang_mode s then fst (E d') = FSRV_RUN_TMOUT
      else if fst (E d) = FSRV_RUN_CRASH \<and> \<not> exact_mode s then fst (E d') = FSRV_RUN_CRASH
      else fst (E d') \<noteq> FSRV_RUN_TMOUT \<and> (fst (E d') = FSRV_RUN_CRASH \<longleftrightarrow> fst (E d) = FSRV_RUN_CRASH) \<and>
        t_hash h (masked s (snd (E d'))) = t_hash h (masked s (snd (E d))))"

definition verdict :: "'w thost \<Rightarrow> (bytes \<Rightarrow> fsrv_run_result \<times> bytes) \<Rightarrow> 'w tmin \<Rightarrow> bytes \<Rightarrow> bool" where
  "verdict h E c d \<longleftrightarrow>
     (if hang_mode c then fst (E d) = FSRV_RUN_TMOUT
      else fst (E d) \<noteq> FSRV_RUN_TMOUT \<and> (fst (E d) = FSRV_RUN_CRASH \<longleftrightarrow> crash_mode c) \<and>
        (crash_mode c \<and> \<not> exact_mode c \<or> t_hash h (masked c (snd (E d))) = orig_cksum c))"

lemma apply_mask_ok:
  assumes "\<And>k. msk = Some k \<Longrightarrow> length m \<le> length k"
  shows "\<exists>m'. apply_mask msk m = Inr m' \<and> length m' = length m"
proof (cases msk)
  case (Some k)
  have "\<exists>m'. count_loop (length m div 4) 0 (\<lambda>i m. ebind (load32 m (4 * i)) (\<lambda>v. ebind (load32 k (4 * i)) (\<lambda>w.
      store32 m (4 * i) (v AND NOT w)))) m = Inr m' \<and> length m' = length m"
  proof (rule count_loop_inv [where I = "\<lambda>_ m'. length m' = length m"])
    fix j and m' :: bytes
    assume j: "j < 0 + length m div 4" and m': "length m' = length m"
    then have "4 * j + 4 \<le> length m'" "4 * j + 4 \<le> length k" using assms [OF Some] by simp_all
    then show "\<exists>s'. ebind (load32 m' (4 * j)) (\<lambda>v. ebind (load32 k (4 * j)) (\<lambda>w. store32 m' (4 * j) (v AND NOT w))) = Inr s' \<and>
        length s' = length m" using m' by (simp add: mem_ok)
  qed simp
  then show ?thesis using Some by (simp add: apply_mask_def)
qed (simp add: apply_mask_def)

lemma masked_ok:
  "steady h E (mask_bitmap c) \<Longrightarrow>
   apply_mask (mask_bitmap c) (tmin_classify_counts (edges_only c) (snd (E d))) = Inr (masked c (snd (E d)))"
  using apply_mask_ok [of "mask_bitmap c" "tmin_classify_counts (edges_only c) (snd (E d))"]
  by (auto simp: steady_def masked_def tmin_classify_counts_def)

lemma judge_verdict:
  fixes c :: "'w tmin"
  assumes E: "steady h E (mask_bitmap c)"
  shows "judge h c (verdict h E c)"
  unfolding judge_def
proof (intro allI impI)
  fix s :: "'w tmin" and mem :: bytes and len
  assume c: "cfg c s" and len: "len \<le> length mem"
  let ?d = "take len mem"
  obtain w' where w: "t_exec h ?d (t_world s) = (fst (E ?d), snd (E ?d), False, w')" using E unfolding steady_def by metis
  note m = masked_ok [OF E, of ?d]
  have "fst (E ?d) \<noteq> FSRV_RUN_ERROR" "fst (E ?d) \<noteq> FSRV_RUN_NOINST" using E by (auto simp: steady_def)
  then show "\<exists>s'. tmin_run_target h mem len False s = Inr (verdict h E c ?d, s') \<and> kept s s'"
    using len c unfolding cfg_def by (cases "fst (E ?d)") (simp_all add: tmin_run_target_def w m Let_def verdict_def kept_def cfg_def)
qed

text \<open>The dry run fixes the mode and the checksum.\<close>

lemma dry_run:
  fixes s :: "'w tmin"
  assumes E: "steady h E (mask_bitmap s)" and len: "in_len s \<le> length (in_data s)" and c: "\<not> crash_mode s"
  defines "d \<equiv> data s"
  shows "\<exists>r u. tmin_run_target h (in_data s) (in_len s) True s = Inr (r, u) \<and>
    in_data u = in_data s \<and> in_len u = in_len s \<and> hang_mode u = hang_mode s \<and> exact_mode u = exact_mode s \<and>
    edges_only u = edges_only s \<and> mask_bitmap u = mask_bitmap s \<and> del_len_limit u = del_len_limit s \<and>
    last_run_timed_out u = (fst (E d) = FSRV_RUN_TMOUT) \<and> crash_mode u = (\<not> hang_mode s \<and> fst (E d) = FSRV_RUN_CRASH) \<and>
    (\<not> hang_mode s \<and> fst (E d) \<noteq> FSRV_RUN_TMOUT \<longrightarrow> t_trace u = masked s (snd (E d)) \<and>
       (fst (E d) \<noteq> FSRV_RUN_CRASH \<or> exact_mode s \<longrightarrow> orig_cksum u = t_hash h (masked s (snd (E d)))))"
proof -
  obtain w' where w: "t_exec h (take (in_len s) (in_data s)) (t_world s) = (fst (E d), snd (E d), False, w')"
    using E unfolding steady_def d_def data_def by metis
  have "fst (E d) \<noteq> FSRV_RUN_ERROR" "fst (E d) \<noteq> FSRV_RUN_NOINST" using E by (auto simp: steady_def)
  then show ?thesis using len c masked_ok [OF E, of d]
    by (cases "fst (E d)") (simp_all add: tmin_run_target_def w Let_def ex_bool_eq)
qed

lemma masked_cong: "mask_bitmap u = mask_bitmap s \<Longrightarrow> edges_only u = edges_only s \<Longrightarrow> masked u = masked s"
  by (simp add: masked_def fun_eq_iff)

lemma cfg_refl: "cfg s s" by (simp add: cfg_def)

section \<open>Properties\<close>

text \<open>C6: \<open>minimize\<close> terminates for every deletion limit that the option \<open>-l\<close> accepts and for every
  target that behaves the same for the same input; what the options accept stays accepted, the test case does not
  grow, and every block of some size up to the limit has been tried for deletion in vain.\<close>

theorem minimize_terminates:
  fixes s :: "'w tmin"
  assumes "steady h E (mask_bitmap s)" "in_len s \<le> length (in_data s)" "length tmp = length (in_data s)" "0 < del_len_limit s"
  shows "\<exists>u. minimize h tmp s = Inr u \<and> in_len u \<le> in_len s \<and> in_len u \<le> length (in_data u) \<and>
    (verdict h E s (data s) \<longrightarrow> verdict h E s (data u)) \<and> swept (verdict h E s) (del_len_limit s) (data u)"
proof -
  from minimize_ok [OF judge_verdict [OF assms(1)] cfg_refl refl assms(2,3,4)] obtain u where
    u: "minimize h tmp s = Inr u" "buffers (length (in_data s)) s u" "verdict h E s (data s) \<longrightarrow> verdict h E s (data u)"
      "length (data u) \<le> length (data s)" "swept (verdict h E s) (del_len_limit s) (data u)" by blast
  have "length (data s) = in_len s" using assms(2) by (simp add: data_def)
  then show ?thesis using u length_data [OF u(2)] by (auto simp: buffers_def)
qed

text \<open>An example: the target crashes when the byte \<open>'A'\<close> occurs.\<close>

definition crash_at_A :: "bytes \<Rightarrow> fsrv_run_result \<times> bytes" where
  "crash_at_A d = (if 65 \<in> set d then FSRV_RUN_CRASH else FSRV_RUN_OK, [])"

definition crasher :: "unit thost" where
  "crasher = \<lparr>t_exec = \<lambda>d w. (fst (crash_at_A d), snd (crash_at_A d), False, w), t_hash = \<lambda>_. 0\<rparr>"

definition tmin_start :: "bytes \<Rightarrow> unit tmin" where
  "tmin_start d = \<lparr>t_world = (), t_trace = [], in_data = d, in_len = length d, tmp_buf = [], hang_mode = False,
     crash_mode = False, exact_mode = False, edges_only = False, mask_bitmap = None, del_len_limit = 1, orig_cksum = 0,
     last_run_timed_out = False, missed_hangs = 0, missed_crashes = 0, missed_paths = 0\<rparr>"

lemma crasher_steady: "steady crasher crash_at_A (mask_bitmap (tmin_start d))"
  by (simp add: steady_def crasher_def crash_at_A_def tmin_start_def)

lemma minimize_terminates_witness:
  "\<exists>u. minimize crasher [0, 0] (tmin_start [66, 65]) = Inr u \<and> in_len u \<le> 2"
  using minimize_terminates [OF crasher_steady [of "[66, 65]"], of "[0, 0]"] by (auto simp: tmin_start_def)

text \<open>C5: the whole program, for a target that behaves the same for the same input, with the default deletion limit
  (\<open>del_len_limit\<close> is 1) and in the mode that its options and the dry run select: the output is alike to the input
  (it hangs, it crashes, or it has the same masked trace), is not longer, and deleting any single byte of it makes it
  differ.\<close>

theorem tmin_main_minimal:
  fixes s :: "'w tmin"
  assumes E: "steady h E (mask_bitmap s)" and len: "in_len s = length (in_data s)" "length tmp = length (in_data s)"
    and fresh: "\<not> crash_mode s" "del_len_limit s = 1"
    and run: "hang_mode s \<longleftrightarrow> fst (E (in_data s)) = FSRV_RUN_TMOUT"
      "fst (E (in_data s)) = FSRV_RUN_OK \<or> fst (E (in_data s)) = FSRV_RUN_NOBITS \<Longrightarrow> anything_set (masked s (snd (E (in_data s))))"
  shows "\<exists>out u. tmin_main h tmp s = Inr (out, u) \<and> length out \<le> length (in_data s) \<and> alike h E s (in_data s) out \<and>
    (\<forall>q<length out. \<not> alike h E s (in_data s) (take q out @ drop (Suc q) out))"
proof -
  let ?d = "in_data s"
  have d: "data s = ?d" using len by (simp add: data_def)
  have le: "in_len s \<le> length (in_data s)" using len by simp
  from dry_run [OF E le fresh(1)] obtain r c where c: "tmin_run_target h (in_data s) (in_len s) True s = Inr (r, c)"
    "in_data c = ?d" "in_len c = in_len s" "hang_mode c = hang_mode s" "exact_mode c = exact_mode s"
    "edges_only c = edges_only s" "mask_bitmap c = mask_bitmap s" "del_len_limit c = 1"
    "last_run_timed_out c = (fst (E ?d) = FSRV_RUN_TMOUT)" "crash_mode c = (\<not> hang_mode s \<and> fst (E ?d) = FSRV_RUN_CRASH)"
    "\<not> hang_mode s \<Longrightarrow> fst (E ?d) \<noteq> FSRV_RUN_TMOUT \<Longrightarrow> t_trace c = masked s (snd (E ?d))"
    "\<not> hang_mode s \<Longrightarrow> fst (E ?d) \<noteq> FSRV_RUN_TMOUT \<Longrightarrow> fst (E ?d) \<noteq> FSRV_RUN_CRASH \<or> exact_mode s \<Longrightarrow>
       orig_cksum c = t_hash h (masked s (snd (E ?d)))"
    by (auto simp: d fresh(2))
  have m: "masked c = masked s" using c by (intro masked_cong)
  have v: "verdict h E c x = alike h E s ?d x" for x
    using c(4,5,10,12) run(1) by (auto simp: verdict_def alike_def m)
  have Ec: "steady h E (mask_bitmap c)" using E c(7) by simp
  have a: "alike h E s ?d ?d" using run(1) by (auto simp: alike_def)
  have dc: "data c = ?d" using c(2,3) len by (simp add: data_def)
  from minimize_ok [OF judge_verdict [OF Ec] cfg_refl refl] obtain u where u: "minimize h tmp c = Inr u"
    "buffers (length (in_data c)) c u" "verdict h E c (data u)" "length (data u) \<le> length ?d" "swept (verdict h E c) 1 (data u)"
    using c(2,3,8) len a by (auto simp: v dc)
  have set: "fst (E ?d) \<noteq> FSRV_RUN_TMOUT \<Longrightarrow> fst (E ?d) \<noteq> FSRV_RUN_CRASH \<Longrightarrow> anything_set (t_trace c)"
    using c(11) run E by (cases "fst (E ?d)") (auto simp: steady_def)
  have "tmin_main h tmp s = ebind (minimize h tmp c) (\<lambda>s. if in_len s \<le> length (in_data s) then Inr (take (in_len s) (in_data s), s) else Inl Fault)"
    using c(1,4,9,10) run(1) set by (cases "fst (E ?d)") (simp_all add: tmin_main_def)
  then have "tmin_main h tmp s = Inr (data u, u)" using u(1,2) by (simp add: buffers_def data_def)
  then show ?thesis using u(3,4) swept_one [OF u(5)] by (auto simp: v)
qed

lemma tmin_main_minimal_witness:
  "\<exists>out u. tmin_main crasher [0, 0] (tmin_start [66, 65]) = Inr (out, u) \<and> length out \<le> 2 \<and> 65 \<in> set out \<and>
     (\<forall>q<length out. 65 \<notin> set (take q out @ drop (Suc q) out))"
proof -
  let ?s = "tmin_start [66, 65]"
  have in_data: "in_data ?s = [66, 65]" by (simp add: tmin_start_def)
  have "\<exists>out u. tmin_main crasher [0, 0] ?s = Inr (out, u) \<and> length out \<le> length (in_data ?s) \<and>
      alike crasher crash_at_A ?s (in_data ?s) out \<and>
      (\<forall>q<length out. \<not> alike crasher crash_at_A ?s (in_data ?s) (take q out @ drop (Suc q) out))"
    by (rule tmin_main_minimal [OF crasher_steady]) (simp_all add: tmin_start_def crash_at_A_def)
  moreover have "alike crasher crash_at_A ?s (in_data ?s) d \<longleftrightarrow> 65 \<in> set d" for d
    by (simp add: alike_def tmin_start_def crash_at_A_def)
  ultimately show ?thesis unfolding in_data by (simp add: numeral_2_eq_2)
qed

end
