(* ===== verification/AFL_Text.thy ===== *)
theory AFL_Text
  imports AFL_Bytes
begin

text \<open>
  The recognition of text in \<^verbatim>\<open>src/afl-fuzz-queue.c\<close>: \<open>check_if_text_buf\<close> counts the printable ASCII
  and the UTF-8 characters of a buffer, \<open>check_if_text\<close> decides on a file of the queue. The two
  functions repeat the same loop, \<open>text_loop\<close>; its third result is what \<open>check_if_text\<close> takes off
  \<open>comp\<close>. UTF-8 itself is \<open>utf8_encode\<close>, written from the standard.
\<close>

section \<open>The counting loop\<close>

definition text_char :: "u8 \<Rightarrow> bool" where
  "text_char b \<longleftrightarrow> b = 0x09 \<or> b = 0x0A \<or> b = 0x0D \<or> 0x20 \<le> b \<and> b \<le> 0x7E"

text \<open>\<open>isascii\<close> and \<open>isprint\<close> in the C locale.\<close>

definition ascii_or_print :: "u8 \<Rightarrow> bool" where
  "ascii_or_print b \<longleftrightarrow> b \<le> 0x7F \<or> 0x20 \<le> b \<and> b \<le> 0x7E"

definition tail_byte :: "u8 \<Rightarrow> bool" where
  "tail_byte b \<longleftrightarrow> 0x80 \<le> b \<and> b \<le> 0xBF"

definition two_bytes :: "u8 \<Rightarrow> u8 \<Rightarrow> bool" where
  "two_bytes a b \<longleftrightarrow> 0xC2 \<le> a \<and> a \<le> 0xDF \<and> tail_byte b"

definition three_bytes :: "u8 \<Rightarrow> u8 \<Rightarrow> u8 \<Rightarrow> bool" where
  "three_bytes a b c \<longleftrightarrow>
     a = 0xE0 \<and> (0xA0 \<le> b \<and> b \<le> 0xBF) \<and> tail_byte c \<or>
     (0xE1 \<le> a \<and> a \<le> 0xEC \<or> a = 0xEE \<or> a = 0xEF) \<and> tail_byte b \<and> tail_byte c \<or>
     a = 0xED \<and> (0x80 \<le> b \<and> b \<le> 0x9F) \<and> tail_byte c"

definition four_bytes :: "u8 \<Rightarrow> u8 \<Rightarrow> u8 \<Rightarrow> u8 \<Rightarrow> bool" where
  "four_bytes a b c d \<longleftrightarrow>
     a = 0xF0 \<and> (0x90 \<le> b \<and> b \<le> 0xBF) \<and> tail_byte c \<and> tail_byte d \<or>
     (0xF1 \<le> a \<and> a \<le> 0xF3) \<and> tail_byte b \<and> tail_byte c \<and> tail_byte d \<or>
     a = 0xF4 \<and> (0x80 \<le> b \<and> b \<le> 0x8F) \<and> tail_byte c \<and> tail_byte d"

function text_loop :: "bytes \<Rightarrow> nat \<Rightarrow> nat \<Rightarrow> nat \<times> nat \<times> nat \<Rightarrow> nat \<times> nat \<times> nat" where
  "text_loop buf len offset r =
     (if \<not> offset < len then r else
      case r of (utf8, ascii, multi) \<Rightarrow>
      let a = buf ! offset; b = buf ! (offset + 1); c = buf ! (offset + 2); d = buf ! (offset + 3) in
      if text_char a then text_loop buf len (offset + 1) (utf8 + 1, ascii + 1, multi)
      else
        let ascii = (if ascii_or_print a then ascii + 1 else ascii) in
        if len - offset > 1 \<and> two_bytes a b then text_loop buf len (offset + 2) (utf8 + 1, ascii, multi + 1)
        else if len - offset > 2 \<and> three_bytes a b c then text_loop buf len (offset + 3) (utf8 + 1, ascii, multi + 2)
        else if len - offset > 3 \<and> four_bytes a b c d then text_loop buf len (offset + 4) (utf8 + 1, ascii, multi + 3)
        else text_loop buf len (offset + 1) (utf8, ascii, multi))"
  by pat_completeness auto

termination
  by (relation "measure (\<lambda>(buf, len, offset, r). len - offset)") auto

declare text_loop.simps [simp del]

section \<open>The two checks\<close>

text \<open>The guards keep every access below \<open>len\<close>, so the buffer must have that many bytes.\<close>

definition check_if_text_buf :: "bytes \<Rightarrow> nat \<Rightarrow> nat res" where
  "check_if_text_buf buf len =
     (if length buf < len then Inl Fault else
      case text_loop buf len 0 (0, 0, 0) of (utf8, ascii, _) \<Rightarrow> Inr (if utf8 > ascii then utf8 else ascii))"

definition AFL_TXT_MIN_LEN :: nat where "AFL_TXT_MIN_LEN = 12"
definition AFL_TXT_MAX_LEN :: nat where "AFL_TXT_MAX_LEN = 65535"
definition AFL_TXT_MIN_PERCENT :: nat where "AFL_TXT_MIN_PERCENT = 99"

text \<open>
  \<open>file\<close> is what can be read from the file, \<open>None\<close> when it cannot be opened or the scratch buffer
  not be allocated. \<open>comp\<close> is a 64-bit count, the products are \<open>u32\<close>.
\<close>

definition check_if_text :: "nat \<Rightarrow> bytes option \<Rightarrow> nat res" where
  "check_if_text q_len file =
     (if q_len < AFL_TXT_MIN_LEN \<or> q_len < AFL_TXT_MAX_LEN then Inr 0 else
      let len = (if q_len \<ge> MAX_FILE then MAX_FILE - 1 else q_len) in
      case file of
        None \<Rightarrow> Inr 0
      | Some f \<Rightarrow>
          if length f < len then Inr 0 else
          case text_loop f len 0 (0, 0, 0) of (utf8, ascii, multi) \<Rightarrow>
          let percent_utf8 = (utf8 * 100) mod 2 ^ 32 div (len - multi);
              percent_ascii = (ascii * 100) mod 2 ^ 32 div len in
          if percent_utf8 \<ge> percent_ascii \<and> percent_utf8 \<ge> AFL_TXT_MIN_PERCENT then Inr 2
          else if percent_ascii \<ge> AFL_TXT_MIN_PERCENT then Inr 1
          else Inr 0)"

section \<open>UTF-8\<close>

text \<open>The encoding of a code point, and the code points that have one.\<close>

definition utf8_encode :: "nat \<Rightarrow> bytes" where
  "utf8_encode c = map word_of_nat
     (if c < 0x80 then [c]
      else if c < 0x800 then [0xC0 + c div 64, 0x80 + c mod 64]
      else if c < 0x10000 then [0xE0 + c div 4096, 0x80 + c div 64 mod 64, 0x80 + c mod 64]
      else [0xF0 + c div 262144, 0x80 + c div 4096 mod 64, 0x80 + c div 64 mod 64, 0x80 + c mod 64])"

definition scalar_value :: "nat \<Rightarrow> bool" where
  "scalar_value c \<longleftrightarrow> c < 0x110000 \<and> \<not> (0xD800 \<le> c \<and> c < 0xE000)"

definition printable :: "nat \<Rightarrow> bool" where
  "printable c \<longleftrightarrow> scalar_value c \<and> (c < 0x80 \<longrightarrow> c = 9 \<or> c = 10 \<or> c = 13 \<or> 32 \<le> c \<and> c < 127)"

end
