(* ===== verification/AFL_TextProps.thy ===== *)
theory AFL_TextProps
  imports AFL_Text
begin

text \<open>
  On valid UTF-8 the loop counts characters: the lemmas of the first section sort the encoding of a
  code point into the cases of the loop, \<open>text_loop_encoded\<close> walks over a whole text.
\<close>

section \<open>One character\<close>

lemmas byte_unat_iff = word_le_nat_alt word_unat_eq_iff

lemma text_char_unat: "text_char b \<longleftrightarrow> unat b = 9 \<or> unat b = 10 \<or> unat b = 13 \<or> 32 \<le> unat b \<and> unat b \<le> 126"
  by (simp add: text_char_def byte_unat_iff)

lemma ascii_unat: "ascii_or_print b \<longleftrightarrow> unat b \<le> 127"
  by (auto simp: ascii_or_print_def byte_unat_iff)

lemma tail_unat: "tail_byte b \<longleftrightarrow> 128 \<le> unat b \<and> unat b \<le> 191"
  by (simp add: tail_byte_def byte_unat_iff)

lemma two_unat: "two_bytes a b \<longleftrightarrow> 194 \<le> unat a \<and> unat a \<le> 223 \<and> 128 \<le> unat b \<and> unat b \<le> 191"
  by (simp add: two_bytes_def tail_unat byte_unat_iff)

lemma three_unat: "three_bytes a b c \<longleftrightarrow> 128 \<le> unat b \<and> unat b \<le> 191 \<and> 128 \<le> unat c \<and> unat c \<le> 191 \<and>
    224 \<le> unat a \<and> unat a \<le> 239 \<and> (unat a = 224 \<longrightarrow> 160 \<le> unat b) \<and> (unat a = 237 \<longrightarrow> unat b \<le> 159)"
  unfolding three_bytes_def tail_unat byte_unat_iff by simp linarith

lemma four_unat: "four_bytes a b c d \<longleftrightarrow> 128 \<le> unat b \<and> unat b \<le> 191 \<and> 128 \<le> unat c \<and> unat c \<le> 191 \<and>
    128 \<le> unat d \<and> unat d \<le> 191 \<and>
    240 \<le> unat a \<and> unat a \<le> 244 \<and> (unat a = 240 \<longrightarrow> 144 \<le> unat b) \<and> (unat a = 244 \<longrightarrow> unat b \<le> 143)"
  unfolding four_bytes_def tail_unat byte_unat_iff by simp linarith

lemma byte_unat: "n < 256 \<Longrightarrow> unat (word_of_nat n :: u8) = n"
  by (simp add: unat_of_nat take_bit_eq_mod)

lemma digit64: "c div (64 * k) = c div 64 div k" "c div 64 = 64 * (c div 4096) + c div 64 mod 64"
  "c div 4096 = 64 * (c div 262144) + c div 4096 mod 64" for c :: nat
  using div_mult2_eq [of c 64 64] div_mult2_eq [of c 4096 64] by (simp_all add: div_mult2_eq)

lemma digit64_bounds: "64 * (c div 64) \<le> c" "c < 64 * (c div 64) + 64" for c :: nat
  by (simp_all add: dividend_less_times_div)

text \<open>The bytes of a code point as numbers.\<close>

lemma encode_two:
  assumes "0x80 \<le> c" "c < 0x800"
  shows "\<exists>a b. utf8_encode c = [a, b] \<and> two_bytes a b"
proof -
  have "2 \<le> c div 64" "c div 64 < 32" using assms digit64_bounds [of c] by linarith+
  then have "unat (word_of_nat (0xC0 + c div 64) :: u8) = 0xC0 + c div 64" by (intro byte_unat) simp
  moreover have "unat (word_of_nat (0x80 + c mod 64) :: u8) = 0x80 + c mod 64"
    using mod_less_divisor [of 64 c] by (intro byte_unat) simp
  moreover have "c mod 64 < 64" by simp
  ultimately show ?thesis using assms \<open>2 \<le> c div 64\<close> \<open>c div 64 < 32\<close>
    by (simp add: utf8_encode_def two_unat del: of_nat_add)
qed

lemma tail_mod_unat: "unat (word_of_nat (0x80 + n mod 64) :: u8) = 0x80 + n mod 64"
  using mod_less_divisor [of 64 n] by (intro byte_unat) simp

lemma encode_three:
  assumes "0x800 \<le> c" "c < 0x10000" "scalar_value c"
  shows "\<exists>a b d. utf8_encode c = [a, b, d] \<and> three_bytes a b d"
proof -
  define h m where "h = c div 4096" and "m = c div 64 mod 64"
  have dec: "c div 64 = 64 * h + m" unfolding h_def m_def by (rule digit64(2))
  have h: "h < 16" "m < 64" "c mod 64 < 64" using assms(2) by (auto simp: h_def m_def)
  have lo: "32 \<le> m" if "h = 0" using that assms(1) dec digit64_bounds [of c] by linarith
  have "\<not> (0xD800 \<le> c \<and> c < 0xE000)" using assms(3) by (simp add: scalar_value_def)
  then have sur: "m < 32" if "h = 13" using that dec h(2) digit64_bounds [of c] by linarith
  have "unat (word_of_nat (0xE0 + h) :: u8) = 0xE0 + h" using h by (intro byte_unat) simp
  moreover have "unat (word_of_nat (0x80 + m) :: u8) = 0x80 + m" using h by (intro byte_unat) simp
  ultimately have "three_bytes (word_of_nat (0xE0 + h)) (word_of_nat (0x80 + m)) (word_of_nat (0x80 + c mod 64))"
    using h lo sur tail_mod_unat [of c] unfolding three_unat by linarith
  then show ?thesis using assms(1,2) by (simp add: utf8_encode_def h_def m_def del: of_nat_add)
qed

lemma encode_four:
  assumes "0x10000 \<le> c" "c < 0x110000"
  shows "\<exists>a b d e. utf8_encode c = [a, b, d, e] \<and> four_bytes a b d e"
proof -
  define h m where "h = c div 262144" and "m = c div 4096 mod 64"
  have dec: "c div 4096 = 64 * h + m" unfolding h_def m_def by (rule digit64(3))
  have bounds: "4096 * (c div 4096) \<le> c" "c < 4096 * (c div 4096) + 4096" by (simp_all add: dividend_less_times_div)
  have h: "h < 5" "m < 64" "c mod 64 < 64" "c div 64 mod 64 < 64" using assms(2) by (auto simp: h_def m_def)
  have lo: "16 \<le> m" if "h = 0" using that assms(1) dec bounds by linarith
  have hi: "m < 16" if "h = 4" using that assms(2) dec bounds by linarith
  have "unat (word_of_nat (0xF0 + h) :: u8) = 0xF0 + h" using h by (intro byte_unat) simp
  moreover have "unat (word_of_nat (0x80 + m) :: u8) = 0x80 + m" using h by (intro byte_unat) simp
  ultimately have "four_bytes (word_of_nat (0xF0 + h)) (word_of_nat (0x80 + m)) (word_of_nat (0x80 + c div 64 mod 64)) (word_of_nat (0x80 + c mod 64))"
    using h lo hi tail_mod_unat [of c] tail_mod_unat [of "c div 64"] unfolding four_unat by linarith
  then show ?thesis using assms by (simp add: utf8_encode_def h_def m_def del: of_nat_add)
qed

lemma encode_ascii:
  assumes "printable c" "c < 0x80"
  shows "\<exists>a. utf8_encode c = [a] \<and> text_char a"
  using assms byte_unat [of c] by (auto simp: utf8_encode_def printable_def text_char_unat)

section \<open>A whole text\<close>

lemma drop_Cons_nth: "drop i xs = y # ys \<Longrightarrow> i < length xs \<and> xs ! i = y \<and> drop (Suc i) xs = ys"
  by (metis Cons_nth_drop_Suc drop_all list.discI list.inject not_le)

lemma plus_Suc: "i + 3 = Suc (Suc (Suc i))" "i + 4 = Suc (Suc (Suc (Suc i)))"
  by simp_all

text \<open>The loop reads one character and moves behind it.\<close>

lemma text_loop_char:
  assumes c: "printable c" and buf: "drop i (take len buf) = utf8_encode c @ xs"
  shows "text_loop buf len i (u, a, m) =
    text_loop buf len (i + length (utf8_encode c)) (u + 1, a + of_bool (c < 128), m + length (utf8_encode c) - 1) \<and>
    drop (i + length (utf8_encode c)) (take len buf) = xs \<and> 0 < length (utf8_encode c)"
proof -
  have at: "i + k < len" "buf ! (i + k) = utf8_encode c ! k" if "k < length (utf8_encode c)" for k
  proof -
    have "drop i (take len buf) ! k = utf8_encode c ! k" "k < length (drop i (take len buf))"
      using that buf by (simp_all add: nth_append)
    moreover from this have "i \<le> length (take len buf)" by (simp add: min_def split: if_splits)
    ultimately show "i + k < len" "buf ! (i + k) = utf8_encode c ! k" by (auto simp: nth_drop)
  qed
  have rest: "drop (i + length (utf8_encode c)) (take len buf) = xs"
    using buf by (metis add.commute append_eq_conv_conj drop_drop)
  consider "c < 0x80" | "0x80 \<le> c" "c < 0x800" | "0x800 \<le> c" "c < 0x10000" | "0x10000 \<le> c" by linarith
  then show ?thesis
  proof cases
    case 1
    from encode_ascii [OF c this] obtain x where x: "utf8_encode c = [x]" "text_char x" by blast
    show ?thesis using at [of 0] x rest 1 by (subst text_loop.simps) (simp add: Let_def less_diff_conv plus_Suc)
  next
    case 2
    from encode_two [OF this] obtain x y where x: "utf8_encode c = [x, y]" "two_bytes x y" by blast
    then have "\<not> text_char x" "\<not> ascii_or_print x" by (simp_all add: two_unat text_char_unat ascii_unat)
    then show ?thesis using at [of 0] at [of 1] x rest 2 by (subst text_loop.simps) (simp add: Let_def less_diff_conv plus_Suc)
  next
    case 3
    from encode_three [OF this] c obtain x y z where x: "utf8_encode c = [x, y, z]" "three_bytes x y z" by (auto simp: printable_def)
    then have "\<not> text_char x" "\<not> ascii_or_print x" "\<not> two_bytes x y" by (simp_all add: three_unat two_unat text_char_unat ascii_unat)
    then show ?thesis using at [of 0] at [of 1] at [of 2] x rest 3 by (subst text_loop.simps) (simp add: Let_def less_diff_conv plus_Suc)
  next
    case 4
    have "c < 0x110000" using c by (simp add: printable_def scalar_value_def)
    from encode_four [OF 4 this] obtain x y z w where x: "utf8_encode c = [x, y, z, w]" "four_bytes x y z w" by blast
    then have "\<not> text_char x" "\<not> ascii_or_print x" "\<not> two_bytes x y" "\<not> three_bytes x y z"
      by (simp_all add: four_unat three_unat two_unat text_char_unat ascii_unat)
    then show ?thesis using at [of 0] at [of 1] at [of 2] at [of 3] x rest 4 by (subst text_loop.simps) (simp add: Let_def less_diff_conv plus_Suc)
  qed
qed

lemma chars_le_bytes: "length cs \<le> length (concat (map utf8_encode cs))"
proof (induction cs)
  case (Cons c cs)
  have "1 \<le> length (utf8_encode c)" by (simp add: utf8_encode_def)
  with Cons show ?case by simp
qed simp

lemma text_loop_encoded:
  assumes "\<forall>c\<in>set cs. printable c" "drop i (take len buf) = concat (map utf8_encode cs)" "len \<le> length buf"
  shows "text_loop buf len i (u, a, m) =
    (u + length cs, a + length (filter (\<lambda>c. c < 128) cs), m + length (concat (map utf8_encode cs)) - length cs)"
  using assms
proof (induction cs arbitrary: i u a m)
  case Nil
  then show ?case by (subst text_loop.simps) simp
next
  case (Cons c cs)
  from text_loop_char [of c i len buf "concat (map utf8_encode cs)" u a m] Cons.prems
  have step: "text_loop buf len i (u, a, m) =
      text_loop buf len (i + length (utf8_encode c)) (u + 1, a + of_bool (c < 128), m + length (utf8_encode c) - 1)"
    "drop (i + length (utf8_encode c)) (take len buf) = concat (map utf8_encode cs)" "0 < length (utf8_encode c)" by auto
  show ?case using Cons.IH [OF _ step(2)] Cons.prems(1,3) step(1,3) chars_le_bytes [of cs] by simp
qed

section \<open>Properties\<close>



lemma long_text:
  assumes "\<forall>c\<in>set cs. printable c" "f = concat (map utf8_encode cs)" "length f < MAX_FILE"
  shows "check_if_text (length f) (Some f) = Inr (if length f < AFL_TXT_MAX_LEN then 0 else 2)"
proof (cases "length f < AFL_TXT_MAX_LEN")
  case False
  let ?a = "length (filter (\<lambda>c. c < 128) cs)"
  have run: "text_loop f (length f) 0 (0, 0, 0) = (length cs, ?a, length f - length cs)"
    using text_loop_encoded [of cs 0 "length f" f 0 0 0] assms(1,2) by simp
  have le: "length cs \<le> length f" using chars_le_bytes assms(2) by simp
  have a: "?a \<le> length cs" by simp
  have "cs \<noteq> []" using False assms(2) by (auto simp: AFL_TXT_MAX_LEN_def)
  then have comp: "length f - (length f - length cs) = length cs" "0 < length cs" using le by auto
  have "?a * 100 \<le> 100 * length f" using le_trans [OF a le] by simp
  then have "?a * 100 div length f \<le> 100 * length f div length f" by (rule div_le_mono)
  then have "?a * 100 div length f \<le> 100" by (simp split: if_splits)
  moreover have "\<not> length f < AFL_TXT_MIN_LEN" using False by (simp add: AFL_TXT_MAX_LEN_def AFL_TXT_MIN_LEN_def)
  moreover have "length cs * 100 mod 2 ^ 32 = length cs * 100" "?a * 100 mod 2 ^ 32 = ?a * 100"
    using assms(3) le le_trans [OF a le] by (simp_all add: MAX_FILE_def del: length_filter_le)
  moreover have "length cs * 100 div length cs = 100" using comp(2) by simp
  ultimately show ?thesis using False assms(3) comp
    by (simp add: check_if_text_def run AFL_TXT_MIN_PERCENT_def del: length_filter_le)
qed (simp add: check_if_text_def)

text \<open>C24: the check of the length is inverted: no file below \<open>AFL_TXT_MAX_LEN\<close> is ever taken for text, whatever it holds,
  and every file from there up to \<open>MAX_FILE\<close> that is valid UTF-8 without control characters is.\<close>

theorem only_long_files_are_text:
  "(len < AFL_TXT_MAX_LEN \<longrightarrow> check_if_text len content = Inr 0) \<and>
   ((\<forall>c\<in>set cs. printable c) \<and> f = concat (map utf8_encode cs) \<and> AFL_TXT_MAX_LEN \<le> length f \<and> length f < MAX_FILE \<longrightarrow>
      check_if_text (length f) (Some f) = Inr 2)"
proof (intro conjI impI)
  show "check_if_text len content = Inr 0" if "len < AFL_TXT_MAX_LEN" using that by (simp add: check_if_text_def)
  show "check_if_text (length f) (Some f) = Inr 2"
    if "(\<forall>c\<in>set cs. printable c) \<and> f = concat (map utf8_encode cs) \<and> AFL_TXT_MAX_LEN \<le> length f \<and> length f < MAX_FILE"
    using long_text [of cs f] that by (elim conjE) simp
qed

lemma letters: "concat (map utf8_encode (replicate n 65)) = replicate n 65"
  by (induction n) (simp_all add: utf8_encode_def)

theorem only_long_files_are_text_witness:
  "check_if_text 65535 (Some (replicate 65535 65)) = Inr 2 \<and> check_if_text 1000 (Some (replicate 1000 65)) = Inr 0"
proof -
  have p: "\<forall>c\<in>set (replicate n 65). printable c" for n by (simp add: printable_def scalar_value_def)
  have "check_if_text 1000 (Some (replicate 1000 65)) = Inr 0"
    using only_long_files_are_text [of 1000 "Some (replicate 1000 65)" "[]" "[]"] by (simp add: AFL_TXT_MAX_LEN_def)
  moreover have "check_if_text (length (replicate 65535 (65 :: u8))) (Some (replicate 65535 65)) = Inr 2"
    using only_long_files_are_text [of 0 None "replicate 65535 65" "replicate 65535 65"] p [of 65535]
    by (simp only: letters length_replicate) (simp add: AFL_TXT_MAX_LEN_def MAX_FILE_def)
  ultimately show ?thesis by (simp only: length_replicate)
qed

end
