(* ===== verification/AFL_Queue.thy ===== *)
theory AFL_Queue
  imports AFL_Text AFL_Coverage AFL_Alloc
begin

text \<open>
  The queue of test cases in \<^verbatim>\<open>src/afl-fuzz-queue.c\<close>: adding an entry, the competition of the entries
  for the edges of the bitmap (\<open>update_bitmap_score\<close>) and the choice of the favored ones
  (\<open>cull_queue\<close>). A pointer to an entry is its index in \<open>queue_buf\<close>. The files of the entries are
  the field \<open>q_file\<close>; the marker files of the output directory are left out. \<open>weight\<close> is a \<open>double\<close>
  of which the code here only asks whether it is below 1.
\<close>

section \<open>State\<close>

record queue_entry =
  q_file :: bytes
  q_len :: nat
  q_id :: nat
  q_was_fuzzed :: bool
  q_passed_det :: bool
  q_var_behavior :: bool
  q_favored :: bool
  q_fs_redundant :: bool
  q_is_ascii :: bool
  q_disabled :: bool
  q_fuzz_level :: nat
  q_n_fuzz_entry :: nat
  q_exec_us :: u64
  q_exec_cksum :: u64
  q_depth :: nat
  q_tc_ref :: nat
  q_light :: bool
  q_mother :: "nat option"
  q_trace_mini :: "bytes option"
  q_testcase_buf :: "bytes option"
  q_trim_done :: bool
  q_cal_failed :: nat
  q_has_new_cov :: bool
  q_bitmap_size :: nat
  q_handicap :: nat

datatype schedule = EXPLORE | MMOPT | EXPLOIT | FAST | COE | LIN | QUAD | RARE | SEEK

text \<open>The schedules are compared by their position in the enumeration.\<close>

fun schedule_num :: "schedule \<Rightarrow> nat" where
  "schedule_num EXPLORE = 0" | "schedule_num MMOPT = 1" | "schedule_num EXPLOIT = 2" | "schedule_num FAST = 3"
| "schedule_num COE = 4" | "schedule_num LIN = 5" | "schedule_num QUAD = 6" | "schedule_num RARE = 7" | "schedule_num SEEK = 8"

lemma schedule_num_inject: "schedule_num a = schedule_num b \<longleftrightarrow> a = b"
  by (cases a; cases b) simp_all

instantiation schedule :: linorder
begin

definition less_eq_schedule :: "schedule \<Rightarrow> schedule \<Rightarrow> bool" where
  "less_eq_schedule a b \<longleftrightarrow> schedule_num a \<le> schedule_num b"

definition less_schedule :: "schedule \<Rightarrow> schedule \<Rightarrow> bool" where
  "less_schedule a b \<longleftrightarrow> schedule_num a < schedule_num b"

instance
  by standard (auto simp: less_eq_schedule_def less_schedule_def schedule_num_inject)

end

record afl =
  queue_buf :: "queue_entry list"
  queue_cur :: "nat option"
  queue_top :: "nat option"
  queue_first :: "nat option"
  cur_depth :: nat
  max_depth :: nat
  queued_items :: nat
  active_items :: nat
  pending_not_fuzzed :: nat
  ready_for_splicing_count :: nat
  cycles_wo_finds :: nat
  start_time :: u64
  last_find_time :: u64
  longest_find_time :: u64
  cmplog_mode :: bool
  schedule :: schedule
  fixed_seed :: bool
  non_instrumented_mode :: bool
  disable_redundant :: bool
  trace_bits :: bytes
  n_fuzz :: "nat list"
  top_rated :: "nat option list"
  score_changed :: bool
  reinit_table :: bool
  queued_favored :: nat
  pending_favored :: nat
  smallest_favored :: int
  testcase_scratch :: bytes
  splice_scratch :: bytes
  cache_slots :: "nat option list"
  cache_max_size :: u64
  cache_max_entries :: nat
  cache_size :: u64
  cache_max_count :: nat
  cache_count :: nat
  cache_smallest_free :: nat
  cache_evictions :: nat
  cache_do_once :: bool

definition entry :: "afl \<Rightarrow> nat \<Rightarrow> queue_entry res" where
  "entry s j = (if j < length (queue_buf s) then Inr (queue_buf s ! j) else Inl Fault)"

definition set_entry :: "nat \<Rightarrow> queue_entry \<Rightarrow> afl \<Rightarrow> afl" where
  "set_entry j e s = s\<lparr>queue_buf := (queue_buf s)[j := e]\<rparr>"

section \<open>Marks\<close>

definition mark_as_det_done :: "nat \<Rightarrow> afl \<Rightarrow> afl res" where
  "mark_as_det_done q s = ebind (entry s q) (\<lambda>e. Inr (set_entry q (e\<lparr>q_passed_det := True\<rparr>) s))"

definition mark_as_variable :: "nat \<Rightarrow> afl \<Rightarrow> afl res" where
  "mark_as_variable q s = ebind (entry s q) (\<lambda>e. Inr (set_entry q (e\<lparr>q_var_behavior := True\<rparr>) s))"

definition mark_as_redundant :: "bool \<Rightarrow> bool \<Rightarrow> queue_entry \<Rightarrow> queue_entry" where
  "mark_as_redundant no_redundant state e =
     (if state = q_fs_redundant e then e
      else
        let e = e\<lparr>q_fs_redundant := state\<rparr> in
        if state \<and> no_redundant then e\<lparr>q_disabled := True\<rparr> else e)"

section \<open>Adding an entry\<close>

text \<open>
  \<open>cur_time\<close> is the clock, \<open>ok\<close> the success of the reallocation; without custom mutators.
  \<open>file\<close> is what \<open>check_if_text\<close> can read.
\<close>

definition note_find_time :: "u64 \<Rightarrow> afl \<Rightarrow> afl" where
  "note_find_time cur_time s =
     (let s = (if start_time s \<noteq> 0 \<and> longest_find_time s < cur_time - last_find_time s
               then s\<lparr>longest_find_time := (if last_find_time s = 0 then cur_time - start_time s else cur_time - last_find_time s)\<rparr>
               else s)
      in s\<lparr>last_find_time := cur_time\<rparr>)"

definition new_entry :: "bytes \<Rightarrow> nat \<Rightarrow> bool \<Rightarrow> afl \<Rightarrow> queue_entry" where
  "new_entry file len det s =
     \<lparr>q_file = file, q_len = len, q_id = 0, q_was_fuzzed = False, q_passed_det = det, q_var_behavior = False,
      q_favored = False, q_fs_redundant = False, q_is_ascii = False, q_disabled = False, q_fuzz_level = 0,
      q_n_fuzz_entry = 0, q_exec_us = 0, q_exec_cksum = 0, q_depth = cur_depth s + 1, q_tc_ref = 0, q_light = False,
      q_mother = queue_cur s, q_trace_mini = None, q_testcase_buf = None, q_trim_done = False,
      q_cal_failed = 0, q_has_new_cov = False, q_bitmap_size = 0, q_handicap = 0\<rparr>"

definition add_to_queue :: "bool \<Rightarrow> u64 \<Rightarrow> bytes \<Rightarrow> nat \<Rightarrow> bool \<Rightarrow> afl \<Rightarrow> afl res" where
  "add_to_queue ok cur_time file len det s =
     (let q = new_entry file len det s; n = length (queue_buf s);
          s = (if q_depth q > max_depth s then s\<lparr>max_depth := q_depth q\<rparr> else s);
          s = (if queue_top s \<noteq> None then s\<lparr>queue_top := Some n\<rparr> else s\<lparr>queue_first := Some n, queue_top := Some n\<rparr>);
          s = (if q_len q > 4 then s\<lparr>ready_for_splicing_count := u32_add (ready_for_splicing_count s) 1\<rparr> else s);
          s = s\<lparr>queued_items := u32_add (queued_items s) 1, active_items := u32_add (active_items s) 1,
                pending_not_fuzzed := u32_add (pending_not_fuzzed s) 1, cycles_wo_finds := 0\<rparr> in
      if \<not> ok then Inl Fatal else
      let q = q\<lparr>q_id := u32_sub (queued_items s) 1\<rparr>; s = note_find_time cur_time s in
      ebind (if cmplog_mode s \<and> \<not> q_is_ascii q then check_if_text len (Some file) else Inr 0) (\<lambda>r.
        Inr (s\<lparr>queue_buf := queue_buf s @ [q\<lparr>q_is_ascii := (r \<noteq> 0)\<rparr>]\<rparr>)))"

section \<open>The score of an entry\<close>

definition fuzz_p2 :: "afl \<Rightarrow> queue_entry \<Rightarrow> u64 res" where
  "fuzz_p2 s e =
     (if FAST \<le> schedule s \<and> schedule s < RARE then Inr 0
      else if schedule s = RARE then
        (if q_n_fuzz_entry e < length (n_fuzz s) then Inr (next_pow2 (word_of_nat (n_fuzz s ! q_n_fuzz_entry e))) else Inl Fault)
      else Inr (word_of_nat (q_fuzz_level e)))"

definition fav_factor :: "afl \<Rightarrow> queue_entry \<Rightarrow> u64" where
  "fav_factor s e =
     (if RARE \<le> schedule s \<or> fixed_seed s then word_of_nat (q_len e * 4 mod 2 ^ 32)
      else q_exec_us e * word_of_nat (q_len e))"

text \<open>The reference count of the previous winner of an edge, and the new winner.\<close>

definition drop_ref :: "nat \<Rightarrow> afl \<Rightarrow> afl res" where
  "drop_ref j s = ebind (entry s j) (\<lambda>e.
     let e = e\<lparr>q_tc_ref := u32_sub (q_tc_ref e) 1\<rparr> in
     Inr (set_entry j (if q_tc_ref e = 0 then e\<lparr>q_trace_mini := None\<rparr> else e) s))"

definition take_edge :: "nat \<Rightarrow> nat \<Rightarrow> afl \<Rightarrow> afl res" where
  "take_edge q i s =
     (if i < length (top_rated s) then
      ebind (entry s q) (\<lambda>e.
        let e = e\<lparr>q_tc_ref := u32_add (q_tc_ref e) 1\<rparr> in
        ebind (case q_trace_mini e of
                 Some _ \<Rightarrow> Inr e
               | None \<Rightarrow> ebind (minimize_bits (length (trace_bits s)) (replicate (length (trace_bits s) div 8) 0) (trace_bits s))
                   (\<lambda>m. Inr (e\<lparr>q_trace_mini := Some m\<rparr>))) (\<lambda>e.
        Inr (set_entry q e (s\<lparr>top_rated := (top_rated s)[i := Some q], score_changed := True\<rparr>))))
      else Inl Fault)"

definition score_step :: "nat \<Rightarrow> u64 \<Rightarrow> u64 \<Rightarrow> nat \<Rightarrow> afl \<Rightarrow> afl res" where
  "score_step q p2 fav i s =
     ebind (load8 (trace_bits s) i) (\<lambda>b.
     if b = 0 then Inr s
     else if \<not> i < length (top_rated s) then Inl Fault
     else case top_rated s ! i of
       None \<Rightarrow> take_edge q i s
     | Some j \<Rightarrow>
         ebind (entry s j) (\<lambda>e.
         ebind (fuzz_p2 s e) (\<lambda>top_p2.
           if p2 > top_p2 then Inr s
           else if fav > fav_factor s e then Inr s
           else ebind (drop_ref j s) (take_edge q i))))"

definition update_bitmap_score :: "nat \<Rightarrow> afl \<Rightarrow> afl res" where
  "update_bitmap_score q s =
     ebind (entry s q) (\<lambda>e. ebind (fuzz_p2 s e) (\<lambda>p2.
       count_loop (length (trace_bits s)) 0 (score_step q p2 (fav_factor s e)) s))"

section \<open>The favored entries\<close>

text \<open>\<open>temp_v\<close> has a bit for every edge that no favored entry covers yet.\<close>

definition cover_edges :: "bytes \<Rightarrow> bytes \<Rightarrow> bytes res" where
  "cover_edges mini temp =
     (let len = length temp in
     count_loop len 0 (\<lambda>k temp.
       let j = len - 1 - k in
       ebind (load8 mini j) (\<lambda>m.
         if m \<noteq> 0 then ebind (load8 temp j) (\<lambda>t. store8 temp j (t AND NOT m)) else Inr temp)) temp)"

definition make_favored :: "nat \<Rightarrow> afl \<Rightarrow> afl res" where
  "make_favored j s = ebind (entry s j) (\<lambda>e.
     if q_favored e then Inr s
     else
       let s = (set_entry j (e\<lparr>q_favored := True\<rparr>) s)\<lparr>queued_favored := u32_add (queued_favored s) 1\<rparr> in
       if q_was_fuzzed e then Inr s
       else
         let s = s\<lparr>pending_favored := u32_add (pending_favored s) 1\<rparr> in
         Inr (if smallest_favored s < 0 then s\<lparr>smallest_favored := int (q_id e)\<rparr> else s))"

definition cull_step :: "nat \<Rightarrow> bytes \<times> afl \<Rightarrow> (bytes \<times> afl) res" where
  "cull_step i = (\<lambda>(temp, s).
     if \<not> i < length (top_rated s) then Inl Fault
     else case top_rated s ! i of
       None \<Rightarrow> Inr (temp, s)
     | Some j \<Rightarrow>
         ebind (load8 temp (i div 8)) (\<lambda>t.
           if t AND push_bit (i AND 7) 1 = 0 then Inr (temp, s)
           else ebind (entry s j) (\<lambda>e.
             case q_trace_mini e of
               None \<Rightarrow> Inl Fault
             | Some mini \<Rightarrow> ebind (cover_edges mini temp) (\<lambda>temp.
                 ebind (make_favored j s) (\<lambda>s. Inr (temp, s))))))"

definition cull_queue :: "afl \<Rightarrow> afl res" where
  "cull_queue s =
     (if \<not> score_changed s \<or> non_instrumented_mode s then Inr s
      else
        let len = length (trace_bits s) div 8;
            s = s\<lparr>score_changed := False, queued_favored := 0, pending_favored := 0,
                  queue_buf := map (\<lambda>e. e\<lparr>q_favored := False\<rparr>) (queue_buf s), smallest_favored := -1\<rparr> in
        ebind (count_loop (length (trace_bits s)) 0 cull_step (replicate len 255, s)) (\<lambda>(_, s).
          Inr (s\<lparr>queue_buf := map (\<lambda>e. if q_disabled e then e
                   else mark_as_redundant (disable_redundant s) (\<not> q_favored e) e) (queue_buf s),
                 reinit_table := True\<rparr>)))"

end
