(* ===== verification/AFL_QueueProps.thy ===== *)
theory AFL_QueueProps
  imports AFL_Queue AFL_CoverageCount
begin

text \<open>
  The invariant \<open>rated\<close> of the competition for the edges: an entry has as many references as it
  has won edges, keeps its compacted trace as long as it has one, and this trace has every edge the
  entry has won. An old compacted trace is not rebuilt when its entry is rated again with another trace, so the
  invariant comes with a set of exceptions (\<open>rated_but\<close>), and one call of \<open>update_bitmap_score\<close> adds at most the
  edges of \<open>stale\<close>; without them it keeps \<open>rated\<close>, on which \<open>cull_queue\<close> relies.
\<close>

section \<open>The invariant\<close>

definition edge_bit :: "bytes \<Rightarrow> nat \<Rightarrow> bool" where
  "edge_bit m i = bit (m ! (i div 8)) (i mod 8)"

definition covers :: "queue_entry \<Rightarrow> nat \<Rightarrow> bool" where
  "covers e i \<longleftrightarrow> (\<exists>m. q_trace_mini e = Some m \<and> edge_bit m i)"

text \<open>\<open>ws\<close> is the array of the winners; between the loss and the win of an edge it is one step ahead of the state.\<close>

definition refs_ok :: "nat \<Rightarrow> nat option list \<Rightarrow> nat \<Rightarrow> queue_entry \<Rightarrow> bool" where
  "refs_ok n ws j e \<longleftrightarrow> q_tc_ref e = count_list ws (Some j) \<and> (q_trace_mini e = None \<longleftrightarrow> q_tc_ref e = 0) \<and>
     (\<forall>m. q_trace_mini e = Some m \<longrightarrow> length m = n div 8)"

definition rated_as :: "nat option list \<Rightarrow> afl \<Rightarrow> bool" where
  "rated_as ws s \<longleftrightarrow> (let n = length (trace_bits s) in
     n < 2 ^ 32 \<and> 8 dvd n \<and> length ws = n \<and> length (top_rated s) = n \<and>
     (\<forall>j<length (queue_buf s). refs_ok n ws j (queue_buf s ! j)) \<and>
     (\<forall>i<n. \<forall>j. ws ! i = Some j \<longrightarrow> j < length (queue_buf s) \<and> covers (queue_buf s ! j) i))"

definition rated :: "afl \<Rightarrow> bool" where
  "rated s \<longleftrightarrow> rated_as (top_rated s) s"

text \<open>
  An entry that has a compacted trace keeps it when it is rated again with another trace. \<open>rated_but D\<close>
  is the invariant except that the compacted trace of \<open>j\<close> may lack the edge \<open>i\<close> that \<open>j\<close> has won, for
  the pairs \<open>(j, i)\<close> of \<open>D\<close>; the reference counts have no exception.
\<close>

definition rated_as_but :: "(nat \<times> nat) set \<Rightarrow> nat option list \<Rightarrow> afl \<Rightarrow> bool" where
  "rated_as_but D ws s \<longleftrightarrow> (let n = length (trace_bits s) in
     n < 2 ^ 32 \<and> 8 dvd n \<and> length ws = n \<and> length (top_rated s) = n \<and>
     (\<forall>j<length (queue_buf s). refs_ok n ws j (queue_buf s ! j)) \<and>
     (\<forall>i<n. \<forall>j. ws ! i = Some j \<longrightarrow> j < length (queue_buf s) \<and> (covers (queue_buf s ! j) i \<or> (j, i) \<in> D)))"

definition rated_but :: "(nat \<times> nat) set \<Rightarrow> afl \<Rightarrow> bool" where
  "rated_but D s \<longleftrightarrow> rated_as_but D (top_rated s) s"

lemma rated_as_but_empty: "rated_as_but {} ws s = rated_as ws s"
  by (simp add: rated_as_but_def rated_as_def Let_def)

lemma rated_but_empty: "rated_but {} s = rated s"
  by (simp add: rated_but_def rated_def rated_as_but_empty)

lemma rated_but_mono: "rated_but D s \<Longrightarrow> D \<subseteq> E \<Longrightarrow> rated_but E s"
  unfolding rated_but_def rated_as_but_def Let_def by blast

lemma rated_imp_but: "rated s \<Longrightarrow> rated_but D s"
  using rated_but_mono [of "{}" s D] by (simp add: rated_but_empty)

text \<open>What the competition leaves alone.\<close>

definition stat :: "queue_entry \<Rightarrow> queue_entry" where
  "stat e = e\<lparr>q_tc_ref := 0, q_trace_mini := None\<rparr>"

definition framed :: "afl \<Rightarrow> afl \<Rightarrow> bool" where
  "framed s s' \<longleftrightarrow> s'\<lparr>queue_buf := [], top_rated := [], score_changed := False\<rparr> = s\<lparr>queue_buf := [], top_rated := [], score_changed := False\<rparr> \<and>
     map stat (queue_buf s') = map stat (queue_buf s)"

lemma framed_refl [simp]: "framed s s"
  by (simp add: framed_def)

lemma framed_trans: "framed s t \<Longrightarrow> framed t u \<Longrightarrow> framed s u"
  by (simp add: framed_def)

lemma framed_same:
  assumes "framed s s'"
  shows "trace_bits s' = trace_bits s" "length (queue_buf s') = length (queue_buf s)" "schedule s' = schedule s"
    "fixed_seed s' = fixed_seed s" "n_fuzz s' = n_fuzz s"
proof -
  have eq: "s'\<lparr>queue_buf := [], top_rated := [], score_changed := False\<rparr> = s\<lparr>queue_buf := [], top_rated := [], score_changed := False\<rparr>"
    using assms by (simp add: framed_def)
  show "trace_bits s' = trace_bits s" using arg_cong [OF eq, of trace_bits] by simp
  show "schedule s' = schedule s" using arg_cong [OF eq, of schedule] by simp
  show "fixed_seed s' = fixed_seed s" using arg_cong [OF eq, of fixed_seed] by simp
  show "n_fuzz s' = n_fuzz s" using arg_cong [OF eq, of n_fuzz] by simp
  show "length (queue_buf s') = length (queue_buf s)" using assms map_eq_imp_length_eq by (auto simp: framed_def)
qed

lemma framed_entry:
  assumes "framed s s'" "j < length (queue_buf s)"
  shows "stat (queue_buf s' ! j) = stat (queue_buf s ! j)"
  using assms framed_same(2) [OF assms(1)] by (metis framed_def nth_map)

lemma framed_scores:
  assumes "framed s s'" "j < length (queue_buf s)"
  shows "fuzz_p2 s' (queue_buf s' ! j) = fuzz_p2 s (queue_buf s ! j)" "fav_factor s' (queue_buf s' ! j) = fav_factor s (queue_buf s ! j)"
proof -
  have e: "q_fuzz_level (queue_buf s' ! j) = q_fuzz_level (queue_buf s ! j)" "q_n_fuzz_entry (queue_buf s' ! j) = q_n_fuzz_entry (queue_buf s ! j)"
    "q_len (queue_buf s' ! j) = q_len (queue_buf s ! j)" "q_exec_us (queue_buf s' ! j) = q_exec_us (queue_buf s ! j)"
    using framed_entry [OF assms] by (auto simp: stat_def dest: arg_cong [where f = q_fuzz_level] arg_cong [where f = q_n_fuzz_entry]
        arg_cong [where f = q_len] arg_cong [where f = q_exec_us])
  show "fuzz_p2 s' (queue_buf s' ! j) = fuzz_p2 s (queue_buf s ! j)" "fav_factor s' (queue_buf s' ! j) = fav_factor s (queue_buf s ! j)"
    by (simp_all add: fuzz_p2_def fav_factor_def e framed_same [OF assms(1)])
qed

lemma framed_set_entry: "j < length (queue_buf s) \<Longrightarrow> stat e = stat (queue_buf s ! j) \<Longrightarrow> framed s (set_entry j e s)"
  by (simp add: framed_def set_entry_def map_update) (metis list_update_id map_update)

section \<open>The competition\<close>

text \<open>
  The compacted trace of \<open>q\<close>, when there is one, has the edges of the current trace, but for those of
  \<open>D\<close>; it is the one that \<open>q\<close> had before (\<open>old\<close>), or it has no other edges.
\<close>

definition in_step_but :: "(nat \<times> nat) set \<Rightarrow> bytes option \<Rightarrow> nat \<Rightarrow> afl \<Rightarrow> bool" where
  "in_step_but D old q s \<longleftrightarrow> (\<forall>m. q_trace_mini (queue_buf s ! q) = Some m \<longrightarrow>
     (\<forall>i<length (trace_bits s). trace_bits s ! i \<noteq> 0 \<longrightarrow> edge_bit m i \<or> (q, i) \<in> D) \<and>
     (old = Some m \<or> (\<forall>i<length (trace_bits s). edge_bit m i \<longleftrightarrow> trace_bits s ! i \<noteq> 0)))"

definition in_step :: "nat \<Rightarrow> afl \<Rightarrow> bool" where
  "in_step q s \<longleftrightarrow> (\<forall>m. q_trace_mini (queue_buf s ! q) = Some m \<longrightarrow>
     (\<forall>i<length (trace_bits s). trace_bits s ! i \<noteq> 0 \<longrightarrow> edge_bit m i))"

text \<open>The hit edges that the compacted trace \<open>q\<close> already has lacks; none for an entry without one.\<close>

definition stale :: "nat \<Rightarrow> afl \<Rightarrow> (nat \<times> nat) set" where
  "stale q s = {(q, i) |i. i < length (trace_bits s) \<and> trace_bits s ! i \<noteq> 0 \<and>
     (\<exists>m. q_trace_mini (queue_buf s ! q) = Some m \<and> \<not> edge_bit m i)}"

lemma in_step_but_stale: "in_step_but (D \<union> stale q s) (q_trace_mini (queue_buf s ! q)) q s"
  by (auto simp: in_step_but_def stale_def)

lemma stale_new: "q_trace_mini (queue_buf s ! q) = None \<Longrightarrow> stale q s = {}"
  by (simp add: stale_def)

lemma rated_asD:
  assumes "rated_as ws s"
  shows "length (trace_bits s) < 4294967296" "8 dvd length (trace_bits s)" "length ws = length (trace_bits s)"
    "length (top_rated s) = length (trace_bits s)"
    "\<And>j. j < length (queue_buf s) \<Longrightarrow> refs_ok (length (trace_bits s)) ws j (queue_buf s ! j)"
    "\<And>i j. i < length (trace_bits s) \<Longrightarrow> ws ! i = Some j \<Longrightarrow> j < length (queue_buf s) \<and> covers (queue_buf s ! j) i"
  using assms by (simp_all add: rated_as_def Let_def)

lemma rated_as_butD:
  assumes "rated_as_but D ws s"
  shows "length (trace_bits s) < 4294967296" "8 dvd length (trace_bits s)" "length ws = length (trace_bits s)"
    "length (top_rated s) = length (trace_bits s)"
    "\<And>j. j < length (queue_buf s) \<Longrightarrow> refs_ok (length (trace_bits s)) ws j (queue_buf s ! j)"
    "\<And>i j. i < length (trace_bits s) \<Longrightarrow> ws ! i = Some j \<Longrightarrow> j < length (queue_buf s) \<and> (covers (queue_buf s ! j) i \<or> (j, i) \<in> D)"
  using assms by (simp_all add: rated_as_but_def Let_def)

lemma set_entry_simps [simp]: "trace_bits (set_entry j e s) = trace_bits s" "top_rated (set_entry j e s) = top_rated s"
  "queue_buf (set_entry j e s) = (queue_buf s)[j := e]"
  by (simp_all add: set_entry_def)

lemma drop_ref_but:
  assumes r: "rated_as_but D ws s" and i: "i < length (trace_bits s)" and j: "ws ! i = Some j" and q: "in_step_but D old q s"
  shows "\<exists>s'. drop_ref j s = Inr s' \<and> rated_as_but D (ws[i := None]) s' \<and> framed s s' \<and> top_rated s' = top_rated s \<and> in_step_but D old q s'"
proof -
  note R = rated_as_butD [OF r]
  have jl: "j < length (queue_buf s)" using R(6) [OF i j] by simp
  let ?e = "queue_buf s ! j"
  have e: "q_tc_ref ?e = count_list ws (Some j)" using R(5) [OF jl] by (simp add: refs_ok_def)
  have pos: "0 < q_tc_ref ?e" using count_list_pos [of i ws] i j R(3) e by simp
  have le: "q_tc_ref ?e \<le> length ws" unfolding e by (rule count_list_le)
  let ?c = "q_tc_ref ?e - 1"
  define e' where "e' = ?e\<lparr>q_tc_ref := ?c, q_trace_mini := (if ?c = 0 then None else q_trace_mini ?e)\<rparr>"
  have sub: "u32_sub (q_tc_ref ?e) 1 = ?c" using pos le R(1,3) by simp
  have run: "drop_ref j s = Inr (set_entry j e' s)"
    using jl by (simp add: drop_ref_def entry_def Let_def sub [unfolded One_nat_def] e'_def)
  have cnt: "count_list (ws[i := None]) (Some k) = (if k = j then ?c else count_list ws (Some k))" for k
    using count_list_update [of i ws None "Some k"] i j R(3) e pos by (auto split: if_splits)
  have "refs_ok (length (trace_bits s)) (ws[i := None]) k ((queue_buf s)[j := e'] ! k)" if k: "k < length (queue_buf s)" for k
    using R(5) [OF k] jl k pos by (cases "k = j") (auto simp: refs_ok_def cnt e'_def)
  moreover have "k < length (queue_buf s) \<and> (covers ((queue_buf s)[j := e'] ! k) m \<or> (k, m) \<in> D)"
    if m: "m < length (trace_bits s)" "ws[i := None] ! m = Some k" for m k
  proof -
    have mi: "m \<noteq> i" "ws ! m = Some k" using m i R(3) by (auto simp: nth_list_update split: if_splits)
    have "0 < count_list (ws[i := None]) (Some k)" using m R(3) by (intro count_list_pos [of m]) simp_all
    then show ?thesis using R(6) [OF m(1) mi(2)] jl by (cases "k = j") (auto simp: cnt e'_def covers_def)
  qed
  ultimately have "rated_as_but D (ws[i := None]) (set_entry j e' s)" using R by (auto simp: rated_as_but_def Let_def)
  moreover have "framed s (set_entry j e' s)" using jl by (intro framed_set_entry) (simp_all add: e'_def stat_def)
  moreover have "in_step_but D old q (set_entry j e' s)"
    using q jl by (cases "q = j") (auto simp: in_step_but_def e'_def split: if_splits)
  ultimately show ?thesis using run by auto
qed

lemma keep_mini: "q_trace_mini e = Some m \<Longrightarrow> e\<lparr>q_tc_ref := x, q_trace_mini := Some m\<rparr> = e\<lparr>q_tc_ref := x\<rparr>"
  by (cases e) simp

lemma take_edge_but:
  assumes r: "rated_as_but D ws s" and i: "i < length (trace_bits s)" "ws ! i = None" "trace_bits s ! i \<noteq> 0"
    and q: "q < length (queue_buf s)" "in_step_but D old q s"
  shows "\<exists>s'. take_edge q i s = Inr s' \<and> rated_as_but D (ws[i := Some q]) s' \<and> framed s s' \<and>
    top_rated s' = (top_rated s)[i := Some q] \<and> in_step_but D old q s' \<and> score_changed s'"
proof -
  note R = rated_as_butD [OF r]
  let ?e = "queue_buf s ! q" and ?n = "length (trace_bits s)"
  have e: "q_tc_ref ?e = count_list ws (Some q)" "\<And>m. q_trace_mini ?e = Some m \<Longrightarrow> length m = ?n div 8"
    using R(5) [OF q(1)] by (simp_all add: refs_ok_def)
  have cnt: "count_list (ws[i := Some q]) (Some k) = (if k = q then q_tc_ref ?e + 1 else count_list ws (Some k))" for k
    using count_list_update [of i ws "Some q" "Some k"] i R(3) e by (auto split: if_splits)
  have "count_list (ws[i := Some q]) (Some q) \<le> ?n" using count_list_le [of "ws[i := Some q]"] R(3) by simp
  then have add: "u32_add (q_tc_ref ?e) 1 = q_tc_ref ?e + 1" using cnt [of q] R(1) by simp
  have n8: "8 * (?n div 8) = ?n" using R(2) by simp
  obtain m where m: "minimize_bits ?n (replicate (?n div 8) 0) (trace_bits s) = Inr m" "length m = ?n div 8"
    "\<And>k. k < ?n \<Longrightarrow> edge_bit m k \<longleftrightarrow> trace_bits s ! k \<noteq> 0"
    using minimize_bits_eval [of ?n "trace_bits s" "replicate (?n div 8) 0"] n8
    by (auto simp: edge_bit_def less_mult_imp_div_less mult.commute)
  define t where "t = (case q_trace_mini ?e of Some t \<Rightarrow> t | None \<Rightarrow> m)"
  define e' where "e' = ?e\<lparr>q_tc_ref := q_tc_ref ?e + 1, q_trace_mini := Some t\<rparr>"
  have lt: "length t = ?n div 8" using e m(2) by (cases "q_trace_mini ?e") (auto simp: t_def)
  have hit: "edge_bit t k \<or> (q, k) \<in> D" if "k < ?n" "trace_bits s ! k \<noteq> 0" for k
    using q(2) m(3) that by (cases "q_trace_mini ?e") (auto simp: t_def in_step_but_def)
  have new: "old = Some t \<or> (\<forall>k<?n. edge_bit t k \<longleftrightarrow> trace_bits s ! k \<noteq> 0)"
    using q(2) m(3) by (cases "q_trace_mini ?e") (auto simp: t_def in_step_but_def)
  have old: "covers ?e k \<Longrightarrow> edge_bit t k" for k by (auto simp: covers_def t_def)
  let ?s = "set_entry q e' (s\<lparr>top_rated := (top_rated s)[i := Some q], score_changed := True\<rparr>)"
  have run: "take_edge q i s = Inr ?s"
    using q(1) i(1) R(4) m(1) by (cases "q_trace_mini ?e") (simp_all add: take_edge_def entry_def Let_def add [unfolded One_nat_def] e'_def t_def keep_mini)
  have "refs_ok ?n (ws[i := Some q]) k ((queue_buf s)[q := e'] ! k)" if k: "k < length (queue_buf s)" for k
    using R(5) [OF k] q(1) k lt by (cases "k = q") (auto simp: refs_ok_def cnt e'_def)
  moreover have "k < length (queue_buf s) \<and> (covers ((queue_buf s)[q := e'] ! k) p \<or> (k, p) \<in> D)"
    if p: "p < ?n" "ws[i := Some q] ! p = Some k" for p k
  proof (cases "p = i")
    case True
    then have "k = q" using p R(3) by simp
    then show ?thesis using hit [OF i(1,3)] q(1) True by (simp add: covers_def e'_def)
  next
    case False
    then have "ws ! p = Some k" using p by simp
    from R(6) [OF p(1) this] show ?thesis using q(1) old by (cases "k = q") (auto simp: covers_def e'_def)
  qed
  ultimately have "rated_as_but D (ws[i := Some q]) ?s" using R by (auto simp: rated_as_but_def Let_def)
  moreover have "framed s ?s"
  proof -
    have "map stat ((queue_buf s)[q := e']) = map stat (queue_buf s)"
      using framed_set_entry [of q s e'] q(1) by (simp add: framed_def e'_def stat_def)
    then show ?thesis by (simp add: framed_def set_entry_def)
  qed
  moreover have "in_step_but D old q ?s" using hit new q(1) by (auto simp: in_step_but_def e'_def)
  ultimately show ?thesis using run by (auto simp: set_entry_def)
qed

text \<open>When an entry takes an edge from its holder.\<close>

definition p2_of :: "afl \<Rightarrow> nat \<Rightarrow> u64" where
  "p2_of s j = projr (fuzz_p2 s (queue_buf s ! j))"

definition wins :: "afl \<Rightarrow> nat \<Rightarrow> nat option \<Rightarrow> bool" where
  "wins s q w = (case w of None \<Rightarrow> True | Some j \<Rightarrow> p2_of s q \<le> p2_of s j \<and>
     fav_factor s (queue_buf s ! q) \<le> fav_factor s (queue_buf s ! j))"

definition n_fuzz_ok :: "afl \<Rightarrow> bool" where
  "n_fuzz_ok s \<longleftrightarrow> (\<forall>e \<in> set (queue_buf s). q_n_fuzz_entry e < length (n_fuzz s))"

lemma fuzz_p2_ok: "n_fuzz_ok s \<Longrightarrow> j < length (queue_buf s) \<Longrightarrow> fuzz_p2 s (queue_buf s ! j) = Inr (p2_of s j)"
  by (auto simp: fuzz_p2_def p2_of_def n_fuzz_ok_def)

text \<open>The winner of the edge \<open>i\<close> after \<open>q\<close> has been rated.\<close>

definition winner :: "afl \<Rightarrow> nat \<Rightarrow> nat \<Rightarrow> nat option" where
  "winner s q i = (if trace_bits s ! i \<noteq> 0 \<and> wins s q (top_rated s ! i) then Some q else top_rated s ! i)"

lemma score_step_but:
  assumes r: "rated_but D s" "framed s0 s" "in_step_but D old q s" and q: "q < length (queue_buf s0)" and nf: "n_fuzz_ok s0"
    and i: "i < length (trace_bits s0)"
  shows "\<exists>s'. score_step q (p2_of s0 q) (fav_factor s0 (queue_buf s0 ! q)) i s = Inr s' \<and> rated_but D s' \<and> framed s0 s' \<and> in_step_but D old q s' \<and>
    (if trace_bits s0 ! i \<noteq> 0 \<and> wins s0 q (top_rated s ! i)
     then top_rated s' = (top_rated s)[i := Some q] \<and> score_changed s' else s' = s)"
proof -
  note F = framed_same [OF r(2)]
  have ra: "rated_as_but D (top_rated s) s" using r(1) by (simp add: rated_but_def)
  note R = rated_as_butD [OF ra]
  have ql: "q < length (queue_buf s)" using q F by simp
  have il: "i < length (trace_bits s)" "i < length (top_rated s)" using i F R by simp_all
  show ?thesis
  proof (cases "trace_bits s ! i = 0")
    case True
    then show ?thesis using r il F by (simp add: score_step_def mem_ok)
  next
    case hit: False
    show ?thesis
    proof (cases "top_rated s ! i")
      case None
      from take_edge_but [OF ra il(1) None hit ql r(3)] obtain s' where s': "take_edge q i s = Inr s'"
        "rated_as_but D ((top_rated s)[i := Some q]) s'" "framed s s'" "top_rated s' = (top_rated s)[i := Some q]" "in_step_but D old q s'" "score_changed s'" by blast
      have "score_step q (p2_of s0 q) (fav_factor s0 (queue_buf s0 ! q)) i s = Inr s'"
        using hit None il s'(1) by (simp add: score_step_def mem_ok)
      then show ?thesis using s' framed_trans [OF r(2) s'(3)] hit None F(1) by (auto simp: rated_but_def wins_def)
    next
      case (Some j)
      have j: "j < length (queue_buf s)" using R(6) [OF il(1) Some] by simp
      have jl: "j < length (queue_buf s0)" using j F by simp
      have p2: "fuzz_p2 s (queue_buf s ! j) = Inr (p2_of s0 j)"
        using framed_scores(1) [OF r(2) jl] fuzz_p2_ok [OF nf jl] by simp
      have fav: "fav_factor s (queue_buf s ! j) = fav_factor s0 (queue_buf s0 ! j)" by (rule framed_scores(2) [OF r(2) jl])
      have step: "score_step q (p2_of s0 q) (fav_factor s0 (queue_buf s0 ! q)) i s =
          (if wins s0 q (Some j) then ebind (drop_ref j s) (take_edge q i) else Inr s)"
        using hit Some il j p2 fav by (auto simp: score_step_def mem_ok entry_def wins_def not_less)
      show ?thesis
      proof (cases "wins s0 q (Some j)")
        case True
        from drop_ref_but [OF ra il(1) Some r(3)] obtain t where t: "drop_ref j s = Inr t" "rated_as_but D ((top_rated s)[i := None]) t"
          "framed s t" "top_rated t = top_rated s" "in_step_but D old q t" by blast
        note T = framed_same [OF t(3)]
        have "i < length (trace_bits t)" "(top_rated s)[i := None] ! i = None" "trace_bits t ! i \<noteq> 0" "q < length (queue_buf t)"
          using il hit T ql by simp_all
        from take_edge_but [OF t(2) this t(5)] obtain s' where s': "take_edge q i t = Inr s'"
          "rated_as_but D ((top_rated s)[i := Some q]) s'" "framed t s'" "top_rated s' = (top_rated s)[i := Some q]" "in_step_but D old q s'" "score_changed s'"
          by (auto simp: t(4))
        have "framed s0 s'" using framed_trans [OF framed_trans [OF r(2) t(3)] s'(3)] .
        then show ?thesis using step True t(1) s' hit Some F(1) by (auto simp: rated_but_def)
      qed (use step r Some in auto)
    qed
  qed
qed

lemma update_bitmap_score_but:
  assumes r: "rated_but D s" "in_step_but D old q s" "q < length (queue_buf s)" "n_fuzz_ok s"
  shows "\<exists>s'. update_bitmap_score q s = Inr s' \<and> rated_but D s' \<and> framed s s' \<and> in_step_but D old q s' \<and>
    (\<forall>i<length (trace_bits s). top_rated s' ! i = winner s q i) \<and>
    (score_changed s' \<longleftrightarrow> score_changed s \<or> (\<exists>i<length (trace_bits s). trace_bits s ! i \<noteq> 0 \<and> wins s q (top_rated s ! i)))"
proof -
  let ?n = "length (trace_bits s)"
  let ?I = "\<lambda>i t. rated_but D t \<and> framed s t \<and> in_step_but D old q t \<and>
    (\<forall>k<?n. top_rated t ! k = (if k < i then winner s q k else top_rated s ! k)) \<and>
    (score_changed t \<longleftrightarrow> score_changed s \<or> (\<exists>k<i. trace_bits s ! k \<noteq> 0 \<and> wins s q (top_rated s ! k)))"
  let ?f = "score_step q (p2_of s q) (fav_factor s (queue_buf s ! q))"
  have "\<exists>s'. count_loop ?n 0 ?f s = Inr s' \<and> ?I (0 + ?n) s'"
  proof (rule count_loop_inv [where I = ?I])
    fix i t assume i: "i < 0 + ?n" and I: "?I i t"
    then have t: "rated_but D t" "framed s t" "in_step_but D old q t" "i < ?n" "top_rated t ! i = top_rated s ! i" by auto
    have len: "length (top_rated t) = ?n" using t(1) framed_same(1) [OF t(2)] by (simp add: rated_but_def rated_as_but_def Let_def)
    from score_step_but [OF t(1-3) r(3,4) t(4)] obtain u where u: "?f i t = Inr u" "rated_but D u" "framed s u" "in_step_but D old q u"
      "if trace_bits s ! i \<noteq> 0 \<and> wins s q (top_rated t ! i) then top_rated u = (top_rated t)[i := Some q] \<and> score_changed u else u = t" by blast
    have "top_rated u ! k = (if k < Suc i then winner s q k else top_rated s ! k)" if "k < ?n" for k
      using u(5) I that len t(5) by (cases "k = i") (auto simp: winner_def less_Suc_eq split: if_splits)
    moreover have "score_changed u \<longleftrightarrow> score_changed s \<or> (\<exists>k<Suc i. trace_bits s ! k \<noteq> 0 \<and> wins s q (top_rated s ! k))"
      using u(5) I t(5) by (auto simp: less_Suc_eq split: if_splits)
    ultimately show "\<exists>u. ?f i t = Inr u \<and> ?I (Suc i) u" using u by blast
  qed (use r in simp)
  then show ?thesis using r(3) fuzz_p2_ok [OF r(4,3)] by (auto simp: update_bitmap_score_def entry_def)
qed

lemma update_bitmap_score_ok:
  assumes r: "rated s" "in_step q s" "q < length (queue_buf s)" "n_fuzz_ok s"
  shows "\<exists>s'. update_bitmap_score q s = Inr s' \<and> rated s' \<and> framed s s' \<and>
    (\<forall>i<length (trace_bits s). top_rated s' ! i = winner s q i) \<and>
    (score_changed s' \<longleftrightarrow> score_changed s \<or> (\<exists>i<length (trace_bits s). trace_bits s ! i \<noteq> 0 \<and> wins s q (top_rated s ! i)))"
  using update_bitmap_score_but [of "{}" s "q_trace_mini (queue_buf s ! q)" q] assms
  by (auto simp: rated_but_empty in_step_def in_step_but_def)

text \<open>The invariant does not depend on the contents of the trace.\<close>

lemma rated_transfer:
  assumes "rated s" "top_rated t = top_rated s" "length (trace_bits t) = length (trace_bits s)"
    "length (queue_buf t) = length (queue_buf s)"
    "\<And>j. j < length (queue_buf s) \<Longrightarrow> q_tc_ref (queue_buf t ! j) = q_tc_ref (queue_buf s ! j) \<and>
       q_trace_mini (queue_buf t ! j) = q_trace_mini (queue_buf s ! j)"
  shows "rated t"
  using assms unfolding rated_def rated_as_def Let_def refs_ok_def covers_def by auto

lemma rated_but_transfer:
  assumes "rated_but D s" "top_rated t = top_rated s" "length (trace_bits t) = length (trace_bits s)"
    "length (queue_buf t) = length (queue_buf s)"
    "\<And>j. j < length (queue_buf s) \<Longrightarrow> q_tc_ref (queue_buf t ! j) = q_tc_ref (queue_buf s ! j) \<and>
       q_trace_mini (queue_buf t ! j) = q_trace_mini (queue_buf s ! j)"
  shows "rated_but D t"
  using assms unfolding rated_but_def rated_as_but_def Let_def refs_ok_def covers_def by auto

end
