(* ===== verification/AFL_CullProps.thy ===== *)
theory AFL_CullProps
  imports AFL_QueueProps
begin

text \<open>
  The choice of the favored entries. The loop of \<open>cull_queue\<close> changes nothing of an entry but its
  mark (\<open>unfav\<close>); \<open>cull_inv\<close> says that an edge whose bit is gone from \<open>temp_v\<close> is covered by a favored
  entry, and that the counters count the marks. The last part has the properties of the whole
  competition.
\<close>

section \<open>Covering\<close>

lemma edge_bit_not: "i < 8 * length t \<Longrightarrow> (\<And>k. k < length t \<Longrightarrow> t' ! k = t ! k AND NOT (m ! k)) \<Longrightarrow>
    edge_bit t' i \<longleftrightarrow> edge_bit t i \<and> \<not> edge_bit m i"
proof -
  assume "i < 8 * length t" and t': "\<And>k. k < length t \<Longrightarrow> t' ! k = t ! k AND NOT (m ! k)"
  then have "i div 8 < length t" "i mod 8 < LENGTH(8)" by (auto simp: less_mult_imp_div_less mult.commute)
  then show ?thesis by (simp add: edge_bit_def t' bit_and_iff bit_not_iff)
qed

lemma cover_edges_ok:
  assumes "length mini = length temp"
  shows "\<exists>t. cover_edges mini temp = Inr t \<and> length t = length temp \<and>
    (\<forall>i<8 * length temp. edge_bit t i \<longleftrightarrow> edge_bit temp i \<and> \<not> edge_bit mini i)"
proof -
  let ?n = "length temp"
  let ?I = "\<lambda>k t. length t = ?n \<and> (\<forall>p<?n. t ! p = (if ?n \<le> p + k then temp ! p AND NOT (mini ! p) else temp ! p))"
  let ?f = "\<lambda>k temp'. let j = ?n - 1 - k in ebind (load8 mini j) (\<lambda>m.
      if m \<noteq> 0 then ebind (load8 temp' j) (\<lambda>t. store8 temp' j (t AND NOT m)) else Inr temp')"
  have "\<exists>t. count_loop ?n 0 ?f temp = Inr t \<and> ?I (0 + ?n) t"
  proof (rule count_loop_inv [where I = ?I])
    fix k t assume k: "k < 0 + ?n" and I: "?I k t"
    define j where "j = ?n - 1 - k"
    have j: "j < ?n" "\<And>p. p < ?n \<Longrightarrow> ?n \<le> p + Suc k \<longleftrightarrow> ?n \<le> p + k \<or> p = j" "\<not> ?n \<le> j + k" using k by (auto simp: j_def)
    have tj: "t ! j = temp ! j" using I j by simp
    have f: "?f k t = ebind (load8 mini j) (\<lambda>m. if m \<noteq> 0 then ebind (load8 t j) (\<lambda>u. store8 t j (u AND NOT m)) else Inr t)"
      by (simp only: Let_def j_def)
    show "\<exists>t'. ?f k t = Inr t' \<and> ?I (Suc k) t'"
    proof (cases "mini ! j = 0")
      case True
      then have "?f k t = Inr t" using j(1) assms unfolding f by (simp add: mem_ok)
      moreover have "?I (Suc k) t" using I j True tj by auto
      ultimately show ?thesis by blast
    next
      case False
      then have "?f k t = Inr (t[j := temp ! j AND NOT (mini ! j)])" using j(1) assms I tj unfolding f by (simp add: mem_ok)
      moreover have "?I (Suc k) (t[j := temp ! j AND NOT (mini ! j)])" using I j by (auto simp: nth_list_update)
      ultimately show ?thesis by blast
    qed
  qed simp
  then obtain t where t: "cover_edges mini temp = Inr t" "length t = ?n" "\<And>p. p < ?n \<Longrightarrow> t ! p = temp ! p AND NOT (mini ! p)"
    by (auto simp: cover_edges_def Let_def)
  then show ?thesis using edge_bit_not [of _ temp t mini] by auto
qed

section \<open>The loop\<close>

definition unfav :: "queue_entry \<Rightarrow> queue_entry" where
  "unfav e = e\<lparr>q_favored := False\<rparr>"

definition pending :: "queue_entry \<Rightarrow> bool" where
  "pending e \<longleftrightarrow> q_favored e \<and> \<not> q_was_fuzzed e"

definition marks_ok :: "afl \<Rightarrow> bool" where
  "marks_ok t \<longleftrightarrow> queued_favored t = length (filter q_favored (queue_buf t)) \<and>
     pending_favored t = length (filter pending (queue_buf t)) \<and>
     (if filter pending (queue_buf t) = [] then smallest_favored t = -1
      else \<exists>e \<in> set (queue_buf t). pending e \<and> smallest_favored t = int (q_id e))"

definition same_queue :: "afl \<Rightarrow> afl \<Rightarrow> bool" where
  "same_queue s t \<longleftrightarrow> map unfav (queue_buf t) = map unfav (queue_buf s) \<and> trace_bits t = trace_bits s \<and> top_rated t = top_rated s \<and>
     score_changed t = score_changed s \<and> disable_redundant t = disable_redundant s"

lemma same_queueD:
  assumes "same_queue s t"
  shows "length (queue_buf t) = length (queue_buf s)" "j < length (queue_buf s) \<Longrightarrow> unfav (queue_buf t ! j) = unfav (queue_buf s ! j)"
    "trace_bits t = trace_bits s" "top_rated t = top_rated s"
proof -
  have eq: "map unfav (queue_buf t) = map unfav (queue_buf s)" using assms by (simp add: same_queue_def)
  show len: "length (queue_buf t) = length (queue_buf s)" using eq map_eq_imp_length_eq by blast
  show "unfav (queue_buf t ! j) = unfav (queue_buf s ! j)" if "j < length (queue_buf s)"
    using eq that len by (metis nth_map)
qed (use assms in \<open>simp_all add: same_queue_def\<close>)

lemma unfav_fields:
  assumes "unfav e' = unfav e"
  shows "q_tc_ref e' = q_tc_ref e" "q_trace_mini e' = q_trace_mini e" "q_was_fuzzed e' = q_was_fuzzed e" "q_id e' = q_id e"
    "q_disabled e' = q_disabled e"
  using arg_cong [OF assms, of q_tc_ref] arg_cong [OF assms, of q_trace_mini] arg_cong [OF assms, of q_was_fuzzed]
    arg_cong [OF assms, of q_id] arg_cong [OF assms, of q_disabled] by (simp_all add: unfav_def)

lemma rated_cong:
  assumes "trace_bits t = trace_bits s" "top_rated t = top_rated s" "length (queue_buf t) = length (queue_buf s)"
    "\<And>j. j < length (queue_buf s) \<Longrightarrow> q_tc_ref (queue_buf t ! j) = q_tc_ref (queue_buf s ! j) \<and> q_trace_mini (queue_buf t ! j) = q_trace_mini (queue_buf s ! j)"
  shows "rated t = rated s"
proof -
  have "refs_ok n ws j (queue_buf t ! j) = refs_ok n ws j (queue_buf s ! j)" if "j < length (queue_buf s)" for n ws j
    using assms(4) [OF that] by (simp add: refs_ok_def)
  moreover have "j < length (queue_buf s) \<and> covers (queue_buf t ! j) i \<longleftrightarrow> j < length (queue_buf s) \<and> covers (queue_buf s ! j) i" for i j
    using assms(4) [of j] by (cases "j < length (queue_buf s)") (simp_all add: covers_def)
  ultimately show ?thesis by (simp add: rated_def rated_as_def Let_def assms(1-3))
qed

lemma make_favored_ok:
  assumes m: "marks_ok t" and j: "j < length (queue_buf t)" and len: "length (queue_buf t) < 4294967296"
  shows "\<exists>u. make_favored j t = Inr u \<and> same_queue t u \<and> marks_ok u \<and> q_favored (queue_buf u ! j) \<and>
    (\<forall>k<length (queue_buf t). k \<noteq> j \<longrightarrow> queue_buf u ! k = queue_buf t ! k)"
proof (cases "q_favored (queue_buf t ! j)")
  case True
  then show ?thesis using m j by (simp add: make_favored_def entry_def same_queue_def)
next
  case False
  let ?e = "queue_buf t ! j"
  define e' where "e' = ?e\<lparr>q_favored := True\<rparr>"
  let ?q = "(queue_buf t)[j := e']"
  have "length (filter q_favored ?q) = length (filter q_favored (queue_buf t)) + 1"
    using filter_update [OF j, of q_favored e'] False by (simp add: e'_def)
  moreover have "length (filter q_favored ?q) \<le> length ?q" by (rule length_filter_le)
  ultimately have fav: "u32_add (length (filter q_favored (queue_buf t))) (Suc 0) = length (filter q_favored ?q)"
    using len by simp
  have same: "map unfav ?q = map unfav (queue_buf t)"
  proof -
    have "unfav e' = unfav ?e" by (simp add: unfav_def e'_def)
    then show ?thesis by (metis list_update_id map_update)
  qed
  have e': "q_favored e'" "pending e' \<longleftrightarrow> \<not> q_was_fuzzed ?e" "\<not> pending ?e" "q_id e' = q_id ?e"
    using False by (simp_all add: e'_def pending_def)
  have in_q: "e' \<in> set ?q" using j by (simp add: set_update_memI)
  show ?thesis
  proof (cases "q_was_fuzzed ?e")
    case True
    have sub: "filter pending ?q = filter pending (queue_buf t)" using filter_no_change [OF j, of pending e'] e' True by simp
    have mem: "(\<exists>e\<in>set ?q. pending e \<and> X e) \<longleftrightarrow> (\<exists>e\<in>set (queue_buf t). pending e \<and> X e)" for X
      using sub by (metis (no_types, lifting) mem_Collect_eq set_filter)
    let ?u = "(set_entry j e' t)\<lparr>queued_favored := u32_add (queued_favored t) 1\<rparr>"
    have "make_favored j t = Inr ?u" using j False True by (simp add: make_favored_def entry_def e'_def Let_def)
    moreover have "marks_ok ?u" using m by (simp add: marks_ok_def fav sub mem set_entry_def)
    ultimately show ?thesis using same j e' by (simp add: same_queue_def set_entry_def)
  next
    case False
    have pn: "length (filter pending ?q) = length (filter pending (queue_buf t)) + 1"
      using filter_update [OF j, of pending e'] e' False by simp
    moreover have "length (filter pending ?q) \<le> length ?q" by (rule length_filter_le)
    ultimately have pend: "u32_add (length (filter pending (queue_buf t))) (Suc 0) = length (filter pending ?q)"
      using len by simp
    let ?s = "(set_entry j e' t)\<lparr>queued_favored := u32_add (queued_favored t) 1, pending_favored := u32_add (pending_favored t) 1\<rparr>"
    define u where "u = (if smallest_favored t < 0 then ?s\<lparr>smallest_favored := int (q_id ?e)\<rparr> else ?s)"
    have run: "make_favored j t = Inr u"
      using j False \<open>\<not> q_favored ?e\<close> by (simp add: make_favored_def entry_def e'_def Let_def u_def set_entry_def)
    have ne: "filter pending ?q \<noteq> []" using pn by auto
    have "\<exists>e \<in> set ?q. pending e \<and> smallest_favored u = int (q_id e)"
    proof (cases "smallest_favored t < 0")
      case True
      then show ?thesis using in_q e' False by (auto simp: u_def intro!: bexI [of _ e'])
    next
      case neg: False
      then obtain e where e: "e \<in> set (queue_buf t)" "pending e" "smallest_favored t = int (q_id e)"
        using m by (auto simp: marks_ok_def split: if_splits)
      then have "e \<in> set ?q" using e'(3) j by (metis in_set_conv_nth length_list_update nth_list_update_neq)
      then show ?thesis using e neg by (auto simp: u_def set_entry_def)
    qed
    moreover have "queued_favored u = length (filter q_favored ?q)" "pending_favored u = length (filter pending ?q)" "queue_buf u = ?q"
      using m fav pend by (simp_all add: marks_ok_def u_def set_entry_def)
    ultimately have "marks_ok u" using ne by (simp add: marks_ok_def)
    moreover have "same_queue t u" using same by (simp add: same_queue_def u_def set_entry_def)
    ultimately show ?thesis using run j e' by (simp add: u_def set_entry_def)
  qed
qed

definition cull_inv :: "afl \<Rightarrow> nat \<Rightarrow> bytes \<times> afl \<Rightarrow> bool" where
  "cull_inv s i = (\<lambda>(temp, t). length temp = length (trace_bits s) div 8 \<and> same_queue s t \<and> marks_ok t \<and>
     (\<forall>k<length (trace_bits s). \<not> edge_bit temp k \<longrightarrow> (\<exists>j<length (queue_buf s). q_favored (queue_buf t ! j) \<and> covers (queue_buf s ! j) k)) \<and>
     (\<forall>k<i. top_rated s ! k \<noteq> None \<longrightarrow> \<not> edge_bit temp k) \<and>
     (\<forall>j<length (queue_buf s). q_favored (queue_buf t ! j) \<longrightarrow> Some j \<in> set (top_rated s)))"

lemma test_bit: "(t :: u8) AND push_bit (i AND 7) 1 = 0 \<longleftrightarrow> \<not> bit t (i mod 8)"
  by (simp add: and_7 and_exp_eq_0_iff_not_bit)

lemma same_queue_trans: "same_queue s t \<Longrightarrow> same_queue t u \<Longrightarrow> same_queue s u"
  by (simp add: same_queue_def)

lemma cull_step_inv:
  assumes r: "rated s" and len: "length (queue_buf s) < 4294967296" and i: "i < length (trace_bits s)" and I: "cull_inv s i (temp, t)"
  shows "\<exists>r. cull_step i (temp, t) = Inr r \<and> cull_inv s (Suc i) r"
proof -
  have ra: "rated_as (top_rated s) s" using r by (simp add: rated_def)
  note R = rated_asD [OF ra]
  have t: "length temp = length (trace_bits s) div 8" "same_queue s t" "marks_ok t"
    and A: "\<And>k. k < length (trace_bits s) \<Longrightarrow> \<not> edge_bit temp k \<Longrightarrow> \<exists>j<length (queue_buf s). q_favored (queue_buf t ! j) \<and> covers (queue_buf s ! j) k"
    and B: "\<And>k. k < i \<Longrightarrow> top_rated s ! k \<noteq> None \<Longrightarrow> \<not> edge_bit temp k"
    and C: "\<And>j. j < length (queue_buf s) \<Longrightarrow> q_favored (queue_buf t ! j) \<Longrightarrow> Some j \<in> set (top_rated s)"
    using I by (auto simp: cull_inv_def)
  note S = same_queueD [OF t(2)]
  have n8: "8 * (length (trace_bits s) div 8) = length (trace_bits s)" using R(2) by simp
  have il: "i < length (top_rated t)" "i div 8 < length temp" using i R(4) S(4) t(1) n8 by (auto simp: less_mult_imp_div_less mult.commute)
  show ?thesis
  proof (cases "top_rated s ! i")
    case None
    then have "cull_step i (temp, t) = Inr (temp, t)" using il S(4) by (simp add: cull_step_def)
    moreover have "cull_inv s (Suc i) (temp, t)" using I None by (auto simp: cull_inv_def less_Suc_eq)
    ultimately show ?thesis by blast
  next
    case (Some j)
    have j: "j < length (queue_buf s)" "covers (queue_buf s ! j) i" using R(6) [OF i Some] by simp_all
    show ?thesis
    proof (cases "edge_bit temp i")
      case False
      then have "cull_step i (temp, t) = Inr (temp, t)"
        using il S(4) Some test_bit [of "temp ! (i div 8)" i] by (simp add: cull_step_def mem_ok edge_bit_def)
      moreover have "cull_inv s (Suc i) (temp, t)" using I False by (auto simp: cull_inv_def less_Suc_eq)
      ultimately show ?thesis by blast
    next
      case True
      obtain mini where mini: "q_trace_mini (queue_buf s ! j) = Some mini" "edge_bit mini i" using j(2) by (auto simp: covers_def)
      have lm: "length mini = length temp" using R(5) [OF j(1)] mini(1) t(1) by (simp add: refs_ok_def)
      have mt: "q_trace_mini (queue_buf t ! j) = Some mini" using unfav_fields(2) [OF S(2) [OF j(1)]] mini(1) by simp
      from cover_edges_ok [OF lm] obtain temp' where temp': "cover_edges mini temp = Inr temp'" "length temp' = length temp"
        "\<And>k. k < length (trace_bits s) \<Longrightarrow> edge_bit temp' k \<longleftrightarrow> edge_bit temp k \<and> \<not> edge_bit mini k" using t(1) n8 by auto
      have jt: "j < length (queue_buf t)" "length (queue_buf t) < 4294967296" using j S len by simp_all
      from make_favored_ok [OF t(3) jt] obtain u where u: "make_favored j t = Inr u" "same_queue t u" "marks_ok u"
        "q_favored (queue_buf u ! j)" "\<And>k. k < length (queue_buf t) \<Longrightarrow> k \<noteq> j \<Longrightarrow> queue_buf u ! k = queue_buf t ! k" by blast
      have fav: "q_favored (queue_buf u ! k) \<longleftrightarrow> q_favored (queue_buf t ! k) \<or> k = j" if "k < length (queue_buf s)" for k
        using u(4) u(5) [of k] that S(1) by (cases "k = j") auto
      have run: "cull_step i (temp, t) = Inr (temp', u)"
        using il S(4) Some True test_bit [of "temp ! (i div 8)" i] jt mt temp'(1) u(1)
        by (simp add: cull_step_def mem_ok edge_bit_def entry_def)
      have "\<exists>p<length (queue_buf s). q_favored (queue_buf u ! p) \<and> covers (queue_buf s ! p) k"
        if k: "k < length (trace_bits s)" "\<not> edge_bit temp' k" for k
      proof (cases "edge_bit temp k")
        case True
        then have "covers (queue_buf s ! j) k" using k temp'(3) mini(1) by (auto simp: covers_def)
        then show ?thesis using j(1) u(4) by blast
      next
        case False
        from A [OF k(1) this] show ?thesis using fav by blast
      qed
      moreover have "\<not> edge_bit temp' k" if "k < Suc i" "top_rated s ! k \<noteq> None" for k
        using that temp'(3) [of k] i B [of k] mini(2) by (auto simp: less_Suc_eq)
      moreover have "Some p \<in> set (top_rated s)" if "p < length (queue_buf s)" "q_favored (queue_buf u ! p)" for p
        using that fav C Some i R(4) by (metis nth_mem)
      ultimately have "cull_inv s (Suc i) (temp', u)"
        using t(1) temp'(2) same_queue_trans [OF t(2) u(2)] u(3) by (auto simp: cull_inv_def)
      then show ?thesis using run by blast
    qed
  qed
qed

lemma cull_loop_ok:
  assumes r: "rated s" and len: "length (queue_buf s) < 4294967296" and m: "marks_ok s"
    and none: "\<forall>e \<in> set (queue_buf s). \<not> q_favored e"
  shows "\<exists>temp t. count_loop (length (trace_bits s)) 0 cull_step (replicate (length (trace_bits s) div 8) 255, s) = Inr (temp, t) \<and>
    cull_inv s (length (trace_bits s)) (temp, t)"
proof -
  let ?n = "length (trace_bits s)"
  have full: "edge_bit (replicate (?n div 8) 255) k" if "k < ?n" for k
  proof -
    have "8 * (?n div 8) = ?n" using rated_asD(2) r by (auto simp: rated_def)
    then have "k div 8 < ?n div 8" using that by (simp add: less_mult_imp_div_less mult.commute)
    moreover have "bit (255 :: u8) (k mod 8)"
    proof -
      have "(255 :: u8) = -1" by simp
      then show ?thesis by (simp only: bit_minus_1_iff) simp
    qed
    ultimately show ?thesis by (simp add: edge_bit_def)
  qed
  have "cull_inv s 0 (replicate (?n div 8) 255, s)"
    using m full none by (auto simp: cull_inv_def same_queue_def)
  then have "\<exists>r. count_loop ?n 0 cull_step (replicate (?n div 8) 255, s) = Inr r \<and> cull_inv s (0 + ?n) r"
  proof (rule count_loop_inv [where I = "cull_inv s", rotated])
    fix i r assume "i < 0 + ?n" "cull_inv s i r"
    then show "\<exists>r'. cull_step i r = Inr r' \<and> cull_inv s (Suc i) r'"
      using cull_step_inv [OF r len, of i "fst r" "snd r"] by simp
  qed
  then show ?thesis by auto
qed

lemma mark_as_redundant_fields [simp]:
  "q_favored (mark_as_redundant nr st e) = q_favored e" "q_was_fuzzed (mark_as_redundant nr st e) = q_was_fuzzed e"
  "q_id (mark_as_redundant nr st e) = q_id e" "q_tc_ref (mark_as_redundant nr st e) = q_tc_ref e"
  "q_trace_mini (mark_as_redundant nr st e) = q_trace_mini e" "q_fs_redundant (mark_as_redundant nr st e) = st"
  by (auto simp: mark_as_redundant_def Let_def)

lemma marks_ok_map:
  assumes u: "marks_ok u" and v: "queue_buf v = map g (queue_buf u)" "queued_favored v = queued_favored u"
      "pending_favored v = pending_favored u" "smallest_favored v = smallest_favored u"
    and g: "\<And>e. q_favored (g e) = q_favored e" "\<And>e. q_was_fuzzed (g e) = q_was_fuzzed e" "\<And>e. q_id (g e) = q_id e"
  shows "marks_ok v"
proof -
  have "q_favored \<circ> g = q_favored" "pending \<circ> g = pending" using g by (auto simp: pending_def)
  then have f: "filter q_favored (queue_buf v) = map g (filter q_favored (queue_buf u))"
    "filter pending (queue_buf v) = map g (filter pending (queue_buf u))" by (simp_all add: v filter_map)
  have p: "pending (g e) = pending e" for e using g by (simp add: pending_def)
  show ?thesis using u unfolding marks_ok_def f v(2-4) unfolding v(1) by (auto simp: p g)
qed

text \<open>The effect of \<open>cull_queue\<close>.\<close>

lemma cull_queue_ok:
  assumes r: "rated s" and len: "length (queue_buf s) < 4294967296" and c: "score_changed s" "\<not> non_instrumented_mode s"
  shows "\<exists>s'. cull_queue s = Inr s' \<and> rated s' \<and> \<not> score_changed s' \<and> reinit_table s' \<and> marks_ok s' \<and>
    (\<forall>i<length (trace_bits s). top_rated s ! i \<noteq> None \<longrightarrow> (\<exists>e \<in> set (queue_buf s'). q_favored e \<and> covers e i)) \<and>
    (\<forall>j<length (queue_buf s'). q_favored (queue_buf s' ! j) \<longrightarrow> Some j \<in> set (top_rated s)) \<and>
    (\<forall>e \<in> set (queue_buf s'). \<not> q_disabled e \<longrightarrow> q_fs_redundant e = (\<not> q_favored e))"
proof -
  let ?n = "length (trace_bits s)"
  define t where "t = s\<lparr>score_changed := False, queued_favored := 0, pending_favored := 0,
    queue_buf := map (\<lambda>e. e\<lparr>q_favored := False\<rparr>) (queue_buf s), smallest_favored := -1\<rparr>"
  have "rated t = rated s" by (rule rated_cong) (simp_all add: t_def)
  then have t: "rated t" "length (queue_buf t) < 4294967296" "marks_ok t" "\<forall>e\<in>set (queue_buf t). \<not> q_favored e"
    "trace_bits t = trace_bits s" "top_rated t = top_rated s" "length (queue_buf t) = length (queue_buf s)"
    using len r by (auto simp: t_def marks_ok_def pending_def filter_empty_conv)
  from cull_loop_ok [OF t(1-4)] obtain temp u where u: "count_loop ?n 0 cull_step (replicate (?n div 8) 255, t) = Inr (temp, u)"
    "cull_inv t ?n (temp, u)" by (auto simp: t(5))
  let ?g = "\<lambda>e. if q_disabled e then e else mark_as_redundant (disable_redundant u) (\<not> q_favored e) e"
  define v where "v = u\<lparr>queue_buf := map ?g (queue_buf u), reinit_table := True\<rparr>"
  have run: "cull_queue s = Inr v" using c u(1) unfolding cull_queue_def t_def v_def by (simp add: Let_def)
  have sq: "same_queue t u" "marks_ok u" using u(2) by (simp_all add: cull_inv_def)
  note S = same_queueD [OF sq(1)]
  have vlen: "length (queue_buf v) = length (queue_buf t)" using S by (simp add: v_def)
  have nth: "queue_buf v ! j = ?g (queue_buf u ! j)" if "j < length (queue_buf t)" for j using that S by (simp add: v_def)
  have g: "q_favored (?g e) = q_favored e" "q_was_fuzzed (?g e) = q_was_fuzzed e" "q_id (?g e) = q_id e"
    "q_tc_ref (?g e) = q_tc_ref e" "q_trace_mini (?g e) = q_trace_mini e" for e by simp_all
  have cov: "covers (queue_buf v ! j) = covers (queue_buf t ! j)" if "j < length (queue_buf t)" for j
    using nth [OF that] unfav_fields(2) [OF S(2) [OF that]] by (auto simp: covers_def fun_eq_iff)
  have "rated v = rated t"
  proof (rule rated_cong)
    fix j assume j: "j < length (queue_buf t)"
    show "q_tc_ref (queue_buf v ! j) = q_tc_ref (queue_buf t ! j) \<and> q_trace_mini (queue_buf v ! j) = q_trace_mini (queue_buf t ! j)"
      using unfav_fields(1,2) [OF S(2) [OF j]] nth [OF j] by simp
  qed (use S vlen in \<open>simp_all add: v_def\<close>)
  moreover have "marks_ok v" by (rule marks_ok_map [OF sq(2), where g = ?g]) (simp_all add: v_def)
  moreover have "\<exists>e \<in> set (queue_buf v). q_favored e \<and> covers e i" if i: "i < ?n" "top_rated s ! i \<noteq> None" for i
  proof -
    have "\<not> edge_bit temp i" using u(2) i t(5,6) by (simp add: cull_inv_def)
    then obtain j where "j < length (queue_buf t)" "q_favored (queue_buf u ! j)" "covers (queue_buf t ! j) i"
      using u(2) i(1) t(5) by (auto simp: cull_inv_def)
    then show ?thesis using nth [of j] cov [of j] g(1) vlen by (metis nth_mem)
  qed
  moreover have "Some j \<in> set (top_rated s)" if "j < length (queue_buf v)" "q_favored (queue_buf v ! j)" for j
    using that u(2) nth [of j] g(1) vlen t(6) by (simp add: cull_inv_def)
  moreover have "\<forall>e \<in> set (queue_buf v). \<not> q_disabled e \<longrightarrow> q_fs_redundant e = (\<not> q_favored e)" by (auto simp: v_def)
  moreover have "\<not> score_changed v" using sq(1) by (simp add: v_def same_queue_def t_def)
  ultimately show ?thesis using run t(1) by (intro exI [of _ v]) (simp add: v_def)
qed

text \<open>The first pending entry of the loop stays the one that is taken next.\<close>

lemma count_loop_keeps:
  assumes "\<And>j s s'. body j s = Inr s' \<Longrightarrow> P s \<Longrightarrow> P s'"
  shows "count_loop n k body s = Inr s' \<Longrightarrow> P s \<Longrightarrow> P s'"
proof (induction n arbitrary: k s)
  case (Suc n)
  then obtain t where "body k s = Inr t" "count_loop n (Suc k) body t = Inr s'" by (auto simp: ebind_Inr_iff)
  then show ?case using assms Suc by blast
qed simp

lemma cull_step_keeps_smallest:
  "cull_step i r = Inr r' \<Longrightarrow> smallest_favored (snd r) = int m \<Longrightarrow> smallest_favored (snd r') = int m"
  by (cases r) (auto simp: cull_step_def make_favored_def ebind_Inr_iff Let_def set_entry_def split: if_splits option.splits)

lemma cull_queue_smallest:
  assumes r: "rated s" and c: "score_changed s" "\<not> non_instrumented_mode s" "cull_queue s = Inr s'"
    and j: "0 < length (trace_bits s)" "top_rated s ! 0 = Some j" "\<not> q_was_fuzzed (queue_buf s ! j)"
  shows "smallest_favored s' = int (q_id (queue_buf s ! j))"
proof -
  have "rated_as (top_rated s) s" using r by (simp add: rated_def)
  note R = rated_asD [OF this]
  let ?n = "length (trace_bits s)"
  define t where "t = s\<lparr>score_changed := False, queued_favored := 0, pending_favored := 0,
    queue_buf := map (\<lambda>e. e\<lparr>q_favored := False\<rparr>) (queue_buf s), smallest_favored := -1\<rparr>"
  obtain temp u where u: "count_loop ?n 0 cull_step (replicate (?n div 8) 255, t) = Inr (temp, u)" "smallest_favored s' = smallest_favored u"
    using c by (auto simp: cull_queue_def t_def ebind_Inr_iff Let_def)
  obtain k where k: "?n = Suc k" using j(1) by (cases ?n) auto
  obtain v where v: "cull_step 0 (replicate (?n div 8) 255, t) = Inr v" "count_loop k 1 cull_step v = Inr (temp, u)"
    using u(1) unfolding k by (auto simp: ebind_Inr_iff)
  have jl: "j < length (queue_buf s)" "0 < ?n div 8" using R(6) [OF j(1,2)] dvd_imp_le [OF R(2) j(1)] by (simp_all add: div_greater_zero_iff)
  obtain m where m: "q_trace_mini (queue_buf s ! j) = Some m" using R(6) [OF j(1,2)] by (auto simp: covers_def)
  have ne: "top_rated s \<noteq> []" using R(4) j(1) by auto
  have f: "load8 (replicate (?n div 8) 255) 0 = Inr (255 :: u8)" using jl(2) by (simp add: mem_ok)
  have "cull_step 0 (replicate (?n div 8) 255, t) =
      ebind (cover_edges m (replicate (?n div 8) 255)) (\<lambda>temp. ebind (make_favored j t) (\<lambda>s. Inr (temp, s)))"
    using ne j(2) jl(1) m f by (simp add: cull_step_def t_def entry_def)
  then have "make_favored j t = Inr (snd v)" using v(1)
    by (cases "cover_edges m (replicate (?n div 8) 255)"; cases "make_favored j t") auto
  moreover have "\<exists>w. make_favored j t = Inr w \<and> smallest_favored w = int (q_id (queue_buf s ! j))"
    using j(3) jl(1) by (simp add: t_def make_favored_def entry_def set_entry_def Let_def)
  ultimately have "smallest_favored (snd v) = int (q_id (queue_buf s ! j))" by auto
  then show ?thesis using count_loop_keeps [where P = "\<lambda>r. smallest_favored (snd r) = int (q_id (queue_buf s ! j))", OF cull_step_keeps_smallest v(2)]
    u(2) by simp
qed

section \<open>Properties\<close>

text \<open>Two states for the examples: an empty map, and two entries that hold the edges 1 and 0.\<close>

definition empty_queue :: afl where
  "empty_queue = \<lparr>queue_buf = [], queue_cur = None, queue_top = None, queue_first = None, cur_depth = 0, max_depth = 0,
     queued_items = 0, active_items = 0, pending_not_fuzzed = 0, ready_for_splicing_count = 0, cycles_wo_finds = 0,
     start_time = 0, last_find_time = 0, longest_find_time = 0, cmplog_mode = False, schedule = EXPLORE,
     fixed_seed = False, non_instrumented_mode = False, disable_redundant = False, trace_bits = replicate 8 0,
     n_fuzz = [0], top_rated = replicate 8 None, score_changed = False, reinit_table = False, queued_favored = 0,
     pending_favored = 0, smallest_favored = -1, testcase_scratch = [], splice_scratch = [],
     cache_slots = replicate 4 None, cache_max_size = 1000,
     cache_max_entries = 4, cache_size = 0, cache_max_count = 0, cache_count = 0, cache_smallest_free = 0,
     cache_evictions = 0, cache_do_once = False\<rparr>"

definition one_entry :: afl where
  "one_entry = empty_queue\<lparr>queue_buf := [new_entry [1, 2, 3] 3 False empty_queue], trace_bits := (replicate 8 0)[0 := 1, 7 := 2]\<rparr>"

definition holder :: "nat \<Rightarrow> u8 \<Rightarrow> queue_entry" where
  "holder i m = (new_entry [1, 2, 3] 3 False empty_queue)\<lparr>q_id := i, q_tc_ref := 1, q_trace_mini := Some [m]\<rparr>"

definition two_entries :: afl where
  "two_entries = empty_queue\<lparr>queue_buf := [holder 0 2, holder 1 1], score_changed := True,
     top_rated := [Some 1, Some 0, None, None, None, None, None, None]\<rparr>"

lemma one_entry_rated: "rated one_entry"
  unfolding rated_def rated_as_def Let_def
  by (intro conjI) (simp_all add: refs_ok_def one_entry_def empty_queue_def new_entry_def count_list_0_iff)

lemma two_entries_rated: "rated two_entries"
  unfolding rated_def rated_as_def Let_def
proof (intro conjI allI impI)
  fix j assume "j < length (queue_buf two_entries)"
  then have "j = 0 \<or> j = 1" by (auto simp: two_entries_def empty_queue_def)
  then show "refs_ok (length (trace_bits two_entries)) (top_rated two_entries) j (queue_buf two_entries ! j)"
    by (auto simp: refs_ok_def two_entries_def empty_queue_def holder_def new_entry_def)
next
  fix i j assume i: "i < length (trace_bits two_entries)" "top_rated two_entries ! i = Some j"
  then have "i = 0 \<and> j = 1 \<or> i = 1 \<and> j = 0"
    by (auto simp: two_entries_def empty_queue_def nth_Cons' split: if_splits)
  then show "j < length (queue_buf two_entries)" "covers (queue_buf two_entries ! j) i"
    by (auto simp: two_entries_def empty_queue_def holder_def new_entry_def covers_def edge_bit_def)
qed (simp_all add: two_entries_def empty_queue_def)

text \<open>
  The example: entry 0 holds edge 1, entry 1 edge 0; now entry 0 is rated again with a trace that hits
  both edges and edge 7, of which its compacted trace knows only edge 1.
\<close>

definition rescored :: afl where
  "rescored = two_entries\<lparr>trace_bits := [1, 1, 0, 0, 0, 0, 0, 2]\<rparr>"

lemma rescored_rated: "rated rescored"
  using two_entries_rated by (rule rated_transfer) (simp_all add: rescored_def two_entries_def empty_queue_def)

lemma rescored_stale: "stale 0 rescored = {(0, 0), (0, 7)}"
proof -
  have "i < length (trace_bits rescored) \<and> trace_bits rescored ! i \<noteq> 0 \<and> \<not> edge_bit [2] i \<longleftrightarrow> i = 0 \<or> i = 7" for i
  proof (cases "i < 8")
    case True
    then have "i \<in> {0, 1, 2, 3, 4, 5, 6, 7}" unfolding insert_iff empty_iff by presburger
    then show ?thesis by (elim insertE emptyE) (simp_all add: rescored_def edge_bit_def)
  qed (auto simp: rescored_def)
  moreover have "q_trace_mini (queue_buf rescored ! 0) = Some [2]"
    by (simp add: rescored_def two_entries_def empty_queue_def holder_def)
  ultimately have "stale 0 rescored = {(0, i) |i. i = 0 \<or> i = 7}"
    by (simp add: stale_def)
  then show ?thesis by auto
qed

text \<open>C14: \<open>update_bitmap_score\<close> never faults and takes exactly the hit edges that have no holder or one that is not
  better in both comparisons, and reports whether it took one. The reference counts stay the numbers of the edges won
  and an entry has a compacted trace exactly as long as it has won an edge, also when an entry loses its last edge or takes
  one from itself. The compacted trace of the rated entry is the one that it had, or a new one with exactly the hit
  edges; a winner's compacted trace has the edges it has won, but for the exceptions \<open>D\<close> there were before and the hit
  edges that an old compacted trace of the rated entry lacks (\<open>stale\<close>, empty for an entry without one): without these the
  full invariant \<open>rated\<close> is kept.\<close>

theorem edges_taken_exactly:
  assumes "rated_but D s" "q < length (queue_buf s)" "n_fuzz_ok s"
  shows "\<exists>s'. update_bitmap_score q s = Inr s' \<and> framed s s' \<and> rated_but (D \<union> stale q s) s' \<and>
    (rated s \<and> stale q s = {} \<longrightarrow> rated s') \<and>
    (\<forall>m. q_trace_mini (queue_buf s' ! q) = Some m \<longrightarrow> q_trace_mini (queue_buf s ! q) = Some m \<or>
       (\<forall>i<length (trace_bits s). edge_bit m i \<longleftrightarrow> trace_bits s ! i \<noteq> 0)) \<and>
    (\<forall>i<length (trace_bits s). top_rated s' ! i = winner s q i) \<and>
    (score_changed s' \<longleftrightarrow> score_changed s \<or> (\<exists>i<length (trace_bits s). trace_bits s ! i \<noteq> 0 \<and> wins s q (top_rated s ! i)))"
proof -
  let ?D = "D \<union> stale q s"
  have "rated_but ?D s" using assms(1) by (rule rated_but_mono) simp
  from update_bitmap_score_but [OF this in_step_but_stale assms(2,3)] obtain s' where
    s': "update_bitmap_score q s = Inr s'" "rated_but ?D s'" "framed s s'"
      "in_step_but ?D (q_trace_mini (queue_buf s ! q)) q s'"
      "\<forall>i<length (trace_bits s). top_rated s' ! i = winner s q i"
      "score_changed s' \<longleftrightarrow> score_changed s \<or> (\<exists>i<length (trace_bits s). trace_bits s ! i \<noteq> 0 \<and> wins s q (top_rated s ! i))" by blast
  have "rated s'" if "rated s" "stale q s = {}"
  proof -
    have "in_step q s" using that(2) unfolding stale_def in_step_def by blast
    from update_bitmap_score_ok [OF that(1) this assms(2,3)] s'(1) show ?thesis by auto
  qed
  moreover have "\<forall>m. q_trace_mini (queue_buf s' ! q) = Some m \<longrightarrow> q_trace_mini (queue_buf s ! q) = Some m \<or>
       (\<forall>i<length (trace_bits s). edge_bit m i \<longleftrightarrow> trace_bits s ! i \<noteq> 0)"
    using s'(4) framed_same(1) [OF s'(3)] by (simp add: in_step_but_def)
  ultimately show ?thesis using s' by blast
qed

theorem edges_taken_exactly_witness:
  "\<exists>s'. update_bitmap_score 0 rescored = Inr s' \<and> rated_but {(0, 0), (0, 7)} s' \<and> top_rated s' ! 0 = Some 0 \<and>
     top_rated s' ! 1 = Some 0 \<and> top_rated s' ! 2 = None \<and> top_rated s' ! 7 = Some 0 \<and> score_changed s'"
proof -
  have "q_n_fuzz_entry (holder i m) = 0" for i m by (simp add: holder_def new_entry_def)
  then have nf: "n_fuzz_ok rescored" by (simp add: n_fuzz_ok_def rescored_def two_entries_def empty_queue_def)
  have q: "0 < length (queue_buf rescored)" by (simp add: rescored_def two_entries_def empty_queue_def)
  have n: "length (trace_bits rescored) = 8" by (simp add: rescored_def)
  from edges_taken_exactly [OF rated_imp_but [OF rescored_rated, of "{}"] q nf] obtain s' where
    s': "update_bitmap_score 0 rescored = Inr s'" "rated_but ({} \<union> stale 0 rescored) s'"
      "\<And>i. i < 8 \<Longrightarrow> top_rated s' ! i = winner rescored 0 i"
      "score_changed s' \<longleftrightarrow> score_changed rescored \<or>
         (\<exists>i<8. trace_bits rescored ! i \<noteq> 0 \<and> wins rescored 0 (top_rated rescored ! i))"
    unfolding n by blast
  have "winner rescored 0 0 = Some 0" "winner rescored 0 1 = Some 0" "winner rescored 0 2 = None" "winner rescored 0 7 = Some 0"
    by (simp_all add: winner_def wins_def p2_of_def fuzz_p2_def fav_factor_def rescored_def two_entries_def empty_queue_def holder_def new_entry_def)
  moreover have "score_changed rescored" by (simp add: rescored_def two_entries_def)
  ultimately show ?thesis using s'(1,2,4) s'(3) [of 0] s'(3) [of 1] s'(3) [of 2] s'(3) [of 7] by (auto simp: rescored_stale)
qed



text \<open>\<open>smallest_favored\<close> is not the smallest number of a favored entry but that of the winner of the first edge,
  when this has not been fuzzed. In the example the entries 0 and 1 are favored and pending, and the fuzzer is sent to 1.\<close>

theorem smallest_favored_is_first:
  assumes "rated s" "length (queue_buf s) < 4294967296" "score_changed s" "\<not> non_instrumented_mode s"
    and "0 < length (trace_bits s)" "top_rated s ! 0 = Some j" "\<not> q_was_fuzzed (queue_buf s ! j)"
  shows "\<exists>s'. cull_queue s = Inr s' \<and> smallest_favored s' = int (q_id (queue_buf s ! j))"
  using cull_queue_ok [OF assms(1-4)] cull_queue_smallest [OF assms(1,3,4) _ assms(5-7)] by blast

theorem smallest_favored_is_first_witness:
  "\<exists>s'. cull_queue two_entries = Inr s' \<and> smallest_favored s' = 1 \<and> q_id (queue_buf two_entries ! 0) = 0 \<and>
     (\<exists>e \<in> set (queue_buf s'). q_favored e \<and> covers e 1) \<and> \<not> covers (queue_buf two_entries ! 1) 1"
proof -
  note defs = two_entries_def empty_queue_def holder_def new_entry_def
  have "\<exists>s'. cull_queue two_entries = Inr s' \<and> smallest_favored s' = int (q_id (queue_buf two_entries ! 1))"
    by (rule smallest_favored_is_first [OF two_entries_rated]) (simp_all add: defs)
  moreover have at: "1 < length (trace_bits two_entries)" "top_rated two_entries ! 1 \<noteq> None" "length (queue_buf two_entries) < 4294967296"
    "score_changed two_entries" "\<not> non_instrumented_mode two_entries" by (simp_all add: defs)
  moreover from cull_queue_ok [OF two_entries_rated at(3-5)] at(1,2) obtain s' where
    "cull_queue two_entries = Inr s'" "\<exists>e \<in> set (queue_buf s'). q_favored e \<and> covers e 1" by blast
  moreover have "q_id (queue_buf two_entries ! 0) = 0" "q_id (queue_buf two_entries ! 1) = 1" "\<not> covers (queue_buf two_entries ! 1) 1"
    by (simp_all add: defs covers_def edge_bit_def)
  ultimately show ?thesis by auto
qed

end
