(* ===== verification/AFL_Cache.thy ===== *)
theory AFL_Cache
  imports AFL_Queue
begin

text \<open>
  The cache of test cases in \<^verbatim>\<open>src/afl-fuzz-queue.c\<close>: \<open>queue_testcase_get\<close> loads a test case and evicts
  others at random when the cache is full, \<open>queue_testcase_store_mem\<close> puts a new one in, and the two
  \<open>retake\<close> functions refresh it after trimming. \<open>rb\<close> is \<open>rand_below\<close> and \<open>'r\<close> its state; \<open>ok\<close> says whether
  an allocation succeeds. Files can be opened and read unless they are too short.
\<close>

section \<open>Reading a file\<close>

text \<open>\<open>ck_read\<close> ends the process when the file has fewer bytes.\<close>

definition ck_read :: "bytes \<Rightarrow> bytes \<Rightarrow> nat \<Rightarrow> bytes res" where
  "ck_read file buf len = (if length file < len then Inl Fatal else memcpy buf 0 file 0 len)"

text \<open>\<open>realloc\<close> keeps the common part; the bytes behind it are not initialised (here 0, they are always overwritten).\<close>

definition resize :: "nat \<Rightarrow> bytes \<Rightarrow> bytes" where
  "resize n b = take n b @ replicate (n - length b) 0"

section \<open>Refreshing\<close>

definition add_size :: "nat \<Rightarrow> nat \<Rightarrow> afl \<Rightarrow> afl" where
  "add_size len old_len s = s\<lparr>cache_size := cache_size s + word_of_nat (u32_sub len old_len)\<rparr>"

definition queue_testcase_retake :: "bool \<Rightarrow> nat \<Rightarrow> nat \<Rightarrow> afl \<Rightarrow> afl res" where
  "queue_testcase_retake ok q old_len s =
     ebind (entry s q) (\<lambda>e.
     case q_testcase_buf e of
       None \<Rightarrow> Inr s
     | Some buf \<Rightarrow>
         let len = q_len e; again = (len > old_len \<or> len < u32_add old_len 1024);
             s = (if again then add_size len old_len s else s) in
         if again \<and> \<not> ok then Inl Fatal
         else ebind (ck_read (q_file e) (if again then resize len buf else buf) len) (\<lambda>buf.
           Inr (set_entry q (e\<lparr>q_testcase_buf := Some buf\<rparr>) s)))"

text \<open>\<open>in_buf\<close> is \<open>None\<close> when the argument is the cached buffer itself.\<close>

definition queue_testcase_retake_mem :: "bool \<Rightarrow> nat \<Rightarrow> bytes option \<Rightarrow> nat \<Rightarrow> nat \<Rightarrow> afl \<Rightarrow> afl res" where
  "queue_testcase_retake_mem ok q in_buf len old_len s =
     ebind (entry s q) (\<lambda>e.
     case q_testcase_buf e of
       None \<Rightarrow> Inr s
     | Some buf \<Rightarrow>
         (case in_buf of
            None \<Rightarrow> Inr s
          | Some data \<Rightarrow>
              let again = (len < u32_add old_len 1024 \<and> ok);
                  s = (if again then add_size len old_len s else s);
                  buf = (if again then resize len buf else buf) in
              ebind (memcpy buf 0 data 0 len) (\<lambda>buf. Inr (set_entry q (e\<lparr>q_testcase_buf := Some buf\<rparr>) s))))"

section \<open>Eviction\<close>

definition cache_full :: "nat \<Rightarrow> afl \<Rightarrow> bool" where
  "cache_full len s \<longleftrightarrow>
     cache_size s + word_of_nat len \<ge> cache_max_size s \<and> cache_count s > 1 \<or> cache_count s \<ge> u32_sub (cache_max_entries s) 1"

text \<open>
  The number of entries is learned once, when the cache is filled by size. The block is
  reallocated to one slot more; a new slot holds \<open>junk\<close>.
\<close>

definition learn_entries :: "nat option \<Rightarrow> nat \<Rightarrow> afl \<Rightarrow> afl" where
  "learn_entries junk len s =
     (if cache_size s + word_of_nat len \<ge> cache_max_size s \<and>
         (cache_count s < cache_max_entries s \<and> cache_max_count s < cache_max_entries s) \<and> \<not> cache_do_once s
      then
        let n = (if cache_max_count s > cache_count s then u32_add (cache_max_count s) 1 else u32_add (cache_count s) 1) in
        s\<lparr>cache_max_entries := n, cache_do_once := True,
          cache_slots := take (n + 1) (cache_slots s) @ replicate (n + 1 - length (cache_slots s)) junk\<rparr>
      else s)"

definition pick_slot :: "(nat \<Rightarrow> 'r \<Rightarrow> (nat \<times> 'r) res) \<Rightarrow> afl \<Rightarrow> 'r \<Rightarrow> (nat \<times> 'r) res" where
  "pick_slot rb s = run_loop (\<lambda>r.
     ebind (rb (cache_max_count s) r) (\<lambda>(tid, r).
       if \<not> tid < length (cache_slots s) then Inl Fault
       else if cache_slots s ! tid = None \<or> cache_slots s ! tid = queue_cur s then Inr (Cont r)
       else Inr (Break (tid, r))))"

definition evict_slot :: "nat \<Rightarrow> afl \<Rightarrow> afl res" where
  "evict_slot tid s =
     (if \<not> tid < length (cache_slots s) then Inl Fault else
      case cache_slots s ! tid of
        None \<Rightarrow> Inl Fault
      | Some j \<Rightarrow> ebind (entry s j) (\<lambda>old.
          Inr ((set_entry j (old\<lparr>q_testcase_buf := None\<rparr>) s)
            \<lparr>cache_size := cache_size s - word_of_nat (q_len old),
             cache_slots := (cache_slots s)[tid := None],
             cache_count := u32_sub (cache_count s) 1,
             cache_evictions := u32_add (cache_evictions s) 1,
             cache_smallest_free := (if tid < cache_smallest_free s then tid else cache_smallest_free s)\<rparr>)))"

definition evict_step :: "(nat \<Rightarrow> 'r \<Rightarrow> (nat \<times> 'r) res) \<Rightarrow> nat option \<Rightarrow> nat \<Rightarrow> nat \<times> 'r \<times> afl \<Rightarrow>
    ((nat \<times> 'r \<times> afl, nat \<times> 'r \<times> afl) ctl) res" where
  "evict_step rb junk len = (\<lambda>(tid, r, s).
     if \<not> cache_full len s then Inr (Break (tid, r, s))
     else
       let s = learn_entries junk len s in
       ebind (pick_slot rb s r) (\<lambda>(tid, r). ebind (evict_slot tid s) (\<lambda>s. Inr (Cont (tid, r, s)))))"

section \<open>A free slot, and the registration\<close>

definition free_slot :: "afl \<Rightarrow> nat \<Rightarrow> nat res" where
  "free_slot s = run_loop (\<lambda>tid.
     if \<not> tid < length (cache_slots s) then Inl Fault
     else if cache_slots s ! tid \<noteq> None then Inr (Cont (u32_add tid 1)) else Inr (Break tid))"

definition register_cached :: "nat \<Rightarrow> nat \<Rightarrow> nat \<Rightarrow> afl \<Rightarrow> afl" where
  "register_cached q len tid s =
     (let s = s\<lparr>cache_slots := (cache_slots s)[tid := Some q], cache_size := cache_size s + word_of_nat len,
                cache_count := u32_add (cache_count s) 1\<rparr> in
      if tid \<ge> cache_max_count s then s\<lparr>cache_max_count := u32_add tid 1\<rparr>
      else if tid = cache_smallest_free s then s\<lparr>cache_smallest_free := u32_add tid 1\<rparr>
      else s)"

section \<open>The two entry points\<close>

text \<open>A test case that is not cached goes to one of two scratch buffers.\<close>

definition load_uncached :: "bool \<Rightarrow> nat \<Rightarrow> queue_entry \<Rightarrow> afl \<Rightarrow> (bytes \<times> afl) res" where
  "load_uncached ok q e s =
     (if \<not> ok then Inl Fatal
      else ebind (ck_read (q_file e) (replicate (q_len e) 0) (q_len e)) (\<lambda>buf.
        Inr (buf, if queue_cur s = Some q then s\<lparr>testcase_scratch := buf\<rparr> else s\<lparr>splice_scratch := buf\<rparr>)))"

definition queue_testcase_get :: "(nat \<Rightarrow> 'r \<Rightarrow> (nat \<times> 'r) res) \<Rightarrow> bool \<Rightarrow> nat option \<Rightarrow> nat \<Rightarrow> 'r \<times> afl \<Rightarrow>
    (bytes \<times> 'r \<times> afl) res" where
  "queue_testcase_get rb ok junk q = (\<lambda>(r, s).
     ebind (entry s q) (\<lambda>e.
     case q_testcase_buf e of
       Some buf \<Rightarrow> Inr (buf, r, s)
     | None \<Rightarrow>
         let len = q_len e in
         if q_light e \<or> cache_max_size s = 0 then
           ebind (load_uncached ok q e s) (\<lambda>(buf, s). Inr (buf, r, s))
         else ebind (run_loop (evict_step rb junk len) (cache_max_count s, r, s)) (\<lambda>(tid, r, s).
              let tid = (if tid \<ge> cache_max_entries s then cache_smallest_free s else tid) in
              ebind (free_slot s tid) (\<lambda>tid.
              if \<not> ok then Inl Fatal
              else ebind (ck_read (q_file e) (replicate len 0) len) (\<lambda>buf. ebind (entry s q) (\<lambda>e.
                Inr (buf, r, register_cached q len tid (set_entry q (e\<lparr>q_testcase_buf := Some buf\<rparr>) s))))))))"

definition queue_testcase_store_mem :: "bool \<Rightarrow> nat \<Rightarrow> bytes \<Rightarrow> afl \<Rightarrow> afl res" where
  "queue_testcase_store_mem ok q mem s =
     ebind (entry s q) (\<lambda>e.
     let len = q_len e in
     if q_light e \<or> cache_size s + word_of_nat len \<ge> cache_max_size s \<or> cache_count s \<ge> u32_sub (cache_max_entries s) 1
     then Inr s
     else
       let tid = (if cache_max_count s \<ge> cache_max_entries s then cache_smallest_free s else cache_max_count s) in
       ebind (free_slot s tid) (\<lambda>tid.
       if \<not> ok then Inl Fatal
       else ebind (memcpy (replicate len 0) 0 mem 0 len) (\<lambda>buf.
         Inr (register_cached q len tid (set_entry q (e\<lparr>q_testcase_buf := Some buf\<rparr>) s)))))"

end
