(* ===== verification/AFL_CacheProps.thy ===== *)
theory AFL_CacheProps
  imports AFL_Cache AFL_Rng
begin

text \<open>
  The invariant \<open>cache_ok\<close> of the cache: the slots and the buffers of the entries tell the same, the
  counters are exact, no free slot lies below \<open>cache_smallest_free\<close> and no used one at or above
  \<open>cache_max_count\<close>, and a cached buffer holds the file. Under it a load never faults with any
  generator of the interface \<open>rng_source\<close>, and the eviction loop ends when the generator draws, as often
  as there are entries to evict, every slot sooner or later (\<open>serves\<close>).
\<close>

section \<open>The invariant\<close>

definition slots :: "afl \<Rightarrow> nat option list" where
  "slots s = take (cache_max_entries s) (cache_slots s)"

definition charge :: "queue_entry list \<Rightarrow> nat option \<Rightarrow> nat" where
  "charge q x = (case x of None \<Rightarrow> 0 | Some j \<Rightarrow> q_len (q ! j))"

definition used :: "nat option list \<Rightarrow> nat" where
  "used l = length (filter (\<lambda>x. x \<noteq> None) l)"

definition entry_ok :: "queue_entry \<Rightarrow> bool" where
  "entry_ok e \<longleftrightarrow> q_len e \<le> length (q_file e) \<and> (\<forall>b. q_testcase_buf e = Some b \<longrightarrow> b = take (q_len e) (q_file e))"

definition cache_ok :: "afl \<Rightarrow> bool" where
  "cache_ok s \<longleftrightarrow>
     3 \<le> cache_max_entries s \<and> cache_max_entries s < 2 ^ 32 - 1 \<and> cache_max_entries s \<le> length (cache_slots s) \<and>
     cache_max_count s \<le> cache_max_entries s \<and> (\<forall>i<cache_max_entries s. slots s ! i \<noteq> None \<longrightarrow> i < cache_max_count s) \<and>
     (\<forall>i<cache_max_entries s. slots s ! i = None \<longrightarrow> cache_smallest_free s \<le> i) \<and>
     (\<forall>j. Some j \<in> set (slots s) \<longrightarrow> j < length (queue_buf s)) \<and>
     (\<forall>j<length (queue_buf s). count_list (slots s) (Some j) = of_bool (q_testcase_buf (queue_buf s ! j) \<noteq> None)) \<and>
     cache_count s = used (slots s) \<and> cache_count s < cache_max_entries s \<and>
     cache_size s = word_of_nat (sum_list (map (charge (queue_buf s)) (slots s))) \<and>
     (\<forall>e \<in> set (queue_buf s). entry_ok e)"

lemma cache_okD:
  assumes "cache_ok s"
  shows "3 \<le> cache_max_entries s" "cache_max_entries s < 4294967295" "cache_max_entries s \<le> length (cache_slots s)"
    "cache_max_count s \<le> cache_max_entries s"
    "\<And>i. i < cache_max_entries s \<Longrightarrow> slots s ! i \<noteq> None \<Longrightarrow> i < cache_max_count s"
    "\<And>i. i < cache_max_entries s \<Longrightarrow> slots s ! i = None \<Longrightarrow> cache_smallest_free s \<le> i"
    "\<And>j. Some j \<in> set (slots s) \<Longrightarrow> j < length (queue_buf s)"
    "\<And>j. j < length (queue_buf s) \<Longrightarrow> count_list (slots s) (Some j) = of_bool (q_testcase_buf (queue_buf s ! j) \<noteq> None)"
    "cache_count s = used (slots s)" "cache_count s < cache_max_entries s"
    "cache_size s = word_of_nat (sum_list (map (charge (queue_buf s)) (slots s)))"
    "\<And>e. e \<in> set (queue_buf s) \<Longrightarrow> entry_ok e" "length (slots s) = cache_max_entries s"
  using assms by (auto simp: cache_ok_def slots_def)

text \<open>What the cache leaves alone.\<close>

definition unbuf :: "queue_entry \<Rightarrow> queue_entry" where
  "unbuf e = e\<lparr>q_testcase_buf := None\<rparr>"

definition kept_queue :: "afl \<Rightarrow> afl \<Rightarrow> bool" where
  "kept_queue s t \<longleftrightarrow> map unbuf (queue_buf t) = map unbuf (queue_buf s) \<and> queue_cur t = queue_cur s \<and>
     cache_max_size t = cache_max_size s \<and>
     (\<forall>c b. queue_cur s = Some c \<longrightarrow> c < length (queue_buf s) \<longrightarrow> q_testcase_buf (queue_buf s ! c) = Some b \<longrightarrow> q_testcase_buf (queue_buf t ! c) = Some b)"

definition only_evicts :: "afl \<Rightarrow> afl \<Rightarrow> bool" where
  "only_evicts s t \<longleftrightarrow> length (queue_buf t) = length (queue_buf s) \<and>
     (\<forall>j<length (queue_buf s). q_testcase_buf (queue_buf s ! j) = None \<longrightarrow> q_testcase_buf (queue_buf t ! j) = None)"

lemma kept_queue_refl [simp]: "kept_queue s s"
  by (simp add: kept_queue_def)

lemma kept_queue_length: "kept_queue s t \<Longrightarrow> length (queue_buf t) = length (queue_buf s)"
  unfolding kept_queue_def using map_eq_imp_length_eq by blast

lemma kept_queue_trans: "kept_queue s t \<Longrightarrow> kept_queue t u \<Longrightarrow> kept_queue s u"
  using kept_queue_length [of s t] by (auto simp: kept_queue_def)

lemma kept_queue_entry:
  assumes "kept_queue s t" "j < length (queue_buf s)"
  shows "unbuf (queue_buf t ! j) = unbuf (queue_buf s ! j)"
  using assms kept_queue_length [OF assms(1)] by (metis kept_queue_def nth_map)

lemma unbuf_fields:
  assumes "unbuf e' = unbuf e"
  shows "q_len e' = q_len e" "q_file e' = q_file e" "q_light e' = q_light e"
  using arg_cong [OF assms, of q_len] arg_cong [OF assms, of q_file] arg_cong [OF assms, of q_light] by (simp_all add: unbuf_def)

lemma unbuf_id: "unbuf e' = unbuf e \<Longrightarrow> q_testcase_buf e' = q_testcase_buf e \<Longrightarrow> e' = e"
  by (cases e, cases e') (simp add: unbuf_def)

section \<open>Lists of slots\<close>

lemma used_update: "i < length l \<Longrightarrow> used (l[i := y]) + of_bool (l ! i \<noteq> None) = used l + of_bool (y \<noteq> None)"
  unfolding used_def by (rule filter_update)

lemma used_append: "used (a @ b) = used a + used b"
  by (simp add: used_def)

lemma used_none: "(\<And>x. x \<in> set l \<Longrightarrow> x = None) \<Longrightarrow> used l = 0"
  by (auto simp: used_def filter_empty_conv)

lemma used_le: "used l \<le> length l"
  by (simp add: used_def)

lemma used_free: "used l < length l \<Longrightarrow> \<exists>i<length l. l ! i = None"
proof (rule ccontr)
  assume lt: "used l < length l" and "\<not> ?thesis"
  then have "\<forall>x\<in>set l. x \<noteq> None" by (auto simp: in_set_conv_nth)
  then have "filter (\<lambda>x. x \<noteq> None) l = l" by simp
  with lt show False by (simp add: used_def)
qed

lemma used_other:
  assumes "2 \<le> used l" "\<And>j. count_list l (Some j) \<le> 1"
  shows "\<exists>i<length l. l ! i \<noteq> None \<and> l ! i \<noteq> x"
proof (rule ccontr)
  assume no: "\<not> ?thesis"
  then have all: "y = x" if "y \<in> set l" "y \<noteq> None" for y using that by (metis in_set_conv_nth)
  have "used l \<le> (case x of None \<Rightarrow> 0 | Some j \<Rightarrow> count_list l (Some j))" using all
  proof (induction l)
    case (Cons y l)
    have IH: "used l \<le> (case x of None \<Rightarrow> 0 | Some j \<Rightarrow> count_list l (Some j))" using Cons by simp
    show ?case
    proof (cases y)
      case (Some k)
      then have "x = Some k" using Cons.prems [of y] by simp
      then show ?thesis using IH Some by (simp add: used_def)
    qed (use IH in \<open>auto simp: used_def split: option.splits\<close>)
  qed (simp add: used_def)
  moreover have "(case x of None \<Rightarrow> 0 | Some j \<Rightarrow> count_list l (Some j)) \<le> 1" using assms(2) by (cases x) auto
  ultimately show False using assms(1) by linarith
qed

lemma sum_slots_update:
  assumes "i < length l"
  shows "sum_list (map f (l[i := y])) + f (l ! i) = sum_list (map f l) + (f y :: nat)"
  using assms
proof (induction l arbitrary: i)
  case (Cons a l)
  show ?case
  proof (cases i)
    case (Suc k)
    then have "sum_list (map f (l[k := y])) + f (l ! k) = sum_list (map f l) + f y" using Cons by simp
    then show ?thesis using Suc by simp
  qed simp
qed simp

lemma charge_cong:
  assumes "map unbuf q' = map unbuf q" "\<And>j. x = Some j \<Longrightarrow> j < length q"
  shows "charge q' x = charge q x"
proof (cases x)
  case (Some j)
  then have j: "j < length q" using assms(2) by simp
  have len: "length q' = length q" using map_eq_imp_length_eq [OF assms(1)] .
  have "unbuf (q' ! j) = unbuf (q ! j)" using nth_map [of j q' unbuf] nth_map [of j q unbuf] assms(1) j len by simp
  from unbuf_fields(1) [OF this] show ?thesis by (simp add: charge_def Some)
qed (simp add: charge_def)

section \<open>The parts of an eviction\<close>

lemma in_drop: "x \<in> set (drop n l) \<Longrightarrow> \<exists>k. n \<le> k \<and> k < length l \<and> x = l ! k"
proof -
  assume "x \<in> set (drop n l)"
  then obtain i where "i < length l - n" "x = drop n l ! i" by (auto simp: in_set_conv_nth)
  then show ?thesis by (intro exI [of _ "n + i"]) auto
qed

lemma used_below:
  assumes "cache_ok s"
  shows "used (slots s) \<le> cache_max_count s"
proof -
  note C = cache_okD [OF assms]
  have "slots s = take (cache_max_count s) (slots s) @ drop (cache_max_count s) (slots s)" by simp
  moreover have "used (drop (cache_max_count s) (slots s)) = 0"
  proof (rule used_none)
    fix x assume "x \<in> set (drop (cache_max_count s) (slots s))"
    then obtain k where k: "cache_max_count s \<le> k" "k < cache_max_entries s" "x = slots s ! k"
      using in_drop [of x "cache_max_count s" "slots s"] C(13) by auto
    then show "x = None" using C(5) [OF k(2)] by (metis not_less)
  qed
  ultimately have "used (slots s) = used (take (cache_max_count s) (slots s))" by (metis used_append add_0_right)
  then show ?thesis using used_le [of "take (cache_max_count s) (slots s)"] by simp
qed

lemma learn_ok:
  assumes s: "cache_ok s" and two: "2 \<le> cache_count s"
  shows "cache_ok (learn_entries junk len s) \<and> kept_queue s (learn_entries junk len s) \<and>
    cache_count (learn_entries junk len s) = cache_count s \<and> cache_max_entries (learn_entries junk len s) \<le> cache_max_entries s \<and>
    only_evicts s (learn_entries junk len s)"
proof (cases "cache_size s + word_of_nat len \<ge> cache_max_size s \<and>
         (cache_count s < cache_max_entries s \<and> cache_max_count s < cache_max_entries s) \<and> \<not> cache_do_once s")
  case False
  then have "learn_entries junk len s = s" unfolding learn_entries_def by (simp only: if_False)
  then show ?thesis using s by (simp add: only_evicts_def)
next
  case True
  note C = cache_okD [OF s]
  let ?n = "cache_max_count s + 1"
  let ?sl = "take (?n + 1) (cache_slots s) @ replicate (?n + 1 - length (cache_slots s)) junk"
  let ?t = "s\<lparr>cache_max_entries := ?n, cache_do_once := True, cache_slots := ?sl\<rparr>"
  have below: "cache_count s \<le> cache_max_count s" using used_below [OF s] C(9) by simp
  then have n: "(if cache_max_count s > cache_count s then u32_add (cache_max_count s) 1 else u32_add (cache_count s) 1) = ?n"
    using True C(2) by auto
  have t: "learn_entries junk len s = ?t" unfolding learn_entries_def Let_def n using True by (simp only: if_True simp_thms)
  have le: "?n \<le> cache_max_entries s" using True by simp
  have sl: "slots ?t = take ?n (slots s)" using le C(3) by (simp add: slots_def min_def)
  define rest where "rest = drop ?n (slots s)"
  have split: "slots s = slots ?t @ rest" by (simp only: sl rest_def append_take_drop_id)
  have none: "x = None" if "x \<in> set rest" for x
  proof -
    from that obtain k where k: "?n \<le> k" "k < cache_max_entries s" "x = slots s ! k"
      using in_drop [of x ?n "slots s"] C(13) by (auto simp: rest_def)
    then show ?thesis using C(5) [OF k(2)] by fastforce
  qed
  have u: "used (slots ?t) = used (slots s)" using used_append [of "slots ?t" rest] used_none [OF none] split by simp
  have cnt: "count_list (slots ?t) (Some j) = count_list (slots s) (Some j)" for j
  proof -
    have "count_list rest (Some j) = 0" using none by (auto simp: count_list_0_iff)
    then show ?thesis by (subst split) simp
  qed
  have sum: "sum_list (map (charge (queue_buf s)) (slots ?t)) = sum_list (map (charge (queue_buf s)) (slots s))"
  proof -
    have "sum_list (map (charge (queue_buf s)) rest) = 0" by (auto simp: charge_def dest!: none)
    then show ?thesis using arg_cong [OF split, of "\<lambda>l. sum_list (map (charge (queue_buf s)) l)"] by simp
  qed
  have nth: "slots ?t ! i = slots s ! i" if "i < ?n" for i unfolding sl using that by simp
  have ent: "j < length (queue_buf s)" if "Some j \<in> set (slots ?t)" for j
    using that C(7) by (subst (asm) sl) (blast dest: in_set_takeD)
  have "cache_ok ?t"
    unfolding cache_ok_def
  proof (intro conjI allI impI ballI)
    show "cache_max_entries ?t \<le> length (cache_slots ?t)" by simp
    show "i < cache_max_count ?t" if "i < cache_max_entries ?t" "slots ?t ! i \<noteq> None" for i
      using that nth [of i] C(5) [of i] le by auto
    show "cache_smallest_free ?t \<le> i" if "i < cache_max_entries ?t" "slots ?t ! i = None" for i
      using that nth [of i] C(6) [of i] le by auto
    show "count_list (slots ?t) (Some j) = of_bool (q_testcase_buf (queue_buf ?t ! j) \<noteq> None)" if "j < length (queue_buf ?t)" for j
      using that C(8) [of j] cnt by simp
  qed (use C below two le u sum ent in auto)
  then show ?thesis using t le by (simp add: kept_queue_def only_evicts_def)
qed

lemma set_entry_fields [simp]:
  "cache_slots (set_entry j e s) = cache_slots s" "cache_max_entries (set_entry j e s) = cache_max_entries s"
  "cache_max_count (set_entry j e s) = cache_max_count s" "cache_count (set_entry j e s) = cache_count s"
  "cache_size (set_entry j e s) = cache_size s" "cache_smallest_free (set_entry j e s) = cache_smallest_free s"
  "queue_cur (set_entry j e s) = queue_cur s" "cache_max_size (set_entry j e s) = cache_max_size s"
  "queue_buf (set_entry j e s) = (queue_buf s)[j := e]" "cache_evictions (set_entry j e s) = cache_evictions s"
  by (simp_all add: set_entry_def)

lemma unbuf_update: "j < length q \<Longrightarrow> unbuf e = unbuf (q ! j) \<Longrightarrow> map unbuf (q[j := e]) = map unbuf q"
  by (simp add: map_update) (metis length_map list_update_id nth_map)

text \<open>One slot changes: what the sums and counts become.\<close>

lemma slots_set: "slots (s\<lparr>cache_slots := (cache_slots s)[i := x]\<rparr>) = (slots s)[i := x]"
  by (simp add: slots_def take_update_swap)

lemma sum_charge_cong:
  assumes "map unbuf q' = map unbuf q" "\<And>j. Some j \<in> set l \<Longrightarrow> j < length q"
  shows "sum_list (map (charge q') l) = sum_list (map (charge q) l)"
proof -
  have "charge q' x = charge q x" if "x \<in> set l" for x using assms(2) that by (intro charge_cong [OF assms(1)]) auto
  then have "map (charge q') l = map (charge q) l" by simp
  then show ?thesis by (rule arg_cong)
qed

lemma evict_slot_ok:
  assumes s: "cache_ok s" and tid: "tid < cache_max_count s" "slots s ! tid = Some j" "Some j \<noteq> queue_cur s"
  shows "\<exists>t. evict_slot tid s = Inr t \<and> cache_ok t \<and> kept_queue s t \<and> cache_count t < cache_count s \<and>
    cache_max_entries t = cache_max_entries s \<and> slots t ! tid = None \<and> only_evicts s t"
proof -
  note C = cache_okD [OF s]
  have tn: "tid < cache_max_entries s" using tid(1) C(4) by simp
  have tl: "tid < length (slots s)" using tn C(13) by simp
  have at: "cache_slots s ! tid = Some j" "tid < length (cache_slots s)" using tid(2) tn C(3) by (simp_all add: slots_def)
  have jl: "j < length (queue_buf s)" using C(7) tid(2) tl by (metis nth_mem)
  let ?e = "(queue_buf s ! j)\<lparr>q_testcase_buf := None\<rparr>"
  let ?q = "(queue_buf s)[j := ?e]" and ?l = "(slots s)[tid := None]"
  have q: "map unbuf ?q = map unbuf (queue_buf s)" by (rule unbuf_update [OF jl]) (simp add: unbuf_def)
  define t where "t = (set_entry j ?e s)\<lparr>cache_size := cache_size s - word_of_nat (q_len (queue_buf s ! j)),
    cache_slots := (cache_slots s)[tid := None], cache_count := u32_sub (cache_count s) 1,
    cache_evictions := u32_add (cache_evictions s) 1,
    cache_smallest_free := (if tid < cache_smallest_free s then tid else cache_smallest_free s)\<rparr>"
  have run: "evict_slot tid s = Inr t" using at jl by (simp add: evict_slot_def entry_def t_def)
  have sl: "slots t = ?l" by (simp add: slots_def t_def take_update_swap)
  have T: "queue_buf t = ?q" "cache_max_entries t = cache_max_entries s" "cache_max_count t = cache_max_count s"
    "queue_cur t = queue_cur s" "cache_max_size t = cache_max_size s" "length (cache_slots t) = length (cache_slots s)"
    "cache_smallest_free t = (if tid < cache_smallest_free s then tid else cache_smallest_free s)"
    by (simp_all add: t_def)
  have us: "used ?l + 1 = used (slots s)" using used_update [OF tl, of None] tid(2) by simp
  have cnt: "cache_count t = used ?l" using us C(9) C(10) C(2) by (simp add: t_def)
  have lt: "used ?l < used (slots s)" using us by simp
  have c: "count_list ?l (Some k) + of_bool (k = j) = count_list (slots s) (Some k)" for k
    using count_list_update [OF tl, of None "Some k"] tid(2) by auto
  have size: "cache_size t = word_of_nat (sum_list (map (charge ?q) ?l))"
  proof -
    have "sum_list (map (charge (queue_buf s)) ?l) + q_len (queue_buf s ! j) = sum_list (map (charge (queue_buf s)) (slots s))"
      using sum_slots_update [OF tl, of "charge (queue_buf s)" None] tid(2) by (simp add: charge_def)
    moreover have "sum_list (map (charge ?q) ?l) = sum_list (map (charge (queue_buf s)) ?l)"
      using C(7) by (intro sum_charge_cong [OF q]) (auto dest: set_update_subset_insert [THEN subsetD])
    ultimately have "sum_list (map (charge (queue_buf s)) (slots s)) = sum_list (map (charge ?q) ?l) + q_len (queue_buf s ! j)" by simp
    then show ?thesis by (simp add: t_def C(11))
  qed
  have "cache_ok t"
    unfolding cache_ok_def sl T
  proof (intro conjI allI impI ballI)
    show "i < cache_max_count s" if "i < cache_max_entries s" "?l ! i \<noteq> None" for i
      using that C(5) [of i] tl by (cases "i = tid") auto
    show "(if tid < cache_smallest_free s then tid else cache_smallest_free s) \<le> i" if "i < cache_max_entries s" "?l ! i = None" for i
      using that C(6) [of i] tl by (cases "i = tid") auto
    show "k < length ?q" if "Some k \<in> set ?l" for k
      using that C(7) by (auto dest: set_update_subset_insert [THEN subsetD])
    show "count_list ?l (Some k) = of_bool (q_testcase_buf (?q ! k) \<noteq> None)" if "k < length ?q" for k
      using that c [of k] C(8) [of k] by (cases "k = j"; cases "q_testcase_buf (queue_buf s ! j)") auto
    show "entry_ok e" if "e \<in> set ?q" for e
      using that C(12) [of "queue_buf s ! j"] C(12) [of e] jl
      by (auto simp: entry_ok_def dest!: set_update_subset_insert [THEN subsetD])
  qed (use C cnt lt size in auto)
  moreover have "kept_queue s t" using q tid(3) T by (auto simp: kept_queue_def)
  moreover have "only_evicts s t" using T(1) jl by (auto simp: only_evicts_def nth_list_update)
  ultimately show ?thesis using run lt cnt C(9) sl tl T(2) by auto
qed

section \<open>The generator and the loops\<close>

text \<open>
  \<open>draws_to rb n T r x r'\<close>: from the state \<open>r\<close> the first value in \<open>T\<close> that the generator draws below
  \<open>n\<close> is \<open>x\<close>, and it leaves the state \<open>r'\<close>. \<open>serves rb n k r\<close>: for \<open>k\<close> sets of slots in turn it draws a slot of the
  set. Both speak of one state of the generator, which need not serve forever.
\<close>

inductive draws_to :: "(nat \<Rightarrow> 'r \<Rightarrow> (nat \<times> 'r) res) \<Rightarrow> nat \<Rightarrow> nat set \<Rightarrow> 'r \<Rightarrow> nat \<Rightarrow> 'r \<Rightarrow> bool" for rb n T where
  hit: "rb n r = Inr (x, r') \<Longrightarrow> x \<in> T \<Longrightarrow> draws_to rb n T r x r'"
| miss: "rb n r = Inr (y, r') \<Longrightarrow> y < n \<Longrightarrow> y \<notin> T \<Longrightarrow> draws_to rb n T r' x r'' \<Longrightarrow> draws_to rb n T r x r''"

primrec serves :: "(nat \<Rightarrow> 'r \<Rightarrow> (nat \<times> 'r) res) \<Rightarrow> nat \<Rightarrow> nat \<Rightarrow> 'r \<Rightarrow> bool" where
  "serves rb n 0 r = True"
| "serves rb n (Suc k) r = (\<forall>T. T \<noteq> {} \<longrightarrow> T \<subseteq> {..<n} \<longrightarrow> (\<exists>x r'. draws_to rb n T r x r' \<and> serves rb n k r'))"

lemma serves_Suc: "serves rb n (Suc k) r \<Longrightarrow> serves rb n k r"
proof (induction k arbitrary: r)
  case (Suc k)
  show ?case unfolding serves.simps(2) [of rb n k]
  proof (intro allI impI)
    fix T assume "T \<noteq> {}" "T \<subseteq> {..<n}"
    with Suc.prems obtain x r' where "draws_to rb n T r x r'" "serves rb n (Suc k) r'"
      unfolding serves.simps(2) [of rb n "Suc k"] by blast
    with Suc.IH show "\<exists>x r'. draws_to rb n T r x r' \<and> serves rb n k r'" by blast
  qed
qed simp

lemma serves_le: "j \<le> k \<Longrightarrow> serves rb n k r \<Longrightarrow> serves rb n j r"
  by (induction k rule: dec_induct) (blast dest: serves_Suc)+

definition evictable :: "afl \<Rightarrow> nat set" where
  "evictable s = {tid. tid < cache_max_count s \<and> slots s ! tid \<noteq> None \<and> slots s ! tid \<noteq> queue_cur s}"

lemma slots_nth: "i < cache_max_entries s \<Longrightarrow> cache_max_entries s \<le> length (cache_slots s) \<Longrightarrow> cache_slots s ! i = slots s ! i"
  by (simp add: slots_def)

lemma pick_slot_returns:
  assumes s: "cache_ok s"
  shows "draws_to rb (cache_max_count s) (evictable s) r x r' \<Longrightarrow> pick_slot rb s r = Inr (x, r') \<and> x \<in> evictable s"
proof (induction rule: draws_to.induct)
  case (hit r x r')
  note C = cache_okD [OF s]
  have x: "x < cache_max_entries s" "slots s ! x \<noteq> None" "slots s ! x \<noteq> queue_cur s" using hit(2) C(4) by (auto simp: evictable_def)
  then have "pick_slot rb s r = Inr (x, r')"
    unfolding pick_slot_def using hit(1) slots_nth [OF x(1) C(3)] C(3) by (intro run_loop_Break) simp
  then show ?case using hit(2) by blast
next
  case (miss r y r' x r'')
  note C = cache_okD [OF s]
  have y: "y < cache_max_entries s" "slots s ! y = None \<or> slots s ! y = queue_cur s"
    using miss(2,3) C(4) by (auto simp: evictable_def)
  then have "pick_slot rb s r = pick_slot rb s r'"
    unfolding pick_slot_def using miss(1) slots_nth [OF y(1) C(3)] C(3) by (intro run_loop_Cont) simp
  then show ?case using miss(5) by simp
qed

text \<open>Any generator of the interface: the loop may go on forever, but it ends with a slot to evict only.\<close>

context rng_source
begin

lemma pick_slot_safe:
  assumes s: "cache_ok s"
  shows "safe (pick_slot rb s r) (\<lambda>(x, r'). x \<in> evictable s)"
  unfolding pick_slot_def
proof (rule run_loop_safe [where I = "\<lambda>_. True"])
  fix r
  note C = cache_okD [OF s]
  have at: "x < length (cache_slots s)" "cache_slots s ! x = slots s ! x" if "x < cache_max_count s \<or> cache_max_count s = 0 \<and> x = 0" for x
    using that C(1,3,4) by (auto simp: slots_nth)
  have none: "slots s ! 0 = None" if "cache_max_count s = 0" using C(1) C(5) [of 0] that by (cases "slots s ! 0") auto
  show "safe (ebind (rb (cache_max_count s) r) (\<lambda>(tid, r).
       if \<not> tid < length (cache_slots s) then Inl Fault
       else if cache_slots s ! tid = None \<or> cache_slots s ! tid = queue_cur s then Inr (Cont r)
       else Inr (Break (tid, r)))) (\<lambda>c. case c of Break (x, r') \<Rightarrow> x \<in> evictable s | Cont _ \<Rightarrow> True)"
    by (rule rb_bind) (use at none in \<open>auto simp: evictable_def\<close>)
qed simp

end

lemma evictable_nonempty:
  assumes s: "cache_ok s" and two: "2 \<le> cache_count s"
  shows "evictable s \<noteq> {}"
proof -
  note C = cache_okD [OF s]
  have "count_list (slots s) (Some j) \<le> 1" for j
    using C(7) [of j] C(8) [of j] by (cases "Some j \<in> set (slots s)") (auto simp: count_list_0_iff)
  then obtain i where "i < length (slots s)" "slots s ! i \<noteq> None" "slots s ! i \<noteq> queue_cur s"
    using used_other [of "slots s" "queue_cur s"] two C(9) by auto
  then show ?thesis using C(5) [of i] C(13) by (auto simp: evictable_def)
qed

lemma cache_full_two: "cache_ok s \<Longrightarrow> cache_full len s \<Longrightarrow> 2 \<le> cache_count s"
  using cache_okD(1,2) [of s] by (auto simp: cache_full_def)

text \<open>The state of the eviction loop.\<close>

definition evicting :: "afl \<Rightarrow> nat \<times> 'r \<times> afl \<Rightarrow> bool" where
  "evicting s = (\<lambda>(tid, r, t). cache_ok t \<and> kept_queue s t \<and> only_evicts s t \<and> cache_max_entries t \<le> cache_max_entries s \<and>
     (tid < cache_max_entries t \<longrightarrow> slots t ! tid = None))"

text \<open>One round of the loop, given the slot.\<close>

lemma learn_max_count [simp]: "cache_max_count (learn_entries junk len s) = cache_max_count s"
  by (simp add: learn_entries_def Let_def)

lemma evict_max_count: "evict_slot tid s = Inr t \<Longrightarrow> cache_max_count t = cache_max_count s"
  by (auto simp: evict_slot_def ebind_Inr_iff split: if_splits option.splits)

lemma evict_round:
  assumes I: "evicting s (tid, r, t)" and full: "cache_full len t"
    and x: "x \<in> evictable (learn_entries junk len t)"
  shows "\<exists>v. evict_slot x (learn_entries junk len t) = Inr v \<and> evicting s (x, r', v) \<and> cache_count v < cache_count t \<and>
    cache_max_count v = cache_max_count t"
proof -
  have t: "cache_ok t" "kept_queue s t" "cache_max_entries t \<le> cache_max_entries s" "only_evicts s t" using I by (auto simp: evicting_def)
  have two: "2 \<le> cache_count t" using t(1) full by (rule cache_full_two)
  let ?u = "learn_entries junk len t"
  have u: "cache_ok ?u" "kept_queue t ?u" "cache_count ?u = cache_count t" "cache_max_entries ?u \<le> cache_max_entries t"
    "only_evicts t ?u" using learn_ok [OF t(1) two] by blast+
  obtain j where j: "x < cache_max_count ?u" "slots ?u ! x = Some j" "Some j \<noteq> queue_cur ?u" using x by (auto simp: evictable_def)
  from evict_slot_ok [OF u(1) j] obtain v where v: "evict_slot x ?u = Inr v" "cache_ok v" "kept_queue ?u v"
    "cache_count v < cache_count ?u" "cache_max_entries v = cache_max_entries ?u" "slots v ! x = None" "only_evicts ?u v" by blast
  have "evicting s (x, r', v)"
    using v u t kept_queue_trans [OF kept_queue_trans [OF t(2) u(2)] v(3)] by (simp add: evicting_def only_evicts_def)
  then show ?thesis using v(1,4) u(3) evict_max_count [OF v(1)] by simp
qed

lemma evicting_start: "cache_ok s \<Longrightarrow> evicting s (cache_max_count s, r, s)"
proof -
  assume s: "cache_ok s"
  have "slots s ! cache_max_count s = None" if "cache_max_count s < cache_max_entries s"
    using cache_okD(5) [OF s that] by blast
  then show ?thesis using s by (simp add: evicting_def only_evicts_def)
qed

lemma learned_ok:
  assumes "evicting s (tid, r, t)" "cache_full len t"
  shows "cache_ok (learn_entries junk len t)" "evictable (learn_entries junk len t) \<noteq> {}"
proof -
  have t: "cache_ok t" "2 \<le> cache_count t" using assms cache_full_two by (auto simp: evicting_def)
  show "cache_ok (learn_entries junk len t)" "evictable (learn_entries junk len t) \<noteq> {}"
    using learn_ok [OF t, of junk len] evictable_nonempty t(2) by simp_all
qed

context rng_source
begin

lemma evict_loop_safe:
  assumes s: "cache_ok s"
  shows "safe (run_loop (evict_step rb junk len) (cache_max_count s, r, s))
    (\<lambda>(tid, r', t). evicting s (tid, r', t) \<and> \<not> cache_full len t)"
proof (rule run_loop_safe [where I = "evicting s"])
  fix st :: "nat \<times> 'r \<times> afl" assume I: "evicting s st"
  obtain tid r t where st: "st = (tid, r, t)" using prod_cases3 by blast
  show "safe (evict_step rb junk len st) (\<lambda>c. case c of Break (tid, r', t) \<Rightarrow> evicting s (tid, r', t) \<and> \<not> cache_full len t
      | Cont st' \<Rightarrow> evicting s st')"
  proof (cases "cache_full len t")
    case False
    then show ?thesis using I by (simp add: st evict_step_def)
  next
    case True
    let ?u = "learn_entries junk len t"
    have "safe (ebind (pick_slot rb ?u r) (\<lambda>(x, r). ebind (evict_slot x ?u) (\<lambda>v. Inr (Cont (x, r, v)))))
        (\<lambda>c. case c of Break (tid, r', t) \<Rightarrow> evicting s (tid, r', t) \<and> \<not> cache_full len t | Cont st' \<Rightarrow> evicting s st')"
    proof (rule safe_ebind [OF pick_slot_safe [OF learned_ok(1) [OF I [unfolded st] True]]])
      fix y assume y: "case y of (x, r') \<Rightarrow> x \<in> evictable ?u"
      obtain x r' where y': "y = (x, r')" by fastforce
      from evict_round [OF I [unfolded st] True, of x junk r'] y obtain v where
        "evict_slot x ?u = Inr v" "evicting s (x, r', v)" unfolding y' by auto
      then show "safe (case y of (x, r) \<Rightarrow> ebind (evict_slot x ?u) (\<lambda>v. Inr (Cont (x, r, v))))
        (\<lambda>c. case c of Break (tid, r', t) \<Rightarrow> evicting s (tid, r', t) \<and> \<not> cache_full len t | Cont st' \<Rightarrow> evicting s st')"
        by (simp add: y')
    qed
    then show ?thesis using True by (simp add: st evict_step_def Let_def)
  qed
qed (rule evicting_start [OF s])

end

lemma evict_loop_returns:
  assumes s: "cache_ok s" and serve: "serves rb (cache_max_count s) (cache_count s - 1) r"
  shows "\<exists>a. run_loop (evict_step rb junk len) (cache_max_count s, r, s) = Inr a"
proof -
  define I where "I = (\<lambda>(tid, r, t). evicting s (tid, r, t) \<and> cache_max_count t = cache_max_count s \<and>
    serves rb (cache_max_count s) (cache_count t - 1) r)"
  have "\<exists>a. run_loop (evict_step rb junk len) (cache_max_count s, r, s) = Inr a \<and> True"
  proof (rule run_loop_returns [where I = I and m = "\<lambda>(tid, r, t). cache_count t"], goal_cases)
    case (1 st)
    obtain tid r t where st: "st = (tid, r, t)" using prod_cases3 by blast
    have t: "evicting s (tid, r, t)" "cache_max_count t = cache_max_count s" "serves rb (cache_max_count s) (cache_count t - 1) r"
      using 1 by (simp_all add: st I_def)
    show ?case
    proof (cases "cache_full len t")
      case False
      then show ?thesis by (intro disjI1) (auto simp: st evict_step_def)
    next
      case True
      let ?u = "learn_entries junk len t"
      note L = learned_ok [OF t(1) True, of junk]
      have "cache_count t \<ge> 2" using cache_full_two [OF _ True] t(1) by (simp add: evicting_def)
      then obtain k where k: "cache_count t - 1 = Suc k" by (metis Suc_1 Suc_diff_le Suc_leD diff_Suc_1 le_SucE old.nat.exhaust)
      have "evictable ?u \<subseteq> {..<cache_max_count s}" using t(2) by (auto simp: evictable_def)
      with t(3) L(2) obtain x r' where d: "draws_to rb (cache_max_count s) (evictable ?u) r x r'" "serves rb (cache_max_count s) k r'"
        unfolding k serves.simps by blast
      have p: "pick_slot rb ?u r = Inr (x, r')" "x \<in> evictable ?u" using pick_slot_returns [OF L(1), of rb r x r'] d(1) t(2) by simp_all
      from evict_round [OF t(1) True p(2), of r'] obtain v where v: "evict_slot x ?u = Inr v" "evicting s (x, r', v)"
        "cache_count v < cache_count t" "cache_max_count v = cache_max_count t" by blast
      have "cache_count v - 1 \<le> k" using v(3) k by simp
      then have "I (x, r', v)" using v(2,4) t(2) serves_le d(2) by (simp add: I_def)
      moreover have "evict_step rb junk len st = Inr (Cont (x, r', v))" using True p(1) v(1) by (simp add: st evict_step_def Let_def)
      ultimately show ?thesis using v(3) by (intro disjI2) (simp add: st)
    qed
  qed (use evicting_start [OF s] serve in \<open>simp add: I_def\<close>)
  then show ?thesis by blast
qed

lemma free_slot_returns:
  assumes s: "cache_ok s" and i: "tid \<le> i" "i < cache_max_entries s" "slots s ! i = None"
  shows "\<exists>k. free_slot s tid = Inr k \<and> k < cache_max_entries s \<and> slots s ! k = None"
  unfolding free_slot_def
proof (rule run_loop_returns [where I = "\<lambda>k. k \<le> i" and m = "\<lambda>k. i - k"])
  fix k assume k: "k \<le> i"
  note C = cache_okD [OF s]
  have kn: "k < cache_max_entries s" "k < length (cache_slots s)" using k i(2) C(3) by simp_all
  have at: "cache_slots s ! k = slots s ! k" by (rule slots_nth [OF kn(1) C(3)])
  have add: "u32_add k 1 = Suc k" using kn C(2) by simp
  show "(\<exists>a. (if \<not> k < length (cache_slots s) then Inl Fault else if cache_slots s ! k \<noteq> None then Inr (Cont (u32_add k 1)) else Inr (Break k)) = Inr (Break a) \<and>
        a < cache_max_entries s \<and> slots s ! a = None) \<or>
      (\<exists>k'. (if \<not> k < length (cache_slots s) then Inl Fault else if cache_slots s ! k \<noteq> None then Inr (Cont (u32_add k 1)) else Inr (Break k)) = Inr (Cont k') \<and>
        k' \<le> i \<and> i - k' < i - k)"
  proof (cases "slots s ! k = None")
    case True
    then show ?thesis using kn at by simp
  next
    case False
    then have "k < i" using k i(3) by (metis le_neq_implies_less)
    then show ?thesis using kn at False by (simp add: add [unfolded One_nat_def])
  qed
qed (rule i(1))

lemma register_ok:
  assumes s: "cache_ok s" and q: "q < length (queue_buf s)" "q_testcase_buf (queue_buf s ! q) = None"
    and tid: "tid < cache_max_entries s" "slots s ! tid = None" and room: "cache_count s + 1 < cache_max_entries s"
    and e: "e = queue_buf s ! q" "b = take (q_len e) (q_file e)"
  shows "cache_ok (register_cached q (q_len e) tid (set_entry q (e\<lparr>q_testcase_buf := Some b\<rparr>) s)) \<and>
    kept_queue s (register_cached q (q_len e) tid (set_entry q (e\<lparr>q_testcase_buf := Some b\<rparr>) s))"
proof -
  note C = cache_okD [OF s]
  let ?e = "e\<lparr>q_testcase_buf := Some b\<rparr>"
  let ?q = "(queue_buf s)[q := ?e]" and ?l = "(slots s)[tid := Some q]"
  define t where "t = register_cached q (q_len e) tid (set_entry q ?e s)"
  have tl: "tid < length (slots s)" using tid(1) C(13) by simp
  have qm: "map unbuf ?q = map unbuf (queue_buf s)" by (rule unbuf_update [OF q(1)]) (simp add: unbuf_def e(1))
  have cnt: "u32_add (cache_count s) (Suc 0) = cache_count s + 1" "u32_add tid (Suc 0) = tid + 1"
    "tid = cache_smallest_free s \<Longrightarrow> u32_add (cache_smallest_free s) (Suc 0) = cache_smallest_free s + 1" using room tid(1) C(2) by simp_all
  have T: "queue_buf t = ?q" "slots t = ?l" "cache_max_entries t = cache_max_entries s" "cache_count t = cache_count s + 1"
    "cache_size t = cache_size s + word_of_nat (q_len e)" "queue_cur t = queue_cur s" "cache_max_size t = cache_max_size s"
    "length (cache_slots t) = length (cache_slots s)"
    "cache_max_count t = (if tid \<ge> cache_max_count s then tid + 1 else cache_max_count s)"
    "cache_smallest_free t = (if tid \<ge> cache_max_count s then cache_smallest_free s
       else if tid = cache_smallest_free s then tid + 1 else cache_smallest_free s)"
    by (simp_all add: t_def register_cached_def Let_def slots_def take_update_swap cnt)
  have us: "used ?l = used (slots s) + 1" using used_update [OF tl, of "Some q"] tid(2) by simp
  have c: "count_list ?l (Some k) = count_list (slots s) (Some k) + of_bool (k = q)" for k
    using count_list_update [OF tl, of "Some q" "Some k"] tid(2) by auto
  have sum: "sum_list (map (charge ?q) ?l) = sum_list (map (charge (queue_buf s)) (slots s)) + q_len e"
  proof -
    have "sum_list (map (charge ?q) ?l) = sum_list (map (charge (queue_buf s)) ?l)"
      using C(7) q(1) by (intro sum_charge_cong [OF qm]) (auto dest: set_update_subset_insert [THEN subsetD])
    then show ?thesis using sum_slots_update [OF tl, of "charge (queue_buf s)" "Some q"] tid(2) by (simp add: charge_def e(1))
  qed
  have free: "cache_smallest_free t \<le> i" if "i < cache_max_entries s" "?l ! i = None" for i
  proof -
    have "i \<noteq> tid" "slots s ! i = None" using that tl by (auto simp: nth_list_update split: if_splits)
    then show ?thesis using C(6) [OF that(1)] unfolding T(10) by (auto simp: le_less)
  qed
  have "cache_ok t"
    unfolding cache_ok_def T(1-8)
  proof (intro conjI allI impI ballI)
    show "cache_max_count t \<le> cache_max_entries s" using C(4) tid(1) by (simp add: T(9))
    show "i < cache_max_count t" if "i < cache_max_entries s" "?l ! i \<noteq> None" for i
      using that C(5) [of i] tl unfolding T(9) by (cases "i = tid") auto
    show "cache_smallest_free t \<le> i" if "i < cache_max_entries s" "?l ! i = None" for i using that by (rule free)
    show "k < length ?q" if "Some k \<in> set ?l" for k
      using that C(7) q(1) by (auto dest: set_update_subset_insert [THEN subsetD])
    show "count_list ?l (Some k) = of_bool (q_testcase_buf (?q ! k) \<noteq> None)" if "k < length ?q" for k
      using that c [of k] C(8) [of k] q by (cases "k = q") auto
    show "cache_size s + word_of_nat (q_len e) = word_of_nat (sum_list (map (charge ?q) ?l))" by (simp add: sum C(11))
    show "entry_ok x" if "x \<in> set ?q" for x
      using that C(12) [of x] C(12) [of e] q(1) e
      by (auto simp: entry_ok_def dest!: set_update_subset_insert [THEN subsetD])
  qed (use C us room in auto)
  moreover have "kept_queue s t" using qm q by (auto simp: kept_queue_def T nth_list_update e(1))
  ultimately show ?thesis by (simp add: t_def)
qed

section \<open>The entry points\<close>

lemma not_full_room: "cache_ok s \<Longrightarrow> \<not> cache_full len s \<Longrightarrow> cache_count s + 1 < cache_max_entries s"
  using cache_okD(1,2) [of s] by (auto simp: cache_full_def not_le)

lemma first_free:
  assumes s: "cache_ok s" and room: "cache_count s < cache_max_entries s"
  shows "\<exists>i. cache_smallest_free s \<le> i \<and> i < cache_max_entries s \<and> slots s ! i = None"
proof -
  note C = cache_okD [OF s]
  obtain i where "i < length (slots s)" "slots s ! i = None" using used_free [of "slots s"] room C(9,13) by auto
  then show ?thesis using C(6) [of i] C(13) by auto
qed

lemma scratch_ok: "cache_ok s \<Longrightarrow> cache_ok (s\<lparr>testcase_scratch := b\<rparr>) \<and> cache_ok (s\<lparr>splice_scratch := b\<rparr>)"
  by (simp add: cache_ok_def slots_def)

text \<open>What a load promises: the bytes of the file, and a cached entry where the cache is used.\<close>

definition loaded :: "nat \<Rightarrow> afl \<Rightarrow> bytes \<times> 'r \<times> afl \<Rightarrow> bool" where
  "loaded q s = (\<lambda>(b, r', t). b = take (q_len (queue_buf s ! q)) (q_file (queue_buf s ! q)) \<and> cache_ok t \<and> kept_queue s t \<and>
     (q_light (queue_buf s ! q) \<or> cache_max_size s = 0 \<or> q_testcase_buf (queue_buf t ! q) \<noteq> None))"

definition evicts_first :: "nat \<Rightarrow> afl \<Rightarrow> bool" where
  "evicts_first q s \<longleftrightarrow> q_testcase_buf (queue_buf s ! q) = None \<and> \<not> q_light (queue_buf s ! q) \<and> cache_max_size s \<noteq> 0"

definition needs_room :: "nat \<Rightarrow> afl \<Rightarrow> bool" where
  "needs_room q s \<longleftrightarrow> evicts_first q s \<and> cache_full (q_len (queue_buf s ! q)) s"

lemma file_read:
  assumes "cache_ok s" "q < length (queue_buf s)" "e = queue_buf s ! q"
  shows "ck_read (q_file e) (replicate (q_len e) 0) (q_len e) = Inr (take (q_len e) (q_file e))"
    "\<And>b. q_testcase_buf e = Some b \<Longrightarrow> b = take (q_len e) (q_file e)"
  using cache_okD(12) [OF assms(1), of e] assms(2,3) by (auto simp: entry_ok_def ck_read_def mem_ok)

lemma get_direct:
  assumes s: "cache_ok s" and q: "q < length (queue_buf s)" and d: "\<not> evicts_first q s"
  shows "\<exists>x. queue_testcase_get rb True junk q (r, s) = Inr x \<and> loaded q s x"
proof -
  let ?e = "queue_buf s ! q"
  let ?b = "take (q_len ?e) (q_file ?e)"
  note F = file_read [OF s q refl]
  show ?thesis
  proof (cases "q_testcase_buf ?e")
    case (Some b)
    then have "queue_testcase_get rb True junk q (r, s) = Inr (b, r, s)"
      using q by (simp add: queue_testcase_get_def entry_def)
    then show ?thesis using Some s F(2) by (auto simp: loaded_def)
  next
    case None
    then have l: "q_light ?e \<or> cache_max_size s = 0" using d by (auto simp: evicts_first_def)
    let ?t = "if queue_cur s = Some q then s\<lparr>testcase_scratch := ?b\<rparr> else s\<lparr>splice_scratch := ?b\<rparr>"
    have "queue_testcase_get rb True junk q (r, s) = Inr (?b, r, ?t)"
      using q None l F(1) unfolding queue_testcase_get_def by (simp add: entry_def load_uncached_def Let_def)
    moreover have "cache_ok ?t" "kept_queue s ?t" using scratch_ok [OF s] by (simp_all add: kept_queue_def)
    ultimately show ?thesis using l by (auto simp: loaded_def)
  qed
qed

lemma get_evicting:
  assumes s: "cache_ok s" and q: "q < length (queue_buf s)" and d: "evicts_first q s"
    and t: "run_loop (evict_step rb junk (q_len (queue_buf s ! q))) (cache_max_count s, r, s) = Inr (tid, r', t)"
      "evicting s (tid, r', t)" "\<not> cache_full (q_len (queue_buf s ! q)) t"
  shows "\<exists>x. queue_testcase_get rb True junk q (r, s) = Inr x \<and> loaded q s x"
proof -
  define e where "e = queue_buf s ! q"
  let ?b = "take (q_len e) (q_file e)"
  note rd = file_read(1) [OF s q e_def]
  have n: "q_testcase_buf e = None" "\<not> (q_light e \<or> cache_max_size s = 0)" using d by (auto simp: evicts_first_def e_def)
  have T: "cache_ok t" "kept_queue s t" "tid < cache_max_entries t \<Longrightarrow> slots t ! tid = None" using t(2) by (auto simp: evicting_def)
  have room: "cache_count t + 1 < cache_max_entries t" using not_full_room [OF T(1) t(3)] .
  let ?tid = "if tid \<ge> cache_max_entries t then cache_smallest_free t else tid"
  have "\<exists>i. ?tid \<le> i \<and> i < cache_max_entries t \<and> slots t ! i = None"
    using first_free [OF T(1)] room T(3) by (cases "tid < cache_max_entries t") auto
  then obtain k where k: "free_slot t ?tid = Inr k" "k < cache_max_entries t" "slots t ! k = None"
    using free_slot_returns [OF T(1)] by blast
  have ql: "q < length (queue_buf t)" using q kept_queue_length [OF T(2)] by simp
  have ue: "unbuf (queue_buf t ! q) = unbuf e" using kept_queue_entry [OF T(2) q] by (simp add: e_def)
  have none: "q_testcase_buf (queue_buf t ! q) = None" using t(2) n(1) q by (auto simp: evicting_def only_evicts_def e_def)
  have eq: "e = queue_buf t ! q" using unbuf_id [OF ue] n(1) none by simp
  let ?u = "register_cached q (q_len e) k (set_entry q (e\<lparr>q_testcase_buf := Some ?b\<rparr>) t)"
  have u: "cache_ok ?u" "kept_queue t ?u"
    using register_ok [OF T(1) ql none k(2,3) room eq refl] by simp_all
  have "queue_testcase_get rb True junk q (r, s) = Inr (?b, r', ?u)"
    using q n rd t(1) k(1) ql eq unfolding queue_testcase_get_def
    by (simp add: entry_def e_def [symmetric] Let_def)
  moreover have "q_testcase_buf (queue_buf ?u ! q) \<noteq> None" using ql by (simp add: register_cached_def Let_def)
  ultimately show ?thesis using u kept_queue_trans [OF T(2) u(2)] by (auto simp: loaded_def e_def)
qed

lemma get_error:
  assumes "q < length (queue_buf s)" "evicts_first q s"
    "run_loop (evict_step rb junk (q_len (queue_buf s ! q))) (cache_max_count s, r, s) = Inl err"
  shows "queue_testcase_get rb True junk q (r, s) = Inl err"
  using assms unfolding queue_testcase_get_def by (simp add: entry_def evicts_first_def Let_def)

context rng_source
begin

lemma get_safe:
  assumes s: "cache_ok s" and q: "q < length (queue_buf s)"
  shows "safe (queue_testcase_get rb True junk q (r, s)) (loaded q s)"
proof (cases "evicts_first q s")
  case False
  from get_direct [OF s q False, of rb junk r] show ?thesis by auto
next
  case True
  let ?l = "run_loop (evict_step rb junk (q_len (queue_buf s ! q))) (cache_max_count s, r, s)"
  from evict_loop_safe [OF s, of junk "q_len (queue_buf s ! q)" r] have
    l: "safe ?l (\<lambda>(tid, r', t). evicting s (tid, r', t) \<and> \<not> cache_full (q_len (queue_buf s ! q)) t)" .
  show ?thesis
  proof (cases ?l)
    case (Inl err)
    then show ?thesis using l get_error [OF q True Inl] by (simp add: safe_def)
  next
    case (Inr a)
    obtain tid r' t where a: "a = (tid, r', t)" using prod_cases3 by blast
    from l Inr a have "evicting s (tid, r', t)" "\<not> cache_full (q_len (queue_buf s ! q)) t" by (simp_all add: safe_def)
    from get_evicting [OF s q True Inr [unfolded a] this] show ?thesis by auto
  qed
qed

lemma get_returns:
  assumes s: "cache_ok s" and q: "q < length (queue_buf s)"
    and serve: "needs_room q s \<longrightarrow> serves rb (cache_max_count s) (cache_count s - 1) r"
  shows "\<exists>x. queue_testcase_get rb True junk q (r, s) = Inr x \<and> loaded q s x"
proof -
  consider "\<not> evicts_first q s" | "evicts_first q s" "\<not> cache_full (q_len (queue_buf s ! q)) s" | "evicts_first q s" "needs_room q s"
    by (auto simp: needs_room_def)
  then show ?thesis
  proof cases
    case 1
    from get_direct [OF s q 1, of rb junk r] show ?thesis by auto
  next
    case 2
    have "run_loop (evict_step rb junk (q_len (queue_buf s ! q))) (cache_max_count s, r, s) = Inr (cache_max_count s, r, s)"
      using 2(2) by (intro run_loop_Break) (simp add: evict_step_def)
    from get_evicting [OF s q 2(1) this evicting_start [OF s] 2(2)] show ?thesis .
  next
    case 3
    from evict_loop_returns [OF s serve [rule_format, OF 3(2)], of junk "q_len (queue_buf s ! q)"] obtain a where
      a: "run_loop (evict_step rb junk (q_len (queue_buf s ! q))) (cache_max_count s, r, s) = Inr a" by blast
    obtain tid r' t where a': "a = (tid, r', t)" using prod_cases3 by blast
    from evict_loop_safe [OF s, of junk "q_len (queue_buf s ! q)" r] have
      "evicting s (tid, r', t)" "\<not> cache_full (q_len (queue_buf s ! q)) t" by (simp_all add: a a' safe_def)
    from get_evicting [OF s q 3(1) a [unfolded a'] this] show ?thesis .
  qed
qed

end

end
