(* ===== verification/AFL_CacheRuns.thy ===== *)
theory AFL_CacheRuns
  imports AFL_CacheProps AFL_CullProps
begin

text \<open>
  Runs of the fuzzer that use the cache, as a step relation: a test case is loaded, a new entry is
  queued and stored, another entry becomes the current one. The invariant of the cache holds in
  every state that such a run reaches. Trimming, which is not one of the steps, breaks the account
  of the cached bytes (\<open>retake_wraps_cache_size\<close>).
\<close>

section \<open>Storing and queueing\<close>

lemma store_ok:
  assumes s: "cache_ok s" and q: "q < length (queue_buf s)" "q_testcase_buf (queue_buf s ! q) = None"
    and mem: "length mem = q_len (queue_buf s ! q)" "mem = take (length mem) (q_file (queue_buf s ! q))"
  shows "\<exists>t. queue_testcase_store_mem True q mem s = Inr t \<and> cache_ok t \<and> kept_queue s t"
proof -
  note C = cache_okD [OF s]
  let ?e = "queue_buf s ! q"
  show ?thesis
  proof (cases "q_light ?e \<or> cache_size s + word_of_nat (q_len ?e) \<ge> cache_max_size s \<or> cache_count s \<ge> u32_sub (cache_max_entries s) 1")
    case True
    then have "queue_testcase_store_mem True q mem s = Inr s"
      unfolding queue_testcase_store_mem_def using q by (simp add: entry_def)
    then show ?thesis using s by simp
  next
    case False
    have room: "cache_count s + 1 < cache_max_entries s" using False C(1,2) by auto
    let ?tid = "if cache_max_count s \<ge> cache_max_entries s then cache_smallest_free s else cache_max_count s"
    have "\<exists>i. ?tid \<le> i \<and> i < cache_max_entries s \<and> slots s ! i = None"
    proof (cases "cache_max_count s \<ge> cache_max_entries s")
      case True
      then show ?thesis using first_free [OF s] room by auto
    next
      case False
      then have "slots s ! cache_max_count s = None" using C(5) [of "cache_max_count s"] by (cases "slots s ! cache_max_count s") auto
      then show ?thesis using False by auto
    qed
    then obtain k where k: "free_slot s ?tid = Inr k" "k < cache_max_entries s" "slots s ! k = None"
      using free_slot_returns [OF s] by blast
    let ?u = "register_cached q (q_len ?e) k (set_entry q (?e\<lparr>q_testcase_buf := Some mem\<rparr>) s)"
    have u: "cache_ok ?u \<and> kept_queue s ?u"
      using register_ok [OF s q k(2,3) room refl, of mem] mem by simp
    have "queue_testcase_store_mem True q mem s = Inr ?u"
      unfolding queue_testcase_store_mem_def using q False k(1) mem(1) by (simp add: entry_def Let_def mem_ok)
    then show ?thesis using u by blast
  qed
qed

lemma note_find_time_keeps:
  "queue_buf (note_find_time now s) = queue_buf s" "cache_slots (note_find_time now s) = cache_slots s"
  "cache_max_entries (note_find_time now s) = cache_max_entries s" "cache_max_count (note_find_time now s) = cache_max_count s"
  "cache_count (note_find_time now s) = cache_count s" "cache_size (note_find_time now s) = cache_size s"
  "cache_smallest_free (note_find_time now s) = cache_smallest_free s" "queue_cur (note_find_time now s) = queue_cur s"
  "cache_max_size (note_find_time now s) = cache_max_size s"
  by (auto simp: note_find_time_def Let_def)

lemma charge_append: "(\<And>j. x = Some j \<Longrightarrow> j < length q) \<Longrightarrow> charge (q @ es) x = charge q x"
  by (cases x) (auto simp: charge_def nth_append)

lemma add_to_queue_keeps:
  assumes "add_to_queue ok now file len det s = Inr t"
  shows "\<exists>e. queue_buf t = queue_buf s @ [e] \<and> q_testcase_buf e = None \<and> q_len e = len \<and> q_file e = file \<and>
    cache_slots t = cache_slots s \<and> cache_max_entries t = cache_max_entries s \<and> cache_max_count t = cache_max_count s \<and>
    cache_count t = cache_count s \<and> cache_size t = cache_size s \<and> cache_smallest_free t = cache_smallest_free s \<and>
    queue_cur t = queue_cur s"
  using assms unfolding add_to_queue_def Let_def
  by (auto simp: ebind_Inr_iff note_find_time_keeps new_entry_def split: if_splits)

lemma add_ok:
  assumes s: "cache_ok s" and t: "add_to_queue ok now file len det s = Inr t" and len: "len \<le> length file"
  shows "cache_ok t"
proof -
  note C = cache_okD [OF s]
  from add_to_queue_keeps [OF t] obtain e where e: "queue_buf t = queue_buf s @ [e]" "q_testcase_buf e = None" "q_len e = len" "q_file e = file"
    and T: "cache_slots t = cache_slots s" "cache_max_entries t = cache_max_entries s" "cache_max_count t = cache_max_count s"
      "cache_count t = cache_count s" "cache_size t = cache_size s" "cache_smallest_free t = cache_smallest_free s" by blast
  have sl: "slots t = slots s" by (simp add: slots_def T)
  have "charge (queue_buf t) x = charge (queue_buf s) x" if "x \<in> set (slots s)" for x
    unfolding e(1) using C(7) that by (intro charge_append) auto
  then have m: "map (charge (queue_buf t)) (slots s) = map (charge (queue_buf s)) (slots s)" by simp
  have sum: "sum_list (map (charge (queue_buf t)) (slots s)) = sum_list (map (charge (queue_buf s)) (slots s))"
    using m by (rule arg_cong)
  show ?thesis
    unfolding cache_ok_def sl T sum
  proof (intro conjI allI impI ballI)
    show "k < length (queue_buf t)" if "Some k \<in> set (slots s)" for k using C(7) [OF that] by (simp add: e(1))
    show "count_list (slots s) (Some k) = of_bool (q_testcase_buf (queue_buf t ! k) \<noteq> None)" if "k < length (queue_buf t)" for k
    proof (cases "k < length (queue_buf s)")
      case True
      then show ?thesis using C(8) [OF True] by (simp add: e(1) nth_append)
    next
      case False
      then have "k = length (queue_buf s)" "Some k \<notin> set (slots s)" using that C(7) by (auto simp: e(1))
      then show ?thesis by (simp add: e(1,2) count_list_0_iff)
    qed
    show "entry_ok x" if "x \<in> set (queue_buf t)" for x
      using that C(12) e len by (auto simp: entry_ok_def)
  qed (use C in auto)
qed

section \<open>Runs\<close>

text \<open>One step of the fuzzer. An allocation that fails ends the process, so the steps are those that succeed.\<close>

inductive cache_step :: "(nat \<Rightarrow> 'r \<Rightarrow> (nat \<times> 'r) res) \<Rightarrow> 'r \<times> afl \<Rightarrow> 'r \<times> afl \<Rightarrow> bool" for rb where
  load: "q < length (queue_buf s) \<Longrightarrow> queue_testcase_get rb True junk q (r, s) = Inr (b, r', t) \<Longrightarrow> cache_step rb (r, s) (r', t)"
| queue: "len \<le> length file \<Longrightarrow> add_to_queue True now file len det s = Inr t \<Longrightarrow> cache_step rb (r, s) (r, t)"
| store: "q < length (queue_buf s) \<Longrightarrow> q_testcase_buf (queue_buf s ! q) = None \<Longrightarrow>
    mem = take (q_len (queue_buf s ! q)) (q_file (queue_buf s ! q)) \<Longrightarrow>
    queue_testcase_store_mem True q mem s = Inr t \<Longrightarrow> cache_step rb (r, s) (r, t)"
| select: "q < length (queue_buf s) \<Longrightarrow> cache_step rb (r, s) (r', s\<lparr>queue_cur := Some q\<rparr>)"

inductive cache_run :: "(nat \<Rightarrow> 'r \<Rightarrow> (nat \<times> 'r) res) \<Rightarrow> 'r \<times> afl \<Rightarrow> 'r \<times> afl \<Rightarrow> bool" for rb where
  stop: "cache_run rb st st"
| step: "cache_run rb st st' \<Longrightarrow> cache_step rb st' st'' \<Longrightarrow> cache_run rb st st''"

context rng_source
begin

lemma cache_step_ok:
  assumes "cache_step rb (r, s) (r', t)" "cache_ok s"
  shows "cache_ok t"
  using assms(1)
proof (cases rule: cache_step.cases)
  case (load q junk b)
  from get_safe [OF assms(2) load(1), of junk r] load(2) show ?thesis by (simp add: safe_def loaded_def)
next
  case (queue len content now det)
  from add_ok [OF assms(2) queue(3,2)] show ?thesis .
next
  case (store q mem)
  have "q_len (queue_buf s ! q) \<le> length (q_file (queue_buf s ! q))"
    using cache_okD(12) [OF assms(2), of "queue_buf s ! q"] store(2) by (simp add: entry_ok_def)
  then show ?thesis using store_ok [OF assms(2) store(2,3), of mem] store(4,5) by auto
next
  case (select q)
  then show ?thesis using assms(2) by (simp add: cache_ok_def slots_def)
qed

lemma cache_run_ok: "cache_run rb st st' \<Longrightarrow> cache_ok (snd st) \<Longrightarrow> cache_ok (snd st')"
proof (induction rule: cache_run.induct)
  case (step st st' st'')
  then show ?case using cache_step_ok [of "fst st'" "snd st'" "fst st''" "snd st''"] by simp
qed

end

section \<open>Counting the cached entries\<close>

definition cached :: "afl \<Rightarrow> nat set" where
  "cached s = {j. j < length (queue_buf s) \<and> q_testcase_buf (queue_buf s ! j) \<noteq> None}"

lemma charge_simps: "charge q None = 0" "charge q (Some j) = q_len (q ! j)"
  by (simp_all add: charge_def)

lemma used_sum: "(\<And>j. Some j \<in> set l \<Longrightarrow> j < n) \<Longrightarrow> used l = (\<Sum>j<n. count_list l (Some j))"
proof (induction l)
  case (Cons x l)
  have IH: "used l = (\<Sum>j<n. count_list l (Some j))" using Cons by simp
  show ?case
  proof (cases x)
    case None
    then show ?thesis using IH by (simp add: used_def)
  next
    case (Some k)
    then have "k < n" using Cons.prems [of k] by simp
    then have "(\<Sum>j<n. count_list (x # l) (Some j)) = (\<Sum>j<n. count_list l (Some j) + of_bool (j = k))"
      using Some by (intro sum.cong) auto
    also have "\<dots> = (\<Sum>j<n. count_list l (Some j)) + 1" using \<open>k < n\<close> by (simp add: sum.distrib of_bool_def)
    finally show ?thesis using IH Some by (simp add: used_def)
  qed
qed (simp add: used_def)

lemma charge_sum: "(\<And>j. Some j \<in> set l \<Longrightarrow> j < n) \<Longrightarrow>
    sum_list (map (charge q) l) = (\<Sum>j<n. count_list l (Some j) * q_len (q ! j))"
proof (induction l)
  case (Cons x l)
  have IH: "sum_list (map (charge q) l) = (\<Sum>j<n. count_list l (Some j) * q_len (q ! j))" using Cons by simp
  show ?case
  proof (cases x)
    case None
    then show ?thesis using IH by (simp add: charge_simps)
  next
    case (Some k)
    then have "k < n" using Cons.prems [of k] by simp
    then have "(\<Sum>j<n. count_list (x # l) (Some j) * q_len (q ! j)) =
        (\<Sum>j<n. count_list l (Some j) * q_len (q ! j) + (if j = k then q_len (q ! j) else 0))"
      using Some by (intro sum.cong) auto
    also have "\<dots> = (\<Sum>j<n. count_list l (Some j) * q_len (q ! j)) + q_len (q ! k)" using \<open>k < n\<close> by (simp add: sum.distrib)
    finally show ?thesis using IH Some by (simp add: charge_simps)
  qed
qed simp

lemma cache_counts:
  assumes s: "cache_ok s"
  shows "cache_count s = card (cached s) \<and> cache_size s = word_of_nat (\<Sum>j\<in>cached s. q_len (queue_buf s ! j))"
proof -
  note C = cache_okD [OF s]
  let ?n = "length (queue_buf s)"
  have c: "count_list (slots s) (Some j) = (if j \<in> cached s then 1 else 0)" if "j < ?n" for j
    using C(8) [OF that] that by (simp add: cached_def)
  have sub: "{..<?n} \<inter> cached s = cached s" by (auto simp: cached_def)
  have "used (slots s) = (\<Sum>j<?n. count_list (slots s) (Some j))" using C(7) by (rule used_sum)
  also have "\<dots> = (\<Sum>j<?n. if j \<in> cached s then 1 else 0)" using c by (intro sum.cong) auto
  also have "\<dots> = card (cached s)" using sub by (simp add: sum.If_cases Int_def)
  finally have u: "cache_count s = card (cached s)" using C(9) by simp
  have "sum_list (map (charge (queue_buf s)) (slots s)) = (\<Sum>j<?n. count_list (slots s) (Some j) * q_len (queue_buf s ! j))"
    using C(7) by (rule charge_sum)
  also have "\<dots> = (\<Sum>j<?n. if j \<in> cached s then q_len (queue_buf s ! j) else 0)" using c by (intro sum.cong) auto
  also have "\<dots> = (\<Sum>j\<in>cached s. q_len (queue_buf s ! j))" using sub by (simp add: sum.If_cases)
  finally show ?thesis using u C(11) by simp
qed

section \<open>A queue of three test cases\<close>

text \<open>
  The cache holds two of the three test cases. The seeds make the generator draw 0 and then 1
  below 2.
\<close>

definition three_entries :: afl where
  "three_entries = empty_queue\<lparr>queue_buf := replicate 3 (new_entry [1, 2, 3] 3 False empty_queue), cache_max_size := 9\<rparr>"

definition cached_entry :: queue_entry where
  "cached_entry = (new_entry [1, 2, 3] 3 False empty_queue)\<lparr>q_testcase_buf := Some [1, 2, 3]\<rparr>"

definition zero_one_rng :: rng where
  "zero_one_rng = \<lparr>rand_seed0 = 0, rand_seed1 = 1, rand_seed2 = 0, rand_cnt = 100,
     fixed_seed = False, init_seed = 0, urandom = []\<rparr>"

definition one_loaded :: afl where
  "one_loaded = three_entries\<lparr>queue_buf := (queue_buf three_entries)[0 := cached_entry],
     cache_slots := [Some 0, None, None, None], cache_size := 3, cache_count := 1, cache_max_count := 1\<rparr>"

definition two_loaded :: afl where
  "two_loaded = three_entries\<lparr>queue_buf := (queue_buf three_entries)[0 := cached_entry, 1 := cached_entry],
     cache_slots := [Some 0, Some 1, None, None], cache_size := 6, cache_count := 2, cache_max_count := 2\<rparr>"

text \<open>The third load: slot 0 is the current entry's, so slot 1 is evicted; the cache learns its size.\<close>

definition evicted :: afl where
  "evicted = two_loaded\<lparr>queue_cur := Some 0, queue_buf := (queue_buf three_entries)[0 := cached_entry, 2 := cached_entry],
     cache_slots := [Some 0, Some 2, None, None], cache_max_entries := 3, cache_do_once := True,
     cache_evictions := 1\<rparr>"

lemmas load_defs = queue_testcase_get_def entry_def evict_step_def cache_full_def free_slot_def register_cached_def set_entry_def
  ck_read_def mem_ok run_loop_Break Let_def new_entry_def cached_entry_def

lemma replicate_small: "replicate 3 x = [x, x, x]" "replicate 4 x = [x, x, x, x]"
  by (simp_all add: eval_nat_numeral)

lemma first_load: "queue_testcase_get rand_below True None 0 (r, three_entries) = Inr ([1, 2, 3], r, one_loaded)"
  by (simp add: load_defs three_entries_def one_loaded_def empty_queue_def replicate_small)

lemma second_load: "queue_testcase_get rand_below True None 1 (r, one_loaded) = Inr ([1, 2, 3], r, two_loaded)"
  by (simp add: load_defs three_entries_def one_loaded_def two_loaded_def empty_queue_def replicate_small)

definition drawn_rng :: "u32 \<Rightarrow> u64 \<Rightarrow> u64 \<Rightarrow> rng" where
  "drawn_rng c a b = zero_one_rng\<lparr>rand_cnt := c, rand_seed0 := a, rand_seed1 := b\<rparr>"

lemma zero_one_draws:
  "\<exists>r1 r2. rand_below 2 zero_one_rng = Inr (0, r1) \<and> rand_below 2 r1 = Inr (1, r2)"
  by (simp add: rand_below_accept rand_accept_def UINT64_MAX_def zero_one_rng_def ROTL64_def)

lemma serves_two:
  assumes "rb 2 r = Inr (0, r1)" "rb 2 r1 = Inr (1, r2)"
  shows "serves rb 2 1 r"
proof -
  have "\<exists>x r'. draws_to rb 2 T r x r'" if "T \<noteq> {}" "T \<subseteq> {..<2}" for T :: "nat set"
  proof (cases "0 \<in> T")
    case True
    from draws_to.hit [where rb = rb and n = 2 and T = T, OF assms(1) True] show ?thesis by blast
  next
    case False
    then have "1 \<in> T" using that by (metis One_nat_def all_not_in_conv less_2_cases lessThan_iff subsetD)
    from draws_to.hit [where rb = rb and n = 2 and T = T, OF assms(2) this]
    have "draws_to rb 2 T r1 1 r2" .
    from draws_to.miss [where rb = rb and n = 2 and T = T, OF assms(1) _ False this] show ?thesis by auto
  qed
  then show ?thesis by simp
qed

lemma third_load:
  assumes "rb 2 r = Inr (0, r1)" "rb 2 r1 = Inr (1, r2)"
  shows "queue_testcase_get rb True None 2 (r, two_loaded\<lparr>queue_cur := Some 0\<rparr>) = Inr ([1, 2, 3], r2, evicted)"
proof -
  note defs = load_defs three_entries_def two_loaded_def evicted_def empty_queue_def replicate_small
  define u where "u = learn_entries None 3 (two_loaded\<lparr>queue_cur := Some 0\<rparr>)"
  have u: "cache_max_count u = 2" "cache_slots u = [Some 0, Some 1, None, None]" "queue_cur u = Some 0"
    by (simp_all add: u_def learn_entries_def defs)
  have "pick_slot rb u r = pick_slot rb u r1" unfolding pick_slot_def by (rule run_loop_Cont) (simp add: u assms(1))
  moreover have "pick_slot rb u r1 = Inr (1, r2)" unfolding pick_slot_def by (rule run_loop_Break) (simp add: u assms(2))
  ultimately have p: "pick_slot rb u r = Inr (1, r2)" by simp
  define v where "v = projr (evict_slot 1 u)"
  have v: "evict_slot 1 u = Inr v" "v = two_loaded\<lparr>queue_cur := Some 0, queue_buf := (queue_buf three_entries)[0 := cached_entry],
     cache_slots := [Some 0, None, None, None], cache_max_entries := 3, cache_do_once := True,
     cache_evictions := 1, cache_size := 3, cache_count := 1, cache_smallest_free := 0\<rparr>"
    by (simp_all add: v_def evict_slot_def u_def learn_entries_def defs)
  have full: "cache_full 3 (two_loaded\<lparr>queue_cur := Some 0\<rparr>)" "\<not> cache_full 3 v"
    unfolding v(2) by (simp_all add: defs)
  have l: "run_loop (evict_step rb None 3) (2, r, two_loaded\<lparr>queue_cur := Some 0\<rparr>) = run_loop (evict_step rb None 3) (1, r2, v)"
    using full(1) p v(1) by (intro run_loop_Cont) (simp add: evict_step_def u_def Let_def)
  also have "\<dots> = Inr (1, r2, v)" using full(2) by (intro run_loop_Break) (simp add: evict_step_def)
  finally show ?thesis unfolding queue_testcase_get_def by (simp add: v(2) defs)
qed

lemma three_entries_cache: "cache_ok three_entries"
  unfolding cache_ok_def
  by (simp add: three_entries_def empty_queue_def new_entry_def slots_def used_def charge_def entry_ok_def count_list_0_iff replicate_small nth_Cons')

text \<open>Both loads find room; then entry 0 becomes the current one.\<close>

lemma demo_run: "cache_run rand_below (r, three_entries) (r', two_loaded\<lparr>queue_cur := Some 0\<rparr>)"
proof -
  have "cache_step rand_below (r, three_entries) (r, one_loaded)"
    by (rule cache_step.load [OF _ first_load]) (simp add: three_entries_def)
  moreover have "cache_step rand_below (r, one_loaded) (r, two_loaded)"
    by (rule cache_step.load [OF _ second_load]) (simp add: one_loaded_def three_entries_def)
  moreover have "cache_step rand_below (r, two_loaded) (r', two_loaded\<lparr>queue_cur := Some 0\<rparr>)"
    by (rule cache_step.select) (simp add: two_loaded_def three_entries_def)
  ultimately show ?thesis by (blast intro: cache_run.intros)
qed

section \<open>Properties\<close>

text \<open>C20: in every state that a run of loading, queueing, storing and selecting with the fuzzer's generator reaches,
  loading a test case never faults, and a load that returns gives the bytes of the file, leaves the entry cached (when the
  cache is on and the entry is not light) and does not evict the current test case. It returns in every
  state of the generator when the test case needs no room (\<open>needs_room\<close>), and otherwise when from its present state the
  generator draws a slot of every set of slots sooner or later, once for each entry that may have to go
  (\<open>serves\<close>).\<close>

theorem load_returns_file:
  assumes "cache_ok s0" "cache_run rand_below (r0, s0) (r, s)" "q < length (queue_buf s)"
  shows "safe (queue_testcase_get rand_below True junk q (r, s)) (\<lambda>(b, r', t).
      b = take (q_len (queue_buf s ! q)) (q_file (queue_buf s ! q)) \<and> kept_queue s t \<and>
      (q_light (queue_buf s ! q) \<or> cache_max_size s = 0 \<or> q_testcase_buf (queue_buf t ! q) \<noteq> None))
    \<and> ((needs_room q s \<longrightarrow> serves rand_below (cache_max_count s) (cache_count s - 1) r) \<longrightarrow>
      (\<exists>x. queue_testcase_get rand_below True junk q (r, s) = Inr x))"
proof -
  have s: "cache_ok s" using afl_rng.cache_run_ok [OF assms(2)] assms(1) by simp
  from afl_rng.get_safe [OF s assms(3), of junk r] afl_rng.get_returns [OF s assms(3), of r junk] show ?thesis
    by (auto simp: loaded_def split_def elim: safe_mono)
qed

theorem load_returns_file_witness:
  "\<exists>r' t. queue_testcase_get rand_below True None 2 (zero_one_rng, two_loaded\<lparr>queue_cur := Some 0\<rparr>) = Inr ([1, 2, 3], r', t) \<and>
    needs_room 2 (two_loaded\<lparr>queue_cur := Some 0\<rparr>) \<and> cached two_loaded = {0, 1} \<and>
    q_testcase_buf (queue_buf t ! 0) = Some [1, 2, 3] \<and> q_testcase_buf (queue_buf t ! 2) \<noteq> None"
proof -
  note defs = two_loaded_def three_entries_def empty_queue_def new_entry_def cached_entry_def replicate_small
  let ?s = "two_loaded\<lparr>queue_cur := Some 0\<rparr>"
  have c: "cache_max_count ?s = 2" "cache_count ?s - 1 = 1" "2 < length (queue_buf ?s)" "q_len (queue_buf ?s ! 2) = 3"
    "q_file (queue_buf ?s ! 2) = [1, 2, 3]" "\<not> q_light (queue_buf ?s ! 2)" "cache_max_size ?s \<noteq> 0" "queue_cur ?s = Some 0"
    "0 < length (queue_buf ?s)" "q_testcase_buf (queue_buf ?s ! 0) = Some [1, 2, 3]" "needs_room 2 ?s"
    by (simp_all add: defs needs_room_def evicts_first_def cache_full_def)
  have "cached two_loaded = {0, 1}" by (auto simp: cached_def defs nth_Cons' split: if_splits)
  moreover have "serves rand_below 2 1 zero_one_rng" using zero_one_draws serves_two [where rb = rand_below and r = zero_one_rng] by blast
  moreover note load_returns_file [OF three_entries_cache demo_run c(3), of None zero_one_rng]
  ultimately show ?thesis using c by (auto simp: safe_def kept_queue_def)
qed

text \<open>C21: along every run of loading, queueing, storing and selecting with the fuzzer's generator, evictions included, the counters
  of the cache stay exact: the number of cached entries and, modulo 2^64, the sum of their lengths; and every cached buffer
  holds its file.\<close>

theorem cache_account_exact:
  assumes "cache_ok s0" "cache_run rand_below (r0, s0) (r, s)"
  shows "cache_count s = card (cached s) \<and> cache_size s = word_of_nat (\<Sum>j\<in>cached s. q_len (queue_buf s ! j)) \<and>
    (\<forall>j\<in>cached s. q_testcase_buf (queue_buf s ! j) = Some (take (q_len (queue_buf s ! j)) (q_file (queue_buf s ! j))))"
proof -
  have s: "cache_ok s" using afl_rng.cache_run_ok [OF assms(2)] assms(1) by simp
  have "entry_ok (queue_buf s ! j)" if "j \<in> cached s" for j
    using cache_okD(12) [OF s] that by (simp add: cached_def)
  then show ?thesis using cache_counts [OF s] by (fastforce simp: cached_def entry_ok_def)
qed

theorem cache_account_exact_witness:
  "\<exists>r. cache_run rand_below (zero_one_rng, three_entries) (r, evicted) \<and> cache_evictions evicted = 1 \<and> cached evicted = {0, 2} \<and>
    cache_count evicted = card {0, 2 :: nat} \<and> cache_size evicted = 6"
proof -
  note defs = evicted_def two_loaded_def three_entries_def empty_queue_def new_entry_def cached_entry_def replicate_small
  obtain r1 r2 where d: "rand_below 2 zero_one_rng = Inr (0, r1)" "rand_below 2 r1 = Inr (1, r2)" using zero_one_draws by blast
  have "cache_step rand_below (zero_one_rng, two_loaded\<lparr>queue_cur := Some 0\<rparr>) (r2, evicted)"
    by (rule cache_step.load [OF _ third_load [where rb = rand_below, OF d]]) (simp add: two_loaded_def three_entries_def)
  then have run: "cache_run rand_below (zero_one_rng, three_entries) (r2, evicted)" by (rule cache_run.step [OF demo_run])
  have c: "cached evicted = {0, 2}" by (auto simp: cached_def defs nth_Cons' split: if_splits)
  have l: "q_len (queue_buf evicted ! 0) = 3" "q_len (queue_buf evicted ! 2) = 3" "cache_evictions evicted = 1" by (simp_all add: defs)
  from cache_account_exact [OF three_entries_cache run] run c l show ?thesis by auto
qed

text \<open>C22: when a custom trimmer has shortened a cached test case, \<open>queue_testcase_retake\<close> adds the difference of two 32-bit
  lengths to the 64-bit account, which grows by almost 4 GiB instead of shrinking; with a limit of at most 4 GiB the cache
  is then full for every test case as soon as it holds two.\<close>

theorem retake_wraps_cache_size:
  assumes q: "q < length (queue_buf s)" "q_testcase_buf (queue_buf s ! q) = Some b"
    and len: "q_len (queue_buf s ! q) < old_len" "old_len < 2 ^ 31" "q_len (queue_buf s ! q) \<le> length (q_file (queue_buf s ! q))"
    and size: "old_len \<le> unat (cache_size s)" "unat (cache_size s) < 2 ^ 62" "unat (cache_max_size s) \<le> 2 ^ 32" "cache_count s > 1"
  shows "\<exists>t. queue_testcase_retake True q old_len s = Inr t \<and>
    unat (cache_size t) = unat (cache_size s) + 2 ^ 32 - (old_len - q_len (queue_buf s ! q)) \<and> cache_full 0 t"
proof -
  let ?e = "queue_buf s ! q" and ?n = "q_len (queue_buf s ! q)"
  let ?b = "take ?n (q_file ?e)"
  let ?t = "set_entry q (?e\<lparr>q_testcase_buf := Some ?b\<rparr>) (add_size ?n old_len s)"
  have again: "?n < u32_add old_len 1024" using len by simp
  have rd: "ck_read (q_file ?e) (resize ?n b) ?n = Inr ?b"
  proof -
    have "length (resize ?n b) = ?n" by (auto simp: resize_def)
    then show ?thesis using len(3) by (simp add: ck_read_def mem_ok)
  qed
  have run: "queue_testcase_retake True q old_len s = Inr ?t"
    using q again rd by (simp add: queue_testcase_retake_def entry_def add_size_def Let_def)
  define d where "d = 2 ^ 32 - (old_len - ?n)"
  have sub: "u32_sub ?n old_len = d" using len by (simp add: u32_sub_def d_def)
  have d: "d < 2 ^ 32" "d \<ge> 2 ^ 32 - old_len" using len by (auto simp: d_def)
  then have du: "unat (word_of_nat d :: u64) = d" by (simp add: unat_of_nat take_bit_eq_mod)
  have "unat (cache_size s + word_of_nat d) = unat (cache_size s) + d"
    using size(2) d(1) by (subst unat_add_lem [THEN iffD1]) (simp_all add: du)
  then have u: "unat (cache_size ?t) = unat (cache_size s) + 2 ^ 32 - (old_len - ?n)"
    using len by (simp add: add_size_def sub) (simp add: d_def)
  have "cache_max_size ?t \<le> cache_size ?t" unfolding word_le_nat_alt u using size(1,3) by (simp add: add_size_def)
  then have "cache_full 0 ?t" using size(4) by (simp add: cache_full_def add_size_def)
  then show ?thesis using run u by blast
qed

definition shortened :: afl where
  "shortened = one_entry\<lparr>queue_buf := [(new_entry [1, 2, 3] 3 False empty_queue)\<lparr>q_testcase_buf := Some [1, 2, 3, 4, 5]\<rparr>],
     cache_size := 20, cache_count := 2\<rparr>"

theorem retake_wraps_cache_size_witness:
  "\<exists>t. queue_testcase_retake True 0 5 shortened = Inr t \<and> unat (cache_size t) = 4294967314 \<and> cache_full 0 t"
proof -
  note defs = shortened_def one_entry_def empty_queue_def new_entry_def
  have e: "0 < length (queue_buf shortened)" "q_testcase_buf (queue_buf shortened ! 0) = Some [1, 2, 3, 4, 5]"
    "q_len (queue_buf shortened ! 0) = 3" "q_file (queue_buf shortened ! 0) = [1, 2, 3]"
    "unat (cache_size shortened) = 20" "unat (cache_max_size shortened) = 1000" "cache_count shortened = 2"
    by (simp_all add: defs)
  from retake_wraps_cache_size [OF e(1,2), of 5] show ?thesis by (simp add: e(3-7))
qed

end
