(* ===== verification/AFL_Trim.thy ===== *)
theory AFL_Trim
  imports AFL_Tmin AFL_Cache
begin

text \<open>
  Trimming in \<^verbatim>\<open>src/afl-fuzz-run.c\<close>: \<open>write_with_gap\<close> hands the target a test case without one block,
  \<open>trim_case\<close> removes the blocks whose absence leaves the trace unchanged, and \<open>trim_current\<close> is the
  part of \<open>fuzz_one_original\<close> in \<^verbatim>\<open>src/afl-fuzz-one.c\<close> that calls it. There are no custom mutators.
  Running the target is the argument \<open>h\<close>, as in \<^verbatim>\<open>AFL_Tmin\<close>; \<open>ok\<close> says which sizes \<open>realloc\<close> can serve.
  Files can be created and written. Times, the screen and the name of the stage are left out.
\<close>

definition TRIM_MIN_BYTES :: nat where "TRIM_MIN_BYTES = 4"
definition TRIM_END_STEPS :: nat where "TRIM_END_STEPS = 1024"

text \<open>
  The state around the queue: the ways to hand over the input, the table of \<open>classify_counts\<close>, and the
  local variables of \<open>trim_case\<close>. The raw and the classified trace of a run are in \<open>trace_bits\<close> of the queue's state.
\<close>

record 'w trim =
  tr_world :: 'w
  tr_afl :: afl
  out_scratch :: "bytes option"
  use_shmem_fuzz :: bool
  use_stdin :: bool
  shmem_fuzz :: bytes
  shmem_fuzz_len :: nat
  out_file :: bytes
  clean_trace :: bytes
  count_table :: "u16 list"
  trim_execs :: nat
  bytes_trim_in :: u64
  bytes_trim_out :: u64
  len_p2 :: nat
  needs_write :: bool
  trim_fault :: fsrv_run_result

section \<open>The buffer of the test case\<close>

text \<open>\<open>in_buf\<close> is what \<open>queue_testcase_get\<close> has returned: the cached buffer or one of the scratch buffers.\<close>

definition in_buf :: "nat \<Rightarrow> afl \<Rightarrow> bytes res" where
  "in_buf q s = ebind (entry s q) (\<lambda>e. Inr (case q_testcase_buf e of
       Some b \<Rightarrow> b
     | None \<Rightarrow> if queue_cur s = Some q then testcase_scratch s else splice_scratch s))"

definition set_in_buf :: "nat \<Rightarrow> bytes \<Rightarrow> afl \<Rightarrow> afl res" where
  "set_in_buf q b s = ebind (entry s q) (\<lambda>e. Inr (case q_testcase_buf e of
       Some _ \<Rightarrow> set_entry q (e\<lparr>q_testcase_buf := Some b\<rparr>) s
     | None \<Rightarrow> if queue_cur s = Some q then s\<lparr>testcase_scratch := b\<rparr> else s\<lparr>splice_scratch := b\<rparr>))"

section \<open>Handing over a test case with a gap\<close>

text \<open>What a call of \<open>write\<close> reads; \<open>ck_write\<close> returns at once when the length is 0.\<close>

definition bytes_at :: "bytes \<Rightarrow> nat \<Rightarrow> nat \<Rightarrow> bytes res" where
  "bytes_at mem i n = (if n = 0 then Inr [] else if i + n \<le> length mem then Inr (take n (drop i mem)) else Inl Fault)"

definition write_with_gap :: "(nat \<Rightarrow> bool) \<Rightarrow> bytes \<Rightarrow> nat \<Rightarrow> nat \<Rightarrow> nat \<Rightarrow> 'w trim \<Rightarrow> 'w trim res" where
  "write_with_gap ok mem len skip_at skip_len s =
     (let tail_len = u32_sub (u32_sub len skip_at) skip_len; new_size = u32_sub len skip_len in
      case afl_realloc ok (out_scratch s) (u32_add new_size 1) of
        None \<Rightarrow> Inl Fatal
      | Some mem_trimmed \<Rightarrow>
          let s = s\<lparr>out_scratch := Some mem_trimmed\<rparr> in
          if use_shmem_fuzz s then
            ebind (memcpy (shmem_fuzz s) 0 mem 0 skip_at) (\<lambda>b.
            ebind (copy_tail b skip_at mem (skip_at + skip_len) tail_len) (\<lambda>b.
              Inr (s\<lparr>shmem_fuzz := b, shmem_fuzz_len := new_size\<rparr>)))
          else
            ebind (bytes_at mem 0 skip_at) (\<lambda>a.
            ebind (bytes_at mem (skip_at + skip_len) tail_len) (\<lambda>b.
              Inr (s\<lparr>out_file := (if use_stdin s then take new_size ((a @ b) @ drop (length (a @ b)) (out_file s)) else a @ b)\<rparr>))))"

text \<open>The fork server gives the target the shared memory or the file.\<close>

definition target_input :: "'w trim \<Rightarrow> bytes" where
  "target_input s = (if use_shmem_fuzz s then take (shmem_fuzz_len s) (shmem_fuzz s) else out_file s)"

definition trim_run_target :: "'w thost \<Rightarrow> 'w trim \<Rightarrow> bool \<times> 'w trim" where
  "trim_run_target h s =
     (case t_exec h (target_input s) (tr_world s) of (ret, trace, stop_soon, w) \<Rightarrow>
        (stop_soon, s\<lparr>tr_world := w, tr_afl := (tr_afl s)\<lparr>trace_bits := trace\<rparr>, trim_fault := ret\<rparr>))"

text \<open>\<open>classify_counts\<close> of the bitmap on the trace of the run.\<close>

definition classify_trace :: "u16 list \<Rightarrow> bytes \<Rightarrow> bytes res" where
  "classify_trace table trace =
     ebind (classify_counts TYPE(64) (cov.make trace (length trace) (length trace) [] [] [] False table))
       (\<lambda>c. Inr (cov.trace_bits c))"

section \<open>The trimmer\<close>

definition trim_step :: "'w thost \<Rightarrow> (nat \<Rightarrow> bool) \<Rightarrow> nat \<Rightarrow> nat \<Rightarrow> nat \<times> 'w trim \<Rightarrow>
    ((bool \<times> 'w trim, nat \<times> 'w trim) ctl) res" where
  "trim_step h ok q remove_len = (\<lambda>(remove_pos, s).
     ebind (entry (tr_afl s) q) (\<lambda>e.
     if \<not> remove_pos < q_len e then Inr (Break (False, s)) else
     let trim_avail = min remove_len (u32_sub (q_len e) remove_pos) in
     ebind (in_buf q (tr_afl s)) (\<lambda>mem.
     ebind (write_with_gap ok mem (q_len e) remove_pos trim_avail s) (\<lambda>s.
     case trim_run_target h s of (stop_soon, s) \<Rightarrow>
     if stop_soon \<or> trim_fault s = FSRV_RUN_ERROR then Inr (Break (True, s)) else
     let s = s\<lparr>trim_execs := u32_add (trim_execs s) 1\<rparr> in
     ebind (classify_trace (count_table s) (afl.trace_bits (tr_afl s))) (\<lambda>trace.
     let s = s\<lparr>tr_afl := (tr_afl s)\<lparr>trace_bits := trace\<rparr>\<rparr> in
     if t_hash h trace = q_exec_cksum e then
       let move_tail = u32_sub (u32_sub (q_len e) remove_pos) trim_avail;
           len = u32_sub (q_len e) trim_avail in
       ebind (memmove mem remove_pos (remove_pos + trim_avail) move_tail) (\<lambda>mem.
       ebind (set_in_buf q mem (set_entry q (e\<lparr>q_len := len\<rparr>) (tr_afl s))) (\<lambda>a.
       let s = s\<lparr>tr_afl := a, len_p2 := pow2_u32 len\<rparr> in
       Inr (Cont (remove_pos, if needs_write s then s else s\<lparr>needs_write := True, clean_trace := trace\<rparr>))))
     else Inr (Cont (u32_add remove_pos remove_len, s)))))))"

definition trim_round :: "'w thost \<Rightarrow> (nat \<Rightarrow> bool) \<Rightarrow> nat \<Rightarrow> nat \<times> 'w trim \<Rightarrow>
    ((bool \<times> 'w trim, nat \<times> 'w trim) ctl) res" where
  "trim_round h ok q = (\<lambda>(remove_len, s).
     if \<not> remove_len \<ge> max (len_p2 s div TRIM_END_STEPS) TRIM_MIN_BYTES then Inr (Break (False, s))
     else ebind (run_loop (trim_step h ok q remove_len) (remove_len, s)) (\<lambda>(aborted, s).
       Inr (if aborted then Break (True, s) else Cont (remove_len div 2, s))))"

text \<open>The file gets the trimmed test case, the cache is told, and the entry competes for its edges again.\<close>

definition write_trimmed :: "nat \<Rightarrow> nat \<Rightarrow> 'w trim \<Rightarrow> 'w trim res" where
  "write_trimmed q orig_len s =
     ebind (in_buf q (tr_afl s)) (\<lambda>mem. ebind (entry (tr_afl s) q) (\<lambda>e.
     ebind (bytes_at mem 0 (q_len e)) (\<lambda>file.
     ebind (queue_testcase_retake_mem True q (if q_testcase_buf e = None then Some mem else None) (q_len e) orig_len
         (set_entry q (e\<lparr>q_file := file\<rparr>) (tr_afl s))) (\<lambda>a.
     ebind (update_bitmap_score q (a\<lparr>trace_bits := clean_trace s\<rparr>)) (\<lambda>a.
       Inr (s\<lparr>tr_afl := a\<rparr>))))))"

definition trim_case :: "'w thost \<Rightarrow> (nat \<Rightarrow> bool) \<Rightarrow> nat \<Rightarrow> 'w trim \<Rightarrow> (fsrv_run_result \<times> 'w trim) res" where
  "trim_case h ok q s =
     ebind (entry (tr_afl s) q) (\<lambda>e.
     let orig_len = q_len e; s = s\<lparr>needs_write := False, trim_fault := FSRV_RUN_OK\<rparr> in
     ebind (if q_len e < 5 then Inr (True, s)
            else
              let p2 = pow2_u32 (q_len e); remove_len = max (p2 div TRIM_START_STEPS) TRIM_MIN_BYTES in
              run_loop (trim_round h ok q)
                (remove_len, s\<lparr>bytes_trim_in := bytes_trim_in s + word_of_nat (q_len e), len_p2 := p2\<rparr>))
       (\<lambda>(aborted, s).
     ebind (if \<not> aborted \<and> needs_write s then write_trimmed q orig_len s else Inr s) (\<lambda>s.
     ebind (entry (tr_afl s) q) (\<lambda>e.
       Inr (trim_fault s, s\<lparr>bytes_trim_out := bytes_trim_out s + word_of_nat (q_len e)\<rparr>)))))"

section \<open>Its caller\<close>

text \<open>
  \<open>stopped\<close> is \<open>stop_soon\<close> after the trim. The result is \<open>None\<close> when the entry is abandoned, and the test case otherwise.
\<close>

definition trim_current :: "'w thost \<Rightarrow> (nat \<Rightarrow> bool) \<Rightarrow> (nat \<Rightarrow> 'r \<Rightarrow> (nat \<times> 'r) res) \<Rightarrow> nat option \<Rightarrow>
    bool \<Rightarrow> ('w \<Rightarrow> bool) \<Rightarrow> nat \<Rightarrow> 'r \<times> 'w trim \<Rightarrow> (bytes option \<times> 'r \<times> 'w trim) res" where
  "trim_current h ok rb junk disable_trim stopped q = (\<lambda>(r, s).
     ebind (entry (tr_afl s) q) (\<lambda>e.
     if \<not> non_instrumented_mode (tr_afl s) \<and> \<not> q_trim_done e \<and> \<not> disable_trim then
       let old_len = q_len e in
       ebind (trim_case h ok q s) (\<lambda>(res, s).
       ebind (queue_testcase_get rb True junk q (r, tr_afl s)) (\<lambda>(buf, r, a).
       if res = FSRV_RUN_ERROR then Inl Fatal
       else if stopped (tr_world s) then Inr (None, r, s\<lparr>tr_afl := a\<rparr>)
       else ebind (entry a q) (\<lambda>e.
         let a = set_entry q (e\<lparr>q_trim_done := True\<rparr>) a;
             a = (if q_len e \<le> 4 \<and> old_len > 4
                  then a\<lparr>ready_for_splicing_count := u32_sub (ready_for_splicing_count a) 1\<rparr> else a) in
         Inr (Some buf, r, s\<lparr>tr_afl := a\<rparr>))))
     else ebind (in_buf q (tr_afl s)) (\<lambda>buf. Inr (Some buf, r, s))))"

end
