(* ===== verification/AFL_TrimLemmas.thy ===== *)
theory AFL_TrimLemmas
  imports AFL_Trim AFL_CoverageProps AFL_CacheRuns AFL_TminLemmas "HOL-Library.Sublist"
begin

text \<open>
  What one step and one loop of the trimmer do, whatever the target does: the test case stays a
  subsequence of what it was, its first four bytes stay, and everything but the entry's length and
  buffer is left alone (\<open>trim_frame\<close>).
\<close>

section \<open>States\<close>

definition tbuf :: "nat \<Rightarrow> afl \<Rightarrow> bytes" where
  "tbuf q s = (case q_testcase_buf (queue_buf s ! q) of
       Some b \<Rightarrow> b
     | None \<Rightarrow> if queue_cur s = Some q then testcase_scratch s else splice_scratch s)"

definition tlen :: "nat \<Rightarrow> afl \<Rightarrow> nat" where
  "tlen q s = q_len (queue_buf s ! q)"

definition tdata :: "nat \<Rightarrow> afl \<Rightarrow> bytes" where
  "tdata q s = take (tlen q s) (tbuf q s)"

lemma in_buf_eval: "q < length (queue_buf s) \<Longrightarrow> in_buf q s = Inr (tbuf q s)"
  by (simp add: in_buf_def entry_def tbuf_def)

text \<open>What trimming leaves alone: all but the length and the buffer of the entry, the scratch buffers and the trace.\<close>

definition bare :: "queue_entry \<Rightarrow> queue_entry" where
  "bare e = e\<lparr>q_len := 0, q_testcase_buf := map_option (\<lambda>_. []) (q_testcase_buf e)\<rparr>"

definition trim_frame :: "nat \<Rightarrow> afl \<Rightarrow> afl \<Rightarrow> bool" where
  "trim_frame q s t \<longleftrightarrow> length (queue_buf t) = length (queue_buf s) \<and>
     (\<forall>j<length (queue_buf s). j \<noteq> q \<longrightarrow> queue_buf t ! j = queue_buf s ! j) \<and>
     bare (queue_buf t ! q) = bare (queue_buf s ! q) \<and>
     t\<lparr>queue_buf := [], testcase_scratch := [], splice_scratch := [], trace_bits := []\<rparr> =
     s\<lparr>queue_buf := [], testcase_scratch := [], splice_scratch := [], trace_bits := []\<rparr>"

lemma trim_frame_refl [simp]: "trim_frame q s s"
  by (simp add: trim_frame_def)

lemma trim_frame_trans: "trim_frame q s t \<Longrightarrow> trim_frame q t u \<Longrightarrow> trim_frame q s u"
  by (simp add: trim_frame_def)

lemma trim_frame_trace [simp]: "trim_frame q s (t\<lparr>trace_bits := tr\<rparr>) \<longleftrightarrow> trim_frame q s t"
  "trim_frame q (s\<lparr>trace_bits := tr\<rparr>) t \<longleftrightarrow> trim_frame q s t"
  by (simp_all add: trim_frame_def)

lemma bare_fields:
  assumes "bare e' = bare e"
  shows "q_file e' = q_file e" "q_exec_cksum e' = q_exec_cksum e" "q_tc_ref e' = q_tc_ref e" "q_trace_mini e' = q_trace_mini e"
    "q_n_fuzz_entry e' = q_n_fuzz_entry e" "q_light e' = q_light e" "q_trim_done e' = q_trim_done e"
    "q_testcase_buf e' = None \<longleftrightarrow> q_testcase_buf e = None"
  using arg_cong [OF assms, of q_file] arg_cong [OF assms, of q_exec_cksum] arg_cong [OF assms, of q_tc_ref]
    arg_cong [OF assms, of q_trace_mini] arg_cong [OF assms, of q_n_fuzz_entry] arg_cong [OF assms, of q_light]
    arg_cong [OF assms, of q_trim_done] arg_cong [OF assms, of q_testcase_buf]
  by (simp_all add: bare_def) (metis map_option_is_None)

lemma trim_frame_fields:
  assumes "trim_frame q s t"
  shows "length (queue_buf t) = length (queue_buf s)" "queue_cur t = queue_cur s" "top_rated t = top_rated s"
    "n_fuzz t = n_fuzz s" "cache_size t = cache_size s" "cache_max_size t = cache_max_size s"
    "non_instrumented_mode t = non_instrumented_mode s" "bare (queue_buf t ! q) = bare (queue_buf s ! q)"
    "\<And>j. j < length (queue_buf s) \<Longrightarrow> j \<noteq> q \<Longrightarrow> queue_buf t ! j = queue_buf s ! j"
    "ready_for_splicing_count t = ready_for_splicing_count s"
proof -
  have eq: "t\<lparr>queue_buf := [], testcase_scratch := [], splice_scratch := [], trace_bits := []\<rparr> =
     s\<lparr>queue_buf := [], testcase_scratch := [], splice_scratch := [], trace_bits := []\<rparr>"
    using assms by (simp add: trim_frame_def)
  show "queue_cur t = queue_cur s" "top_rated t = top_rated s"
    "n_fuzz t = n_fuzz s" "cache_size t = cache_size s" "cache_max_size t = cache_max_size s"
    "non_instrumented_mode t = non_instrumented_mode s" "ready_for_splicing_count t = ready_for_splicing_count s"
    using arg_cong [OF eq, of ready_for_splicing_count] arg_cong [OF eq, of queue_cur] arg_cong [OF eq, of top_rated] arg_cong [OF eq, of n_fuzz]
      arg_cong [OF eq, of cache_size] arg_cong [OF eq, of cache_max_size] arg_cong [OF eq, of non_instrumented_mode] by simp_all
qed (use assms in \<open>simp_all add: trim_frame_def\<close>)

text \<open>A new length and new contents of the buffer.\<close>

lemma set_in_buf_ok:
  assumes q: "q < length (queue_buf s)"
  shows "\<exists>t. set_in_buf q b (set_entry q ((queue_buf s ! q)\<lparr>q_len := n\<rparr>) s) = Inr t \<and> trim_frame q s t \<and>
    tbuf q t = b \<and> tlen q t = n \<and> afl.trace_bits t = afl.trace_bits s"
proof (cases "q_testcase_buf (queue_buf s ! q)")
  case None
  then show ?thesis using q
    by (auto simp: set_in_buf_def entry_def set_entry_def trim_frame_def bare_def tbuf_def tlen_def)
next
  case (Some c)
  then show ?thesis using q
    by (auto simp: set_in_buf_def entry_def set_entry_def trim_frame_def bare_def tbuf_def tlen_def)
qed

section \<open>The gap\<close>

lemma subseq_cut: "subseq (cut n pos d) d"
proof -
  have "drop (pos + n) d = drop n (drop pos d)" by (simp add: add.commute)
  then have "subseq (drop (pos + n) d) (drop pos d)" by (metis suffix_drop suffix_imp_subseq)
  then have "subseq (take pos d @ drop (pos + n) d) (take pos d @ drop pos d)"
    by (intro list_emb_append_mono subseq_order.order_refl)
  then show ?thesis by (simp add: cut_def)
qed

lemma take_cut: "k \<le> pos \<Longrightarrow> pos \<le> length d \<Longrightarrow> take k (cut n pos d) = take k d"
  by (simp add: cut_def)

text \<open>The state around the queue that only the hand-over changes.\<close>

definition same_io :: "'w trim \<Rightarrow> 'w trim \<Rightarrow> bool" where
  "same_io s t \<longleftrightarrow> use_shmem_fuzz t = use_shmem_fuzz s \<and> use_stdin t = use_stdin s \<and>
     length (shmem_fuzz t) = length (shmem_fuzz s) \<and> count_table t = count_table s"

lemma same_io_refl [simp]: "same_io s s"
  by (simp add: same_io_def)

lemma same_io_trans: "same_io s t \<Longrightarrow> same_io t u \<Longrightarrow> same_io s u"
  by (simp add: same_io_def)

definition handed :: "'w trim \<Rightarrow> 'w trim \<Rightarrow> bytes \<Rightarrow> bool" where
  "handed s t d \<longleftrightarrow> same_io s t \<and> target_input t = d \<and> tr_afl t = tr_afl s \<and> tr_world t = tr_world s \<and>
     needs_write t = needs_write s \<and> clean_trace t = clean_trace s"

lemma bytes_at_ok: "i + n \<le> length mem \<Longrightarrow> bytes_at mem i n = Inr (take n (drop i mem))"
  by (simp add: bytes_at_def)

lemma write_with_gap_ok:
  assumes len: "len \<le> length mem" "len \<le> MAX_FILE" and pos: "pos + n \<le> len"
    and sh: "use_shmem_fuzz s \<longrightarrow> len \<le> length (shmem_fuzz s)" and ok: "\<forall>k. ok k"
  shows "\<exists>t. write_with_gap ok mem len pos n s = Inr t \<and> handed s t (cut n pos (take len mem))"
proof -
  have m: "len < 4294967296" using len(2) by (simp add: MAX_FILE_def)
  have ex: "\<exists>b. afl_realloc ok (out_scratch s) (u32_add (len - n) 1) = Some b"
    by (cases "out_scratch s") (auto simp: afl_realloc_def Let_def ok complete_size_def AFL_ALLOC_SIZE_OFFSET_def)
  then obtain b where b: "afl_realloc ok (out_scratch s) (u32_add (len - n) 1) = Some b" by blast
  have tail: "u32_sub (u32_sub len pos) n = len - pos - n" "u32_sub len n = len - n" using pos m by simp_all
  have flip: "len - (n + pos) = len - (pos + n)" by (simp only: add.commute)
  have d: "cut n pos (take len mem) = take pos mem @ take (len - pos - n) (drop (pos + n) mem)"
    using pos by (simp add: cut_def drop_take)
  show ?thesis
  proof (cases "use_shmem_fuzz s")
    case True
    let ?m1 = "take pos mem @ drop pos (shmem_fuzz s)"
    have l: "len \<le> length (shmem_fuzz s)" using True sh by simp
    have "memcpy (shmem_fuzz s) 0 mem 0 pos = Inr ?m1" using pos len l by (simp add: mem_ok)
    moreover have "copy_tail ?m1 pos mem (pos + n) (len - pos - n) =
        Inr (take pos mem @ take (len - pos - n) (drop (pos + n) mem) @ drop (len - n) (shmem_fuzz s))"
      using pos len l by (simp add: copy_tail_ok)
    ultimately show ?thesis using True b pos len l
      by (simp add: flip write_with_gap_def Let_def tail handed_def same_io_def target_input_def d)
  next
    case False
    have "bytes_at mem 0 pos = Inr (take pos mem)" "bytes_at mem (pos + n) (len - pos - n) = Inr (take (len - pos - n) (drop (pos + n) mem))"
      using pos len by (simp_all add: bytes_at_ok)
    then show ?thesis using False b pos len
      by (simp add: flip write_with_gap_def Let_def tail handed_def same_io_def target_input_def d)
  qed
qed

section \<open>One step\<close>

text \<open>Traces of the target have \<open>n\<close> bytes; \<open>seen h d w\<close> is the classified trace of a run on \<open>d\<close>.\<close>

definition traces_of :: "nat \<Rightarrow> 'w thost \<Rightarrow> bool" where
  "traces_of n h \<longleftrightarrow> n mod 64 = 0 \<and> (\<forall>d w. length (fst (snd (t_exec h d w))) = n)"

definition seen :: "'w thost \<Rightarrow> bytes \<Rightarrow> 'w \<Rightarrow> bytes" where
  "seen h d w = map class8 (fst (snd (t_exec h d w)))"

definition trim_ok :: "nat \<Rightarrow> 'w trim \<Rightarrow> bool" where
  "trim_ok q s \<longleftrightarrow> q < length (queue_buf (tr_afl s)) \<and> tlen q (tr_afl s) \<le> length (tbuf q (tr_afl s)) \<and>
     tlen q (tr_afl s) \<le> MAX_FILE \<and> (use_shmem_fuzz s \<longrightarrow> tlen q (tr_afl s) \<le> length (shmem_fuzz s)) \<and>
     table_ok (count_table s)"

lemma length_tdata: "trim_ok q s \<Longrightarrow> length (tdata q (tr_afl s)) = tlen q (tr_afl s)"
  by (simp add: trim_ok_def tdata_def)

lemma length_seen: "traces_of n h \<Longrightarrow> length (seen h d w) = n"
  by (simp add: traces_of_def seen_def)

lemma classify_trace_ok:
  "table_ok tbl \<Longrightarrow> length trace mod 64 = 0 \<Longrightarrow> classify_trace tbl trace = Inr (map class8 trace)"
  unfolding classify_trace_def
  by (subst classify_counts_eval [where ?'w = 64]) (simp_all add: cov.make_def)

definition step_end :: "nat \<Rightarrow> 'w trim \<Rightarrow> 'w trim \<Rightarrow> bool" where
  "step_end q s t \<longleftrightarrow> trim_ok q t \<and> same_io s t \<and> trim_frame q (tr_afl s) (tr_afl t)"

text \<open>The target stops the fuzzer or cannot be run, accepts the shorter test case, or notices the gap.\<close>

lemma trim_step_cases:
  fixes s :: "'w trim"
  assumes h: "traces_of n h" and s: "trim_ok q s" and pos: "pos < tlen q (tr_afl s)" and rl: "0 < rl" "rl < 2 ^ 28" and ok: "\<forall>k. ok k"
  defines "d \<equiv> tdata q (tr_afl s)" and "ck \<equiv> q_exec_cksum (queue_buf (tr_afl s) ! q)"
  defines "halts \<equiv> fst (snd (snd (t_exec h (cut rl pos d) (tr_world s)))) \<or> fst (t_exec h (cut rl pos d) (tr_world s)) = FSRV_RUN_ERROR"
  shows "\<exists>t. step_end q s t \<and> length (afl.trace_bits (tr_afl t)) = n \<and>
    trim_fault t = fst (t_exec h (cut rl pos d) (tr_world s)) \<and>
    (if halts then
       trim_step h ok q rl (pos, s) = Inr (Break (True, t)) \<and> tdata q (tr_afl t) = d \<and>
       needs_write t = needs_write s \<and> clean_trace t = clean_trace s
     else if t_hash h (seen h (cut rl pos d) (tr_world s)) = ck then
       trim_step h ok q rl (pos, s) = Inr (Cont (pos, t)) \<and> tdata q (tr_afl t) = cut rl pos d \<and>
       needs_write t \<and> clean_trace t = (if needs_write s then clean_trace s else seen h (cut rl pos d) (tr_world s))
     else trim_step h ok q rl (pos, s) = Inr (Cont (pos + rl, t)) \<and> tdata q (tr_afl t) = d \<and>
       needs_write t = needs_write s \<and> clean_trace t = clean_trace s)"
proof -
  let ?a = "tr_afl s"
  define e where "e = queue_buf ?a ! q"
  define len where "len = tlen q ?a"
  define av where "av = min rl (len - pos)"
  define mem where "mem = tbuf q ?a"
  have q: "q < length (queue_buf ?a)" and lm: "len \<le> length mem" "len \<le> MAX_FILE" and tb: "table_ok (count_table s)"
    and sh: "use_shmem_fuzz s \<longrightarrow> len \<le> length (shmem_fuzz s)"
    using s by (auto simp: trim_ok_def len_def mem_def)
  have ql: "q_len e = len" by (simp add: e_def len_def tlen_def)
  have dd: "d = take len mem" by (simp add: d_def tdata_def len_def mem_def)
  have pl: "pos < len" using pos by (simp add: len_def)
  have m: "len < 4294967296" "pos + rl < 4294967296" using lm(2) rl(2) pl by (simp_all add: MAX_FILE_def)
  have pa: "pos + av \<le> len" using pl by (simp add: av_def)
  have cav: "cut av pos (take len mem) = cut rl pos d" using pl lm by (auto simp: dd cut_def av_def min_def)
  from write_with_gap_ok [where s = s, OF lm pa sh ok] obtain s1 where
    s1: "write_with_gap ok mem len pos av s = Inr s1" "handed s s1 (cut rl pos d)" unfolding cav by blast
  obtain ret trace stop w where ex: "t_exec h (cut rl pos d) (tr_world s) = (ret, trace, stop, w)" by (metis prod_cases4)
  have ltr: "length trace = n" "n mod 64 = 0" using h ex unfolding traces_of_def by (metis fst_conv snd_conv)+
  have sn: "seen h (cut rl pos d) (tr_world s) = map class8 trace" by (simp add: seen_def ex)
  define s2 where "s2 = s1\<lparr>tr_world := w, tr_afl := ?a\<lparr>trace_bits := trace\<rparr>, trim_fault := ret\<rparr>"
  have run: "trim_run_target h s1 = (stop, s2)"
    using s1(2) ex by (simp add: trim_run_target_def handed_def s2_def)
  define s3 where "s3 = s2\<lparr>trim_execs := u32_add (trim_execs s2) 1, tr_afl := ?a\<lparr>trace_bits := map class8 trace\<rparr>\<rparr>"
  have io: "same_io s s2" "same_io s s3" using s1(2) by (simp_all add: handed_def same_io_def s2_def s3_def)
  have ct: "classify_trace (count_table s1) trace = Inr (map class8 trace)"
    using classify_trace_ok [of "count_table s" trace] tb ltr s1(2) by (simp add: handed_def same_io_def)
  have flags: "needs_write s1 = needs_write s" "clean_trace s1 = clean_trace s" using s1(2) by (simp_all add: handed_def)
  have hl: "halts \<longleftrightarrow> stop \<or> ret = FSRV_RUN_ERROR" by (simp add: halts_def ex)
  have ent: "entry ?a q = Inr e" "in_buf q ?a = Inr mem" using q by (simp_all add: entry_def e_def in_buf_eval mem_def)
  have sub: "u32_sub len pos = len - pos" "u32_sub (u32_sub len pos) av = len - pos - av" "u32_sub len av = len - av"
    "u32_add pos rl = pos + rl" using pl pa m by simp_all
  have sub': "u32_sub (len - pos) av = len - pos - av" using pa m by simp
  have fields: "trim_fault s2 = ret" "afl.trace_bits (tr_afl s2) = trace" "count_table s2 = count_table s1" "needs_write s3 = needs_write s"
    by (simp_all add: s2_def s3_def flags)
  define cutted :: "((bool \<times> 'w trim, nat \<times> 'w trim) ctl) res" where "cutted = ebind (memmove mem pos (pos + av) (len - pos - av)) (\<lambda>mem.
       ebind (set_in_buf q mem (set_entry q (e\<lparr>q_len := len - av\<rparr>) (tr_afl s3))) (\<lambda>a.
       Inr (Cont (pos, if needs_write s then s3\<lparr>tr_afl := a, len_p2 := pow2_u32 (len - av)\<rparr>
         else s3\<lparr>tr_afl := a, len_p2 := pow2_u32 (len - av), needs_write := True, clean_trace := map class8 trace\<rparr>))))"
  have step: "trim_step h ok q rl (pos, s) = (if halts then Inr (Break (True, s2))
      else if t_hash h (map class8 trace) = ck then cutted else Inr (Cont (pos + rl, s3)))"
    unfolding trim_step_def prod.case ent ebind_simps ql Let_def sub(1) av_def [symmetric] s1(1) run
    using pl sub' by (cases "needs_write s"; cases stop; cases "ret = FSRV_RUN_ERROR")
      (simp_all add: fields ct hl ck_def e_def [symmetric] cutted_def sub s2_def s3_def flags)
  have keep: "step_end q s t" if "same_io s t" "trim_frame q ?a (tr_afl t)" "tlen q (tr_afl t) \<le> len" "tlen q (tr_afl t) \<le> length (tbuf q (tr_afl t))" for t :: "'w trim"
    using that s trim_frame_fields(1) [OF that(2)] by (auto simp: step_end_def trim_ok_def same_io_def len_def)
  have a23: "tr_afl s2 = ?a\<lparr>trace_bits := trace\<rparr>" "tr_afl s3 = ?a\<lparr>trace_bits := map class8 trace\<rparr>"
    by (simp_all add: s2_def s3_def)
  have views: "tlen q (?a\<lparr>trace_bits := tr\<rparr>) = len" "tbuf q (?a\<lparr>trace_bits := tr\<rparr>) = mem" for tr
    by (simp_all add: tlen_def tbuf_def len_def mem_def split: option.splits)
  have d23: "tdata q (tr_afl s2) = d" "tdata q (tr_afl s3) = d" by (simp_all add: a23 tdata_def views dd)
  have e23: "step_end q s s2" "step_end q s s3"
    using keep [OF io(1)] keep [OF io(2)] by (simp_all add: a23 views lm)
  consider "halts" | "\<not> halts" "t_hash h (map class8 trace) \<noteq> ck" | "\<not> halts" "t_hash h (map class8 trace) = ck" by blast
  then show ?thesis
  proof cases
    case 1
    then show ?thesis using e23 d23 step flags ltr by (intro exI [of _ s2]) (simp add: a23 ex, simp add: s2_def)
  next
    case 2
    then show ?thesis using e23 d23 step flags ltr by (intro exI [of _ s3]) (simp add: a23 sn ex, simp add: s2_def s3_def)
  next
    case 3
    define mem' where "mem' = take pos mem @ take (len - pos - av) (drop (pos + av) mem) @ drop (len - av) mem"
    have mm: "memmove mem pos (pos + av) (len - pos - av) = Inr mem'"
      using pa lm by (simp add: mem_ok mem'_def)
    have q3: "q < length (queue_buf (tr_afl s3))" "queue_buf (tr_afl s3) ! q = e" using q by (simp_all add: a23 e_def)
    from set_in_buf_ok [OF q3(1), of mem' "len - av"] obtain a where
      a0: "set_in_buf q mem' (set_entry q ((queue_buf (tr_afl s3) ! q)\<lparr>q_len := len - av\<rparr>) (tr_afl s3)) = Inr a" "trim_frame q (tr_afl s3) a"
        "tbuf q a = mem'" "tlen q a = len - av" "afl.trace_bits a = afl.trace_bits (tr_afl s3)" by blast
    note a = a0 [unfolded q3(2)]
    have atr: "afl.trace_bits a = map class8 trace" using a(5) by (simp add: a23)
    define t where "t = (if needs_write s then s3\<lparr>tr_afl := a, len_p2 := pow2_u32 (len - av)\<rparr>
         else s3\<lparr>tr_afl := a, len_p2 := pow2_u32 (len - av), needs_write := True, clean_trace := map class8 trace\<rparr>)"
    have run3: "trim_step h ok q rl (pos, s) = Inr (Cont (pos, t))"
      unfolding step cutted_def mm ebind_simps a(1) t_def using 3 by simp
    have ta: "tr_afl t = a" by (simp add: t_def)
    have len': "length mem' = length mem" using pa lm by (simp add: mem'_def)
    have fr: "trim_frame q ?a a" using a(2) by (simp add: a23)
    have io3: "same_io s t" using io(2) by (simp add: t_def same_io_def)
    have "tdata q a = cut av pos (take len mem)"
      using pa lm by (simp add: tdata_def a(3,4) mem'_def cut_def drop_take add.commute [of av pos])
    then have td: "tdata q a = cut rl pos d" unfolding cav .
    have "step_end q s t" by (rule keep [OF io3]) (use fr a(3,4) lm len' in \<open>simp_all add: ta\<close>)
    moreover have "needs_write t" "clean_trace t = (if needs_write s then clean_trace s else map class8 trace)"
      by (simp_all add: t_def s3_def s2_def flags)
    moreover have "trim_fault t = ret" by (simp add: t_def s3_def s2_def)
    ultimately show ?thesis using run3 3 ltr ex by (intro exI [of _ t]) (simp add: ta atr sn td)
  qed
qed

section \<open>Loops\<close>

text \<open>A target that never stops the fuzzer, and one whose trace depends on the input only.\<close>

definition quiet :: "'w thost \<Rightarrow> bool" where
  "quiet h \<longleftrightarrow> (\<forall>d w. \<not> fst (snd (snd (t_exec h d w))) \<and> fst (t_exec h d w) \<noteq> FSRV_RUN_ERROR)"

definition accepts :: "'w thost \<Rightarrow> u64 \<Rightarrow> (bytes \<Rightarrow> bool) \<Rightarrow> bool" where
  "accepts h ck K \<longleftrightarrow> (\<forall>d w. t_hash h (seen h d w) = ck \<longleftrightarrow> K d)"

definition cksum_of :: "nat \<Rightarrow> 'w trim \<Rightarrow> u64" where
  "cksum_of q s = q_exec_cksum (queue_buf (tr_afl s) ! q)"

text \<open>What the trimmer has made of the state \<open>s\<close> at any time.\<close>

definition shrunk :: "nat \<Rightarrow> 'w thost \<Rightarrow> nat \<Rightarrow> 'w trim \<Rightarrow> 'w trim \<Rightarrow> bool" where
  "shrunk n h q s t \<longleftrightarrow> step_end q s t \<and> (quiet h \<longrightarrow> trim_fault t \<noteq> FSRV_RUN_ERROR) \<and> length (afl.trace_bits (tr_afl t)) = n \<and>
     subseq (tdata q (tr_afl t)) (tdata q (tr_afl s)) \<and> take 4 (tdata q (tr_afl t)) = take 4 (tdata q (tr_afl s)) \<and>
     (if needs_write t then t_hash h (clean_trace t) = cksum_of q s \<and> (\<exists>d w. clean_trace t = seen h d w) \<and>
        tlen q (tr_afl t) < tlen q (tr_afl s) \<and> (\<forall>K. accepts h (cksum_of q s) K \<longrightarrow> K (tdata q (tr_afl t)))
      else tdata q (tr_afl t) = tdata q (tr_afl s))"

lemma step_end_trans: "step_end q s t \<Longrightarrow> step_end q t u \<Longrightarrow> step_end q s u"
  by (auto simp: step_end_def intro: same_io_trans trim_frame_trans)

lemma cksum_kept: "step_end q s t \<Longrightarrow> cksum_of q t = cksum_of q s"
  by (simp add: step_end_def cksum_of_def bare_fields(2) [OF trim_frame_fields(8)])

lemma trim_step_shrinks:
  assumes h: "traces_of n h" and ok: "\<forall>k. ok k" and rl: "0 < rl" "rl < 2 ^ 28" and pos: "4 \<le> pos" and s: "shrunk n h q s0 s"
  shows "\<exists>t. shrunk n h q s0 t \<and>
    (trim_step h ok q rl (pos, s) = Inr (Break (False, t)) \<or>
     trim_step h ok q rl (pos, s) = Inr (Break (True, t)) \<and> \<not> quiet h \<or>
     (\<exists>p. trim_step h ok q rl (pos, s) = Inr (Cont (p, t)) \<and> 4 \<le> p \<and>
       tlen q (tr_afl t) - p < tlen q (tr_afl s) - pos))"
proof -
  let ?d = "tdata q (tr_afl s)" and ?w = "tr_world s"
  have o: "trim_ok q s" and se: "step_end q s0 s" using s by (simp_all add: shrunk_def step_end_def)
  have q: "q < length (queue_buf (tr_afl s))" using o by (simp add: trim_ok_def)
  show ?thesis
  proof (cases "pos < tlen q (tr_afl s)")
    case False
    then have "trim_step h ok q rl (pos, s) = Inr (Break (False, s))"
      using q by (simp add: trim_step_def entry_def tlen_def)
    then show ?thesis using s by blast
  next
    case True
    have ld: "length ?d = tlen q (tr_afl s)" using length_tdata [OF o] .
    have ck: "q_exec_cksum (queue_buf (tr_afl s) ! q) = cksum_of q s0" using cksum_kept [OF se] by (simp add: cksum_of_def)
    have gap: "subseq (cut rl pos ?d) ?d" "take 4 (cut rl pos ?d) = take 4 ?d" "length (cut rl pos ?d) - pos < length ?d - pos"
      "length (cut rl pos ?d) < length ?d"
      using take_cut [OF pos, of ?d rl] True ld rl(1) by (simp_all add: subseq_cut length_cut)
    from trim_step_cases [OF h o True rl ok] obtain t where t: "step_end q s t" "length (afl.trace_bits (tr_afl t)) = n"
        "trim_fault t = fst (t_exec h (cut rl pos ?d) ?w)" and c: "if fst (snd (snd (t_exec h (cut rl pos ?d) ?w))) \<or> fst (t_exec h (cut rl pos ?d) ?w) = FSRV_RUN_ERROR then
         trim_step h ok q rl (pos, s) = Inr (Break (True, t)) \<and> tdata q (tr_afl t) = ?d \<and>
         needs_write t = needs_write s \<and> clean_trace t = clean_trace s
       else if t_hash h (seen h (cut rl pos ?d) ?w) = cksum_of q s0 then
         trim_step h ok q rl (pos, s) = Inr (Cont (pos, t)) \<and> tdata q (tr_afl t) = cut rl pos ?d \<and>
         needs_write t \<and> clean_trace t = (if needs_write s then clean_trace s else seen h (cut rl pos ?d) ?w)
       else trim_step h ok q rl (pos, s) = Inr (Cont (pos + rl, t)) \<and> tdata q (tr_afl t) = ?d \<and>
         needs_write t = needs_write s \<and> clean_trace t = clean_trace s" unfolding ck by blast
    have f: "quiet h \<longrightarrow> trim_fault t \<noteq> FSRV_RUN_ERROR" using t(3) by (simp add: quiet_def)
    have lt: "length (tdata q (tr_afl t)) = tlen q (tr_afl t)" using t(1) by (simp add: step_end_def length_tdata)
    have st: "step_end q s0 t" using se t(1) by (rule step_end_trans)
    have same: "shrunk n h q s0 t" if "tdata q (tr_afl t) = ?d" "needs_write t = needs_write s" "clean_trace t = clean_trace s"
      using s that lt ld st t(2) f by (auto simp: shrunk_def split: if_splits)
    show ?thesis
    proof (cases "tdata q (tr_afl t) = ?d")
      case keeps: True
      then have d: "tdata q (tr_afl t) \<noteq> cut rl pos ?d" using gap(4) by auto
      then have sh: "shrunk n h q s0 t" using c by (intro same [OF keeps]) (auto split: if_splits)
      show ?thesis using c d sh keeps pos True lt ld rl(1) by (intro exI [of _ t]) (auto simp: quiet_def split: if_splits)
    next
      case False
      then have run: "trim_step h ok q rl (pos, s) = Inr (Cont (pos, t))" "tdata q (tr_afl t) = cut rl pos ?d" "needs_write t"
        "clean_trace t = (if needs_write s then clean_trace s else seen h (cut rl pos ?d) ?w)"
        "t_hash h (seen h (cut rl pos ?d) ?w) = cksum_of q s0"
        using c by (auto split: if_splits)
      have len: "tlen q (tr_afl t) < tlen q (tr_afl s)" "tlen q (tr_afl s) \<le> tlen q (tr_afl s0)"
        "tlen q (tr_afl t) - pos < tlen q (tr_afl s) - pos"
      proof -
        show "tlen q (tr_afl t) < tlen q (tr_afl s)" "tlen q (tr_afl t) - pos < tlen q (tr_afl s) - pos"
          using gap(3,4) lt ld by (simp_all add: run(2))
        have "length ?d \<le> length (tdata q (tr_afl s0))" using s by (auto simp: shrunk_def dest: list_emb_length)
        then show "tlen q (tr_afl s) \<le> tlen q (tr_afl s0)" using ld by (simp add: tdata_def)
      qed
      have "shrunk n h q s0 t"
        using s run gap(1,2) st t(2) f len length_seen [OF h, of "cut rl pos ?d" ?w]
        by (auto simp: shrunk_def accepts_def intro: subseq_order.order_trans split: if_splits)
      then show ?thesis using run(1) len(3) pos by blast
    qed
  qed
qed

lemma trim_loop_shrinks:
  assumes h: "traces_of n h" and ok: "\<forall>k. ok k" and rl: "0 < rl" "rl < 2 ^ 28" and pos: "4 \<le> pos" and s: "shrunk n h q s0 s"
  shows "\<exists>x. run_loop (trim_step h ok q rl) (pos, s) = Inr x \<and> (fst x \<longrightarrow> \<not> quiet h) \<and> shrunk n h q s0 (snd x)"
proof (rule run_loop_returns [where I = "\<lambda>(p, t). 4 \<le> p \<and> shrunk n h q s0 t" and m = "\<lambda>(p, t). tlen q (tr_afl t) - p"])
  fix st :: "nat \<times> 'a trim" assume I: "case st of (p, t) \<Rightarrow> 4 \<le> p \<and> shrunk n h q s0 t"
  obtain p t where st: "st = (p, t)" by fastforce
  have pt: "4 \<le> p" "shrunk n h q s0 t" using I by (simp_all add: st)
  from trim_step_shrinks [OF h ok rl pt] obtain u where u: "shrunk n h q s0 u" "trim_step h ok q rl (p, t) = Inr (Break (False, u)) \<or>
     trim_step h ok q rl (p, t) = Inr (Break (True, u)) \<and> \<not> quiet h \<or>
     (\<exists>p'. trim_step h ok q rl (p, t) = Inr (Cont (p', u)) \<and> 4 \<le> p' \<and> tlen q (tr_afl u) - p' < tlen q (tr_afl t) - p)" by blast
  from u(2) show "(\<exists>a. trim_step h ok q rl st = Inr (Break a) \<and> (fst a \<longrightarrow> \<not> quiet h) \<and> shrunk n h q s0 (snd a)) \<or>
     (\<exists>st'. trim_step h ok q rl st = Inr (Cont st') \<and> (case st' of (p, t) \<Rightarrow> 4 \<le> p \<and> shrunk n h q s0 t) \<and>
       (case st' of (p, t) \<Rightarrow> tlen q (tr_afl t) - p) < (case st of (p, t) \<Rightarrow> tlen q (tr_afl t) - p))"
    using u(1) unfolding st by auto
qed (use pos s in simp)

lemma trim_rounds_shrink:
  assumes h: "traces_of n h" and ok: "\<forall>k. ok k" and rl: "rl < 2 ^ 28" and s: "shrunk n h q s0 s"
  shows "\<exists>x. run_loop (trim_round h ok q) (rl, s) = Inr x \<and> (fst x \<longrightarrow> \<not> quiet h) \<and> shrunk n h q s0 (snd x)"
proof (rule run_loop_returns [where I = "\<lambda>(rl, t). rl < 2 ^ 28 \<and> shrunk n h q s0 t" and m = fst])
  fix st :: "nat \<times> 'a trim" assume I: "case st of (rl, t) \<Rightarrow> rl < 2 ^ 28 \<and> shrunk n h q s0 t"
  obtain r t where st: "st = (r, t)" by fastforce
  show "(\<exists>a. trim_round h ok q st = Inr (Break a) \<and> (fst a \<longrightarrow> \<not> quiet h) \<and> shrunk n h q s0 (snd a)) \<or>
     (\<exists>st'. trim_round h ok q st = Inr (Cont st') \<and> (case st' of (rl, t) \<Rightarrow> rl < 2 ^ 28 \<and> shrunk n h q s0 t) \<and> fst st' < fst st)"
  proof (cases "max (len_p2 t div TRIM_END_STEPS) TRIM_MIN_BYTES \<le> r")
    case False
    then show ?thesis using I by (simp add: st trim_round_def)
  next
    case True
    then have r: "4 \<le> r" "0 < r" "r < 2 ^ 28" using I by (simp_all add: st TRIM_MIN_BYTES_def)
    from trim_loop_shrinks [OF h ok r(2,3,1), of q s0 t] obtain ab u where
      u: "run_loop (trim_step h ok q r) (r, t) = Inr (ab, u)" "ab \<longrightarrow> \<not> quiet h" "shrunk n h q s0 u" using I by (auto simp: st)
    have "trim_round h ok q st = Inr (if ab then Break (True, u) else Cont (r div 2, u))"
      using True u(1) by (simp add: st trim_round_def)
    then show ?thesis using u(2,3) r by (cases ab) (simp_all add: st)
  qed
qed (use rl s in simp)

end
