(* ===== verification/AFL_TrimProps.thy ===== *)
theory AFL_TrimProps
  imports AFL_TrimLemmas
begin

text \<open>
  The whole of \<open>trim_case\<close> and of its caller: it ends without a fault for every target, keeps the
  invariant of the scores but for the edges that a collision of the hash lets in (\<open>missed\<close>), leaves the file equal to the
  trimmed test case, and keeps the checksum of the trace. The
  account of the cache is not told (\<open>trim_leaves_account\<close>).
\<close>

section \<open>Scores\<close>

lemma trim_frame_refs:
  assumes "trim_frame q s t" "j < length (queue_buf s)"
  shows "q_tc_ref (queue_buf t ! j) = q_tc_ref (queue_buf s ! j) \<and> q_trace_mini (queue_buf t ! j) = q_trace_mini (queue_buf s ! j) \<and>
    q_n_fuzz_entry (queue_buf t ! j) = q_n_fuzz_entry (queue_buf s ! j)"
  using trim_frame_fields(9) [OF assms(1,2)] bare_fields(3,4,5) [OF trim_frame_fields(8) [OF assms(1)]] by (cases "j = q") simp_all

lemma n_fuzz_nth: "n_fuzz_ok s \<longleftrightarrow> (\<forall>i<length (queue_buf s). q_n_fuzz_entry (queue_buf s ! i) < length (n_fuzz s))"
  by (simp add: n_fuzz_ok_def all_set_conv_all_nth)

lemma n_fuzz_ok_frame: "n_fuzz_ok s \<Longrightarrow> trim_frame q s t \<Longrightarrow> n_fuzz_ok t"
  using trim_frame_refs [of q s t] trim_frame_fields(1,4) [of q s t]
  unfolding n_fuzz_nth by auto

text \<open>
  The edges that the compacted trace of the entry \<open>q\<close> lacks although some run of the target with the
  entry's checksum hits them: none when no two traces of the target share a checksum, and none for an entry without a
  compacted trace.
\<close>

definition missed :: "'w thost \<Rightarrow> nat \<Rightarrow> afl \<Rightarrow> (nat \<times> nat) set" where
  "missed h q s = {(q, i) |i. \<exists>d w m. t_hash h (seen h d w) = q_exec_cksum (queue_buf s ! q) \<and> i < length (seen h d w) \<and>
     seen h d w ! i \<noteq> 0 \<and> q_trace_mini (queue_buf s ! q) = Some m \<and> \<not> edge_bit m i}"

section \<open>The result\<close>

lemma stat_fields:
  assumes "stat e' = stat e"
  shows "q_len e' = q_len e" "q_file e' = q_file e" "q_testcase_buf e' = q_testcase_buf e" "q_light e' = q_light e"
    "q_trim_done e' = q_trim_done e" "q_exec_cksum e' = q_exec_cksum e"
  using arg_cong [OF assms, of q_len] arg_cong [OF assms, of q_file] arg_cong [OF assms, of q_testcase_buf]
    arg_cong [OF assms, of q_light] arg_cong [OF assms, of q_trim_done] arg_cong [OF assms, of q_exec_cksum]
  by (simp_all add: stat_def)

lemma framed_more:
  assumes "framed s t"
  shows "queue_cur t = queue_cur s" "testcase_scratch t = testcase_scratch s" "splice_scratch t = splice_scratch s"
    "cache_size t = cache_size s" "cache_max_size t = cache_max_size s" "non_instrumented_mode t = non_instrumented_mode s"
    "ready_for_splicing_count t = ready_for_splicing_count s"
proof -
  have eq: "t\<lparr>queue_buf := [], top_rated := [], score_changed := False\<rparr> = s\<lparr>queue_buf := [], top_rated := [], score_changed := False\<rparr>"
    using assms by (simp add: framed_def)
  show "queue_cur t = queue_cur s" "testcase_scratch t = testcase_scratch s" "splice_scratch t = splice_scratch s"
    "cache_size t = cache_size s" "cache_max_size t = cache_max_size s" "non_instrumented_mode t = non_instrumented_mode s"
    "ready_for_splicing_count t = ready_for_splicing_count s"
    using arg_cong [OF eq, of ready_for_splicing_count] arg_cong [OF eq, of queue_cur] arg_cong [OF eq, of testcase_scratch] arg_cong [OF eq, of splice_scratch]
      arg_cong [OF eq, of cache_size] arg_cong [OF eq, of cache_max_size] arg_cong [OF eq, of non_instrumented_mode] by simp_all
qed

text \<open>
  \<open>others_kept\<close>: only the entry \<open>q\<close> is touched, apart from the reference counts and compacted traces,
  and of the entry itself only its length, its file and its buffer.
\<close>

definition others_kept :: "nat \<Rightarrow> afl \<Rightarrow> afl \<Rightarrow> bool" where
  "others_kept q s t \<longleftrightarrow> length (queue_buf t) = length (queue_buf s) \<and>
     (\<forall>j<length (queue_buf s). j \<noteq> q \<longrightarrow> stat (queue_buf t ! j) = stat (queue_buf s ! j)) \<and>
     q_light (queue_buf t ! q) = q_light (queue_buf s ! q) \<and> q_trim_done (queue_buf t ! q) = q_trim_done (queue_buf s ! q) \<and>
     (q_testcase_buf (queue_buf t ! q) = None \<longleftrightarrow> q_testcase_buf (queue_buf s ! q) = None) \<and>
     queue_cur t = queue_cur s \<and> cache_size t = cache_size s \<and> cache_max_size t = cache_max_size s \<and>
     non_instrumented_mode t = non_instrumented_mode s \<and> ready_for_splicing_count t = ready_for_splicing_count s"

lemma trim_frame_others: "trim_frame q s t \<Longrightarrow> others_kept q s t"
  using bare_fields(6-8) [OF trim_frame_fields(8), of q s t] by (simp add: others_kept_def trim_frame_fields)

lemma framed_others:
  assumes "framed s t" "q < length (queue_buf s)"
  shows "others_kept q s t"
  using framed_entry [OF assms(1)] framed_same(2) [OF assms(1)] stat_fields [OF framed_entry [OF assms]]
  by (simp add: others_kept_def framed_more [OF assms(1)])

lemma others_kept_trans: "others_kept q s t \<Longrightarrow> others_kept q t u \<Longrightarrow> others_kept q s u"
  by (simp add: others_kept_def)

lemma framed_tdata:
  assumes "framed s t" "q < length (queue_buf s)"
  shows "tdata q t = tdata q s" "tlen q t = tlen q s" "tbuf q t = tbuf q s" "q_file (queue_buf t ! q) = q_file (queue_buf s ! q)"
proof -
  note f = stat_fields [OF framed_entry [OF assms]]
  show "tlen q t = tlen q s" "tbuf q t = tbuf q s" by (simp_all add: tlen_def tbuf_def f framed_more [OF assms(1)] split: option.splits)
  then show "tdata q t = tdata q s" by (simp add: tdata_def)
  show "q_file (queue_buf t ! q) = q_file (queue_buf s ! q)" by (rule f(2))
qed

lemma write_trimmed_ok:
  assumes h: "traces_of n h" and s: "rated_but D (tr_afl s)" "length (afl.trace_bits (tr_afl s)) = n" "n_fuzz_ok (tr_afl s)"
    and t: "shrunk n h q s t" "needs_write t"
  shows "\<exists>u. write_trimmed q l t = Inr u \<and> rated_but (D \<union> missed h q (tr_afl s)) (tr_afl u) \<and> length (afl.trace_bits (tr_afl u)) = n \<and>
    others_kept q (tr_afl t) (tr_afl u) \<and> tdata q (tr_afl u) = tdata q (tr_afl t) \<and> tlen q (tr_afl u) = tlen q (tr_afl t) \<and>
    tbuf q (tr_afl u) = tbuf q (tr_afl t) \<and>
    q_file (queue_buf (tr_afl u) ! q) = tdata q (tr_afl t) \<and> tr_world u = tr_world t \<and> trim_fault u = trim_fault t \<and> same_io t u"
proof -
  let ?a = "tr_afl t"
  have st: "step_end q s t" using t(1) by (simp add: shrunk_def)
  have ok: "q < length (queue_buf ?a)" "tlen q ?a \<le> length (tbuf q ?a)" and fr: "trim_frame q (tr_afl s) ?a"
    using st by (simp_all add: step_end_def trim_ok_def)
  define e where "e = queue_buf ?a ! q"
  define b where "b = set_entry q (e\<lparr>q_file := tdata q ?a\<rparr>) ?a"
  define c where "c = b\<lparr>trace_bits := clean_trace t\<rparr>"
  have ent: "entry ?a q = Inr e" "in_buf q ?a = Inr (tbuf q ?a)" using ok by (simp_all add: entry_def e_def in_buf_eval)
  have fl: "bytes_at (tbuf q ?a) 0 (q_len e) = Inr (tdata q ?a)"
    using ok(2) by (simp add: bytes_at_ok tdata_def tlen_def e_def)
  have retake: "queue_testcase_retake_mem True q (if q_testcase_buf e = None then Some (tbuf q ?a) else None) (q_len e) l b = Inr b"
    using ok(1) by (simp add: queue_testcase_retake_mem_def entry_def b_def split: option.splits)
  let ?D = "D \<union> missed h q (tr_afl s)"
  obtain x w where clean: "t_hash h (clean_trace t) = cksum_of q s" "clean_trace t = seen h x w" using t by (auto simp: shrunk_def)
  then have lc: "length (clean_trace t) = n" using length_seen [OF h] by simp
  have R: "rated_but ?D c"
  proof (rule rated_but_transfer [OF rated_but_mono [OF s(1), of ?D]])
    show "D \<subseteq> ?D" by simp
    show "top_rated c = top_rated (tr_afl s)" by (simp add: c_def b_def trim_frame_fields(3) [OF fr])
    show "length (queue_buf c) = length (queue_buf (tr_afl s))" by (simp add: c_def b_def trim_frame_fields(1) [OF fr])
    show "length (afl.trace_bits c) = length (afl.trace_bits (tr_afl s))" by (simp add: c_def lc s(2))
    fix j assume "j < length (queue_buf (tr_afl s))"
    from trim_frame_refs [OF fr this] ok(1) show "q_tc_ref (queue_buf c ! j) = q_tc_ref (queue_buf (tr_afl s) ! j) \<and>
       q_trace_mini (queue_buf c ! j) = q_trace_mini (queue_buf (tr_afl s) ! j)"
      by (cases "j = q") (simp_all add: c_def b_def e_def)
  qed
  have N: "n_fuzz_ok c"
    using n_fuzz_ok_frame [OF s(3) fr] ok(1) unfolding n_fuzz_nth c_def b_def e_def
    by (auto simp: set_entry_def nth_list_update)
  have mini: "q_trace_mini (queue_buf c ! q) = q_trace_mini (queue_buf (tr_afl s) ! q)"
    using bare_fields(4) [OF trim_frame_fields(8) [OF fr]] ok(1) by (simp add: c_def b_def e_def)
  have "stale q c \<subseteq> missed h q (tr_afl s)"
    using clean unfolding stale_def missed_def mini by (auto simp: c_def cksum_of_def)
  then have I: "in_step_but ?D (q_trace_mini (queue_buf c ! q)) q c"
    using in_step_but_stale [of ?D q c] by (simp add: Un_absorb2 le_supI2)
  from update_bitmap_score_but [OF R I _ N] obtain d where d: "update_bitmap_score q c = Inr d" "rated_but ?D d" "framed c d"
    using ok(1) by (auto simp: c_def b_def)
  have qc: "q < length (queue_buf c)" using ok(1) by (simp add: c_def b_def)
  have run: "write_trimmed q l t = Inr (t\<lparr>tr_afl := d\<rparr>)"
    unfolding write_trimmed_def ent ebind_simps fl b_def [symmetric] retake c_def [symmetric] d(1) by simp
  have views: "tlen q c = tlen q ?a" "tbuf q c = tbuf q ?a" "q_file (queue_buf c ! q) = tdata q ?a"
    using ok(1) by (simp_all add: tlen_def tbuf_def c_def b_def e_def set_entry_def split: option.splits)
  then have td: "tdata q c = tdata q ?a" by (simp add: tdata_def)
  have o: "others_kept q ?a c" using ok(1) by (simp add: others_kept_def c_def b_def e_def set_entry_def)
  show ?thesis
    using run d(2) others_kept_trans [OF o framed_others [OF d(3) qc]] framed_tdata [OF d(3) qc] views td framed_same(1) [OF d(3)] lc
    by (intro exI [of _ "t\<lparr>tr_afl := d\<rparr>"]) (simp add: c_def same_io_def)
qed

section \<open>The whole trimmer\<close>

text \<open>
  What the trimmer needs: a target with traces of the size of the map, a test case that is in its
  buffer, and the invariant of the scores, with exceptions \<open>D\<close>.
\<close>

definition trim_pre :: "(nat \<times> nat) set \<Rightarrow> nat \<Rightarrow> 'w thost \<Rightarrow> nat \<Rightarrow> 'w trim \<Rightarrow> bool" where
  "trim_pre D n h q s \<longleftrightarrow> traces_of n h \<and> trim_ok q s \<and> rated_but D (tr_afl s) \<and> length (afl.trace_bits (tr_afl s)) = n \<and>
     n_fuzz_ok (tr_afl s)"

lemma trim_preD:
  assumes "trim_pre D n h q s"
  shows "traces_of n h" "trim_ok q s" "rated_but D (tr_afl s)" "length (afl.trace_bits (tr_afl s)) = n" "n_fuzz_ok (tr_afl s)"
    "q < length (queue_buf (tr_afl s))"
  using assms by (simp_all add: trim_pre_def trim_ok_def)

text \<open>The states before the loop and after it.\<close>

definition same_test :: "nat \<Rightarrow> 'w trim \<Rightarrow> 'w trim \<Rightarrow> bool" where
  "same_test q t u \<longleftrightarrow> tdata q (tr_afl u) = tdata q (tr_afl t) \<and> tlen q (tr_afl u) = tlen q (tr_afl t) \<and>
     tbuf q (tr_afl u) = tbuf q (tr_afl t) \<and> trim_fault u = trim_fault t \<and> same_io t u \<and> others_kept q (tr_afl t) (tr_afl u)"

lemma shrunk_start:
  assumes "trim_pre D n h q s" "tr_afl t = tr_afl s" "same_io s t" "\<not> needs_write t" "trim_fault t = FSRV_RUN_OK"
  shows "shrunk n h q s t"
  using assms trim_preD [OF assms(1)] by (simp add: shrunk_def step_end_def trim_ok_def same_io_def)

lemma same_test_ok: "trim_ok q t \<Longrightarrow> same_test q t u \<Longrightarrow> trim_ok q u"
  by (auto simp: trim_ok_def same_test_def same_io_def others_kept_def)

lemma finish_trim:
  assumes p: "trim_pre D n h q s" and t: "shrunk n h q s t"
  shows "\<exists>u. (if \<not> ab \<and> needs_write t then write_trimmed q l t else Inr t) = Inr u \<and> rated_but (D \<union> missed h q (tr_afl s)) (tr_afl u) \<and>
    length (afl.trace_bits (tr_afl u)) = n \<and> same_test q t u \<and>
    q_file (queue_buf (tr_afl u) ! q) = (if \<not> ab \<and> needs_write t then tdata q (tr_afl t) else q_file (queue_buf (tr_afl s) ! q))"
proof (cases "\<not> ab \<and> needs_write t")
  case True
  from write_trimmed_ok [OF trim_preD(1,3-5) [OF p] t, of l] True show ?thesis by (auto simp: same_test_def)
next
  case False
  note P = trim_preD [OF p]
  have fr: "trim_frame q (tr_afl s) (tr_afl t)" and tr: "length (afl.trace_bits (tr_afl t)) = n"
    using t by (simp_all add: shrunk_def step_end_def)
  have "rated_but (D \<union> missed h q (tr_afl s)) (tr_afl t)"
    by (rule rated_but_transfer [OF rated_but_mono [OF P(3)]]) (use trim_frame_fields [OF fr] trim_frame_refs [OF fr] tr P(4) in auto)
  moreover have "q_file (queue_buf (tr_afl t) ! q) = q_file (queue_buf (tr_afl s) ! q)"
    using bare_fields(1) [OF trim_frame_fields(8) [OF fr]] .
  moreover have "others_kept q (tr_afl t) (tr_afl t)" by (simp add: others_kept_def)
  ultimately show ?thesis using False tr by (auto simp: same_test_def)
qed

lemma trim_case_ok:
  assumes p: "trim_pre D n h q s" and ok: "\<forall>k. ok k"
  shows "\<exists>ab t f. trim_case h ok q s = Inr (trim_fault t, f) \<and> shrunk n h q s t \<and> (quiet h \<longrightarrow> ab \<longrightarrow> \<not> needs_write t) \<and>
    rated_but (D \<union> missed h q (tr_afl s)) (tr_afl f) \<and> length (afl.trace_bits (tr_afl f)) = n \<and> same_test q t f \<and>
    q_file (queue_buf (tr_afl f) ! q) = (if \<not> ab \<and> needs_write t then tdata q (tr_afl t) else q_file (queue_buf (tr_afl s) ! q))"
proof -
  note P = trim_preD [OF p]
  let ?e = "queue_buf (tr_afl s) ! q"
  let ?p2 = "pow2_u32 (q_len ?e)"
  define s1 where "s1 = s\<lparr>needs_write := False, trim_fault := FSRV_RUN_OK\<rparr>"
  define s2 where "s2 = s1\<lparr>bytes_trim_in := bytes_trim_in s1 + word_of_nat (q_len ?e), len_p2 := ?p2\<rparr>"
  have b: "shrunk n h q s s1" "shrunk n h q s s2"
    by (rule shrunk_start [OF p]; simp add: s1_def s2_def same_io_def)+
  have rl: "max (?p2 div TRIM_START_STEPS) TRIM_MIN_BYTES < 2 ^ 28"
  proof -
    have "?p2 < 2 ^ 32" unfolding pow2_u32_def using unsigned_less [of "ucast (next_pow2 (word_of_nat (q_len ?e))) :: u32"] by simp
    then show ?thesis by (simp add: TRIM_START_STEPS_def TRIM_MIN_BYTES_def)
  qed
  from trim_rounds_shrink [OF P(1) ok rl b(2)] obtain ab' t' where
    t': "run_loop (trim_round h ok q) (max (?p2 div TRIM_START_STEPS) TRIM_MIN_BYTES, s2) = Inr (ab', t')" "ab' \<longrightarrow> \<not> quiet h" "shrunk n h q s t'"
    by auto
  define ab where "ab = (q_len ?e < 5 \<or> ab')"
  define t where "t = (if q_len ?e < 5 then s1 else t')"
  have t: "shrunk n h q s t" "quiet h \<longrightarrow> ab \<longrightarrow> \<not> needs_write t" using b t' by (auto simp: t_def ab_def s1_def)
  from finish_trim [OF p t(1), of ab "q_len ?e"] obtain u where
    u: "(if \<not> ab \<and> needs_write t then write_trimmed q (q_len ?e) t else Inr t) = Inr u" "rated_but (D \<union> missed h q (tr_afl s)) (tr_afl u)"
      "length (afl.trace_bits (tr_afl u)) = n" "same_test q t u"
      "q_file (queue_buf (tr_afl u) ! q) = (if \<not> ab \<and> needs_write t then tdata q (tr_afl t) else q_file ?e)" by blast
  let ?f = "u\<lparr>bytes_trim_out := bytes_trim_out u + word_of_nat (q_len (queue_buf (tr_afl u) ! q))\<rparr>"
  have "q < length (queue_buf (tr_afl u))" using same_test_ok [OF _ u(4)] t(1) by (simp add: shrunk_def step_end_def trim_ok_def)
  then have ent: "entry (tr_afl u) q = Inr (queue_buf (tr_afl u) ! q)" by (simp add: entry_def)
  have loop: "(if q_len ?e < 5 then Inr (True, s1)
      else run_loop (trim_round h ok q) (max (?p2 div TRIM_START_STEPS) TRIM_MIN_BYTES, s2)) = Inr (if q_len ?e < 5 then True else ab', t)"
    using t'(1) by (simp add: t_def)
  have ent0: "entry (tr_afl s) q = Inr ?e" using P(6) by (simp add: entry_def)
  have u1: "(if \<not> (if q_len ?e < 5 then True else ab') \<and> needs_write t then write_trimmed q (q_len ?e) t else Inr t) = Inr u"
    using u(1) by (cases "q_len ?e < 5") (simp_all add: ab_def)
  have "trim_case h ok q s = Inr (trim_fault u, ?f)"
    unfolding trim_case_def Let_def ent0 ebind_simps s1_def [symmetric] s2_def [symmetric] loop prod.case
    unfolding u1 ebind_simps ent ..
  moreover have "same_test q t ?f" using u(4) by (simp add: same_test_def same_io_def)
  ultimately show ?thesis using t u by (intro exI [of _ ab] exI [of _ t] exI [of _ ?f]) (simp add: same_test_def)
qed

lemma trim_case_safe_lemma:
  assumes "trim_pre D n h q s" "\<forall>k. ok k"
  shows "\<exists>fault u. trim_case h ok q s = Inr (fault, u) \<and> trim_ok q u \<and> rated_but (D \<union> missed h q (tr_afl s)) (tr_afl u) \<and> others_kept q (tr_afl s) (tr_afl u) \<and>
    subseq (tdata q (tr_afl u)) (tdata q (tr_afl s)) \<and> take 4 (tdata q (tr_afl u)) = take 4 (tdata q (tr_afl s))"
proof -
  from trim_case_ok [OF assms] obtain t u where u: "trim_case h ok q s = Inr (trim_fault t, u)" "shrunk n h q s t" "rated_but (D \<union> missed h q (tr_afl s)) (tr_afl u)"
    "same_test q t u" by blast
  have "trim_ok q t" "trim_frame q (tr_afl s) (tr_afl t)" using u(2) by (simp_all add: shrunk_def step_end_def)
  then show ?thesis using u same_test_ok [OF _ u(4)] others_kept_trans [OF trim_frame_others] by (simp add: shrunk_def same_test_def)
qed

lemma trim_keeps_lemma:
  assumes "trim_pre D n h q s" "\<forall>k. ok k" "quiet h" "accepts h (cksum_of q s) K" "K (tdata q (tr_afl s))"
  shows "\<exists>fault u. trim_case h ok q s = Inr (fault, u) \<and> fault \<noteq> FSRV_RUN_ERROR \<and> K (tdata q (tr_afl u)) \<and>
    q_file (queue_buf (tr_afl u) ! q) =
      (if tdata q (tr_afl u) = tdata q (tr_afl s) then q_file (queue_buf (tr_afl s) ! q) else tdata q (tr_afl u)) \<and>
    trim_ok q u \<and> others_kept q (tr_afl s) (tr_afl u) \<and> subseq (tdata q (tr_afl u)) (tdata q (tr_afl s))"
proof -
  from trim_case_ok [OF assms(1,2)] obtain ab t u where u: "trim_case h ok q s = Inr (trim_fault t, u)" "shrunk n h q s t"
    "ab \<longrightarrow> \<not> needs_write t" "same_test q t u"
    "q_file (queue_buf (tr_afl u) ! q) = (if \<not> ab \<and> needs_write t then tdata q (tr_afl t) else q_file (queue_buf (tr_afl s) ! q))"
    using assms(3) by blast
  have td: "tdata q (tr_afl u) = tdata q (tr_afl t)" using u(4) by (simp add: same_test_def)
  have "trim_ok q t" "trim_ok q s" using u(2) trim_preD(2) [OF assms(1)] by (simp_all add: shrunk_def step_end_def)
  then have len: "length (tdata q (tr_afl t)) = tlen q (tr_afl t)" "length (tdata q (tr_afl s)) = tlen q (tr_afl s)"
    by (simp_all add: length_tdata)
  have "needs_write t \<longrightarrow> tdata q (tr_afl t) \<noteq> tdata q (tr_afl s)" using u(2) len by (auto simp: shrunk_def)
  moreover have "\<not> needs_write t \<longrightarrow> tdata q (tr_afl t) = tdata q (tr_afl s)" using u(2) by (simp add: shrunk_def)
  moreover have "trim_ok q u \<and> others_kept q (tr_afl s) (tr_afl u) \<and> subseq (tdata q (tr_afl u)) (tdata q (tr_afl s))"
    using trim_case_safe_lemma [OF assms(1,2)] u(1) by auto
  ultimately show ?thesis using u assms(3-5) td by (cases "needs_write t") (auto simp: shrunk_def)
qed

text \<open>A target whose classified trace is a function of the input.\<close>

definition trace_fun :: "'w thost \<Rightarrow> (bytes \<Rightarrow> bytes) \<Rightarrow> bool" where
  "trace_fun h T \<longleftrightarrow> (\<forall>d w. seen h d w = T d)"

lemma accepts_trace: "trace_fun h T \<Longrightarrow> accepts h ck (\<lambda>d. t_hash h (T d) = ck)"
  by (simp add: trace_fun_def accepts_def)

section \<open>The caller\<close>

text \<open>The cached buffer or the file holds the test case.\<close>

definition in_step_file :: "nat \<Rightarrow> afl \<Rightarrow> bool" where
  "in_step_file q s \<longleftrightarrow> tdata q s = take (tlen q s) (q_file (queue_buf s ! q)) \<and> tlen q s \<le> length (q_file (queue_buf s ! q)) \<and>
     (q_testcase_buf (queue_buf s ! q) = None \<longrightarrow> q_light (queue_buf s ! q) \<or> cache_max_size s = 0)"

lemma get_after_trim:
  assumes q: "q < length (queue_buf s)" and st: "in_step_file q s" and len: "tlen q s \<le> length (tbuf q s)"
  shows "\<exists>b t. queue_testcase_get rb True junk q (r, s) = Inr (b, r, t) \<and> take (tlen q s) b = tdata q s \<and> queue_buf t = queue_buf s \<and>
    queue_cur t = queue_cur s \<and> cache_size t = cache_size s \<and> ready_for_splicing_count t = ready_for_splicing_count s \<and>
    non_instrumented_mode t = non_instrumented_mode s \<and> tbuf q t = b"
proof (cases "q_testcase_buf (queue_buf s ! q)")
  case (Some b)
  then have "queue_testcase_get rb True junk q (r, s) = Inr (b, r, s)" using q by (simp add: queue_testcase_get_def entry_def)
  then show ?thesis using Some by (auto simp: tdata_def tbuf_def)
next
  case None
  let ?e = "queue_buf s ! q" and ?b = "tdata q s"
  have light: "q_light ?e \<or> cache_max_size s = 0" using st None by (simp add: in_step_file_def)
  have rd: "ck_read (q_file ?e) (replicate (q_len ?e) 0) (q_len ?e) = Inr ?b"
    using st by (simp add: in_step_file_def ck_read_def mem_ok tlen_def)
  have ld: "take (tlen q s) ?b = ?b" by (simp add: tdata_def)
  show ?thesis using q None light rd ld
    by (auto simp: queue_testcase_get_def entry_def load_uncached_def Let_def tbuf_def)
qed

text \<open>\<open>ready_for_splicing_count\<close> counts the entries of more than four bytes.\<close>

definition ready_ok :: "afl \<Rightarrow> bool" where
  "ready_ok s \<longleftrightarrow> length (queue_buf s) < 2 ^ 32 \<and> ready_for_splicing_count s = length (filter (\<lambda>e. q_len e > 4) (queue_buf s))"

lemma ready_after_trim:
  assumes s: "ready_ok s" "q < length (queue_buf s)" and o: "others_kept q s t" and len: "tlen q t \<le> tlen q s"
    and u: "length (queue_buf u) = length (queue_buf s)" "\<And>j. j < length (queue_buf s) \<Longrightarrow> q_len (queue_buf u ! j) = q_len (queue_buf t ! j)"
      "ready_for_splicing_count u = (if tlen q t \<le> 4 \<and> tlen q s > 4 then u32_sub (ready_for_splicing_count s) 1 else ready_for_splicing_count s)"
  shows "ready_ok u"
proof -
  let ?P = "\<lambda>n. 4 < (n :: nat)" and ?a = "map q_len (queue_buf s)"
  have "map q_len (queue_buf u) = ?a[q := tlen q t]"
  proof (rule nth_equalityI)
    fix j assume "j < length (map q_len (queue_buf u))"
    then have j: "j < length (queue_buf s)" using u(1) by simp
    then show "map q_len (queue_buf u) ! j = ?a[q := tlen q t] ! j"
      using o stat_fields(1) [of "queue_buf t ! j" "queue_buf s ! j"] u(1,2) s(2)
      by (cases "j = q") (auto simp: others_kept_def tlen_def)
  qed (use u(1) in simp)
  then have "length (filter ?P (map q_len (queue_buf u))) + of_bool (?P (?a ! q)) = length (filter ?P ?a) + of_bool (?P (tlen q t))"
    using filter_update [of q ?a ?P "tlen q t"] s(2) by simp
  then have "length (filter (\<lambda>e. q_len e > 4) (queue_buf u)) + of_bool (4 < tlen q s) =
      length (filter (\<lambda>e. q_len e > 4) (queue_buf s)) + of_bool (4 < tlen q t)"
    using s(2) by (simp add: filter_map comp_def tlen_def)
  moreover have "length (filter (\<lambda>e. q_len e > 4) (queue_buf s)) < 2 ^ 32"
    using s(1) le_less_trans [OF length_filter_le] unfolding ready_ok_def by blast
  ultimately show ?thesis using s(1) u(1,3) len by (auto simp: ready_ok_def split: if_splits)
qed

section \<open>A target and a queue\<close>

text \<open>
  The trace says whether the byte 2 is in the input; the entry has won the one edge that is hit and has a
  compacted trace.
\<close>

definition trim_host :: "nat thost" where
  "trim_host = \<lparr>t_exec = (\<lambda>d w. (FSRV_RUN_OK, (if 2 \<in> set d then 1 else 2) # replicate 63 0, False, w + 1)),
     t_hash = (\<lambda>tr. if tr ! 0 = 1 then 0 else 1)\<rparr>"

definition six_bytes :: bytes where "six_bytes = [1, 2, 3, 4, 5, 6]"

definition demo_holder :: queue_entry where
  "demo_holder = (new_entry six_bytes 6 False empty_queue)\<lparr>q_testcase_buf := Some six_bytes, q_tc_ref := 1,
     q_trace_mini := Some (1 # replicate 7 0)\<rparr>"

definition trim_queue :: afl where
  "trim_queue = empty_queue\<lparr>queue_buf := [demo_holder],
     queue_cur := Some 0, trace_bits := replicate 64 0, top_rated := Some 0 # replicate 63 None, ready_for_splicing_count := 1,
     cache_slots := [Some 0, None, None, None], cache_count := 1, cache_size := 6, cache_max_count := 1, cache_smallest_free := 1\<rparr>"

definition trim_demo :: "nat trim" where
  "trim_demo = \<lparr>tr_world = 0, tr_afl = trim_queue, out_scratch = None, use_shmem_fuzz = True, use_stdin = False,
     shmem_fuzz = replicate 100 0, shmem_fuzz_len = 0, out_file = [], clean_trace = [], count_table = class_table,
     trim_execs = 0, bytes_trim_in = 0, bytes_trim_out = 0, len_p2 = 0, needs_write = False, trim_fault = FSRV_RUN_OK\<rparr>"

lemma demo_entry: "queue_buf (tr_afl trim_demo) = [demo_holder]"
  by (simp add: trim_demo_def trim_queue_def)

lemma demo_holder_fields [simp]: "q_len demo_holder = 6" "q_testcase_buf demo_holder = Some six_bytes" "q_file demo_holder = six_bytes"
  "q_trace_mini demo_holder = Some (1 # replicate 7 0)" "q_tc_ref demo_holder = 1" "q_exec_cksum demo_holder = 0"
  "q_n_fuzz_entry demo_holder = 0" "\<not> q_trim_done demo_holder" "\<not> q_light demo_holder"
  by (simp_all add: demo_holder_def new_entry_def)

lemma demo_data: "tdata 0 (tr_afl trim_demo) = six_bytes" "tlen 0 (tr_afl trim_demo) = 6" "tbuf 0 (tr_afl trim_demo) = six_bytes"
  by (simp_all add: tdata_def tlen_def tbuf_def demo_entry six_bytes_def)

lemma demo_rated: "rated (tr_afl trim_demo)"
  unfolding rated_def rated_as_def Let_def demo_entry
proof (intro conjI allI impI)
  let ?a = "tr_afl trim_demo"
  have top: "top_rated ?a = Some 0 # replicate 63 None" by (simp add: trim_demo_def trim_queue_def)
  have tr: "length (afl.trace_bits ?a) = 64" by (simp add: trim_demo_def trim_queue_def)
  show "length (afl.trace_bits ?a) < 2 ^ 32" "8 dvd length (afl.trace_bits ?a)"
    "length (top_rated ?a) = length (afl.trace_bits ?a)" "length (top_rated ?a) = length (afl.trace_bits ?a)"
    by (simp_all add: top tr)
  show "refs_ok (length (afl.trace_bits ?a)) (top_rated ?a) j ([demo_holder] ! j)" if "j < length [demo_holder]" for j
  proof -
    have "count_list (replicate 63 None) (Some (0 :: nat)) = 0" by (simp add: count_list_0_iff)
    then show ?thesis using that by (simp add: refs_ok_def top tr)
  qed
  show "j < length [demo_holder]" "covers ([demo_holder] ! j) i"
    if "i < length (afl.trace_bits ?a)" "top_rated ?a ! i = Some j" for i j
  proof -
    have "i = 0 \<and> j = 0" using that by (cases i) (simp_all add: top tr)
    then show "j < length [demo_holder]" "covers ([demo_holder] ! j) i" by (simp_all add: covers_def edge_bit_def)
  qed
qed

lemma demo_pre: "trim_pre {} 64 trim_host 0 trim_demo"
  unfolding trim_pre_def
proof (intro conjI)
  show "traces_of 64 trim_host" by (simp add: traces_of_def trim_host_def)
  show "trim_ok 0 trim_demo"
    using class_table_ok by (simp add: trim_ok_def demo_data demo_entry six_bytes_def MAX_FILE_def) (simp add: trim_demo_def)
  show "n_fuzz_ok (tr_afl trim_demo)" by (simp add: n_fuzz_ok_def demo_entry) (simp add: trim_demo_def trim_queue_def empty_queue_def)
qed (simp_all add: demo_rated rated_but_empty, simp add: trim_demo_def trim_queue_def)

text \<open>Every run of the target hits the edge 0 only, which is in the compacted trace.\<close>

lemma demo_missed: "missed trim_host 0 (tr_afl trim_demo) = {}"
proof -
  have "edge_bit (1 # replicate 7 0) i" if "i < length (seen trim_host d w)" "seen trim_host d w ! i \<noteq> 0" for i d w
  proof -
    have "i = 0" using that by (cases i) (simp_all add: seen_def trim_host_def class8_bucket bucket_def)
    then show ?thesis by (simp add: edge_bit_def)
  qed
  then show ?thesis unfolding missed_def demo_entry by (simp add: numeral_eq_Suc) blast
qed

lemma demo_quiet: "quiet trim_host"
  by (simp add: quiet_def trim_host_def)

definition demo_trace :: "bytes \<Rightarrow> bytes" where
  "demo_trace d = map class8 ((if 2 \<in> set d then 1 else 2) # replicate 63 0)"

lemma demo_trace: "trace_fun trim_host demo_trace"
  by (simp add: trace_fun_def seen_def trim_host_def demo_trace_def)

lemma demo_hash: "t_hash trim_host (demo_trace d) = cksum_of 0 trim_demo \<longleftrightarrow> 2 \<in> set d"
  by (simp add: demo_trace_def trim_host_def cksum_of_def demo_entry class8_bucket bucket_def)

lemma demo_cache: "cache_ok (tr_afl trim_demo)"
proof -
  have "entry_ok demo_holder" by (simp add: entry_ok_def six_bytes_def)
  moreover have "i = 0 \<or> i = 1 \<or> i = 2 \<or> i = 3" if "i < 4" for i :: nat using that by arith
  ultimately show ?thesis
    unfolding cache_ok_def slots_def used_def charge_def
    by (auto simp: trim_demo_def trim_queue_def empty_queue_def nth_Cons' split: if_splits)
qed

lemma demo_rest: "in_step_file 0 (tr_afl trim_demo)" "ready_ok (tr_afl trim_demo)" "\<not> q_trim_done (queue_buf (tr_afl trim_demo) ! 0)"
  "\<not> non_instrumented_mode (tr_afl trim_demo)" "0 \<in> cached (tr_afl trim_demo)"
  by (simp_all add: in_step_file_def demo_data ready_ok_def cached_def demo_entry six_bytes_def)
    (simp_all add: trim_demo_def trim_queue_def empty_queue_def)

section \<open>Properties\<close>

text \<open>C16: whatever the target does, and even if it stops the fuzzer in the middle, \<open>trim_case\<close> returns without a fault; the
  trimmed test case is a subsequence of the old one with the same first four bytes and no other entry is touched. The
  scores keep their invariant, with no new exception but the edges of \<open>missed\<close>: those that a run with the entry's
  checksum hits and the entry's compacted trace lacks.\<close>

theorem trim_case_safe:
  assumes "trim_pre D n h q s" "\<forall>k. ok k"
  shows "\<exists>fault u. trim_case h ok q s = Inr (fault, u) \<and> trim_ok q u \<and> others_kept q (tr_afl s) (tr_afl u) \<and>
    rated_but (D \<union> missed h q (tr_afl s)) (tr_afl u) \<and>
    subseq (tdata q (tr_afl u)) (tdata q (tr_afl s)) \<and> take 4 (tdata q (tr_afl u)) = take 4 (tdata q (tr_afl s))"
  using trim_case_safe_lemma [OF assms] by blast

theorem trim_case_safe_witness:
  "\<exists>fault u. trim_case trim_host (\<lambda>_. True) 0 trim_demo = Inr (fault, u) \<and> rated (tr_afl u) \<and>
    q_trace_mini (queue_buf (tr_afl trim_demo) ! 0) \<noteq> None \<and> subseq (tdata 0 (tr_afl u)) six_bytes \<and>
    take 4 (tdata 0 (tr_afl u)) = [1, 2, 3, 4]"
  using trim_case_safe [OF demo_pre, of "\<lambda>_. True"] by (auto simp: demo_data demo_missed demo_entry six_bytes_def rated_but_empty)


text \<open>C15: when the target never stops the fuzzer and its classified trace depends on the input only (\<open>T\<close>), and the entry's
  checksum is that of its trace, then the trace of the trimmed test case has this checksum too, and the file
  holds exactly the trimmed test case unless nothing was trimmed. The trace itself is the old one when no other input's trace has
  the checksum.\<close>

theorem trim_keeps_checksum:
  assumes "trim_pre D n h q s" "\<forall>k. ok k" "quiet h" "trace_fun h T" "t_hash h (T (tdata q (tr_afl s))) = cksum_of q s"
  shows "\<exists>fault u. trim_case h ok q s = Inr (fault, u) \<and> fault \<noteq> FSRV_RUN_ERROR \<and>
    t_hash h (T (tdata q (tr_afl u))) = cksum_of q s \<and>
    ((\<forall>d. t_hash h (T d) = cksum_of q s \<longrightarrow> T d = T (tdata q (tr_afl s))) \<longrightarrow> T (tdata q (tr_afl u)) = T (tdata q (tr_afl s))) \<and>
    q_file (queue_buf (tr_afl u) ! q) =
      (if tdata q (tr_afl u) = tdata q (tr_afl s) then q_file (queue_buf (tr_afl s) ! q) else tdata q (tr_afl u))"
  using trim_keeps_lemma [OF assms(1-3) accepts_trace [OF assms(4)] assms(5)] by blast

theorem trim_keeps_checksum_witness:
  "\<exists>fault u. trim_case trim_host (\<lambda>_. True) 0 trim_demo = Inr (fault, u) \<and> 2 \<in> set (tdata 0 (tr_afl u)) \<and>
    (tdata 0 (tr_afl u) \<noteq> six_bytes \<longrightarrow> q_file (queue_buf (tr_afl u) ! 0) = tdata 0 (tr_afl u))"
proof -
  have "t_hash trim_host (demo_trace (tdata 0 (tr_afl trim_demo))) = cksum_of 0 trim_demo"
    unfolding demo_hash by (simp add: demo_data six_bytes_def)
  from trim_keeps_checksum [OF demo_pre _ demo_quiet demo_trace this, of "\<lambda>_. True"] show ?thesis
    unfolding demo_hash by (auto simp: demo_data)
qed


text \<open>C18: the trim leaves the account of the cache as it was although the cached test case is shorter: \<open>cache_size\<close>
  exceeds the total length of the cached entries by exactly the number of bytes that were trimmed, and eviction, which
  subtracts the new length, never gives them back.\<close>

theorem trim_leaves_account:
  assumes "trim_pre D n h q s" "\<forall>k. ok k" "cache_ok (tr_afl s)" "q \<in> cached (tr_afl s)"
  shows "\<exists>fault u. trim_case h ok q s = Inr (fault, u) \<and> cached (tr_afl u) = cached (tr_afl s) \<and>
    cache_size (tr_afl u) = word_of_nat ((\<Sum>j\<in>cached (tr_afl u). q_len (queue_buf (tr_afl u) ! j)) +
      (length (tdata q (tr_afl s)) - length (tdata q (tr_afl u))))"
proof -
  let ?a = "tr_afl s"
  from trim_case_safe_lemma [OF assms(1,2)] obtain f u where u: "trim_case h ok q s = Inr (f, u)" "trim_ok q u" "others_kept q ?a (tr_afl u)"
    "subseq (tdata q (tr_afl u)) (tdata q ?a)" by blast
  let ?b = "tr_afl u"
  have q: "q < length (queue_buf ?a)" using assms(4) by (simp add: cached_def)
  have len: "length (tdata q ?a) = q_len (queue_buf ?a ! q)" "length (tdata q ?b) = q_len (queue_buf ?b ! q)"
    using length_tdata [OF u(2)] length_tdata [OF trim_preD(2) [OF assms(1)]] by (simp_all add: tlen_def)
  have le: "q_len (queue_buf ?b ! q) \<le> q_len (queue_buf ?a ! q)" using list_emb_length [OF u(4)] by (simp add: len)
  have same: "q_testcase_buf (queue_buf ?b ! j) = None \<longleftrightarrow> q_testcase_buf (queue_buf ?a ! j) = None" if "j < length (queue_buf ?a)" for j
    using u(3) that stat_fields(3) [of "queue_buf ?b ! j" "queue_buf ?a ! j"] by (cases "j = q") (simp_all add: others_kept_def)
  have "length (queue_buf ?b) = length (queue_buf ?a)" using u(3) by (simp add: others_kept_def)
  then have c: "cached ?b = cached ?a" unfolding cached_def using same by (intro Collect_cong) metis
  have fin: "finite (cached ?a)" by (simp add: cached_def)
  have rest: "(\<Sum>j\<in>cached ?a - {q}. q_len (queue_buf ?b ! j)) = (\<Sum>j\<in>cached ?a - {q}. q_len (queue_buf ?a ! j))"
  proof (rule sum.cong)
    fix j assume "j \<in> cached ?a - {q}"
    then have "stat (queue_buf ?b ! j) = stat (queue_buf ?a ! j)" using u(3) by (simp add: others_kept_def cached_def)
    then show "q_len (queue_buf ?b ! j) = q_len (queue_buf ?a ! j)" by (rule stat_fields(1))
  qed simp
  have "(\<Sum>j\<in>cached ?a. q_len (queue_buf ?a ! j)) = (\<Sum>j\<in>cached ?b. q_len (queue_buf ?b ! j)) + (length (tdata q ?a) - length (tdata q ?b))"
    unfolding c len using sum.remove [OF fin assms(4), of "\<lambda>j. q_len (queue_buf ?a ! j)"]
      sum.remove [OF fin assms(4), of "\<lambda>j. q_len (queue_buf ?b ! j)"] rest le by simp
  moreover have "cache_size ?b = cache_size ?a" using u(3) by (simp add: others_kept_def)
  ultimately show ?thesis using u(1) c cache_counts [OF assms(3)] by (metis of_nat_add)
qed

theorem trim_leaves_account_witness:
  "\<exists>fault u. trim_case trim_host (\<lambda>_. True) 0 trim_demo = Inr (fault, u) \<and>
    cache_size (tr_afl u) = word_of_nat ((\<Sum>j\<in>cached (tr_afl u). q_len (queue_buf (tr_afl u) ! j)) + (6 - length (tdata 0 (tr_afl u))))"
proof -
  have "length six_bytes = 6" by (simp add: six_bytes_def)
  with trim_leaves_account [OF demo_pre _ demo_cache demo_rest(5), of "\<lambda>_. True"] show ?thesis unfolding demo_data by metis
qed


text \<open>C17: the part of the main loop that trims, under these conditions: the target never stops the fuzzer and its trace
  depends on the input only, the entry's checksum is that of its trace, nobody asks the fuzzer to stop
  (\<open>stop_soon\<close>), trimming is enabled, the target is instrumented, the entry is not marked yet, its file holds its
  test case and the buffer is cached or never will be (\<open>in_step_file\<close>). Then the first call returns a test case
  whose trace has the entry's checksum and that is also in the file, marks the entry and keeps
  \<open>ready_for_splicing_count\<close> exact; a second call returns the same test case and does not run the target.\<close>

theorem trim_current_once:
  assumes p: "trim_pre D n h q s" "\<forall>k. ok k" "quiet h" "trace_fun h T" "t_hash h (T (tdata q (tr_afl s))) = cksum_of q s"
    and f: "in_step_file q (tr_afl s)" "ready_ok (tr_afl s)" "\<not> q_trim_done (queue_buf (tr_afl s) ! q)" "\<not> non_instrumented_mode (tr_afl s)"
      "\<forall>w. \<not> stopped w"
  shows "\<exists>b u. trim_current h ok rb junk False stopped q (r, s) = Inr (Some b, r, u) \<and>
    t_hash h (T (take (tlen q (tr_afl u)) b)) = cksum_of q s \<and>
    take (tlen q (tr_afl u)) (q_file (queue_buf (tr_afl u) ! q)) = take (tlen q (tr_afl u)) b \<and>
    q_trim_done (queue_buf (tr_afl u) ! q) \<and> ready_ok (tr_afl u) \<and>
    trim_current h ok rb junk False stopped q (r, u) = Inr (Some b, r, u)"
proof -
  let ?a = "tr_afl s"
  have q: "q < length (queue_buf ?a)" using trim_preD(6) [OF p(1)] .
  let ?K = "\<lambda>d. t_hash h (T d) = cksum_of q s"
  from trim_keeps_lemma [OF p(1-3) accepts_trace [OF p(4)] p(5)] obtain fl t where t: "trim_case h ok q s = Inr (fl, t)" "fl \<noteq> FSRV_RUN_ERROR" "?K (tdata q (tr_afl t))"
    "q_file (queue_buf (tr_afl t) ! q) = (if tdata q (tr_afl t) = tdata q ?a then q_file (queue_buf ?a ! q) else tdata q (tr_afl t))"
    "trim_ok q t" "others_kept q ?a (tr_afl t)" "subseq (tdata q (tr_afl t)) (tdata q ?a)" by blast
  let ?b = "tr_afl t"
  have len: "length (tdata q ?a) = tlen q ?a" "length (tdata q ?b) = tlen q ?b"
    using length_tdata [OF t(5)] length_tdata [OF trim_preD(2) [OF p(1)]] by simp_all
  have le: "tlen q ?b \<le> tlen q ?a" using list_emb_length [OF t(7)] by (simp add: len)
  have qb: "q < length (queue_buf ?b)" "tlen q ?b \<le> length (tbuf q ?b)" using t(5) by (simp_all add: trim_ok_def)
  have st: "in_step_file q ?b"
    using f(1) t(4,6) len by (auto simp: in_step_file_def others_kept_def split: if_splits)
  from get_after_trim [OF qb(1) st qb(2), of rb junk r] obtain b c where
    c: "queue_testcase_get rb True junk q (r, ?b) = Inr (b, r, c)" "take (tlen q ?b) b = tdata q ?b" "queue_buf c = queue_buf ?b"
      "queue_cur c = queue_cur ?b" "ready_for_splicing_count c = ready_for_splicing_count ?b"
      "non_instrumented_mode c = non_instrumented_mode ?b" "tbuf q c = b" by blast
  let ?e = "queue_buf ?b ! q"
  define d where "d = (let a = set_entry q (?e\<lparr>q_trim_done := True\<rparr>) c in if q_len ?e \<le> 4 \<and> tlen q ?a > 4
                  then a\<lparr>ready_for_splicing_count := u32_sub (ready_for_splicing_count a) 1\<rparr> else a)"
  let ?u = "t\<lparr>tr_afl := d\<rparr>"
  have D: "queue_buf d = (queue_buf ?b)[q := ?e\<lparr>q_trim_done := True\<rparr>]" "non_instrumented_mode d = non_instrumented_mode ?b"
    "tbuf q d = b" "ready_for_splicing_count d = (if tlen q ?b \<le> 4 \<and> tlen q ?a > 4 then u32_sub (ready_for_splicing_count ?a) 1 else ready_for_splicing_count ?a)"
    using c qb(1) t(6) by (auto simp: d_def Let_def set_entry_def tbuf_def tlen_def others_kept_def split: option.splits)
  have ea: "entry ?a q = Inr (queue_buf ?a ! q)" "entry c q = Inr ?e" using q qb c(3) by (simp_all add: entry_def)
  have run: "trim_current h ok rb junk False stopped q (r, s) = Inr (Some b, r, ?u)"
    unfolding trim_current_def prod.case ea ebind_simps t(1) Let_def c(1) d_def
    using f(3-5) t(2) by (simp add: tlen_def ea)
  have ud: "q_trim_done (queue_buf d ! q)" "tlen q d = tlen q ?b" "q_file (queue_buf d ! q) = q_file ?e" "q < length (queue_buf d)"
    using qb(1) by (simp_all add: D(1) tlen_def)
  have again: "trim_current h ok rb junk False stopped q (r, ?u) = Inr (Some b, r, ?u)"
    using ud D(3) by (simp add: trim_current_def entry_def in_buf_eval)
  have ready: "ready_ok d"
    by (rule ready_after_trim [OF f(2) q t(6) le]) (use D t(6) qb in \<open>auto simp: others_kept_def nth_list_update\<close>)
  have "take (tlen q ?b) (q_file ?e) = tdata q ?b" using st by (simp add: in_step_file_def)
  then show ?thesis using run again ready t(3) c(2) ud by (intro exI [of _ b] exI [of _ ?u]) simp
qed

theorem trim_current_once_witness:
  "\<forall>r. \<exists>b u. trim_current trim_host (\<lambda>_. True) rand_below None False (\<lambda>_. False) 0 (r, trim_demo) = Inr (Some b, r, u) \<and> 2 \<in> set b \<and>
    trim_current trim_host (\<lambda>_. True) rand_below None False (\<lambda>_. False) 0 (r, u) = Inr (Some b, r, u)"
proof
  fix r
  have "t_hash trim_host (demo_trace (tdata 0 (tr_afl trim_demo))) = cksum_of 0 trim_demo"
    unfolding demo_hash by (simp add: demo_data six_bytes_def)
  from trim_current_once [OF demo_pre _ demo_quiet demo_trace this demo_rest(1-4), of "\<lambda>_. True" "\<lambda>_. False" rand_below None r]
  show "\<exists>b u. trim_current trim_host (\<lambda>_. True) rand_below None False (\<lambda>_. False) 0 (r, trim_demo) = Inr (Some b, r, u) \<and> 2 \<in> set b \<and>
    trim_current trim_host (\<lambda>_. True) rand_below None False (\<lambda>_. False) 0 (r, u) = Inr (Some b, r, u)"
    unfolding demo_hash by (auto dest: in_set_takeD)
qed

end
