(* ===== verification/AFL_Save.thy ===== *)
theory AFL_Save
  imports AFL_Tmin AFL_Cache
begin

text \<open>
  What happens to the input of one execution: \<open>save_if_interesting\<close> in \<^verbatim>\<open>src/afl-fuzz-bitmap.c\<close> decides
  whether it is queued or kept as a crash or a hang, \<open>calibrate_case\<close> in \<^verbatim>\<open>src/afl-fuzz-run.c\<close> runs a
  new entry several times, and \<open>common_fuzz_stuff\<close> is the step that the fuzzing stages repeat. There
  are no custom mutators, the fork server is up, and files can be written. \<open>s_exec\<close> runs the target on
  an input with a timeout in milliseconds; the trace it leaves is \<open>trace_bits\<close> of the coverage state,
  which the scores of the queue read as well. \<open>ok\<close> says whether allocations succeed.
\<close>

section \<open>State\<close>

record 'w shost =
  s_exec :: "bytes \<Rightarrow> nat \<Rightarrow> 'w \<Rightarrow> fsrv_run_result \<times> bytes \<times> bool \<times> 'w"
  s_hash :: "bytes \<Rightarrow> u64"
  s_time :: "'w \<Rightarrow> u64 \<times> 'w"

record 'w save =
  sv_world :: 'w
  sv_afl :: afl
  sv_cov :: cov
  sv_input :: bytes
  first_trace :: bytes
  var_bytes :: bytes
  use_shmem :: bool
  exec_tmout :: nat
  hang_tmout :: nat
  min_length :: nat
  max_length :: nat
  crash_fault :: fsrv_run_result
  ignore_timeouts :: bool
  keep_timeouts :: bool
  cal_fast :: bool
  resuming_fuzz :: bool
  fuzz_mode :: bool
  switch_fuzz_mode :: bool
  stage_at :: nat
  sv_cycle :: nat
  total_crashes :: u64
  saved_crashes :: u64
  total_tmouts :: u64
  saved_tmouts :: u64
  saved_hangs :: u64
  queued_with_cov :: nat
  queued_variable :: nat
  var_byte_count :: nat
  total_cal_us :: u64
  total_cal_cycles :: u64
  total_bitmap_size :: u64
  total_bitmap_entries :: u64
  crash_files :: "bytes list"
  hang_files :: "bytes list"
  subseq_tmouts :: nat
  cur_skipped_items :: nat
  queued_discovered :: nat
  cal_new_bits :: nat
  cal_var :: bool
  cal_max :: nat
  sv_new_bits :: nat
  sv_keeping :: bool
  sv_classified :: bool
  sv_need_hash :: bool
  sv_cksum :: u64
  sv_len :: nat

definition CAL_CYCLES_FAST :: nat where "CAL_CYCLES_FAST = 3"
definition CAL_CYCLES :: nat where "CAL_CYCLES = 7"
definition CAL_CYCLES_LONG :: nat where "CAL_CYCLES_LONG = 12"
definition CAL_TMOUT_PERC :: nat where "CAL_TMOUT_PERC = 125"
definition CAL_TMOUT_ADD :: nat where "CAL_TMOUT_ADD = 50"
definition KEEP_UNIQUE_HANG :: u64 where "KEEP_UNIQUE_HANG = 500"
definition KEEP_UNIQUE_CRASH :: u64 where "KEEP_UNIQUE_CRASH = 10000"
definition N_FUZZ_SIZE :: u64 where "N_FUZZ_SIZE = push_bit 21 1"
definition TMOUT_LIMIT :: nat where "TMOUT_LIMIT = 250"

abbreviation trace_of :: "'w save \<Rightarrow> bytes" where
  "trace_of s \<equiv> cov.trace_bits (sv_cov s)"

text \<open>\<open>on_entry\<close> changes an entry; \<open>with_afl\<close> runs an operation of the queue, which sees the current trace.\<close>

definition on_entry :: "nat \<Rightarrow> (queue_entry \<Rightarrow> queue_entry) \<Rightarrow> 'w save \<Rightarrow> 'w save res" where
  "on_entry q f s = ebind (entry (sv_afl s) q) (\<lambda>e. Inr (s\<lparr>sv_afl := set_entry q (f e) (sv_afl s)\<rparr>))"

definition with_afl :: "(afl \<Rightarrow> afl res) \<Rightarrow> 'w save \<Rightarrow> 'w save res" where
  "with_afl f s = ebind (f ((sv_afl s)\<lparr>trace_bits := trace_of s\<rparr>)) (\<lambda>a. Inr (s\<lparr>sv_afl := a\<rparr>))"

definition save_classify :: "'w save \<Rightarrow> 'w save res" where
  "save_classify s = ebind (classify_counts TYPE(64) (sv_cov s)) (\<lambda>c. Inr (s\<lparr>sv_cov := c\<rparr>))"

section \<open>Running the target\<close>

definition write_to_testcase :: "bytes \<Rightarrow> nat \<Rightarrow> bool \<Rightarrow> 'w save \<Rightarrow> (nat \<times> 'w save) res" where
  "write_to_testcase mem len fixed s =
     (let len = (if len < min_length s \<and> \<not> fixed then min_length s
                 else if len > max_length s then max_length s else len);
          sent = (if use_shmem s \<and> len > MAX_FILE then MAX_FILE else len) in
      if length mem < sent then Inl Fault
      else Inr (len, s\<lparr>sv_input := take sent mem\<rparr>))"

definition save_run_target :: "'w shost \<Rightarrow> nat \<Rightarrow> 'w save \<Rightarrow> fsrv_run_result \<times> bool \<times> 'w save" where
  "save_run_target h tmout s =
     (case s_exec h (sv_input s) tmout (sv_world s) of (ret, trace, stop_soon, w) \<Rightarrow>
        (ret, stop_soon, s\<lparr>sv_world := w, sv_cov := (sv_cov s)\<lparr>cov.trace_bits := trace\<rparr>\<rparr>))"

section \<open>Calibration\<close>

text \<open>Edges whose counter differs between two runs are taken out of the virgin map.\<close>

definition mark_var_bytes :: "nat \<Rightarrow> bytes \<Rightarrow> bytes \<Rightarrow> bytes \<times> bytes \<Rightarrow> (bytes \<times> bytes) res" where
  "mark_var_bytes n first trace = count_loop n 0 (\<lambda>i (var, virgin).
     ebind (load8 var i) (\<lambda>v. ebind (load8 first i) (\<lambda>f. ebind (load8 trace i) (\<lambda>t.
       if v = 0 \<and> f \<noteq> t then ebind (store8 var i 1) (\<lambda>var. ebind (store8 virgin i 0) (\<lambda>virgin. Inr (var, virgin)))
       else Inr (var, virgin)))))"

definition no_edges :: "'w save \<Rightarrow> bool res" where
  "no_edges s = ebind (count_bytes (real_map_size (sv_cov s)) (trace_of s)) (\<lambda>n. Inr (n = 0))"

text \<open>A run of the loop ends with \<open>None\<close> after the last cycle and with the fault at \<open>abort_calibration\<close>.\<close>

definition cal_run :: "'w shost \<Rightarrow> nat \<Rightarrow> bytes \<Rightarrow> nat \<Rightarrow> nat \<Rightarrow> 'w save \<Rightarrow> (fsrv_run_result option \<times> 'w save) res" where
  "cal_run h q mem tmout stage s =
     ebind (entry (sv_afl s) q) (\<lambda>e.
     ebind (write_to_testcase mem (q_len e) True s) (\<lambda>(_, s).
     case save_run_target h tmout s of (fault, stop_soon, s) \<Rightarrow>
     if stop_soon \<or> fault \<noteq> crash_fault s then Inr (Some fault, s)
     else ebind (if \<not> non_instrumented_mode (sv_afl s) \<and> stage = 0 then no_edges s else Inr False) (\<lambda>noinst.
       Inr (if noinst then Some FSRV_RUN_NOINST else None, s))))"

definition cal_step :: "'w shost \<Rightarrow> nat \<Rightarrow> bytes \<Rightarrow> nat \<Rightarrow> nat \<times> 'w save \<Rightarrow>
    ((fsrv_run_result option \<times> 'w save, nat \<times> 'w save) ctl) res" where
  "cal_step h q mem tmout = (\<lambda>(stage, s).
     if \<not> stage < cal_max s then Inr (Break (None, s)) else
     ebind (cal_run h q mem tmout stage s) (\<lambda>(stop, s).
     if stop \<noteq> None then Inr (Break (stop, s)) else
     ebind (save_classify s) (\<lambda>s. ebind (entry (sv_afl s) q) (\<lambda>e.
     let cksum = s_hash h (trace_of s) in
     if q_exec_cksum e = cksum then Inr (Cont (stage + 1, s)) else
     ebind (has_new_bits TYPE(64) Virgin_Bits (sv_cov s)) (\<lambda>(hnb, c).
     let s = s\<lparr>sv_cov := c, cal_new_bits := (if hnb > cal_new_bits s then hnb else cal_new_bits s)\<rparr> in
     if q_exec_cksum e \<noteq> 0 then
       ebind (mark_var_bytes (map_size c) (first_trace s) (trace_of s) (var_bytes s, virgin_bits c)) (\<lambda>(var, virgin).
         Inr (Cont (stage + 1, s\<lparr>var_bytes := var, sv_cov := c\<lparr>virgin_bits := virgin\<rparr>, cal_var := True,
           cal_max := (if cal_fast s then CAL_CYCLES else CAL_CYCLES_LONG)\<rparr>)))
     else
       ebind (on_entry q (\<lambda>e. e\<lparr>q_exec_cksum := cksum\<rparr>) s) (\<lambda>s.
         Inr (Cont (stage + 1, s\<lparr>first_trace := trace_of s\<rparr>))))))))"

text \<open>The figures of an entry that went through all cycles; \<open>start_us\<close> is the time before the first.\<close>

definition cal_finish :: "'w shost \<Rightarrow> nat \<Rightarrow> nat \<Rightarrow> bool \<Rightarrow> u64 \<Rightarrow> 'w save \<Rightarrow> (fsrv_run_result \<times> 'w save) res" where
  "cal_finish h q handicap first_run start_us s =
     (case (if fixed_seed (sv_afl s) then (word_of_nat (u32_sub (exec_tmout s) 1) * word_of_nat (cal_max s), sv_world s)
            else case s_time h (sv_world s) of (stop_us, w) \<Rightarrow>
              (let diff = stop_us - start_us in if diff = 0 then 1 else diff, w)) of (diff_us, w) \<Rightarrow>
      if cal_max s = 0 then Inl Fatal else
      let s = s\<lparr>sv_world := w, total_cal_us := total_cal_us s + diff_us,
                total_cal_cycles := total_cal_cycles s + word_of_nat (cal_max s)\<rparr>;
          us = diff_us div word_of_nat (cal_max s) in
      ebind (count_bytes (real_map_size (sv_cov s)) (trace_of s)) (\<lambda>n.
      ebind (on_entry q (\<lambda>e. e\<lparr>q_exec_us := (if us = 0 then 1 else us), q_bitmap_size := unat n, q_handicap := handicap,
          q_cal_failed := 0\<rparr>) s) (\<lambda>s.
      let s = s\<lparr>total_bitmap_size := total_bitmap_size s + ucast n, total_bitmap_entries := total_bitmap_entries s + 1\<rparr> in
      ebind (with_afl (update_bitmap_score q) s) (\<lambda>s.
        Inr (if \<not> non_instrumented_mode (sv_afl s) \<and> first_run \<and> crash_fault s = FSRV_RUN_OK \<and> cal_new_bits s = 0
             then FSRV_RUN_NOBITS else crash_fault s, s)))))"

text \<open>From \<open>abort_calibration\<close> on.\<close>

definition cal_marks :: "nat \<Rightarrow> 'w save \<Rightarrow> 'w save res" where
  "cal_marks q s =
     ebind (entry (sv_afl s) q) (\<lambda>e.
     ebind (if cal_new_bits s = 2 \<and> \<not> q_has_new_cov e
            then on_entry q (\<lambda>e. e\<lparr>q_has_new_cov := True\<rparr>) (s\<lparr>queued_with_cov := u32_add (queued_with_cov s) 1\<rparr>) else Inr s) (\<lambda>s.
     if \<not> cal_var s then Inr s
     else ebind (count_bytes (real_map_size (sv_cov s)) (var_bytes s)) (\<lambda>n.
       let s = s\<lparr>var_byte_count := unat n\<rparr> in
       if q_var_behavior e then Inr s
       else ebind (mark_as_variable q (sv_afl s)) (\<lambda>a.
         Inr (s\<lparr>sv_afl := a, queued_variable := u32_add (queued_variable s) 1\<rparr>)))))"

definition calibrate_case :: "'w shost \<Rightarrow> nat \<Rightarrow> bytes \<Rightarrow> nat \<Rightarrow> bool \<Rightarrow> 'w save \<Rightarrow> (fsrv_run_result \<times> 'w save) res" where
  "calibrate_case h q mem handicap from_queue s =
     ebind (entry (sv_afl s) q) (\<lambda>e.
     let first_run = (q_exec_cksum e = 0); cmplog = cmplog_mode (sv_afl s);
         tmout = (if \<not> from_queue \<or> resuming_fuzz s
           then max (u32_add (exec_tmout s) CAL_TMOUT_ADD) (exec_tmout s * CAL_TMOUT_PERC mod 2 ^ 32 div 100) else exec_tmout s) in
     ebind (on_entry q (\<lambda>e. e\<lparr>q_exec_cksum := (if cmplog then 0 else q_exec_cksum e), q_cal_failed := (q_cal_failed e + 1) mod 256\<rparr>)
       (s\<lparr>cal_new_bits := 0, cal_var := False, cal_max := (if cal_fast s then CAL_CYCLES_FAST else CAL_CYCLES)\<rparr>)) (\<lambda>s.
     ebind (if cmplog then cal_run h q mem tmout (stage_at s) s else Inr (None, s)) (\<lambda>(stop, s).
     ebind (case stop of
         Some fault \<Rightarrow> Inr (fault, s)
       | None \<Rightarrow>
           ebind (entry (sv_afl s) q) (\<lambda>e.
           ebind (if q_exec_cksum e \<noteq> 0
                  then ebind (has_new_bits TYPE(64) Virgin_Bits (sv_cov s)) (\<lambda>(hnb, c).
                    Inr (s\<lparr>first_trace := trace_of s, sv_cov := c, cal_new_bits := hnb\<rparr>))
                  else Inr s) (\<lambda>s.
           case s_time h (sv_world s) of (start_us, w) \<Rightarrow>
           ebind (run_loop (cal_step h q mem tmout) (0, s\<lparr>sv_world := w\<rparr>)) (\<lambda>(stop, s).
           case stop of
             Some fault \<Rightarrow> Inr (fault, s)
           | None \<Rightarrow> cal_finish h q handicap first_run start_us s)))) (\<lambda>(fault, s).
     ebind (cal_marks q s) (\<lambda>s. Inr (fault, s))))))"

section \<open>Saving\<close>

definition bump_n_fuzz :: "u64 \<Rightarrow> 'w save \<Rightarrow> 'w save res" where
  "bump_n_fuzz cksum s =
     (let i = unat (cksum mod N_FUZZ_SIZE); a = sv_afl s in
      if \<not> i < length (n_fuzz a) then Inl Fault
      else Inr (if n_fuzz a ! i < 0xFFFFFFFF then s\<lparr>sv_afl := a\<lparr>n_fuzz := (n_fuzz a)[i := n_fuzz a ! i + 1]\<rparr>\<rparr> else s))"

definition hash_schedule :: "'w save \<Rightarrow> bool" where
  "hash_schedule s \<longleftrightarrow> FAST \<le> schedule (sv_afl s) \<and> schedule (sv_afl s) \<le> RARE"

text \<open>The entry \<open>q\<close> that \<open>add_to_queue\<close> has just made is \<open>queue_top\<close>.\<close>

definition mark_new_entry :: "'w shost \<Rightarrow> nat \<Rightarrow> 'w save \<Rightarrow> 'w save res" where
  "mark_new_entry h q s =
     ebind (if sv_new_bits s = 2
            then on_entry q (\<lambda>e. e\<lparr>q_has_new_cov := True\<rparr>) (s\<lparr>queued_with_cov := u32_add (queued_with_cov s) 1\<rparr>) else Inr s) (\<lambda>s.
     ebind (if sv_need_hash s \<and> sv_new_bits s \<noteq> 0
            then on_entry q (\<lambda>e. e\<lparr>q_exec_cksum := s_hash h (trace_of s)\<rparr>) (s\<lparr>sv_need_hash := False\<rparr>) else Inr s) (\<lambda>s.
     if sv_cksum s \<noteq> 0 then
       let i = unat (sv_cksum s mod N_FUZZ_SIZE) in
       if i < length (n_fuzz (sv_afl s)) then
         on_entry q (\<lambda>e. e\<lparr>q_n_fuzz_entry := i\<rparr>) (s\<lparr>sv_afl := (sv_afl s)\<lparr>n_fuzz := (n_fuzz (sv_afl s))[i := 1]\<rparr>\<rparr>)
       else Inl Fault
     else Inr s))"

definition store_new_entry :: "bool \<Rightarrow> nat \<Rightarrow> bytes \<Rightarrow> 'w save \<Rightarrow> 'w save res" where
  "store_new_entry ok q mem s =
     ebind (if cache_max_size (sv_afl s) \<noteq> 0 then
              ebind (queue_testcase_store_mem ok q mem (sv_afl s)) (\<lambda>a. Inr (s\<lparr>sv_afl := a\<rparr>)) else Inr s) (\<lambda>s.
       Inr (s\<lparr>sv_keeping := True\<rparr>))"

definition save_to_queue :: "'w shost \<Rightarrow> bool \<Rightarrow> bytes \<Rightarrow> 'w save \<Rightarrow> 'w save res" where
  "save_to_queue h ok mem s =
     (if length mem < sv_len s then Inl Fault else
      case s_time h (sv_world s) of (now, w) \<Rightarrow>
      ebind (add_to_queue ok now (take (sv_len s) mem) (sv_len s) False (sv_afl s)) (\<lambda>a.
      case queue_top a of
        None \<Rightarrow> Inl Fault
      | Some q \<Rightarrow>
          ebind (mark_new_entry h q (s\<lparr>sv_world := w, sv_afl := a,
            fuzz_mode := (fuzz_mode s \<and> \<not> (switch_fuzz_mode s \<and> \<not> non_instrumented_mode a))\<rparr>)) (\<lambda>s.
          ebind (calibrate_case h q mem (u32_sub (sv_cycle s) 1) False s) (\<lambda>(res, s).
          if res = FSRV_RUN_ERROR then Inl Fatal
          else store_new_entry ok q mem s))))"

text \<open>Whether the simplified trace is new to one of the maps for crashes and hangs.\<close>

definition new_simplified :: "virgin_map \<Rightarrow> 'w save \<Rightarrow> (bool \<times> 'w save) res" where
  "new_simplified vm s =
     (if non_instrumented_mode (sv_afl s) then Inr (True, s) else
      ebind (if sv_classified s then Inr s else save_classify s) (\<lambda>s.
      ebind (simplify_trace TYPE(64) (map_size (sv_cov s)) (trace_of s)) (\<lambda>trace.
      ebind (has_new_bits TYPE(64) vm ((sv_cov s)\<lparr>cov.trace_bits := trace\<rparr>)) (\<lambda>(n, c).
        Inr (n \<noteq> 0, s\<lparr>sv_cov := c, sv_classified := True\<rparr>)))))"

datatype save_pc = Save_To_Queue | Handle_Fault | Keep_As_Crash

definition save_hang :: "bytes \<Rightarrow> 'w save \<Rightarrow> 'w save res" where
  "save_hang mem s = (if length mem < sv_len s then Inl Fault
     else Inr (s\<lparr>saved_hangs := saved_hangs s + 1, hang_files := hang_files s @ [take (sv_len s) mem]\<rparr>))"

text \<open>The second run with the longer timeout, and what follows from it.\<close>

definition rerun_hang :: "'w shost \<Rightarrow> bytes \<Rightarrow> 'w save \<Rightarrow> (('w save, save_pc \<times> 'w save) ctl) res" where
  "rerun_hang h mem s =
     (case save_run_target h (hang_tmout s) s of (new_fault, stop_soon, s) \<Rightarrow>
      ebind (save_classify s) (\<lambda>s.
      if \<not> stop_soon \<and> new_fault = FSRV_RUN_CRASH then Inr (Cont (Keep_As_Crash, s))
      else if stop_soon \<or> new_fault \<noteq> FSRV_RUN_TMOUT then
        (if keep_timeouts s then Inr (Cont (Save_To_Queue, s\<lparr>saved_tmouts := saved_tmouts s + 1\<rparr>)) else Inr (Break s))
      else ebind (save_hang mem s) (\<lambda>s. Inr (Break s))))"

definition confirm_hang :: "'w shost \<Rightarrow> bytes \<Rightarrow> 'w save \<Rightarrow> (('w save, save_pc \<times> 'w save) ctl) res" where
  "confirm_hang h mem s =
     (if \<not> exec_tmout s < hang_tmout s then ebind (save_hang mem s) (\<lambda>s. Inr (Break s))
      else
        ebind (write_to_testcase mem (sv_len s) False s) (\<lambda>(tmp_len, s).
        ebind (if tmp_len \<noteq> 0 then Inr (tmp_len, s) else write_to_testcase mem (sv_len s) True s) (\<lambda>(len, s).
        rerun_hang h mem (s\<lparr>sv_len := len\<rparr>))))"

definition handle_timeout :: "'w shost \<Rightarrow> bytes \<Rightarrow> 'w save \<Rightarrow> (('w save, save_pc \<times> 'w save) ctl) res" where
  "handle_timeout h mem s =
     (let s = s\<lparr>total_tmouts := total_tmouts s + 1\<rparr> in
      if saved_hangs s \<ge> KEEP_UNIQUE_HANG then Inr (Break s) else
      ebind (new_simplified Virgin_Tmout s) (\<lambda>(fresh, s).
      if \<not> fresh then Inr (Break s) else confirm_hang h mem s))"

definition handle_crash :: "bytes \<Rightarrow> 'w save \<Rightarrow> 'w save res" where
  "handle_crash mem s =
     (let s = s\<lparr>total_crashes := total_crashes s + 1\<rparr> in
      if saved_crashes s \<ge> KEEP_UNIQUE_CRASH then Inr s else
      ebind (new_simplified Virgin_Crash s) (\<lambda>(fresh, s).
      if \<not> fresh then Inr s
      else if length mem < sv_len s then Inl Fault
      else Inr (s\<lparr>saved_crashes := saved_crashes s + 1, crash_files := crash_files s @ [take (sv_len s) mem]\<rparr>)))"

text \<open>The \<open>goto\<close>s between the labels and the \<open>switch\<close>.\<close>

definition save_step :: "'w shost \<Rightarrow> bool \<Rightarrow> bytes \<Rightarrow> fsrv_run_result \<Rightarrow> save_pc \<times> 'w save \<Rightarrow>
    (('w save, save_pc \<times> 'w save) ctl) res" where
  "save_step h ok mem fault = (\<lambda>(pc, s).
     case pc of
       Save_To_Queue \<Rightarrow> ebind (save_to_queue h ok mem s) (\<lambda>s. Inr (Cont (Handle_Fault, s)))
     | Handle_Fault \<Rightarrow>
         (case fault of
            FSRV_RUN_TMOUT \<Rightarrow> handle_timeout h mem s
          | FSRV_RUN_CRASH \<Rightarrow> Inr (Cont (Keep_As_Crash, s))
          | FSRV_RUN_ERROR \<Rightarrow> Inl Fatal
          | _ \<Rightarrow> Inr (Break s))
     | Keep_As_Crash \<Rightarrow> ebind (handle_crash mem s) (\<lambda>s. Inr (Break s)))"

definition save_if_interesting :: "'w shost \<Rightarrow> bool \<Rightarrow> bytes \<Rightarrow> nat \<Rightarrow> fsrv_run_result \<Rightarrow> 'w save \<Rightarrow> (bool \<times> 'w save) res" where
  "save_if_interesting h ok mem len fault s =
     (if len = 0 then Inr (False, s)
      else if fault = FSRV_RUN_TMOUT \<and> ignore_timeouts s then
        (if hash_schedule s then ebind (save_classify s) (\<lambda>s. ebind (bump_n_fuzz (s_hash h (trace_of s)) s) (\<lambda>s. Inr (False, s)))
         else Inr (False, s))
      else
        let s = s\<lparr>sv_new_bits := 0, sv_keeping := False, sv_classified := False, sv_need_hash := True, sv_cksum := 0, sv_len := len\<rparr> in
        ebind (if hash_schedule s then
                 ebind (save_classify s) (\<lambda>s. let cksum = s_hash h (trace_of s) in
                   bump_n_fuzz cksum (s\<lparr>sv_classified := True, sv_need_hash := False, sv_cksum := cksum\<rparr>))
               else Inr s) (\<lambda>s.
        if fault = crash_fault s then
          ebind (if sv_classified s then has_new_bits TYPE(64) Virgin_Bits (sv_cov s)
                 else has_new_bits_unclassified TYPE(64) Virgin_Bits (sv_cov s)) (\<lambda>(n, c).
          let s = s\<lparr>sv_cov := c, sv_new_bits := n, sv_classified := (sv_classified s \<or> n \<noteq> 0)\<rparr> in
          if n = 0 then
            Inr (False, if crash_fault s \<noteq> FSRV_RUN_OK then s\<lparr>total_crashes := total_crashes s + 1\<rparr> else s)
          else ebind (run_loop (save_step h ok mem fault) (Save_To_Queue, s)) (\<lambda>s. Inr (sv_keeping s, s)))
        else ebind (run_loop (save_step h ok mem fault) (Handle_Fault, s)) (\<lambda>s. Inr (sv_keeping s, s))))"

section \<open>One execution\<close>

text \<open>The result is \<open>True\<close> when the caller should give up; \<open>skip_requested\<close> is the user's signal.\<close>

definition common_fuzz_stuff :: "'w shost \<Rightarrow> bool \<Rightarrow> bool \<Rightarrow> bytes \<Rightarrow> nat \<Rightarrow> 'w save \<Rightarrow> (bool \<times> 'w save) res" where
  "common_fuzz_stuff h ok skip_requested out_buf len s =
     ebind (write_to_testcase out_buf len False s) (\<lambda>(len, s).
     if len = 0 then Inr (False, s)
     else case save_run_target h (exec_tmout s) s of (fault, stop_soon, s) \<Rightarrow>
     if stop_soon then Inr (True, s)
     else if fault = FSRV_RUN_TMOUT \<and> subseq_tmouts s > TMOUT_LIMIT then
       Inr (True, s\<lparr>subseq_tmouts := u32_add (subseq_tmouts s) 1, cur_skipped_items := u32_add (cur_skipped_items s) 1\<rparr>)
     else
       let s = s\<lparr>subseq_tmouts := (if fault = FSRV_RUN_TMOUT then u32_add (subseq_tmouts s) 1 else 0)\<rparr> in
       if skip_requested then Inr (True, s\<lparr>cur_skipped_items := u32_add (cur_skipped_items s) 1\<rparr>)
       else ebind (save_if_interesting h ok out_buf len fault s) (\<lambda>(kept, s).
         Inr (False, s\<lparr>queued_discovered := u32_add (queued_discovered s) (of_bool kept)\<rparr>)))"

end
