(* ===== verification/AFL_SaveLemmas.thy ===== *)
theory AFL_SaveLemmas
  imports AFL_Save AFL_CoverageCount AFL_CoverageProps AFL_CacheRuns
begin

text \<open>
  The invariant \<open>save_ok\<close> of the fuzzer's state between two executions: the coverage maps are well
  formed, the scores and the cache of the queue keep their invariants. \<open>keeps\<close> says what calibration
  leaves alone; no virgin map ever regains a bit.
\<close>

section \<open>The invariant\<close>

definition queue_ok :: "nat \<Rightarrow> afl \<Rightarrow> bool" where
  "queue_ok n a \<longleftrightarrow> rated a \<and> length (afl.trace_bits a) = n \<and> n_fuzz_ok a \<and> length (n_fuzz a) = 2 ^ 21 \<and> cache_ok a"

definition save_ok :: "nat \<Rightarrow> 'w save \<Rightarrow> bool" where
  "save_ok n s \<longleftrightarrow> wf_cov (sv_cov s) \<and> map_size (sv_cov s) = n \<and> queue_ok n (sv_afl s) \<and>
     length (first_trace s) = n \<and> length (var_bytes s) = n"

definition save_traces :: "nat \<Rightarrow> 'w shost \<Rightarrow> bool" where
  "save_traces n h \<longleftrightarrow> (\<forall>d t w. length (fst (snd (s_exec h d t w))) = n)"

definition files :: "afl \<Rightarrow> (bytes \<times> nat) list" where
  "files a = map (\<lambda>e. (q_file e, q_len e)) (queue_buf a)"

definition conf :: "'w save \<Rightarrow> nat \<times> nat \<times> bool \<times> fsrv_run_result \<times> bool \<times> bool \<times> bool \<times> nat \<times> nat \<times>
    bytes list \<times> bytes list \<times> nat \<times> nat \<times> u64" where
  "conf s = (min_length s, max_length s, use_shmem s, crash_fault s, non_instrumented_mode (sv_afl s), keep_timeouts s, sv_keeping s,
     sv_len s, sv_new_bits s, crash_files s, hang_files s, exec_tmout s, hang_tmout s, saved_hangs s)"

definition virgin_le :: "cov \<Rightarrow> cov \<Rightarrow> bool" where
  "virgin_le c d \<longleftrightarrow> (\<forall>vm. pairs (get_virgin vm d) \<subseteq> pairs (get_virgin vm c))"

definition keeps :: "'w save \<Rightarrow> 'w save \<Rightarrow> bool" where
  "keeps s t \<longleftrightarrow> files (sv_afl t) = files (sv_afl s) \<and> virgin_le (sv_cov s) (sv_cov t) \<and> conf t = conf s"

lemma virgin_le_refl [simp]: "virgin_le c c"
  by (simp add: virgin_le_def)

lemma virgin_le_trans: "virgin_le c d \<Longrightarrow> virgin_le d e \<Longrightarrow> virgin_le c e"
  unfolding virgin_le_def by blast

lemma keeps_refl [simp]: "keeps s s"
  by (simp add: keeps_def)

lemma keeps_trans: "keeps s t \<Longrightarrow> keeps t u \<Longrightarrow> keeps s u"
  unfolding keeps_def by (auto intro: virgin_le_trans)

lemma files_length: "files a = files b \<Longrightarrow> length (queue_buf a) = length (queue_buf b)"
  unfolding files_def using map_eq_imp_length_eq by blast

lemma files_nth: "files a = files b \<Longrightarrow> j < length (queue_buf b) \<Longrightarrow>
    q_file (queue_buf a ! j) = q_file (queue_buf b ! j) \<and> q_len (queue_buf a ! j) = q_len (queue_buf b ! j)"
  using files_length [of a b] unfolding files_def by (metis (no_types, lifting) nth_map prod.inject)

section \<open>Coverage\<close>

lemma wf_cov_new_trace: "wf_cov c \<Longrightarrow> length t = map_size c \<Longrightarrow> wf_cov (c\<lparr>cov.trace_bits := t\<rparr>)"
  by (rule wf_cov_trace)

lemma has_new_ok:
  assumes "wf_cov c"
  shows "\<exists>r d. has_new_bits TYPE(64) vm c = Inr (r, d) \<and> records_coverage (looked_at 8 c) vm c r d \<and> wf_cov d \<and>
    map_size d = map_size c \<and> real_map_size d = real_map_size c \<and> cov.trace_bits d = cov.trace_bits c \<and> virgin_le c d"
proof -
  have le: "looked_at 8 c \<le> map_size c" using looked_at_le [OF assms, of 8] by simp
  obtain r d where rd: "cov_step (looked_at 8 c) vm c = (r, d)" by fastforce
  have R: "records_coverage (looked_at 8 c) vm c r d" by (rule cov_step_records [OF assms le rd])
  have "d = snd (cov_step (looked_at 8 c) vm c)" using rd by simp
  then have m: "map_size d = map_size c" "real_map_size d = real_map_size c"
    by (cases vm; simp add: cov_step_def Let_def)+
  have "pairs (get_virgin vm' d) \<subseteq> pairs (get_virgin vm' c)" for vm'
    using R by (cases "vm' = vm") (auto simp: records_coverage_def Let_def)
  then have "virgin_le c d" by (simp add: virgin_le_def)
  moreover have W: "wf_cov d" "cov.trace_bits d = cov.trace_bits c" using R unfolding records_coverage_def Let_def by blast+
  ultimately show ?thesis using has_new_bits_eval [OF assms, where ?'w = 64 and vm = vm] rd R m
    by (intro exI [of _ r] exI [of _ d]) (simp add: W)
qed

lemma classify_ok:
  assumes "wf_cov c"
  shows "classify_counts TYPE(64) c = Inr (c\<lparr>cov.trace_bits := map class8 (cov.trace_bits c)\<rparr>)"
    "wf_cov (c\<lparr>cov.trace_bits := map class8 (cov.trace_bits c)\<rparr>)"
  using classify_counts_eval [of c, where ?'w = 64] assms by (simp_all add: wf_cov_def)

lemma count_bytes_ok:
  assumes "wf_cov c" "length mem = map_size c"
  shows "\<exists>v. count_bytes (real_map_size c) mem = Inr v"
proof -
  have w: "real_map_size c \<le> map_size c" "map_size c mod 64 = 0" "map_size c < 2147483648" using assms(1) by (simp_all add: wf_cov_def)
  then have "4 * map_words (real_map_size c) \<le> map_size c" unfolding map_words_def
    by (subst u32_add_exact) (simp, presburger)
  then show ?thesis using count_bytes_eval [of "real_map_size c" mem] assms(2) by simp
qed

section \<open>The queue\<close>

text \<open>What the invariants of the queue read of an entry.\<close>

definition core :: "queue_entry \<Rightarrow> bytes \<times> nat \<times> bytes option \<times> nat \<times> bytes option" where
  "core e = (q_file e, q_len e, q_testcase_buf e, q_tc_ref e, q_trace_mini e)"

lemma queue_ok_update:
  assumes a: "queue_ok n a" and q: "q < length (queue_buf a)" and c: "core e = core (queue_buf a ! q)"
    and nf: "q_n_fuzz_entry e < 2 ^ 21"
  shows "queue_ok n (set_entry q e a)" "files (set_entry q e a) = files a"
proof -
  let ?b = "set_entry q e a"
  have e: "q_file e = q_file (queue_buf a ! q)" "q_len e = q_len (queue_buf a ! q)" "q_testcase_buf e = q_testcase_buf (queue_buf a ! q)"
    "q_tc_ref e = q_tc_ref (queue_buf a ! q)" "q_trace_mini e = q_trace_mini (queue_buf a ! q)"
    using c by (simp_all add: core_def)
  have "rated ?b = rated a"
    by (rule rated_cong) (use q e in \<open>auto simp: set_entry_def nth_list_update\<close>)
  moreover have "n_fuzz_ok ?b"
    using a nf q set_update_subset_insert [of "queue_buf a" q e] by (auto simp: queue_ok_def n_fuzz_ok_def set_entry_def)
  moreover have "cache_ok ?b"
  proof -
    have A: "cache_ok a" using a by (simp add: queue_ok_def)
    have s: "slots ?b = slots a" by (simp add: slots_def)
    have len: "charge (queue_buf ?b) = charge (queue_buf a)"
      by (rule ext) (use q e in \<open>auto simp: charge_def nth_list_update split: option.splits\<close>)
    have "entry_ok e" using cache_okD(12) [OF A, of "queue_buf a ! q"] q e by (simp add: entry_ok_def)
    then have "\<forall>x\<in>set (queue_buf ?b). entry_ok x"
      using cache_okD(12) [OF A] set_update_subset_insert [of "queue_buf a" q e] by auto
    moreover have "\<forall>j<length (queue_buf ?b). count_list (slots ?b) (Some j) = of_bool (q_testcase_buf (queue_buf ?b ! j) \<noteq> None)"
      using cache_okD(8) [OF A] e q by (auto simp: s nth_list_update)
    ultimately show ?thesis using A unfolding cache_ok_def s len by simp
  qed
  ultimately show "queue_ok n ?b" using a by (simp add: queue_ok_def set_entry_def)
  show "files ?b = files a"
    using q e by (intro nth_equalityI) (auto simp: files_def set_entry_def nth_list_update)
qed

lemma queue_ok_trace: "queue_ok n a \<Longrightarrow> length t = n \<Longrightarrow> queue_ok n (a\<lparr>trace_bits := t\<rparr>)"
proof -
  assume a: "queue_ok n a" "length t = n"
  have "rated (a\<lparr>trace_bits := t\<rparr>)" by (rule rated_transfer [of a]) (use a in \<open>simp_all add: queue_ok_def\<close>)
  moreover have "cache_ok (a\<lparr>trace_bits := t\<rparr>) = cache_ok a" by (simp add: cache_ok_def slots_def)
  ultimately show ?thesis using a by (auto simp: queue_ok_def n_fuzz_ok_def)
qed

text \<open>The scores.\<close>

lemma framed_cache:
  assumes "framed a b"
  shows "cache_slots b = cache_slots a" "cache_max_entries b = cache_max_entries a" "cache_max_count b = cache_max_count a"
    "cache_count b = cache_count a" "cache_size b = cache_size a" "cache_smallest_free b = cache_smallest_free a"
    "non_instrumented_mode b = non_instrumented_mode a"
proof -
  have eq: "b\<lparr>queue_buf := [], top_rated := [], score_changed := False\<rparr> = a\<lparr>queue_buf := [], top_rated := [], score_changed := False\<rparr>"
    using assms by (simp add: framed_def)
  show "cache_slots b = cache_slots a" "cache_max_entries b = cache_max_entries a" "cache_max_count b = cache_max_count a"
    "cache_count b = cache_count a" "cache_size b = cache_size a" "cache_smallest_free b = cache_smallest_free a"
    "non_instrumented_mode b = non_instrumented_mode a"
    using arg_cong [OF eq, of cache_slots] arg_cong [OF eq, of cache_max_entries] arg_cong [OF eq, of cache_max_count]
      arg_cong [OF eq, of cache_count] arg_cong [OF eq, of cache_size] arg_cong [OF eq, of cache_smallest_free]
      arg_cong [OF eq, of non_instrumented_mode] by simp_all
qed

lemma stat_core:
  assumes "stat e' = stat e"
  shows "q_file e' = q_file e" "q_len e' = q_len e" "q_testcase_buf e' = q_testcase_buf e" "q_n_fuzz_entry e' = q_n_fuzz_entry e"
  using arg_cong [OF assms, of q_file] arg_cong [OF assms, of q_len] arg_cong [OF assms, of q_testcase_buf]
    arg_cong [OF assms, of q_n_fuzz_entry] by (simp_all add: stat_def)

lemma framed_cache_ok:
  assumes f: "framed a b" and a: "cache_ok a"
  shows "cache_ok b"
proof -
  have l: "length (queue_buf b) = length (queue_buf a)" by (rule framed_same(2) [OF f])
  have e: "q_file (queue_buf b ! j) = q_file (queue_buf a ! j) \<and> q_len (queue_buf b ! j) = q_len (queue_buf a ! j) \<and>
     q_testcase_buf (queue_buf b ! j) = q_testcase_buf (queue_buf a ! j)" if "j < length (queue_buf a)" for j
    using stat_core [OF framed_entry [OF f that]] by simp
  have s: "slots b = slots a" by (simp add: slots_def framed_cache [OF f])
  have "sum_list (map (charge (queue_buf b)) (slots a)) = sum_list (map (charge (queue_buf a)) (slots a))"
    using cache_okD(7) [OF a] e by (intro arg_cong [where f = sum_list] map_cong) (auto simp: charge_def split: option.splits)
  moreover have "entry_ok x" if x: "x \<in> set (queue_buf b)" for x
  proof -
    from x obtain i where i: "i < length (queue_buf a)" "x = queue_buf b ! i" unfolding in_set_conv_nth l by blast
    then have "entry_ok (queue_buf a ! i)" by (intro cache_okD(12) [OF a]) simp
    then show ?thesis using e [OF i(1)] by (simp add: entry_ok_def i(2))
  qed
  moreover have "\<forall>j<length (queue_buf b). count_list (slots a) (Some j) = of_bool (q_testcase_buf (queue_buf b ! j) \<noteq> None)"
    using cache_okD(8) [OF a] e l by simp
  ultimately show ?thesis using a unfolding cache_ok_def s l framed_cache [OF f] by simp
qed

lemma score_ok:
  assumes a: "queue_ok n a" and q: "q < length (queue_buf a)" "q_trace_mini (queue_buf a ! q) = None"
  shows "\<exists>b. update_bitmap_score q a = Inr b \<and> queue_ok n b \<and> files b = files a \<and> non_instrumented_mode b = non_instrumented_mode a \<and>
    cache_max_size b = cache_max_size a \<and> queue_top b = queue_top a \<and> q_testcase_buf (queue_buf b ! q) = q_testcase_buf (queue_buf a ! q)"
proof -
  have "in_step q a" using q(2) by (simp add: in_step_def)
  then obtain b where b: "update_bitmap_score q a = Inr b" "rated b" "framed a b"
    using update_bitmap_score_ok [of a q] a q(1) unfolding queue_ok_def by blast
  have l: "length (queue_buf b) = length (queue_buf a)" by (rule framed_same(2) [OF b(3)])
  note st = stat_core [OF framed_entry [OF b(3)]]
  have "n_fuzz_ok b" using a st l framed_same(5) [OF b(3)]
    unfolding queue_ok_def n_fuzz_ok_def all_set_conv_all_nth by auto
  moreover have "files b = files a" using st l by (intro nth_equalityI) (simp_all add: files_def)
  moreover have "cache_max_size b = cache_max_size a" "queue_top b = queue_top a"
  proof -
    have eq: "b\<lparr>queue_buf := [], top_rated := [], score_changed := False\<rparr> = a\<lparr>queue_buf := [], top_rated := [], score_changed := False\<rparr>"
      using b(3) by (simp add: framed_def)
    show "cache_max_size b = cache_max_size a" using arg_cong [OF eq, of cache_max_size] by simp
    show "queue_top b = queue_top a" using arg_cong [OF eq, of queue_top] by simp
  qed
  ultimately show ?thesis
    using a b framed_cache_ok [OF b(3)] framed_same(1,5) [OF b(3)] framed_cache(7) [OF b(3)] st(3) [OF q(1)] by (simp add: queue_ok_def)
qed

section \<open>Steps of the calibration\<close>

text \<open>\<open>q\<close> is an entry that is not cached and whose test case is in \<open>mem\<close>; \<open>ready\<close> adds that it holds no compacted trace.\<close>

definition listed :: "nat \<Rightarrow> nat \<Rightarrow> bytes \<Rightarrow> 'w save \<Rightarrow> bool" where
  "listed n q mem s \<longleftrightarrow> save_ok n s \<and> q < length (queue_buf (sv_afl s)) \<and> q_len (queue_buf (sv_afl s) ! q) \<le> length mem \<and>
     q_testcase_buf (queue_buf (sv_afl s) ! q) = None"

definition ready :: "nat \<Rightarrow> nat \<Rightarrow> bytes \<Rightarrow> 'w save \<Rightarrow> bool" where
  "ready n q mem s \<longleftrightarrow> listed n q mem s \<and> q_trace_mini (queue_buf (sv_afl s) ! q) = None"

lemma readyD:
  assumes "ready n q mem s"
  shows "listed n q mem s" "save_ok n s" "q < length (queue_buf (sv_afl s))" "wf_cov (sv_cov s)" "map_size (sv_cov s) = n"
    "queue_ok n (sv_afl s)" "q_len (queue_buf (sv_afl s) ! q) \<le> length mem"
  using assms by (simp_all add: ready_def listed_def save_ok_def)

text \<open>A change outside the queue and the maps.\<close>

definition aside :: "'w save \<Rightarrow> 'w save \<Rightarrow> bool" where
  "aside s t \<longleftrightarrow> sv_afl t = sv_afl s \<and> virgin_le (sv_cov s) (sv_cov t) \<and> conf t = conf s \<and>
     wf_cov (sv_cov t) \<and> map_size (sv_cov t) = map_size (sv_cov s) \<and> real_map_size (sv_cov t) = real_map_size (sv_cov s) \<and>
     length (first_trace t) = map_size (sv_cov s) \<and> length (var_bytes t) = map_size (sv_cov s)"

lemma aside_keeps: "aside s t \<Longrightarrow> keeps s t"
  by (simp add: aside_def keeps_def)

lemma aside_ok: "save_ok n s \<Longrightarrow> aside s t \<Longrightarrow> save_ok n t"
  by (simp add: aside_def save_ok_def)

lemma aside_ready: "ready n q mem s \<Longrightarrow> aside s t \<Longrightarrow> ready n q mem t"
  using aside_ok [of n s t] by (simp add: ready_def listed_def) (simp add: aside_def)

lemma aside_listed: "listed n q mem s \<Longrightarrow> aside s t \<Longrightarrow> listed n q mem t"
  using aside_ok [of n s t] by (simp add: listed_def) (simp add: aside_def)

lemma aside_refl: "save_ok n s \<Longrightarrow> aside s s"
  by (simp add: aside_def save_ok_def)

lemma aside_trans: "aside s t \<Longrightarrow> aside t u \<Longrightarrow> aside s u"
  by (auto simp: aside_def intro: virgin_le_trans)

text \<open>Fields that none of the predicates reads.\<close>

definition same_view :: "'w save \<Rightarrow> 'w save \<Rightarrow> bool" where
  "same_view s t \<longleftrightarrow> sv_afl t = sv_afl s \<and> sv_cov t = sv_cov s \<and> conf t = conf s \<and> first_trace t = first_trace s \<and> var_bytes t = var_bytes s"

lemma same_view_aside: "save_ok n s \<Longrightarrow> same_view s t \<Longrightarrow> aside s t"
  by (simp add: same_view_def aside_def save_ok_def)

lemma write_testcase_ok:
  assumes "len \<le> length mem" "fixed \<or> min_length s \<le> length mem"
  shows "\<exists>k b. write_to_testcase mem len fixed s = Inr (k, s\<lparr>sv_input := b\<rparr>) \<and> k \<le> length mem"
  using assms by (auto simp: write_to_testcase_def Let_def)

lemma same_view_input [simp]: "same_view s (s\<lparr>sv_input := b\<rparr>)"
  by (simp add: same_view_def conf_def)

lemma run_aside:
  assumes "save_traces n h" "save_ok n s" "save_run_target h t s = (f, st, u)"
  shows "aside s u" "cal_max u = cal_max s" "crash_fault u = crash_fault s" "f = fst (s_exec h (sv_input s) t (sv_world s))"
    "exec_tmout u = exec_tmout s" "sv_len u = sv_len s"
proof -
  obtain r tr so w where ex: "s_exec h (sv_input s) t (sv_world s) = (r, tr, so, w)" by (metis prod_cases4)
  have u: "u = s\<lparr>sv_world := w, sv_cov := (sv_cov s)\<lparr>cov.trace_bits := tr\<rparr>\<rparr>" "f = r"
    using assms(3) by (simp_all add: save_run_target_def ex)
  have "length tr = n" using assms(1) ex unfolding save_traces_def by (metis fst_conv snd_conv)
  then have "wf_cov (sv_cov u)" using assms(2) wf_cov_new_trace [of "sv_cov s" tr] by (simp add: save_ok_def u)
  moreover have "virgin_le (sv_cov s) (sv_cov u)" by (simp add: u virgin_le_def)
  ultimately show "aside s u" using assms(2) by (simp add: aside_def u conf_def save_ok_def)
qed (use assms(3) in \<open>auto simp: save_run_target_def split: prod.splits\<close>)

lemma classify_aside:
  assumes "save_ok n s"
  shows "save_classify s = Inr (s\<lparr>sv_cov := (sv_cov s)\<lparr>cov.trace_bits := map class8 (trace_of s)\<rparr>\<rparr>)"
    "aside s (s\<lparr>sv_cov := (sv_cov s)\<lparr>cov.trace_bits := map class8 (trace_of s)\<rparr>\<rparr>)"
  using classify_ok [of "sv_cov s"] assms
  by (simp_all add: save_classify_def save_ok_def aside_def conf_def virgin_le_def)

lemma on_entry_ok:
  assumes s: "save_ok n s" and q: "q < length (queue_buf (sv_afl s))"
    and f: "\<And>e. core (f e) = core e" "q_n_fuzz_entry (f (queue_buf (sv_afl s) ! q)) < 2 ^ 21"
  shows "\<exists>t. on_entry q f s = Inr t \<and> t = s\<lparr>sv_afl := set_entry q (f (queue_buf (sv_afl s) ! q)) (sv_afl s)\<rparr> \<and> save_ok n t \<and> keeps s t"
proof -
  note u = queue_ok_update [OF _ q f(1) f(2), of n]
  have a: "queue_ok n (sv_afl s)" using s by (simp add: save_ok_def)
  let ?t = "s\<lparr>sv_afl := set_entry q (f (queue_buf (sv_afl s) ! q)) (sv_afl s)\<rparr>"
  have "non_instrumented_mode (sv_afl ?t) = non_instrumented_mode (sv_afl s)" by (simp add: set_entry_def)
  then show ?thesis using u [OF a] s q
    by (intro exI [of _ ?t]) (simp add: on_entry_def entry_def save_ok_def keeps_def conf_def)
qed

lemma on_entry_listed:
  assumes s: "listed n q mem s" and f: "\<And>e. core (f e) = core e" "\<And>e. q_n_fuzz_entry (f e) = q_n_fuzz_entry e"
  shows "\<exists>t. on_entry q f s = Inr t \<and> t = s\<lparr>sv_afl := set_entry q (f (queue_buf (sv_afl s) ! q)) (sv_afl s)\<rparr> \<and>
    listed n q mem t \<and> keeps s t \<and> (ready n q mem s \<longrightarrow> ready n q mem t)"
proof -
  have o: "save_ok n s" "q < length (queue_buf (sv_afl s))" using s by (simp_all add: listed_def)
  have "q_n_fuzz_entry (queue_buf (sv_afl s) ! q) < 2 ^ 21"
    using o by (auto simp: save_ok_def queue_ok_def n_fuzz_ok_def)
  then have "q_n_fuzz_entry (f (queue_buf (sv_afl s) ! q)) < 2 ^ 21" by (simp add: f(2))
  from on_entry_ok [OF o f(1) this] obtain t where t: "on_entry q f s = Inr t" "t = s\<lparr>sv_afl := set_entry q (f (queue_buf (sv_afl s) ! q)) (sv_afl s)\<rparr>"
    "save_ok n t" "keeps s t" by blast
  have c: "q_len (f e) = q_len e" "q_testcase_buf (f e) = q_testcase_buf e" "q_trace_mini (f e) = q_trace_mini e" for e
    using f(1) [of e] by (simp_all add: core_def)
  have "listed n q mem t" using s t(3) c by (simp add: listed_def t(2))
  moreover have "ready n q mem s \<longrightarrow> ready n q mem t" using calculation c o(2) by (simp add: ready_def t(2))
  ultimately show ?thesis using t by blast
qed

lemma no_edges_ok: "save_ok n s \<Longrightarrow> \<exists>b. no_edges s = Inr b"
  using count_bytes_ok [of "sv_cov s" "trace_of s"] by (auto simp: no_edges_def save_ok_def wf_cov_def)

definition errs :: "'w shost \<Rightarrow> bool" where
  "errs h \<longleftrightarrow> (\<exists>d t w. fst (s_exec h d t w) = FSRV_RUN_ERROR)"

lemma cal_run_ok:
  assumes h: "save_traces n h" and s: "ready n q mem s"
  shows "\<exists>st t. cal_run h q mem tmout stage s = Inr (st, t) \<and> aside s t \<and> cal_max t = cal_max s \<and> (st = Some FSRV_RUN_ERROR \<longrightarrow> errs h)"
proof -
  note R = readyD [OF s]
  from write_testcase_ok [OF R(7), of True s] obtain k b where
    w: "write_to_testcase mem (q_len (queue_buf (sv_afl s) ! q)) True s = Inr (k, s\<lparr>sv_input := b\<rparr>)" by auto
  let ?s = "s\<lparr>sv_input := b\<rparr>"
  have so: "save_ok n ?s" "aside s ?s" using same_view_aside [OF R(2), of ?s] aside_ok [OF R(2)] by simp_all
  obtain f st u where run: "save_run_target h tmout ?s = (f, st, u)" by (metis prod_cases3)
  note u = run_aside [OF h so(1) run]
  have e: "entry (sv_afl s) q = Inr (queue_buf (sv_afl s) ! q)" using R(3) by (simp add: entry_def)
  have au: "aside s u" using so(2) u(1) by (rule aside_trans)
  obtain noi where noi: "(if \<not> non_instrumented_mode (sv_afl u) \<and> stage = 0 then no_edges u else Inr False) = Inr noi"
    using no_edges_ok [OF aside_ok [OF R(2) au]] by (cases "\<not> non_instrumented_mode (sv_afl u) \<and> stage = 0") auto
  have "cal_run h q mem tmout stage s = (if st \<or> f \<noteq> crash_fault u then Inr (Some f, u) else Inr (if noi then Some FSRV_RUN_NOINST else None, u))"
    unfolding cal_run_def e ebind_simps w prod.case run noi ..
  moreover have "f = FSRV_RUN_ERROR \<longrightarrow> errs h" using u(4) by (auto simp: errs_def)
  ultimately show ?thesis using au u(2) by auto
qed

lemma pairs_zero: "pairs (v[i := 0]) \<subseteq> pairs v"
proof
  fix x assume x: "x \<in> pairs (v[i := 0])"
  obtain a b where ab: "x = (a, b)" by fastforce
  then show "x \<in> pairs v" using x by (cases "a = i") (auto simp: pairs_def)
qed

lemma mark_var_bytes_ok:
  assumes "length first = n" "length trace = n" "length var = n" "length virgin = n"
  shows "\<exists>var' virgin'. mark_var_bytes n first trace (var, virgin) = Inr (var', virgin') \<and> length var' = n \<and> length virgin' = n \<and>
    pairs virgin' \<subseteq> pairs virgin"
proof -
  let ?I = "\<lambda>(j :: nat) (v, w). length v = n \<and> length w = n \<and> pairs w \<subseteq> pairs virgin"
  have "\<exists>x. mark_var_bytes n first trace (var, virgin) = Inr x \<and> ?I (0 + n) x"
    unfolding mark_var_bytes_def
  proof (rule count_loop_inv)
    fix j and x :: "bytes \<times> bytes" assume j: "0 \<le> j" "j < 0 + n" and I: "?I j x"
    obtain v w where x: "x = (v, w)" by fastforce
    have l: "length v = n" "length w = n" "pairs w \<subseteq> pairs virgin" using I by (simp_all add: x)
    have sub: "pairs (w[j := 0]) \<subseteq> pairs virgin" using pairs_zero l(3) by blast
    show "\<exists>y. (case x of (var, virgin) \<Rightarrow> ebind (load8 var j) (\<lambda>v. ebind (load8 first j) (\<lambda>f. ebind (load8 trace j) (\<lambda>t.
       if v = 0 \<and> f \<noteq> t then ebind (store8 var j 1) (\<lambda>var. ebind (store8 virgin j 0) (\<lambda>virgin. Inr (var, virgin)))
       else Inr (var, virgin))))) = Inr y \<and> ?I (Suc j) y"
      using j l sub assms by (auto simp: x mem_ok)
  qed (use assms in simp)
  then show ?thesis by auto
qed

end
