(* ===== verification/AFL_CalLemmas.thy ===== *)
theory AFL_CalLemmas
  imports AFL_SaveLemmas
begin

text \<open>
  Calibration: \<open>calibrate_case\<close> returns for every target, at most twelve runs after its start, keeps the
  invariant \<open>save_ok\<close> and touches only the entry and, never adding bits, the virgin map.
\<close>

section \<open>One cycle\<close>

definition max_ok :: "'w save \<Rightarrow> bool" where
  "max_ok s \<longleftrightarrow> 0 < cal_max s \<and> cal_max s \<le> 12"

lemma virgin_bits_le:
  "pairs v \<subseteq> pairs (virgin_bits c) \<Longrightarrow> virgin_le c (c\<lparr>virgin_bits := v\<rparr>)"
  unfolding virgin_le_def
proof
  fix vm assume "pairs v \<subseteq> pairs (virgin_bits c)"
  then show "pairs (get_virgin vm (c\<lparr>virgin_bits := v\<rparr>)) \<subseteq> pairs (get_virgin vm c)" by (cases vm) simp_all
qed

lemma new_bits_aside:
  assumes "save_ok n s"
  shows "\<exists>r d. has_new_bits TYPE(64) vm (sv_cov s) = Inr (r, d) \<and> aside s (s\<lparr>sv_cov := d\<rparr>) \<and> cov.trace_bits d = trace_of s \<and>
    records_coverage (looked_at 8 (sv_cov s)) vm (sv_cov s) r d"
  using has_new_ok [of "sv_cov s" vm] assms unfolding save_ok_def aside_def conf_def by fastforce

lemma mark_aside:
  assumes s: "save_ok n s"
  shows "\<exists>var v. mark_var_bytes (map_size (sv_cov s)) (first_trace s) (trace_of s) (var_bytes s, virgin_bits (sv_cov s)) = Inr (var, v) \<and>
    aside s (s\<lparr>var_bytes := var, sv_cov := (sv_cov s)\<lparr>virgin_bits := v\<rparr>\<rparr>)"
proof -
  have l: "length (trace_of s) = n" "length (virgin_bits (sv_cov s)) = n" "length (first_trace s) = n" "length (var_bytes s) = n"
    "map_size (sv_cov s) = n" "wf_cov (sv_cov s)" using s by (auto simp: save_ok_def wf_cov_def)
  from mark_var_bytes_ok [OF l(3,1,4,2)] obtain var v where m: "mark_var_bytes n (first_trace s) (trace_of s) (var_bytes s, virgin_bits (sv_cov s)) = Inr (var, v)"
    "length var = n" "length v = n" "pairs v \<subseteq> pairs (virgin_bits (sv_cov s))" by blast
  have "wf_cov ((sv_cov s)\<lparr>virgin_bits := v\<rparr>)" using l m(3) by (simp add: wf_cov_def)
  then show ?thesis using m l virgin_bits_le [OF m(4)] by (simp add: aside_def conf_def)
qed

lemma cal_step_ok:
  assumes h: "save_traces n h" and s: "ready n q mem s" "max_ok s"
  shows "\<exists>t. ready n q mem t \<and> keeps s t \<and> max_ok t \<and>
    ((\<exists>st. cal_step h q mem tmout (stage, s) = Inr (Break (st, t)) \<and> (st = Some FSRV_RUN_ERROR \<longrightarrow> errs h)) \<or>
     cal_step h q mem tmout (stage, s) = Inr (Cont (stage + 1, t)) \<and> stage < 12)"
proof (cases "stage < cal_max s")
  case False
  then have "cal_step h q mem tmout (stage, s) = Inr (Break (None, s))" by (simp add: cal_step_def)
  then show ?thesis using s by (intro exI [of _ s]) simp
next
  case lt: True
  then have st12: "stage < 12" using s(2) by (simp add: max_ok_def)
  from cal_run_ok [OF h s(1), of tmout stage] obtain st u where u: "cal_run h q mem tmout stage s = Inr (st, u)" "aside s u" "cal_max u = cal_max s"
    "st = Some FSRV_RUN_ERROR \<longrightarrow> errs h" by blast
  have ru: "ready n q mem u" "max_ok u" using aside_ready [OF s(1) u(2)] s(2) u(3) by (simp_all add: max_ok_def)
  show ?thesis
  proof (cases "st = None")
    case False
    then have "cal_step h q mem tmout (stage, s) = Inr (Break (st, u))" using lt u(1) by (simp add: cal_step_def)
    then show ?thesis using ru aside_keeps [OF u(2)] u(4) by blast
  next
    case True
    define v where "v = u\<lparr>sv_cov := (sv_cov u)\<lparr>cov.trace_bits := map class8 (trace_of u)\<rparr>\<rparr>"
    have v: "save_classify u = Inr v" "aside u v" using classify_aside [OF readyD(2) [OF ru(1)]] by (simp_all add: v_def)
    have rv: "ready n q mem v" "max_ok v" using aside_ready [OF ru(1) v(2)] ru(2) by (simp_all add: v_def max_ok_def)
    note V = readyD [OF rv(1)]
    define e where "e = queue_buf (sv_afl v) ! q"
    have ent: "entry (sv_afl v) q = Inr e" using V(3) by (simp add: entry_def e_def)
    from new_bits_aside [OF V(2), of Virgin_Bits] obtain r d where
      d: "has_new_bits TYPE(64) Virgin_Bits (sv_cov v) = Inr (r, d)" "aside v (v\<lparr>sv_cov := d\<rparr>)" "cov.trace_bits d = trace_of v" by blast
    define w where "w = v\<lparr>sv_cov := d, cal_new_bits := (if r > cal_new_bits v then r else cal_new_bits v)\<rparr>"
    have aw: "aside v w" using d(2) by (simp add: w_def aside_def conf_def)
    have rw: "ready n q mem w" "max_ok w" using aside_ready [OF rv(1) aw] rv(2) by (simp_all add: w_def max_ok_def)
    note W = readyD [OF rw(1)]
    have kw: "keeps s w" by (rule aside_keeps [OF aside_trans [OF aside_trans [OF u(2) v(2)] aw]])
    have kv: "keeps s v" by (rule aside_keeps [OF aside_trans [OF u(2) v(2)]])
    have step: "cal_step h q mem tmout (stage, s) =
      (if q_exec_cksum e = s_hash h (trace_of v) then Inr (Cont (stage + 1, v))
       else if q_exec_cksum e \<noteq> 0 then
         ebind (mark_var_bytes (map_size (sv_cov w)) (first_trace w) (trace_of w) (var_bytes w, virgin_bits (sv_cov w))) (\<lambda>(var, virgin).
         Inr (Cont (stage + 1, w\<lparr>var_bytes := var, sv_cov := (sv_cov w)\<lparr>virgin_bits := virgin\<rparr>, cal_var := True,
           cal_max := (if cal_fast w then CAL_CYCLES else CAL_CYCLES_LONG)\<rparr>)))
       else ebind (on_entry q (\<lambda>e. e\<lparr>q_exec_cksum := s_hash h (trace_of v)\<rparr>) w) (\<lambda>s. Inr (Cont (stage + 1, s\<lparr>first_trace := trace_of s\<rparr>))))"
      using lt True u(1) by (simp add: cal_step_def v(1) ent d(1) Let_def w_def)
    consider "q_exec_cksum e = s_hash h (trace_of v)" | "q_exec_cksum e \<noteq> s_hash h (trace_of v)" "q_exec_cksum e \<noteq> 0"
      | "q_exec_cksum e \<noteq> s_hash h (trace_of v)" "q_exec_cksum e = 0" by blast
    then show ?thesis
    proof cases
      case 1
      then show ?thesis using step rv kv st12 by (intro exI [of _ v]) simp
    next
      case 2
      from mark_aside [OF W(2)] obtain var vir where m: "mark_var_bytes (map_size (sv_cov w)) (first_trace w) (trace_of w) (var_bytes w, virgin_bits (sv_cov w)) = Inr (var, vir)"
        "aside w (w\<lparr>var_bytes := var, sv_cov := (sv_cov w)\<lparr>virgin_bits := vir\<rparr>\<rparr>)" by blast
      define x where "x = w\<lparr>var_bytes := var, sv_cov := (sv_cov w)\<lparr>virgin_bits := vir\<rparr>, cal_var := True,
           cal_max := (if cal_fast w then CAL_CYCLES else CAL_CYCLES_LONG)\<rparr>"
      have ax: "aside w x" using m(2) by (simp add: x_def aside_def conf_def)
      have "max_ok x" by (simp add: x_def max_ok_def CAL_CYCLES_def CAL_CYCLES_LONG_def)
      moreover have "cal_step h q mem tmout (stage, s) = Inr (Cont (stage + 1, x))" using 2 step m(1) by (simp add: x_def)
      ultimately show ?thesis using aside_ready [OF rw(1) ax] keeps_trans [OF kw aside_keeps [OF ax]] st12 by blast
    next
      case 3
      let ?f = "\<lambda>e. e\<lparr>q_exec_cksum := s_hash h (trace_of v)\<rparr>"
      from on_entry_listed [of n q mem w ?f] rw(1) obtain x where
        x: "on_entry q ?f w = Inr x" "x = w\<lparr>sv_afl := set_entry q (?f (queue_buf (sv_afl w) ! q)) (sv_afl w)\<rparr>" "ready n q mem x" "keeps w x"
        by (auto simp: core_def readyD(1))
      let ?y = "x\<lparr>first_trace := trace_of x\<rparr>"
      have "length (trace_of x) = map_size (sv_cov x)" using readyD(4) [OF x(3)] by (simp add: wf_cov_def)
      then have ay: "aside x ?y" using readyD(2) [OF x(3)] by (simp add: aside_def conf_def save_ok_def)
      have "max_ok ?y" using rw(2) by (simp add: max_ok_def x(2))
      moreover have "cal_step h q mem tmout (stage, s) = Inr (Cont (stage + 1, ?y))" using 3 step x(1) by simp
      ultimately show ?thesis
        using aside_ready [OF x(3) ay] keeps_trans [OF keeps_trans [OF kw x(4)] aside_keeps [OF ay]] st12 by blast
    qed
  qed
qed

lemma cal_loop_ok:
  assumes h: "save_traces n h" and s: "ready n q mem s" "max_ok s"
  shows "\<exists>x. run_loop (cal_step h q mem tmout) (0, s) = Inr x \<and> ready n q mem (snd x) \<and> keeps s (snd x) \<and> max_ok (snd x) \<and>
    (fst x = Some FSRV_RUN_ERROR \<longrightarrow> errs h)"
proof (rule run_loop_returns [where I = "\<lambda>(k, t). ready n q mem t \<and> keeps s t \<and> max_ok t" and m = "\<lambda>(k, t). 12 - k"])
  fix st :: "nat \<times> 'a save" assume I: "case st of (k, t) \<Rightarrow> ready n q mem t \<and> keeps s t \<and> max_ok t"
  obtain k t where st: "st = (k, t)" by fastforce
  have t: "ready n q mem t" "max_ok t" "keeps s t" using I by (simp_all add: st)
  from cal_step_ok [OF h t(1,2), of tmout k] obtain u where u: "ready n q mem u" "keeps t u" "max_ok u" "(\<exists>st. cal_step h q mem tmout (k, t) = Inr (Break (st, u)) \<and> (st = Some FSRV_RUN_ERROR \<longrightarrow> errs h)) \<or>
     cal_step h q mem tmout (k, t) = Inr (Cont (k + 1, u)) \<and> k < 12" by blast
  have ku: "keeps s u" by (rule keeps_trans [OF t(3) u(2)])
  from u(4) show "(\<exists>a. cal_step h q mem tmout st = Inr (Break a) \<and> ready n q mem (snd a) \<and> keeps s (snd a) \<and> max_ok (snd a) \<and>
        (fst a = Some FSRV_RUN_ERROR \<longrightarrow> errs h)) \<or>
     (\<exists>st'. cal_step h q mem tmout st = Inr (Cont st') \<and> (case st' of (k, t) \<Rightarrow> ready n q mem t \<and> keeps s t \<and> max_ok t) \<and>
       (case st' of (k, t) \<Rightarrow> 12 - k) < (case st of (k, t) \<Rightarrow> 12 - k))"
    using u(1,3) ku unfolding st by auto
qed (use s in simp)

section \<open>The figures and the marks\<close>

lemma rescore_ok:
  assumes s: "ready n q mem s"
  shows "\<exists>t. with_afl (update_bitmap_score q) s = Inr t \<and> listed n q mem t \<and> keeps s t \<and> cal_new_bits t = cal_new_bits s"
proof -
  note R = readyD [OF s]
  let ?a = "(sv_afl s)\<lparr>trace_bits := trace_of s\<rparr>"
  have a: "queue_ok n ?a" by (rule queue_ok_trace [OF R(6)]) (use R(4,5) in \<open>simp add: wf_cov_def\<close>)
  from score_ok [OF a, of q] s obtain b where b: "update_bitmap_score q ?a = Inr b" "queue_ok n b" "files b = files ?a"
    "non_instrumented_mode b = non_instrumented_mode ?a" "q_testcase_buf (queue_buf b ! q) = q_testcase_buf (queue_buf ?a ! q)"
    by (auto simp: ready_def listed_def)
  have f: "files b = files (sv_afl s)" using b(3) by (simp add: files_def)
  let ?t = "s\<lparr>sv_afl := b\<rparr>"
  have "save_ok n ?t" using R(2) b(2) by (simp add: save_ok_def)
  moreover have "keeps s ?t" using f b(4) by (simp add: keeps_def conf_def)
  moreover have "listed n q mem ?t"
    using calculation(1) files_nth [OF f R(3)] files_length [OF f] R(1,3,7) b(5) by (simp add: listed_def)
  ultimately show ?thesis using b(1) by (intro exI [of _ ?t]) (simp add: with_afl_def)
qed

lemma same_view_ready: "ready n q mem s \<Longrightarrow> same_view s t \<Longrightarrow> ready n q mem t \<and> keeps s t"
  using same_view_aside [of n s t] aside_ready aside_keeps readyD(2) by blast

lemma same_view_listed: "listed n q mem s \<Longrightarrow> same_view s t \<Longrightarrow> listed n q mem t \<and> keeps s t"
  using same_view_aside [of n s t] aside_listed aside_keeps unfolding listed_def by blast

lemma cal_finish_ok:
  assumes s: "ready n q mem s" "max_ok s"
  shows "\<exists>f t. cal_finish h q handicap first_run start_us s = Inr (f, t) \<and> listed n q mem t \<and> keeps s t \<and>
    (f = FSRV_RUN_NOBITS \<or> f = crash_fault s)"
proof -
  define p where "p = (if afl.fixed_seed (sv_afl s) then (word_of_nat (u32_sub (exec_tmout s) 1) * word_of_nat (cal_max s), sv_world s)
            else case s_time h (sv_world s) of (stop_us, w) \<Rightarrow> (let diff = stop_us - start_us in if diff = 0 then 1 else diff, w))"
  obtain diff w where pd: "p = (diff, w)" by fastforce
  define s1 where "s1 = s\<lparr>sv_world := w, total_cal_us := total_cal_us s + diff, total_cal_cycles := total_cal_cycles s + word_of_nat (cal_max s)\<rparr>"
  have "same_view s s1" by (simp add: same_view_def s1_def conf_def)
  then have s1: "ready n q mem s1" "keeps s s1" using same_view_ready [OF s(1)] by simp_all
  note R = readyD [OF s1(1)]
  have "length (trace_of s1) = map_size (sv_cov s1)" using R(4) by (simp add: wf_cov_def)
  then obtain v where v: "count_bytes (real_map_size (sv_cov s1)) (trace_of s1) = Inr v" using count_bytes_ok [OF R(4)] by blast
  let ?us = "diff div word_of_nat (cal_max s1)"
  let ?f = "\<lambda>e. e\<lparr>q_exec_us := (if ?us = 0 then 1 else ?us), q_bitmap_size := unat v, q_handicap := handicap, q_cal_failed := 0\<rparr>"
  from on_entry_listed [OF R(1), of ?f] s1(1) obtain t where t: "on_entry q ?f s1 = Inr t" "ready n q mem t" "keeps s1 t"
    by (auto simp: core_def)
  define u where "u = t\<lparr>total_bitmap_size := total_bitmap_size t + ucast v, total_bitmap_entries := total_bitmap_entries t + 1\<rparr>"
  have "same_view t u" by (simp add: same_view_def u_def conf_def)
  then have u: "ready n q mem u" "keeps t u" using same_view_ready [OF t(2)] by simp_all
  from rescore_ok [OF u(1)] obtain x where x: "with_afl (update_bitmap_score q) u = Inr x" "listed n q mem x" "keeps u x" by blast
  have k: "keeps s x" by (rule keeps_trans [OF keeps_trans [OF keeps_trans [OF s1(2) t(3)] u(2)] x(3)])
  have m: "cal_max s \<noteq> 0" using s(2) by (simp add: max_ok_def)
  have "cal_finish h q handicap first_run start_us s = Inr (if \<not> non_instrumented_mode (sv_afl x) \<and> first_run \<and> crash_fault x = FSRV_RUN_OK \<and> cal_new_bits x = 0
             then FSRV_RUN_NOBITS else crash_fault x, x)"
    unfolding cal_finish_def p_def [symmetric] pd prod.case
    unfolding Let_def s1_def [symmetric] v ebind_simps t(1) u_def [symmetric] x(1)
    using m by simp
  moreover have "crash_fault x = crash_fault s" using k by (simp add: keeps_def conf_def)
  ultimately show ?thesis using x(2) k by (auto split: if_splits)
qed

lemma cal_marks_ok:
  assumes s: "listed n q mem s"
  shows "\<exists>t. cal_marks q s = Inr t \<and> listed n q mem t \<and> keeps s t"
proof -
  let ?e = "queue_buf (sv_afl s) ! q"
  let ?c = "s\<lparr>queued_with_cov := u32_add (queued_with_cov s) 1\<rparr>"
  let ?f = "\<lambda>e. e\<lparr>q_has_new_cov := True\<rparr>"
  have q: "q < length (queue_buf (sv_afl s))" using s by (simp add: listed_def)
  have "same_view s ?c" by (simp add: same_view_def conf_def)
  then have c: "listed n q mem ?c" "keeps s ?c" using same_view_listed [OF s] by simp_all
  have "\<exists>t. (if cal_new_bits s = 2 \<and> \<not> q_has_new_cov ?e then on_entry q ?f ?c else Inr s) = Inr t \<and> listed n q mem t \<and> keeps s t"
  proof (cases "cal_new_bits s = 2 \<and> \<not> q_has_new_cov ?e")
    case True
    from on_entry_listed [OF c(1), of ?f] obtain t where "on_entry q ?f ?c = Inr t" "listed n q mem t" "keeps ?c t" by (auto simp: core_def)
    then show ?thesis using True keeps_trans [OF c(2)] by auto
  qed (use s in auto)
  then obtain t where t: "(if cal_new_bits s = 2 \<and> \<not> q_has_new_cov ?e then on_entry q ?f ?c else Inr s) = Inr t" "listed n q mem t" "keeps s t" by blast
  have ent: "entry (sv_afl s) q = Inr ?e" using q by (simp add: entry_def)
  have T: "save_ok n t" "q < length (queue_buf (sv_afl t))" using t(2) by (simp_all add: listed_def)
  then obtain v where v: "count_bytes (real_map_size (sv_cov t)) (var_bytes t) = Inr v"
    using count_bytes_ok [of "sv_cov t" "var_bytes t"] by (auto simp: save_ok_def)
  define u where "u = t\<lparr>var_byte_count := unat v\<rparr>"
  have "same_view t u" by (simp add: same_view_def u_def conf_def)
  then have u: "listed n q mem u" "keeps s u" using same_view_listed [OF t(2)] keeps_trans [OF t(3)] by auto
  let ?g = "\<lambda>e. e\<lparr>q_var_behavior := True\<rparr>"
  from on_entry_listed [OF u(1), of ?g] obtain x where x: "on_entry q ?g u = Inr x" "x = u\<lparr>sv_afl := set_entry q (?g (queue_buf (sv_afl u) ! q)) (sv_afl u)\<rparr>"
    "listed n q mem x" "keeps u x" by (auto simp: core_def)
  define y where "y = x\<lparr>queued_variable := u32_add (queued_variable u) 1\<rparr>"
  have "same_view x y" by (simp add: same_view_def y_def conf_def)
  then have y: "listed n q mem y" "keeps s y" using same_view_listed [OF x(3)] keeps_trans [OF keeps_trans [OF u(2) x(4)]] by auto
  have "mark_as_variable q (sv_afl u) = Inr (sv_afl x)"
    using u(1) by (simp add: mark_as_variable_def entry_def listed_def x(2))
  then have "cal_marks q s = Inr (if \<not> cal_var t then t else if q_var_behavior ?e then u else y)"
    unfolding cal_marks_def ent ebind_simps t(1) v Let_def u_def [symmetric] by (simp add: y_def x(2))
  then show ?thesis using t(2,3) u y by auto
qed

lemma calibrate_ok:
  assumes h: "save_traces n h" and s: "ready n q mem s"
  shows "\<exists>f t. calibrate_case h q mem handicap from_queue s = Inr (f, t) \<and> listed n q mem t \<and> keeps s t \<and>
    (f = FSRV_RUN_ERROR \<longrightarrow> errs h \<or> crash_fault s = FSRV_RUN_ERROR)"
proof -
  let ?e = "queue_buf (sv_afl s) ! q"
  define cm where "cm = cmplog_mode (sv_afl s)"
  define tm where "tm = (if \<not> from_queue \<or> resuming_fuzz s
           then max (u32_add (exec_tmout s) CAL_TMOUT_ADD) (exec_tmout s * CAL_TMOUT_PERC mod 2 ^ 32 div 100) else exec_tmout s)"
  define s1 where "s1 = s\<lparr>cal_new_bits := 0, cal_var := False, cal_max := (if cal_fast s then CAL_CYCLES_FAST else CAL_CYCLES)\<rparr>"
  have "same_view s s1" by (simp add: same_view_def s1_def conf_def)
  then have s1: "ready n q mem s1" "keeps s s1" using same_view_ready [OF s] by simp_all
  have m1: "max_ok s1" by (simp add: max_ok_def s1_def CAL_CYCLES_def CAL_CYCLES_FAST_def)
  let ?f = "\<lambda>e. e\<lparr>q_exec_cksum := (if cm then 0 else q_exec_cksum e), q_cal_failed := (q_cal_failed e + 1) mod 256\<rparr>"
  from on_entry_listed [OF readyD(1) [OF s1(1)], of ?f] s1(1) obtain s2 where s2: "on_entry q ?f s1 = Inr s2"
    "s2 = s1\<lparr>sv_afl := set_entry q (?f (queue_buf (sv_afl s1) ! q)) (sv_afl s1)\<rparr>" "ready n q mem s2" "keeps s1 s2"
    by (auto simp: core_def)
  have m2: "max_ok s2" using m1 by (simp add: max_ok_def s2(2))
  have k2: "keeps s s2" by (rule keeps_trans [OF s1(2) s2(4)])
  have "\<exists>st t. (if cm then cal_run h q mem tm (stage_at s2) s2 else Inr (None, s2)) = Inr (st, t) \<and> ready n q mem t \<and> keeps s t \<and> max_ok t \<and>
      (st = Some FSRV_RUN_ERROR \<longrightarrow> errs h)"
  proof (cases cm)
    case True
    from cal_run_ok [OF h s2(3), of tm "stage_at s2"] obtain st t where "cal_run h q mem tm (stage_at s2) s2 = Inr (st, t)" "aside s2 t" "cal_max t = cal_max s2"
      "st = Some FSRV_RUN_ERROR \<longrightarrow> errs h" by blast
    then show ?thesis using True m2 aside_ready [OF s2(3)] keeps_trans [OF k2 aside_keeps] by (auto simp: max_ok_def)
  qed (use s2 k2 m2 in auto)
  then obtain st t where t: "(if cm then cal_run h q mem tm (stage_at s2) s2 else Inr (None, s2)) = Inr (st, t)" "ready n q mem t" "keeps s t" "max_ok t"
    "st = Some FSRV_RUN_ERROR \<longrightarrow> errs h" by blast
  define body where "body = (case st of
         Some fault \<Rightarrow> Inr (fault, t)
       | None \<Rightarrow>
           ebind (entry (sv_afl t) q) (\<lambda>e.
           ebind (if q_exec_cksum e \<noteq> 0
                  then ebind (has_new_bits TYPE(64) Virgin_Bits (sv_cov t)) (\<lambda>(hnb, c).
                    Inr (t\<lparr>first_trace := trace_of t, sv_cov := c, cal_new_bits := hnb\<rparr>))
                  else Inr t) (\<lambda>s.
           case s_time h (sv_world s) of (start_us, w) \<Rightarrow>
           ebind (run_loop (cal_step h q mem tm) (0, s\<lparr>sv_world := w\<rparr>)) (\<lambda>(stop, s).
           case stop of
             Some fault \<Rightarrow> Inr (fault, s)
           | None \<Rightarrow> cal_finish h q handicap (q_exec_cksum ?e = 0) start_us s))))"
  have "\<exists>f u. body = Inr (f, u) \<and> listed n q mem u \<and> keeps s u \<and> (f = FSRV_RUN_ERROR \<longrightarrow> errs h \<or> crash_fault s = FSRV_RUN_ERROR)"
  proof (cases st)
    case (Some f)
    then show ?thesis using t readyD(1) [OF t(2)] by (auto simp: body_def)
  next
    case None
    note T = readyD [OF t(2)]
    let ?et = "queue_buf (sv_afl t) ! q"
    have et: "entry (sv_afl t) q = Inr ?et" using T(3) by (simp add: entry_def)
    from new_bits_aside [OF T(2), of Virgin_Bits] obtain r d where
      d: "has_new_bits TYPE(64) Virgin_Bits (sv_cov t) = Inr (r, d)" "aside t (t\<lparr>sv_cov := d\<rparr>)" by blast
    define u where "u = (if q_exec_cksum ?et \<noteq> 0 then t\<lparr>first_trace := trace_of t, sv_cov := d, cal_new_bits := r\<rparr> else t)"
    have "length (trace_of t) = map_size (sv_cov t)" using T(4) by (simp add: wf_cov_def)
    then have au: "aside t u" using d(2) aside_refl [OF T(2)] by (simp add: u_def aside_def conf_def)
    obtain us w where tw: "s_time h (sv_world u) = (us, w)" by fastforce
    let ?v = "u\<lparr>sv_world := w\<rparr>"
    have "same_view u ?v" by (simp add: same_view_def conf_def)
    then have v: "ready n q mem ?v" "keeps s ?v"
      using same_view_ready [OF aside_ready [OF t(2) au]] keeps_trans [OF keeps_trans [OF t(3) aside_keeps [OF au]]] by auto
    have mv: "max_ok ?v" using t(4) by (simp add: max_ok_def u_def)
    from cal_loop_ok [OF h v(1) mv, of tm] obtain stop x where x: "run_loop (cal_step h q mem tm) (0, ?v) = Inr (stop, x)"
      "ready n q mem x" "keeps ?v x" "max_ok x" "stop = Some FSRV_RUN_ERROR \<longrightarrow> errs h" by auto
    have kx: "keeps s x" by (rule keeps_trans [OF v(2) x(3)])
    have u': "(if q_exec_cksum ?et \<noteq> 0 then ebind (has_new_bits TYPE(64) Virgin_Bits (sv_cov t)) (\<lambda>(hnb, c).
                    Inr (t\<lparr>first_trace := trace_of t, sv_cov := c, cal_new_bits := hnb\<rparr>)) else Inr t) = Inr u"
      by (simp add: d(1) u_def)
    have b: "body = (case stop of Some fault \<Rightarrow> Inr (fault, x) | None \<Rightarrow> cal_finish h q handicap (q_exec_cksum ?e = 0) us x)"
      unfolding body_def None option.case et ebind_simps u' tw prod.case x(1) ..
    show ?thesis
    proof (cases stop)
      case (Some f)
      then show ?thesis using b x(2,5) readyD(1) kx by auto
    next
      case None
      from cal_finish_ok [OF x(2,4), of h handicap "q_exec_cksum ?e = 0" us] obtain f y where
        y: "cal_finish h q handicap (q_exec_cksum ?e = 0) us x = Inr (f, y)" "listed n q mem y" "keeps x y" "f = FSRV_RUN_NOBITS \<or> f = crash_fault x" by blast
      have "crash_fault x = crash_fault s" using kx by (simp add: keeps_def conf_def)
      then show ?thesis using None b y keeps_trans [OF kx y(3)] by auto
    qed
  qed
  then obtain f u where u: "body = Inr (f, u)" "listed n q mem u" "keeps s u" "f = FSRV_RUN_ERROR \<longrightarrow> errs h \<or> crash_fault s = FSRV_RUN_ERROR" by blast
  from cal_marks_ok [OF u(2)] obtain v where v: "cal_marks q u = Inr v" "listed n q mem v" "keeps u v" by blast
  have ent: "entry (sv_afl s) q = Inr ?e" using readyD(3) [OF s] by (simp add: entry_def)
  have "calibrate_case h q mem handicap from_queue s = Inr (f, v)"
    unfolding calibrate_case_def ent ebind_simps Let_def cm_def [symmetric] tm_def [symmetric] s1_def [symmetric] s2(1) t(1) prod.case
      body_def [symmetric] u(1) v(1) ..
  then show ?thesis using v u(4) keeps_trans [OF u(3) v(3)] by blast
qed

end
