(* ===== verification/AFL_SaveSteps.thy ===== *)
theory AFL_SaveSteps
  imports AFL_CalLemmas
begin

text \<open>
  The parts of \<open>save_if_interesting\<close>: queueing an input, keeping a crash, and handling a timeout. Each
  keeps the invariant \<open>save_ok\<close> for every target.
\<close>

section \<open>The queue grows\<close>

lemma check_if_text_returns: "\<exists>r. check_if_text l (Some f) = Inr r"
  by (auto simp: check_if_text_def Let_def split: prod.splits)

lemma note_find_time_more:
  "top_rated (note_find_time now s) = top_rated s" "afl.trace_bits (note_find_time now s) = afl.trace_bits s"
  "n_fuzz (note_find_time now s) = n_fuzz s" "queue_top (note_find_time now s) = queue_top s"
  "non_instrumented_mode (note_find_time now s) = non_instrumented_mode s" "cmplog_mode (note_find_time now s) = cmplog_mode s"
  by (auto simp: note_find_time_def Let_def)

lemma add_to_queue_more:
  "\<exists>e t. add_to_queue True now file len det s = Inr t \<and> queue_buf t = queue_buf s @ [e] \<and> q_tc_ref e = 0 \<and> q_trace_mini e = None \<and>
    q_n_fuzz_entry e = 0 \<and> q_testcase_buf e = None \<and> q_file e = file \<and> q_len e = len \<and>
    queue_top t = Some (length (queue_buf s)) \<and> top_rated t = top_rated s \<and> afl.trace_bits t = afl.trace_bits s \<and> n_fuzz t = n_fuzz s \<and>
    non_instrumented_mode t = non_instrumented_mode s \<and> cache_max_size t = cache_max_size s"
proof -
  obtain r where r: "check_if_text len (Some file) = Inr r" using check_if_text_returns by blast
  show ?thesis unfolding add_to_queue_def Let_def
    by (simp add: r note_find_time_keeps note_find_time_more new_entry_def)
qed

lemma count_list_none: "(\<And>j. Some j \<in> set ws \<Longrightarrow> j < (k :: nat)) \<Longrightarrow> count_list ws (Some k) = 0"
  by (auto simp: count_list_0_iff)

lemma rated_append:
  assumes s: "rated s" and t: "top_rated t = top_rated s" "length (afl.trace_bits t) = length (afl.trace_bits s)"
    "queue_buf t = queue_buf s @ [e]" "q_tc_ref e = 0" "q_trace_mini e = None"
  shows "rated t"
proof -
  let ?n = "length (afl.trace_bits s)"
  have r: "rated_as (top_rated s) s" using s by (simp add: rated_def)
  have win: "j < length (queue_buf s)" "covers (queue_buf s ! j) i" if "i < ?n" "top_rated s ! i = Some j" for i j
    using r that by (auto simp: rated_as_def Let_def)
  have len: "length (top_rated s) = ?n" by (rule rated_asD(4) [OF r])
  have "j < length (queue_buf s)" if "Some j \<in> set (top_rated s)" for j using that win len by (metis in_set_conv_nth)
  then have "count_list (top_rated s) (Some (length (queue_buf s))) = 0" by (rule count_list_none)
  then have new: "refs_ok ?n (top_rated s) (length (queue_buf s)) e" using t by (simp add: refs_ok_def)
  have "refs_ok ?n (top_rated s) j (queue_buf t ! j)" if "j < length (queue_buf t)" for j
    using that rated_asD(5) [OF r, of j] new t(3) by (cases "j < length (queue_buf s)") (auto simp: nth_append less_Suc_eq)
  moreover have "j < length (queue_buf t) \<and> covers (queue_buf t ! j) i" if "i < ?n" "top_rated s ! i = Some j" for i j
    using win [OF that] t(3) by (simp add: nth_append)
  ultimately show ?thesis using r t len by (simp add: rated_def rated_as_def Let_def)
qed

lemma add_queue_ok:
  assumes a: "queue_ok n a" and len: "len \<le> length file"
  shows "\<exists>b. add_to_queue True now file len det a = Inr b \<and> queue_ok n b \<and> files b = files a @ [(file, len)] \<and>
    queue_top b = Some (length (queue_buf a)) \<and> q_testcase_buf (queue_buf b ! length (queue_buf a)) = None \<and>
    q_trace_mini (queue_buf b ! length (queue_buf a)) = None \<and> non_instrumented_mode b = non_instrumented_mode a"
proof -
  from add_to_queue_more [of now "file" len det a] obtain e b where b: "add_to_queue True now file len det a = Inr b" "queue_buf b = queue_buf a @ [e]"
    "q_tc_ref e = 0" "q_trace_mini e = None" "q_n_fuzz_entry e = 0" "q_testcase_buf e = None" "q_file e = file" "q_len e = len"
    "queue_top b = Some (length (queue_buf a))" "top_rated b = top_rated a" "afl.trace_bits b = afl.trace_bits a" "n_fuzz b = n_fuzz a"
    "non_instrumented_mode b = non_instrumented_mode a" by blast
  have "rated b" by (rule rated_append [of a]) (use a b in \<open>simp_all add: queue_ok_def\<close>)
  moreover have "cache_ok b" using add_ok [OF _ b(1) len] a by (simp add: queue_ok_def)
  ultimately have "queue_ok n b" using a b by (auto simp: queue_ok_def n_fuzz_ok_def)
  then show ?thesis using b by (simp add: files_def)
qed

section \<open>Storing the new test case\<close>

lemma register_keeps:
  "top_rated (register_cached q l k s) = top_rated s" "n_fuzz (register_cached q l k s) = n_fuzz s"
  "afl.trace_bits (register_cached q l k s) = afl.trace_bits s"
  "non_instrumented_mode (register_cached q l k s) = non_instrumented_mode s"
  by (simp_all add: register_cached_def Let_def)

lemma set_entry_keeps:
  "n_fuzz (set_entry q e s) = n_fuzz s" "non_instrumented_mode (set_entry q e s) = non_instrumented_mode s"
  by (simp_all add: set_entry_def)

lemma store_mem_keeps:
  "queue_testcase_store_mem ok q mem s = Inr t \<Longrightarrow> top_rated t = top_rated s \<and> n_fuzz t = n_fuzz s \<and>
    afl.trace_bits t = afl.trace_bits s \<and> non_instrumented_mode t = non_instrumented_mode s"
  unfolding queue_testcase_store_mem_def Let_def
  by (auto simp: ebind_Inr_iff register_keeps set_entry_keeps split: if_splits)

lemma store_mem_take:
  assumes "q < length (queue_buf s)" "q_len (queue_buf s ! q) \<le> length mem"
  shows "queue_testcase_store_mem ok q mem s = queue_testcase_store_mem ok q (take (q_len (queue_buf s ! q)) mem) s"
proof -
  let ?n = "q_len (queue_buf s ! q)"
  have "memcpy (replicate ?n 0) 0 (take ?n mem) 0 ?n = memcpy (replicate ?n 0) 0 mem 0 ?n"
    using assms(2) by (simp add: mem_ok)
  moreover have "entry s q = Inr (queue_buf s ! q)" using assms(1) by (simp add: entry_def)
  ultimately show ?thesis unfolding queue_testcase_store_mem_def Let_def by (simp only: ebind_simps)
qed

lemma unbuf_more:
  assumes "unbuf e' = unbuf e"
  shows "q_tc_ref e' = q_tc_ref e" "q_trace_mini e' = q_trace_mini e" "q_n_fuzz_entry e' = q_n_fuzz_entry e"
  using arg_cong [OF assms, of q_tc_ref] arg_cong [OF assms, of q_trace_mini] arg_cong [OF assms, of q_n_fuzz_entry] by (simp_all add: unbuf_def)

lemma store_queue_ok:
  assumes a: "queue_ok n a" and q: "q < length (queue_buf a)" "q_testcase_buf (queue_buf a ! q) = None"
    "q_len (queue_buf a ! q) \<le> length mem" "take (q_len (queue_buf a ! q)) (q_file (queue_buf a ! q)) = take (q_len (queue_buf a ! q)) mem"
  shows "\<exists>b. queue_testcase_store_mem True q mem a = Inr b \<and> queue_ok n b \<and> files b = files a \<and>
    non_instrumented_mode b = non_instrumented_mode a"
proof -
  let ?m = "take (q_len (queue_buf a ! q)) mem"
  have lm: "length ?m = q_len (queue_buf a ! q)" using q(3) by simp
  have m: "?m = take (length ?m) (q_file (queue_buf a ! q))" using q(4) lm by simp
  from store_ok [OF _ q(1,2) lm m] a obtain b where b: "queue_testcase_store_mem True q ?m a = Inr b" "cache_ok b" "kept_queue a b"
    by (auto simp: queue_ok_def)
  note k = store_mem_keeps [OF b(1)]
  have l: "length (queue_buf b) = length (queue_buf a)" by (rule kept_queue_length [OF b(3)])
  have u: "unbuf (queue_buf b ! j) = unbuf (queue_buf a ! j)" if "j < length (queue_buf a)" for j
    using kept_queue_entry [OF b(3) that] .
  have "rated b" by (rule rated_transfer [of a]) (use a k l unbuf_more [OF u] in \<open>simp_all add: queue_ok_def\<close>)
  moreover have "n_fuzz_ok b" using a k l unbuf_more(3) [OF u] unfolding queue_ok_def n_fuzz_ok_def all_set_conv_all_nth by auto
  ultimately have "queue_ok n b" using a b(2) k by (simp add: queue_ok_def)
  moreover have "files b = files a" using l unbuf_fields(1,2) [OF u] by (intro nth_equalityI) (simp_all add: files_def)
  ultimately show ?thesis using b(1) k store_mem_take [OF q(1,3)] by simp
qed

lemma queue_ok_n_fuzz: "queue_ok n a \<Longrightarrow> queue_ok n (a\<lparr>n_fuzz := (n_fuzz a)[i := v]\<rparr>)"
proof -
  assume a: "queue_ok n a"
  have "rated (a\<lparr>n_fuzz := (n_fuzz a)[i := v]\<rparr>)" by (rule rated_transfer [of a]) (use a in \<open>simp_all add: queue_ok_def\<close>)
  moreover have "cache_ok (a\<lparr>n_fuzz := (n_fuzz a)[i := v]\<rparr>) = cache_ok a" by (simp add: cache_ok_def slots_def)
  ultimately show ?thesis using a by (auto simp: queue_ok_def n_fuzz_ok_def)
qed

lemma n_fuzz_index: "unat (c mod N_FUZZ_SIZE) < 2 ^ 21"
proof -
  have "unat N_FUZZ_SIZE = 2 ^ 21" by (simp add: N_FUZZ_SIZE_def)
  moreover have "unat (c mod N_FUZZ_SIZE) = unat c mod unat N_FUZZ_SIZE" by (rule unat_mod)
  ultimately show ?thesis by simp
qed

end
