(* ===== verification/AFL_SaveRuns.thy ===== *)
theory AFL_SaveRuns
  imports AFL_SaveSteps
begin

text \<open>
  The parts of \<open>save_if_interesting\<close> and \<open>common_fuzz_stuff\<close> for any target: \<open>ends\<close> and \<open>settles\<close> are the proof
  rules, \<open>undecided\<close> and \<open>decided\<close> say what may have changed before and after the test case is kept. With
  instrumentation every turn of the loop over the labels takes a pair from \<open>virgin_tmout\<close>, so it ends.
\<close>

section \<open>Computations that end\<close>

text \<open>\<open>ends m F Q\<close>: \<open>m\<close> returns a result with \<open>Q\<close>, or aborts and \<open>F\<close> holds; it neither faults nor runs forever.\<close>

definition ends :: "'a res \<Rightarrow> bool \<Rightarrow> ('a \<Rightarrow> bool) \<Rightarrow> bool" where
  "ends m F Q = (case m of Inl e \<Rightarrow> e = Fatal \<and> F | Inr x \<Rightarrow> Q x)"

lemma ends_simps [simp]: "ends (Inr x) F Q = Q x" "ends (Inl e) F Q = (e = Fatal \<and> F)"
  by (simp_all add: ends_def)

lemma ends_ebind: "ends m F P \<Longrightarrow> (\<And>x. P x \<Longrightarrow> ends (f x) F Q) \<Longrightarrow> ends (ebind m f) F Q"
  by (cases m) auto

lemma ends_mono: "ends m F P \<Longrightarrow> (\<And>x. P x \<Longrightarrow> Q x) \<Longrightarrow> ends m F Q"
  by (cases m) auto

lemma ends_Inr: "\<exists>x. m = Inr x \<and> P x \<Longrightarrow> ends m F P"
  by auto

lemma ends_returns: "ends m False Q \<Longrightarrow> \<exists>x. m = Inr x \<and> Q x"
  by (cases m) auto

theorem run_loop_ends:
  assumes step: "\<And>s. I s \<Longrightarrow> ends (body s) F (\<lambda>c. case c of Break a \<Rightarrow> Q a | Cont s' \<Rightarrow> I s' \<and> m s' < (m s :: nat))"
    and "I s"
  shows "ends (run_loop body s) F Q"
  using \<open>I s\<close>
proof (induction "m s" arbitrary: s rule: less_induct)
  case less
  from step [OF less.prems] less.hyps show ?case
    by (cases "body s") (auto simp: run_loop_Inl run_loop_Break run_loop_Cont split: ctl.splits)
qed

section \<open>What one execution may change\<close>

definition settings :: "'w save \<Rightarrow> nat \<times> nat \<times> bool \<times> fsrv_run_result \<times> bool \<times> bool \<times> nat \<times> nat" where
  "settings s = (min_length s, max_length s, use_shmem s, crash_fault s, non_instrumented_mode (sv_afl s), keep_timeouts s,
     exec_tmout s, hang_tmout s)"

definition prefixes :: "bytes \<Rightarrow> (bytes \<times> nat) list \<Rightarrow> bool" where
  "prefixes mem xs \<longleftrightarrow> (\<forall>(d, l) \<in> set xs. l \<le> length mem \<and> d = take l mem)"

definition one_more :: "bytes \<Rightarrow> bytes list \<Rightarrow> bytes list \<Rightarrow> bool" where
  "one_more mem xs ys \<longleftrightarrow> ys = xs \<or> (\<exists>l \<le> length mem. ys = xs @ [take l mem])"

definition grows :: "bytes \<Rightarrow> 'w save \<Rightarrow> 'w save \<Rightarrow> bool" where
  "grows mem s t \<longleftrightarrow> settings t = settings s \<and> virgin_le (sv_cov s) (sv_cov t) \<and>
     (\<exists>xs. files (sv_afl t) = files (sv_afl s) @ xs \<and> prefixes mem xs)"

definition undecided :: "nat \<Rightarrow> bytes \<Rightarrow> 'w save \<Rightarrow> 'w save \<Rightarrow> bool" where
  "undecided n mem s t \<longleftrightarrow> save_ok n t \<and> sv_len t \<le> length mem \<and> min_length t \<le> length mem \<and> grows mem s t \<and>
     crash_files t = crash_files s \<and> hang_files t = hang_files s"

definition decided :: "nat \<Rightarrow> bytes \<Rightarrow> 'w save \<Rightarrow> 'w save \<Rightarrow> bool" where
  "decided n mem s t \<longleftrightarrow> save_ok n t \<and> grows mem s t \<and>
     (crash_files t = crash_files s \<and> one_more mem (hang_files s) (hang_files t) \<or>
      hang_files t = hang_files s \<and> one_more mem (crash_files s) (crash_files t))"

lemma grows_refl [simp]: "grows mem s s"
  by (simp add: grows_def prefixes_def)

lemma grows_trans: "grows mem s t \<Longrightarrow> grows mem t u \<Longrightarrow> grows mem s u"
proof -
  assume g: "grows mem s t" "grows mem t u"
  then obtain xs ys where "files (sv_afl t) = files (sv_afl s) @ xs" "prefixes mem xs"
    "files (sv_afl u) = files (sv_afl t) @ ys" "prefixes mem ys" unfolding grows_def by blast
  then have "files (sv_afl u) = files (sv_afl s) @ (xs @ ys) \<and> prefixes mem (xs @ ys)" by (auto simp: prefixes_def)
  moreover have "virgin_le (sv_cov s) (sv_cov u)" using g virgin_le_trans unfolding grows_def by blast
  moreover have "settings u = settings s" using g by (simp only: grows_def)
  ultimately show ?thesis unfolding grows_def by blast
qed

lemma conf_settings: "conf t = conf s \<Longrightarrow> settings t = settings s"
  by (simp add: conf_def settings_def)

lemma keeps_grows: "keeps s t \<Longrightarrow> grows mem s t"
  using conf_settings [of t s] by (simp add: keeps_def grows_def prefixes_def)

lemma undecided_decided: "undecided n mem s t \<Longrightarrow> decided n mem s t"
  by (simp add: undecided_def decided_def one_more_def)

lemma undecided_aside: "undecided n mem s t \<Longrightarrow> aside t u \<Longrightarrow> undecided n mem s u"
  using aside_ok [of n t u] keeps_grows [OF aside_keeps, of t u mem] grows_trans [of mem s t u]
  by (simp add: undecided_def) (simp add: aside_def conf_def)

section \<open>Virgin maps shrink\<close>

definition tmouts_left :: "'w save \<Rightarrow> nat" where
  "tmouts_left s = card (pairs (virgin_tmout (sv_cov s)))"

lemma finite_pairs [simp]: "finite (pairs m)"
proof (rule finite_subset)
  show "pairs m \<subseteq> {..<length m} \<times> {..<8}" by (auto simp: pairs_def dest: bit_imp_le_length)
qed simp

lemma tmouts_left_le: "virgin_le (sv_cov s) (sv_cov t) \<Longrightarrow> tmouts_left t \<le> tmouts_left s"
proof -
  assume "virgin_le (sv_cov s) (sv_cov t)"
  then have "pairs (get_virgin Virgin_Tmout (sv_cov t)) \<subseteq> pairs (get_virgin Virgin_Tmout (sv_cov s))" unfolding virgin_le_def by blast
  then show ?thesis unfolding tmouts_left_def by (simp add: card_mono)
qed

definition hit_edges :: "cov \<Rightarrow> (nat \<times> nat) set" where
  "hit_edges c = pairs (map (\<lambda>b. if b = 0 then 1 else 128) (take (looked_at 8 c) (cov.trace_bits c)))"

text \<open>Classification does not change which edges are hit.\<close>

lemma hit_edges_classified: "hit_edges (c\<lparr>cov.trace_bits := map class8 (cov.trace_bits c)\<rparr>) = hit_edges c"
  by (simp add: hit_edges_def looked_at_def take_map comp_def)

lemma hit_edges_simplified:
  assumes "wf_cov c" "tr = cov.trace_bits c \<or> tr = map class8 (cov.trace_bits c)"
  shows "\<exists>d. simplify_trace TYPE(64) (map_size c) tr = Inr d \<and> length d = map_size c \<and>
    pairs (take (looked_at 8 c) d) = hit_edges c"
proof -
  have m: "length tr = map_size c" "8 dvd map_size c" using assms by (auto simp: wf_cov_def)
  let ?d = "map (\<lambda>b. if b = 0 then 1 else 128) tr"
  have "simplify_trace TYPE(64) (map_size c) tr = Inr ?d"
    using simplify_trace_eval [where ?'w = 64, of "map_size c" tr] m by simp
  moreover have "pairs (take (looked_at 8 c) ?d) = hit_edges c"
    using assms(2) by (auto simp: hit_edges_def take_map comp_def)
  ultimately show ?thesis using m by simp
qed

section \<open>Unique crashes and hangs\<close>

lemma new_simplified_eval:
  assumes s: "save_ok n s" and m: "\<not> non_instrumented_mode (sv_afl s)"
  defines "hit \<equiv> hit_edges (sv_cov s)" and "virgin vm \<equiv> pairs (get_virgin vm (sv_cov s))"
  shows "\<exists>c. new_simplified vm s = Inr (virgin vm \<inter> hit \<noteq> {}, s\<lparr>sv_cov := c, sv_classified := True\<rparr>) \<and>
    aside s (s\<lparr>sv_cov := c, sv_classified := True\<rparr>) \<and> pairs (get_virgin vm c) = virgin vm - hit \<and>
    (\<forall>vm'. vm' \<noteq> vm \<longrightarrow> get_virgin vm' c = get_virgin vm' (sv_cov s))"
proof -
  let ?c = "sv_cov s"
  define tr where "tr = (if sv_classified s then cov.trace_bits ?c else map class8 (cov.trace_bits ?c))"
  have w: "wf_cov ?c" using s by (simp add: save_ok_def)
  have "tr = cov.trace_bits ?c \<or> tr = map class8 (cov.trace_bits ?c)" by (simp add: tr_def)
  from hit_edges_simplified [OF w this] obtain d where d: "simplify_trace TYPE(64) (map_size ?c) tr = Inr d"
    "length d = map_size ?c" "pairs (take (looked_at 8 ?c) d) = hit" unfolding hit_def by blast
  let ?d = "?c\<lparr>cov.trace_bits := d\<rparr>"
  have l: "looked_at 8 ?d = looked_at 8 ?c" "get_virgin v ?d = get_virgin v ?c" for v by (cases v; simp add: looked_at_def)+
  from has_new_ok [OF wf_cov_new_trace [OF w d(2)], of vm] obtain r e where e: "has_new_bits TYPE(64) vm ?d = Inr (r, e)"
    "records_coverage (looked_at 8 ?c) vm ?d r e" "wf_cov e" "map_size e = map_size ?c" "real_map_size e = real_map_size ?c" "virgin_le ?d e"
    unfolding l by auto
  have R: "pairs (get_virgin vm e) = virgin vm - hit" "0 < r \<longleftrightarrow> virgin vm \<inter> hit \<noteq> {}"
    "\<forall>vm'. vm' \<noteq> vm \<longrightarrow> get_virgin vm' e = get_virgin vm' ?c"
    using e(2) d(3) by (auto simp: records_coverage_def Let_def l virgin_def)
  have "virgin_le ?c e" using e(6) by (simp add: virgin_le_def l)
  then have "aside s (s\<lparr>sv_cov := e, sv_classified := True\<rparr>)" using s e(3-5) by (simp add: aside_def save_ok_def conf_def)
  moreover have "new_simplified vm s = Inr (virgin vm \<inter> hit \<noteq> {}, s\<lparr>sv_cov := e, sv_classified := True\<rparr>)"
  proof (cases "sv_classified s")
    case True
    then show ?thesis using m d(1) e(1) R(2) by (simp add: new_simplified_def tr_def)
  next
    case False
    then show ?thesis using m d(1) e(1) R(2) classify_aside(1) [OF s] by (simp add: new_simplified_def tr_def)
  qed
  ultimately show ?thesis using R by blast
qed

lemma new_simplified_ok:
  assumes s: "save_ok n s"
  shows "\<exists>b t. new_simplified vm s = Inr (b, t) \<and> aside s t \<and> sv_len t = sv_len s \<and>
    (non_instrumented_mode (sv_afl s) \<longrightarrow> b \<and> t = s) \<and>
    (\<not> non_instrumented_mode (sv_afl s) \<and> b \<longrightarrow> pairs (get_virgin vm (sv_cov t)) \<subset> pairs (get_virgin vm (sv_cov s)))"
proof (cases "non_instrumented_mode (sv_afl s)")
  case True
  then show ?thesis using aside_refl [OF s] by (intro exI [of _ True] exI [of _ s]) (simp add: new_simplified_def)
next
  case False
  from new_simplified_eval [OF s this, of vm] obtain c where
    "new_simplified vm s = Inr (pairs (get_virgin vm (sv_cov s)) \<inter> hit_edges (sv_cov s) \<noteq> {}, s\<lparr>sv_cov := c, sv_classified := True\<rparr>)"
    "aside s (s\<lparr>sv_cov := c, sv_classified := True\<rparr>)"
    "pairs (get_virgin vm c) = pairs (get_virgin vm (sv_cov s)) - hit_edges (sv_cov s)" by blast
  then show ?thesis using False by auto
qed

section \<open>Queueing\<close>

lemma ready_marked:
  assumes s: "ready n q mem s" and c: "same_view s s'" and f: "\<And>e. core (f e) = core e" "\<And>e. q_n_fuzz_entry (f e) = q_n_fuzz_entry e"
  shows "ends (if P then on_entry q f s' else Inr s) F (\<lambda>t. ready n q mem t \<and> keeps s t)"
proof -
  have r: "ready n q mem s'" "keeps s s'" using same_view_ready [OF s c] by simp_all
  from on_entry_listed [OF readyD(1) [OF r(1)] f] r keeps_trans [OF r(2)] s show ?thesis
    by (cases P) (auto simp del: split_paired_Ex)
qed

lemma ready_n_fuzz:
  assumes s: "ready n q mem s"
  shows "ends (if c \<noteq> 0 then let i = unat (c mod N_FUZZ_SIZE) in
      if i < length (n_fuzz (sv_afl s)) then
        on_entry q (\<lambda>e. e\<lparr>q_n_fuzz_entry := i\<rparr>) (s\<lparr>sv_afl := (sv_afl s)\<lparr>n_fuzz := (n_fuzz (sv_afl s))[i := 1]\<rparr>\<rparr>)
      else Inl Fault else Inr s) F (\<lambda>t. ready n q mem t \<and> keeps s t)"
proof -
  let ?i = "unat (c mod N_FUZZ_SIZE)"
  let ?s = "s\<lparr>sv_afl := (sv_afl s)\<lparr>n_fuzz := (n_fuzz (sv_afl s))[?i := 1]\<rparr>\<rparr>"
  note R = readyD [OF s]
  have l: "?i < length (n_fuzz (sv_afl s))" using R(6) n_fuzz_index [of c] by (simp add: queue_ok_def)
  have o: "save_ok n ?s" using R(2) queue_ok_n_fuzz [OF R(6)] by (simp add: save_ok_def)
  have k: "keeps s ?s" by (simp add: keeps_def files_def conf_def)
  have "q < length (queue_buf (sv_afl ?s))" using R(3) by simp
  from on_entry_ok [OF o this, of "\<lambda>e. e\<lparr>q_n_fuzz_entry := ?i\<rparr>"] obtain t where t: "on_entry q (\<lambda>e. e\<lparr>q_n_fuzz_entry := ?i\<rparr>) ?s = Inr t"
    "t = ?s\<lparr>sv_afl := set_entry q ((queue_buf (sv_afl ?s) ! q)\<lparr>q_n_fuzz_entry := ?i\<rparr>) (sv_afl ?s)\<rparr>" "save_ok n t" "keeps ?s t"
    using n_fuzz_index [of c] by (auto simp: core_def)
  have "ready n q mem t" using s t(3) by (simp add: t(2) ready_def listed_def set_entry_def)
  then show ?thesis using t(1) keeps_trans [OF k t(4)] l s by (simp add: Let_def)
qed

lemma mark_new_entry_ok:
  assumes s: "ready n q mem s"
  shows "ends (mark_new_entry h q s) F (\<lambda>t. ready n q mem t \<and> keeps s t)"
  unfolding mark_new_entry_def
proof (rule ends_ebind [OF ready_marked [OF s]])
  fix t assume "ready n q mem t \<and> keeps s t"
  then have t: "ready n q mem t" "keeps s t" by simp_all
  show "ends (ebind (if sv_need_hash t \<and> sv_new_bits t \<noteq> 0
            then on_entry q (\<lambda>e. e\<lparr>q_exec_cksum := s_hash h (trace_of t)\<rparr>) (t\<lparr>sv_need_hash := False\<rparr>) else Inr t) (\<lambda>s.
     if sv_cksum s \<noteq> 0 then
       let i = unat (sv_cksum s mod N_FUZZ_SIZE) in
       if i < length (n_fuzz (sv_afl s)) then
         on_entry q (\<lambda>e. e\<lparr>q_n_fuzz_entry := i\<rparr>) (s\<lparr>sv_afl := (sv_afl s)\<lparr>n_fuzz := (n_fuzz (sv_afl s))[i := 1]\<rparr>\<rparr>)
       else Inl Fault
     else Inr s)) F (\<lambda>t. ready n q mem t \<and> keeps s t)"
  proof (rule ends_ebind [OF ready_marked [OF t(1)]])
    fix u assume "ready n q mem u \<and> keeps t u"
    then have u: "ready n q mem u" "keeps s u" using keeps_trans [OF t(2)] by simp_all
    show "ends (if sv_cksum u \<noteq> 0 then let i = unat (sv_cksum u mod N_FUZZ_SIZE) in
       if i < length (n_fuzz (sv_afl u)) then
         on_entry q (\<lambda>e. e\<lparr>q_n_fuzz_entry := i\<rparr>) (u\<lparr>sv_afl := (sv_afl u)\<lparr>n_fuzz := (n_fuzz (sv_afl u))[i := 1]\<rparr>\<rparr>)
       else Inl Fault else Inr u) F (\<lambda>t. ready n q mem t \<and> keeps s t)"
      by (rule ends_mono [OF ready_n_fuzz [OF u(1)]]) (use keeps_trans [OF u(2)] in blast)
  qed (simp_all add: core_def same_view_def conf_def)
qed (simp_all add: core_def same_view_def conf_def)

text \<open>\<open>queued\<close>: the queue has got the input, and nothing else that matters has changed.\<close>

definition queued :: "nat \<Rightarrow> bytes \<Rightarrow> 'w save \<Rightarrow> 'w save \<Rightarrow> bool" where
  "queued n mem s t \<longleftrightarrow> save_ok n t \<and> files (sv_afl t) = files (sv_afl s) @ [(take (sv_len s) mem, sv_len s)] \<and>
     virgin_le (sv_cov s) (sv_cov t) \<and> conf t = conf (s\<lparr>sv_keeping := True\<rparr>)"

lemma store_new_entry_ok:
  assumes s: "listed n q mem s" and f: "take (q_len (queue_buf (sv_afl s) ! q)) (q_file (queue_buf (sv_afl s) ! q)) =
      take (q_len (queue_buf (sv_afl s) ! q)) mem"
  shows "ends (store_new_entry True q mem s) F (\<lambda>t. save_ok n t \<and> files (sv_afl t) = files (sv_afl s) \<and>
    virgin_le (sv_cov s) (sv_cov t) \<and> conf t = conf (s\<lparr>sv_keeping := True\<rparr>))"
proof -
  have q: "queue_ok n (sv_afl s)" using s by (simp add: listed_def save_ok_def)
  from store_queue_ok [OF q, of q mem] s f obtain b where "queue_testcase_store_mem True q mem (sv_afl s) = Inr b" "queue_ok n b"
    "files b = files (sv_afl s)" "non_instrumented_mode b = non_instrumented_mode (sv_afl s)" by (auto simp: listed_def)
  then show ?thesis using s by (simp add: store_new_entry_def listed_def save_ok_def conf_def)
qed

definition gives_error :: "'w shost \<Rightarrow> 'w save \<Rightarrow> bool" where
  "gives_error h s \<longleftrightarrow> errs h \<or> crash_fault s = FSRV_RUN_ERROR"

lemma save_to_queue_ok:
  assumes h: "save_traces n h" and s: "save_ok n s" "sv_len s \<le> length mem"
  shows "ends (save_to_queue h True mem s) (gives_error h s) (queued n mem s)"
proof -
  obtain now w where tm: "s_time h (sv_world s) = (now, w)" by fastforce
  let ?file = "take (sv_len s) mem" and ?q = "length (queue_buf (sv_afl s))"
  have a: "queue_ok n (sv_afl s)" "sv_len s \<le> length ?file" using s by (simp_all add: save_ok_def)
  from add_queue_ok [OF a, of now False] obtain b where b: "add_to_queue True now ?file (sv_len s) False (sv_afl s) = Inr b" "queue_ok n b"
    "files b = files (sv_afl s) @ [(?file, sv_len s)]" "queue_top b = Some ?q" "q_testcase_buf (queue_buf b ! ?q) = None"
    "q_trace_mini (queue_buf b ! ?q) = None" "non_instrumented_mode b = non_instrumented_mode (sv_afl s)" by blast
  define s1 where "s1 = s\<lparr>sv_world := w, sv_afl := b, fuzz_mode := (fuzz_mode s \<and> \<not> (switch_fuzz_mode s \<and> \<not> non_instrumented_mode b))\<rparr>"
  have l: "length (queue_buf b) = Suc ?q" using arg_cong [OF b(3), of length] by (simp add: files_def)
  have new: "q_file (queue_buf b ! ?q) = ?file" "q_len (queue_buf b ! ?q) = sv_len s"
    using arg_cong [OF b(3), of "\<lambda>xs. xs ! ?q"] l by (simp_all add: files_def nth_append)
  have r1: "ready n ?q mem s1" using s b l new(2) by (simp add: s1_def ready_def listed_def save_ok_def)
  have c1: "conf s1 = conf s" "sv_cov s1 = sv_cov s" "sv_afl s1 = b" using b(7) by (simp_all add: s1_def conf_def)
  have "ends (ebind (mark_new_entry h ?q s1) (\<lambda>s. ebind (calibrate_case h ?q mem (u32_sub (sv_cycle s) 1) False s) (\<lambda>(res, s).
          if res = FSRV_RUN_ERROR then Inl Fatal else store_new_entry True ?q mem s))) (gives_error h s) (queued n mem s)"
  proof (rule ends_ebind [OF mark_new_entry_ok [OF r1]])
    fix t assume "ready n ?q mem t \<and> keeps s1 t"
    then have t: "ready n ?q mem t" "keeps s1 t" by simp_all
    from calibrate_ok [OF h t(1), of "u32_sub (sv_cycle t) 1" False] obtain f u where u:
      "calibrate_case h ?q mem (u32_sub (sv_cycle t) 1) False t = Inr (f, u)" "listed n ?q mem u" "keeps t u"
      "f = FSRV_RUN_ERROR \<longrightarrow> errs h \<or> crash_fault t = FSRV_RUN_ERROR" by blast
    have k: "keeps s1 u" by (rule keeps_trans [OF t(2) u(3)])
    have "crash_fault t = crash_fault s" using t(2) c1(1) by (simp add: keeps_def conf_def)
    then have e: "f = FSRV_RUN_ERROR \<longrightarrow> gives_error h s" using u(4) by (simp add: gives_error_def)
    have q: "q_file (queue_buf (sv_afl u) ! ?q) = ?file" "q_len (queue_buf (sv_afl u) ! ?q) = sv_len s"
      using files_nth [of "sv_afl u" "sv_afl s1" ?q] k new l by (simp_all add: keeps_def c1)
    have "ends (store_new_entry True ?q mem u) (gives_error h s) (queued n mem s)"
      by (rule ends_mono [OF store_new_entry_ok [OF u(2)]]) (use k q b(3) c1 in \<open>auto simp: queued_def keeps_def conf_def intro: virgin_le_trans\<close>)
    then show "ends (ebind (calibrate_case h ?q mem (u32_sub (sv_cycle t) 1) False t) (\<lambda>(res, s).
        if res = FSRV_RUN_ERROR then Inl Fatal else store_new_entry True ?q mem s)) (gives_error h s) (queued n mem s)"
      using u(1) e by simp
  qed
  then show ?thesis using s(2) tm b(1,4) by (simp add: save_to_queue_def s1_def)
qed

lemma queued_undecided:
  assumes s: "undecided n mem s t" and q: "queued n mem t u"
  shows "undecided n mem s u"
proof -
  have c: "conf u = conf (t\<lparr>sv_keeping := True\<rparr>)" using q by (simp add: queued_def)
  then have "settings u = settings t" using conf_settings [OF c] by (simp add: settings_def)
  moreover have "prefixes mem [(take (sv_len t) mem, sv_len t)]" using s by (simp add: undecided_def prefixes_def)
  ultimately have "grows mem t u" using q by (auto simp: grows_def queued_def)
  then show ?thesis using s q c grows_trans [of mem s t u] by (simp add: undecided_def queued_def conf_def)
qed

section \<open>Timeouts and crashes\<close>

lemma new_simplified_undecided:
  assumes "undecided n mem s t"
  shows "ends (new_simplified vm t) F (\<lambda>(b, u). undecided n mem s u \<and> sv_len u = sv_len t \<and> virgin_le (sv_cov t) (sv_cov u) \<and>
    (b \<and> \<not> non_instrumented_mode (sv_afl t) \<longrightarrow> pairs (get_virgin vm (sv_cov u)) \<subset> pairs (get_virgin vm (sv_cov t))))"
proof -
  have o: "save_ok n t" using assms by (simp add: undecided_def)
  from new_simplified_ok [OF o, of vm] obtain b u where u: "new_simplified vm t = Inr (b, u)" "aside t u" "sv_len u = sv_len t"
    "\<not> non_instrumented_mode (sv_afl t) \<and> b \<longrightarrow> pairs (get_virgin vm (sv_cov u)) \<subset> pairs (get_virgin vm (sv_cov t))" by blast
  then show ?thesis using undecided_aside [OF assms u(2)] by (auto simp: aside_def)
qed

lemma undecided_same_view:
  assumes "undecided n mem s t" "same_view t u"
  shows "undecided n mem s u"
proof -
  have "save_ok n t" using assms(1) by (simp add: undecided_def)
  then show ?thesis by (rule undecided_aside [OF assms(1) same_view_aside [OF _ assms(2)]])
qed

lemma save_hang_ok:
  assumes "undecided n mem s t"
  shows "ends (save_hang mem t) F (decided n mem s)"
proof -
  let ?u = "t\<lparr>saved_hangs := saved_hangs t + 1, hang_files := hang_files t @ [take (sv_len t) mem]\<rparr>"
  have "sv_len t \<le> length mem" "hang_files t = hang_files s" "crash_files t = crash_files s" "grows mem s t" "save_ok n t"
    using assms by (simp_all add: undecided_def)
  then have "decided n mem s ?u"
    by (auto simp: decided_def one_more_def save_ok_def grows_def settings_def)
  then show ?thesis using assms by (simp add: save_hang_def undecided_def)
qed

lemma handle_crash_ok:
  assumes "undecided n mem s t"
  shows "ends (handle_crash mem t) F (decided n mem s)"
proof -
  let ?t = "t\<lparr>total_crashes := total_crashes t + 1\<rparr>"
  have t: "undecided n mem s ?t" by (rule undecided_same_view [OF assms]) (simp add: same_view_def conf_def)
  have "ends (if \<not> b then Inr u else if length mem < sv_len u then Inl Fault
      else Inr (u\<lparr>saved_crashes := saved_crashes u + 1, crash_files := crash_files u @ [take (sv_len u) mem]\<rparr>)) F (decided n mem s)"
    if u: "undecided n mem s u" for b u
  proof -
    let ?u = "u\<lparr>saved_crashes := saved_crashes u + 1, crash_files := crash_files u @ [take (sv_len u) mem]\<rparr>"
    have "sv_len u \<le> length mem" "hang_files u = hang_files s" "crash_files u = crash_files s" "grows mem s u" "save_ok n u"
      using u by (simp_all add: undecided_def)
    then have "decided n mem s ?u"
      by (auto simp: decided_def one_more_def save_ok_def grows_def settings_def)
    then show ?thesis using u undecided_decided [OF u] by (simp add: undecided_def)
  qed
  then have "ends (ebind (new_simplified Virgin_Crash ?t) (\<lambda>(fresh, s). if \<not> fresh then Inr s else if length mem < sv_len s then Inl Fault
      else Inr (s\<lparr>saved_crashes := saved_crashes s + 1, crash_files := crash_files s @ [take (sv_len s) mem]\<rparr>))) F (decided n mem s)"
    by (intro ends_ebind [OF new_simplified_undecided [OF t]]) auto
  then show ?thesis using undecided_decided [OF t] by (simp add: handle_crash_def Let_def)
qed

text \<open>After a timeout the switch is either left, or a label is reached with fewer virgin pairs than before.\<close>

definition after_timeout :: "nat \<Rightarrow> bytes \<Rightarrow> 'w save \<Rightarrow> 'w save \<Rightarrow> ('w save, save_pc \<times> 'w save) ctl \<Rightarrow> bool" where
  "after_timeout n mem s t c = (case c of
     Break u \<Rightarrow> decided n mem s u
   | Cont (pc, u) \<Rightarrow> pc \<noteq> Handle_Fault \<and> undecided n mem s u \<and>
       (\<not> non_instrumented_mode (sv_afl t) \<longrightarrow> tmouts_left u < tmouts_left t))"

lemma rerun_ok:
  assumes h: "save_traces n h" and t: "undecided n mem s t" and m: "\<not> non_instrumented_mode (sv_afl t0) \<longrightarrow> tmouts_left t < tmouts_left t0"
  shows "ends (rerun_hang h mem t) F (after_timeout n mem s t0)"
proof -
  obtain f so u where u: "save_run_target h (hang_tmout t) t = (f, so, u)" by (metis prod_cases3)
  have o: "save_ok n t" using t by (simp add: undecided_def)
  note ru = run_aside(1) [OF h o u]
  have ou: "save_ok n u" by (rule aside_ok [OF o ru])
  note cv = classify_aside [OF ou]
  define v where "v = u\<lparr>sv_cov := (sv_cov u)\<lparr>cov.trace_bits := map class8 (trace_of u)\<rparr>\<rparr>"
  have a: "aside t v" unfolding v_def by (rule aside_trans [OF ru cv(2)])
  have v: "undecided n mem s v" by (rule undecided_aside [OF t a])
  have "tmouts_left v \<le> tmouts_left t" using tmouts_left_le [of t v] a by (simp add: aside_def)
  then have mv: "\<not> non_instrumented_mode (sv_afl t0) \<longrightarrow> tmouts_left v < tmouts_left t0" using m by (auto intro: le_less_trans)
  have c: "save_classify u = Inr v" using cv(1) by (simp add: v_def)
  let ?w = "v\<lparr>saved_tmouts := saved_tmouts v + 1\<rparr>"
  have w: "undecided n mem s ?w" by (rule undecided_same_view [OF v]) (simp add: same_view_def conf_def)
  have mw: "tmouts_left ?w = tmouts_left v" by (simp add: tmouts_left_def)
  have "ends (ebind (save_hang mem v) (\<lambda>s. Inr (Break s))) F (after_timeout n mem s t0)"
    by (rule ends_ebind [OF save_hang_ok [OF v]]) (simp add: after_timeout_def)
  then show ?thesis using v mv w mw undecided_decided [OF v] by (simp add: rerun_hang_def u c after_timeout_def)
qed

lemma undecided_len:
  "undecided n mem s t \<Longrightarrow> len \<le> length mem \<Longrightarrow> undecided n mem s (t\<lparr>sv_len := len\<rparr>)"
  by (simp add: undecided_def save_ok_def grows_def settings_def)

lemma tmouts_left_simps [simp]:
  "tmouts_left (t\<lparr>sv_len := len\<rparr>) = tmouts_left t" "tmouts_left (t\<lparr>sv_input := d\<rparr>) = tmouts_left t"
  "tmouts_left (t\<lparr>total_tmouts := k\<rparr>) = tmouts_left t"
  by (simp_all add: tmouts_left_def)

lemma confirm_ok:
  assumes h: "save_traces n h" and t: "undecided n mem s t" and m: "\<not> non_instrumented_mode (sv_afl t0) \<longrightarrow> tmouts_left t < tmouts_left t0"
  shows "ends (confirm_hang h mem t) F (after_timeout n mem s t0)"
proof -
  have l: "sv_len t \<le> length mem" "min_length t \<le> length mem" using t by (simp_all add: undecided_def)
  from write_testcase_ok [of "sv_len t" mem False t] l obtain k d where d: "write_to_testcase mem (sv_len t) False t = Inr (k, t\<lparr>sv_input := d\<rparr>)"
    "k \<le> length mem" by blast
  from write_testcase_ok [of "sv_len t" mem True "t\<lparr>sv_input := d\<rparr>"] l obtain k' d' where d': "k' \<le> length mem"
    "write_to_testcase mem (sv_len t) True (t\<lparr>sv_input := d\<rparr>) = Inr (k', t\<lparr>sv_input := d'\<rparr>)" by auto
  have w: "undecided n mem s (t\<lparr>sv_input := e\<rparr>)" for e by (rule undecided_same_view [OF t]) simp
  have "ends (rerun_hang h mem (t\<lparr>sv_input := e, sv_len := i\<rparr>)) F (after_timeout n mem s t0)" if "i \<le> length mem" for e i
    by (rule rerun_ok [OF h undecided_len [OF w that]]) (use m in simp)
  moreover have "ends (ebind (save_hang mem t) (\<lambda>s. Inr (Break s))) F (after_timeout n mem s t0)"
    by (rule ends_ebind [OF save_hang_ok [OF t]]) (simp add: after_timeout_def)
  ultimately show ?thesis using d d' by (cases "k = 0") (simp_all add: confirm_hang_def)
qed

lemma handle_timeout_ok:
  assumes h: "save_traces n h" and t: "undecided n mem s t"
  shows "ends (handle_timeout h mem t) F (after_timeout n mem s t)"
proof -
  let ?t = "t\<lparr>total_tmouts := total_tmouts t + 1\<rparr>"
  have t1: "undecided n mem s ?t" by (rule undecided_same_view [OF t]) (simp add: same_view_def conf_def)
  have quit: "ends (Inr (Break u)) F (after_timeout n mem s t)" if "undecided n mem s u" for u
    using undecided_decided [OF that] by (simp add: after_timeout_def)
  have "ends (new_simplified Virgin_Tmout ?t) F (\<lambda>(b, u). undecided n mem s u \<and>
      (b \<and> \<not> non_instrumented_mode (sv_afl t) \<longrightarrow> tmouts_left u < tmouts_left t))"
    by (rule ends_mono [OF new_simplified_undecided [OF t1]]) (auto simp: tmouts_left_def intro: psubset_card_mono)
  then have "ends (ebind (new_simplified Virgin_Tmout ?t) (\<lambda>(fresh, s). if \<not> fresh then Inr (Break s) else confirm_hang h mem s))
      F (after_timeout n mem s t)"
  proof (rule ends_ebind)
    fix x assume x: "case x of (b, u) \<Rightarrow> undecided n mem s u \<and> (b \<and> \<not> non_instrumented_mode (sv_afl t) \<longrightarrow> tmouts_left u < tmouts_left t)"
    obtain b u where bu: "x = (b, u)" by fastforce
    show "ends (case x of (fresh, s) \<Rightarrow> if \<not> fresh then Inr (Break s) else confirm_hang h mem s) F (after_timeout n mem s t)"
      using x quit [of u] confirm_ok [OF h, of mem s u t F] by (cases b) (simp_all add: bu)
  qed
  then show ?thesis using quit [OF t1] by (simp add: handle_timeout_def Let_def)
qed

section \<open>The switch\<close>

definition save_measure :: "save_pc \<times> 'w save \<Rightarrow> nat" where
  "save_measure = (\<lambda>(pc, s). 3 * tmouts_left s + (case pc of Save_To_Queue \<Rightarrow> 2 | Handle_Fault \<Rightarrow> 1 | Keep_As_Crash \<Rightarrow> 0))"

text \<open>Every step is safe, and with instrumentation every step brings the end closer.\<close>

lemma save_step_ok:
  assumes h: "save_traces n h" and t: "undecided n mem s t"
  shows "ends (save_step h True mem fault (pc, t)) (gives_error h s \<or> fault = FSRV_RUN_ERROR)
    (\<lambda>c. case c of Break u \<Rightarrow> decided n mem s u
        | Cont (pc', u) \<Rightarrow> undecided n mem s u \<and> (\<not> non_instrumented_mode (sv_afl s) \<longrightarrow> save_measure (pc', u) < save_measure (pc, t)))"
    (is "ends _ ?F ?Q")
proof -
  have set: "non_instrumented_mode (sv_afl t) = non_instrumented_mode (sv_afl s)" "crash_fault t = crash_fault s"
    using t by (simp_all add: undecided_def grows_def settings_def)
  show ?thesis
  proof (cases pc)
    case Save_To_Queue
    have o: "save_ok n t" "sv_len t \<le> length mem" using t by (simp_all add: undecided_def)
    have F: "gives_error h t = gives_error h s" by (simp add: gives_error_def set)
    have "ends (save_to_queue h True mem t) ?F (queued n mem t)"
      using save_to_queue_ok [OF h o] by (cases "save_to_queue h True mem t") (auto simp: F)
    then have "ends (ebind (save_to_queue h True mem t) (\<lambda>s. Inr (Cont (Handle_Fault, s)))) ?F ?Q"
    proof (rule ends_ebind)
      fix u assume u: "queued n mem t u"
      then have "tmouts_left u \<le> tmouts_left t" by (intro tmouts_left_le) (simp add: queued_def)
      then show "ends (Inr (Cont (Handle_Fault, u))) ?F ?Q"
        using queued_undecided [OF t u] by (simp add: save_measure_def Save_To_Queue)
    qed
    then show ?thesis by (simp add: save_step_def Save_To_Queue)
  next
    case Handle_Fault
    have "ends (handle_timeout h mem t) ?F ?Q"
    proof (rule ends_mono [OF handle_timeout_ok [OF h t]])
      fix c :: "('a save, save_pc \<times> 'a save) ctl" assume c: "after_timeout n mem s t c"
      show "?Q c"
      proof (cases c)
        case (Break u) then show ?thesis using c by (simp add: after_timeout_def)
      next
        case (Cont x)
        obtain pc' u where x: "x = (pc', u)" by fastforce
        have "pc' \<noteq> Handle_Fault" "undecided n mem s u" "\<not> non_instrumented_mode (sv_afl s) \<longrightarrow> tmouts_left u < tmouts_left t"
          using c by (simp_all add: after_timeout_def Cont x set)
        then show ?thesis by (cases pc') (auto simp: Cont x save_measure_def Handle_Fault)
      qed
    qed
    then show ?thesis using t undecided_decided [OF t]
      by (cases fault) (simp_all add: save_step_def Handle_Fault save_measure_def)
  next
    case Keep_As_Crash
    then show ?thesis by (simp add: save_step_def) (rule ends_ebind [OF handle_crash_ok [OF t]], simp)
  qed
qed

section \<open>Before the labels\<close>

definition class_hits :: "'w save \<Rightarrow> (nat \<times> nat) set" where
  "class_hits s = pairs (take (looked_at 8 (sv_cov s)) (map class8 (trace_of s)))"

abbreviation virgin_pairs :: "'w save \<Rightarrow> (nat \<times> nat) set" where
  "virgin_pairs s \<equiv> pairs (virgin_bits (sv_cov s))"

lemma bump_ok:
  assumes "save_ok n s"
  shows "\<exists>t. bump_n_fuzz c s = Inr t \<and> save_ok n t \<and> keeps s t \<and> sv_cov t = sv_cov s \<and> sv_classified t = sv_classified s \<and>
    saved_crashes t = saved_crashes s"
proof -
  let ?i = "unat (c mod N_FUZZ_SIZE)" and ?a = "sv_afl s"
  let ?t = "s\<lparr>sv_afl := ?a\<lparr>n_fuzz := (n_fuzz ?a)[?i := n_fuzz ?a ! ?i + 1]\<rparr>\<rparr>"
  have q: "queue_ok n ?a" using assms by (simp add: save_ok_def)
  then have "?i < length (n_fuzz ?a)" using n_fuzz_index [of c] by (simp add: queue_ok_def)
  moreover have "save_ok n ?t" using assms queue_ok_n_fuzz [OF q] by (simp add: save_ok_def)
  moreover have "keeps s ?t" by (simp add: keeps_def files_def conf_def)
  ultimately show ?thesis using assms by (simp add: bump_n_fuzz_def Let_def)
qed

text \<open>The states before the decision: the trace is the run's, or its classification.\<close>

definition hashed :: "nat \<Rightarrow> 'w save \<Rightarrow> 'w save \<Rightarrow> bool" where
  "hashed n s t \<longleftrightarrow> save_ok n t \<and> keeps s t \<and> real_map_size (sv_cov t) = real_map_size (sv_cov s) \<and>
     (\<forall>vm. get_virgin vm (sv_cov t) = get_virgin vm (sv_cov s)) \<and> saved_crashes t = saved_crashes s \<and>
     trace_of t = (if sv_classified t then map class8 (trace_of s) else trace_of s)"

lemma hash_part_ok:
  assumes s: "save_ok n s" "\<not> sv_classified s"
  shows "ends (if hash_schedule s then
                 ebind (save_classify s) (\<lambda>s. let cksum = s_hash h (trace_of s) in
                   bump_n_fuzz cksum (s\<lparr>sv_classified := True, sv_need_hash := False, sv_cksum := cksum\<rparr>))
               else Inr s) F (hashed n s)"
proof -
  define u where "u = s\<lparr>sv_cov := (sv_cov s)\<lparr>cov.trace_bits := map class8 (trace_of s)\<rparr>\<rparr>"
  note c = classify_aside [OF s(1), folded u_def]
  define v where "v = u\<lparr>sv_classified := True, sv_need_hash := False, sv_cksum := s_hash h (trace_of u)\<rparr>"
  have v: "aside s v" using c(2) by (simp add: v_def aside_def conf_def)
  from bump_ok [OF aside_ok [OF s(1) v], of "s_hash h (trace_of u)"] obtain t where t: "bump_n_fuzz (s_hash h (trace_of u)) v = Inr t"
    "save_ok n t" "keeps v t" "sv_cov t = sv_cov v" "sv_classified t" "saved_crashes t = saved_crashes v"
    by (auto simp: v_def)
  have "get_virgin vm (sv_cov v) = get_virgin vm (sv_cov s)" for vm by (cases vm) (simp_all add: v_def u_def)
  then have "hashed n s t" using t keeps_trans [OF aside_keeps [OF v] t(3)] by (simp add: hashed_def v_def u_def)
  moreover have "hashed n s s" using s by (simp add: hashed_def)
  ultimately show ?thesis using c(1) t(1) by (simp add: Let_def v_def)
qed

lemma unclassified_scan:
  assumes s: "save_ok n s"
  shows "\<exists>r c. has_new_bits_unclassified TYPE(64) Virgin_Bits (sv_cov s) = Inr (r, c) \<and> aside s (s\<lparr>sv_cov := c\<rparr>) \<and>
    pairs (virgin_bits c) = virgin_pairs s - class_hits s \<and> (r = 0 \<longleftrightarrow> virgin_pairs s \<inter> class_hits s = {})"
proof -
  let ?c = "sv_cov s" and ?tr = "map class8 (trace_of s)"
  have w: "wf_cov ?c" using s by (simp add: save_ok_def)
  have len: "length (trace_of s) = map_size ?c" "length (virgin_bits ?c) = map_size ?c" using w by (simp_all add: wf_cov_def)
  define u where "u = s\<lparr>sv_cov := ?c\<lparr>cov.trace_bits := ?tr\<rparr>\<rparr>"
  have u: "aside s u" "save_ok n u" using classify_aside(2) [OF s] aside_ok [OF s] by (simp_all add: u_def)
  note un = unclassified_eval [OF w, where ?'w = 64 and vm = Virgin_Bits]
  show ?thesis
  proof (cases "novelty ?tr (virgin_bits ?c) = 0")
    case True
    then have "\<forall>i < map_size ?c. class8 (trace_of s ! i) AND virgin_bits ?c ! i = 0" using len by (simp add: novelty_eq_0_iff)
    then have "\<not> (bit (class8 (trace_of s ! i)) b \<and> bit (virgin_bits ?c ! i) b)" if "i < map_size ?c" for i b
      using that bit_and_iff [of "class8 (trace_of s ! i)" "virgin_bits ?c ! i" b] by simp
    then have "virgin_pairs s \<inter> class_hits s = {}" using len by (auto simp: pairs_def class_hits_def)
    then show ?thesis using True un aside_refl [OF s] by auto
  next
    case False
    have l: "looked_at 8 (sv_cov u) = looked_at 8 ?c" "virgin_bits (sv_cov u) = virgin_bits ?c" by (simp_all add: u_def looked_at_def)
    from new_bits_aside [OF u(2), of Virgin_Bits] obtain r d where d: "has_new_bits TYPE(64) Virgin_Bits (sv_cov u) = Inr (r, d)"
      "aside u (u\<lparr>sv_cov := d\<rparr>)" "records_coverage (looked_at 8 ?c) Virgin_Bits (sv_cov u) r d" unfolding l by blast
    have "classify_counts TYPE(64) ?c = Inr (sv_cov u)" using classify_ok(1) [OF w] by (simp add: u_def)
    moreover have "aside s (s\<lparr>sv_cov := d\<rparr>)" using aside_trans [OF u(1) d(2)] by (simp add: u_def)
    ultimately show ?thesis using False un d(1,3) l by (simp add: records_coverage_def Let_def class_hits_def u_def)
  qed
qed

text \<open>Both ways to look for new coverage.\<close>

lemma scan_ok:
  assumes t: "hashed n s t"
  shows "\<exists>r c. (if sv_classified t then has_new_bits TYPE(64) Virgin_Bits (sv_cov t)
      else has_new_bits_unclassified TYPE(64) Virgin_Bits (sv_cov t)) = Inr (r, c) \<and> aside t (t\<lparr>sv_cov := c\<rparr>) \<and>
    pairs (virgin_bits c) = virgin_pairs s - class_hits s \<and> (r = 0 \<longleftrightarrow> virgin_pairs s \<inter> class_hits s = {})"
proof -
  have o: "save_ok n t" "real_map_size (sv_cov t) = real_map_size (sv_cov s)" using t by (simp_all add: hashed_def)
  have v: "virgin_bits (sv_cov t) = virgin_bits (sv_cov s)" using t by (metis hashed_def get_virgin.simps(1))
  have l: "looked_at 8 (sv_cov t) = looked_at 8 (sv_cov s)" by (simp add: looked_at_def o(2))
  show ?thesis
  proof (cases "sv_classified t")
    case True
    from new_bits_aside [OF o(1), of Virgin_Bits] obtain r d where "has_new_bits TYPE(64) Virgin_Bits (sv_cov t) = Inr (r, d)"
      "aside t (t\<lparr>sv_cov := d\<rparr>)" "records_coverage (looked_at 8 (sv_cov t)) Virgin_Bits (sv_cov t) r d" by blast
    moreover have "trace_of t = map class8 (trace_of s)" using t True by (simp add: hashed_def)
    ultimately show ?thesis using True by (simp add: records_coverage_def Let_def class_hits_def l v)
  next
    case False
    have "class_hits t = class_hits s" using t False by (simp add: hashed_def class_hits_def l)
    then show ?thesis using unclassified_scan [OF o(1)] False by (simp add: v)
  qed
qed

section \<open>The decision\<close>

definition at_entry :: "nat \<Rightarrow> 'w save \<Rightarrow> 'w save" where
  "at_entry len s = s\<lparr>sv_new_bits := 0, sv_keeping := False, sv_classified := False, sv_need_hash := True, sv_cksum := 0, sv_len := len\<rparr>"

lemma at_entry_simps [simp]:
  "sv_classified (at_entry len s) = False" "sv_cov (at_entry len s) = sv_cov s" "sv_afl (at_entry len s) = sv_afl s" "sv_keeping (at_entry len s) = False"
  "sv_len (at_entry len s) = len" "crash_fault (at_entry len s) = crash_fault s" "saved_crashes (at_entry len s) = saved_crashes s"
  "crash_files (at_entry len s) = crash_files s" "hang_files (at_entry len s) = hang_files s" "saved_hangs (at_entry len s) = saved_hangs s"
  "min_length (at_entry len s) = min_length s" "settings (at_entry len s) = settings s" "class_hits (at_entry len s) = class_hits s"
  "hash_schedule (at_entry len s) = hash_schedule s" "save_ok n (at_entry len s) = save_ok n s"
  by (simp_all add: at_entry_def settings_def class_hits_def hash_schedule_def save_ok_def)

text \<open>What \<open>save_if_interesting\<close> does after the hash of the trace has been counted.\<close>

definition decide :: "'w shost \<Rightarrow> bool \<Rightarrow> bytes \<Rightarrow> fsrv_run_result \<Rightarrow> 'w save \<Rightarrow> (bool \<times> 'w save) res" where
  "decide h ok mem fault s =
     (if fault = crash_fault s then
        ebind (if sv_classified s then has_new_bits TYPE(64) Virgin_Bits (sv_cov s)
               else has_new_bits_unclassified TYPE(64) Virgin_Bits (sv_cov s)) (\<lambda>(n, c).
        let s = s\<lparr>sv_cov := c, sv_new_bits := n, sv_classified := (sv_classified s \<or> n \<noteq> 0)\<rparr> in
        if n = 0 then
          Inr (False, if crash_fault s \<noteq> FSRV_RUN_OK then s\<lparr>total_crashes := total_crashes s + 1\<rparr> else s)
        else ebind (run_loop (save_step h ok mem fault) (Save_To_Queue, s)) (\<lambda>s. Inr (sv_keeping s, s)))
      else ebind (run_loop (save_step h ok mem fault) (Handle_Fault, s)) (\<lambda>s. Inr (sv_keeping s, s)))"

lemma save_if_interesting_entry:
  assumes "len \<noteq> 0" "\<not> (fault = FSRV_RUN_TMOUT \<and> ignore_timeouts s)"
  shows "save_if_interesting h ok mem len fault s =
    ebind (if hash_schedule (at_entry len s) then
                 ebind (save_classify (at_entry len s)) (\<lambda>s. let cksum = s_hash h (trace_of s) in
                   bump_n_fuzz cksum (s\<lparr>sv_classified := True, sv_need_hash := False, sv_cksum := cksum\<rparr>))
               else Inr (at_entry len s)) (decide h ok mem fault)"
  unfolding save_if_interesting_def decide_def [abs_def] at_entry_def Let_def if_not_P [OF assms(1)] if_not_P [OF assms(2)] by (rule refl)

lemma hashed_undecided:
  assumes s: "save_ok n s" "len \<le> length mem" "min_length s \<le> length mem" and t: "hashed n (at_entry len s) t"
  shows "undecided n mem s t"
proof -
  have k: "keeps (at_entry len s) t" and c: "conf t = conf (at_entry len s)" using t by (simp_all add: hashed_def keeps_def)
  have "grows mem s t" using keeps_grows [OF k, of mem] by (simp add: grows_def)
  then show ?thesis using s t c by (simp add: undecided_def hashed_def conf_def)
qed

text \<open>The loop of the labels, for every target; it is bounded when the program is instrumented.\<close>

definition settles :: "bool \<Rightarrow> bool \<Rightarrow> 'a res \<Rightarrow> ('a \<Rightarrow> bool) \<Rightarrow> bool" where
  "settles D F m Q \<longleftrightarrow> safe m Q \<and> (D \<longrightarrow> ends m F Q)"

lemma settles_ebind: "settles D F m P \<Longrightarrow> (\<And>x. P x \<Longrightarrow> settles D F (f x) Q) \<Longrightarrow> settles D F (ebind m f) Q"
  unfolding settles_def by (auto intro: safe_ebind ends_ebind)

lemma ends_settles: "ends m F P \<Longrightarrow> settles D F m P"
  by (cases m) (auto simp: settles_def)

lemma settles_Inr [simp]: "settles D F (Inr x) Q = Q x"
  by (auto simp: settles_def)

lemma settles_mono: "settles D F m P \<Longrightarrow> (\<And>x. P x \<Longrightarrow> Q x) \<Longrightarrow> settles D F m Q"
  unfolding settles_def using ends_mono safe_mono by blast

lemma settles_error: "settles D F m Q \<Longrightarrow> (F \<Longrightarrow> F') \<Longrightarrow> settles D F' m Q"
  by (cases m) (auto simp: settles_def)

lemma save_loop_ok:
  assumes h: "save_traces n h" and t: "undecided n mem s t"
  shows "settles (\<not> non_instrumented_mode (sv_afl s)) (gives_error h s \<or> fault = FSRV_RUN_ERROR)
    (run_loop (save_step h True mem fault) (pc, t)) (decided n mem s)"
proof -
  let ?I = "\<lambda>(pc :: save_pc, t). undecided n mem s t" and ?F = "gives_error h s \<or> fault = FSRV_RUN_ERROR"
  have st: "ends (save_step h True mem fault x) ?F (\<lambda>c. case c of Break u \<Rightarrow> decided n mem s u
        | Cont y \<Rightarrow> ?I y \<and> (\<not> non_instrumented_mode (sv_afl s) \<longrightarrow> save_measure y < save_measure x))" if "?I x" for x
  proof -
    obtain pc t where x: "x = (pc, t)" by fastforce
    show ?thesis by (rule ends_mono [OF save_step_ok [OF h, of mem s t fault pc, folded x]]) (use that x in \<open>auto split: ctl.splits\<close>)
  qed
  have "safe (run_loop (save_step h True mem fault) (pc, t)) (decided n mem s)"
  proof (rule run_loop_safe [where I = ?I])
    fix x assume "?I x"
    from st [OF this] show "safe (save_step h True mem fault x) (\<lambda>c. case c of Break u \<Rightarrow> decided n mem s u | Cont y \<Rightarrow> ?I y)"
      by (cases "save_step h True mem fault x") (auto split: ctl.splits)
  qed (use t in simp)
  moreover have "ends (run_loop (save_step h True mem fault) (pc, t)) ?F (decided n mem s)" if "\<not> non_instrumented_mode (sv_afl s)"
  proof (rule run_loop_ends [where I = ?I and m = save_measure])
    fix x assume x: "?I x"
    show "ends (save_step h True mem fault x) ?F (\<lambda>c. case c of Break u \<Rightarrow> decided n mem s u
        | Cont y \<Rightarrow> ?I y \<and> save_measure y < save_measure x)"
      by (rule ends_mono [OF st [OF x]]) (use that in \<open>auto split: ctl.splits\<close>)
  qed (use t in simp)
  ultimately show ?thesis by (simp add: settles_def)
qed

lemma decide_ok:
  assumes h: "save_traces n h" and s: "save_ok n s" "len \<le> length mem" "min_length s \<le> length mem"
    and t: "hashed n (at_entry len s) t"
  shows "settles (\<not> non_instrumented_mode (sv_afl s)) (gives_error h s \<or> fault = FSRV_RUN_ERROR)
    (decide h True mem fault t) (\<lambda>(b, u). decided n mem s u)"
proof -
  have u: "undecided n mem s t" by (rule hashed_undecided [OF s t])
  have loop: "settles (\<not> non_instrumented_mode (sv_afl s)) (gives_error h s \<or> fault = FSRV_RUN_ERROR)
      (ebind (run_loop (save_step h True mem fault) (pc, v)) (\<lambda>s. Inr (sv_keeping s, s))) (\<lambda>(b, u). decided n mem s u)"
    if "undecided n mem s v" for pc v
    by (rule settles_ebind [OF save_loop_ok [OF h that]]) simp
  from scan_ok [OF t] obtain r c where c: "(if sv_classified t then has_new_bits TYPE(64) Virgin_Bits (sv_cov t)
      else has_new_bits_unclassified TYPE(64) Virgin_Bits (sv_cov t)) = Inr (r, c)" "aside t (t\<lparr>sv_cov := c\<rparr>)" by blast
  have v: "undecided n mem s (t\<lparr>sv_cov := c\<rparr>)" by (rule undecided_aside [OF u c(2)])
  then have v: "undecided n mem s (t\<lparr>sv_cov := c, sv_new_bits := x, sv_classified := y\<rparr>)"
    "undecided n mem s (t\<lparr>sv_cov := c, sv_new_bits := x\<rparr>)"
    "undecided n mem s (t\<lparr>sv_cov := c, sv_new_bits := x, total_crashes := z\<rparr>)" for x y z
    by (simp_all add: undecided_def save_ok_def grows_def settings_def)
  show ?thesis
  proof (cases "fault = crash_fault t")
    case True
    then show ?thesis using c(1) loop [OF v(1)] undecided_decided [OF v(2)] undecided_decided [OF v(3)]
      by (cases "r = 0") (simp_all add: decide_def Let_def)
  next
    case False
    then show ?thesis using loop [OF u] by (simp add: decide_def)
  qed
qed

lemma save_if_interesting_ok:
  assumes h: "save_traces n h" and s: "save_ok n s" "len \<le> length mem" "min_length s \<le> length mem"
  shows "settles (\<not> non_instrumented_mode (sv_afl s)) (gives_error h s \<or> fault = FSRV_RUN_ERROR)
    (save_if_interesting h True mem len fault s) (\<lambda>(b, u). decided n mem s u)"
proof -
  have d: "decided n mem s s" using s by (simp add: decided_def one_more_def)
  consider "len = 0" | "len \<noteq> 0" "fault = FSRV_RUN_TMOUT" "ignore_timeouts s" | "len \<noteq> 0" "\<not> (fault = FSRV_RUN_TMOUT \<and> ignore_timeouts s)" by blast
  then show ?thesis
  proof cases
    case 1
    then show ?thesis using d by (simp add: save_if_interesting_def)
  next
    case 2
    define u where "u = s\<lparr>sv_cov := (sv_cov s)\<lparr>cov.trace_bits := map class8 (trace_of s)\<rparr>\<rparr>"
    note c = classify_aside [OF s(1), folded u_def]
    from bump_ok [OF aside_ok [OF s(1) c(2)], of "s_hash h (trace_of u)"] obtain t where t: "bump_n_fuzz (s_hash h (trace_of u)) u = Inr t"
      "save_ok n t" "keeps u t" by blast
    have k: "keeps s t" by (rule keeps_trans [OF aside_keeps [OF c(2)] t(3)])
    then have "decided n mem s t" using t(2) keeps_grows [OF k, of mem] by (simp add: decided_def keeps_def conf_def one_more_def)
    then show ?thesis using 2 d c(1) t(1) by (simp add: save_if_interesting_def)
  next
    case 3
    have o: "save_ok n (at_entry len s)" "\<not> sv_classified (at_entry len s)" using s(1) by simp_all
    show ?thesis unfolding save_if_interesting_entry [OF 3]
      by (rule settles_ebind [OF ends_settles [OF hash_part_ok [OF o]] decide_ok [OF h s]])
  qed
qed

lemma fuzz_step_ok:
  assumes h: "save_traces n h" and s: "save_ok n s" "len \<le> length out_buf" "min_length s \<le> length out_buf"
  shows "settles (\<not> non_instrumented_mode (sv_afl s)) (gives_error h s)
    (common_fuzz_stuff h True skip out_buf len s) (\<lambda>(b, u). decided n out_buf s u)"
proof -
  have u0: "undecided n out_buf (s\<lparr>sv_len := 0\<rparr>) (s\<lparr>sv_len := 0\<rparr>)" using s by (simp add: undecided_def save_ok_def)
  have d: "decided n out_buf s t" if "save_ok n t" "keeps s t" for t
    using that keeps_grows [OF that(2), of out_buf] by (simp add: decided_def keeps_def conf_def one_more_def)
  from write_testcase_ok [of len out_buf False s] s obtain k w where w: "write_to_testcase out_buf len False s = Inr (k, s\<lparr>sv_input := w\<rparr>)"
    "k \<le> length out_buf" by blast
  let ?s = "s\<lparr>sv_input := w\<rparr>"
  have a: "aside s ?s" "save_ok n ?s" using same_view_aside [OF s(1) same_view_input] aside_ok [OF s(1)] by blast+
  obtain f so u where u: "save_run_target h (exec_tmout ?s) ?s = (f, so, u)" by (metis prod_cases3)
  note r = run_aside [OF h a(2) u]
  have su: "aside s u" by (rule aside_trans [OF a(1) r(1)])
  have ou: "save_ok n u" by (rule aside_ok [OF s(1) su])
  define v where "v = u\<lparr>subseq_tmouts := (if f = FSRV_RUN_TMOUT then u32_add (subseq_tmouts u) 1 else 0)\<rparr>"
  have view: "same_view u v" "same_view u (u\<lparr>subseq_tmouts := i, cur_skipped_items := j\<rparr>)" "same_view u (v\<lparr>cur_skipped_items := j\<rparr>)" for i j
    by (simp_all add: same_view_def v_def conf_def)
  have sv: "aside s x" if "same_view u x" for x by (rule aside_trans [OF su same_view_aside [OF ou that]])
  have dv: "decided n out_buf s x" if "same_view u x" for x by (rule d [OF aside_ok [OF s(1) sv [OF that]] aside_keeps [OF sv [OF that]]])
  have ov: "save_ok n v" "min_length v \<le> length out_buf" "conf v = conf s" "keeps s v"
    using aside_ok [OF s(1) sv [OF view(1)]] aside_keeps [OF sv [OF view(1)]] sv [OF view(1)] s(3) by (simp_all add: aside_def conf_def)
  have cf: "non_instrumented_mode (sv_afl v) = non_instrumented_mode (sv_afl s)" "gives_error h v = gives_error h s"
    using ov(3) by (simp_all add: conf_def gives_error_def)
  have err: "f = FSRV_RUN_ERROR \<longrightarrow> gives_error h s" using r(4) by (auto simp: gives_error_def errs_def)
  have up: "decided n out_buf s (x\<lparr>queued_discovered := j\<rparr>)" if "decided n out_buf v x" for x j
  proof -
    have "grows out_buf s x" using that grows_trans [OF keeps_grows [OF ov(4)]] by (simp add: decided_def)
    then show ?thesis using that ov(3) by (simp add: decided_def conf_def grows_def settings_def save_ok_def)
  qed
  have "settles (\<not> non_instrumented_mode (sv_afl s)) (gives_error h s) (save_if_interesting h True out_buf k f v) (\<lambda>(b, u). decided n out_buf v u)"
    by (rule settles_error [OF save_if_interesting_ok [OF h ov(1) w(2) ov(2), unfolded cf]]) (use err in blast)
  then have "settles (\<not> non_instrumented_mode (sv_afl s)) (gives_error h s) (ebind (save_if_interesting h True out_buf k f v) (\<lambda>(kept, s).
         Inr (False, s\<lparr>queued_discovered := u32_add (queued_discovered s) (of_bool kept)\<rparr>))) (\<lambda>(b, u). decided n out_buf s u)"
    by (rule settles_ebind) (auto simp: up)
  moreover have "same_view u u" by (simp add: same_view_def)
  ultimately show ?thesis using w(1) u dv view d [OF a(2) aside_keeps [OF a(1)]]
    by (simp add: common_fuzz_stuff_def Let_def v_def)
qed

end
