(* ===== verification/AFL_SaveProps.thy ===== *)
theory AFL_SaveProps
  imports AFL_SaveRuns
begin

text \<open>
  What becomes of one executed input: \<open>common_fuzz_stuff\<close> returns and keeps the invariant \<open>save_ok\<close>; the
  queue, the crashes and the hangs grow by the input only; an input is queued exactly when its trace is
  new, and a crash is kept once per set of edges. Without instrumentation one loop need not end.
\<close>

section \<open>Normal runs and crashes\<close>

lemma run_loop_ok_fault:
  "run_loop (save_step h ok mem FSRV_RUN_OK) (Save_To_Queue, t) = save_to_queue h ok mem t"
proof (cases "save_to_queue h ok mem t")
  case (Inl e)
  then have "save_step h ok mem FSRV_RUN_OK (Save_To_Queue, t) = Inl e" by (simp add: save_step_def)
  then show ?thesis by (simp add: run_loop_Inl Inl)
next
  case (Inr u)
  then have "save_step h ok mem FSRV_RUN_OK (Save_To_Queue, t) = Inr (Cont (Handle_Fault, u))" by (simp add: save_step_def)
  moreover have "save_step h ok mem FSRV_RUN_OK (Handle_Fault, u) = Inr (Break u)" by (simp add: save_step_def)
  ultimately show ?thesis by (simp add: run_loop_Cont run_loop_Break Inr)
qed

lemma run_loop_crash_fault:
  "run_loop (save_step h ok mem FSRV_RUN_CRASH) (Handle_Fault, t) = handle_crash mem t"
proof -
  have "save_step h ok mem FSRV_RUN_CRASH (Handle_Fault, t) = Inr (Cont (Keep_As_Crash, t))" by (simp add: save_step_def)
  then have "run_loop (save_step h ok mem FSRV_RUN_CRASH) (Handle_Fault, t) = run_loop (save_step h ok mem FSRV_RUN_CRASH) (Keep_As_Crash, t)"
    by (rule run_loop_Cont)
  moreover have "run_loop (save_step h ok mem FSRV_RUN_CRASH) (Keep_As_Crash, t) = handle_crash mem t"
  proof (cases "handle_crash mem t")
    case (Inl e)
    then have "save_step h ok mem FSRV_RUN_CRASH (Keep_As_Crash, t) = Inl e" by (simp add: save_step_def)
    then show ?thesis by (simp add: run_loop_Inl Inl)
  next
    case (Inr u)
    then have "save_step h ok mem FSRV_RUN_CRASH (Keep_As_Crash, t) = Inr (Break u)" by (simp add: save_step_def)
    then show ?thesis by (simp add: run_loop_Break Inr)
  qed
  ultimately show ?thesis by simp
qed

lemma started:
  assumes "save_ok n s" "len \<noteq> 0" "\<not> (fault = FSRV_RUN_TMOUT \<and> ignore_timeouts s)"
  shows "\<exists>t. hashed n (at_entry len s) t \<and> save_if_interesting h ok mem len fault s = decide h ok mem fault t"
proof -
  have o: "save_ok n (at_entry len s)" "\<not> sv_classified (at_entry len s)" using assms(1) by simp_all
  from ends_returns [OF hash_part_ok [OF o, where h = h]] obtain t where t: "(if hash_schedule (at_entry len s) then
                 ebind (save_classify (at_entry len s)) (\<lambda>s. let cksum = s_hash h (trace_of s) in
                   bump_n_fuzz cksum (s\<lparr>sv_classified := True, sv_need_hash := False, sv_cksum := cksum\<rparr>))
               else Inr (at_entry len s)) = Inr t" "hashed n (at_entry len s) t" by blast
  show ?thesis unfolding save_if_interesting_entry [OF assms(2,3)] t(1) using t(2) by auto
qed

lemma hashed_conf:
  "hashed n s t \<Longrightarrow> conf t = conf s \<and> files (sv_afl t) = files (sv_afl s) \<and> save_ok n t"
  by (simp add: hashed_def keeps_def)

lemma normal_run_lemma:
  assumes h: "save_traces n h" "\<not> errs h" and s: "save_ok n s" "0 < len" "len \<le> length mem" "crash_fault s = FSRV_RUN_OK"
  shows "\<exists>t. save_if_interesting h True mem len FSRV_RUN_OK s = Inr (virgin_pairs s \<inter> class_hits s \<noteq> {}, t) \<and> save_ok n t \<and>
    virgin_pairs t \<subseteq> virgin_pairs s - class_hits s \<and>
    files (sv_afl t) = files (sv_afl s) @ (if virgin_pairs s \<inter> class_hits s = {} then [] else [(take len mem, len)]) \<and>
    crash_files t = crash_files s \<and> hang_files t = hang_files s"
proof -
  have "len \<noteq> 0" "\<not> (FSRV_RUN_OK = FSRV_RUN_TMOUT \<and> ignore_timeouts s)" using s(2) by simp_all
  from started [OF s(1) this] obtain t where t: "hashed n (at_entry len s) t"
    "save_if_interesting h True mem len FSRV_RUN_OK s = decide h True mem FSRV_RUN_OK t" by blast
  note c = hashed_conf [OF t(1)]
  have ct: "crash_fault t = FSRV_RUN_OK" "sv_len t = len" "sv_keeping t = False" "crash_files t = crash_files s" "hang_files t = hang_files s"
    using c s(4) by (simp_all add: conf_def)
  from scan_ok [OF t(1)] obtain r d where d: "(if sv_classified t then has_new_bits TYPE(64) Virgin_Bits (sv_cov t)
      else has_new_bits_unclassified TYPE(64) Virgin_Bits (sv_cov t)) = Inr (r, d)" "aside t (t\<lparr>sv_cov := d\<rparr>)"
    "pairs (virgin_bits d) = virgin_pairs s - class_hits s" "r = 0 \<longleftrightarrow> virgin_pairs s \<inter> class_hits s = {}" by auto
  define u where "u = t\<lparr>sv_cov := d, sv_new_bits := r, sv_classified := (sv_classified t \<or> r \<noteq> 0)\<rparr>"
  have "save_ok n (t\<lparr>sv_cov := d\<rparr>)" using aside_ok [OF _ d(2)] c by blast
  then have u: "save_ok n u" "crash_fault u = FSRV_RUN_OK" "sv_len u = len" "sv_afl u = sv_afl t" "sv_cov u = d"
    "crash_files u = crash_files s" "hang_files u = hang_files s" using ct by (simp_all add: u_def save_ok_def)
  have eq: "decide h True mem FSRV_RUN_OK t = (if r = 0 then Inr (False, u) else ebind (save_to_queue h True mem u) (\<lambda>s. Inr (sv_keeping s, s)))"
    unfolding decide_def using ct(1) d(1) by (simp add: run_loop_ok_fault u_def Let_def)
  show ?thesis
  proof (cases "r = 0")
    case True
    then show ?thesis using eq t(2) u c d(3,4) by auto
  next
    case False
    have "ends (save_to_queue h True mem u) False (queued n mem u)"
      using save_to_queue_ok [OF h(1) u(1)] h(2) u(2,3) s(3) by (simp add: gives_error_def)
    from ends_returns [OF this] obtain w where w: "save_to_queue h True mem u = Inr w" "queued n mem u w" by blast
    have cw: "conf w = conf (u\<lparr>sv_keeping := True\<rparr>)" using w(2) by (simp add: queued_def)
    then have "sv_keeping w" "crash_files w = crash_files s" "hang_files w = hang_files s" using u by (simp_all add: conf_def)
    moreover have "virgin_pairs w \<subseteq> pairs (virgin_bits d)"
      using w(2) u(5) unfolding queued_def virgin_le_def by (metis get_virgin.simps(1))
    ultimately show ?thesis using False eq t(2) w u(3,4) c d(3,4) by (auto simp: queued_def)
  qed
qed

lemma crash_lemma:
  assumes s: "save_ok n s" "0 < len" "len \<le> length mem" "crash_fault s \<noteq> FSRV_RUN_CRASH" "\<not> non_instrumented_mode (sv_afl s)"
    and k: "saved_crashes s < KEEP_UNIQUE_CRASH"
  defines "virgin \<equiv> pairs (virgin_crash (sv_cov s))" and "edges \<equiv> hit_edges (sv_cov s)"
  shows "\<exists>t. save_if_interesting h ok mem len FSRV_RUN_CRASH s = Inr (False, t) \<and> save_ok n t \<and>
    crash_files t = crash_files s @ (if virgin \<inter> edges = {} then [] else [take len mem]) \<and>
    saved_crashes t = saved_crashes s + (if virgin \<inter> edges = {} then 0 else 1) \<and>
    pairs (virgin_crash (sv_cov t)) = virgin - edges \<and> virgin_pairs t = virgin_pairs s \<and>
    files (sv_afl t) = files (sv_afl s) \<and> hang_files t = hang_files s"
proof -
  have "len \<noteq> 0" "\<not> (FSRV_RUN_CRASH = FSRV_RUN_TMOUT \<and> ignore_timeouts s)" using s(2) by simp_all
  from started [OF s(1) this] obtain t where t: "hashed n (at_entry len s) t"
    "save_if_interesting h ok mem len FSRV_RUN_CRASH s = decide h ok mem FSRV_RUN_CRASH t" by blast
  note c = hashed_conf [OF t(1)]
  have ct: "crash_fault t = crash_fault s" "sv_len t = len" "sv_keeping t = False" "crash_files t = crash_files s" "hang_files t = hang_files s"
    "saved_crashes t = saved_crashes s" "\<not> non_instrumented_mode (sv_afl t)" "save_ok n t" "files (sv_afl t) = files (sv_afl s)"
    using c s t(1) by (simp_all add: conf_def hashed_def)
  have v: "get_virgin vm (sv_cov t) = get_virgin vm (sv_cov s)" for vm using t(1) by (simp add: hashed_def)
  have he: "hit_edges (sv_cov t) = edges"
  proof -
    have "real_map_size (sv_cov t) = real_map_size (sv_cov s)" "trace_of t = (if sv_classified t then map class8 (trace_of s) else trace_of s)"
      using t(1) by (simp_all add: hashed_def)
    then show ?thesis unfolding edges_def by (simp add: hit_edges_def looked_at_def take_map comp_def)
  qed
  let ?t = "t\<lparr>total_crashes := total_crashes t + 1\<rparr>"
  have t1: "save_ok n ?t" "\<not> non_instrumented_mode (sv_afl ?t)" using ct by (simp_all add: save_ok_def)
  have vt: "pairs (get_virgin Virgin_Crash (sv_cov ?t)) = virgin" using v [of Virgin_Crash] by (simp add: virgin_def)
  from new_simplified_eval [OF t1, of Virgin_Crash] obtain d where d:
    "new_simplified Virgin_Crash ?t = Inr (virgin \<inter> edges \<noteq> {}, ?t\<lparr>sv_cov := d, sv_classified := True\<rparr>)"
    "aside ?t (?t\<lparr>sv_cov := d, sv_classified := True\<rparr>)" "pairs (virgin_crash d) = virgin - edges"
    "\<forall>vm'. vm' \<noteq> Virgin_Crash \<longrightarrow> get_virgin vm' d = get_virgin vm' (sv_cov t)" using he vt by auto
  have "virgin_bits d = virgin_bits (sv_cov s)" using d(4) v [of Virgin_Bits] by (metis get_virgin.simps(1) virgin_map.distinct(3))
  moreover have "save_ok n (?t\<lparr>sv_cov := d, sv_classified := True\<rparr>)" by (rule aside_ok [OF t1(1) d(2)])
  moreover have "decide h ok mem FSRV_RUN_CRASH t = ebind (handle_crash mem t) (\<lambda>s. Inr (sv_keeping s, s))"
    using s(4) ct(1) by (simp add: decide_def run_loop_crash_fault)
  moreover have "\<not> KEEP_UNIQUE_CRASH \<le> saved_crashes s" using k by simp
  ultimately show ?thesis using d(1,3) t(2) ct s(3)
    by (cases "virgin \<inter> edges = {}") (simp_all add: handle_crash_def Let_def save_ok_def)
qed

section \<open>A loop without an end\<close>

definition calm :: "'w shost \<Rightarrow> nat \<Rightarrow> bool" where
  "calm h tmout \<longleftrightarrow> (\<forall>d w. fst (s_exec h d tmout w) = FSRV_RUN_OK)"

lemma rerun_requeues:
  assumes h: "save_traces n h" "calm h (hang_tmout t)" and t: "undecided n mem s t" "keep_timeouts t" "non_instrumented_mode (sv_afl t)"
  shows "\<exists>u. rerun_hang h mem t = Inr (Cont (Save_To_Queue, u)) \<and> undecided n mem s u \<and> conf u = conf t"
proof -
  obtain f so v where v: "save_run_target h (hang_tmout t) t = (f, so, v)" by (metis prod_cases3)
  have o: "save_ok n t" using t(1) by (simp add: undecided_def)
  note r = run_aside [OF h(1) o v]
  have f: "f = FSRV_RUN_OK" using r(4) h(2) by (simp add: calm_def)
  have ov: "save_ok n v" "conf v = conf t" "keep_timeouts v" using aside_ok [OF o r(1)] r(1) t(2) by (simp_all add: aside_def conf_def)
  note c = classify_aside [OF ov(1)]
  obtain u where u: "rerun_hang h mem t = Inr (Cont (Save_To_Queue, u))" "conf u = conf t"
    using c ov f by (simp add: rerun_hang_def v conf_def)
  have "ends (rerun_hang h mem t) False (after_timeout n mem s t)" by (rule rerun_ok [OF h(1) t(1)]) (use t(3) in simp)
  then show ?thesis using u by (simp add: after_timeout_def)
qed

lemma confirm_requeues:
  assumes h: "save_traces n h" "calm h (hang_tmout t)" and t: "undecided n mem s t" "keep_timeouts t" "non_instrumented_mode (sv_afl t)"
    "exec_tmout t < hang_tmout t"
  shows "\<exists>u. confirm_hang h mem t = Inr (Cont (Save_To_Queue, u)) \<and> undecided n mem s u \<and> saved_hangs u = saved_hangs t"
proof -
  have l: "sv_len t \<le> length mem" "min_length t \<le> length mem" using t(1) by (simp_all add: undecided_def)
  from write_testcase_ok [of "sv_len t" mem False t] l obtain k d where d: "write_to_testcase mem (sv_len t) False t = Inr (k, t\<lparr>sv_input := d\<rparr>)"
    "k \<le> length mem" by blast
  from write_testcase_ok [of "sv_len t" mem True "t\<lparr>sv_input := d\<rparr>"] l obtain k' d' where d': "k' \<le> length mem"
    "write_to_testcase mem (sv_len t) True (t\<lparr>sv_input := d\<rparr>) = Inr (k', t\<lparr>sv_input := d'\<rparr>)" by auto
  have w: "undecided n mem s (t\<lparr>sv_input := e\<rparr>)" for e by (rule undecided_same_view [OF t(1)]) simp
  have "\<exists>u. rerun_hang h mem (t\<lparr>sv_input := e, sv_len := i\<rparr>) = Inr (Cont (Save_To_Queue, u)) \<and> undecided n mem s u \<and>
      conf u = conf (t\<lparr>sv_input := e, sv_len := i\<rparr>)" if "i \<le> length mem" for e i
    by (rule rerun_requeues [OF h(1) _ undecided_len [OF w that]]) (use h(2) t in simp_all)
  then show ?thesis using d d' t(4) by (cases "k = 0") (auto simp: confirm_hang_def conf_def)
qed

lemma requeue_step:
  assumes h: "save_traces n h" "\<not> errs h" "calm h (hang_tmout s)"
    and s: "crash_fault s \<noteq> FSRV_RUN_ERROR" "keep_timeouts s" "non_instrumented_mode (sv_afl s)" "exec_tmout s < hang_tmout s"
      "saved_hangs s < KEEP_UNIQUE_HANG"
    and t: "undecided n mem s t" "saved_hangs t = saved_hangs s" "pc \<noteq> Keep_As_Crash"
  shows "\<exists>pc' u. save_step h True mem FSRV_RUN_TMOUT (pc, t) = Inr (Cont (pc', u)) \<and> pc' \<noteq> Keep_As_Crash \<and>
    undecided n mem s u \<and> saved_hangs u = saved_hangs s"
proof -
  have set: "non_instrumented_mode (sv_afl t)" "crash_fault t = crash_fault s" "keep_timeouts t" "exec_tmout t < hang_tmout t"
    "hang_tmout t = hang_tmout s"
    using t(1) s by (simp_all add: undecided_def grows_def settings_def)
  show ?thesis
  proof (cases pc)
    case Save_To_Queue
    have "save_ok n t" "sv_len t \<le> length mem" using t(1) by (simp_all add: undecided_def)
    from save_to_queue_ok [OF h(1) this] have "ends (save_to_queue h True mem t) False (queued n mem t)"
      using h(2) s(1) by (simp add: gives_error_def set(2))
    from ends_returns [OF this] obtain u where u: "save_to_queue h True mem t = Inr u" "queued n mem t u" by blast
    have "saved_hangs u = saved_hangs s" using u(2) t(2) by (simp add: queued_def conf_def)
    then show ?thesis using queued_undecided [OF t(1) u(2)] u(1) by (simp add: save_step_def Save_To_Queue)
  next
    case Handle_Fault
    let ?t = "t\<lparr>total_tmouts := total_tmouts t + 1\<rparr>"
    have t1: "undecided n mem s ?t" by (rule undecided_same_view [OF t(1)]) (simp add: same_view_def conf_def)
    have "calm h (hang_tmout ?t)" using h(3) set(5) by simp
    from confirm_requeues [OF h(1) this t1] set obtain u where u: "confirm_hang h mem ?t = Inr (Cont (Save_To_Queue, u))"
      "undecided n mem s u" "saved_hangs u = saved_hangs t" by auto
    have "\<not> KEEP_UNIQUE_HANG \<le> saved_hangs t" using s(5) t(2) by simp
    then have "handle_timeout h mem t = Inr (Cont (Save_To_Queue, u))"
      using set(1) u(1) by (simp add: handle_timeout_def Let_def new_simplified_def)
    then show ?thesis using u(2,3) t(2) by (simp add: save_step_def Handle_Fault)
  next
    case Keep_As_Crash
    then show ?thesis using t(3) by simp
  qed
qed

lemma requeue_lemma:
  assumes h: "save_traces n h" "\<not> errs h" "calm h (hang_tmout s)"
    and s: "save_ok n s" "0 < len" "len \<le> length mem" "min_length s \<le> length mem"
    and m: "crash_fault s \<notin> {FSRV_RUN_ERROR, FSRV_RUN_TMOUT}" "keep_timeouts s" "non_instrumented_mode (sv_afl s)"
      "exec_tmout s < hang_tmout s" "saved_hangs s < KEEP_UNIQUE_HANG" "\<not> ignore_timeouts s"
  shows "save_if_interesting h True mem len FSRV_RUN_TMOUT s = Inl Diverge"
proof -
  have "len \<noteq> 0" "\<not> (FSRV_RUN_TMOUT = FSRV_RUN_TMOUT \<and> ignore_timeouts s)" using s(2) m(6) by simp_all
  from started [OF s(1) this] obtain t where t: "hashed n (at_entry len s) t"
    "save_if_interesting h True mem len FSRV_RUN_TMOUT s = decide h True mem FSRV_RUN_TMOUT t" by blast
  have u: "undecided n mem s t" by (rule hashed_undecided [OF s(1,3,4) t(1)])
  have c: "crash_fault t = crash_fault s" "saved_hangs t = saved_hangs s" using hashed_conf [OF t(1)] by (simp_all add: conf_def)
  have "run_loop (save_step h True mem FSRV_RUN_TMOUT) (Handle_Fault, t) = Inl Diverge"
  proof (rule run_loop_diverges [where I = "\<lambda>(pc, t). undecided n mem s t \<and> saved_hangs t = saved_hangs s \<and> pc \<noteq> Keep_As_Crash"])
    fix x assume x: "case x of (pc, t) \<Rightarrow> undecided n mem s t \<and> saved_hangs t = saved_hangs s \<and> pc \<noteq> Keep_As_Crash"
    obtain pc v where pv: "x = (pc, v)" by fastforce
    have v: "undecided n mem s v" "saved_hangs v = saved_hangs s" "pc \<noteq> Keep_As_Crash" using x by (simp_all add: pv)
    have "crash_fault s \<noteq> FSRV_RUN_ERROR" using m(1) by simp
    from requeue_step [OF h this m(2-5) v] show "\<exists>y. save_step h True mem FSRV_RUN_TMOUT x = Inr (Cont y) \<and>
        (case y of (pc, t) \<Rightarrow> undecided n mem s t \<and> saved_hangs t = saved_hangs s \<and> pc \<noteq> Keep_As_Crash)"
      unfolding pv by fastforce
  qed (use u c in simp)
  moreover have "FSRV_RUN_TMOUT \<noteq> crash_fault t" using c(1) m(1) by auto
  ultimately show ?thesis using t(2) by (simp add: decide_def)
qed

section \<open>An example\<close>

text \<open>A target that times out on one input, crashes on another, and never times out with the longer limit.\<close>

definition demo_target :: "nat shost" where
  "demo_target = \<lparr>s_exec = (\<lambda>d t w. (if 100 < t then FSRV_RUN_OK else if d = [1] then FSRV_RUN_TMOUT
       else if d = [2] then FSRV_RUN_CRASH else FSRV_RUN_OK, replicate 64 (of_nat (length d)), False, w + 1)),
     s_hash = (\<lambda>tr. 1 + of_nat (length (filter (\<lambda>b. b = 0) tr))), s_time = (\<lambda>w. (of_nat w, w + 1))\<rparr>"

definition demo_counts :: "nat list" where
  "demo_counts = replicate (2 ^ 21) 0"

definition demo_afl :: afl where
  "demo_afl = empty_queue\<lparr>trace_bits := replicate 64 0, top_rated := replicate 64 None, n_fuzz := demo_counts\<rparr>"

definition demo_save :: "nat save" where
  "demo_save = \<lparr>sv_world = 0, sv_afl = demo_afl, sv_cov = demo_cov, sv_input = [], first_trace = replicate 64 0,
     var_bytes = replicate 64 0, use_shmem = False, exec_tmout = 20, hang_tmout = 1000, min_length = 1, max_length = 1000,
     crash_fault = FSRV_RUN_OK, ignore_timeouts = False, keep_timeouts = True, cal_fast = False, resuming_fuzz = False,
     fuzz_mode = False, switch_fuzz_mode = False, stage_at = 0, sv_cycle = 1, total_crashes = 0, saved_crashes = 0,
     total_tmouts = 0, saved_tmouts = 0, saved_hangs = 0, queued_with_cov = 0, queued_variable = 0, var_byte_count = 0,
     total_cal_us = 0, total_cal_cycles = 0, total_bitmap_size = 0, total_bitmap_entries = 0, crash_files = [], hang_files = [],
     subseq_tmouts = 0, cur_skipped_items = 0, queued_discovered = 0, cal_new_bits = 0, cal_var = False, cal_max = 7,
     sv_new_bits = 0, sv_keeping = False, sv_classified = False, sv_need_hash = False, sv_cksum = 0, sv_len = 0\<rparr>"

lemma demo_queue_ok: "queue_ok 64 demo_afl"
  unfolding queue_ok_def
proof (intro conjI)
  show "rated demo_afl"
    unfolding rated_def rated_as_def Let_def demo_afl_def by (simp add: empty_queue_def)
  show "cache_ok demo_afl"
    unfolding cache_ok_def by (simp add: demo_afl_def empty_queue_def slots_def used_def charge_def sum_list_replicate)
qed (simp_all add: demo_afl_def n_fuzz_ok_def empty_queue_def demo_counts_def)

lemma demo_save_ok: "save_ok 64 (demo_save\<lparr>sv_afl := demo_afl\<lparr>non_instrumented_mode := b\<rparr>\<rparr>)"
proof -
  let ?a = "demo_afl\<lparr>non_instrumented_mode := b\<rparr>"
  have "rated ?a" by (rule rated_transfer [of demo_afl]) (use demo_queue_ok in \<open>simp_all add: queue_ok_def\<close>)
  moreover have "cache_ok ?a = cache_ok demo_afl" "n_fuzz_ok ?a = n_fuzz_ok demo_afl" by (simp_all add: cache_ok_def slots_def n_fuzz_ok_def)
  ultimately have "queue_ok 64 ?a" using demo_queue_ok by (simp add: queue_ok_def)
  then show ?thesis using demo_cov_wf by (simp add: save_ok_def demo_save_def demo_cov_def)
qed

lemma demo_save_ok': "save_ok 64 demo_save"
  using demo_save_ok [of False] by (simp add: demo_save_def demo_afl_def empty_queue_def)

lemma demo_target_ok: "save_traces 64 demo_target" "\<not> errs demo_target" "calm demo_target 1000"
  by (auto simp: save_traces_def errs_def calm_def demo_target_def)

lemma demo_settings:
  "crash_fault demo_save = FSRV_RUN_OK" "\<not> non_instrumented_mode (sv_afl demo_save)" "min_length demo_save = 1"
  "crash_files demo_save = []" "hang_files demo_save = []" "files (sv_afl demo_save) = []" "saved_crashes demo_save < KEEP_UNIQUE_CRASH"
  by (simp_all add: demo_save_def demo_afl_def empty_queue_def files_def KEEP_UNIQUE_CRASH_def)

lemma demo_new:
  "virgin_pairs demo_save \<inter> class_hits demo_save \<noteq> {}" "pairs (virgin_crash (sv_cov demo_save)) \<inter> hit_edges (sv_cov demo_save) \<noteq> {}"
proof -
  have l: "looked_at 8 demo_cov = 8" by (simp add: looked_at_def demo_cov_def)
  have "class8 1 = 1" by (simp add: class8_def count_class_lookup8_def)
  then have "(0, 0) \<in> virgin_pairs demo_save \<inter> class_hits demo_save"
    by (simp add: demo_save_def class_hits_def pairs_def l) (simp add: demo_cov_def)
  then show "virgin_pairs demo_save \<inter> class_hits demo_save \<noteq> {}" by blast
  have "(0, 7) \<in> pairs (virgin_crash (sv_cov demo_save)) \<inter> hit_edges (sv_cov demo_save)"
    by (simp add: demo_save_def hit_edges_def pairs_def l) (simp add: demo_cov_def)
  then show "pairs (virgin_crash (sv_cov demo_save)) \<inter> hit_edges (sv_cov demo_save) \<noteq> {}" by blast
qed

section \<open>Properties\<close>

text \<open>C2: whatever the target does, one step of the fuzzing stages accesses no memory outside the test case's buffer and keeps
  the invariant of the fuzzer: well-formed maps, scores that agree with the reference counts and compacted traces, an
  exact account of the cache. The queue grows by prefixes of the buffer only, at most one crash or one hang is kept, the
  virgin maps gain no bit, and the settings stay as they are.\<close>

theorem fuzz_step_safe:
  assumes "save_ok n s" "save_traces n h" "len \<le> length out_buf" "min_length s \<le> length out_buf"
  shows "safe (common_fuzz_stuff h True skip out_buf len s) (\<lambda>(b, t). decided n out_buf s t)"
  using fuzz_step_ok [OF assms(2,1,3,4), of skip] by (simp add: settles_def)

theorem fuzz_step_safe_witness:
  "safe (common_fuzz_stuff demo_target True False [2] 1 demo_save) (\<lambda>(b, t). decided 64 [2] demo_save t)"
  by (rule fuzz_step_safe [OF demo_save_ok' demo_target_ok(1)]) (simp_all add: demo_settings)

text \<open>C1: on an instrumented target that can be executed, one step of the fuzzing stages returns, although
  \<open>save_if_interesting\<close> jumps back to its label \<open>save_to_queue\<close> and calibration extends its own loop: each jump is
  paid for by a pair of the map for timeouts, and a calibration has at most twelve runs.\<close>

theorem fuzz_step_returns:
  assumes "save_ok n s" "save_traces n h" "len \<le> length out_buf" "min_length s \<le> length out_buf"
    and "\<not> non_instrumented_mode (sv_afl s)" "\<not> errs h" "crash_fault s \<noteq> FSRV_RUN_ERROR"
  shows "\<exists>b t. common_fuzz_stuff h True skip out_buf len s = Inr (b, t) \<and> decided n out_buf s t"
proof -
  have "ends (common_fuzz_stuff h True skip out_buf len s) False (\<lambda>(b, t). decided n out_buf s t)"
    using fuzz_step_ok [OF assms(2,1,3,4), of skip] assms(5-7) by (simp add: settles_def gives_error_def)
  from ends_returns [OF this] show ?thesis by fastforce
qed

theorem fuzz_step_returns_witness:
  "\<exists>b t. common_fuzz_stuff demo_target True False [1] 1 demo_save = Inr (b, t) \<and> decided 64 [1] demo_save t"
  by (rule fuzz_step_returns [OF demo_save_ok' demo_target_ok(1)]) (simp_all add: demo_settings demo_target_ok)

text \<open>C3: an input whose run ends normally is queued exactly when its classified trace has a pair of edge and hit count
  that the virgin map still has. It is queued once and unchanged, its pairs leave the virgin map, and nothing is kept
  as a crash or a hang.\<close>

theorem queued_iff_new_coverage:
  assumes "save_ok n s" "save_traces n h" "\<not> errs h" "0 < len" "len \<le> length mem" "crash_fault s = FSRV_RUN_OK"
  shows "\<exists>t. save_if_interesting h True mem len FSRV_RUN_OK s = Inr (virgin_pairs s \<inter> class_hits s \<noteq> {}, t) \<and> save_ok n t \<and>
    virgin_pairs t \<subseteq> virgin_pairs s - class_hits s \<and>
    files (sv_afl t) = files (sv_afl s) @ (if virgin_pairs s \<inter> class_hits s = {} then [] else [(take len mem, len)]) \<and>
    crash_files t = crash_files s \<and> hang_files t = hang_files s"
  by (rule normal_run_lemma [OF assms(2,3,1,4-6)])

theorem queued_iff_new_coverage_witness:
  "\<exists>t. save_if_interesting demo_target True [3] 1 FSRV_RUN_OK demo_save = Inr (True, t) \<and> files (sv_afl t) = [([3], 1)]"
  using queued_iff_new_coverage [OF demo_save_ok' demo_target_ok(1,2), of 1 "[3]"] demo_new(1) by (auto simp: demo_settings)

text \<open>C4: with instrumentation, outside crash mode and while fewer than \<open>KEEP_UNIQUE_CRASH\<close> crashes are saved, a
  crash is kept exactly when it hits an edge, or misses one, that the map for crashes does not
  know yet; hit counts do not matter. The edges leave that map, so the same set of edges is not kept a second time, and
  the queue, the hangs and the virgin map for the queue are not touched.\<close>

theorem crash_kept_once:
  assumes "save_ok n s" "0 < len" "len \<le> length mem" "crash_fault s \<noteq> FSRV_RUN_CRASH" "\<not> non_instrumented_mode (sv_afl s)"
    and "saved_crashes s < KEEP_UNIQUE_CRASH"
  shows "\<exists>t. save_if_interesting h ok mem len FSRV_RUN_CRASH s = Inr (False, t) \<and> save_ok n t \<and>
    (let virgin = pairs (virgin_crash (sv_cov s)); edges = hit_edges (sv_cov s) in
     crash_files t = crash_files s @ (if virgin \<inter> edges = {} then [] else [take len mem]) \<and>
     saved_crashes t = saved_crashes s + (if virgin \<inter> edges = {} then 0 else 1) \<and>
     pairs (virgin_crash (sv_cov t)) = virgin - edges) \<and> virgin_pairs t = virgin_pairs s \<and>
    files (sv_afl t) = files (sv_afl s) \<and> hang_files t = hang_files s"
  using crash_lemma [OF assms] unfolding Let_def by blast

theorem crash_kept_once_witness:
  "\<exists>t. save_if_interesting demo_target True [2] 1 FSRV_RUN_CRASH demo_save = Inr (False, t) \<and> crash_files t = [[2]] \<and>
    files (sv_afl t) = []"
  using crash_kept_once [OF demo_save_ok', of 1 "[2]" demo_target True] demo_new(2) by (auto simp: demo_settings Let_def)

text \<open>C19: without instrumentation and with AFL_KEEP_TIMEOUTS, an input that is too slow for \<open>exec_tmout\<close> but not for \<open>hang_tmout\<close>
  makes \<open>save_if_interesting\<close> run forever: it jumps back to \<open>save_to_queue\<close>, the fault is still a timeout, and nothing
  changes that would stop the next jump; each turn adds another copy of the input to the queue.\<close>

theorem kept_timeout_never_ends:
  assumes "save_ok n s" "save_traces n h" "\<not> errs h" "calm h (hang_tmout s)" "0 < len" "len \<le> length mem" "min_length s \<le> length mem"
    and "crash_fault s \<notin> {FSRV_RUN_ERROR, FSRV_RUN_TMOUT}" "keep_timeouts s" "non_instrumented_mode (sv_afl s)"
    and "exec_tmout s < hang_tmout s" "saved_hangs s < KEEP_UNIQUE_HANG" "\<not> ignore_timeouts s"
  shows "save_if_interesting h True mem len FSRV_RUN_TMOUT s = Inl Diverge"
  by (rule requeue_lemma [OF assms(2-4,1,5-13)])

theorem kept_timeout_never_ends_witness:
  "save_if_interesting demo_target True [1] 1 FSRV_RUN_TMOUT (demo_save\<lparr>sv_afl := demo_afl\<lparr>non_instrumented_mode := True\<rparr>\<rparr>) = Inl Diverge"
  by (rule kept_timeout_never_ends [OF demo_save_ok demo_target_ok(1,2)])
    (simp_all add: demo_save_def KEEP_UNIQUE_HANG_def demo_target_ok(3))

end
