(* ===== verification/Spec2Isabelle.thy ===== *)
theory Spec2Isabelle
  imports AFL_Prelude AFL_Bytes AFL_Rng AFL_MutTables AFL_Mutations AFL_MutSafety AFL_MutProps AFL_MutEffects
    AFL_Words AFL_Coverage AFL_CoverageLemmas AFL_CoverageCount AFL_CoverageProps AFL_Sha1 AFL_Sha1Props
    AFL_Hashmap AFL_HashmapProps AFL_Alloc AFL_Extras AFL_ExtrasProps AFL_DetFilters AFL_DetFilterProps
    AFL_DetStages AFL_DetLemmas AFL_DetValues AFL_DetTokens AFL_AllocProps AFL_DetInsert AFL_DetCompose AFL_DetReturn
    AFL_DetCover AFL_DetProps AFL_Tmin AFL_TminLemmas AFL_TminProps AFL_Text AFL_TextProps AFL_Queue AFL_QueueProps
    AFL_CullProps AFL_Cache AFL_CacheProps AFL_CacheRuns
    AFL_Trim AFL_TrimLemmas AFL_TrimProps AFL_Save AFL_SaveLemmas AFL_CalLemmas AFL_SaveSteps
    AFL_SaveRuns AFL_SaveProps
begin

text \<open>
  A verification development for the core of AFL++, the fuzzer under \<^verbatim>\<open>src/AFLplusplus\<close> of this
  repository. The C code keeps its state in \<open>afl_state_t\<close>; each component below models the fields
  it uses as a record or a tuple, its operations as functions that return the new state, and every
  early return, loop exit and fatal error as a branch of the result. Memory is explicit: a buffer
  is the list of its bytes and every load, store and copy outside it is the error \<open>Fault\<close>; a loop
  that does not end is \<open>Diverge\<close> and an exit of the process is \<open>Fatal\<close> (\<^verbatim>\<open>AFL_Prelude\<close>, \<^verbatim>\<open>AFL_Bytes\<close>).
  Integers whose overflow matters are words or carry their wrap-around (\<open>u32_add\<close>, \<open>u32_sub\<close>).

  \<^bold>\<open>Random numbers\<close> (\<^verbatim>\<open>AFL_Rng\<close>: \<^verbatim>\<open>src/afl-performance.c\<close>, \<^verbatim>\<open>include/afl-fuzz.h\<close>). The RomuDuoJr
  step, re-seeding from a list of what \<^verbatim>\<open>/dev/urandom\<close> gives (\<open>Fatal\<close> when a read fails, that is when
  the list is used up) and the rejection loop of \<open>rand_below\<close>, which is shown to be unbiased. The locale \<open>rng_source\<close> states what the
  clients rely on, a result below the limit; it is interpreted on \<open>rand_below\<close>, and the proofs
  of the mutators, the dictionaries and the deterministic stages are done inside it.

  \<^bold>\<open>Mutations\<close> (\<^verbatim>\<open>AFL_MutTables\<close>, \<^verbatim>\<open>AFL_Mutations\<close>, \<^verbatim>\<open>AFL_MutSafety\<close>, \<^verbatim>\<open>AFL_MutEffects\<close>,
  \<^verbatim>\<open>AFL_MutProps\<close>: \<^verbatim>\<open>include/afl-mutations.h\<close>). The strategy tables, every operator and the driver
  \<open>afl_mutate\<close>. Memory safety and length bounds of every operator, the exact effect of several, and
  the overflow that two operators can cause.

  \<^bold>\<open>Coverage bitmap\<close> (\<^verbatim>\<open>AFL_Words\<close>, \<^verbatim>\<open>AFL_Coverage\<close> and its lemma theories: \<^verbatim>\<open>src/afl-fuzz-bitmap.c\<close>,
  \<^verbatim>\<open>include/coverage-64.h\<close>, \<^verbatim>\<open>include/coverage-32.h\<close>). The word-wise code is generic in the word
  width and refines a byte-wise description of traces and virgin maps.

  \<^bold>\<open>SHA-1 and HMAC\<close> (\<^verbatim>\<open>AFL_Sha1\<close>, \<^verbatim>\<open>AFL_Sha1Props\<close>: \<^verbatim>\<open>src/afl-performance.c\<close>), equal to the standard's
  definition, which is written beside it. \<^bold>\<open>Comparison cache\<close> (\<^verbatim>\<open>AFL_Hashmap\<close>,
  \<^verbatim>\<open>AFL_HashmapProps\<close>: \<^verbatim>\<open>src/hashmap.c\<close>), chains of nodes in an explicit heap that refine a multiset.
  \<^bold>\<open>Growing buffers\<close> (\<^verbatim>\<open>AFL_Alloc\<close>, \<^verbatim>\<open>AFL_AllocProps\<close>: \<^verbatim>\<open>include/alloc-inl.h\<close>).

  \<^bold>\<open>Dictionaries\<close> (\<^verbatim>\<open>AFL_Extras\<close>, \<^verbatim>\<open>AFL_ExtrasProps\<close>: \<^verbatim>\<open>src/afl-fuzz-extras.c\<close>). The parser of dictionary
  files, which splits a file into pieces of at most \<open>MAX_LINE\<close> - 1 bytes as \<open>fgets\<close> does (\<open>file_lines\<close>), and the operations on the user's and the automatic tokens; \<open>qsort\<close> is an argument that
  promises a sorted permutation (\<open>qsort_ok\<close>).

  \<^bold>\<open>Deterministic stages\<close> (\<^verbatim>\<open>src/afl-fuzz-one.c\<close>). \<^verbatim>\<open>AFL_DetFilters\<close> holds the filters that avoid
  repeated executions and \<^verbatim>\<open>AFL_DetStages\<close> the sixteen stages and their composition; the \<open>goto\<close>s
  are the constructors of \<open>flow\<close>. The target, the clock and the hash of the trace are the fields of
  the record \<open>host\<close>. \<^verbatim>\<open>AFL_DetLemmas\<close> has the proof rules (\<open>fpost\<close>, loop invariants) and the flips,
  \<^verbatim>\<open>AFL_DetValues\<close> the arithmetic and interesting values, \<^verbatim>\<open>AFL_DetTokens\<close> and \<^verbatim>\<open>AFL_DetInsert\<close> the
  dictionary stages, \<^verbatim>\<open>AFL_DetCompose\<close> the lists of executed test cases that specify the stages,
  \<^verbatim>\<open>AFL_DetReturn\<close> that they return and when they draw random numbers, \<^verbatim>\<open>AFL_DetCover\<close> which test cases the lists contain, and
  \<^verbatim>\<open>AFL_DetProps\<close> the properties.

  \<^bold>\<open>Test case minimizer\<close> (\<^verbatim>\<open>src/afl-tmin.c\<close>). \<^verbatim>\<open>AFL_Tmin\<close> has the decision on a run, the four stages, the
  passes and the part of \<open>main\<close> around them; \<^verbatim>\<open>AFL_TminLemmas\<close> what each stage does to a test case that
  the target accepts, and \<^verbatim>\<open>AFL_TminProps\<close> the termination of the passes and the result of the program.

  \<^bold>\<open>Queue\<close> (\<^verbatim>\<open>src/afl-fuzz-queue.c\<close>). \<^verbatim>\<open>AFL_Queue\<close> has the entries, the competition for the edges and the
  choice of the favored entries; \<^verbatim>\<open>AFL_QueueProps\<close> the invariant \<open>rated\<close> that ties reference counts and
  compacted traces to the winners. An entry that is rated again keeps its compacted trace even if its trace has changed, so
  \<open>rated_but D\<close> allows for a set \<open>D\<close> of edges that their winners' compacted traces lack, and \<open>stale\<close> is what one call can
  add to it. \<^verbatim>\<open>AFL_CullProps\<close> the loop of \<open>cull_queue\<close> and the properties.
  \<^verbatim>\<open>AFL_Text\<close> and \<^verbatim>\<open>AFL_TextProps\<close> have the recognition of text against the definition of UTF-8.

  \<^bold>\<open>Test case cache\<close> (\<^verbatim>\<open>src/afl-fuzz-queue.c\<close>). \<^verbatim>\<open>AFL_Cache\<close> has the loading of a test case with the random
  eviction of others, the storing and the refreshing after a trim. \<^verbatim>\<open>AFL_CacheProps\<close> has the invariant
  \<open>cache_ok\<close> and shows that a load never faults and that its search loops end, with every generator of the locale
  \<open>rng_source\<close>. The random choice of a slot ends when the generator, from its present state, draws a usable slot
  sooner or later (\<open>serves\<close>); a load that needs no room draws nothing. \<^verbatim>\<open>AFL_CacheRuns\<close> composes the operations with
  \<open>add_to_queue\<close> to runs and carries the invariant along them.

  \<^bold>\<open>Trimming\<close> (\<^verbatim>\<open>src/afl-fuzz-run.c\<close>, \<^verbatim>\<open>src/afl-fuzz-one.c\<close>). \<^verbatim>\<open>AFL_Trim\<close> has \<open>write_with_gap\<close>, \<open>trim_case\<close> and
  its caller, over the queue, the cache, \<open>classify_counts\<close> and \<open>update_bitmap_score\<close> of the theories above.
  \<^verbatim>\<open>AFL_TrimLemmas\<close> has what one step and one loop do for any target, \<^verbatim>\<open>AFL_TrimProps\<close> the properties: that the trim
  ends, keeps the checksum of the trace on a target whose trace depends on the input only, keeps the scores but for edges
  that a run with the same checksum hits and the compacted trace lacks (\<open>missed\<close>, a collision of the hash), and what it does to the file and to the account of the cache.

  \<^bold>\<open>Saving and calibration\<close> (\<^verbatim>\<open>src/afl-fuzz-bitmap.c\<close>, \<^verbatim>\<open>src/afl-fuzz-run.c\<close>). \<^verbatim>\<open>AFL_Save\<close> has \<open>common_fuzz_stuff\<close>,
  \<open>save_if_interesting\<close> with its labels as the constructors of \<open>save_pc\<close>, and \<open>calibrate_case\<close>, over the coverage
  maps, the queue and the cache. \<^verbatim>\<open>AFL_SaveLemmas\<close> has the invariant \<open>save_ok\<close> of the state between two executions,
  \<^verbatim>\<open>AFL_CalLemmas\<close> that calibration ends and keeps it, \<^verbatim>\<open>AFL_SaveSteps\<close> the same for adding to the queue and the cache.
  \<^verbatim>\<open>AFL_SaveRuns\<close> composes them for any target, with a measure for the jumps back to \<open>save_to_queue\<close>, and \<^verbatim>\<open>AFL_SaveProps\<close>
  has the properties: that a step returns and is safe, when an input is queued or kept as a crash, and the one loop that
  does not end.

  \<^bold>\<open>Bounds.\<close> No fuel is used: loops of the code are structural recursion over their range, a
  \<open>function\<close> with a measure, or \<open>run_loop\<close>, whose value \<open>Diverge\<close> is excluded by the theorems.
  Test cases have at most \<open>MAX_FILE\<close> bytes.

  \<^bold>\<open>Not modelled.\<close> Process control, shared memory, files, terminal output and statistics (effects
  with no pure core), the compiler passes and runtime, the custom mutator and Python glue, and the
  bundled libraries. Of \<open>fuzz_one_original\<close> the havoc stage repeats the operators of
  \<open>afl_mutate\<close> with its own bookkeeping and is not modelled a second time. Floating point code
  (\<open>rand_next_percent\<close>, \<open>calculate_score\<close>, the weights of the queue) is left out, as are the
  vector variants of \<open>skim\<close>.
\<close>

end
